(* ===== verification/Prelude.thy ===== *)
theory Prelude
  imports Main "HOL-Library.Word" "HOL-Library.Multiset"
begin

unbundle bit_operations_syntax

text \<open>
  Shared vocabulary of the development.

  \<^item> The outcome of a kernel operation: a value, or the reason why the code never returns
    one. \<open>Assertion\<close> is a failed \<^verbatim>\<open>ASSERT\<close> or \<^verbatim>\<open>NOT_REACHED\<close> (lib/debug.h), which halts
    the machine; \<open>Panic\<close> is an explicit \<^verbatim>\<open>PANIC\<close> with its message; \<open>Undefined\<close> is
    behaviour the C language does not define (a null or wild dereference, an uninitialised
    read); \<open>Diverged\<close> is a loop that has used up the iterations it was given.
  \<^item> \<open>rbind\<close> sequences two steps, \<open>kassert\<close> is \<^verbatim>\<open>ASSERT\<close>.
  \<^item> The machine integers of the i386 target (\<^verbatim>\<open>size_t\<close>, \<^verbatim>\<open>unsigned\<close> and pointers are
    32 bits wide).
\<close>

datatype fault = Assertion | Panic string | Undefined | Diverged

type_synonym 'a res = "fault + 'a"

type_synonym u8 = "8 word"
type_synonym u16 = "16 word"
type_synonym u32 = "32 word"
type_synonym u64 = "64 word"

named_theorems res_simps \<open>evaluation and inversion of fallible steps\<close>

definition rbind :: "'a res \<Rightarrow> ('a \<Rightarrow> 'b res) \<Rightarrow> 'b res" where
  "rbind m f = (case m of Inl e \<Rightarrow> Inl e | Inr x \<Rightarrow> f x)"

definition kassert :: "bool \<Rightarrow> 'a res \<Rightarrow> 'a res" where
  "kassert b r = (if b then r else Inl Assertion)"

definition kdefined :: "bool \<Rightarrow> 'a res \<Rightarrow> 'a res" where
  "kdefined b r = (if b then r else Inl Undefined)"

lemma rbind_Inl [simp]: "rbind (Inl e) f = Inl e"
  by (simp add: rbind_def)

lemma rbind_Inr [simp]: "rbind (Inr x) f = f x"
  by (simp add: rbind_def)

lemma kassert_True [simp]: "b \<Longrightarrow> kassert b r = r"
  by (simp add: kassert_def)

lemma kassert_False [simp]: "\<not> b \<Longrightarrow> kassert b r = Inl Assertion"
  by (simp add: kassert_def)

lemma kdefined_True [simp]: "b \<Longrightarrow> kdefined b r = r"
  by (simp add: kdefined_def)

lemma kdefined_False [simp]: "\<not> b \<Longrightarrow> kdefined b r = Inl Undefined"
  by (simp add: kdefined_def)

lemma rbind_eq_Inr [res_simps]: "rbind m f = Inr y \<longleftrightarrow> (\<exists>x. m = Inr x \<and> f x = Inr y)"
  by (cases m) auto

lemma rbind_eq_Inl [res_simps]:
  "rbind m f = Inl e \<longleftrightarrow> m = Inl e \<or> (\<exists>x. m = Inr x \<and> f x = Inl e)"
  by (cases m) auto

lemma kassert_eq_Inr [res_simps]: "kassert b r = Inr y \<longleftrightarrow> b \<and> r = Inr y"
  by (simp add: kassert_def)

lemma kassert_eq_Inl [res_simps]:
  "kassert b r = Inl e \<longleftrightarrow> (b \<and> r = Inl e) \<or> (\<not> b \<and> e = Assertion)"
  by (auto simp: kassert_def)

lemma kdefined_eq_Inr [res_simps]: "kdefined b r = Inr y \<longleftrightarrow> b \<and> r = Inr y"
  by (simp add: kdefined_def)

lemma rbind_assoc: "rbind (rbind m f) g = rbind m (\<lambda>x. rbind (f x) g)"
  by (cases m) simp_all

lemma rbind_cong [fundef_cong]:
  "m = m' \<Longrightarrow> (\<And>x. m' = Inr x \<Longrightarrow> f x = f' x) \<Longrightarrow> rbind m f = rbind m' f'"
  by (cases m') simp_all

lemma kassert_cong [fundef_cong]:
  "b = b' \<Longrightarrow> (b' \<Longrightarrow> r = r') \<Longrightarrow> kassert b r = kassert b' r'"
  by (simp add: kassert_def)

lemma kdefined_cong [fundef_cong]:
  "b = b' \<Longrightarrow> (b' \<Longrightarrow> r = r') \<Longrightarrow> kdefined b r = kdefined b' r'"
  by (simp add: kdefined_def)

subsection \<open>Sizes\<close>

text \<open>
  A \<^verbatim>\<open>size_t\<close> quantity is kept as a natural number below \<open>2 ^ 32\<close>; \<open>sz\<close> is the
  wrap-around of its arithmetic. The rounding macros of lib/round.h are evaluated with it.
\<close>

definition sz :: "nat \<Rightarrow> nat" where
  "sz n = n mod 2 ^ 32"

definition DIV_ROUND_UP :: "nat \<Rightarrow> nat \<Rightarrow> nat" where
  "DIV_ROUND_UP x step = sz (x + step - 1) div step"

definition ROUND_UP :: "nat \<Rightarrow> nat \<Rightarrow> nat" where
  "ROUND_UP x step = sz (sz (x + step - 1) div step * step)"

definition ROUND_DOWN :: "nat \<Rightarrow> nat \<Rightarrow> nat" where
  "ROUND_DOWN x step = x div step * step"

lemma sz_id: "n < 2 ^ 32 \<Longrightarrow> sz n = n"
  by (simp add: sz_def)

lemma DIV_ROUND_UP_id: "x + step < 2 ^ 32 \<Longrightarrow> DIV_ROUND_UP x step = (x + step - 1) div step"
  by (simp add: DIV_ROUND_UP_def sz_id)

lemma unat_u32_less: "unat (w :: u32) < 4294967296"
  using unsigned_less [where ?'a = nat and w = w] by simp

lemma unat_of_nat_u32: "n < 2 ^ 32 \<Longrightarrow> unat (of_nat n :: u32) = n"
  by (simp add: unat_of_nat take_bit_eq_mod)

lemma unat_plus_of_nat: "unat (a :: u32) + n < 2 ^ 32 \<Longrightarrow> unat (a + of_nat n) = unat a + n"
  by (simp add: unat_word_ariths(1) unat_of_nat take_bit_eq_mod)

subsection \<open>Searching an interval\<close>

lemma find_upt_extend:
  assumes "\<And>k. m \<le> k \<Longrightarrow> \<not> P k" "m \<le> n"
  shows "List.find P [i..<n] = List.find P [i..<m]"
  using assms(2)
proof (induction n rule: dec_induct)
  case (step n)
  have "List.find P (xs @ [n]) = List.find P xs" for xs
    using assms(1) [OF step.hyps(1)] by (induction xs) auto
  then show ?case using step by (cases "i \<le> n") auto
qed simp

lemma find_upt_Some:
  assumes "List.find P [i..<n] = Some k"
  shows "P k \<and> i \<le> k \<and> k < n \<and> (\<forall>j. i \<le> j \<longrightarrow> j < k \<longrightarrow> \<not> P j)"
proof -
  obtain m where m: "m < length [i..<n]" "P ([i..<n] ! m)" "k = [i..<n] ! m" "\<And>j. j < m \<Longrightarrow> \<not> P ([i..<n] ! j)"
    using assms by (auto simp: find_Some_iff)
  have "\<not> P j" if "i \<le> j" "j < k" for j
    using m(1,3) m(4) [of "j - i"] that by simp
  then show ?thesis using m by simp
qed

subsection \<open>Comparison functions\<close>

text \<open>
  Every ordered container of the kernel takes a comparison function (\<^verbatim>\<open>list_less_func\<close>,
  \<^verbatim>\<open>hash_less_func\<close>). What the containers rely on is that it is a strict weak order:
  incomparability is an equivalence.
\<close>

locale strict_weak_order =
  fixes lt :: "'a \<Rightarrow> 'a \<Rightarrow> bool"
  assumes asym: "lt x y \<Longrightarrow> \<not> lt y x"
    and negtrans: "\<not> lt x y \<Longrightarrow> \<not> lt y z \<Longrightarrow> \<not> lt x z"
begin

lemma irrefl: "\<not> lt x x"
  using asym by blast

lemma trans: "lt x y \<Longrightarrow> lt y z \<Longrightarrow> lt x z"
  using asym negtrans by blast

lemma not_less_trans: "\<not> lt y x \<Longrightarrow> \<not> lt z y \<Longrightarrow> \<not> lt z x"
  using negtrans by blast

end

end
