(* ===== verification/Klist.thy ===== *)
theory Klist
  imports Prelude
begin

text \<open>
  lib/kernel/list.c: the kernel's intrusive doubly linked list, at the level of its
  pointers. A heap maps the address of every \<^verbatim>\<open>struct list_elem\<close> to its two links; the
  null pointer is address 0; a \<^verbatim>\<open>struct list\<close> is the addresses of its two header elements.
  Loops that chase pointers carry a fuel argument that bounds their iterations; the
  refinement lemmas say that fuel larger than the number of elements is always enough.
\<close>

subsection \<open>The heap and the list structure\<close>

type_synonym addr = nat

record list_elem =
  le_prev :: addr
  le_next :: addr

type_synonym list_heap = "addr \<Rightarrow> list_elem"

record klist =
  l_head :: addr
  l_tail :: addr

abbreviation NULL :: addr where
  "NULL \<equiv> 0"

definition set_prev :: "addr \<Rightarrow> addr \<Rightarrow> list_heap \<Rightarrow> list_heap" where
  "set_prev a v h = h(a := (h a)\<lparr>le_prev := v\<rparr>)"

definition set_next :: "addr \<Rightarrow> addr \<Rightarrow> list_heap \<Rightarrow> list_heap" where
  "set_next a v h = h(a := (h a)\<lparr>le_next := v\<rparr>)"

definition is_head :: "list_heap \<Rightarrow> addr \<Rightarrow> bool" where
  "is_head h e \<longleftrightarrow> e \<noteq> NULL \<and> le_prev (h e) = NULL \<and> le_next (h e) \<noteq> NULL"

definition is_interior :: "list_heap \<Rightarrow> addr \<Rightarrow> bool" where
  "is_interior h e \<longleftrightarrow> e \<noteq> NULL \<and> le_prev (h e) \<noteq> NULL \<and> le_next (h e) \<noteq> NULL"

definition is_tail :: "list_heap \<Rightarrow> addr \<Rightarrow> bool" where
  "is_tail h e \<longleftrightarrow> e \<noteq> NULL \<and> le_prev (h e) \<noteq> NULL \<and> le_next (h e) = NULL"

subsection \<open>Operations without loops\<close>

definition list_init :: "klist \<Rightarrow> list_heap \<Rightarrow> list_heap" where
  "list_init l h =
     set_next (l_tail l) NULL
      (set_prev (l_tail l) (l_head l)
        (set_next (l_head l) (l_tail l)
          (set_prev (l_head l) NULL h)))"

definition list_begin :: "list_heap \<Rightarrow> klist \<Rightarrow> addr" where
  "list_begin h l = le_next (h (l_head l))"

definition list_next :: "list_heap \<Rightarrow> addr \<Rightarrow> addr res" where
  "list_next h e = kassert (is_head h e \<or> is_interior h e) (Inr (le_next (h e)))"

definition list_end :: "klist \<Rightarrow> addr" where
  "list_end l = l_tail l"

definition list_rbegin :: "list_heap \<Rightarrow> klist \<Rightarrow> addr" where
  "list_rbegin h l = le_prev (h (l_tail l))"

definition list_prev :: "list_heap \<Rightarrow> addr \<Rightarrow> addr res" where
  "list_prev h e = kassert (is_interior h e \<or> is_tail h e) (Inr (le_prev (h e)))"

definition list_rend :: "klist \<Rightarrow> addr" where
  "list_rend l = l_head l"

definition list_head :: "klist \<Rightarrow> addr" where
  "list_head l = l_head l"

definition list_tail :: "klist \<Rightarrow> addr" where
  "list_tail l = l_tail l"

definition list_insert :: "addr \<Rightarrow> addr \<Rightarrow> list_heap \<Rightarrow> list_heap res" where
  "list_insert before e h =
     kassert (is_interior h before \<or> is_tail h before)
      (kassert (e \<noteq> NULL)
        (let h1 = set_prev e (le_prev (h before)) h;
             h2 = set_next e before h1;
             h3 = set_next (le_prev (h2 before)) e h2
         in Inr (set_prev before e h3)))"

definition list_splice :: "addr \<Rightarrow> addr \<Rightarrow> addr \<Rightarrow> list_heap \<Rightarrow> list_heap res" where
  "list_splice before first last0 h =
     kassert (is_interior h before \<or> is_tail h before)
      (if first = last0 then Inr h
       else rbind (list_prev h last0) (\<lambda>last.
         kassert (is_interior h first)
          (kassert (is_interior h last)
            (let h1 = set_next (le_prev (h first)) (le_next (h last)) h;
                 h2 = set_prev (le_next (h1 last)) (le_prev (h1 first)) h1;
                 h3 = set_prev first (le_prev (h2 before)) h2;
                 h4 = set_next last before h3;
                 h5 = set_next (le_prev (h4 before)) first h4
             in Inr (set_prev before last h5)))))"

definition list_push_front :: "klist \<Rightarrow> addr \<Rightarrow> list_heap \<Rightarrow> list_heap res" where
  "list_push_front l e h = list_insert (list_begin h l) e h"

definition list_push_back :: "klist \<Rightarrow> addr \<Rightarrow> list_heap \<Rightarrow> list_heap res" where
  "list_push_back l e h = list_insert (list_end l) e h"

definition list_remove :: "addr \<Rightarrow> list_heap \<Rightarrow> (addr \<times> list_heap) res" where
  "list_remove e h =
     kassert (is_interior h e)
      (let h1 = set_next (le_prev (h e)) (le_next (h e)) h;
           h2 = set_prev (le_next (h1 e)) (le_prev (h1 e)) h1
       in Inr (le_next (h2 e), h2))"

definition list_empty :: "list_heap \<Rightarrow> klist \<Rightarrow> bool" where
  "list_empty h l \<longleftrightarrow> list_begin h l = list_end l"

definition list_front :: "list_heap \<Rightarrow> klist \<Rightarrow> addr res" where
  "list_front h l = kassert (\<not> list_empty h l) (Inr (le_next (h (l_head l))))"

definition list_back :: "list_heap \<Rightarrow> klist \<Rightarrow> addr res" where
  "list_back h l = kassert (\<not> list_empty h l) (Inr (le_prev (h (l_tail l))))"

definition list_pop_front :: "klist \<Rightarrow> list_heap \<Rightarrow> (addr \<times> list_heap) res" where
  "list_pop_front l h =
     rbind (list_front h l) (\<lambda>front.
     rbind (list_remove front h) (\<lambda>(_, h'). Inr (front, h')))"

definition list_pop_back :: "klist \<Rightarrow> list_heap \<Rightarrow> (addr \<times> list_heap) res" where
  "list_pop_back l h =
     rbind (list_back h l) (\<lambda>back.
     rbind (list_remove back h) (\<lambda>(_, h'). Inr (back, h')))"

subsection \<open>Operations that walk the list\<close>

fun list_size_loop :: "nat \<Rightarrow> list_heap \<Rightarrow> klist \<Rightarrow> addr \<Rightarrow> nat \<Rightarrow> nat res" where
  "list_size_loop 0 h l e cnt = Inl Diverged"
| "list_size_loop (Suc n) h l e cnt =
     (if e = list_end l then Inr cnt
      else rbind (list_next h e) (\<lambda>e'. list_size_loop n h l e' (Suc cnt)))"

definition list_size :: "nat \<Rightarrow> list_heap \<Rightarrow> klist \<Rightarrow> nat res" where
  "list_size n h l = list_size_loop n h l (list_begin h l) 0"

fun list_exist_loop :: "nat \<Rightarrow> list_heap \<Rightarrow> klist \<Rightarrow> addr \<Rightarrow> addr \<Rightarrow> bool res" where
  "list_exist_loop 0 h l e k = Inl Diverged"
| "list_exist_loop (Suc n) h l e k =
     (if k = list_end l then Inr False
      else if k = e then Inr True
      else rbind (list_next h k) (\<lambda>k'. list_exist_loop n h l e k'))"

definition list_exist :: "nat \<Rightarrow> list_heap \<Rightarrow> klist \<Rightarrow> addr \<Rightarrow> bool res" where
  "list_exist n h l e = list_exist_loop n h l e (list_begin h l)"

definition swap_links :: "addr \<Rightarrow> list_heap \<Rightarrow> list_heap" where
  "swap_links e h = h(e := \<lparr>le_prev = le_next (h e), le_next = le_prev (h e)\<rparr>)"

fun list_reverse_loop :: "nat \<Rightarrow> klist \<Rightarrow> addr \<Rightarrow> list_heap \<Rightarrow> list_heap res" where
  "list_reverse_loop 0 l e h = Inl Diverged"
| "list_reverse_loop (Suc n) l e h =
     (if e = list_end l then Inr h
      else kdefined (e \<noteq> NULL)
        (let h' = swap_links e h in list_reverse_loop n l (le_prev (h' e)) h'))"

definition list_reverse :: "nat \<Rightarrow> klist \<Rightarrow> list_heap \<Rightarrow> list_heap res" where
  "list_reverse n l h =
     (if list_empty h l then Inr h
      else rbind (list_reverse_loop n l (list_begin h l) h) (\<lambda>h1.
        let f = le_next (h1 (l_head l)); b = le_prev (h1 (l_tail l));
            h2 = set_prev (l_tail l) f (set_next (l_head l) b h1);
            p = le_next (h2 (l_head l)); q = le_prev (h2 (l_tail l));
            x = le_prev (h2 p); y = le_next (h2 q)
        in kdefined (p \<noteq> NULL \<and> q \<noteq> NULL) (Inr (set_next q x (set_prev p y h2)))))"

fun list_insert_ordered_loop ::
  "nat \<Rightarrow> (addr \<Rightarrow> addr \<Rightarrow> bool) \<Rightarrow> klist \<Rightarrow> addr \<Rightarrow> addr \<Rightarrow> list_heap \<Rightarrow> addr res" where
  "list_insert_ordered_loop 0 lt l x e h = Inl Diverged"
| "list_insert_ordered_loop (Suc n) lt l x e h =
     (if e = list_end l then Inr e
      else if lt x e then Inr e
      else rbind (list_next h e) (\<lambda>e'. list_insert_ordered_loop n lt l x e' h))"

definition list_insert_ordered ::
  "nat \<Rightarrow> (addr \<Rightarrow> addr \<Rightarrow> bool) \<Rightarrow> klist \<Rightarrow> addr \<Rightarrow> list_heap \<Rightarrow> list_heap res" where
  "list_insert_ordered n lt l x h =
     kassert (x \<noteq> NULL)
      (rbind (list_insert_ordered_loop n lt l x (list_begin h l) h)
        (\<lambda>e. list_insert e x h))"

fun list_unique_loop ::
  "nat \<Rightarrow> (addr \<Rightarrow> addr \<Rightarrow> bool) \<Rightarrow> klist \<Rightarrow> klist option \<Rightarrow> addr \<Rightarrow> list_heap \<Rightarrow> list_heap res"
where
  "list_unique_loop 0 lt l dups e h = Inl Diverged"
| "list_unique_loop (Suc n) lt l dups e h =
     rbind (list_next h e) (\<lambda>next.
       if next = list_end l then Inr h
       else if \<not> lt e next \<and> \<not> lt next e then
         rbind (list_remove next h) (\<lambda>(_, h1).
         case dups of
           None \<Rightarrow> list_unique_loop n lt l dups e h1
         | Some d \<Rightarrow> rbind (list_push_back d next h1) (\<lambda>h2.
             list_unique_loop n lt l dups e h2))
       else list_unique_loop n lt l dups next h)"

definition list_unique ::
  "nat \<Rightarrow> (addr \<Rightarrow> addr \<Rightarrow> bool) \<Rightarrow> klist \<Rightarrow> klist option \<Rightarrow> list_heap \<Rightarrow> list_heap res" where
  "list_unique n lt l dups h =
     (if list_empty h l then Inr h else list_unique_loop n lt l dups (list_begin h l) h)"

fun list_max_loop ::
  "nat \<Rightarrow> (addr \<Rightarrow> addr \<Rightarrow> bool) \<Rightarrow> list_heap \<Rightarrow> klist \<Rightarrow> addr \<Rightarrow> addr \<Rightarrow> addr res" where
  "list_max_loop 0 lt h l m e = Inl Diverged"
| "list_max_loop (Suc n) lt h l m e =
     (if e = list_end l then Inr m
      else rbind (list_next h e) (\<lambda>e'.
        list_max_loop n lt h l (if lt m e then e else m) e'))"

definition list_max :: "nat \<Rightarrow> (addr \<Rightarrow> addr \<Rightarrow> bool) \<Rightarrow> list_heap \<Rightarrow> klist \<Rightarrow> addr res" where
  "list_max n lt h l =
     (let m = list_begin h l in
      if m \<noteq> list_end l
      then rbind (list_next h m) (\<lambda>e. list_max_loop n lt h l m e)
      else Inr m)"

fun list_min_loop ::
  "nat \<Rightarrow> (addr \<Rightarrow> addr \<Rightarrow> bool) \<Rightarrow> list_heap \<Rightarrow> klist \<Rightarrow> addr \<Rightarrow> addr \<Rightarrow> addr res" where
  "list_min_loop 0 lt h l m e = Inl Diverged"
| "list_min_loop (Suc n) lt h l m e =
     (if e = list_end l then Inr m
      else rbind (list_next h e) (\<lambda>e'.
        list_min_loop n lt h l (if lt e m then e else m) e'))"

definition list_min :: "nat \<Rightarrow> (addr \<Rightarrow> addr \<Rightarrow> bool) \<Rightarrow> list_heap \<Rightarrow> klist \<Rightarrow> addr res" where
  "list_min n lt h l =
     (let m = list_begin h l in
      if m \<noteq> list_end l
      then rbind (list_next h m) (\<lambda>e. list_min_loop n lt h l m e)
      else Inr m)"

subsection \<open>Abstraction: a well-formed list and the sequence it holds\<close>

text \<open>
  \<open>links h ns\<close>: consecutive nodes of \<open>ns\<close> point at each other. \<open>dll h l xs\<close>: the
  structure \<open>l\<close> is a well-formed list whose interior elements are \<open>xs\<close>, in order.
\<close>

fun links :: "list_heap \<Rightarrow> addr list \<Rightarrow> bool" where
  "links h (a # b # ns) \<longleftrightarrow> le_next (h a) = b \<and> le_prev (h b) = a \<and> links h (b # ns)"
| "links h ns \<longleftrightarrow> True"

definition nodes :: "klist \<Rightarrow> addr list \<Rightarrow> addr list" where
  "nodes l xs = l_head l # xs @ [l_tail l]"

definition dll :: "list_heap \<Rightarrow> klist \<Rightarrow> addr list \<Rightarrow> bool" where
  "dll h l xs \<longleftrightarrow>
     distinct (nodes l xs) \<and> NULL \<notin> set (nodes l xs) \<and>
     le_prev (h (l_head l)) = NULL \<and> le_next (h (l_tail l)) = NULL \<and> links h (nodes l xs)"

lemma sel_set_links [simp]:
  "le_prev (set_prev a v h b) = (if b = a then v else le_prev (h b))"
  "le_next (set_prev a v h b) = le_next (h b)"
  "le_next (set_next a v h b) = (if b = a then v else le_next (h b))"
  "le_prev (set_next a v h b) = le_prev (h b)"
  by (simp_all add: set_prev_def set_next_def)

lemma set_links_other [simp]:
  "b \<noteq> a \<Longrightarrow> set_prev a v h b = h b"
  "b \<noteq> a \<Longrightarrow> set_next a v h b = h b"
  by (simp_all add: set_prev_def set_next_def)

lemma in_set_tlD: "x \<in> set (tl xs) \<Longrightarrow> x \<in> set xs"
  by (cases xs) auto

lemma links_append: "links h (xs @ a # ys) \<longleftrightarrow> links h (xs @ [a]) \<and> links h (a # ys)"
  by (induction h xs rule: links.induct) simp_all

lemma links_split:
  "links h (xs @ a # b # ys) \<longleftrightarrow>
     links h (xs @ [a]) \<and> le_next (h a) = b \<and> le_prev (h b) = a \<and> links h (b # ys)"
  using links_append[of h xs a "b # ys"] by simp

lemma links_cong:
  assumes "\<And>a. a \<in> set (butlast ns) \<Longrightarrow> le_next (h' a) = le_next (h a)"
    and "\<And>a. a \<in> set (tl ns) \<Longrightarrow> le_prev (h' a) = le_prev (h a)"
  shows "links h' ns = links h ns"
  using assms
proof (induction h ns rule: links.induct)
  case (1 h a b ns)
  have "links h' (b # ns) = links h (b # ns)"
    using "1.prems" by (intro "1.IH") auto
  then show ?case using "1.prems" by auto
qed auto

lemma links_set_next_last: "a \<notin> set xs \<Longrightarrow> links (set_next a v h) (xs @ [a]) = links h (xs @ [a])"
  by (rule links_cong) auto

lemma links_set_prev_first: "a \<notin> set xs \<Longrightarrow> links (set_prev a v h) (a # xs) = links h (a # xs)"
  by (rule links_cong) auto

lemma links_set_notin:
  assumes "a \<notin> set xs"
  shows "links (set_next a v h) xs = links h xs" "links (set_prev a v h) xs = links h xs"
  using assms by (auto intro!: links_cong dest: in_set_butlastD in_set_tlD)

lemma last_notin_butlast: "distinct xs \<Longrightarrow> xs \<noteq> [] \<Longrightarrow> last xs \<notin> set (butlast xs)"
  by (cases xs rule: rev_cases) auto

lemma hd_notin_tl: "distinct xs \<Longrightarrow> xs \<noteq> [] \<Longrightarrow> hd xs \<notin> set (tl xs)"
  by (cases xs) auto

lemma notin_tl: "x \<notin> set xs \<Longrightarrow> x \<notin> set (tl xs)"
  by (cases xs) auto

lemma notin_butlast: "x \<notin> set xs \<Longrightarrow> x \<notin> set (butlast xs)"
  by (blast dest: in_set_butlastD)

lemma links_set_prev: "e \<notin> set (tl ns) \<Longrightarrow> links (set_prev e v h) ns = links h ns"
  by (rule links_cong) auto

lemma links_set_next: "e \<notin> set (butlast ns) \<Longrightarrow> links (set_next e v h) ns = links h ns"
  by (rule links_cong) auto

lemma links_join:
  "links h (xs @ ys) \<longleftrightarrow>
     links h xs \<and> links h ys \<and>
     (xs \<noteq> [] \<longrightarrow> ys \<noteq> [] \<longrightarrow> le_next (h (last xs)) = hd ys \<and> le_prev (h (hd ys)) = last xs)"
proof (cases xs rule: rev_cases)
  case (snoc zs z)
  then show ?thesis using links_append[of h zs z ys] by (cases ys) auto
qed simp

lemma dll_Nil_init:
  "l_head l \<noteq> l_tail l \<Longrightarrow> l_head l \<noteq> NULL \<Longrightarrow> l_tail l \<noteq> NULL \<Longrightarrow> dll (list_init l h) l []"
  by (simp add: dll_def nodes_def list_init_def)

lemma dll_distinct: "dll h l xs \<Longrightarrow> distinct xs"
  by (simp add: dll_def nodes_def)

lemma dll_headers:
  assumes "dll h l xs"
  shows "l_head l \<notin> set xs" "l_tail l \<notin> set xs" "l_head l \<noteq> l_tail l"
    "l_head l \<noteq> NULL" "l_tail l \<noteq> NULL" "NULL \<notin> set xs"
  using assms by (auto simp: dll_def nodes_def)

lemma dll_adjacent:
  assumes "dll h l xs" "nodes l xs = A @ a # b # B"
  shows "le_next (h a) = b" "le_prev (h b) = a"
  using assms by (auto simp: dll_def links_split)

lemma dll_interior:
  assumes "dll h l xs" "x \<in> set xs"
  shows "is_interior h x"
proof -
  from assms(2) obtain A B where "xs = A @ x # B" by (meson split_list)
  then have 1: "nodes l xs = (l_head l # A) @ x # (B @ [l_tail l])"
    by (simp add: nodes_def)
  obtain b B' where B: "B @ [l_tail l] = b # B'" by (cases B) auto
  obtain A' a where A: "l_head l # A = A' @ [a]" using rev_exhaust by blast
  have "le_next (h x) = b" "le_prev (h x) = a"
    using dll_adjacent(1)[OF assms(1), of "A' @ [a]" x b B']
      dll_adjacent(2)[OF assms(1), of A' a x "b # B'"] 1 A B by simp_all
  moreover have "b \<noteq> NULL" "a \<noteq> NULL" "x \<noteq> NULL"
    using assms(1) unfolding dll_def 1 A B by auto
  ultimately show ?thesis by (simp add: is_interior_def)
qed

lemma dll_is_head: "dll h l xs \<Longrightarrow> is_head h (l_head l)"
  by (cases xs) (auto simp: dll_def nodes_def is_head_def)

lemma dll_is_tail: "dll h l xs \<Longrightarrow> is_tail h (l_tail l)"
proof -
  assume d: "dll h l xs"
  obtain A a where A: "l_head l # xs = A @ [a]" using rev_exhaust by blast
  then have "nodes l xs = A @ [a, l_tail l]" unfolding nodes_def by simp
  with d show ?thesis
    by (auto simp: dll_def is_tail_def links_split)
qed

lemma dll_begin: "dll h l xs \<Longrightarrow> list_begin h l = hd (xs @ [l_tail l])"
  by (cases xs) (auto simp: dll_def nodes_def list_begin_def)

lemma dll_rbegin: "dll h l xs \<Longrightarrow> list_rbegin h l = last (l_head l # xs)"
proof -
  assume d: "dll h l xs"
  obtain A a where A: "l_head l # xs = A @ [a]" using rev_exhaust by blast
  then have "nodes l xs = A @ [a, l_tail l]" unfolding nodes_def by simp
  with d show ?thesis unfolding A
    by (auto simp: dll_def list_rbegin_def links_split)
qed

lemma dll_next:
  assumes "dll h l (A @ x # B)"
  shows "list_next h x = Inr (hd (B @ [l_tail l]))"
proof -
  have "is_interior h x" using assms by (auto intro: dll_interior)
  moreover have n: "nodes l (A @ x # B) = (l_head l # A) @ x # hd (B @ [l_tail l]) # tl (B @ [l_tail l])"
    by (cases B) (auto simp: nodes_def)
  ultimately show ?thesis
    using dll_adjacent(1)[OF assms n] by (simp add: list_next_def)
qed

lemma dll_prev:
  assumes "dll h l (A @ B)"
  shows "list_prev h (hd (B @ [l_tail l])) = Inr (last (l_head l # A))"
proof -
  let ?b = "hd (B @ [l_tail l])"
  have "is_interior h ?b \<or> is_tail h ?b"
    using assms dll_interior dll_is_tail by (cases B) auto
  moreover have n: "nodes l (A @ B) = butlast (l_head l # A) @ last (l_head l # A) # ?b # tl (B @ [l_tail l])"
    unfolding nodes_def by (cases B) (simp_all add: append_butlast_last_id[symmetric] del: butlast.simps last.simps)
  ultimately show ?thesis
    using dll_adjacent(2)[OF assms n] by (simp add: list_prev_def)
qed


lemma links_insert:
  assumes "links h (P @ p # b # S)" "distinct (P @ p # b # S)" "x \<notin> set (P @ p # b # S)"
  shows "links (set_prev b x (set_next p x (set_next x b (set_prev x p h)))) (P @ p # x # b # S)"
  using assms
  by (auto simp: links_split links_set_notin links_set_next_last links_set_prev_first
      links_append[of _ P p "_ # _"])

lemma links_remove:
  assumes "links h (P @ p # x # b # S)" "distinct (P @ p # x # b # S)"
  shows "links (set_prev b p (set_next p b h)) (P @ p # b # S)"
  using assms
  by (auto simp: links_split links_set_notin links_set_next_last links_set_prev_first
      links_append[of _ P p "_ # _"])

lemma hd_snoc: "hd (B @ [t]) \<in> set (B @ [t])"
  by (cases B) auto

lemma nodes_decomp:
  obtains P p b S where
    "nodes l (A @ B) = P @ p # b # S" "\<And>M. nodes l (A @ M @ B) = P @ p # M @ b # S"
    "b = hd (B @ [l_tail l])" "p = last (l_head l # A)"
    "l_head l \<in> set (P @ [p])" "l_tail l \<in> set (b # S)"
proof -
  obtain P p where A: "l_head l # A = P @ [p]" using rev_exhaust by blast
  obtain b S where B: "B @ [l_tail l] = b # S" by (cases B) auto
  have "nodes l (A @ M @ B) = P @ p # M @ b # S" for M
    using A B by (simp add: nodes_def flip: append_Cons)
  moreover from this[of "[]"] have "nodes l (A @ B) = P @ p # b # S" by simp
  moreover have "b = hd (B @ [l_tail l])" "p = last (l_head l # A)" unfolding A B by simp_all
  moreover have "l_head l \<in> set (P @ [p])" "l_tail l \<in> set (b # S)"
    unfolding A[symmetric] B[symmetric] by simp_all
  ultimately show ?thesis using that by blast
qed

lemma nodes_decomp1:
  obtains P p b S where
    "nodes l (A @ B) = P @ p # b # S" "nodes l (A @ x # B) = P @ p # x # b # S"
    "b = hd (B @ [l_tail l])" "l_head l \<in> set (P @ [p])" "l_tail l \<in> set (b # S)"
proof (rule nodes_decomp[of l A B])
  fix P p b S
  assume a: "nodes l (A @ B) = P @ p # b # S" "\<And>M. nodes l (A @ M @ B) = P @ p # M @ b # S"
    "b = hd (B @ [l_tail l])" "l_head l \<in> set (P @ [p])" "l_tail l \<in> set (b # S)"
  show thesis using a(2)[of "[x]"] by (intro that[OF a(1) _ a(3-5)]) simp
qed

lemma dll_before:
  assumes "dll h l (A @ B)"
  shows "is_interior h (hd (B @ [l_tail l])) \<or> is_tail h (hd (B @ [l_tail l]))"
  using assms dll_interior dll_is_tail by (cases B) auto

lemma list_insert_refines:
  assumes d: "dll h l (A @ B)" and x: "x \<notin> set (nodes l (A @ B))" "x \<noteq> NULL"
  obtains h' where "list_insert (hd (B @ [l_tail l])) x h = Inr h'" "dll h' l (A @ x # B)"
    "\<And>a. a \<notin> set (nodes l (A @ x # B)) \<Longrightarrow> h' a = h a"
proof -
  obtain P p b S where n: "nodes l (A @ B) = P @ p # b # S"
      "nodes l (A @ x # B) = P @ p # x # b # S"
    and b: "b = hd (B @ [l_tail l])" and hd: "l_head l \<in> set (P @ [p])" "l_tail l \<in> set (b # S)"
    by (rule nodes_decomp1)
  let ?h = "set_prev b x (set_next p x (set_next x b (set_prev x p h)))"
  have D: "distinct (P @ p # b # S)" and N: "NULL \<notin> set (P @ p # b # S)"
    and L: "links h (P @ p # b # S)" and E: "le_prev (h (l_head l)) = NULL" "le_next (h (l_tail l)) = NULL"
    using d unfolding dll_def n by blast+
  have x': "x \<notin> set (P @ p # b # S)" using x(1) n by simp
  have "le_prev (h b) = p" using L by (simp add: links_split)
  with dll_before[OF d] x(2) x' have i: "list_insert b x h = Inr ?h"
    by (simp add: list_insert_def Let_def b)
  have "links ?h (P @ p # x # b # S)" using L D x' by (rule links_insert)
  then have "dll ?h l (A @ x # B)"
    unfolding dll_def n using D N E hd x' x(2) by auto
  moreover have "?h a = h a" if "a \<notin> set (nodes l (A @ x # B))" for a
    using that unfolding n by simp
  ultimately show ?thesis using i that unfolding b by blast
qed

lemma list_push_front_refines:
  assumes "dll h l xs" "x \<notin> set (nodes l xs)" "x \<noteq> NULL"
  obtains h' where "list_push_front l x h = Inr h'" "dll h' l (x # xs)"
    "\<And>a. a \<notin> set (nodes l (x # xs)) \<Longrightarrow> h' a = h a"
  using list_insert_refines[of h l "[]" xs x] assms
  unfolding list_push_front_def dll_begin[OF assms(1)] append_Nil by blast

lemma list_push_back_refines:
  assumes "dll h l xs" "x \<notin> set (nodes l xs)" "x \<noteq> NULL"
  obtains h' where "list_push_back l x h = Inr h'" "dll h' l (xs @ [x])"
    "\<And>a. a \<notin> set (nodes l (xs @ [x])) \<Longrightarrow> h' a = h a"
  using list_insert_refines[of h l xs "[]" x] assms
  unfolding list_push_back_def list_end_def append_Nil append_Nil2 list.sel by blast

lemma list_remove_refines:
  assumes d: "dll h l (A @ x # B)"
  obtains h' where "list_remove x h = Inr (hd (B @ [l_tail l]), h')" "dll h' l (A @ B)"
    "\<And>a. a \<notin> set (nodes l (A @ B)) \<Longrightarrow> h' a = h a"
proof -
  obtain P p b S where n: "nodes l (A @ B) = P @ p # b # S"
      "nodes l (A @ x # B) = P @ p # x # b # S"
    and b: "b = hd (B @ [l_tail l])" and hd: "l_head l \<in> set (P @ [p])" "l_tail l \<in> set (b # S)"
    by (rule nodes_decomp1)
  let ?h = "set_prev b p (set_next p b h)"
  have D: "distinct (P @ p # x # b # S)" and N: "NULL \<notin> set (P @ p # x # b # S)"
    and L: "links h (P @ p # x # b # S)" and E: "le_prev (h (l_head l)) = NULL" "le_next (h (l_tail l)) = NULL"
    using d unfolding dll_def n by blast+
  have "le_next (h x) = b" "le_prev (h x) = p" using L by (simp_all add: links_split)
  moreover have "is_interior h x" using d by (auto intro: dll_interior)
  ultimately have r: "list_remove x h = Inr (b, ?h)"
    using D by (simp add: list_remove_def Let_def)
  have "links ?h (P @ p # b # S)" using L D by (rule links_remove)
  then have "dll ?h l (A @ B)"
    unfolding dll_def n using D N E hd by auto
  moreover have "?h a = h a" if "a \<notin> set (nodes l (A @ B))" for a
    using that unfolding n by simp
  ultimately show ?thesis using r that unfolding b by blast
qed

lemma dll_empty_iff: "dll h l xs \<Longrightarrow> list_empty h l \<longleftrightarrow> xs = []"
  by (cases xs) (auto simp: list_empty_def dll_begin list_end_def dest: dll_headers(2))

lemma list_pop_front_refines:
  assumes "dll h l (x # xs)"
  obtains h' where "list_pop_front l h = Inr (x, h')" "dll h' l xs"
    "\<And>a. a \<notin> set (nodes l xs) \<Longrightarrow> h' a = h a"
proof -
  have f: "list_front h l = Inr x"
    using dll_empty_iff[OF assms] dll_begin[OF assms] by (simp add: list_front_def list_begin_def)
  obtain h' where "list_remove x h = Inr (hd (xs @ [l_tail l]), h')" "dll h' l xs"
    "\<And>a. a \<notin> set (nodes l xs) \<Longrightarrow> h' a = h a"
    using list_remove_refines[of h l "[]" x xs] assms unfolding append_Nil by blast
  with f show ?thesis by (intro that[of h']) (simp_all add: list_pop_front_def)
qed

lemma list_pop_back_refines:
  assumes "dll h l (xs @ [x])"
  obtains h' where "list_pop_back l h = Inr (x, h')" "dll h' l xs"
    "\<And>a. a \<notin> set (nodes l xs) \<Longrightarrow> h' a = h a"
proof -
  have f: "list_back h l = Inr x"
    using dll_empty_iff[OF assms] dll_rbegin[OF assms] by (simp add: list_back_def list_rbegin_def)
  obtain h' where "list_remove x h = Inr (hd ([] @ [l_tail l]), h')" "dll h' l xs"
    "\<And>a. a \<notin> set (nodes l xs) \<Longrightarrow> h' a = h a"
    using list_remove_refines[of h l xs x "[]"] assms unfolding append_Nil2 by blast
  with f show ?thesis by (intro that[of h']) (simp_all add: list_pop_back_def)
qed

lemma list_pop_empty:
  assumes "dll h l []"
  shows "list_pop_front l h = Inl Assertion" "list_pop_back l h = Inl Assertion"
  using dll_empty_iff[OF assms]
  by (simp_all add: list_pop_front_def list_pop_back_def list_front_def list_back_def)

lemma list_size_loop_refines:
  "dll h l (A @ B) \<Longrightarrow> length B < n \<Longrightarrow>
   list_size_loop n h l (hd (B @ [l_tail l])) c = Inr (c + length B)"
proof (induction B arbitrary: A c n)
  case Nil
  then show ?case by (cases n) (auto simp: list_end_def)
next
  case (Cons x B)
  then obtain m where n: "n = Suc m" by (cases n) auto
  have "x \<noteq> l_tail l" using dll_headers(2)[OF Cons.prems(1)] by auto
  with Cons.IH[of "A @ [x]" m "Suc c"] Cons.prems n dll_next[OF Cons.prems(1)] show ?case
    by (simp add: list_end_def)
qed

lemma list_size_refines:
  "dll h l xs \<Longrightarrow> length xs < n \<Longrightarrow> list_size n h l = Inr (length xs)"
  using list_size_loop_refines[of h l "[]" xs n 0] by (simp add: list_size_def dll_begin)

lemma list_exist_loop_refines:
  "dll h l (A @ B) \<Longrightarrow> length B < n \<Longrightarrow>
   list_exist_loop n h l e (hd (B @ [l_tail l])) = Inr (e \<in> set B)"
proof (induction B arbitrary: A n)
  case Nil
  then show ?case by (cases n) (auto simp: list_end_def)
next
  case (Cons x B)
  then obtain m where n: "n = Suc m" by (cases n) auto
  have "x \<noteq> l_tail l" using dll_headers(2)[OF Cons.prems(1)] by auto
  with Cons.IH[of "A @ [x]" m] Cons.prems n dll_next[OF Cons.prems(1)] show ?case
    by (auto simp: list_end_def)
qed

lemma list_exist_refines:
  "dll h l xs \<Longrightarrow> length xs < n \<Longrightarrow> list_exist n h l e = Inr (e \<in> set xs)"
  using list_exist_loop_refines[of h l "[]" xs n e] by (simp add: list_exist_def dll_begin)


lemma list_insert_ordered_loop_refines:
  "dll h l (A @ B) \<Longrightarrow> length B < n \<Longrightarrow>
   list_insert_ordered_loop n lt l x (hd (B @ [l_tail l])) h =
     Inr (hd (dropWhile (\<lambda>e. \<not> lt x e) B @ [l_tail l]))"
proof (induction B arbitrary: A n)
  case Nil
  then show ?case by (cases n) (auto simp: list_end_def)
next
  case (Cons y B)
  then obtain m where n: "n = Suc m" by (cases n) auto
  have "y \<noteq> l_tail l" using dll_headers(2)[OF Cons.prems(1)] by auto
  with Cons.IH[of "A @ [y]" m] Cons.prems n dll_next[OF Cons.prems(1)] show ?case
    by (auto simp: list_end_def)
qed

lemma list_insert_ordered_refines:
  assumes d: "dll h l xs" and n: "length xs < n" and x: "x \<notin> set (nodes l xs)" "x \<noteq> NULL"
  obtains h' where "list_insert_ordered n lt l x h = Inr h'"
    "dll h' l (takeWhile (\<lambda>e. \<not> lt x e) xs @ x # dropWhile (\<lambda>e. \<not> lt x e) xs)"
    "\<And>a. a \<notin> set (nodes l (x # xs)) \<Longrightarrow> h' a = h a"
proof -
  let ?A = "takeWhile (\<lambda>e. \<not> lt x e) xs" and ?B = "dropWhile (\<lambda>e. \<not> lt x e) xs"
  have d': "dll h l (?A @ ?B)" and x': "x \<notin> set (nodes l (?A @ ?B))" using d x(1) by simp_all
  obtain h' where h': "list_insert (hd (?B @ [l_tail l])) x h = Inr h'" "dll h' l (?A @ x # ?B)"
    "\<And>a. a \<notin> set (nodes l (?A @ x # ?B)) \<Longrightarrow> h' a = h a"
    using list_insert_refines[OF d' x' x(2)] by blast
  have s: "set (nodes l (?A @ x # ?B)) = set (nodes l (x # xs))"
    using arg_cong[OF takeWhile_dropWhile_id[of "\<lambda>e. \<not> lt x e" xs], of set]
    by (auto simp: nodes_def simp del: takeWhile_dropWhile_id)
  show ?thesis
    using list_insert_ordered_loop_refines[of h l "[]" xs n lt x] d n x(2) h' s
    by (intro that[of h']) (simp_all add: list_insert_ordered_def dll_begin)
qed

lemma list_max_loop_refines:
  "dll h l (A @ B) \<Longrightarrow> length B < n \<Longrightarrow>
   list_max_loop n lt h l m (hd (B @ [l_tail l])) =
     Inr (fold (\<lambda>e m. if lt m e then e else m) B m)"
proof (induction B arbitrary: A n m)
  case Nil
  then show ?case by (cases n) (auto simp: list_end_def)
next
  case (Cons y B)
  then obtain k where n: "n = Suc k" by (cases n) auto
  have "y \<noteq> l_tail l" using dll_headers(2)[OF Cons.prems(1)] by auto
  with Cons.IH[of "A @ [y]" k] Cons.prems n dll_next[OF Cons.prems(1)] show ?case
    by (auto simp: list_end_def)
qed

lemma list_max_refines:
  assumes "dll h l (x # xs)" "length xs < n"
  shows "list_max n lt h l = Inr (fold (\<lambda>e m. if lt m e then e else m) xs x)"
  using list_max_loop_refines[of h l "[x]" xs n lt x] assms
    dll_next[of h l "[]" x xs] dll_begin[OF assms(1)] dll_headers(2)[OF assms(1)]
  by (simp add: list_max_def list_end_def)

lemma list_min_loop_refines:
  "dll h l (A @ B) \<Longrightarrow> length B < n \<Longrightarrow>
   list_min_loop n lt h l m (hd (B @ [l_tail l])) =
     Inr (fold (\<lambda>e m. if lt e m then e else m) B m)"
proof (induction B arbitrary: A n m)
  case Nil
  then show ?case by (cases n) (auto simp: list_end_def)
next
  case (Cons y B)
  then obtain k where n: "n = Suc k" by (cases n) auto
  have "y \<noteq> l_tail l" using dll_headers(2)[OF Cons.prems(1)] by auto
  with Cons.IH[of "A @ [y]" k] Cons.prems n dll_next[OF Cons.prems(1)] show ?case
    by (auto simp: list_end_def)
qed

lemma list_min_refines:
  assumes "dll h l (x # xs)" "length xs < n"
  shows "list_min n lt h l = Inr (fold (\<lambda>e m. if lt e m then e else m) xs x)"
  using list_min_loop_refines[of h l "[x]" xs n lt x] assms
    dll_next[of h l "[]" x xs] dll_begin[OF assms(1)] dll_headers(2)[OF assms(1)]
  by (simp add: list_min_def list_end_def)

lemma list_max_empty: "dll h l [] \<Longrightarrow> list_max n lt h l = Inr (l_tail l)"
  by (simp add: list_max_def list_end_def dll_begin)

lemma list_min_empty: "dll h l [] \<Longrightarrow> list_min n lt h l = Inr (l_tail l)"
  by (simp add: list_min_def list_end_def dll_begin)

lemma links_rev:
  assumes "\<And>a. a \<in> set ns \<Longrightarrow> le_prev (h' a) = le_next (h a)"
    "\<And>a. a \<in> set ns \<Longrightarrow> le_next (h' a) = le_prev (h a)"
  shows "links h' (rev ns) = links h ns"
  using assms
proof (induction h ns rule: links.induct)
  case (1 h a b ns)
  then have "links h' (rev (b # ns)) = links h (b # ns)" by (intro "1.IH") auto
  then show ?case using "1.prems" by (auto simp: links_split)
qed auto

lemma swap_links_sel [simp]:
  "le_prev (swap_links e h a) = (if a = e then le_next (h a) else le_prev (h a))"
  "le_next (swap_links e h a) = (if a = e then le_prev (h a) else le_next (h a))"
  by (simp_all add: swap_links_def)

lemma list_reverse_loop_refines:
  assumes "l_tail l \<notin> set B" "distinct B" "NULL \<notin> set B" "length B < n"
    "e = hd (B @ [l_tail l])"
    "\<And>P x y S. B @ [l_tail l] = P @ x # y # S \<Longrightarrow> le_next (h x) = y"
  shows "\<exists>h'. list_reverse_loop n l e h = Inr h' \<and>
    (\<forall>a. h' a = (if a \<in> set B then \<lparr>le_prev = le_next (h a), le_next = le_prev (h a)\<rparr> else h a))"
  using assms
proof (induction B arbitrary: n e h)
  case Nil
  then show ?case by (cases n) (auto simp: list_end_def)
next
  case (Cons x B)
  then obtain k where n: "n = Suc k" by (cases n) auto
  have nx: "le_next (h x) = hd (B @ [l_tail l])"
    by (rule Cons.prems(6)[of "[]" x _ "tl (B @ [l_tail l])"]) simp
  have "\<exists>h'. list_reverse_loop k l (hd (B @ [l_tail l])) (swap_links x h) = Inr h' \<and>
    (\<forall>a. h' a = (if a \<in> set B then \<lparr>le_prev = le_next (swap_links x h a),
       le_next = le_prev (swap_links x h a)\<rparr> else swap_links x h a))"
  proof (rule Cons.IH)
    fix P y z S assume a: "B @ [l_tail l] = P @ y # z # S"
    then have "y \<in> set B" by (metis append_butlast_last_id butlast_append butlast_snoc in_set_conv_decomp list.distinct(1) butlast.simps(2))
    with Cons.prems(2) have "y \<noteq> x" by auto
    moreover have "le_next (h y) = z" by (rule Cons.prems(6)[of "x # P" y z S]) (simp add: a)
    ultimately show "le_next (swap_links x h y) = z" by simp
  qed (use Cons.prems n in auto)
  then show ?case
    using Cons.prems(1,2,3,5) n nx by (auto simp: list_end_def Let_def swap_links_def)
qed


lemma dll_next_at:
  assumes "dll h l xs" "xs @ [l_tail l] = P @ x # y # S"
  shows "le_next (h x) = y"
  by (rule dll_adjacent(1)[OF assms(1), of "l_head l # P" x y S]) (simp add: nodes_def assms(2))

lemma list_reverse_refines:
  assumes d: "dll h l xs" and n: "length xs < n"
  obtains h' where "list_reverse n l h = Inr h'" "dll h' l (rev xs)"
    "\<And>a. a \<notin> set (nodes l xs) \<Longrightarrow> h' a = h a"
proof (cases xs rule: rev_cases)
  case Nil
  with d dll_empty_iff[OF d] show ?thesis
    by (intro that[of h]) (simp_all add: list_reverse_def)
next
  case (snoc ys q)
  then obtain p zs where p: "xs = p # zs" by (metis append_is_Nil_conv list.exhaust list.distinct(1))
  let ?hd = "l_head l" and ?tl = "l_tail l"
  note H = dll_headers[OF d] dll_distinct[OF d]
  obtain h1 where h1: "list_reverse_loop n l (list_begin h l) h = Inr h1"
    "\<And>a. h1 a = (if a \<in> set xs then \<lparr>le_prev = le_next (h a), le_next = le_prev (h a)\<rparr> else h a)"
    using list_reverse_loop_refines[of l xs n "list_begin h l" h] dll_next_at[OF d] H n dll_begin[OF d]
    by blast
  have ends: "le_next (h ?hd) = p" "le_prev (h ?tl) = q" "le_prev (h p) = ?hd" "le_next (h q) = ?tl"
    using dll_adjacent[OF d, of "[]" ?hd p "zs @ [?tl]"] dll_adjacent[OF d, of "?hd # ys" q ?tl "[]"]
    by (simp_all add: nodes_def p) (simp_all add: nodes_def snoc flip: p)
  let ?h2 = "set_prev ?tl p (set_next ?hd q h1)"
  let ?h' = "set_next p ?tl (set_prev q ?hd ?h2)"
  have "p \<in> set xs" unfolding p by simp
  moreover have "q \<in> set xs" unfolding snoc by simp
  ultimately have in_xs: "p \<in> set xs" "q \<in> set xs" by simp_all
  have r: "list_reverse n l h = Inr ?h'"
  proof -
    have "\<not> list_empty h l" using dll_empty_iff[OF d] p by simp
    moreover have "p \<noteq> NULL" "q \<noteq> NULL" "p \<noteq> ?hd" "q \<noteq> ?hd" "p \<noteq> ?tl" "q \<noteq> ?tl" using in_xs H by metis+
    ultimately show ?thesis
      using H(1-3) ends in_xs by (simp add: list_reverse_def Let_def h1)
  qed
  have rx: "rev xs = q # rev ys" "rev xs = rev zs @ [p]" by (simp add: snoc) (simp add: p)
  have "links h1 (rev xs) = links h xs" by (rule links_rev) (simp_all add: h1(2))
  moreover have "links h xs" 
  proof -
    have "links h ([?hd] @ xs @ [?tl])" using d by (simp add: dll_def nodes_def)
    then show ?thesis unfolding links_join by simp
  qed
  moreover have "p \<notin> set (butlast (rev xs))" using H(7) unfolding rx(2) p by (simp add: notin_butlast)
  moreover have "q \<notin> set (tl (rev xs))" using H(7) unfolding rx(1) snoc by simp
  ultimately have "links ?h' (rev xs) = links h1 (rev xs)" "links h1 (rev xs)"
    using H(1,2) by (simp_all add: links_set_prev links_set_next notin_tl notin_butlast)
  then have L: "links ?h' (rev xs)" by simp
  have "links ?h' (q # rev ys)" using L rx(1) by simp
  with in_xs H(1-3) have "links ?h' (?hd # rev zs @ [p])"
    unfolding rx(2)[symmetric] rx(1) by auto
  then have "links ?h' ((?hd # rev zs) @ p # ?tl # [])"
    unfolding links_split using in_xs H(1-3) by auto
  then have "links ?h' (?hd # rev xs @ [?tl])" unfolding rx(2) by simp
  then have "dll ?h' l (rev xs)"
    using d H in_xs h1(2) by (auto simp: dll_def nodes_def)
  moreover have "?h' a = h a" if "a \<notin> set (nodes l xs)" for a
  proof -
    have "a \<noteq> p" "a \<noteq> q" "a \<noteq> ?hd" "a \<noteq> ?tl" "a \<notin> set xs"
      using that in_xs by (auto simp: nodes_def)
    then show ?thesis by (simp add: h1(2))
  qed
  ultimately show ?thesis using r that by blast
qed

fun uniq :: "('a \<Rightarrow> 'a \<Rightarrow> bool) \<Rightarrow> 'a \<Rightarrow> 'a list \<Rightarrow> 'a list \<times> 'a list" where
  "uniq lt x [] = ([x], [])"
| "uniq lt x (y # ys) =
     (if \<not> lt x y \<and> \<not> lt y x then (let (u, d) = uniq lt x ys in (u, y # d))
      else (let (u, d) = uniq lt y ys in (x # u, d)))"

lemma list_unique_loop_refines:
  assumes "dll h l (A @ x # B)" "length B < n"
  shows "\<exists>h'. list_unique_loop n lt l None x h = Inr h' \<and> dll h' l (A @ fst (uniq lt x B)) \<and>
    (\<forall>a. a \<notin> set (nodes l (A @ x # B)) \<longrightarrow> h' a = h a)"
  using assms
proof (induction B arbitrary: A x n h)
  case Nil
  then show ?case
    using dll_next[OF Nil(1)] by (cases n) (auto simp: list_end_def)
next
  case (Cons y B)
  then obtain k where n: "n = Suc k" by (cases n) auto
  have nx: "list_next h x = Inr y" "y \<noteq> l_tail l"
    using dll_next[OF Cons.prems(1)] dll_headers(2)[OF Cons.prems(1)] by auto
  show ?case
  proof (cases "\<not> lt x y \<and> \<not> lt y x")
    case True
    have d: "dll h l ((A @ [x]) @ y # B)" using Cons.prems(1) by simp
    obtain h1 where h1: "list_remove y h = Inr (hd (B @ [l_tail l]), h1)" "dll h1 l ((A @ [x]) @ B)"
      "\<And>a. a \<notin> set (nodes l ((A @ [x]) @ B)) \<Longrightarrow> h1 a = h a"
      using list_remove_refines[OF d] by blast
    from Cons.IH[of h1 A x k] h1(2) Cons.prems n obtain h' where
      "list_unique_loop k lt l None x h1 = Inr h'" "dll h' l (A @ fst (uniq lt x B))"
      "\<forall>a. a \<notin> set (nodes l (A @ x # B)) \<longrightarrow> h' a = h1 a" by auto
    with True n nx h1 show ?thesis
      by (auto simp: list_end_def nodes_def split: prod.splits)
  next
    case False
    from Cons.IH[of h "A @ [x]" y k] Cons.prems n obtain h' where
      "list_unique_loop k lt l None y h = Inr h'" "dll h' l (A @ x # fst (uniq lt y B))"
      "\<forall>a. a \<notin> set (nodes l (A @ x # y # B)) \<longrightarrow> h' a = h a" by auto
    with False n nx show ?thesis by (auto simp: list_end_def split: prod.splits)
  qed
qed

lemma list_unique_refines:
  assumes "dll h l (x # xs)" "length xs < n"
  obtains h' where "list_unique n lt l None h = Inr h'" "dll h' l (fst (uniq lt x xs))"
    "\<And>a. a \<notin> set (nodes l (x # xs)) \<Longrightarrow> h' a = h a"
  using list_unique_loop_refines[of h l "[]" x xs n lt] assms dll_empty_iff[OF assms(1)]
    dll_begin[OF assms(1)] by (auto simp: list_unique_def)

lemma links_move:
  assumes L: "links h (P @ A @ M @ S)" and D: "distinct (P @ A @ M @ S)"
    and ne: "P \<noteq> []" "A \<noteq> []" "M \<noteq> []" "S \<noteq> []"
  shows "links (set_prev (hd A) (last M) (set_next (last P) (hd M) (set_next (last M) (hd A)
           (set_prev (hd M) (last P) (set_prev (hd S) (last A) (set_next (last A) (hd S) h))))))
         (P @ M @ A @ S)" (is "links ?h _")
proof -
  have mem: "hd A \<in> set A" "hd M \<in> set M" "hd S \<in> set S" "last A \<in> set A" "last M \<in> set M" "last P \<in> set P"
    using ne by simp_all
  have bt: "last A \<notin> set (butlast A)" "last M \<notin> set (butlast M)" "last P \<notin> set (butlast P)"
    "hd A \<notin> set (tl A)" "hd M \<notin> set (tl M)" "hd S \<notin> set (tl S)"
    using D ne by (simp_all add: last_notin_butlast hd_notin_tl)
  have df: "hd S \<noteq> hd A" "hd S \<noteq> hd M" "hd A \<noteq> hd M" "last A \<noteq> last P" "last A \<noteq> last M" "last M \<noteq> last P"
    using D mem by auto
  have out: "hd A \<notin> set P" "hd A \<notin> set M" "hd A \<notin> set S" "hd M \<notin> set P" "hd M \<notin> set A" "hd M \<notin> set S"
    "hd S \<notin> set P" "hd S \<notin> set A" "hd S \<notin> set M" "last A \<notin> set P" "last A \<notin> set M" "last A \<notin> set S"
    "last M \<notin> set P" "last M \<notin> set A" "last M \<notin> set S" "last P \<notin> set A" "last P \<notin> set M" "last P \<notin> set S"
    using D mem by auto
  have "links ?h P = links h P" "links ?h A = links h A" "links ?h M = links h M" "links ?h S = links h S"
    using out bt by (simp_all add: links_set_prev links_set_next notin_tl notin_butlast)
  with L ne df show ?thesis unfolding links_join by simp
qed

lemma list_splice_refines:
  assumes d: "dll h l (P @ A @ M @ S)" and ne: "A \<noteq> []" "M \<noteq> []"
  obtains h' where "list_splice (hd A) (hd M) (hd (S @ [l_tail l])) h = Inr h'"
    "dll h' l (P @ M @ A @ S)" "\<And>a. a \<notin> set (nodes l (P @ A @ M @ S)) \<Longrightarrow> h' a = h a"
proof -
  let ?P = "l_head l # P" and ?S = "S @ [l_tail l]"
  let ?h = "set_prev (hd A) (last M) (set_next (last ?P) (hd M) (set_next (last M) (hd A)
           (set_prev (hd M) (last ?P) (set_prev (hd ?S) (last A) (set_next (last A) (hd ?S) h)))))"
  have n: "nodes l (P @ A @ M @ S) = ?P @ A @ M @ ?S" "nodes l (P @ M @ A @ S) = ?P @ M @ A @ ?S"
    by (simp_all add: nodes_def)
  have D: "distinct (?P @ A @ M @ ?S)" and N: "NULL \<notin> set (?P @ A @ M @ ?S)"
    and L: "links h (?P @ A @ M @ ?S)" and E: "le_prev (h (l_head l)) = NULL" "le_next (h (l_tail l)) = NULL"
    using d unfolding dll_def n by blast+
  have mem: "hd A \<in> set A" "last A \<in> set A" "hd M \<in> set M" "last M \<in> set M" "hd ?S \<in> set ?S" "last ?P \<in> set ?P"
    using ne hd_in_set[of ?S] by (auto simp del: set_append)
  have int: "is_interior h (hd A)" "is_interior h (hd M)" "is_interior h (last M)"
    using mem by (auto intro!: dll_interior[OF d])
  have lk: "le_next (h (last ?P)) = hd A" "le_prev (h (hd A)) = last ?P" "le_next (h (last A)) = hd M"
    "le_prev (h (hd M)) = last A" "le_next (h (last M)) = hd ?S" "le_prev (h (hd ?S)) = last M"
    using L ne unfolding links_join by (auto simp: hd_append)
  have pv: "list_prev h (hd ?S) = Inr (last M)"
    using dll_prev[of h l "P @ A @ M" S] d ne by (simp add: last_append)
  have dj: "set A \<inter> set M = {}" "set A \<inter> set ?S = {}" "set M \<inter> set ?S = {}" "set ?P \<inter> set A = {}"
      "set ?P \<inter> set M = {}"
    using D by auto
  have df: "hd ?S \<noteq> hd A" "hd ?S \<noteq> hd M" "hd A \<noteq> hd M" "last A \<noteq> last ?P" "last A \<noteq> last M" "last M \<noteq> last ?P"
    using dj mem by (metis disjoint_iff)+
  have r: "list_splice (hd A) (hd M) (hd ?S) h = Inr ?h"
    using int pv df lk by (simp add: list_splice_def Let_def del: last.simps)
  have "links ?h (?P @ M @ A @ ?S)" using L D ne by (intro links_move) auto
  moreover have "l_head l \<noteq> hd A" "l_head l \<noteq> hd M" "l_head l \<noteq> hd ?S"
    "l_tail l \<noteq> last A" "l_tail l \<noteq> last M" "l_tail l \<noteq> last ?P"
  proof -
    have "l_head l \<notin> set A" "l_head l \<notin> set M" "l_head l \<notin> set ?S"
      "l_tail l \<notin> set A" "l_tail l \<notin> set M" "l_tail l \<notin> set ?P"
      using D by auto
    with mem show "l_head l \<noteq> hd A" "l_head l \<noteq> hd M" "l_head l \<noteq> hd ?S"
      "l_tail l \<noteq> last A" "l_tail l \<noteq> last M" "l_tail l \<noteq> last ?P" by metis+
  qed
  moreover from this have "le_prev (?h (l_head l)) = NULL" "le_next (?h (l_tail l)) = NULL"
    using E by (simp_all del: last.simps)
  moreover have "distinct (?P @ M @ A @ ?S)" "NULL \<notin> set (?P @ M @ A @ ?S)"
    using D N by auto
  ultimately have "dll ?h l (P @ M @ A @ S)"
    unfolding dll_def n by blast
  moreover have "?h a = h a" if "a \<notin> set (nodes l (P @ A @ M @ S))" for a
  proof -
    have "a \<noteq> hd A" "a \<noteq> hd M" "a \<noteq> hd ?S" "a \<noteq> last A" "a \<noteq> last M" "a \<noteq> last ?P"
      using that mem unfolding n by (metis Un_iff set_append)+
    then show ?thesis by (simp del: last.simps)
  qed
  ultimately show ?thesis using r that by blast
qed

end
