(* ===== verification/Klist_Sort.thy ===== *)
theory Klist_Sort
  imports Klist
begin

text \<open>
  lib/kernel/list.c: \<^verbatim>\<open>list_sort\<close>, a natural merge sort that works in place by splicing.
  \<open>run\<close>, \<open>merge\<close> and \<open>pass\<close> describe one pass over a sequence, \<open>ksort\<close> is the stable
  insertion sort that serves as reference. The pointer routines refine the sequence-level
  pass, the number of runs drops with every pass, and the result is \<open>ksort\<close> of the input
  whenever the comparison is a strict weak order. The locale \<open>intrusive_list\<close> is the
  contract that the queues of the kernel (ready list, semaphore waiters, sleeping threads)
  rely on; it is interpreted on the pointer routines.
\<close>


subsection \<open>Sequence-level sorting\<close>

fun insord :: "('a \<Rightarrow> 'a \<Rightarrow> bool) \<Rightarrow> 'a \<Rightarrow> 'a list \<Rightarrow> 'a list" where
  "insord lt x [] = [x]"
| "insord lt x (y # ys) = (if lt y x then y # insord lt x ys else x # y # ys)"

definition ksort :: "('a \<Rightarrow> 'a \<Rightarrow> bool) \<Rightarrow> 'a list \<Rightarrow> 'a list" where
  "ksort lt xs = foldr (insord lt) xs []"

definition kinsert :: "('a \<Rightarrow> 'a \<Rightarrow> bool) \<Rightarrow> 'a \<Rightarrow> 'a list \<Rightarrow> 'a list" where
  "kinsert lt x xs = takeWhile (\<lambda>e. \<not> lt x e) xs @ x # dropWhile (\<lambda>e. \<not> lt x e) xs"

definition ksorted :: "('a \<Rightarrow> 'a \<Rightarrow> bool) \<Rightarrow> 'a list \<Rightarrow> bool" where
  "ksorted lt xs = sorted_wrt (\<lambda>a b. \<not> lt b a) xs"

definition ksim :: "('a \<Rightarrow> 'a \<Rightarrow> bool) \<Rightarrow> 'a list \<Rightarrow> 'a list \<Rightarrow> bool" where
  "ksim lt xs ys \<longleftrightarrow> (\<forall>k. filter (\<lambda>e. \<not> lt k e \<and> \<not> lt e k) xs = filter (\<lambda>e. \<not> lt k e \<and> \<not> lt e k) ys)"

fun run :: "('a \<Rightarrow> 'a \<Rightarrow> bool) \<Rightarrow> 'a \<Rightarrow> 'a list \<Rightarrow> 'a list \<times> 'a list" where
  "run lt x [] = ([x], [])"
| "run lt x (y # ys) = (if lt y x then ([x], y # ys) else (let (r, s) = run lt y ys in (x # r, s)))"

fun merge :: "('a \<Rightarrow> 'a \<Rightarrow> bool) \<Rightarrow> 'a list \<Rightarrow> 'a list \<Rightarrow> 'a list" where
  "merge lt [] ys = ys"
| "merge lt xs [] = xs"
| "merge lt (x # xs) (y # ys) =
     (if \<not> lt y x then x # merge lt xs (y # ys) else y # merge lt (x # xs) ys)"

lemma run_length: "run lt x xs = (r, s) \<Longrightarrow> length s \<le> length xs"
  by (induction lt x xs arbitrary: r s rule: run.induct) (fastforce split: if_splits prod.splits)+

function pass :: "('a \<Rightarrow> 'a \<Rightarrow> bool) \<Rightarrow> 'a list \<Rightarrow> nat \<times> 'a list" where
  "pass lt [] = (0, [])"
| "pass lt (x # xs) =
     (case run lt x xs of (r, s) \<Rightarrow>
       (case s of [] \<Rightarrow> (1, r)
        | y # ys \<Rightarrow> (case run lt y ys of (r2, s2) \<Rightarrow>
            (case pass lt s2 of (c, zs) \<Rightarrow> (Suc c, merge lt r r2 @ zs)))))"
  by pat_completeness auto
termination
  by (relation "measure (\<lambda>(lt, xs). length xs)") (auto dest!: run_length[OF sym])

fun nruns :: "('a \<Rightarrow> 'a \<Rightarrow> bool) \<Rightarrow> 'a list \<Rightarrow> nat" where
  "nruns lt [] = 0"
| "nruns lt [x] = 1"
| "nruns lt (x # y # ys) = (if lt y x then 1 else 0) + nruns lt (y # ys)"

lemma run_append: "run lt x xs = (r, s) \<Longrightarrow> x # xs = r @ s \<and> r \<noteq> []"
  by (induction lt x xs arbitrary: r s rule: run.induct) (auto split: if_splits prod.splits)

lemma nruns_run:
  "run lt x xs = (r, s) \<Longrightarrow> nruns lt (x # xs) = Suc (nruns lt s)"
  by (induction lt x xs arbitrary: r s rule: run.induct) (auto split: if_splits prod.splits)

lemma nruns_append: "nruns lt (xs @ ys) \<le> nruns lt xs + nruns lt ys"
proof (induction lt xs rule: nruns.induct)
  case (2 lt x)
  then show ?case by (cases ys) auto
qed auto

lemma nruns_le_length: "nruns lt xs \<le> length xs"
  by (induction lt xs rule: nruns.induct) auto

lemma pass_cases:
  obtains (one) r where "run lt x xs = (r, [])" "pass lt (x # xs) = (1, r)"
  | (two) r y ys r2 s2 where "run lt x xs = (r, y # ys)" "run lt y ys = (r2, s2)"
      "pass lt (x # xs) = (Suc (fst (pass lt s2)), merge lt r r2 @ snd (pass lt s2))"
      "length s2 < length (x # xs)"
proof -
  obtain r s where rs: "run lt x xs = (r, s)" by fastforce
  show thesis
  proof (cases s)
    case Nil
    with rs show ?thesis by (intro one) simp_all
  next
    case (Cons y ys)
    obtain r2 s2 where rs2: "run lt y ys = (r2, s2)" by fastforce
    have "length s2 < length (x # xs)"
      using run_length[OF rs] run_length[OF rs2] Cons by simp
    with rs rs2 Cons show ?thesis by (intro two) (simp_all split: prod.splits)
  qed
qed

lemma pass_count: "fst (pass lt xs) = (nruns lt xs + 1) div 2"
proof (induction xs rule: length_induct)
  case (1 xs)
  show ?case
  proof (cases xs)
    case (Cons x xs')
    show ?thesis unfolding Cons
      by (rule pass_cases[of lt x xs']) (use 1 Cons in \<open>auto simp: nruns_run\<close>)
  qed simp
qed

lemma mset_merge: "mset (merge lt xs ys) = mset xs + mset ys"
  by (induction lt xs ys rule: merge.induct) auto

lemma set_merge: "set (merge lt xs ys) = set xs \<union> set ys"
  by (metis mset_merge set_mset_mset set_mset_union)

lemma mset_pass: "mset (snd (pass lt xs)) = mset xs"
proof (induction xs rule: length_induct)
  case (1 xs)
  show ?case
  proof (cases xs)
    case (Cons x xs')
    show ?thesis unfolding Cons
    proof (rule pass_cases[of lt x xs'])
      fix r y ys r2 s2
      assume a: "run lt x xs' = (r, y # ys)" "run lt y ys = (r2, s2)"
        "pass lt (x # xs') = (Suc (fst (pass lt s2)), merge lt r r2 @ snd (pass lt s2))"
        "length s2 < length (x # xs')"
      have "x # xs' = r @ r2 @ s2" using run_append[OF a(1)] run_append[OF a(2)] by simp
      with a(3,4) 1 Cons show "mset (snd (pass lt (x # xs'))) = mset (x # xs')"
        by (simp only: snd_conv) (simp add: mset_merge)
    qed (use run_append in fastforce)
  qed simp
qed

lemma ksim_refl [simp]: "ksim lt xs xs"
  by (simp add: ksim_def)

lemma ksim_trans: "ksim lt xs ys \<Longrightarrow> ksim lt ys zs \<Longrightarrow> ksim lt xs zs"
  by (simp add: ksim_def)

lemma ksim_sym: "ksim lt xs ys \<Longrightarrow> ksim lt ys xs"
  by (simp add: ksim_def)

lemma ksim_append: "ksim lt xs xs' \<Longrightarrow> ksim lt ys ys' \<Longrightarrow> ksim lt (xs @ ys) (xs' @ ys')"
  by (simp add: ksim_def)

lemma mset_insord: "mset (insord lt x xs) = add_mset x (mset xs)"
  by (induction lt x xs rule: insord.induct) auto

lemma mset_ksort [simp]: "mset (ksort lt xs) = mset xs"
  by (induction xs) (auto simp: ksort_def mset_insord)

lemma set_ksort [simp]: "set (ksort lt xs) = set xs"
  by (metis mset_ksort set_mset_mset)

lemma length_ksort [simp]: "length (ksort lt xs) = length xs"
  by (metis mset_ksort size_mset)

lemma ksort_Nil [simp]: "ksort lt [] = []"
  by (simp add: ksort_def)

lemma distinct_ksort [simp]: "distinct (ksort lt xs) = distinct xs"
  by (metis distinct_count_atmost_1 mset_ksort set_ksort)

lemma merge_Nil2 [simp]: "merge lt xs [] = xs"
  by (cases xs) simp_all

lemma merge_induct:
  fixes lt :: "'a \<Rightarrow> 'a \<Rightarrow> bool"
  assumes "\<And>ys. P [] ys" "\<And>xs. P xs []"
    "\<And>x xs y ys. (\<not> lt y x \<Longrightarrow> P xs (y # ys)) \<Longrightarrow> (lt y x \<Longrightarrow> P (x # xs) ys) \<Longrightarrow> P (x # xs) (y # ys)"
  shows "P xs ys"
  using assms by (induction lt xs ys rule: merge.induct) auto

context strict_weak_order
begin

lemma ksorted_Cons: "ksorted lt (x # y # ys) \<longleftrightarrow> \<not> lt y x \<and> ksorted lt (y # ys)"
  unfolding ksorted_def by (auto dest: negtrans)

lemma nruns_le_1_sorted: "nruns lt xs \<le> 1 \<Longrightarrow> ksorted lt xs"
proof (induction xs)
  case (Cons x xs)
  show ?case
  proof (cases xs)
    case (Cons y ys)
    have "nruns lt (y # ys) \<ge> 1" by (induction ys arbitrary: y) auto
    with Cons.IH Cons.prems Cons show ?thesis by (auto simp: ksorted_Cons split: if_splits)
  qed (simp add: ksorted_def)
qed (simp add: ksorted_def)

lemma sorted_nruns: "ksorted lt xs \<Longrightarrow> nruns lt xs \<le> 1"
proof (induction xs)
  case (Cons x xs)
  then show ?case by (cases xs) (auto simp: ksorted_Cons ksorted_def)
qed simp

lemma run_sorted: "run lt x xs = (r, s) \<Longrightarrow> ksorted lt r"
proof (induction xs arbitrary: x r s)
  case (Cons y ys)
  show ?case
  proof (cases "lt y x")
    case False
    obtain r' s' where r': "run lt y ys = (r', s')" by fastforce
    with False Cons.prems have r: "r = x # r'" by simp
    from run_append[OF r'] obtain r'' where "r' = y # r''" by (cases r') auto
    with Cons.IH[OF r'] False r show ?thesis by (simp add: ksorted_Cons)
  qed (use Cons.prems in \<open>auto simp: ksorted_def\<close>)
qed (simp add: ksorted_def)

lemma merge_sorted: "ksorted lt xs \<Longrightarrow> ksorted lt ys \<Longrightarrow> ksorted lt (merge lt xs ys)"
proof (induction xs ys rule: merge_induct[of _ lt])
  case (3 x xs y ys)
  have le: "\<And>e. e \<in> set xs \<Longrightarrow> \<not> lt e x" "\<And>e. e \<in> set ys \<Longrightarrow> \<not> lt e y"
    using "3.prems" by (simp_all add: ksorted_def)
  show ?case
  proof (cases "lt y x")
    case True
    then have "\<not> lt e y" if "e \<in> set xs" for e using that le(1) asym negtrans by blast
    with True 3 le asym show ?thesis by (auto simp: ksorted_def set_merge)
  next
    case False
    then have "\<not> lt e x" if "e \<in> set ys" for e using that le(2) negtrans by blast
    with False 3 le show ?thesis by (auto simp: ksorted_def set_merge)
  qed
qed (auto simp: ksorted_def)

lemma ksim_merge: "ksorted lt xs \<Longrightarrow> ksim lt (merge lt xs ys) (xs @ ys)"
proof (induction xs ys rule: merge_induct[of _ lt])
  case (3 x xs y ys)
  have le: "\<And>e. e \<in> set xs \<Longrightarrow> \<not> lt e x" using "3.prems" by (simp add: ksorted_def)
  show ?case
  proof (cases "lt y x")
    case True
    have "filter P (merge lt (x # xs) (y # ys)) = filter P ((x # xs) @ y # ys)"
      if P: "P = (\<lambda>e. \<not> lt k e \<and> \<not> lt e k)" for k P
    proof -
      have IH: "filter P (merge lt (x # xs) ys) = filter P (x # xs) @ filter P ys"
        using "3.IH"(2)[OF True "3.prems"] P unfolding ksim_def by simp
      have "filter P (x # xs) = []" if "P y"
        using that True le irrefl negtrans[of y k] negtrans[of y _ x] unfolding P filter_empty_conv
        by (metis set_ConsD)
      then show ?thesis
        using True IH by (cases "P y") (simp_all only: merge.simps filter.simps filter_append if_True if_False
            append_Nil not_not not_True_eq_False)
    qed
    then show ?thesis unfolding ksim_def by blast
  next
    case False
    with 3 show ?thesis by (auto simp: ksim_def ksorted_def)
  qed
qed (auto simp: ksim_def)

lemma ksim_sorted_eq: "ksim lt ys zs \<Longrightarrow> ksorted lt ys \<Longrightarrow> ksorted lt zs \<Longrightarrow> ys = zs"
proof (induction ys arbitrary: zs)
  case Nil
  show ?case
  proof (cases zs)
    case (Cons z zs')
    then have "filter (\<lambda>e. \<not> lt z e \<and> \<not> lt e z) zs \<noteq> []" using irrefl by simp
    with Nil.prems(1) show ?thesis unfolding ksim_def by (metis filter.simps(1))
  qed simp
next
  case (Cons y ys)
  have sy: "filter (\<lambda>e. \<not> lt y e \<and> \<not> lt e y) zs = y # filter (\<lambda>e. \<not> lt y e \<and> \<not> lt e y) ys"
    using Cons.prems(1) irrefl by (simp add: ksim_def) metis
  then obtain z zs' where z: "zs = z # zs'" by (cases zs) auto
  have "y \<in> set zs" using sy by (metis filter_is_subset list.set_intros(1) subsetD)
  with Cons.prems(3) z have "\<not> lt y z" using irrefl by (auto simp: ksorted_def)
  moreover have "z \<in> set (y # ys)"
  proof -
    have "z \<in> set (filter (\<lambda>e. \<not> lt z e \<and> \<not> lt e z) zs)" using z irrefl by simp
    then have "z \<in> set (filter (\<lambda>e. \<not> lt z e \<and> \<not> lt e z) (y # ys))"
      using Cons.prems(1) unfolding ksim_def by metis
    then show ?thesis by (auto split: if_splits)
  qed
  with Cons.prems(2) have "\<not> lt z y" using irrefl by (auto simp: ksorted_def)
  ultimately have zy: "z = y" using sy z by simp
  have "ksim lt ys zs'"
    unfolding ksim_def
  proof
    fix k
    show "filter (\<lambda>e. \<not> lt k e \<and> \<not> lt e k) ys = filter (\<lambda>e. \<not> lt k e \<and> \<not> lt e k) zs'"
      using Cons.prems(1)[unfolded ksim_def, rule_format, of k] z zy by (simp split: if_splits)
  qed
  with Cons.IH[of zs'] Cons.prems(2,3) z zy show ?case by (simp add: ksorted_def)
qed

lemma ksorted_insord: "ksorted lt xs \<Longrightarrow> ksorted lt (insord lt x xs)"
proof (induction xs)
  case (Cons y ys)
  have s: "set (insord lt x ys) = insert x (set ys)"
    by (metis mset_insord set_mset_add_mset_insert set_mset_mset)
  show ?case
  proof (cases "lt y x")
    case True
    with Cons s asym show ?thesis by (auto simp: ksorted_def)
  next
    case False
    with Cons.prems negtrans show ?thesis by (auto simp: ksorted_def)
  qed
qed (simp add: ksorted_def)

lemma ksorted_ksort: "ksorted lt (ksort lt xs)"
  by (induction xs) (simp_all add: ksort_def ksorted_insord, simp add: ksorted_def)

lemma ksim_insord: "ksorted lt xs \<Longrightarrow> ksim lt (insord lt x xs) (x # xs)"
proof (induction xs)
  case (Cons y ys)
  then have IH: "ksim lt (insord lt x ys) (x # ys)" by (simp add: ksorted_def)
  show ?case
  proof (cases "lt y x")
    case True
    then have ne: "\<not> (\<not> lt k x \<and> \<not> lt x k \<and> \<not> lt k y \<and> \<not> lt y k)" for k using negtrans by blast
    show ?thesis unfolding ksim_def
    proof
      fix k
      show "filter (\<lambda>e. \<not> lt k e \<and> \<not> lt e k) (insord lt x (y # ys)) =
            filter (\<lambda>e. \<not> lt k e \<and> \<not> lt e k) (x # y # ys)"
        using IH[unfolded ksim_def, rule_format, of k] True ne[of k] by auto
    qed
  qed simp
qed simp

lemma ksim_ksort: "ksim lt (ksort lt xs) xs"
proof (induction xs)
  case (Cons x xs)
  have "ksim lt (insord lt x (ksort lt xs)) (x # ksort lt xs)"
    by (rule ksim_insord[OF ksorted_ksort])
  moreover have "ksim lt (x # ksort lt xs) (x # xs)"
    using ksim_append[OF ksim_refl Cons.IH, of "[x]"] by simp
  ultimately show ?case by (simp add: ksort_def ksim_trans[of lt])
qed simp

lemma ksort_eqI: "ksorted lt ys \<Longrightarrow> ksim lt ys xs \<Longrightarrow> ys = ksort lt xs"
  using ksim_sorted_eq[of ys "ksort lt xs"] ksorted_ksort ksim_ksort ksim_trans ksim_sym by blast

lemma ksort_sorted_id: "ksorted lt xs \<Longrightarrow> ksort lt xs = xs"
  using ksort_eqI[of xs xs] by simp

lemma pass_correct: "ksim lt (snd (pass lt xs)) xs \<and> nruns lt (snd (pass lt xs)) \<le> fst (pass lt xs)"
proof (induction xs rule: length_induct)
  case (1 xs)
  show ?case
  proof (cases xs)
    case (Cons x xs')
    show ?thesis unfolding Cons
    proof (rule pass_cases[of lt x xs'])
      fix r assume a: "run lt x xs' = (r, [])" "pass lt (x # xs') = (1, r)"
      with run_append[OF a(1)] sorted_nruns[OF run_sorted[OF a(1)]]
      show "ksim lt (snd (pass lt (x # xs'))) (x # xs') \<and>
          nruns lt (snd (pass lt (x # xs'))) \<le> fst (pass lt (x # xs'))" by simp
    next
      fix r y ys r2 s2
      assume a: "run lt x xs' = (r, y # ys)" "run lt y ys = (r2, s2)"
        "pass lt (x # xs') = (Suc (fst (pass lt s2)), merge lt r r2 @ snd (pass lt s2))"
        "length s2 < length (x # xs')"
      have e: "x # xs' = (r @ r2) @ s2" using run_append[OF a(1)] run_append[OF a(2)] by simp
      have IH: "ksim lt (snd (pass lt s2)) s2" "nruns lt (snd (pass lt s2)) \<le> fst (pass lt s2)"
        using 1 a(4) Cons by auto
      have "nruns lt (merge lt r r2) \<le> 1"
        using merge_sorted run_sorted a(1,2) sorted_nruns by blast
      then have "nruns lt (merge lt r r2 @ snd (pass lt s2)) \<le> Suc (fst (pass lt s2))"
        using nruns_append[of lt "merge lt r r2" "snd (pass lt s2)"] IH(2) by simp
      moreover have "ksim lt (merge lt r r2 @ snd (pass lt s2)) ((r @ r2) @ s2)"
        by (rule ksim_append[OF ksim_merge[OF run_sorted[OF a(1)]] IH(1)])
      ultimately show "ksim lt (snd (pass lt (x # xs'))) (x # xs') \<and>
          nruns lt (snd (pass lt (x # xs'))) \<le> fst (pass lt (x # xs'))"
        unfolding a(3) fst_conv snd_conv unfolding e by blast
    qed
  qed simp
qed

end

subsection \<open>The C routines\<close>

fun is_sorted_loop ::
  "nat \<Rightarrow> (addr \<Rightarrow> addr \<Rightarrow> bool) \<Rightarrow> list_heap \<Rightarrow> addr \<Rightarrow> addr \<Rightarrow> bool res" where
  "is_sorted_loop 0 lt h a b = Inl Diverged"
| "is_sorted_loop (Suc n) lt h a b =
     rbind (list_next h a) (\<lambda>a'.
       if a' = b then Inr True
       else rbind (list_prev h a') (\<lambda>p.
         if lt a' p then Inr False else is_sorted_loop n lt h a' b))"

definition is_sorted ::
  "nat \<Rightarrow> (addr \<Rightarrow> addr \<Rightarrow> bool) \<Rightarrow> list_heap \<Rightarrow> addr \<Rightarrow> addr \<Rightarrow> bool res" where
  "is_sorted n lt h a b = (if a \<noteq> b then is_sorted_loop n lt h a b else Inr True)"

fun find_end_of_run_loop ::
  "nat \<Rightarrow> (addr \<Rightarrow> addr \<Rightarrow> bool) \<Rightarrow> list_heap \<Rightarrow> addr \<Rightarrow> addr \<Rightarrow> addr res" where
  "find_end_of_run_loop 0 lt h a b = Inl Diverged"
| "find_end_of_run_loop (Suc n) lt h a b =
     rbind (list_next h a) (\<lambda>a'.
       if a' = b then Inr a'
       else rbind (list_prev h a') (\<lambda>p.
         if \<not> lt a' p then find_end_of_run_loop n lt h a' b else Inr a'))"

definition find_end_of_run ::
  "nat \<Rightarrow> (addr \<Rightarrow> addr \<Rightarrow> bool) \<Rightarrow> list_heap \<Rightarrow> addr \<Rightarrow> addr \<Rightarrow> addr res" where
  "find_end_of_run n lt h a b =
     kassert (a \<noteq> NULL) (kassert (b \<noteq> NULL) (kassert (a \<noteq> b) (find_end_of_run_loop n lt h a b)))"

fun inplace_merge_loop ::
  "nat \<Rightarrow> (addr \<Rightarrow> addr \<Rightarrow> bool) \<Rightarrow> addr \<Rightarrow> addr \<Rightarrow> addr \<Rightarrow> list_heap \<Rightarrow> list_heap res" where
  "inplace_merge_loop 0 lt a0 a1b0 b1 h = Inl Diverged"
| "inplace_merge_loop (Suc n) lt a0 a1b0 b1 h =
     (if a0 \<noteq> a1b0 \<and> a1b0 \<noteq> b1 then
        (if \<not> lt a1b0 a0
         then rbind (list_next h a0) (\<lambda>a0'. inplace_merge_loop n lt a0' a1b0 b1 h)
         else rbind (list_next h a1b0) (\<lambda>a1b0'.
              rbind (list_prev h a1b0') (\<lambda>p.
              rbind (list_splice a0 p a1b0' h) (\<lambda>h'.
                inplace_merge_loop n lt a0 a1b0' b1 h'))))
      else Inr h)"

definition inplace_merge ::
  "nat \<Rightarrow> (addr \<Rightarrow> addr \<Rightarrow> bool) \<Rightarrow> addr \<Rightarrow> addr \<Rightarrow> addr \<Rightarrow> list_heap \<Rightarrow> list_heap res" where
  "inplace_merge n lt a0 a1b0 b1 h =
     kassert (a0 \<noteq> NULL) (kassert (a1b0 \<noteq> NULL) (kassert (b1 \<noteq> NULL)
      (rbind (is_sorted n lt h a0 a1b0) (\<lambda>s1. kassert s1
      (rbind (is_sorted n lt h a1b0 b1) (\<lambda>s2. kassert s2
        (inplace_merge_loop n lt a0 a1b0 b1 h)))))))"

fun list_sort_pass ::
  "nat \<Rightarrow> nat \<Rightarrow> (addr \<Rightarrow> addr \<Rightarrow> bool) \<Rightarrow> klist \<Rightarrow> addr \<Rightarrow> nat \<Rightarrow> list_heap \<Rightarrow> (nat \<times> list_heap) res"
where
  "list_sort_pass 0 N lt l a0 output_run_cnt h = Inl Diverged"
| "list_sort_pass (Suc n) N lt l a0 output_run_cnt h =
     (if a0 = list_end l then Inr (output_run_cnt, h)
      else rbind (find_end_of_run N lt h a0 (list_end l)) (\<lambda>a1b0.
        if a1b0 = list_end l then Inr (Suc output_run_cnt, h)
        else rbind (find_end_of_run N lt h a1b0 (list_end l)) (\<lambda>b1.
             rbind (inplace_merge N lt a0 a1b0 b1 h) (\<lambda>h'.
               list_sort_pass n N lt l b1 (Suc output_run_cnt) h'))))"

fun list_sort_loop ::
  "nat \<Rightarrow> nat \<Rightarrow> (addr \<Rightarrow> addr \<Rightarrow> bool) \<Rightarrow> klist \<Rightarrow> list_heap \<Rightarrow> list_heap res" where
  "list_sort_loop 0 N lt l h = Inl Diverged"
| "list_sort_loop (Suc n) N lt l h =
     rbind (list_sort_pass N N lt l (list_begin h l) 0 h) (\<lambda>(output_run_cnt, h').
       if output_run_cnt > 1 then list_sort_loop n N lt l h' else Inr h')"

definition list_sort :: "nat \<Rightarrow> (addr \<Rightarrow> addr \<Rightarrow> bool) \<Rightarrow> klist \<Rightarrow> list_heap \<Rightarrow> list_heap res" where
  "list_sort N lt l h =
     rbind (list_sort_loop N N lt l h) (\<lambda>h'.
     rbind (is_sorted N lt h' (list_begin h' l) (list_end l)) (\<lambda>s. kassert s (Inr h')))"

lemma dll_prev_elem:
  "dll h l (A @ x # y # B) \<Longrightarrow> list_prev h y = Inr x"
  using dll_prev[of h l "A @ [x]" "y # B"] by simp

lemma find_end_of_run_loop_refines:
  assumes "dll h l (A @ x # B)" "length B < n" "run lt x B = (r, s)"
  shows "find_end_of_run_loop n lt h x (l_tail l) = Inr (hd (s @ [l_tail l]))"
  using assms
proof (induction B arbitrary: A x n r)
  case Nil
  then show ?case using dll_next[OF Nil(1)] by (cases n) auto
next
  case (Cons y B)
  then obtain k where n: "n = Suc k" by (cases n) auto
  have nx: "list_next h x = Inr y" "y \<noteq> l_tail l"
    using dll_next[OF Cons.prems(1)] dll_headers(2)[OF Cons.prems(1)] by auto
  with Cons.IH[of "A @ [x]" y k] Cons.prems n dll_prev_elem[OF Cons.prems(1)] show ?case
    by (auto split: if_splits prod.splits)
qed

lemma find_end_of_run_refines:
  assumes "dll h l (A @ x # B)" "length B < n" "run lt x B = (r, s)"
  shows "find_end_of_run n lt h x (list_end l) = Inr (hd (s @ [l_tail l]))"
  using find_end_of_run_loop_refines[OF assms] dll_headers[OF assms(1)]
  by (auto simp: find_end_of_run_def list_end_def)

lemma is_sorted_loop_refines:
  assumes "dll h l (A @ x # R @ S)" "length R < n" "b = hd (S @ [l_tail l])"
    "strict_weak_order lt"
  shows "is_sorted_loop n lt h x b = Inr (ksorted lt (x # R))"
  using assms(1-3)
proof (induction R arbitrary: A x n)
  case Nil
  then show ?case using dll_next[of h l A x S] by (cases n) (auto simp: ksorted_def)
next
  case (Cons y R)
  then obtain k where n: "n = Suc k" by (cases n) auto
  have "y \<notin> set (S @ [l_tail l])"
    using dll_headers[OF Cons.prems(1)] dll_distinct[OF Cons.prems(1)] by auto
  then have "y \<noteq> b" using hd_snoc[of S "l_tail l"] Cons.prems(3) by metis
  moreover have "list_next h x = Inr y" "list_prev h y = Inr x"
    using dll_next[OF Cons.prems(1)] dll_prev_elem[of h l A x y "R @ S"] Cons.prems(1) by auto
  ultimately show ?case
    using Cons.IH[of "A @ [x]" y k] Cons.prems n
    by (simp add: strict_weak_order.ksorted_Cons[OF assms(4)])
qed

lemma is_sorted_refines:
  assumes "dll h l (A @ R @ S)" "length R \<le> n" "strict_weak_order lt"
  shows "is_sorted n lt h (hd (R @ S @ [l_tail l])) (hd (S @ [l_tail l])) = Inr (ksorted lt R)"
proof (cases R)
  case Nil
  then show ?thesis by (simp add: is_sorted_def ksorted_def)
next
  case (Cons x R')
  have "x \<notin> set (S @ [l_tail l])"
    using dll_headers[OF assms(1)] dll_distinct[OF assms(1)] Cons by auto
  then have "x \<noteq> hd (S @ [l_tail l])" using hd_snoc[of S "l_tail l"] by metis
  with is_sorted_loop_refines[of h l A x R' S n] assms Cons show ?thesis
    by (simp add: is_sorted_def)
qed

lemma inplace_merge_loop_refines:
  assumes "dll h l (A @ R @ Q @ S)" "length R + length Q < n"
  shows "\<exists>h'. inplace_merge_loop n lt (hd (R @ Q @ S @ [l_tail l])) (hd (Q @ S @ [l_tail l]))
      (hd (S @ [l_tail l])) h = Inr h' \<and> dll h' l (A @ merge lt R Q @ S) \<and>
      (\<forall>a. a \<notin> set (nodes l (A @ R @ Q @ S)) \<longrightarrow> h' a = h a)"
  using assms
proof (induction R Q arbitrary: A n h rule: merge_induct[of _ lt])
  case (1 Q)
  then show ?case by (cases n) auto
next
  case (2 R)
  then show ?case by (cases n) auto
next
  case (3 x R y Q)
  then obtain k where n: "n = Suc k" by (cases n) auto
  let ?b = "hd (S @ [l_tail l])"
  note d = "3.prems"(1)
  have "x \<noteq> y" using dll_distinct[OF d] by auto
  have "y \<notin> set (S @ [l_tail l])" using dll_headers[OF d] dll_distinct[OF d] by auto
  then have "y \<noteq> ?b" using hd_snoc[of S "l_tail l"] by metis
  show ?case
  proof (cases "lt y x")
    case False
    have "list_next h x = Inr (hd (R @ y # Q @ S @ [l_tail l]))"
      using dll_next[of h l A x "R @ y # Q @ S"] d by simp
    moreover have "dll h l ((A @ [x]) @ R @ (y # Q) @ S)" using d by simp
    from "3.IH"(1)[OF False this, of k] "3.prems"(2) n obtain h' where
      "inplace_merge_loop k lt (hd (R @ (y # Q) @ S @ [l_tail l])) y ?b h = Inr h'"
      "dll h' l (A @ x # merge lt R (y # Q) @ S)"
      "\<forall>a. a \<notin> set (nodes l (A @ (x # R) @ (y # Q) @ S)) \<longrightarrow> h' a = h a" by auto
    ultimately show ?thesis
      using False n \<open>x \<noteq> y\<close> \<open>y \<noteq> ?b\<close> by simp
  next
    case True
    have nx: "list_next h y = Inr (hd (Q @ S @ [l_tail l]))"
      using dll_next[of h l "A @ x # R" y "Q @ S"] d by simp
    have pv: "list_prev h (hd (Q @ S @ [l_tail l])) = Inr y"
      using dll_prev[of h l "A @ x # R @ [y]" "Q @ S"] d by simp
    have d': "dll h l (A @ (x # R) @ [y] @ Q @ S)" using d by simp
    obtain h1 where h1: "list_splice x y (hd (Q @ S @ [l_tail l])) h = Inr h1"
      "dll h1 l (A @ [y] @ (x # R) @ Q @ S)"
      "\<And>a. a \<notin> set (nodes l (A @ (x # R) @ [y] @ Q @ S)) \<Longrightarrow> h1 a = h a"
      using list_splice_refines[OF d'] by auto
    have "dll h1 l ((A @ [y]) @ (x # R) @ Q @ S)" using h1(2) by simp
    from "3.IH"(2)[OF True this, of k] "3.prems"(2) n obtain h' where
      "inplace_merge_loop k lt x (hd (Q @ S @ [l_tail l])) ?b h1 = Inr h'"
      "dll h' l (A @ y # merge lt (x # R) Q @ S)"
      "\<forall>a. a \<notin> set (nodes l (A @ [y] @ (x # R) @ Q @ S)) \<longrightarrow> h' a = h1 a" by auto
    with True n \<open>x \<noteq> y\<close> \<open>y \<noteq> ?b\<close> nx pv h1(1,3) show ?thesis
      by (auto simp: nodes_def)
  qed
qed


lemma inplace_merge_refines:
  assumes d: "dll h l (A @ R @ Q @ S)" and n: "length R + length Q < n"
    and lt: "strict_weak_order lt" and s: "ksorted lt R" "ksorted lt Q"
  obtains h' where "inplace_merge n lt (hd (R @ Q @ S @ [l_tail l])) (hd (Q @ S @ [l_tail l]))
      (hd (S @ [l_tail l])) h = Inr h'" "dll h' l (A @ merge lt R Q @ S)"
    "\<And>a. a \<notin> set (nodes l (A @ R @ Q @ S)) \<Longrightarrow> h' a = h a"
proof -
  have ne: "hd (X @ [l_tail l]) \<noteq> NULL" if "NULL \<notin> set X" for X
    using that dll_headers(5)[OF d] by (cases X) auto
  have "NULL \<notin> set (R @ Q @ S)" using dll_headers(6)[OF d] by simp
  then have nn: "hd (R @ Q @ S @ [l_tail l]) \<noteq> NULL" "hd (Q @ S @ [l_tail l]) \<noteq> NULL" "hd (S @ [l_tail l]) \<noteq> NULL"
    using ne[of "R @ Q @ S"] ne[of "Q @ S"] ne[of S] by simp_all
  have s1: "is_sorted n lt h (hd (R @ Q @ S @ [l_tail l])) (hd (Q @ S @ [l_tail l])) = Inr (ksorted lt R)"
    using is_sorted_refines[of h l A R "Q @ S" n lt] d n lt by simp
  have s2: "is_sorted n lt h (hd (Q @ S @ [l_tail l])) (hd (S @ [l_tail l])) = Inr (ksorted lt Q)"
    using is_sorted_refines[of h l "A @ R" Q S n lt] d n lt by simp
  show ?thesis
    using inplace_merge_loop_refines[OF d n, of lt] nn s1 s2 s that
    by (auto simp: inplace_merge_def)
qed

lemma list_sort_pass_refines:
  assumes "dll h l (A @ B)" "length B < n" "length B < N" "strict_weak_order lt"
  shows "\<exists>h'. list_sort_pass n N lt l (hd (B @ [l_tail l])) c h = Inr (c + fst (pass lt B), h') \<and>
    dll h' l (A @ snd (pass lt B)) \<and> (\<forall>a. a \<notin> set (nodes l (A @ B)) \<longrightarrow> h' a = h a)"
  using assms(1-3)
proof (induction B arbitrary: A n c h rule: length_induct)
  case (1 B)
  obtain k where n: "n = Suc k" using "1.prems"(2) by (cases n) auto
  show ?case
  proof (cases B)
    case Nil
    with "1.prems" n show ?thesis by (auto simp: list_end_def)
  next
    case (Cons x xs)
    have d: "dll h l (A @ x # xs)" using "1.prems"(1) Cons by simp
    have x: "x \<noteq> l_tail l" using dll_headers(2)[OF d] by auto
    have fx: "find_end_of_run N lt h x (list_end l) = Inr (hd (s @ [l_tail l]))"
      if "run lt x xs = (r, s)" for r s
      using find_end_of_run_refines[OF d _ that] "1.prems"(3) Cons by simp
    show ?thesis unfolding Cons
    proof (rule pass_cases[of lt x xs], goal_cases)
      case (1 r)
      with fx[OF 1(1)] run_append[OF 1(1)] d n x show ?case by (auto simp: list_end_def)
    next
      case (2 r y ys r2 s2)
      have e: "x # xs = r @ r2 @ s2" "y # ys = r2 @ s2" "r \<noteq> []" "r2 \<noteq> []"
        using run_append[OF 2(1)] run_append[OF 2(2)] by auto
      have hds: "hd (r @ r2 @ s2 @ [l_tail l]) = x" "hd (r2 @ s2 @ [l_tail l]) = y"
        using e by (metis append_Cons append_assoc list.sel(1))+
      have d1: "dll h l (A @ r @ r2 @ s2)" using d e(1) by simp
      then have d2: "dll h l ((A @ r) @ y # ys)" using e(2) by simp
      have y: "y \<noteq> l_tail l" using dll_headers(2)[OF d2] by auto
      have len: "length r + length r2 < N" "length ys < N" "length s2 < k" "length s2 < N"
        using arg_cong[OF e(1), of length] arg_cong[OF e(2), of length] "1.prems"(2,3) Cons n e(3,4)
        by (cases r; cases r2; simp)+
      have fy: "find_end_of_run N lt h y (list_end l) = Inr (hd (s2 @ [l_tail l]))"
        using find_end_of_run_refines[OF d2 len(2) 2(2)] .
      obtain h1 where h1: "inplace_merge N lt x y (hd (s2 @ [l_tail l])) h = Inr h1"
          "dll h1 l (A @ merge lt r r2 @ s2)"
          "\<And>a. a \<notin> set (nodes l (A @ r @ r2 @ s2)) \<Longrightarrow> h1 a = h a"
        using inplace_merge_refines[OF d1 len(1) assms(4)] strict_weak_order.run_sorted[OF assms(4)] 2(1,2)
        unfolding hds by blast
      have IH: "\<exists>h'. list_sort_pass k N lt l (hd (s2 @ [l_tail l])) (Suc c) h1 =
          Inr (Suc c + fst (pass lt s2), h') \<and>
          dll h' l ((A @ merge lt r r2) @ snd (pass lt s2)) \<and>
          (\<forall>a. a \<notin> set (nodes l ((A @ merge lt r r2) @ s2)) \<longrightarrow> h' a = h1 a)"
        using "1.IH"[rule_format, of s2 h1 "A @ merge lt r r2" k "Suc c"] h1(2) len 2(4) Cons by simp
      have sets: "set (nodes l ((A @ merge lt r r2) @ s2)) = set (nodes l (A @ r @ r2 @ s2))"
        by (auto simp: nodes_def set_merge)
      from IH sets obtain h' where h': "list_sort_pass k N lt l (hd (s2 @ [l_tail l])) (Suc c) h1 =
          Inr (Suc c + fst (pass lt s2), h')" "dll h' l ((A @ merge lt r r2) @ snd (pass lt s2))"
          "\<forall>a. a \<notin> set (nodes l (A @ r @ r2 @ s2)) \<longrightarrow> h' a = h1 a" by auto
      have "list_sort_pass n N lt l x c h = Inr (c + Suc (fst (pass lt s2)), h')"
        using fx[OF 2(1)] fy h1(1) h'(1) n x y by (simp add: list_end_def)
      moreover have "\<forall>a. a \<notin> set (nodes l (A @ x # xs)) \<longrightarrow> h' a = h a"
        using h'(3) h1(3) unfolding e(1) by simp
      ultimately show ?case
        using h'(2) 2(3) by (intro exI[of _ h']) simp
    qed
  qed
qed

lemma list_sort_loop_refines:
  assumes "dll h l xs" "length xs < N" "fst (pass lt xs) < Suc n" "0 < n" "strict_weak_order lt"
  shows "\<exists>h'. list_sort_loop n N lt l h = Inr h' \<and> dll h' l (ksort lt xs) \<and>
    (\<forall>a. a \<notin> set (nodes l xs) \<longrightarrow> h' a = h a)"
  using assms(1-4)
proof (induction n arbitrary: h xs)
  case (Suc n)
  obtain c ys where p: "pass lt xs = (c, ys)" by fastforce
  note PC = strict_weak_order.pass_correct[OF assms(5), of xs, unfolded p fst_conv snd_conv]
  obtain h1 where h1: "list_sort_pass N N lt l (list_begin h l) 0 h = Inr (c, h1)" "dll h1 l ys"
    "\<forall>a. a \<notin> set (nodes l xs) \<longrightarrow> h1 a = h a"
    using list_sort_pass_refines[of h l "[]" xs N N lt 0] Suc.prems assms(5) p dll_begin[OF Suc.prems(1)]
    by auto
  have m: "mset ys = mset xs" using mset_pass[of lt xs] p by simp
  have sets: "set (nodes l ys) = set (nodes l xs)" "length ys = length xs"
    using mset_eq_setD[OF m] mset_eq_length[OF m] by (auto simp: nodes_def)
  have sim: "ksim lt ys xs" and nr: "nruns lt ys \<le> c" using PC by simp_all
  have srt: "ksort lt ys = ksort lt xs"
    by (rule strict_weak_order.ksort_eqI[OF assms(5)])
      (use strict_weak_order.ksorted_ksort[OF assms(5)] strict_weak_order.ksim_ksort[OF assms(5)]
        ksim_trans sim in blast)+
  show ?case
  proof (cases "c > 1")
    case True
    have "fst (pass lt ys) \<le> (c + 1) div 2" using nr pass_count[of lt ys] by (simp add: div_le_mono)
    moreover have "c < Suc (Suc n)" using Suc.prems(3) p by simp
    ultimately have "fst (pass lt ys) < Suc n" "0 < n" using True by auto
    from Suc.IH[OF h1(2) _ this] Suc.prems(2) sets obtain h' where
      "list_sort_loop n N lt l h1 = Inr h'" "dll h' l (ksort lt xs)"
      "\<forall>a. a \<notin> set (nodes l xs) \<longrightarrow> h' a = h1 a" using srt by auto
    with True h1 show ?thesis by auto
  next
    case False
    then have "ksorted lt ys" using strict_weak_order.nruns_le_1_sorted[OF assms(5)] nr by simp
    then have "ys = ksort lt xs" using strict_weak_order.ksort_eqI[OF assms(5)] sim by blast
    with False h1 show ?thesis by auto
  qed
qed simp

lemma list_sort_refines:
  assumes d: "dll h l xs" and N: "length xs < N" and lt: "strict_weak_order lt"
  obtains h' where "list_sort N lt l h = Inr h'" "dll h' l (ksort lt xs)"
    "\<And>a. a \<notin> set (nodes l xs) \<Longrightarrow> h' a = h a"
proof -
  have "fst (pass lt xs) \<le> length xs"
    using pass_count[of lt xs] nruns_le_length[of lt xs] by (cases xs) auto
  then obtain h' where h': "list_sort_loop N N lt l h = Inr h'" "dll h' l (ksort lt xs)"
    "\<forall>a. a \<notin> set (nodes l xs) \<longrightarrow> h' a = h a"
    using list_sort_loop_refines[OF d N _ _ lt, of N] N by fastforce
  have "is_sorted N lt h' (list_begin h' l) (list_end l) = Inr True"
    using is_sorted_refines[of h' l "[]" "ksort lt xs" "[]" N lt] h'(2) N lt
      strict_weak_order.ksorted_ksort[OF lt, of xs] dll_begin[OF h'(2)] by (simp add: list_end_def)
  with h' show ?thesis by (intro that[of h']) (simp_all add: list_sort_def)
qed


subsection \<open>The contract of the list module\<close>

locale intrusive_list =
  fixes repr :: "'h \<Rightarrow> 'l \<Rightarrow> 'e list \<Rightarrow> bool"
    and owned :: "'l \<Rightarrow> 'e list \<Rightarrow> 'e set"
    and usable :: "'e \<Rightarrow> bool"
    and push_back :: "'l \<Rightarrow> 'e \<Rightarrow> 'h \<Rightarrow> 'h res"
    and pop_front :: "'l \<Rightarrow> 'h \<Rightarrow> ('e \<times> 'h) res"
    and empty :: "'h \<Rightarrow> 'l \<Rightarrow> bool"
    and sort :: "nat \<Rightarrow> ('e \<Rightarrow> 'e \<Rightarrow> bool) \<Rightarrow> 'l \<Rightarrow> 'h \<Rightarrow> 'h res"
  assumes repr_push_back: "repr h l xs \<Longrightarrow> usable x \<Longrightarrow> x \<notin> owned l xs \<Longrightarrow>
      \<exists>h'. push_back l x h = Inr h' \<and> repr h' l (xs @ [x])"
    and repr_pop_front: "repr h l (x # xs) \<Longrightarrow> \<exists>h'. pop_front l h = Inr (x, h') \<and> repr h' l xs"
    and pop_front_empty: "repr h l [] \<Longrightarrow> pop_front l h = Inl Assertion"
    and empty_iff: "repr h l xs \<Longrightarrow> empty h l = (xs = [])"
    and repr_sort: "repr h l xs \<Longrightarrow> length xs < n \<Longrightarrow> strict_weak_order lt \<Longrightarrow>
      \<exists>h'. sort n lt l h = Inr h' \<and> repr h' l (ksort lt xs)"
begin

text \<open>
  The scheduling pattern of thread.c, synch.c and timer.c: append an element, sort, and later
  take the front. The element taken is minimal for the comparison, and among the minimal
  ones it is the one that came first.
\<close>

lemma enqueue_sort_dequeue:
  assumes "repr h l xs" "usable x" "x \<notin> owned l xs" "Suc (length xs) < n" "strict_weak_order lt"
  shows "\<exists>h1 h2 h3 y ys. push_back l x h = Inr h1 \<and> sort n lt l h1 = Inr h2 \<and>
    pop_front l h2 = Inr (y, h3) \<and> ksort lt (xs @ [x]) = y # ys \<and> repr h3 l ys \<and>
    (\<forall>z \<in> set (xs @ [x]). \<not> lt z y)"
proof -
  obtain h1 where h1: "push_back l x h = Inr h1" "repr h1 l (xs @ [x])"
    using repr_push_back assms by blast
  obtain h2 where h2: "sort n lt l h1 = Inr h2" "repr h2 l (ksort lt (xs @ [x]))"
    using repr_sort[OF h1(2)] assms by fastforce
  obtain y ys where y: "ksort lt (xs @ [x]) = y # ys"
    by (cases "ksort lt (xs @ [x])") (use length_ksort[of lt "xs @ [x]"] in auto)
  obtain h3 where h3: "pop_front l h2 = Inr (y, h3)" "repr h3 l ys"
    using repr_pop_front h2(2) y by metis
  have "\<forall>z \<in> set (y # ys). \<not> lt z y"
    using strict_weak_order.ksorted_ksort[OF assms(5), of "xs @ [x]"] strict_weak_order.irrefl[OF assms(5)]
    by (simp add: y ksorted_def)
  then have "\<forall>z \<in> set (xs @ [x]). \<not> lt z y"
    using set_ksort[of lt "xs @ [x]"] unfolding y by metis
  with h1 h2 h3 y show ?thesis by blast
qed

end

interpretation kl: intrusive_list dll "\<lambda>l xs. set (nodes l xs)" "\<lambda>x. x \<noteq> NULL"
  list_push_back list_pop_front list_empty list_sort
proof unfold_locales
  fix h l xs x
  assume "dll h l xs" "x \<noteq> NULL" "x \<notin> set (nodes l xs)"
  then show "\<exists>h'. list_push_back l x h = Inr h' \<and> dll h' l (xs @ [x])"
    by (metis list_push_back_refines)
next
  fix h l x xs
  assume "dll h l (x # xs)"
  then show "\<exists>h'. list_pop_front l h = Inr (x, h') \<and> dll h' l xs"
    by (metis list_pop_front_refines)
next
  fix h l xs n and lt :: "addr \<Rightarrow> addr \<Rightarrow> bool"
  assume "dll h l xs" "length xs < n" "strict_weak_order lt"
  then show "\<exists>h'. list_sort n lt l h = Inr h' \<and> dll h' l (ksort lt xs)"
    by (metis list_sort_refines)
qed (simp_all add: list_pop_empty dll_empty_iff)

end
