(* ===== verification/Slots.thy ===== *)
theory Slots
  imports Prelude
begin

text \<open>
  The contract every bitmap-backed allocator of the kernel offers its clients: the page
  pools (threads/palloc.c), the sector map of the file system (filesys/free-map.c) and the
  bitmap itself. A client asks for a contiguous group of slots and gives groups back that it
  was given before; \<open>serve\<close> runs a whole sequence of such requests and keeps the list of
  the groups currently handed out.
\<close>

datatype request = Get nat | Put nat

definition extent :: "nat \<times> nat \<Rightarrow> nat set" where
  "extent e = {fst e..<fst e + snd e}"

text \<open>\<open>Get n\<close> asks for \<open>n\<close> slots; \<open>Put i\<close> gives back the \<open>i\<close>-th live group. The
  allocator may fail to serve a request; the caller goes on.\<close>

fun serve ::
  "(nat \<Rightarrow> 's \<Rightarrow> nat option \<times> 's) \<Rightarrow> (nat \<Rightarrow> nat \<Rightarrow> 's \<Rightarrow> 's option) \<Rightarrow>
   request list \<Rightarrow> 's \<Rightarrow> (nat \<times> nat) list \<Rightarrow> ('s \<times> (nat \<times> nat) list) option" where
  "serve get put [] s live = Some (s, live)"
| "serve get put (Get n # rs) s live =
     (case (if n = 0 then (None, s) else get n s) of
        (None, s') \<Rightarrow> serve get put rs s' live
      | (Some k, s') \<Rightarrow> serve get put rs s' ((k, n) # live))"
| "serve get put (Put i # rs) s live =
     (if i < length live
      then (case put (fst (live ! i)) (snd (live ! i)) s of
              None \<Rightarrow> None
            | Some s' \<Rightarrow> serve get put rs s' (take i live @ drop (Suc i) live))
      else serve get put rs s live)"

definition held :: "(nat \<times> nat) list \<Rightarrow> nat set" where
  "held live = \<Union> (extent ` set live)"

fun disjoint_extents :: "(nat \<times> nat) list \<Rightarrow> bool" where
  "disjoint_extents [] = True"
| "disjoint_extents (e # live) = (extent e \<inter> held live = {} \<and> disjoint_extents live)"

lemma held_simps [simp]: "held [] = {}" "held (e # live) = extent e \<union> held live"
  "held (xs @ ys) = held xs \<union> held ys"
  by (auto simp: held_def)

lemma disjoint_extents_nth:
  "disjoint_extents live \<Longrightarrow> i < j \<Longrightarrow> j < length live \<Longrightarrow> extent (live ! i) \<inter> extent (live ! j) = {}"
proof (induction live arbitrary: i j)
  case (Cons e live)
  then show ?case by (cases i; cases j) (auto simp: held_def dest!: nth_mem)
qed simp

lemma disjoint_extents_append:
  "disjoint_extents (xs @ ys) \<longleftrightarrow>
     disjoint_extents xs \<and> disjoint_extents ys \<and> held xs \<inter> held ys = {}"
  by (induction xs) auto

lemma live_split: "i < length live \<Longrightarrow> live = take i live @ live ! i # drop (Suc i) live"
  by (rule id_take_nth_drop)

locale slot_allocator =
  fixes inv :: "'s \<Rightarrow> bool"
    and used :: "'s \<Rightarrow> nat set"
    and get :: "nat \<Rightarrow> 's \<Rightarrow> nat option \<times> 's"
    and put :: "nat \<Rightarrow> nat \<Rightarrow> 's \<Rightarrow> 's option"
  assumes get_fresh:
      "inv s \<Longrightarrow> 0 < n \<Longrightarrow> get n s = (Some k, s') \<Longrightarrow>
         inv s' \<and> extent (k, n) \<inter> used s = {} \<and> used s' = used s \<union> extent (k, n)"
    and get_fails:
      "inv s \<Longrightarrow> 0 < n \<Longrightarrow> get n s = (None, s') \<Longrightarrow> inv s' \<and> used s' = used s"
    and put_live:
      "inv s \<Longrightarrow> 0 < n \<Longrightarrow> extent (k, n) \<subseteq> used s \<Longrightarrow>
         \<exists>s'. put k n s = Some s' \<and> inv s' \<and> used s' = used s - extent (k, n)"
begin

lemma serve_ok:
  assumes "inv s" "disjoint_extents live" "held live \<subseteq> used s" "\<forall>e\<in>set live. 0 < snd e"
  shows "\<exists>s' live'. serve get put rs s live = Some (s', live') \<and> inv s' \<and> disjoint_extents live' \<and>
     held live' \<subseteq> used s' \<and> used s' - held live' = used s - held live \<and> (\<forall>e\<in>set live'. 0 < snd e)"
  using assms
proof (induction rs arbitrary: s live)
  case (Cons r rs)
  show ?case
  proof (cases r)
    case (Get n)
    show ?thesis
    proof (cases "\<exists>k s1. 0 < n \<and> get n s = (Some k, s1)")
      case False
      then obtain s1 where "(if n = 0 then (None, s) else get n s) = (None, s1)" by (cases "n = 0"; cases "get n s"; cases "fst (get n s)") auto
      moreover have "inv s1 \<and> used s1 = used s" using calculation get_fails [of s n s1] Cons.prems(1) by (cases "n = 0") auto
      ultimately show ?thesis using Cons.IH [of s1 live] Cons.prems Get by simp
    next
      case True
      then obtain k s1 where a: "0 < n" "get n s = (Some k, s1)" by blast
      note f = get_fresh [OF Cons.prems(1) a]
      have "disjoint_extents ((k, n) # live)" "held ((k, n) # live) \<subseteq> used s1"
        using f Cons.prems by auto
      moreover have "used s1 - held ((k, n) # live) = used s - held live" using f by auto
      ultimately show ?thesis using Cons.IH [of s1 "(k, n) # live"] f a Get Cons.prems by auto
    qed
  next
    case (Put i)
    show ?thesis
    proof (cases "i < length live")
      case True
      let ?e = "live ! i" and ?l = "take i live @ drop (Suc i) live"
      note sp = live_split [OF True]
      have d: "disjoint_extents ?l" "extent ?e \<inter> held ?l = {}" "held live = extent ?e \<union> held ?l"
      proof -
        have D: "disjoint_extents (take i live @ ?e # drop (Suc i) live)" using sp Cons.prems by simp
        show "disjoint_extents ?l" "extent ?e \<inter> held ?l = {}"
          using D by (auto simp: disjoint_extents_append )
        show "held live = extent ?e \<union> held ?l" by (subst sp) auto
      qed
      have e: "0 < snd ?e" "extent (fst ?e, snd ?e) \<subseteq> used s"
        using Cons.prems True d by auto
      obtain s1 where s1: "put (fst ?e) (snd ?e) s = Some s1" "inv s1" "used s1 = used s - extent ?e"
        using put_live [OF Cons.prems(1) e] by auto
      have "\<forall>e\<in>set ?l. 0 < snd e" using Cons.prems(4) by (auto dest: in_set_takeD in_set_dropD)
      moreover have "held ?l \<subseteq> used s1" "used s1 - held ?l = used s - held live"
        using d s1 Cons.prems by auto
      ultimately show ?thesis using Cons.IH [of s1 ?l] s1 d Put True Cons.prems by auto
    next
      case False
      then show ?thesis using Cons Put by simp
    qed
  qed
qed auto

text \<open>A client that starts on an unused resource never sees two live groups overlap, and what
  is marked used is exactly what it holds.\<close>

lemma serve_from_empty:
  assumes "inv s" "used s = {}"
  shows "\<exists>s' live. serve get put rs s [] = Some (s', live) \<and> inv s' \<and> disjoint_extents live \<and> used s' = held live"
  using serve_ok [of s "[]" rs] assms by auto

text \<open>Giving back at once what was just taken restores the resource.\<close>

lemma get_put:
  assumes "inv s" "0 < n" "get n s = (Some k, s1)"
  shows "\<exists>s2. put k n s1 = Some s2 \<and> inv s2 \<and> used s2 = used s"
proof -
  note f = get_fresh [OF assms]
  then show ?thesis using put_live [of s1 n k] assms(2) by auto
qed

end

text \<open>The contract of a table of names, which directories (names to sectors) and address spaces (user
  pages to frames) offer: a map to which a name that is absent can be added while there is room,
  and from which a name that is present can be removed.\<close>

locale name_table =
  fixes inv :: "'t \<Rightarrow> bool"
    and table :: "'t \<Rightarrow> 'n \<rightharpoonup> 'v"
    and ok :: "'n \<Rightarrow> 'v \<Rightarrow> bool"
    and add :: "'n \<Rightarrow> 'v \<Rightarrow> 't \<Rightarrow> 't option"
    and del :: "'n \<Rightarrow> 't \<Rightarrow> 't option"
  assumes add_absent: "inv t \<Longrightarrow> ok n v \<Longrightarrow> add n v t = Some t' \<Longrightarrow>
        table t n = None \<and> inv t' \<and> table t' = (table t)(n \<mapsto> v)"
    and del_present: "inv t \<Longrightarrow> del n t = Some t' \<Longrightarrow> inv t' \<and> table t' = (table t)(n := None)"
    and del_fails: "inv t \<Longrightarrow> del n t = None \<longleftrightarrow> table t n = None"
begin

lemma add_then_del:
  assumes "inv t" "ok n v" "add n v t = Some t'"
  shows "\<exists>t''. del n t' = Some t'' \<and> inv t'' \<and> table t'' = table t"
proof -
  note a = add_absent [OF assms]
  then obtain t'' where "del n t' = Some t''" using del_fails [of t' n] by (cases "del n t'") auto
  then show ?thesis using del_present [of t' n t''] a by (auto simp: fun_eq_iff)
qed

lemma add_twice:
  assumes "inv t" "ok n v" "add n v t = Some t'" "ok n w"
  shows "add n w t' = None"
  using add_absent [OF assms(1-3)] add_absent [of t' n w] assms(4) by (cases "add n w t'") auto

end

end
