(* ===== verification/Bitmap.thy ===== *)
theory Bitmap
  imports Prelude Slots
begin

unbundle bit_operations_syntax

text \<open>
  Bitmaps (src/pintos2/src/lib/kernel/bitmap.c; the file is the same in both trees): an array
  of 32-bit words seen as an array of bits.

  The operations are transcribed on the words. The abstraction \<open>bm_abs\<close> reads the words as a
  list of booleans; the lemmas \<open>*_refines\<close> say what each operation does on that list, for
  every bitmap whose words cover its bits (\<open>bm_wf\<close>), which every operation keeps. The
  interpretation at the end makes the bitmap an instance of the allocator contract.
\<close>

subsection \<open>The operations of bitmap.c\<close>

definition ELEM_BITS :: nat where
  "ELEM_BITS = 32"

definition BITMAP_ERROR :: nat where
  "BITMAP_ERROR = 2 ^ 32 - 1"

record bitmap =
  bit_cnt :: nat
  bits :: "u32 list"

definition elem_idx :: "nat \<Rightarrow> nat" where
  "elem_idx bit_idx = bit_idx div ELEM_BITS"

definition bit_mask :: "nat \<Rightarrow> u32" where
  "bit_mask bit_idx = push_bit (bit_idx mod ELEM_BITS) 1"

definition elem_cnt :: "nat \<Rightarrow> nat" where
  "elem_cnt n = DIV_ROUND_UP n ELEM_BITS"

definition byte_cnt :: "nat \<Rightarrow> nat" where
  "byte_cnt n = sz (4 * elem_cnt n)"

definition last_mask :: "bitmap \<Rightarrow> u32" where
  "last_mask b =
     (let last_bits = bit_cnt b mod ELEM_BITS
      in if last_bits \<noteq> 0 then push_bit last_bits 1 - 1 else - 1)"

definition bitmap_size :: "bitmap \<Rightarrow> nat" where
  "bitmap_size b = bit_cnt b"

definition bitmap_mark :: "bitmap \<Rightarrow> nat \<Rightarrow> bitmap res" where
  "bitmap_mark b bit_idx =
     (let idx = elem_idx bit_idx; mask = bit_mask bit_idx
      in kdefined (idx < length (bits b)) (Inr (b\<lparr>bits := (bits b)[idx := bits b ! idx OR mask]\<rparr>)))"

definition bitmap_reset :: "bitmap \<Rightarrow> nat \<Rightarrow> bitmap res" where
  "bitmap_reset b bit_idx =
     (let idx = elem_idx bit_idx; mask = bit_mask bit_idx
      in kdefined (idx < length (bits b)) (Inr (b\<lparr>bits := (bits b)[idx := bits b ! idx AND NOT mask]\<rparr>)))"

definition bitmap_flip :: "bitmap \<Rightarrow> nat \<Rightarrow> bitmap res" where
  "bitmap_flip b bit_idx =
     (let idx = elem_idx bit_idx; mask = bit_mask bit_idx
      in kdefined (idx < length (bits b)) (Inr (b\<lparr>bits := (bits b)[idx := bits b ! idx XOR mask]\<rparr>)))"

definition bitmap_set :: "bitmap \<Rightarrow> nat \<Rightarrow> bool \<Rightarrow> bitmap res" where
  "bitmap_set b idx val =
     kassert (idx < bit_cnt b) (if val then bitmap_mark b idx else bitmap_reset b idx)"

definition bitmap_test :: "bitmap \<Rightarrow> nat \<Rightarrow> bool res" where
  "bitmap_test b idx =
     kassert (idx < bit_cnt b)
      (kdefined (elem_idx idx < length (bits b)) (Inr ((bits b ! elem_idx idx) AND bit_mask idx \<noteq> 0)))"

fun bitmap_set_loop :: "bitmap \<Rightarrow> nat \<Rightarrow> bool \<Rightarrow> nat \<Rightarrow> nat \<Rightarrow> bitmap res" where
  "bitmap_set_loop b start val i 0 = Inr b"
| "bitmap_set_loop b start val i (Suc left) =
     rbind (bitmap_set b (sz (start + i)) val) (\<lambda>b'. bitmap_set_loop b' start val (Suc i) left)"

definition bitmap_set_multiple :: "bitmap \<Rightarrow> nat \<Rightarrow> nat \<Rightarrow> bool \<Rightarrow> bitmap res" where
  "bitmap_set_multiple b start cnt val =
     kassert (start \<le> bit_cnt b)
      (kassert (sz (start + cnt) \<le> bit_cnt b) (bitmap_set_loop b start val 0 cnt))"

definition bitmap_set_all :: "bitmap \<Rightarrow> bool \<Rightarrow> bitmap res" where
  "bitmap_set_all b val = bitmap_set_multiple b 0 (bitmap_size b) val"

fun bitmap_count_loop :: "bitmap \<Rightarrow> nat \<Rightarrow> bool \<Rightarrow> nat \<Rightarrow> nat \<Rightarrow> nat \<Rightarrow> nat res" where
  "bitmap_count_loop b start val i 0 value_cnt = Inr value_cnt"
| "bitmap_count_loop b start val i (Suc left) value_cnt =
     rbind (bitmap_test b (sz (start + i))) (\<lambda>t.
       bitmap_count_loop b start val (Suc i) left (if t = val then Suc value_cnt else value_cnt))"

definition bitmap_count :: "bitmap \<Rightarrow> nat \<Rightarrow> nat \<Rightarrow> bool \<Rightarrow> nat res" where
  "bitmap_count b start cnt val =
     kassert (start \<le> bit_cnt b)
      (kassert (sz (start + cnt) \<le> bit_cnt b) (bitmap_count_loop b start val 0 cnt 0))"

fun bitmap_contains_loop :: "bitmap \<Rightarrow> nat \<Rightarrow> bool \<Rightarrow> nat \<Rightarrow> nat \<Rightarrow> bool res" where
  "bitmap_contains_loop b start val i 0 = Inr False"
| "bitmap_contains_loop b start val i (Suc left) =
     rbind (bitmap_test b (sz (start + i))) (\<lambda>t.
       if t = val then Inr True else bitmap_contains_loop b start val (Suc i) left)"

definition bitmap_contains :: "bitmap \<Rightarrow> nat \<Rightarrow> nat \<Rightarrow> bool \<Rightarrow> bool res" where
  "bitmap_contains b start cnt val =
     kassert (start \<le> bit_cnt b)
      (kassert (sz (start + cnt) \<le> bit_cnt b) (bitmap_contains_loop b start val 0 cnt))"

definition bitmap_any :: "bitmap \<Rightarrow> nat \<Rightarrow> nat \<Rightarrow> bool res" where
  "bitmap_any b start cnt = bitmap_contains b start cnt True"

definition bitmap_none :: "bitmap \<Rightarrow> nat \<Rightarrow> nat \<Rightarrow> bool res" where
  "bitmap_none b start cnt = rbind (bitmap_contains b start cnt True) (\<lambda>r. Inr (\<not> r))"

definition bitmap_all :: "bitmap \<Rightarrow> nat \<Rightarrow> nat \<Rightarrow> bool res" where
  "bitmap_all b start cnt = rbind (bitmap_contains b start cnt False) (\<lambda>r. Inr (\<not> r))"

fun bitmap_scan_loop :: "bitmap \<Rightarrow> nat \<Rightarrow> bool \<Rightarrow> nat \<Rightarrow> nat \<Rightarrow> nat res" where
  "bitmap_scan_loop b cnt val i 0 = Inr BITMAP_ERROR"
| "bitmap_scan_loop b cnt val i (Suc left) =
     rbind (bitmap_contains b i cnt (\<not> val)) (\<lambda>r.
       if \<not> r then Inr i else bitmap_scan_loop b cnt val (Suc i) left)"

definition bitmap_scan :: "bitmap \<Rightarrow> nat \<Rightarrow> nat \<Rightarrow> bool \<Rightarrow> nat res" where
  "bitmap_scan b start cnt val =
     kassert (start \<le> bit_cnt b)
      (if cnt \<le> bit_cnt b
       then (let last = bit_cnt b - cnt in bitmap_scan_loop b cnt val start (Suc last - start))
       else Inr BITMAP_ERROR)"

definition bitmap_scan_and_flip :: "bitmap \<Rightarrow> nat \<Rightarrow> nat \<Rightarrow> bool \<Rightarrow> (nat \<times> bitmap) res" where
  "bitmap_scan_and_flip b start cnt val =
     rbind (bitmap_scan b start cnt val) (\<lambda>idx.
       if idx \<noteq> BITMAP_ERROR
       then rbind (bitmap_set_multiple b idx cnt (\<not> val)) (\<lambda>b'. Inr (idx, b'))
       else Inr (idx, b))"

text \<open>
  \<open>bitmap_create\<close>: the two \<^verbatim>\<open>malloc\<close> calls may fail; the second one yields a buffer whose
  contents are whatever was in memory.
\<close>

definition bitmap_create :: "bool \<Rightarrow> u32 list option \<Rightarrow> nat \<Rightarrow> bitmap option res" where
  "bitmap_create b_ok buf n =
     (if b_ok then
        (if buf \<noteq> None \<or> n = 0
         then rbind (bitmap_set_all \<lparr>bit_cnt = n, bits = (case buf of None \<Rightarrow> [] | Some ws \<Rightarrow> ws)\<rparr> False)
           (\<lambda>b. Inr (Some b))
         else Inr None)
      else Inr None)"

definition bitmap_buf_size :: "nat \<Rightarrow> nat" where
  "bitmap_buf_size n = sz (8 + byte_cnt n)"

definition bitmap_create_in_buf :: "nat \<Rightarrow> u32 list \<Rightarrow> nat \<Rightarrow> bitmap res" where
  "bitmap_create_in_buf n block block_size =
     kassert (bitmap_buf_size n \<le> block_size)
      (bitmap_set_all \<lparr>bit_cnt = n, bits = drop 2 block\<rparr> False)"

definition bitmap_file_size :: "bitmap \<Rightarrow> nat" where
  "bitmap_file_size b = byte_cnt (bit_cnt b)"

subsection \<open>Abstraction\<close>

definition bm_wf :: "bitmap \<Rightarrow> bool" where
  "bm_wf b \<longleftrightarrow> bit_cnt b \<le> 32 * length (bits b) \<and> bit_cnt b < 2 ^ 32"

definition bm_abs :: "bitmap \<Rightarrow> bool list" where
  "bm_abs b = map (\<lambda>i. bit (bits b ! (i div 32)) (i mod 32)) [0..<bit_cnt b]"

lemma length_bm_abs [simp]: "length (bm_abs b) = bit_cnt b"
  by (simp add: bm_abs_def)

lemma bm_abs_nth: "i < bit_cnt b \<Longrightarrow> bm_abs b ! i = bit (bits b ! (i div 32)) (i mod 32)"
  by (simp add: bm_abs_def)

lemma bm_wf_idx: "bm_wf b \<Longrightarrow> i < bit_cnt b \<Longrightarrow> i div 32 < length (bits b)"
  by (auto simp: bm_wf_def less_mult_imp_div_less mult.commute)

lemma bit_mask_bit: "bit (bit_mask i) n \<longleftrightarrow> n = i mod 32"
  by (auto simp: bit_mask_def ELEM_BITS_def bit_exp_iff)

lemma and_mask_ne_0: "(w AND bit_mask i \<noteq> 0) = bit w (i mod 32)"
proof -
  have "w AND bit_mask i = 0 \<longleftrightarrow> (\<forall>n. \<not> (bit w n \<and> n = i mod 32))"
    using mod_less_divisor [of 32 i] bit_imp_le_length [of w]
    by (auto simp: bit_eq_iff [of _ "0 :: u32"] bit_and_iff bit_mask_bit simp del: mod_less_divisor)
  then show ?thesis by blast
qed

lemma bm_abs_upd:
  assumes wf: "bm_wf b" and i: "i < bit_cnt b"
    and w: "\<And>n. n < 32 \<Longrightarrow> bit w n = (if n = i mod 32 then v else bit (bits b ! (i div 32)) n)"
  shows "bm_abs (b\<lparr>bits := (bits b)[i div 32 := w]\<rparr>) = (bm_abs b)[i := v]"
proof (rule nth_equalityI)
  fix j assume "j < length (bm_abs (b\<lparr>bits := (bits b)[i div 32 := w]\<rparr>))"
  then have j: "j < bit_cnt b" by simp
  have l: "i div 32 < length (bits b)" using bm_wf_idx [OF wf i] .
  have e: "j div 32 = i div 32 \<Longrightarrow> j mod 32 = i mod 32 \<Longrightarrow> j = i"
    by (metis div_mult_mod_eq)
  show "bm_abs (b\<lparr>bits := (bits b)[i div 32 := w]\<rparr>) ! j = (bm_abs b)[i := v] ! j"
  proof (cases "j div 32 = i div 32")
    case True
    then show ?thesis using j i l w [of "j mod 32"] e
      by (cases "j = i") (auto simp: bm_abs_nth)
  next
    case False
    then have "j \<noteq> i" by blast
    then show ?thesis using False j i by (simp add: bm_abs_nth nth_list_update)
  qed
qed simp

lemma bm_wf_upd [simp]: "bm_wf (b\<lparr>bits := (bits b)[k := w]\<rparr>) = bm_wf b"
  by (simp add: bm_wf_def)

lemma bitmap_test_refines: "bm_wf b \<Longrightarrow> i < bit_cnt b \<Longrightarrow> bitmap_test b i = Inr (bm_abs b ! i)"
  using bm_wf_idx [of b i]
  by (simp add: bitmap_test_def elem_idx_def ELEM_BITS_def and_mask_ne_0 bm_abs_nth)

lemma bitmap_set_refines:
  assumes "bm_wf b" "i < bit_cnt b"
  shows "\<exists>b'. bitmap_set b i v = Inr b' \<and> bm_wf b' \<and> bm_abs b' = (bm_abs b)[i := v] \<and> bit_cnt b' = bit_cnt b"
  using assms bm_wf_idx [OF assms] 
  by (simp add: bitmap_set_def bitmap_mark_def bitmap_reset_def Let_def elem_idx_def ELEM_BITS_def
       bm_abs_upd bit_or_iff bit_and_iff bit_not_iff bit_mask_bit)

lemma bitmap_flip_refines:
  assumes "bm_wf b" "i < bit_cnt b"
  shows "\<exists>b'. bitmap_flip b i = Inr b' \<and> bm_wf b' \<and> bm_abs b' = (bm_abs b)[i := \<not> bm_abs b ! i] \<and> bit_cnt b' = bit_cnt b"
  using assms bm_wf_idx [OF assms] 
  by (auto simp: bitmap_flip_def Let_def elem_idx_def ELEM_BITS_def bm_abs_nth
       bm_abs_upd bit_xor_iff bit_mask_bit)

lemma bitmap_set_loop_refines:
  "bm_wf b \<Longrightarrow> start + i + left \<le> bit_cnt b \<Longrightarrow>
   \<exists>b'. bitmap_set_loop b start v i left = Inr b' \<and> bm_wf b' \<and> bit_cnt b' = bit_cnt b \<and>
     bm_abs b' = take (start + i) (bm_abs b) @ replicate left v @ drop (start + i + left) (bm_abs b)"
proof (induction left arbitrary: b i)
  case (Suc left)
  have sz: "sz (start + i) = start + i" using Suc.prems by (simp add: sz_def bm_wf_def)
  obtain b1 where b1: "bitmap_set b (start + i) v = Inr b1" "bm_wf b1"
      "bm_abs b1 = (bm_abs b)[start + i := v]" "bit_cnt b1 = bit_cnt b"
    using bitmap_set_refines [of b "start + i" v] Suc.prems by auto
  obtain b2 where b2: "bitmap_set_loop b1 start v (Suc i) left = Inr b2" "bm_wf b2" "bit_cnt b2 = bit_cnt b1"
     "bm_abs b2 = take (start + Suc i) (bm_abs b1) @ replicate left v @ drop (start + Suc i + left) (bm_abs b1)"
    using Suc.IH [of b1 "Suc i"] b1 Suc.prems by auto
  have "take (Suc (start + i)) ((bm_abs b)[start + i := v]) = take (start + i) (bm_abs b) @ [v]"
    using Suc.prems by (simp add: take_Suc_conv_app_nth)
  then show ?case using b1 b2 sz by simp
qed simp

lemma bitmap_set_multiple_refines:
  assumes "bm_wf b" "start + cnt \<le> bit_cnt b"
  shows "\<exists>b'. bitmap_set_multiple b start cnt v = Inr b' \<and> bm_wf b' \<and> bit_cnt b' = bit_cnt b \<and>
     bm_abs b' = take start (bm_abs b) @ replicate cnt v @ drop (start + cnt) (bm_abs b)"
  using bitmap_set_loop_refines [of b start 0 cnt v] assms
  by (simp add: bitmap_set_multiple_def sz_id bm_wf_def)

lemma bitmap_count_loop_refines:
  "bm_wf b \<Longrightarrow> start + i + left \<le> bit_cnt b \<Longrightarrow>
   bitmap_count_loop b start v i left n =
     Inr (n + length (filter (\<lambda>x. x = v) (take left (drop (start + i) (bm_abs b)))))"
proof (induction left arbitrary: i n)
  case (Suc left)
  have sz: "sz (start + i) = start + i" using Suc.prems by (simp add: sz_def bm_wf_def)
  have "drop (start + i) (bm_abs b) = bm_abs b ! (start + i) # drop (start + Suc i) (bm_abs b)"
    using Suc.prems by (simp add: Cons_nth_drop_Suc)
  then show ?case using Suc sz by (auto simp: bitmap_test_refines)
qed simp

lemma bitmap_count_refines:
  assumes "bm_wf b" "start + cnt \<le> bit_cnt b"
  shows "bitmap_count b start cnt v = Inr (length (filter (\<lambda>x. x = v) (take cnt (drop start (bm_abs b)))))"
  using bitmap_count_loop_refines [of b start 0 cnt v 0] assms
  by (simp add: bitmap_count_def sz_id bm_wf_def)

lemma bitmap_contains_loop_refines:
  "bm_wf b \<Longrightarrow> start + i + left \<le> bit_cnt b \<Longrightarrow>
   bitmap_contains_loop b start v i left = Inr (v \<in> set (take left (drop (start + i) (bm_abs b))))"
proof (induction left arbitrary: i)
  case (Suc left)
  have sz: "sz (start + i) = start + i" using Suc.prems by (simp add: sz_def bm_wf_def)
  have "drop (start + i) (bm_abs b) = bm_abs b ! (start + i) # drop (start + Suc i) (bm_abs b)"
    using Suc.prems by (simp add: Cons_nth_drop_Suc)
  then show ?case using Suc sz by (auto simp: bitmap_test_refines)
qed simp

lemma bitmap_contains_refines:
  assumes "bm_wf b" "start + cnt \<le> bit_cnt b"
  shows "bitmap_contains b start cnt v = Inr (v \<in> set (take cnt (drop start (bm_abs b))))"
  using bitmap_contains_loop_refines [of b start 0 cnt v] assms
  by (simp add: bitmap_contains_def sz_id bm_wf_def)

definition free_run :: "bool list \<Rightarrow> bool \<Rightarrow> nat \<Rightarrow> nat \<Rightarrow> bool" where
  "free_run xs v cnt i \<longleftrightarrow> i + cnt \<le> length xs \<and> (\<forall>j<cnt. xs ! (i + j) = v)"

lemma free_run_iff:
  assumes "i + cnt \<le> length xs"
  shows "free_run xs v cnt i \<longleftrightarrow> (\<not> v) \<notin> set (take cnt (drop i xs))"
  using assms by (auto simp: free_run_def in_set_conv_nth)

lemma bitmap_scan_loop_refines:
  "bm_wf b \<Longrightarrow> i + left + cnt \<le> Suc (bit_cnt b) \<Longrightarrow> cnt \<le> bit_cnt b \<Longrightarrow>
   bitmap_scan_loop b cnt v i left =
     Inr (case List.find (free_run (bm_abs b) v cnt) [i..<i + left] of None \<Rightarrow> BITMAP_ERROR | Some k \<Rightarrow> k)"
proof (induction left arbitrary: i)
  case (Suc left)
  have "[i..<i + Suc left] = i # [Suc i..<Suc i + left]" by (simp add: upt_conv_Cons)
  then show ?case using Suc.IH [of "Suc i"] Suc.prems
    by (auto simp: bitmap_contains_refines free_run_iff)
qed simp


lemma bitmap_scan_refines:
  assumes "bm_wf b" "start \<le> bit_cnt b"
  shows "bitmap_scan b start cnt v =
     Inr (case List.find (free_run (bm_abs b) v cnt) [start..<Suc (bit_cnt b)] of
           None \<Rightarrow> BITMAP_ERROR | Some k \<Rightarrow> k)"
proof (cases "cnt \<le> bit_cnt b")
  case True
  have nf: "\<And>k. Suc (bit_cnt b - cnt) \<le> k \<Longrightarrow> \<not> free_run (bm_abs b) v cnt k"
    using True unfolding free_run_def length_bm_abs by linarith
  have e: "List.find (free_run (bm_abs b) v cnt) [start..<Suc (bit_cnt b)]
      = List.find (free_run (bm_abs b) v cnt) [start..<Suc (bit_cnt b - cnt)]"
    by (rule find_upt_extend) (use nf in auto)
  show ?thesis
  proof (cases "start \<le> bit_cnt b - cnt")
    case le: True
    then show ?thesis using True assms e bitmap_scan_loop_refines [of b start "Suc (bit_cnt b - cnt) - start" cnt v]
      by (simp add: bitmap_scan_def Let_def Suc_diff_le del: upt_Suc)
  next
    case False
    then have "[start..<Suc (bit_cnt b - cnt)] = []" by simp
    with e have "List.find (free_run (bm_abs b) v cnt) [start..<Suc (bit_cnt b)] = None" by simp
    then show ?thesis using True False assms by (simp add: bitmap_scan_def Let_def del: upt_Suc)
  qed
next
  case False
  then have "\<not> free_run (bm_abs b) v cnt k" for k by (simp add: free_run_def)
  then have "List.find (free_run (bm_abs b) v cnt) ks = None" for ks by (simp add: find_None_iff)
  then show ?thesis using False assms by (simp add: bitmap_scan_def)
qed

lemma bitmap_scan_cases:
  assumes "bm_wf b" "start \<le> bit_cnt b"
  obtains (found) k where "bitmap_scan b start cnt v = Inr k" "start \<le> k" "k \<le> bit_cnt b"
      "free_run (bm_abs b) v cnt k" "\<And>j. start \<le> j \<Longrightarrow> j < k \<Longrightarrow> \<not> free_run (bm_abs b) v cnt j"
  | (none) "bitmap_scan b start cnt v = Inr BITMAP_ERROR" "\<And>j. start \<le> j \<Longrightarrow> \<not> free_run (bm_abs b) v cnt j"
proof (cases "List.find (free_run (bm_abs b) v cnt) [start..<Suc (bit_cnt b)]")
  case None
  moreover have "\<not> free_run (bm_abs b) v cnt j" if "start \<le> j" for j
    using None that by (cases "j \<le> bit_cnt b") (auto simp: find_None_iff free_run_def)
  ultimately show ?thesis using none bitmap_scan_refines [OF assms, of cnt v] by simp
next
  case (Some k)
  then show ?thesis using found [of k] find_upt_Some [OF Some] bitmap_scan_refines [OF assms, of cnt v]
    by simp
qed

lemma bm_index_not_error: "bm_wf b \<Longrightarrow> k + cnt \<le> bit_cnt b \<Longrightarrow> 0 < cnt \<Longrightarrow> k \<noteq> BITMAP_ERROR"
  by (auto simp: bm_wf_def BITMAP_ERROR_def)

text \<open>The allocation step: first fit, or no change.\<close>

lemma bitmap_scan_and_flip_cases:
  assumes "bm_wf b" "start \<le> bit_cnt b" "0 < cnt"
  obtains (found) k b' where "bitmap_scan_and_flip b start cnt v = Inr (k, b')" "k \<noteq> BITMAP_ERROR"
      "start \<le> k" "k + cnt \<le> bit_cnt b" "bm_wf b'" "bit_cnt b' = bit_cnt b"
      "free_run (bm_abs b) v cnt k" "\<And>j. start \<le> j \<Longrightarrow> j < k \<Longrightarrow> \<not> free_run (bm_abs b) v cnt j"
      "bm_abs b' = take k (bm_abs b) @ replicate cnt (\<not> v) @ drop (k + cnt) (bm_abs b)"
  | (none) "bitmap_scan_and_flip b start cnt v = Inr (BITMAP_ERROR, b)"
      "\<And>j. start \<le> j \<Longrightarrow> \<not> free_run (bm_abs b) v cnt j"
proof (rule bitmap_scan_cases [OF assms(1,2), of cnt v])
  fix k assume k: "bitmap_scan b start cnt v = Inr k" "start \<le> k" "k \<le> bit_cnt b"
      "free_run (bm_abs b) v cnt k" "\<And>j. start \<le> j \<Longrightarrow> j < k \<Longrightarrow> \<not> free_run (bm_abs b) v cnt j"
  have le: "k + cnt \<le> bit_cnt b" using k(4) by (simp add: free_run_def)
  obtain b' where b': "bitmap_set_multiple b k cnt (\<not> v) = Inr b'" "bm_wf b'" "bit_cnt b' = bit_cnt b"
     "bm_abs b' = take k (bm_abs b) @ replicate cnt (\<not> v) @ drop (k + cnt) (bm_abs b)"
    using bitmap_set_multiple_refines [OF assms(1) le] by blast
  show thesis
    by (rule found [of k b'])
       (use k b' le bm_index_not_error [OF assms(1) le assms(3)] in \<open>auto simp: bitmap_scan_and_flip_def\<close>)
next
  assume "bitmap_scan b start cnt v = Inr BITMAP_ERROR" "\<And>j. start \<le> j \<Longrightarrow> \<not> free_run (bm_abs b) v cnt j"
  then show thesis using none by (simp add: bitmap_scan_and_flip_def)
qed

lemma take_drop_same: "k + cnt \<le> length xs \<Longrightarrow> free_run xs v cnt k \<Longrightarrow> take cnt (drop k xs) = replicate cnt v"
  by (rule nth_equalityI) (auto simp: free_run_def)

lemma bitmap_flip_release:
  assumes "bm_wf b" "start \<le> bit_cnt b" "0 < cnt"
    and "bitmap_scan_and_flip b start cnt v = Inr (k, b1)" "k \<noteq> BITMAP_ERROR"
  shows "\<exists>b2. bitmap_set_multiple b1 k cnt v = Inr b2 \<and> bm_abs b2 = bm_abs b \<and> bm_wf b2"
proof (rule bitmap_scan_and_flip_cases [OF assms(1-3), of v])
  fix k' b' assume h: "bitmap_scan_and_flip b start cnt v = Inr (k', b')"
      "k' + cnt \<le> bit_cnt b" "bm_wf b'" "bit_cnt b' = bit_cnt b"
      "free_run (bm_abs b) v cnt k'"
      "bm_abs b' = take k' (bm_abs b) @ replicate cnt (\<not> v) @ drop (k' + cnt) (bm_abs b)"
  have e: "k' = k" "b' = b1" using h(1) assms(4) by auto
  obtain b2 where b2: "bitmap_set_multiple b1 k cnt v = Inr b2" "bm_wf b2"
     "bm_abs b2 = take k (bm_abs b1) @ replicate cnt v @ drop (k + cnt) (bm_abs b1)"
    using bitmap_set_multiple_refines [of b1 k cnt v] h e by auto
  have "take cnt (drop k (bm_abs b)) = replicate cnt v"
    using h e by (intro take_drop_same) auto
  then have "bm_abs b2 = take k (bm_abs b) @ take cnt (drop k (bm_abs b)) @ drop cnt (drop k (bm_abs b))"
    using b2 h e by (simp add: add.commute)
  then have "bm_abs b2 = bm_abs b" by (simp only: append_take_drop_id)
  then show ?thesis using b2 by blast
qed (use assms in simp)

text \<open>
  The two range checks of \<^verbatim>\<open>bitmap_set_multiple\<close> are evaluated with wrapping \<^verbatim>\<open>size_t\<close>
  arithmetic, so a huge \<open>cnt\<close> can pass them; the loop still stops at the first index outside
  the bitmap because \<open>bitmap_set\<close> asserts. No input makes any of these routines touch memory
  outside the bit array.
\<close>

lemma bitmap_set_defined: "bm_wf b \<Longrightarrow> bitmap_set b i v \<noteq> Inl Undefined"
  using bitmap_set_refines [of b i v] by (cases "i < bit_cnt b") (auto simp: bitmap_set_def)

lemma bitmap_set_wf: "bm_wf b \<Longrightarrow> bitmap_set b i v = Inr b' \<Longrightarrow> bm_wf b'"
  using bitmap_set_refines [of b i v] by (cases "i < bit_cnt b") (auto simp: bitmap_set_def)

lemma bitmap_set_loop_defined: "bm_wf b \<Longrightarrow> bitmap_set_loop b s v i n \<noteq> Inl Undefined"
  by (induction n arbitrary: b i) (auto simp: rbind_eq_Inl bitmap_set_defined dest: bitmap_set_wf)

lemma bitmap_set_multiple_overflow:
  assumes "bm_wf b" "start \<le> bit_cnt b" "bit_cnt b < start + cnt" 
  shows "bitmap_set_multiple b start cnt v = Inl Assertion"
proof -
  have *: "bitmap_set_loop b start v i n = Inl Assertion"
    if "bm_wf b" "start + i \<le> bit_cnt b" "bit_cnt b < start + i + n" for b i n
    using that
  proof (induction n arbitrary: b i)
    case (Suc n)
    have e: "sz (start + i) = start + i" using Suc.prems by (simp add: sz_def bm_wf_def)
    show ?case
    proof (cases "start + i < bit_cnt b")
      case True
      then obtain b1 where "bitmap_set b (start + i) v = Inr b1" "bm_wf b1" "bit_cnt b1 = bit_cnt b"
        using bitmap_set_refines [OF Suc.prems(1), of "start + i" v] by auto
      then show ?thesis using Suc.IH [of b1 "Suc i"] Suc.prems e True by simp
    next
      case False
      then show ?thesis using e by (simp add: bitmap_set_def)
    qed
  qed simp
  show ?thesis using *[of b 0 cnt] assms by (simp add: bitmap_set_multiple_def kassert_def)
qed

lemma bitmap_set_all_refines:
  assumes "bm_wf b"
  shows "\<exists>b'. bitmap_set_all b v = Inr b' \<and> bm_wf b' \<and> bm_abs b' = replicate (bit_cnt b) v \<and> bit_cnt b' = bit_cnt b"
  using bitmap_set_multiple_refines [of b 0 "bit_cnt b" v] assms by (auto simp: bitmap_set_all_def bitmap_size_def)

lemma elem_cnt_enough: "n + 31 < 2 ^ 32 \<Longrightarrow> n \<le> 32 * elem_cnt n"
  by (simp add: elem_cnt_def DIV_ROUND_UP_def sz_id ELEM_BITS_def)

lemma bitmap_create_refines:
  assumes "n + 31 < 2 ^ 32" "length ws = elem_cnt n"
  shows "\<exists>b. bitmap_create True (Some ws) n = Inr (Some b) \<and> bm_wf b \<and> bm_abs b = replicate n False"
proof -
  have "bm_wf \<lparr>bit_cnt = n, bits = ws\<rparr>"
    using assms elem_cnt_enough by (simp add: bm_wf_def)
  then show ?thesis using bitmap_set_all_refines [of "\<lparr>bit_cnt = n, bits = ws\<rparr>" False]
    by (auto simp: bitmap_create_def)
qed

lemma bitmap_create_in_buf_refines:
  assumes "n + 31 < 2 ^ 32" "length block * 4 = block_size" "bitmap_buf_size n \<le> block_size"
  shows "\<exists>b. bitmap_create_in_buf n block block_size = Inr b \<and> bm_wf b \<and> bm_abs b = replicate n False \<and> bit_cnt b = n"
proof -
  have "elem_cnt n \<le> 2 ^ 27" using assms(1) by (simp add: elem_cnt_def DIV_ROUND_UP_def sz_id ELEM_BITS_def)
  then have "bitmap_buf_size n = 8 + 4 * elem_cnt n" by (simp add: bitmap_buf_size_def byte_cnt_def sz_id)
  then have "bm_wf \<lparr>bit_cnt = n, bits = drop 2 block\<rparr>"
    using assms elem_cnt_enough [OF assms(1)] by (simp add: bm_wf_def)
  then show ?thesis using bitmap_set_all_refines [of "\<lparr>bit_cnt = n, bits = drop 2 block\<rparr>" False] assms
    by (auto simp: bitmap_create_in_buf_def)
qed

subsection \<open>The bitmap as an allocator\<close>

definition bm_used :: "bitmap \<Rightarrow> nat set" where
  "bm_used b = {i. i < bit_cnt b \<and> bm_abs b ! i}"

definition bm_get :: "nat \<Rightarrow> bitmap \<Rightarrow> nat option \<times> bitmap" where
  "bm_get n b = (case bitmap_scan_and_flip b 0 n False of
     Inl _ \<Rightarrow> (None, b) | Inr (k, b') \<Rightarrow> (if k = BITMAP_ERROR then None else Some k, b'))"

definition bm_put :: "nat \<Rightarrow> nat \<Rightarrow> bitmap \<Rightarrow> bitmap option" where
  "bm_put k n b = (case bitmap_set_multiple b k n False of Inl _ \<Rightarrow> None | Inr b' \<Rightarrow> Some b')"

lemma nth_splice_run:
  "k + n \<le> length xs \<Longrightarrow> i < length xs \<Longrightarrow>
   (take k xs @ replicate n v @ drop (k + n) xs) ! i = (if k \<le> i \<and> i < k + n then v else xs ! i)"
  by (auto simp: nth_append)

lemma bm_used_splice:
  assumes "bm_abs b' = take k (bm_abs b) @ replicate n v @ drop (k + n) (bm_abs b)"
    "bit_cnt b' = bit_cnt b" "k + n \<le> bit_cnt b"
  shows "bm_used b' = (if v then bm_used b \<union> extent (k, n) else bm_used b - extent (k, n))"
  using assms by (auto simp: bm_used_def nth_splice_run extent_def split: if_splits)

lemma free_run_extent: "free_run (bm_abs b) False n k \<Longrightarrow> extent (k, n) \<inter> bm_used b = {}"
proof -
  assume f: "free_run (bm_abs b) False n k"
  have "\<not> bm_abs b ! i" if "k \<le> i" "i < k + n" for i
    using f that unfolding free_run_def by (metis add_diff_inverse_nat less_diff_conv2 linorder_not_less add.commute)
  then show ?thesis by (auto simp: extent_def bm_used_def)
qed

lemma extent_bounded: "0 < n \<Longrightarrow> extent (k, n) \<subseteq> bm_used b \<Longrightarrow> k + n \<le> bit_cnt b"
proof -
  assume n: "0 < n" "extent (k, n) \<subseteq> bm_used b"
  then have "k + (n - 1) \<in> bm_used b" by (auto simp: extent_def)
  then have "k + (n - 1) < bit_cnt b" by (simp only: bm_used_def mem_Collect_eq)
  then show ?thesis using n(1) by linarith
qed

interpretation bm: slot_allocator bm_wf bm_used bm_get bm_put
proof
  fix s n k s'
  assume a: "bm_wf s" "0 < n" "bm_get n s = (Some k, s')"
  show "bm_wf s' \<and> extent (k, n) \<inter> bm_used s = {} \<and> bm_used s' = bm_used s \<union> extent (k, n)"
  proof (rule bitmap_scan_and_flip_cases [OF a(1) _ a(2), of 0 False])
    fix k' b' assume h: "bitmap_scan_and_flip s 0 n False = Inr (k', b')" "k' \<noteq> BITMAP_ERROR"
      "k' + n \<le> bit_cnt s" "bm_wf b'" "bit_cnt b' = bit_cnt s" "free_run (bm_abs s) False n k'"
      "bm_abs b' = take k' (bm_abs s) @ replicate n (\<not> False) @ drop (k' + n) (bm_abs s)"
    then show ?thesis using a(3) bm_used_splice [OF h(7,5,3)] free_run_extent [OF h(6)]
      by (simp add: bm_get_def)
  qed (use a in \<open>auto simp: bm_get_def\<close>)
next
  fix s n s'
  assume a: "bm_wf s" "0 < n" "bm_get n s = (None, s')"
  show "bm_wf s' \<and> bm_used s' = bm_used s"
    by (rule bitmap_scan_and_flip_cases [OF a(1) _ a(2), of 0 False]) (use a in \<open>auto simp: bm_get_def\<close>)
next
  fix s n k
  assume a: "bm_wf s" "0 < n" "extent (k, n) \<subseteq> bm_used s"
  have le: "k + n \<le> bit_cnt s" using extent_bounded a by blast
  obtain b' where b': "bitmap_set_multiple s k n False = Inr b'" "bm_wf b'" "bit_cnt b' = bit_cnt s"
     "bm_abs b' = take k (bm_abs s) @ replicate n False @ drop (k + n) (bm_abs s)"
    using bitmap_set_multiple_refines [OF a(1) le] by blast
  then show "\<exists>s'. bm_put k n s = Some s' \<and> bm_wf s' \<and> bm_used s' = bm_used s - extent (k, n)"
    using bm_used_splice [OF b'(4,3) le] by (simp add: bm_put_def)
qed

end
