(* ===== verification/Vaddr.thy ===== *)
theory Vaddr
  imports Prelude
begin

unbundle bit_operations_syntax

text \<open>
  Virtual addresses and page table entries (src/pintos2/src/threads/vaddr.h and pte.h):
  addresses are 32-bit words, and every macro and inline function is the bit operation of the
  source. The lemmas give their arithmetic meaning.
\<close>

subsection \<open>vaddr.h\<close>

definition BITMASK :: "nat \<Rightarrow> nat \<Rightarrow> u32" where
  "BITMASK shift cnt = push_bit shift (push_bit cnt 1 - 1)"

definition PGBITS :: nat where "PGBITS = 12"
definition PGSIZE :: nat where "PGSIZE = 4096"
definition PGMASK :: u32 where "PGMASK = BITMASK 0 PGBITS"
definition PHYS_BASE :: u32 where "PHYS_BASE = 0xc0000000"

definition pg_ofs :: "u32 \<Rightarrow> u32" where
  "pg_ofs va = va AND PGMASK"

definition pg_no :: "u32 \<Rightarrow> u32" where
  "pg_no va = drop_bit PGBITS va"

definition pg_round_up :: "u32 \<Rightarrow> u32" where
  "pg_round_up va = (va + of_nat PGSIZE - 1) AND NOT PGMASK"

definition pg_round_down :: "u32 \<Rightarrow> u32" where
  "pg_round_down va = va AND NOT PGMASK"

definition is_user_vaddr :: "u32 \<Rightarrow> bool" where
  "is_user_vaddr vaddr \<longleftrightarrow> vaddr < PHYS_BASE"

definition is_kernel_vaddr :: "u32 \<Rightarrow> bool" where
  "is_kernel_vaddr vaddr \<longleftrightarrow> PHYS_BASE \<le> vaddr"

definition ptov :: "u32 \<Rightarrow> u32 res" where
  "ptov paddr = kassert (paddr < PHYS_BASE) (Inr (paddr + PHYS_BASE))"

definition vtop :: "u32 \<Rightarrow> u32 res" where
  "vtop vaddr = kassert (is_kernel_vaddr vaddr) (Inr (vaddr - PHYS_BASE))"

subsection \<open>pte.h\<close>

definition PTBITS :: nat where "PTBITS = 10"
definition PTMASK :: u32 where "PTMASK = BITMASK PGBITS PTBITS"
definition PDSHIFT :: nat where "PDSHIFT = PGBITS + PTBITS"

definition PTE_ADDR :: u32 where "PTE_ADDR = 0xfffff000"
definition PTE_P :: u32 where "PTE_P = 0x1"
definition PTE_W :: u32 where "PTE_W = 0x2"
definition PTE_U :: u32 where "PTE_U = 0x4"
definition PTE_A :: u32 where "PTE_A = 0x20"
definition PTE_D :: u32 where "PTE_D = 0x40"

definition pt_no :: "u32 \<Rightarrow> u32" where
  "pt_no va = drop_bit PGBITS (va AND PTMASK)"

definition pd_no :: "u32 \<Rightarrow> u32" where
  "pd_no va = drop_bit PDSHIFT va"

definition pde_create :: "u32 \<Rightarrow> u32 res" where
  "pde_create pt =
     kassert (pg_ofs pt = 0) (rbind (vtop pt) (\<lambda>p. Inr (p OR PTE_U OR PTE_P OR PTE_W)))"

definition pde_get_pt :: "u32 \<Rightarrow> u32 res" where
  "pde_get_pt pde = kassert (pde AND PTE_P \<noteq> 0) (ptov (pde AND PTE_ADDR))"

definition pte_create_kernel :: "u32 \<Rightarrow> bool \<Rightarrow> u32 res" where
  "pte_create_kernel page writable =
     kassert (pg_ofs page = 0)
      (rbind (vtop page) (\<lambda>p. Inr (p OR PTE_P OR (if writable then PTE_W else 0))))"

definition pte_create_user :: "u32 \<Rightarrow> bool \<Rightarrow> u32 res" where
  "pte_create_user page writable = rbind (pte_create_kernel page writable) (\<lambda>p. Inr (p OR PTE_U))"

definition pte_get_page :: "u32 \<Rightarrow> u32 res" where
  "pte_get_page pte = ptov (pte AND PTE_ADDR)"

subsection \<open>Arithmetic meaning\<close>

lemmas page_consts = PGBITS_def PGSIZE_def PTBITS_def PDSHIFT_def

lemma PGMASK_mask: "PGMASK = mask 12"
  by (simp add: PGMASK_def BITMASK_def PGBITS_def mask_eq_exp_minus_1)

lemma pg_ofs_mod: "pg_ofs va = va mod 4096"
  by (simp add: pg_ofs_def PGMASK_mask take_bit_eq_mod flip: take_bit_eq_mask)

lemma unat_pg_ofs: "unat (pg_ofs va) = unat va mod 4096"
  by (simp add: pg_ofs_mod unat_mod)

lemma unat_pg_no: "unat (pg_no va) = unat va div 4096"
  by (simp add: pg_no_def PGBITS_def drop_bit_eq_div unat_div)

lemma and_not_mask: "va AND NOT (mask n) = push_bit n (drop_bit n (va :: u32))"
  by (rule bit_eqI) (auto simp: bit_simps)

lemma pg_split: "va = pg_round_down va + pg_ofs va"
  by (simp add: pg_round_down_def pg_ofs_def PGMASK_mask and_not_mask bits_ident flip: take_bit_eq_mask)

lemma unat_pg_round_down: "unat (pg_round_down va) = unat va div 4096 * 4096"
proof -
  have "pg_round_down va = (va div 4096) * 4096"
    by (simp add: pg_round_down_def PGMASK_mask and_not_mask push_bit_eq_mult drop_bit_eq_div)
  moreover have "unat va div 4096 * 4096 < 2 ^ 32" using unat_u32_less [of va] by simp
  ultimately show ?thesis by (simp add: unat_word_ariths(2) unat_div)
qed

lemma PTE_ADDR_not: "PTE_ADDR = NOT PGMASK"
  by (simp add: PTE_ADDR_def PGMASK_mask mask_eq_exp_minus_1)

lemma unat_pd_no: "unat (pd_no va) = unat va div 2 ^ 22"
  by (simp add: pd_no_def page_consts drop_bit_eq_div unat_div)

lemma PTMASK_mask: "PTMASK = push_bit 12 (mask 10)"
  by (simp add: PTMASK_def BITMASK_def page_consts mask_eq_exp_minus_1)

lemma pt_no_alt: "pt_no va = take_bit 10 (drop_bit 12 va)"
  by (rule bit_eqI) (auto simp: pt_no_def PTMASK_mask PGBITS_def bit_simps)

lemma unat_pt_no: "unat (pt_no va) = unat va div 4096 mod 1024"
  by (simp add: pt_no_alt take_bit_eq_mod drop_bit_eq_div unat_div unat_mod)

lemma pd_no_bound: "unat (pd_no va) < 1024"
  using unat_u32_less [of va] by (simp add: unat_pd_no)

lemma pt_no_bound: "unat (pt_no va) < 1024"
  by (simp add: unat_pt_no)

lemma pd_pt_pg: "unat (pg_no va) = 1024 * unat (pd_no va) + unat (pt_no va)"
proof -
  have "unat va div 2 ^ 22 = unat va div 4096 div 1024"
    by (simp add: div_mult2_eq [symmetric])
  then show ?thesis by (simp add: unat_pg_no unat_pd_no unat_pt_no)
qed

text \<open>A present user PTE leads back to the page it was created for, with the flags asked for.\<close>

lemma low_or_high:
  "p AND mask 12 = 0 \<Longrightarrow> f AND NOT (mask 12) = 0 \<Longrightarrow> (p OR f) AND NOT (mask 12) = (p :: u32)"
proof -
  assume p: "p AND mask 12 = 0" and f: "f AND NOT (mask 12) = 0"
  have "p AND NOT (mask 12) = p"
  proof (rule bit_eqI)
    fix n show "bit (p AND NOT (mask 12)) n = bit p n"
      using p [unfolded bit_eq_iff [of _ "0 :: u32"]] by (auto simp: bit_simps dest: bit_imp_le_length)
  qed
  then show ?thesis by (simp add: bit.conj_disj_distrib2 f)
qed

lemma vtop_aligned:
  assumes "pg_ofs page = 0" "is_kernel_vaddr page"
  shows "\<exists>p. vtop page = Inr p \<and> p AND mask 12 = 0 \<and> ptov p = Inr page"
proof -
  let ?p = "page - PHYS_BASE"
  have k: "0xc0000000 \<le> unat page" using assms(2) by (simp add: is_kernel_vaddr_def PHYS_BASE_def word_le_nat_alt)
  have u: "unat ?p = unat page - 0xc0000000"
    using assms(2) by (simp add: is_kernel_vaddr_def PHYS_BASE_def unat_sub)
  have "unat page mod 4096 = 0" using assms(1) unat_pg_ofs [of page] by simp
  then have "(unat page - 0xc0000000) mod 4096 = 0"
    using k by (auto simp: mod_eq_0_iff_dvd intro: dvd_diff_nat)
  then have "unat (?p mod 4096) = 0" by (simp add: unat_mod u)
  then have "?p AND mask 12 = 0" by (simp add: take_bit_eq_mod unat_eq_zero flip: take_bit_eq_mask)
  moreover have "?p < PHYS_BASE" using unat_u32_less [of page] k u by (simp add: word_less_nat_alt PHYS_BASE_def)
  ultimately show ?thesis using assms by (simp add: vtop_def ptov_def)
qed

lemma pte_create_user_roundtrip:
  assumes "pg_ofs page = 0" "is_kernel_vaddr page"
  shows "\<exists>pte. pte_create_user page w = Inr pte \<and> pte_get_page pte = Inr page \<and>
     pte AND PTE_P \<noteq> 0 \<and> (pte AND PTE_W \<noteq> 0 \<longleftrightarrow> w) \<and> pte AND PTE_D = 0 \<and> pte AND PTE_A = 0 \<and> pte AND PTE_U \<noteq> 0"
proof -
  obtain p where p: "vtop page = Inr p" "p AND mask 12 = 0" "ptov p = Inr page"
    using vtop_aligned [OF assms] by blast
  let ?f = "PTE_P OR (if w then PTE_W else 0) OR PTE_U"
  have f: "?f AND NOT (mask 12) = 0"
    by (simp add: PTE_P_def PTE_W_def PTE_U_def mask_eq_exp_minus_1)
  have addr: "(p OR ?f) AND PTE_ADDR = p"
    using low_or_high [OF p(2) f] by (simp add: PTE_ADDR_not PGMASK_mask)
  have low: "p AND g = 0" if "g AND mask 12 = g" for g
  proof -
    have "p AND g = (p AND mask 12) AND g" using that by (simp only: and.assoc and.commute [of "mask 12" g])
    then show ?thesis by (simp only: p(2) zero_and_eq)
  qed
  have fl: "(p OR ?f) AND g = ?f AND g" if "g AND mask 12 = g" for g
    using low [OF that] by (simp add: bit.conj_disj_distrib2)
  have fe: "?f = (if w then 7 else 5)" by (simp add: PTE_P_def PTE_W_def PTE_U_def)
  have "(p OR ?f) AND PTE_P \<noteq> 0" using fl [of PTE_P] by (simp add: fe PTE_P_def mask_eq_exp_minus_1)
  moreover have "((p OR ?f) AND PTE_W \<noteq> 0) = w" using fl [of PTE_W] by (simp add: fe PTE_W_def mask_eq_exp_minus_1)
  moreover have "(p OR ?f) AND PTE_D = 0" using fl [of PTE_D] by (simp add: fe PTE_D_def mask_eq_exp_minus_1)
  moreover have "(p OR ?f) AND PTE_A = 0" using fl [of PTE_A] by (simp add: fe PTE_A_def mask_eq_exp_minus_1)
  moreover have "(p OR ?f) AND PTE_U \<noteq> 0" using fl [of PTE_U] by (simp add: fe PTE_P_def PTE_W_def PTE_U_def mask_eq_exp_minus_1)
  moreover have "pte_create_user page w = Inr (p OR ?f)"
    by (simp add: pte_create_user_def pte_create_kernel_def assms p or.assoc)
  ultimately show ?thesis using p(3) addr by (auto simp: pte_get_page_def)
qed

end
