(* ===== verification/Palloc.thy ===== *)
theory Palloc
  imports Bitmap Vaddr
begin

unbundle bit_operations_syntax

text \<open>
  The page allocator (src/pintos2/src/threads/palloc.c): two pools of pages, each with a
  bitmap of the pages in use at its base.

  Addresses are 32-bit kernel virtual addresses; \<open>kmem\<close> is the memory they name, byte by byte.
  A pool's lock is taken around one call only, the scan of its bitmap, and is not part of
  the state. When the user pool is exhausted, \<^verbatim>\<open>palloc_get_multiple\<close> calls
  \<^verbatim>\<open>page_swap_to_disk\<close> of vm/pagetable.c; it is passed in as a function and supplied by
  the virtual memory theories.
\<close>

definition PAL_ASSERT :: u32 where "PAL_ASSERT = 1"
definition PAL_ZERO :: u32 where "PAL_ZERO = 2"
definition PAL_USER :: u32 where "PAL_USER = 4"

record pool =
  used_map :: bitmap
  base :: u32

record palloc =
  kernel_pool :: pool
  user_pool :: pool
  kmem :: "u32 \<Rightarrow> u8"

definition kmemset :: "u32 \<Rightarrow> u8 \<Rightarrow> nat \<Rightarrow> (u32 \<Rightarrow> u8) \<Rightarrow> (u32 \<Rightarrow> u8)" where
  "kmemset dst val n m = (\<lambda>a. if unat (a - dst) < n then val else m a)"

definition init_pool :: "u32 \<Rightarrow> nat \<Rightarrow> u32 list \<Rightarrow> string \<Rightarrow> pool res" where
  "init_pool start page_cnt block name =
     (let bm_pages = DIV_ROUND_UP (bitmap_buf_size page_cnt) PGSIZE
      in if page_cnt < bm_pages then Inl (Panic ''Not enough memory in %s for bitmap.'')
         else (let page_cnt' = page_cnt - bm_pages
               in rbind (bitmap_create_in_buf page_cnt' (take (bm_pages * PGSIZE div 4) block) (sz (bm_pages * PGSIZE)))
                    (\<lambda>b. Inr \<lparr>used_map = b, base = start + of_nat (bm_pages * PGSIZE)\<rparr>)))"

definition palloc_init :: "nat \<Rightarrow> nat \<Rightarrow> u32 list \<Rightarrow> u32 list \<Rightarrow> (u32 \<Rightarrow> u8) \<Rightarrow> palloc res" where
  "palloc_init init_ram_pages user_page_limit kblock ublock m =
     rbind (ptov (1024 * 1024)) (\<lambda>free_start.
     rbind (ptov (of_nat (init_ram_pages * PGSIZE))) (\<lambda>free_end.
       let free_pages = unat (free_end - free_start) div PGSIZE;
           user_pages = (if free_pages div 2 > user_page_limit then user_page_limit else free_pages div 2);
           kernel_pages = free_pages - user_pages
       in rbind (init_pool free_start kernel_pages kblock ''kernel pool'') (\<lambda>k.
          rbind (init_pool (free_start + of_nat (kernel_pages * PGSIZE)) user_pages ublock ''user pool'') (\<lambda>u.
            Inr \<lparr>kernel_pool = k, user_pool = u, kmem = m\<rparr>))))"

definition palloc_get_multiple ::
  "('a palloc_scheme \<Rightarrow> (u32 \<times> 'a palloc_scheme) res) \<Rightarrow> u32 \<Rightarrow> nat \<Rightarrow> 'a palloc_scheme \<Rightarrow>
   (u32 \<times> 'a palloc_scheme) res" where
  "palloc_get_multiple page_swap_to_disk flags page_cnt s =
     (if page_cnt = 0 then Inr (0, s)
      else (let pool = (if flags AND PAL_USER \<noteq> 0 then user_pool s else kernel_pool s)
      in rbind (bitmap_scan_and_flip (used_map pool) 0 page_cnt False) (\<lambda>(page_idx, um).
        let s1 = (if flags AND PAL_USER \<noteq> 0 then s\<lparr>user_pool := pool\<lparr>used_map := um\<rparr>\<rparr>
                  else s\<lparr>kernel_pool := pool\<lparr>used_map := um\<rparr>\<rparr>);
            pages = (if page_idx \<noteq> BITMAP_ERROR then base pool + of_nat (PGSIZE * page_idx) else 0)
        in if pages \<noteq> 0
           then Inr (pages, if flags AND PAL_ZERO \<noteq> 0
                            then s1\<lparr>kmem := kmemset pages 0 (sz (PGSIZE * page_cnt)) (kmem s1)\<rparr> else s1)
           else if flags AND PAL_ASSERT \<noteq> 0 then Inl (Panic ''palloc_get: out of pages'')
           else if flags AND PAL_USER \<noteq> 0 then page_swap_to_disk s1
           else Inr (0, s1))))"

definition palloc_get_page ::
  "('a palloc_scheme \<Rightarrow> (u32 \<times> 'a palloc_scheme) res) \<Rightarrow> u32 \<Rightarrow> 'a palloc_scheme \<Rightarrow>
   (u32 \<times> 'a palloc_scheme) res" where
  "palloc_get_page page_swap_to_disk flags s = palloc_get_multiple page_swap_to_disk flags 1 s"

definition page_from_pool :: "pool \<Rightarrow> u32 \<Rightarrow> bool" where
  "page_from_pool pool page =
     (let page_no = pg_no page;
          start_page = pg_no (base pool);
          end_page = start_page + of_nat (bitmap_size (used_map pool))
      in page_no \<ge> start_page \<and> page_no < end_page)"

definition palloc_free_multiple :: "u32 \<Rightarrow> nat \<Rightarrow> 'a palloc_scheme \<Rightarrow> 'a palloc_scheme res" where
  "palloc_free_multiple pages page_cnt s =
     kassert (pg_ofs pages = 0)
      (if pages = 0 \<or> page_cnt = 0 then Inr s
       else (let from_kernel = page_from_pool (kernel_pool s) pages;
                 pool = (if from_kernel then kernel_pool s else user_pool s)
       in kassert (from_kernel \<or> page_from_pool (user_pool s) pages)
        (let page_idx = unat (pg_no pages - pg_no (base pool));
             m = kmemset pages 0xcc (sz (PGSIZE * page_cnt)) (kmem s)
         in rbind (bitmap_all (used_map pool) page_idx page_cnt) (\<lambda>ok.
            kassert ok
             (rbind (bitmap_set_multiple (used_map pool) page_idx page_cnt False) (\<lambda>um.
               Inr (if from_kernel then s\<lparr>kmem := m, kernel_pool := pool\<lparr>used_map := um\<rparr>\<rparr>
                    else s\<lparr>kmem := m, user_pool := pool\<lparr>used_map := um\<rparr>\<rparr>)))))))"

definition palloc_free_page :: "u32 \<Rightarrow> 'a palloc_scheme \<Rightarrow> 'a palloc_scheme res" where
  "palloc_free_page page s = palloc_free_multiple page 1 s"

subsection \<open>Well-formed pools\<close>

definition pool_end :: "pool \<Rightarrow> nat" where
  "pool_end p = unat (base p) + PGSIZE * bit_cnt (used_map p)"

text \<open>A pool is a page-aligned range of kernel addresses that does not wrap around.\<close>

definition pool_wf :: "pool \<Rightarrow> bool" where
  "pool_wf p \<longleftrightarrow> bm_wf (used_map p) \<and> pg_ofs (base p) = 0 \<and> PHYS_BASE \<le> base p \<and> pool_end p < 2 ^ 32"

text \<open>The two pools are apart: each pool's bitmap occupies at least one page below it.\<close>

definition palloc_wf :: "'a palloc_scheme \<Rightarrow> bool" where
  "palloc_wf s \<longleftrightarrow> pool_wf (kernel_pool s) \<and> pool_wf (user_pool s) \<and>
     (pool_end (kernel_pool s) < unat (base (user_pool s)) \<or> pool_end (user_pool s) < unat (base (kernel_pool s)))"

text \<open>The pages of a pool that are in use, as page numbers.\<close>

definition pool_pages :: "pool \<Rightarrow> nat set" where
  "pool_pages p = (\<lambda>i. unat (pg_no (base p)) + i) ` bm_used (used_map p)"

definition used_pages :: "'a palloc_scheme \<Rightarrow> nat set" where
  "used_pages s = pool_pages (kernel_pool s) \<union> pool_pages (user_pool s)"

definition page_at :: "pool \<Rightarrow> nat \<Rightarrow> u32" where
  "page_at p i = base p + of_nat (PGSIZE * i)"

lemma unat_page_at:
  assumes "pool_wf p" "i \<le> bit_cnt (used_map p)"
  shows "unat (page_at p i) = unat (base p) + 4096 * i"
proof -
  have "unat (base p) + 4096 * i < 2 ^ 32"
    using assms mult_le_mono2 [OF assms(2), of 4096] unfolding pool_wf_def pool_end_def PGSIZE_def by linarith
  then show ?thesis by (simp add: page_at_def PGSIZE_def unat_word_ariths(1,2) unat_of_nat take_bit_eq_mod)
qed

lemma base_aligned: "pool_wf p \<Longrightarrow> unat (base p) = 4096 * unat (pg_no (base p))"
  using unat_pg_ofs [of "base p"] mult_div_mod_eq [of 4096 "unat (base p)"]
  by (simp add: pool_wf_def unat_pg_no)

lemma page_at_facts:
  assumes "pool_wf p" "i < bit_cnt (used_map p)"
  shows "unat (pg_no (page_at p i)) = unat (pg_no (base p)) + i"
    and "pg_ofs (page_at p i) = 0" and "page_at p i \<noteq> 0" and "PHYS_BASE \<le> page_at p i"
proof -
  have u: "unat (page_at p i) = 4096 * (unat (pg_no (base p)) + i)"
    using unat_page_at [of p i] base_aligned [of p] assms by simp
  show "unat (pg_no (page_at p i)) = unat (pg_no (base p)) + i" by (simp add: unat_pg_no u)
  have "unat (pg_ofs (page_at p i)) = 0" by (simp add: unat_pg_ofs u)
  then show "pg_ofs (page_at p i) = 0" by (simp add: unat_eq_zero)
  have b: "unat PHYS_BASE \<le> unat (base p)" using assms by (simp add: pool_wf_def word_le_nat_alt)
  then show "PHYS_BASE \<le> page_at p i" using unat_page_at [of p i] assms by (simp add: word_le_nat_alt)
  then show "page_at p i \<noteq> 0" by (auto simp: PHYS_BASE_def)
qed

lemma page_from_pool_iff:
  assumes "pool_wf p"
  shows "page_from_pool p page \<longleftrightarrow> unat (pg_no (base p)) \<le> unat (pg_no page) \<and>
     unat (pg_no page) < unat (pg_no (base p)) + bit_cnt (used_map p)"
proof -
  have "4096 * (unat (pg_no (base p)) + bit_cnt (used_map p)) < 2 ^ 32"
    using assms base_aligned [OF assms] by (simp add: pool_wf_def pool_end_def PGSIZE_def)
  then show ?thesis
    by (simp add: page_from_pool_def Let_def bitmap_size_def word_le_nat_alt word_less_nat_alt
        unat_word_ariths(1) unat_of_nat take_bit_eq_mod)
qed

lemma page_in_one_pool:
  assumes "palloc_wf s"
  shows "\<not> (page_from_pool (kernel_pool s) page \<and> page_from_pool (user_pool s) page)"
proof -
  have "pool_wf (kernel_pool s)" "pool_wf (user_pool s)" using assms by (auto simp: palloc_wf_def)
  note w = this base_aligned [OF this(1)] base_aligned [OF this(2)]
  show ?thesis using assms w
    by (auto simp: page_from_pool_iff palloc_wf_def pool_end_def PGSIZE_def)
qed


subsection \<open>Allocation and release on one pool\<close>

lemma pool_wf_upd:
  "pool_wf p \<Longrightarrow> bm_wf um \<Longrightarrow> bit_cnt um = bit_cnt (used_map p) \<Longrightarrow> pool_wf (p\<lparr>used_map := um\<rparr>)"
  by (simp add: pool_wf_def pool_end_def)

lemma palloc_wf_upd:
  assumes "palloc_wf s" "bm_wf um"
  shows "bit_cnt um = bit_cnt (used_map (user_pool s)) \<Longrightarrow> palloc_wf (s\<lparr>user_pool := (user_pool s)\<lparr>used_map := um\<rparr>\<rparr>)"
    and "bit_cnt um = bit_cnt (used_map (kernel_pool s)) \<Longrightarrow> palloc_wf (s\<lparr>kernel_pool := (kernel_pool s)\<lparr>used_map := um\<rparr>\<rparr>)"
  using assms by (auto simp: palloc_wf_def pool_wf_upd) (auto simp: pool_end_def)

lemma palloc_wf_kmem [simp]: "palloc_wf (s\<lparr>kmem := m\<rparr>) = palloc_wf s"
  by (simp add: palloc_wf_def)

lemma used_pages_kmem [simp]: "used_pages (s\<lparr>kmem := m\<rparr>) = used_pages s"
  by (simp add: used_pages_def)

definition the_pool :: "u32 \<Rightarrow> 'a palloc_scheme \<Rightarrow> pool" where
  "the_pool flags s = (if flags AND PAL_USER \<noteq> 0 then user_pool s else kernel_pool s)"

definition set_pool :: "u32 \<Rightarrow> bitmap \<Rightarrow> 'a palloc_scheme \<Rightarrow> 'a palloc_scheme" where
  "set_pool flags um s =
     (if flags AND PAL_USER \<noteq> 0 then s\<lparr>user_pool := (user_pool s)\<lparr>used_map := um\<rparr>\<rparr>
      else s\<lparr>kernel_pool := (kernel_pool s)\<lparr>used_map := um\<rparr>\<rparr>)"

lemma the_pool_wf: "palloc_wf s \<Longrightarrow> pool_wf (the_pool flags s)"
  by (simp add: the_pool_def palloc_wf_def)

lemma set_pool_wf:
  "palloc_wf s \<Longrightarrow> bm_wf um \<Longrightarrow> bit_cnt um = bit_cnt (used_map (the_pool flags s)) \<Longrightarrow> palloc_wf (set_pool flags um s)"
  by (auto simp: set_pool_def the_pool_def palloc_wf_upd split: if_splits)

lemma kmem_set_pool [simp]: "kmem (set_pool flags um s) = kmem s"
  by (simp add: set_pool_def)

lemma palloc_get_multiple_alt:
  "0 < n \<Longrightarrow> palloc_get_multiple swap flags n s =
     rbind (bitmap_scan_and_flip (used_map (the_pool flags s)) 0 n False) (\<lambda>(k, um).
       let s1 = set_pool flags um s;
           pages = (if k \<noteq> BITMAP_ERROR then page_at (the_pool flags s) k else 0)
       in if pages \<noteq> 0
          then Inr (pages, if flags AND PAL_ZERO \<noteq> 0
                           then s1\<lparr>kmem := kmemset pages 0 (sz (PGSIZE * n)) (kmem s1)\<rparr> else s1)
          else if flags AND PAL_ASSERT \<noteq> 0 then Inl (Panic ''palloc_get: out of pages'')
          else if flags AND PAL_USER \<noteq> 0 then swap s1
          else Inr (0, s1))"
  by (cases "bitmap_scan_and_flip (used_map (the_pool flags s)) 0 n False")
     (auto simp: palloc_get_multiple_def the_pool_def set_pool_def page_at_def Let_def)

lemma set_pool_same: "set_pool flags (used_map (the_pool flags s)) s = s"
  by (simp add: set_pool_def the_pool_def)

lemma palloc_get_multiple_cases:
  fixes s :: "'a palloc_scheme"
  assumes "palloc_wf s" "0 < n"
  obtains (found) k um where
      "palloc_get_multiple swap flags n s =
         Inr (page_at (the_pool flags s) k,
              if flags AND PAL_ZERO \<noteq> 0
              then (set_pool flags um s)\<lparr>kmem := kmemset (page_at (the_pool flags s) k) 0 (PGSIZE * n) (kmem s)\<rparr>
              else set_pool flags um s)"
      "k + n \<le> bit_cnt (used_map (the_pool flags s))" "bm_wf um"
      "bit_cnt um = bit_cnt (used_map (the_pool flags s))"
      "free_run (bm_abs (used_map (the_pool flags s))) False n k"
      "bm_abs um = take k (bm_abs (used_map (the_pool flags s))) @ replicate n True @
                   drop (k + n) (bm_abs (used_map (the_pool flags s)))"
  | (exhausted) "palloc_get_multiple swap flags n s =
        (if flags AND PAL_ASSERT \<noteq> 0 then Inl (Panic ''palloc_get: out of pages'')
         else if flags AND PAL_USER \<noteq> 0 then swap s else Inr (0, s))"
      "\<And>j. \<not> free_run (bm_abs (used_map (the_pool flags s))) False n j"
proof -
  let ?p = "the_pool flags s"
  have w: "pool_wf ?p" "bm_wf (used_map ?p)" using the_pool_wf [OF assms(1)] by (auto simp: pool_wf_def)
  show thesis
  proof (rule bitmap_scan_and_flip_cases [OF w(2) _ assms(2), of 0 False])
    fix k b' assume h: "bitmap_scan_and_flip (used_map ?p) 0 n False = Inr (k, b')" "k \<noteq> BITMAP_ERROR"
      "k + n \<le> bit_cnt (used_map ?p)" "bm_wf b'" "bit_cnt b' = bit_cnt (used_map ?p)"
      "free_run (bm_abs (used_map ?p)) False n k"
      "bm_abs b' = take k (bm_abs (used_map ?p)) @ replicate n (\<not> False) @ drop (k + n) (bm_abs (used_map ?p))"
    have nz: "page_at ?p k \<noteq> 0" using page_at_facts [OF w(1), of k] h(3) assms(2) by simp
    have "pool_end ?p < 2 ^ 32" using w(1) by (simp add: pool_wf_def)
    then have "PGSIZE * n < 2 ^ 32"
      using h(3) mult_le_mono2 [of n "bit_cnt (used_map ?p)" PGSIZE] unfolding pool_end_def by linarith
    then have z: "sz (PGSIZE * n) = PGSIZE * n" by (rule sz_id)
    show thesis
    proof (rule found [of k b'])
      show "palloc_get_multiple swap flags n s =
         Inr (page_at ?p k,
              if flags AND PAL_ZERO \<noteq> 0
              then (set_pool flags b' s)\<lparr>kmem := kmemset (page_at ?p k) 0 (PGSIZE * n) (kmem s)\<rparr>
              else set_pool flags b' s)"
        by (simp add: palloc_get_multiple_alt [OF assms(2)] h(1,2) nz z Let_def)
    qed (use h in simp_all)
  next
    assume h: "bitmap_scan_and_flip (used_map ?p) 0 n False = Inr (BITMAP_ERROR, used_map ?p)"
      "\<And>j. 0 \<le> j \<Longrightarrow> \<not> free_run (bm_abs (used_map ?p)) False n j"
    show thesis
      by (rule exhausted) (use h in \<open>simp_all add: palloc_get_multiple_alt [OF assms(2)] set_pool_same\<close>)
  qed simp
qed

text \<open>The page number of slot \<open>i\<close> of a pool.\<close>

definition pno :: "pool \<Rightarrow> nat" where
  "pno p = unat (pg_no (base p))"

lemma pool_pages_bounds: "x \<in> pool_pages p \<Longrightarrow> pno p \<le> x \<and> x < pno p + bit_cnt (used_map p)"
  by (auto simp: pool_pages_def bm_used_def pno_def)

lemma pools_disjoint:
  assumes "palloc_wf s"
  shows "pno (kernel_pool s) + bit_cnt (used_map (kernel_pool s)) < pno (user_pool s) \<or>
         pno (user_pool s) + bit_cnt (used_map (user_pool s)) < pno (kernel_pool s)"
proof -
  have w: "pool_wf (kernel_pool s)" "pool_wf (user_pool s)" using assms by (auto simp: palloc_wf_def)
  have "4096 * (pno (kernel_pool s) + bit_cnt (used_map (kernel_pool s))) < 4096 * pno (user_pool s) \<or>
     4096 * (pno (user_pool s) + bit_cnt (used_map (user_pool s))) < 4096 * pno (kernel_pool s)"
    using assms base_aligned [OF w(1)] base_aligned [OF w(2)]
    by (simp add: palloc_wf_def pool_end_def PGSIZE_def pno_def)
  then show ?thesis by (simp only: mult_less_cancel1) auto
qed

definition other_pages :: "u32 \<Rightarrow> 'a palloc_scheme \<Rightarrow> nat set" where
  "other_pages flags s = pool_pages (if flags AND PAL_USER \<noteq> 0 then kernel_pool s else user_pool s)"

lemma used_pages_split: "used_pages s = pool_pages (the_pool flags s) \<union> other_pages flags s"
  by (auto simp: used_pages_def the_pool_def other_pages_def)

lemma the_pool_set_pool [simp]: "the_pool flags (set_pool flags um s) = (the_pool flags s)\<lparr>used_map := um\<rparr>"
  by (simp add: the_pool_def set_pool_def)

lemma other_pages_set_pool [simp]: "other_pages flags (set_pool flags um s) = other_pages flags s"
  by (simp add: other_pages_def set_pool_def)

lemma other_pages_disjoint:
  assumes "palloc_wf s" "pno (the_pool flags s) \<le> x" "x < pno (the_pool flags s) + bit_cnt (used_map (the_pool flags s))"
  shows "x \<notin> other_pages flags s"
proof
  assume "x \<in> other_pages flags s"
  then have "if flags AND PAL_USER \<noteq> 0
      then pno (kernel_pool s) \<le> x \<and> x < pno (kernel_pool s) + bit_cnt (used_map (kernel_pool s))
      else pno (user_pool s) \<le> x \<and> x < pno (user_pool s) + bit_cnt (used_map (user_pool s))"
    using pool_pages_bounds by (auto simp: other_pages_def split: if_splits)
  then show False using pools_disjoint [OF assms(1)] assms(2,3)
    by (auto simp: the_pool_def split: if_splits)
qed

lemma shift_extent: "(\<lambda>i. (m :: nat) + i) ` extent (k, n) = extent (m + k, n)"
proof -
  have "(+) m ` {k..<k + n} = {k + m..<k + n + m}" by (rule image_add_atLeastLessThan)
  then show ?thesis by (simp add: extent_def ac_simps)
qed

lemma pool_pages_mark:
  assumes "bm_used um = bm_used (used_map p) \<union> extent (k, n)"
  shows "pool_pages (p\<lparr>used_map := um\<rparr>) = pool_pages p \<union> extent (pno p + k, n)"
  using assms by (simp add: pool_pages_def pno_def image_Un shift_extent)

lemma pool_pages_clear:
  assumes "bm_used um = bm_used (used_map p) - extent (k, n)"
  shows "pool_pages (p\<lparr>used_map := um\<rparr>) = pool_pages p - extent (pno p + k, n)"
  using assms by (simp add: pool_pages_def pno_def image_set_diff shift_extent)

text \<open>What an allocation of pages does: the group is inside one pool, was unused, and is the
  only change to the set of pages in use.\<close>

lemma palloc_get_fresh:
  fixes s :: "'a palloc_scheme"
  assumes "palloc_wf s" "0 < n"
    and got: "palloc_get_multiple swap flags n s = Inr (a, s')"
    and noswap: "swap = (\<lambda>s. Inr (0, s))" and a: "a \<noteq> 0"
  shows "palloc_wf s' \<and> pg_ofs a = 0 \<and> extent (unat (pg_no a), n) \<inter> used_pages s = {} \<and>
     used_pages s' = used_pages s \<union> extent (unat (pg_no a), n)"
proof (rule palloc_get_multiple_cases [OF assms(1,2), of swap flags])
  let ?p = "the_pool flags s"
  fix k um assume h: "palloc_get_multiple swap flags n s =
         Inr (page_at ?p k,
              if flags AND PAL_ZERO \<noteq> 0
              then (set_pool flags um s)\<lparr>kmem := kmemset (page_at ?p k) 0 (PGSIZE * n) (kmem s)\<rparr>
              else set_pool flags um s)"
      "k + n \<le> bit_cnt (used_map ?p)" "bm_wf um" "bit_cnt um = bit_cnt (used_map ?p)"
      "free_run (bm_abs (used_map ?p)) False n k"
      "bm_abs um = take k (bm_abs (used_map ?p)) @ replicate n True @ drop (k + n) (bm_abs (used_map ?p))"
  have k: "k < bit_cnt (used_map ?p)" using h(2) assms(2) by simp
  note pf = page_at_facts [OF the_pool_wf [OF assms(1)] k]
  have ap: "a = page_at ?p k" and s': "used_pages s' = used_pages (set_pool flags um s)" "palloc_wf s' = palloc_wf (set_pool flags um s)"
    using h(1) got by (auto split: if_splits)
  have u: "bm_used um = bm_used (used_map ?p) \<union> extent (k, n)"
    using bm_used_splice [OF h(6) h(4) h(2)] by simp
  have pn: "unat (pg_no a) = pno ?p + k" using pf(1) ap by (simp add: pno_def)
  have up: "used_pages s' = used_pages s \<union> extent (unat (pg_no a), n)"
    by (subst s'(1), subst (1 2) used_pages_split [of _ flags])
       (use pool_pages_mark [OF u] pn in auto)
  have "x \<notin> pool_pages ?p" if "x \<in> extent (pno ?p + k, n)" for x
  proof
    assume "x \<in> pool_pages ?p"
    then obtain i where "x = pno ?p + i" "i \<in> bm_used (used_map ?p)" by (auto simp: pool_pages_def pno_def)
    with that have "i \<in> extent (k, n) \<inter> bm_used (used_map ?p)" by (auto simp: extent_def)
    then show False using free_run_extent [OF h(5)] by blast
  qed
  moreover have "x \<notin> other_pages flags s" if "x \<in> extent (pno ?p + k, n)" for x
    by (rule other_pages_disjoint [OF assms(1)]) (use that h(2) in \<open>auto simp: extent_def\<close>)
  ultimately have "extent (unat (pg_no a), n) \<inter> used_pages s = {}"
    unfolding used_pages_split [of s flags] pn by blast
  then show ?thesis using up s'(2) set_pool_wf [OF assms(1) h(3,4)] pf(2) ap by simp
next
  assume "palloc_get_multiple swap flags n s =
        (if flags AND PAL_ASSERT \<noteq> 0 then Inl (Panic ''palloc_get: out of pages'')
         else if flags AND PAL_USER \<noteq> 0 then swap s else Inr (0, s))"
  then show ?thesis using got a by (auto simp: noswap split: if_splits)
qed

text \<open>Releasing a group of pages in use always succeeds, and frees exactly that group.\<close>

lemma gap_separates:
  fixes a b m l k n :: nat
  assumes "extent (k, n) \<subseteq> U \<union> V" "k \<in> U"
    and "\<And>x. x \<in> U \<Longrightarrow> a \<le> x \<and> x < a + m" and "\<And>x. x \<in> V \<Longrightarrow> b \<le> x \<and> x < b + l"
    and "a + m < b \<or> b + l < a"
  shows "extent (k, n) \<subseteq> U"
proof
  fix x assume x: "x \<in> extent (k, n)"
  show "x \<in> U"
  proof (rule ccontr)
    assume "x \<notin> U"
    then have "x \<in> V" using x assms(1) by blast
    have "k \<le> x" using x by (simp add: extent_def)
    from assms(5) show False
    proof
      assume ab: "a + m < b"
      then have "a + m \<in> extent (k, n)"
        using x assms(3) [OF assms(2)] assms(4) [OF \<open>x \<in> V\<close>] by (auto simp: extent_def)
      then show False using assms(1) assms(3) [of "a + m"] assms(4) [of "a + m"] ab by auto
    next
      assume "b + l < a"
      then show False using \<open>k \<le> x\<close> assms(3) [OF assms(2)] assms(4) [OF \<open>x \<in> V\<close>] by simp
    qed
  qed
qed

lemma used_group_in_one_pool:
  assumes "palloc_wf s" "0 < n" "extent (unat (pg_no a), n) \<subseteq> used_pages s"
  obtains flags where "page_from_pool (the_pool flags s) a"
    "extent (unat (pg_no a), n) \<subseteq> pool_pages (the_pool flags s)"
proof -
  have w: "pool_wf (kernel_pool s)" "pool_wf (user_pool s)" using assms(1) by (auto simp: palloc_wf_def)
  let ?k = "unat (pg_no a)" and ?K = "pool_pages (kernel_pool s)" and ?U = "pool_pages (user_pool s)"
  have "?k \<in> extent (?k, n)" using assms(2) by (simp add: extent_def)
  then have "?k \<in> ?K \<union> ?U" using assms(3) unfolding used_pages_def by blast
  then consider "?k \<in> ?K" | "?k \<in> ?U" by blast
  then show thesis
  proof cases
    case 1
    have "extent (?k, n) \<subseteq> ?K"
      by (rule gap_separates [OF assms(3) [unfolded used_pages_def] 1 pool_pages_bounds pool_pages_bounds])
         (use pools_disjoint [OF assms(1)] in auto)
    moreover have "page_from_pool (kernel_pool s) a"
      using pool_pages_bounds [OF 1] by (simp add: page_from_pool_iff [OF w(1)] pno_def)
    ultimately show thesis using that [of 0] by (simp add: the_pool_def)
  next
    case 2
    have "extent (?k, n) \<subseteq> ?U"
    proof (rule gap_separates [OF _ 2 pool_pages_bounds [of _ "user_pool s"] pool_pages_bounds [of _ "kernel_pool s"]])
      show "extent (?k, n) \<subseteq> ?U \<union> ?K" using assms(3) by (auto simp: used_pages_def)
    qed (use pools_disjoint [OF assms(1)] in auto)
    moreover have "page_from_pool (user_pool s) a"
      using pool_pages_bounds [OF 2] by (simp add: page_from_pool_iff [OF w(2)] pno_def)
    ultimately show thesis using that [of PAL_USER] by (simp add: the_pool_def PAL_USER_def)
  qed
qed

lemma palloc_free_used:
  fixes s :: "'a palloc_scheme"
  assumes "palloc_wf s" "0 < n" "pg_ofs a = 0" "page_from_pool (the_pool flags s) a"
    and "extent (unat (pg_no a), n) \<subseteq> pool_pages (the_pool flags s)"
  shows "\<exists>s'. palloc_free_multiple a n s = Inr s' \<and> palloc_wf s' \<and> used_pages s' = used_pages s - extent (unat (pg_no a), n)"
proof -
  let ?p = "the_pool flags s"
  define k where "k = unat (pg_no a) - pno ?p"
  note w = the_pool_wf [OF assms(1), of flags]
  have bw: "bm_wf (used_map ?p)" using w by (simp add: pool_wf_def)
  have k: "unat (pg_no a) = pno ?p + k" "k < bit_cnt (used_map ?p)"
    using assms(4) by (auto simp: page_from_pool_iff [OF w] k_def pno_def)
  have nz: "a \<noteq> 0"
  proof
    assume "a = 0"
    then have "pno ?p = 0" using k(1) by (simp add: unat_pg_no)
    moreover have "unat PHYS_BASE \<le> unat (base ?p)" using w by (simp add: pool_wf_def word_le_nat_alt)
    ultimately show False using base_aligned [OF w] by (simp add: pno_def PHYS_BASE_def)
  qed
  have ku: "extent (k, n) \<subseteq> bm_used (used_map ?p)"
  proof
    fix x assume "x \<in> extent (k, n)"
    then have "pno ?p + x \<in> pool_pages ?p" using assms(5) k(1) by (auto simp: extent_def)
    then show "x \<in> bm_used (used_map ?p)" by (auto simp: pool_pages_def pno_def)
  qed
  have le: "k + n \<le> bit_cnt (used_map ?p)" using extent_bounded assms(2) ku by blast
  have all: "bitmap_all (used_map ?p) k n = Inr True"
    using bitmap_contains_refines [OF bw le, of False] ku free_run_iff [of k n "bm_abs (used_map ?p)" True]
    by (auto simp: bitmap_all_def free_run_def extent_def bm_used_def le subset_iff)
  obtain um where um: "bitmap_set_multiple (used_map ?p) k n False = Inr um" "bm_wf um"
      "bit_cnt um = bit_cnt (used_map ?p)"
      "bm_abs um = take k (bm_abs (used_map ?p)) @ replicate n False @ drop (k + n) (bm_abs (used_map ?p))"
    using bitmap_set_multiple_refines [OF bw le] by blast
  have u: "bm_used um = bm_used (used_map ?p) - extent (k, n)" using bm_used_splice [OF um(4,3) le] by simp
  have idx: "unat (pg_no a - pg_no (base ?p)) = k"
    using k(1) by (simp add: pno_def unat_sub word_le_nat_alt)
  have fk: "page_from_pool (kernel_pool s) a \<longleftrightarrow> flags AND PAL_USER = 0"
    using assms(4) page_in_one_pool [OF assms(1), of a] by (auto simp: the_pool_def split: if_splits)
  let ?s' = "(set_pool flags um s)\<lparr>kmem := kmemset a 0xcc (sz (PGSIZE * n)) (kmem s)\<rparr>"
  have "palloc_free_multiple a n s = Inr ?s'"
    using assms(2-4) nz fk idx all um(1)
    by (auto simp: palloc_free_multiple_def Let_def the_pool_def set_pool_def split: if_splits)
  moreover have "palloc_wf ?s'" using set_pool_wf [OF assms(1) um(2,3)] by simp
  moreover have "used_pages ?s' = used_pages s - extent (unat (pg_no a), n)"
  proof -
    have "extent (unat (pg_no a), n) \<inter> other_pages flags s = {}"
      using other_pages_disjoint [OF assms(1), of flags] k(1) le by (auto simp: extent_def)
    then show ?thesis unfolding k(1) used_pages_kmem
      by (subst (1 2) used_pages_split [of _ flags]) (use pool_pages_clear [OF u] in auto)
  qed
  ultimately show ?thesis by blast
qed

subsection \<open>The page allocator as an allocator of page numbers\<close>

text \<open>
  Where nothing is swapped out (the kernel pool, or any pool in the tree without virtual
  memory, src/pintos/src/threads/palloc.c, whose \<^verbatim>\<open>palloc_get_multiple\<close> returns a null
  pointer instead of calling \<^verbatim>\<open>page_swap_to_disk\<close>), the two pools together keep the
  allocator contract for every choice of flags.
\<close>

definition no_swap :: "'a palloc_scheme \<Rightarrow> (u32 \<times> 'a palloc_scheme) res" where
  "no_swap s = Inr (0, s)"

definition page_get :: "u32 \<Rightarrow> nat \<Rightarrow> 'a palloc_scheme \<Rightarrow> nat option \<times> 'a palloc_scheme" where
  "page_get flags n s = (case palloc_get_multiple no_swap flags n s of
     Inl _ \<Rightarrow> (None, s) | Inr (a, s') \<Rightarrow> (if a = 0 then None else Some (unat (pg_no a)), s'))"

definition page_put :: "nat \<Rightarrow> nat \<Rightarrow> 'a palloc_scheme \<Rightarrow> 'a palloc_scheme option" where
  "page_put k n s = (case palloc_free_multiple (of_nat (PGSIZE * k)) n s of
     Inl _ \<Rightarrow> None | Inr s' \<Rightarrow> Some s')"

lemma used_page_bound: "palloc_wf s \<Longrightarrow> x \<in> used_pages s \<Longrightarrow> PGSIZE * x < 2 ^ 32"
proof -
  assume a: "palloc_wf s" "x \<in> used_pages s"
  then obtain flags where f: "x \<in> pool_pages (the_pool flags s)"
    by (auto simp: used_pages_split [of s 0] other_pages_def the_pool_def PAL_USER_def intro: that [of 0] that [of 4])
  have w: "pool_wf (the_pool flags s)" using the_pool_wf [OF a(1)] .
  have "PGSIZE * x \<le> PGSIZE * (pno (the_pool flags s) + bit_cnt (used_map (the_pool flags s)))"
    using pool_pages_bounds [OF f] by (intro mult_le_mono2) simp
  also have "\<dots> = pool_end (the_pool flags s)"
    using base_aligned [OF w] by (simp add: pool_end_def PGSIZE_def pno_def)
  finally show ?thesis using w by (simp add: pool_wf_def)
qed

lemma page_of_nat:
  assumes "PGSIZE * k < 2 ^ 32"
  shows "unat (pg_no (of_nat (PGSIZE * k))) = k" "pg_ofs (of_nat (PGSIZE * k)) = 0"
proof -
  have u: "unat (of_nat (PGSIZE * k) :: u32) = 4096 * k"
    using assms by (simp add: PGSIZE_def unat_word_ariths unat_of_nat take_bit_eq_mod)
  show "unat (pg_no (of_nat (PGSIZE * k))) = k" by (simp add: unat_pg_no u del: of_nat_mult)
  have "unat (pg_ofs (of_nat (PGSIZE * k))) = 0" by (simp add: unat_pg_ofs u del: of_nat_mult)
  then show "pg_ofs (of_nat (PGSIZE * k)) = 0" by (simp only: unat_eq_zero)
qed

interpretation pages: slot_allocator palloc_wf used_pages "page_get flags" page_put for flags
proof
  fix s :: "'a palloc_scheme" and n k s'
  assume a: "palloc_wf s" "0 < n" "page_get flags n s = (Some k, s')"
  then obtain p where p: "palloc_get_multiple no_swap flags n s = Inr (p, s')" "p \<noteq> 0" "k = unat (pg_no p)"
    by (auto simp: page_get_def split: sum.splits if_splits)
  show "palloc_wf s' \<and> extent (k, n) \<inter> used_pages s = {} \<and> used_pages s' = used_pages s \<union> extent (k, n)"
    using palloc_get_fresh [OF a(1,2) p(1) _ p(2)] p(3) by (auto simp: no_swap_def fun_eq_iff)
next
  fix s :: "'a palloc_scheme" and n s'
  assume a: "palloc_wf s" "0 < n" "page_get flags n s = (None, s')"
  show "palloc_wf s' \<and> used_pages s' = used_pages s"
  proof (rule palloc_get_multiple_cases [OF a(1,2), of no_swap flags])
    fix k um assume h: "palloc_get_multiple no_swap flags n s =
         Inr (page_at (the_pool flags s) k,
              if flags AND PAL_ZERO \<noteq> 0
              then (set_pool flags um s)\<lparr>kmem := kmemset (page_at (the_pool flags s) k) 0 (PGSIZE * n) (kmem s)\<rparr>
              else set_pool flags um s)" "k + n \<le> bit_cnt (used_map (the_pool flags s))"
    have "page_at (the_pool flags s) k \<noteq> 0"
      using page_at_facts [OF the_pool_wf [OF a(1)], of k flags] h(2) a(2) by simp
    then show ?thesis using a(3) h(1) by (simp add: page_get_def)
  qed (use a in \<open>auto simp: page_get_def no_swap_def split: if_splits\<close>)
next
  fix s :: "'a palloc_scheme" and n k
  assume a: "palloc_wf s" "0 < n" "extent (k, n) \<subseteq> used_pages s"
  have "k \<in> used_pages s" using a(2,3) by (auto simp: extent_def)
  note pk = page_of_nat [OF used_page_bound [OF a(1) this]]
  obtain fl where f: "page_from_pool (the_pool fl s) (of_nat (PGSIZE * k))"
      "extent (unat (pg_no (of_nat (PGSIZE * k))), n) \<subseteq> pool_pages (the_pool fl s)"
    using used_group_in_one_pool [OF a(1,2), of "of_nat (PGSIZE * k)"] a(3) pk(1) by metis
  show "\<exists>s'. page_put k n s = Some s' \<and> palloc_wf s' \<and> used_pages s' = used_pages s - extent (k, n)"
    using palloc_free_used [OF a(1,2) pk(2) f] pk(1) by (auto simp: page_put_def)
qed

subsection \<open>Initialisation\<close>

lemma bm_pages_bounds:
  assumes "1 \<le> n" "n \<le> 2 ^ 20"
  shows "DIV_ROUND_UP (bitmap_buf_size n) PGSIZE \<le> n" "1 \<le> DIV_ROUND_UP (bitmap_buf_size n) PGSIZE"
    "bitmap_buf_size n \<le> DIV_ROUND_UP (bitmap_buf_size n) PGSIZE * PGSIZE"
proof -
  have e: "elem_cnt n = (n + 31) div 32" using assms by (simp add: elem_cnt_def DIV_ROUND_UP_def sz_id ELEM_BITS_def)
  have el: "elem_cnt n \<le> 2 ^ 20" using assms unfolding e by linarith
  then have b: "bitmap_buf_size n = 8 + 4 * elem_cnt n" by (simp add: bitmap_buf_size_def byte_cnt_def sz_id)
  then have d: "DIV_ROUND_UP (bitmap_buf_size n) PGSIZE = (4103 + 4 * elem_cnt n) div 4096"
    using el by (simp add: DIV_ROUND_UP_def PGSIZE_def sz_id)
  show "DIV_ROUND_UP (bitmap_buf_size n) PGSIZE \<le> n" using assms unfolding d e by linarith
  show "1 \<le> DIV_ROUND_UP (bitmap_buf_size n) PGSIZE" unfolding d by linarith
  show "bitmap_buf_size n \<le> DIV_ROUND_UP (bitmap_buf_size n) PGSIZE * PGSIZE"
    by (subst d, subst b, simp only: PGSIZE_def)
qed

lemma bitmap_buf_size_mono:
  assumes "m \<le> n" "n \<le> 2 ^ 20" shows "bitmap_buf_size m \<le> bitmap_buf_size n"
proof -
  have e: "elem_cnt k = (k + 31) div 32" if "k \<le> 2 ^ 20" for k
    using that by (simp add: elem_cnt_def DIV_ROUND_UP_def sz_id ELEM_BITS_def)
  have "elem_cnt n \<le> 2 ^ 20" using assms unfolding e [OF assms(2)] by linarith
  moreover have "elem_cnt m \<le> elem_cnt n" using assms by (simp add: e div_le_mono)
  ultimately show ?thesis by (simp add: bitmap_buf_size_def byte_cnt_def sz_id)
qed

lemma init_pool_ok:
  assumes n: "1 \<le> n" "n \<le> 2 ^ 20" and blk: "length block = 1024 * n"
    and st: "pg_ofs start = 0" "PHYS_BASE \<le> start" "unat start + 4096 * n < 2 ^ 32"
  shows "\<exists>p. init_pool start n block name = Inr p \<and> pool_wf p \<and> bm_used (used_map p) = {} \<and>
     unat start < unat (base p) \<and> pool_end p = unat start + 4096 * n"
proof -
  let ?b = "DIV_ROUND_UP (bitmap_buf_size n) PGSIZE"
  note bb = bm_pages_bounds [OF n]
  have z: "sz (?b * PGSIZE) = ?b * PGSIZE"
    using st(3) mult_le_mono1 [OF bb(1), of 4096] by (intro sz_id) (simp add: PGSIZE_def)
  have le: "bitmap_buf_size (n - ?b) \<le> ?b * PGSIZE"
    using bitmap_buf_size_mono [of "n - ?b" n] bb(3) n(2) by simp
  have len: "length (take (?b * PGSIZE div 4) block) * 4 = ?b * PGSIZE"
    using blk bb(1) by (simp add: PGSIZE_def min_def)
  have nb: "n - ?b + 31 < 2 ^ 32" using n(2) by simp
  obtain b where b: "bitmap_create_in_buf (n - ?b) (take (?b * PGSIZE div 4) block) (?b * PGSIZE) = Inr b" "bm_wf b"
     "bm_abs b = replicate (n - ?b) False" "bit_cnt b = n - ?b"
    using bitmap_create_in_buf_refines [OF nb len le] by blast
  let ?p = "\<lparr>used_map = b, base = start + of_nat (?b * PGSIZE)\<rparr>"
  have ip: "init_pool start n block name = Inr ?p"
    using bb(1) b(1) z by (simp add: init_pool_def Let_def)
  have le4: "4096 * ?b \<le> 4096 * n" using bb(1) by simp
  have ub: "unat (base ?p) = unat start + 4096 * ?b"
    using st(3) le4 by (simp add: PGSIZE_def unat_word_ariths unat_of_nat take_bit_eq_mod mult.commute)
  have "unat (pg_ofs (base ?p)) = 0"
    using st(1) unat_pg_ofs [of start] by (simp only: unat_pg_ofs ub) simp
  then have al: "pg_ofs (base ?p) = 0" by (simp only: unat_eq_zero)
  have kb: "PHYS_BASE \<le> base ?p" using st(2) ub unfolding word_le_nat_alt by linarith
  have pe: "pool_end ?p = unat start + 4096 * n"
    using le4 ub b(4) by (simp add: pool_end_def PGSIZE_def diff_mult_distrib2)
  have "pool_wf ?p" using al kb pe st(3) b(2) by (simp add: pool_wf_def)
  moreover have "bm_used (used_map ?p) = {}" using b(3,4) by (simp add: bm_used_def)
  moreover have "unat start < unat (base ?p)" using ub bb(2) by linarith
  ultimately show ?thesis using ip pe by blast
qed

text \<open>
  With more than 1 MB and less than 1 GB of RAM and a non-zero user page limit, both pools are
  set up, well formed and entirely free.
\<close>

lemma palloc_init_ok:
  assumes ram: "258 \<le> ram" "ram < 2 ^ 18" and lim: "1 \<le> limit"
    and u: "u = min ((ram - 256) div 2) limit"
    and kb: "length kblock = 1024 * (ram - 256 - u)" and ubk: "length ublock = 1024 * u"
  shows "\<exists>s. palloc_init ram limit kblock ublock m = Inr s \<and> palloc_wf s \<and> used_pages s = {}"
proof -
  have f1: "ptov (1024 * 1024) = Inr 0xc0100000" by (simp add: ptov_def PHYS_BASE_def)
  have r: "unat (of_nat (ram * PGSIZE) :: u32) = 4096 * ram"
    using ram by (simp add: PGSIZE_def unat_word_ariths unat_of_nat take_bit_eq_mod)
  let ?e = "of_nat (ram * PGSIZE) + PHYS_BASE :: u32"
  have f2: "ptov (of_nat (ram * PGSIZE)) = Inr ?e"
    using r ram by (simp add: ptov_def word_less_nat_alt PHYS_BASE_def del: of_nat_mult)
  have ue: "unat ?e = 4096 * ram + 0xc0000000"
    using r ram by (simp add: unat_word_ariths(1) PHYS_BASE_def del: of_nat_mult)
  have fp: "unat (?e - 0xc0100000) div PGSIZE = ram - 256"
    using ram by (subst unat_sub; simp only: word_le_nat_alt ue; simp add: PGSIZE_def)
  have uu: "(if limit < (ram - 256) div 2 then limit else (ram - 256) div 2) = u" using u by auto
  have u1: "1 \<le> u" "u \<le> (ram - 256) div 2" using u ram lim by auto
  let ?k = "ram - 256 - u"
  have k1: "1 \<le> ?k" "?k \<le> 2 ^ 20" "u \<le> 2 ^ 20" using u1 ram by auto
  have ku: "4096 * ?k + 4096 * u = 4096 * (ram - 256)" using u1 by simp
  have kx: "ram - (256 + u) < 261888" using u1 ram by simp
  obtain kp where kp: "init_pool 0xc0100000 ?k kblock ''kernel pool'' = Inr kp" "pool_wf kp" "bm_used (used_map kp) = {}"
     "pool_end kp = 0xc0100000 + 4096 * ?k"
    using init_pool_ok [OF k1(1,2) kb, of "0xc0100000" "''kernel pool''"] kx
    by (auto simp: pg_ofs_mod PHYS_BASE_def)
  let ?us = "0xc0100000 + of_nat (?k * PGSIZE) :: u32"
  have us: "unat ?us = 0xc0100000 + 4096 * ?k"
    using unat_plus_of_nat [of "0xc0100000" "?k * PGSIZE"] ku ram by (simp add: PGSIZE_def mult.commute)
  have "unat (pg_ofs ?us) = 0" by (simp only: unat_pg_ofs us) simp
  then have al: "pg_ofs ?us = 0" by (simp only: unat_eq_zero)
  have kb2: "PHYS_BASE \<le> ?us" by (simp only: word_le_nat_alt us) (simp add: PHYS_BASE_def)
  have ux: "unat ?us + 4096 * u < 2 ^ 32" unfolding us using ku ram by simp
  obtain up where up: "init_pool ?us u ublock ''user pool'' = Inr up" "pool_wf up" "bm_used (used_map up) = {}"
     "unat ?us < unat (base up)"
    using init_pool_ok [OF u1(1) k1(3) ubk al kb2, of "''user pool''"] ux by blast
  have "palloc_init ram limit kblock ublock m = Inr \<lparr>kernel_pool = kp, user_pool = up, kmem = m\<rparr>"
    by (simp only: palloc_init_def Let_def f1 f2 rbind_Inr fp uu kp(1) up(1))
  moreover have "pool_end kp < unat (base up)" using kp(4) up(4) us by simp
  ultimately show ?thesis using kp up by (simp add: palloc_wf_def used_pages_def pool_pages_def)
qed

end
