(* ===== verification/Containers.thy ===== *)
theory Containers
  imports Klist_Sort Palloc
begin

text \<open>What the data structures below the kernel promise their users: the intrusive lists of
  \<^verbatim>\<open>lib/kernel/list.c\<close>, the bitmaps of \<^verbatim>\<open>lib/kernel/bitmap.c\<close>, the page allocator of
  \<^verbatim>\<open>threads/palloc.c\<close> and the page table entries of \<^verbatim>\<open>threads/pte.h\<close>.\<close>

section \<open>Lists\<close>

text \<open>A heap with a three-element list, for the witnesses: headers at 1 and 2, elements 5, 3, 4.\<close>

definition ex_list :: klist where
  "ex_list = \<lparr>l_head = 1, l_tail = 2\<rparr>"

definition ex_heap :: list_heap where
  "ex_heap = (\<lambda>_. \<lparr>le_prev = 0, le_next = 0\<rparr>)
     (1 := \<lparr>le_prev = 0, le_next = 5\<rparr>, 5 := \<lparr>le_prev = 1, le_next = 3\<rparr>, 3 := \<lparr>le_prev = 5, le_next = 4\<rparr>,
      4 := \<lparr>le_prev = 3, le_next = 2\<rparr>, 2 := \<lparr>le_prev = 4, le_next = 0\<rparr>)"

definition ex_bitmap :: bitmap where
  "ex_bitmap = \<lparr>bit_cnt = 40, bits = [0xfffffffb, 0]\<rparr>"

lemma ex_heap_dll: "dll ex_heap ex_list [5, 3, 4]"
  by (simp add: dll_def nodes_def ex_heap_def ex_list_def)

lemma less_swo: "strict_weak_order ((<) :: nat \<Rightarrow> nat \<Rightarrow> bool)"
  by unfold_locales auto

text \<open>C5: \<^verbatim>\<open>list_sort\<close>, the natural merge sort that works in place on the links, ends and leaves a
  well-formed list of the same elements in order; it is stable, and it touches no memory outside
  the list.\<close>

theorem list_sort_correct:
  assumes "dll h l xs" "length xs < n" "strict_weak_order lt"
  shows "\<exists>h' ys. list_sort n lt l h = Inr h' \<and> dll h' l ys \<and> ksorted lt ys \<and> mset ys = mset xs \<and>
     (\<forall>k. filter (\<lambda>e. \<not> lt k e \<and> \<not> lt e k) ys = filter (\<lambda>e. \<not> lt k e \<and> \<not> lt e k) xs) \<and>
     (\<forall>a. a \<notin> set (nodes l xs) \<longrightarrow> h' a = h a)"
proof -
  obtain h' where h': "list_sort n lt l h = Inr h'" "dll h' l (ksort lt xs)" "\<And>a. a \<notin> set (nodes l xs) \<Longrightarrow> h' a = h a"
    using list_sort_refines [OF assms] by blast
  have "ksorted lt (ksort lt xs)" "ksim lt (ksort lt xs) xs"
    using strict_weak_order.ksorted_ksort [OF assms(3)] strict_weak_order.ksim_ksort [OF assms(3)] by blast+
  then show ?thesis using h' mset_ksort [of lt xs] unfolding ksim_def by blast
qed

theorem list_sort_correct_witness:
  "\<exists>h' ys. list_sort 4 (<) ex_list ex_heap = Inr h' \<and> dll h' ex_list ys \<and> mset ys = {#3, 4, 5#} \<and> h' 9 = ex_heap 9"
proof -
  have m: "mset [5, 3, 4] = {#3, 4, (5 :: nat)#}" by simp
  have n: "(9 :: nat) \<notin> set (nodes ex_list [5, 3, 4])" by (simp add: nodes_def ex_list_def)
  show ?thesis using list_sort_correct [OF ex_heap_dll, of 4 "(<)"] less_swo n unfolding m by auto
qed

text \<open>the queueing pattern of the kernel, on the pointers: append an element, sort, take the
  front. Every step succeeds, and the element taken is one that no element precedes.\<close>

theorem enqueue_sort_dequeue_pointers:
  assumes "dll h l xs" "x \<noteq> NULL" "x \<notin> set (nodes l xs)" "Suc (length xs) < n" "strict_weak_order lt"
  shows "\<exists>h1 h2 h3 y ys. list_push_back l x h = Inr h1 \<and> list_sort n lt l h1 = Inr h2 \<and>
    list_pop_front l h2 = Inr (y, h3) \<and> ksort lt (xs @ [x]) = y # ys \<and> dll h3 l ys \<and>
    (\<forall>z\<in>set (xs @ [x]). \<not> lt z y)"
  using kl.enqueue_sort_dequeue [OF assms] .

theorem enqueue_sort_dequeue_pointers_witness:
  "\<exists>h1 h2 h3 y. list_push_back ex_list 7 ex_heap = Inr h1 \<and> list_sort 5 (<) ex_list h1 = Inr h2 \<and>
    list_pop_front ex_list h2 = Inr (y, h3) \<and> y \<le> 3"
proof -
  have "(7 :: nat) \<notin> set (nodes ex_list [5, 3, 4])" by (simp add: nodes_def ex_list_def)
  then have "\<exists>h1 h2 h3 y ys. list_push_back ex_list 7 ex_heap = Inr h1 \<and> list_sort 5 (<) ex_list h1 = Inr h2 \<and>
    list_pop_front ex_list h2 = Inr (y, h3) \<and> ksort (<) ([5, 3, 4] @ [7]) = y # ys \<and> dll h3 ex_list ys \<and>
    (\<forall>z\<in>set ([5, 3, 4] @ [7]). \<not> z < y)"
    by (intro enqueue_sort_dequeue_pointers [OF ex_heap_dll] less_swo) simp_all
  then obtain h1 h2 h3 y where "list_push_back ex_list 7 ex_heap = Inr h1" "list_sort 5 (<) ex_list h1 = Inr h2"
    "list_pop_front ex_list h2 = Inr (y, h3)" and z: "\<forall>z\<in>set ([5, 3, 4] @ [7]). \<not> z < y" by blast
  moreover have "y \<le> 3" using z by simp
  ultimately show ?thesis by blast
qed

text \<open>inserting an element anywhere and removing it again gives the list back, and
  \<^verbatim>\<open>list_remove\<close> returns the element that followed.\<close>

theorem list_insert_remove_roundtrip:
  assumes "dll h l (A @ B)" "x \<notin> set (nodes l (A @ B))" "x \<noteq> NULL"
  shows "\<exists>h1 h2. list_insert (hd (B @ [l_tail l])) x h = Inr h1 \<and> dll h1 l (A @ x # B) \<and>
     list_remove x h1 = Inr (hd (B @ [l_tail l]), h2) \<and> dll h2 l (A @ B) \<and>
     (\<forall>a. a \<notin> set (nodes l (A @ x # B)) \<longrightarrow> h2 a = h a)"
proof -
  obtain h1 where h1: "list_insert (hd (B @ [l_tail l])) x h = Inr h1" "dll h1 l (A @ x # B)"
     "\<And>a. a \<notin> set (nodes l (A @ x # B)) \<Longrightarrow> h1 a = h a"
    using list_insert_refines [OF assms] by blast
  obtain h2 where h2: "list_remove x h1 = Inr (hd (B @ [l_tail l]), h2)" "dll h2 l (A @ B)"
     "\<And>a. a \<notin> set (nodes l (A @ B)) \<Longrightarrow> h2 a = h1 a"
    using list_remove_refines [OF h1(2)] by blast
  have "h2 a = h a" if "a \<notin> set (nodes l (A @ x # B))" for a
    using h1(3) [OF that] h2(3) [of a] that by (auto simp: nodes_def)
  then show ?thesis using h1(1,2) h2(1,2) by blast
qed

theorem list_insert_remove_roundtrip_witness:
  "\<exists>h1 h2. list_insert 3 7 ex_heap = Inr h1 \<and> list_remove 7 h1 = Inr (3, h2) \<and> dll h2 ex_list [5, 3, 4]"
proof -
  have "(7 :: nat) \<notin> set (nodes ex_list ([5] @ [3, 4]))" by (simp add: nodes_def ex_list_def)
  then show ?thesis using list_insert_remove_roundtrip [of ex_heap ex_list "[5]" "[3, 4]" 7] ex_heap_dll by auto
qed

text \<open>\<^verbatim>\<open>list_reverse\<close> reverses, in place, and ends; applied twice it gives the list back.\<close>

theorem list_reverse_correct:
  assumes "dll h l xs" "length xs < n"
  shows "\<exists>h1 h2. list_reverse n l h = Inr h1 \<and> dll h1 l (rev xs) \<and> list_reverse n l h1 = Inr h2 \<and> dll h2 l xs \<and>
    (\<forall>a. a \<notin> set (nodes l xs) \<longrightarrow> h1 a = h a)"
proof -
  obtain h1 where h1: "list_reverse n l h = Inr h1" "dll h1 l (rev xs)" "\<And>a. a \<notin> set (nodes l xs) \<Longrightarrow> h1 a = h a"
    using list_reverse_refines [OF assms] by blast
  obtain h2 where "list_reverse n l h1 = Inr h2" "dll h2 l (rev (rev xs))"
    using list_reverse_refines [OF h1(2), of n] assms(2) by auto
  then show ?thesis using h1 by auto
qed

theorem list_reverse_correct_witness:
  "\<exists>h1. list_reverse 4 ex_list ex_heap = Inr h1 \<and> dll h1 ex_list [4, 3, 5]"
  using list_reverse_correct [OF ex_heap_dll, of 4] by auto

text \<open>removing an element a second time, right after \<^verbatim>\<open>list_pop_front\<close> has taken it off the
  list, as \<^verbatim>\<open>frame_entry_delete\<close> does with the victim that \<^verbatim>\<open>find_swap_victim\<close> popped, writes the
  links that are already there: it succeeds and changes nothing.\<close>

theorem list_remove_after_pop_is_noop:
  assumes "dll h l (x # xs)" "list_pop_front l h = Inr (x, h1)"
  shows "\<exists>e. list_remove x h1 = Inr (e, h1)"
proof -
  let ?p = "le_prev (h x)" and ?n = "le_next (h x)"
  have i: "is_interior h x" using dll_interior [OF assms(1)] by simp
  have ne: "?p \<noteq> x" "?n \<noteq> x" "?p \<noteq> ?n"
    using assms(1) by (cases xs; auto simp: dll_def nodes_def)+
  have f: "list_front h l = Inr x" using assms(2) by (auto simp: list_pop_front_def res_simps split: prod.splits)
  have h1: "h1 = set_prev ?n ?p (set_next ?p ?n h)"
    using assms(2) i by (auto simp: list_pop_front_def list_remove_def f Let_def res_simps split: prod.splits)
  have x: "h1 x = h x" using ne by (simp add: h1 set_prev_def set_next_def)
  have "set_prev ?n ?p (set_next ?p ?n h1) = h1"
    using ne by (auto simp: h1 set_prev_def set_next_def fun_eq_iff)
  then show ?thesis using i x ne by (simp add: list_remove_def is_interior_def Let_def)
qed

theorem list_remove_after_pop_is_noop_witness:
  "\<exists>h1 e. list_pop_front ex_list ex_heap = Inr (5, h1) \<and> list_remove 5 h1 = Inr (e, h1)"
proof -
  obtain h1 where "list_pop_front ex_list ex_heap = Inr (5, h1)" using list_pop_front_refines [OF ex_heap_dll] by blast
  then show ?thesis using list_remove_after_pop_is_noop [OF ex_heap_dll] by blast
qed

section \<open>Bitmaps\<close>

text \<open>C10: \<^verbatim>\<open>bitmap_scan_and_flip\<close> is first fit: it returns the lowest index at or after the start
  where a group of the asked-for length has the asked-for value, flips exactly that group, and
  otherwise returns the error value and changes nothing.\<close>

theorem bitmap_scan_and_flip_first_fit:
  assumes "bm_wf b" "start \<le> bit_cnt b" "0 < cnt"
  shows "\<exists>k b'. bitmap_scan_and_flip b start cnt v = Inr (k, b') \<and> bm_wf b' \<and>
     (if \<exists>j\<ge>start. free_run (bm_abs b) v cnt j
      then k = (LEAST j. start \<le> j \<and> free_run (bm_abs b) v cnt j) \<and> k \<noteq> BITMAP_ERROR \<and>
           bm_abs b' = take k (bm_abs b) @ replicate cnt (\<not> v) @ drop (k + cnt) (bm_abs b)
      else k = BITMAP_ERROR \<and> b' = b)"
proof (rule bitmap_scan_and_flip_cases [OF assms, of v])
  fix k b' assume h: "bitmap_scan_and_flip b start cnt v = Inr (k, b')" "k \<noteq> BITMAP_ERROR" "start \<le> k"
      "bm_wf b'" "free_run (bm_abs b) v cnt k" "\<And>j. start \<le> j \<Longrightarrow> j < k \<Longrightarrow> \<not> free_run (bm_abs b) v cnt j"
      "bm_abs b' = take k (bm_abs b) @ replicate cnt (\<not> v) @ drop (k + cnt) (bm_abs b)"
  have "(LEAST j. start \<le> j \<and> free_run (bm_abs b) v cnt j) = k"
    by (rule Least_equality) (use h in \<open>auto simp: not_less [symmetric]\<close>)
  then show ?thesis using h by (intro exI [of _ k] exI [of _ b']) auto
next
  assume "bitmap_scan_and_flip b start cnt v = Inr (BITMAP_ERROR, b)" "\<And>j. start \<le> j \<Longrightarrow> \<not> free_run (bm_abs b) v cnt j"
  then show ?thesis using assms(1) by auto
qed

theorem bitmap_scan_and_flip_first_fit_witness:
  "\<exists>k b'. bitmap_scan_and_flip ex_bitmap 0 2 False = Inr (k, b') \<and> bm_wf b'"
  using bitmap_scan_and_flip_first_fit [of ex_bitmap 0 2 False] by (auto simp: ex_bitmap_def bm_wf_def)

text \<open>no call of \<^verbatim>\<open>bitmap_set_multiple\<close> writes outside the bitmap. The range checks wrap around
  in \<^verbatim>\<open>size_t\<close>, so a huge count can pass them, but then the loop fails an assertion at the first
  index past the end.\<close>

theorem bitmap_set_multiple_out_of_range_asserts:
  assumes "bm_wf b" "start \<le> bit_cnt b" "bit_cnt b < start + cnt"
  shows "bitmap_set_multiple b start cnt v = Inl Assertion"
  using bitmap_set_multiple_overflow [OF assms] .

theorem bitmap_set_multiple_out_of_range_asserts_witness:
  "sz (8 + (2 ^ 32 - 8)) \<le> bit_cnt ex_bitmap \<and> bitmap_set_multiple ex_bitmap 8 (2 ^ 32 - 8) True = Inl Assertion"
  using bitmap_set_multiple_out_of_range_asserts [of ex_bitmap 8 "2 ^ 32 - 8" True]
  by (simp add: ex_bitmap_def bm_wf_def sz_def)

section \<open>Pages\<close>



text \<open>a page table entry made for a page leads back to that page, is present and accessible to
  user code, is writable exactly if asked for, and starts clean.\<close>

theorem pte_roundtrip:
  assumes "pg_ofs page = 0" "is_kernel_vaddr page"
  shows "\<exists>pte. pte_create_user page w = Inr pte \<and> pte_get_page pte = Inr page \<and>
     pte AND PTE_P \<noteq> 0 \<and> (pte AND PTE_W \<noteq> 0 \<longleftrightarrow> w) \<and> pte AND PTE_D = 0 \<and> pte AND PTE_A = 0 \<and> pte AND PTE_U \<noteq> 0"
  using pte_create_user_roundtrip [OF assms] .

theorem pte_roundtrip_witness: "\<exists>pte. pte_create_user 0xc0123000 True = Inr pte \<and> pte_get_page pte = Inr 0xc0123000"
  using pte_roundtrip [of "0xc0123000" True] by (auto simp: pg_ofs_mod is_kernel_vaddr_def PHYS_BASE_def)

end
