(* ===== verification/Thread.thy ===== *)
theory Thread
  imports Klist_Sort
begin

text \<open>
  The thread system (src/pintos/src/threads/thread.c) and the interrupt bookkeeping it relies on
  (threads/interrupt.c).

  \<^item> A \<^verbatim>\<open>struct thread *\<close> is a \<open>tptr\<close>, the address of the thread's page; 0 is \<^verbatim>\<open>NULL\<close>. \<open>threads\<close>
    maps the addresses of live thread structures to their contents, so \<^verbatim>\<open>is_thread\<close>, which
    checks a magic number that a freed page does not have, is membership in its domain.
  \<^item> The three queues threads wait on through their \<^verbatim>\<open>elem\<close> member (the ready list, the sleepers
    of devices/timer.c and the waiters of each semaphore) are lists of addresses;
    \<^verbatim>\<open>list_push_back\<close> followed by \<^verbatim>\<open>list_sort\<close> is \<open>ksort\<close> of the extended list, which is
    what the pointer-level routines compute.
  \<^item> A thread that calls \<^verbatim>\<open>schedule\<close> leaves the rest of the routine it is in on its own kernel
    stack. That rest is \<open>konts\<close>: the continuations it will run when it is switched to.
  \<^item> Some routines read a member of \<^verbatim>\<open>struct thread\<close> through a pointer that does not
    name a thread (the end of an empty list, or an uninitialised variable). What such a read
    yields is a field of the state, \<open>junk_wt\<close>, \<open>junk_front\<close> and \<open>junk_sleeper\<close>, so
    that every theorem holds whatever is read.
\<close>

type_synonym tptr = nat
type_synonym lptr = nat

datatype thread_status = THREAD_RUNNING | THREAD_READY | THREAD_BLOCKED | THREAD_DYING

text \<open>Semaphores: a free-standing one, the one inside a lock, and the one that \<^verbatim>\<open>cond_wait\<close>
  keeps on the stack of the waiting thread.\<close>

datatype sptr = Sema nat | SemaOf lptr | WaitSema tptr

datatype kont =
    KIntr bool
  | KSema sptr
  | KDown sptr
  | KHold lptr
  | KAcquire lptr
  | KBroadcast nat lptr
  | KStart
  | KIdleInit sptr
  | KIdleBlock
  | KIdleWake

record thread =
  tid :: int
  status :: thread_status
  tname :: string
  stack :: nat
  priority :: int
  orig_priority :: int
  aux :: nat
  lock_waiting_for :: lptr
  lock_list :: "lptr list"
  donation_nested_level :: int
  waiting_ticks :: int

record semaphore =
  sval :: nat
  waiters :: "tptr list"

record kern =
  threads :: "tptr \<rightharpoonup> thread"
  konts :: "tptr \<Rightarrow> kont list"
  semas :: "sptr \<rightharpoonup> semaphore"
  holders :: "lptr \<Rightarrow> tptr"
  conds :: "nat \<Rightarrow> (tptr \<times> int) list"
  ready_list :: "tptr list"
  all_list :: "tptr list"
  waiting_list :: "tptr list"
  running :: tptr
  idle_thread :: tptr
  initial_thread :: tptr
  next_tid :: int
  thread_ticks :: nat
  idle_ticks :: int
  kernel_ticks :: int
  ticks :: int
  intr_on :: bool
  in_external_intr :: bool
  yield_on_return :: bool
  junk_wt :: "int option"
  junk_front :: int
  junk_sleeper :: bool

definition PRI_MIN :: int where "PRI_MIN = 0"
definition PRI_DEFAULT :: int where "PRI_DEFAULT = 31"
definition PRI_MAX :: int where "PRI_MAX = 63"
definition TID_ERROR :: int where "TID_ERROR = -1"
definition TIME_SLICE :: nat where "TIME_SLICE = 4"

subsection \<open>Reading and writing thread structures\<close>

definition thr :: "kern \<Rightarrow> tptr \<Rightarrow> thread" where
  "thr s t = the (threads s t)"

definition upd_thread :: "tptr \<Rightarrow> (thread \<Rightarrow> thread) \<Rightarrow> kern \<Rightarrow> kern" where
  "upd_thread t f s = s\<lparr>threads := (threads s)(t := map_option f (threads s t))\<rparr>"

definition set_status :: "tptr \<Rightarrow> thread_status \<Rightarrow> kern \<Rightarrow> kern" where
  "set_status t st s = upd_thread t (\<lambda>th. th\<lparr>status := st\<rparr>) s"

definition push_kont :: "tptr \<Rightarrow> kont \<Rightarrow> kern \<Rightarrow> kern" where
  "push_kont t k s = s\<lparr>konts := (konts s)(t := k # konts s t)\<rparr>"

definition is_thread :: "kern \<Rightarrow> tptr \<Rightarrow> bool" where
  "is_thread s t \<longleftrightarrow> t \<noteq> 0 \<and> threads s t \<noteq> None"

definition thread_current :: "kern \<Rightarrow> tptr res" where
  "thread_current s =
     kassert (is_thread s (running s))
      (kassert (status (thr s (running s)) = THREAD_RUNNING) (Inr (running s)))"

definition sort_by_priority :: "kern \<Rightarrow> tptr \<Rightarrow> tptr \<Rightarrow> bool" where
  "sort_by_priority s a b \<longleftrightarrow> priority (thr s a) > priority (thr s b)"

subsection \<open>Interrupt level\<close>

definition intr_enable :: "kern \<Rightarrow> kern res" where
  "intr_enable s = kassert (\<not> in_external_intr s) (Inr (s\<lparr>intr_on := True\<rparr>))"

definition intr_disable :: "kern \<Rightarrow> kern" where
  "intr_disable s = s\<lparr>intr_on := False\<rparr>"

definition intr_set_level :: "bool \<Rightarrow> kern \<Rightarrow> kern res" where
  "intr_set_level lvl s = (if lvl then intr_enable s else Inr (intr_disable s))"

definition intr_yield_on_return :: "kern \<Rightarrow> kern res" where
  "intr_yield_on_return s = kassert (in_external_intr s) (Inr (s\<lparr>yield_on_return := True\<rparr>))"

subsection \<open>The scheduler\<close>

definition next_thread_to_run :: "kern \<Rightarrow> tptr \<times> kern" where
  "next_thread_to_run s =
     (case ready_list s of [] \<Rightarrow> (idle_thread s, s) | t # ts \<Rightarrow> (t, s\<lparr>ready_list := ts\<rparr>))"

definition palloc_free_thread :: "tptr \<Rightarrow> kern \<Rightarrow> kern" where
  "palloc_free_thread t s = s\<lparr>threads := (threads s)(t := None)\<rparr>"

definition thread_schedule_tail :: "tptr \<Rightarrow> kern \<Rightarrow> kern res" where
  "thread_schedule_tail prev s =
     (let cur = running s
      in kassert (\<not> intr_on s)
       (let s1 = (set_status cur THREAD_RUNNING s)\<lparr>thread_ticks := 0\<rparr>
        in if prev \<noteq> 0 \<and> status (thr s1 prev) = THREAD_DYING \<and> prev \<noteq> initial_thread s1
           then kassert (prev \<noteq> cur) (Inr (palloc_free_thread prev s1))
           else Inr s1))"

definition schedule :: "kern \<Rightarrow> kern res" where
  "schedule s =
     (let cur = running s; (nxt, s1) = next_thread_to_run s
      in kassert (\<not> intr_on s1)
       (kassert (status (thr s1 cur) \<noteq> THREAD_RUNNING)
        (kassert (is_thread s1 nxt)
          (if cur \<noteq> nxt then thread_schedule_tail cur (s1\<lparr>running := nxt\<rparr>)
           else thread_schedule_tail 0 s1))))"

definition thread_block :: "kern \<Rightarrow> kern res" where
  "thread_block s =
     kassert (\<not> in_external_intr s)
      (kassert (\<not> intr_on s)
        (rbind (thread_current s) (\<lambda>t. schedule (set_status t THREAD_BLOCKED s))))"

definition thread_unblock :: "tptr \<Rightarrow> kern \<Rightarrow> kern res" where
  "thread_unblock t s =
     kassert (is_thread s t)
      (let old_level = intr_on s; s1 = intr_disable s
       in kassert (status (thr s1 t) = THREAD_BLOCKED)
        (let s2 = s1\<lparr>ready_list := ksort (sort_by_priority s1) (ready_list s1 @ [t])\<rparr>;
             s3 = set_status t THREAD_READY s2
         in intr_set_level old_level s3))"

definition thread_yield :: "kern \<Rightarrow> kern res" where
  "thread_yield s =
     rbind (thread_current s) (\<lambda>cur.
     kassert (\<not> in_external_intr s)
      (let s1 = push_kont cur (KIntr (intr_on s)) (intr_disable s);
           s2 = (if cur \<noteq> idle_thread s1
                 then s1\<lparr>ready_list := ksort (sort_by_priority s1) (ready_list s1 @ [cur])\<rparr> else s1);
           s3 = set_status cur THREAD_READY s2
       in schedule s3))"

definition thread_exit :: "kern \<Rightarrow> kern res" where
  "thread_exit s =
     kassert (\<not> in_external_intr s)
      (let s1 = intr_disable s
       in rbind (thread_current s1) (\<lambda>cur.
          let s2 = s1\<lparr>all_list := remove1 cur (all_list s1)\<rparr>;
              s3 = set_status cur THREAD_DYING s2
          in schedule s3))"

definition thread_tick :: "kern \<Rightarrow> kern res" where
  "thread_tick s =
     rbind (thread_current s) (\<lambda>t.
       let s1 = (if t = idle_thread s then s\<lparr>idle_ticks := idle_ticks s + 1\<rparr>
                 else s\<lparr>kernel_ticks := kernel_ticks s + 1\<rparr>);
           s2 = s1\<lparr>thread_ticks := Suc (thread_ticks s1)\<rparr>
       in if TIME_SLICE \<le> thread_ticks s2 then intr_yield_on_return s2 else Inr s2)"

subsection \<open>Creating threads\<close>

definition init_thread :: "tptr \<Rightarrow> string \<Rightarrow> int \<Rightarrow> kern \<Rightarrow> kern res" where
  "init_thread t nm pri s =
     kassert (t \<noteq> 0)
      (kassert (PRI_MIN \<le> pri \<and> pri \<le> PRI_MAX)
        (Inr (s\<lparr>threads := (threads s)(t \<mapsto>
                 \<lparr>tid = 0, status = THREAD_BLOCKED, tname = take 15 nm, stack = t + 4096,
                  priority = pri, orig_priority = pri, aux = 0, lock_waiting_for = 0,
                  lock_list = [], donation_nested_level = 0, waiting_ticks = 0\<rparr>),
               konts := (konts s)(t := []),
               all_list := all_list s @ [t]\<rparr>)))"

definition allocate_tid :: "kern \<Rightarrow> int \<times> kern" where
  "allocate_tid s = (next_tid s, s\<lparr>next_tid := next_tid s + 1\<rparr>)"

definition alloc_frame :: "tptr \<Rightarrow> nat \<Rightarrow> kern \<Rightarrow> kern res" where
  "alloc_frame t n s =
     kassert (is_thread s t)
      (kassert (n mod 4 = 0) (Inr (upd_thread t (\<lambda>th. th\<lparr>stack := stack th - n\<rparr>) s)))"

definition thread_create ::
  "tptr \<Rightarrow> string \<Rightarrow> int \<Rightarrow> kont list \<Rightarrow> nat \<Rightarrow> kern \<Rightarrow> (int \<times> kern) res" where
  "thread_create page nm pri function arg s =
     (if page = 0 then Inr (TID_ERROR, s)
      else
        rbind (init_thread page nm pri s) (\<lambda>s1.
        let (t_id, s2) = allocate_tid s1;
            s3 = upd_thread page (\<lambda>th. th\<lparr>tid := t_id\<rparr>) s2
        in rbind (alloc_frame page 12 s3) (\<lambda>s4.
           let s5 = upd_thread page (\<lambda>th. th\<lparr>aux := arg\<rparr>) s4
           in rbind (alloc_frame page 4 s5) (\<lambda>s6.
              rbind (alloc_frame page 28 s6) (\<lambda>s7.
              let s8 = s7\<lparr>konts := (konts s7)(page := KStart # function)\<rparr>
              in rbind (thread_unblock page s8) (\<lambda>s9.
                 rbind (thread_current s9) (\<lambda>cur.
                   if priority (thr s9 cur) < pri
                   then rbind (thread_yield s9) (\<lambda>s10. Inr (t_id, s10))
                   else Inr (t_id, s9))))))))"

definition thread_init :: "tptr \<Rightarrow> kern \<Rightarrow> kern res" where
  "thread_init esp_page s =
     kassert (\<not> intr_on s)
      (let s1 = s\<lparr>ready_list := [], all_list := [], running := esp_page, initial_thread := esp_page\<rparr>
       in rbind (init_thread esp_page ''main'' PRI_DEFAULT s1) (\<lambda>s2.
          let s3 = set_status esp_page THREAD_RUNNING s2;
              (t_id, s4) = allocate_tid s3
          in Inr (upd_thread esp_page (\<lambda>th. th\<lparr>tid := t_id\<rparr>) s4)))"

definition thread_set_priority :: "int \<Rightarrow> kern \<Rightarrow> kern res" where
  "thread_set_priority new_priority s =
     rbind (thread_current s) (\<lambda>ct.
       let s1 = (if donation_nested_level (thr s ct) = 0
                 then upd_thread ct (\<lambda>th. th\<lparr>priority := new_priority\<rparr>) s else s);
           s2 = upd_thread ct (\<lambda>th. th\<lparr>orig_priority := new_priority\<rparr>) s1;
           front_priority = (case ready_list s2 of [] \<Rightarrow> junk_front s2 | t # _ \<Rightarrow> priority (thr s2 t))
       in if new_priority < front_priority then thread_yield s2 else Inr s2)"

definition thread_get_priority :: "kern \<Rightarrow> int res" where
  "thread_get_priority s = rbind (thread_current s) (\<lambda>t. Inr (priority (thr s t)))"

end
