(* ===== verification/Synch.thy ===== *)
theory Synch
  imports Thread
begin

text \<open>
  Synchronisation primitives (src/pintos/src/threads/synch.c): semaphores, locks with priority
  donation, condition variables.

  A primitive that may sleep is split where the code sleeps: what is left of it is pushed on
  the continuations of the calling thread, and \<open>resume\<close> runs the next continuation of the
  running thread. \<open>KSema\<close> is the test of the loop of \<^verbatim>\<open>sema_down\<close>.
\<close>

definition MAX_NESTED_LEVEL :: int where "MAX_NESTED_LEVEL = 8"

definition sema_init :: "sptr \<Rightarrow> nat \<Rightarrow> kern \<Rightarrow> kern" where
  "sema_init p v s = s\<lparr>semas := (semas s)(p \<mapsto> \<lparr>sval = v, waiters = []\<rparr>)\<rparr>"

definition sem :: "kern \<Rightarrow> sptr \<Rightarrow> semaphore" where
  "sem s p = the (semas s p)"

definition upd_sema :: "sptr \<Rightarrow> (semaphore \<Rightarrow> semaphore) \<Rightarrow> kern \<Rightarrow> kern" where
  "upd_sema p f s = s\<lparr>semas := (semas s)(p := map_option f (semas s p))\<rparr>"

text \<open>One evaluation of the loop of \<^verbatim>\<open>sema_down\<close>: sleep on the waiters, or take the value and
  leave the loop.\<close>

definition sema_down_loop :: "sptr \<Rightarrow> kern \<Rightarrow> kern res" where
  "sema_down_loop p s =
     (if sval (sem s p) = 0
      then rbind (thread_current s) (\<lambda>t.
             thread_block (push_kont t (KSema p)
               (upd_sema p (\<lambda>se. se\<lparr>waiters := ksort (sort_by_priority s) (waiters se @ [t])\<rparr>) s)))
      else (let s1 = upd_sema p (\<lambda>se. se\<lparr>sval := sval se - 1\<rparr>) s
            in rbind (thread_current s1) (\<lambda>t.
                 Inr (upd_thread t (\<lambda>th. th\<lparr>lock_waiting_for := 0\<rparr>) s1))))"

definition sema_down :: "sptr \<Rightarrow> kern \<Rightarrow> kern res" where
  "sema_down p s =
     kdefined (semas s p \<noteq> None)
      (kassert (\<not> in_external_intr s)
        (let old_level = intr_on s
         in sema_down_loop p (push_kont (running s) (KIntr old_level) (intr_disable s))))"

definition sema_try_down :: "sptr \<Rightarrow> kern \<Rightarrow> (bool \<times> kern) res" where
  "sema_try_down p s =
     kdefined (semas s p \<noteq> None)
      (let old_level = intr_on s; s1 = intr_disable s;
           (success, s2) = (if sval (sem s1 p) > 0
                            then (True, upd_sema p (\<lambda>se. se\<lparr>sval := sval se - 1\<rparr>) s1)
                            else (False, s1))
       in rbind (intr_set_level old_level s2) (\<lambda>s3. Inr (success, s3)))"

text \<open>\<^verbatim>\<open>sema_up\<close>: the last test reads \<^verbatim>\<open>wt\<close>, which is set only if a thread was waiting.\<close>

definition sema_up :: "sptr \<Rightarrow> kern \<Rightarrow> kern res" where
  "sema_up p s =
     kdefined (semas s p \<noteq> None)
      (let old_level = intr_on s;
           s1 = push_kont (running s) (KIntr old_level) (intr_disable s);
           ws = ksort (sort_by_priority s1) (waiters (sem s1 p))
       in rbind (case ws of
                   [] \<Rightarrow> Inr (junk_wt s1, s1)
                 | wt # rest \<Rightarrow>
                     rbind (thread_unblock wt (upd_sema p (\<lambda>se. se\<lparr>waiters := rest\<rparr>) s1)) (\<lambda>s2.
                       Inr (Some (priority (thr s2 wt)), s2)))
          (\<lambda>(wt_priority, s2).
             let s3 = upd_sema p (\<lambda>se. se\<lparr>sval := sz (Suc (sval se))\<rparr>) s2
             in case wt_priority of
                  None \<Rightarrow> Inl Undefined
                | Some wp \<Rightarrow>
                    rbind (thread_current s3) (\<lambda>cur.
                      if wp > priority (thr s3 cur) then thread_yield s3 else Inr s3)))"

subsection \<open>Locks\<close>

definition lock_init :: "lptr \<Rightarrow> kern \<Rightarrow> kern" where
  "lock_init l s = sema_init (SemaOf l) 1 (s\<lparr>holders := (holders s)(l := 0)\<rparr>)"

definition lock_held_by_current_thread :: "lptr \<Rightarrow> kern \<Rightarrow> bool res" where
  "lock_held_by_current_thread l s = rbind (thread_current s) (\<lambda>t. Inr (holders s l = t))"

text \<open>
  \<^verbatim>\<open>priority_donation\<close> follows the chain of locks from holder to holder. Every level
  compares with, and passes on, the priority of the running thread. Pushing a lock on a second
  list would corrupt both, hence the definedness condition.
\<close>

fun priority_donation :: "nat \<Rightarrow> lptr \<Rightarrow> kern \<Rightarrow> kern res" where
  "priority_donation 0 l s = Inl Diverged"
| "priority_donation (Suc n) l s =
     rbind (thread_current s) (\<lambda>ct.
     let lh = holders s l
     in if lh \<noteq> 0 then
          kdefined (is_thread s lh)
          (if priority (thr s lh) < priority (thr s ct) then
             (if donation_nested_level (thr s lh) < MAX_NESTED_LEVEL then
                (let s1 = (if donation_nested_level (thr s lh) = 0
                           then upd_thread lh (\<lambda>th. th\<lparr>orig_priority := priority th\<rparr>) s else s);
                     pushed = (l \<notin> set (lock_list (thr s1 lh)));
                     s2 = (if pushed
                           then upd_thread lh (\<lambda>th. th\<lparr>donation_nested_level := donation_nested_level th + 1,
                                                        lock_list := lock_list th @ [l]\<rparr>) s1
                           else s1);
                     s3 = upd_thread lh (\<lambda>th. th\<lparr>priority := priority (thr s ct)\<rparr>) s2
                 in kdefined (\<not> pushed \<or> (\<forall>t\<in>set (all_list s). l \<notin> set (lock_list (thr s t))))
                     (if lock_waiting_for (thr s3 lh) \<noteq> 0
                      then priority_donation n (lock_waiting_for (thr s3 lh)) s3
                      else Inr s3))
              else Inr s)
           else Inr s)
        else Inr s)"

definition lock_acquire :: "lptr \<Rightarrow> kern \<Rightarrow> kern res" where
  "lock_acquire l s =
     kassert (l \<noteq> 0)
      (kassert (\<not> in_external_intr s)
        (rbind (lock_held_by_current_thread l s) (\<lambda>h.
          kassert (\<not> h)
           (rbind (priority_donation (length (all_list s) + 2) l s) (\<lambda>s1.
            rbind (thread_current s1) (\<lambda>t.
              let s2 = upd_thread t (\<lambda>th. th\<lparr>lock_waiting_for := l\<rparr>) s1
              in sema_down (SemaOf l) (push_kont t (KHold l) s2)))))))"

definition lock_try_acquire :: "lptr \<Rightarrow> kern \<Rightarrow> (bool \<times> kern) res" where
  "lock_try_acquire l s =
     kassert (l \<noteq> 0)
      (rbind (lock_held_by_current_thread l s) (\<lambda>h.
        kassert (\<not> h)
         (rbind (sema_try_down (SemaOf l) s) (\<lambda>(success, s1).
           if success then rbind (thread_current s1) (\<lambda>t. Inr (True, s1\<lparr>holders := (holders s1)(l := t)\<rparr>))
           else Inr (False, s1)))))"

text \<open>The highest priority among the first waiters of the locks in the list, 0 if there is none.\<close>

fun next_donor_priority :: "kern \<Rightarrow> lptr list \<Rightarrow> int \<Rightarrow> int" where
  "next_donor_priority s [] restored = restored"
| "next_donor_priority s (cl # ls) restored =
     (case waiters (sem s (SemaOf cl)) of
        [] \<Rightarrow> next_donor_priority s ls restored
      | t # _ \<Rightarrow> next_donor_priority s ls
                   (if priority (thr s t) > restored then priority (thr s t) else restored))"

definition priority_restoration :: "lptr \<Rightarrow> kern \<Rightarrow> (int \<times> kern) res" where
  "priority_restoration l s =
     rbind (thread_current s) (\<lambda>ct.
       if donation_nested_level (thr s ct) = 0 then Inr (-1, s)
       else if l \<notin> set (lock_list (thr s ct)) then Inr (-1, s)
       else
         (let s1 = upd_thread ct (\<lambda>th. th\<lparr>donation_nested_level := donation_nested_level th - 1\<rparr>) s;
              front_priority = (case waiters (sem s1 (SemaOf l)) of [] \<Rightarrow> junk_front s1 | t # _ \<Rightarrow> priority (thr s1 t))
          in if front_priority = priority (thr s1 ct)
             then (let s2 = upd_thread ct (\<lambda>th. th\<lparr>lock_list := remove1 l (lock_list th)\<rparr>) s1
                   in if donation_nested_level (thr s2 ct) = 0 then Inr (orig_priority (thr s2 ct), s2)
                      else Inr (next_donor_priority s2 (lock_list (thr s2 ct)) 0, s2))
             else Inr (priority (thr s1 ct), s1)))"

definition lock_release :: "lptr \<Rightarrow> kern \<Rightarrow> kern res" where
  "lock_release l s =
     kassert (l \<noteq> 0)
      (rbind (lock_held_by_current_thread l s) (\<lambda>h.
        kassert h
         (rbind (priority_restoration l s) (\<lambda>(priority_restore, s1).
            let s2 = s1\<lparr>holders := (holders s1)(l := 0)\<rparr>
            in rbind (if priority_restore \<ge> 0
                      then rbind (thread_current s2) (\<lambda>t. Inr (upd_thread t (\<lambda>th. th\<lparr>priority := priority_restore\<rparr>) s2))
                      else Inr s2) (\<lambda>s3. sema_up (SemaOf l) s3)))))"

subsection \<open>Condition variables\<close>

definition cond_init :: "nat \<Rightarrow> kern \<Rightarrow> kern" where
  "cond_init c s = s\<lparr>conds := (conds s)(c := [])\<rparr>"

definition sort_cond_by_priority :: "tptr \<times> int \<Rightarrow> tptr \<times> int \<Rightarrow> bool" where
  "sort_cond_by_priority a b \<longleftrightarrow> snd a > snd b"

definition cond_wait :: "nat \<Rightarrow> lptr \<Rightarrow> kern \<Rightarrow> kern res" where
  "cond_wait c l s =
     kassert (l \<noteq> 0)
      (kassert (\<not> in_external_intr s)
        (rbind (lock_held_by_current_thread l s) (\<lambda>h.
          kassert h
           (rbind (thread_current s) (\<lambda>t.
              let s1 = sema_init (WaitSema t) 0 s;
                  s2 = s1\<lparr>conds := (conds s1)(c := kinsert sort_cond_by_priority (t, priority (thr s1 t)) (conds s1 c))\<rparr>;
                  s3 = push_kont t (KDown (WaitSema t)) (push_kont t (KAcquire l) s2)
              in lock_release l s3)))))"

definition cond_signal :: "nat \<Rightarrow> lptr \<Rightarrow> kern \<Rightarrow> kern res" where
  "cond_signal c l s =
     kassert (l \<noteq> 0)
      (kassert (\<not> in_external_intr s)
        (rbind (lock_held_by_current_thread l s) (\<lambda>h.
          kassert h
           (case conds s c of
              [] \<Rightarrow> Inr s
            | (t, _) # rest \<Rightarrow> sema_up (WaitSema t) (s\<lparr>conds := (conds s)(c := rest)\<rparr>)))))"

text \<open>\<^verbatim>\<open>cond_broadcast\<close>: a signal may switch to the thread it wakes, so the loop is a
  continuation of its own.\<close>

definition cond_broadcast_loop :: "nat \<Rightarrow> lptr \<Rightarrow> kern \<Rightarrow> kern res" where
  "cond_broadcast_loop c l s =
     (case conds s c of
        [] \<Rightarrow> Inr s
      | _ \<Rightarrow> cond_signal c l (push_kont (running s) (KBroadcast c l) s))"

definition cond_broadcast :: "nat \<Rightarrow> lptr \<Rightarrow> kern \<Rightarrow> kern res" where
  "cond_broadcast c l s = kassert (l \<noteq> 0) (cond_broadcast_loop c l s)"

end
