(* ===== verification/Timer.thy ===== *)
theory Timer
  imports Synch "HOL-Library.Signed_Division"
begin

text \<open>
  The timer (src/pintos/src/devices/timer.c): the tick counter, the list of sleeping threads
  and the interrupt handler that wakes them; and the external interrupt path of
  threads/interrupt.c that runs the handler and yields afterwards.
\<close>

definition TIMER_FREQ :: int where "TIMER_FREQ = 100"

definition timer_init :: "kern \<Rightarrow> kern" where
  "timer_init s = s\<lparr>waiting_list := []\<rparr>"

definition timer_ticks :: "kern \<Rightarrow> int" where
  "timer_ticks s = ticks s"

definition timer_elapsed :: "int \<Rightarrow> kern \<Rightarrow> int" where
  "timer_elapsed before s = timer_ticks s - before"

definition sort_by_waiting_ticks :: "kern \<Rightarrow> tptr \<Rightarrow> tptr \<Rightarrow> bool" where
  "sort_by_waiting_ticks s a b \<longleftrightarrow> waiting_ticks (thr s a) < waiting_ticks (thr s b)"

definition timer_sleep :: "int \<Rightarrow> kern \<Rightarrow> kern res" where
  "timer_sleep n s =
     (let start = timer_ticks s
      in kassert (intr_on s)
       (let s1 = push_kont (running s) (KIntr (intr_on s)) (intr_disable s)
        in rbind (thread_current s1) (\<lambda>t.
           let s2 = upd_thread t (\<lambda>th. th\<lparr>waiting_ticks := start + n\<rparr>) s1;
               s3 = s2\<lparr>waiting_list := ksort (sort_by_waiting_ticks s2) (waiting_list s2 @ [t])\<rparr>
           in thread_block s3)))"

text \<open>The loop of \<^verbatim>\<open>timer_interrupt\<close>. On an empty list the code inspects the list's tail as if
  it were a thread; if the test comes out true, \<^verbatim>\<open>list_pop_front\<close> asserts.\<close>

fun wake_loop :: "tptr list \<Rightarrow> kern \<Rightarrow> kern res" where
  "wake_loop [] s = kassert (\<not> junk_sleeper s) (Inr s)"
| "wake_loop (t # ts) s =
     (if waiting_ticks (thr s t) \<le> ticks s \<and> tid (thr s t) \<noteq> 0 \<and> status (thr s t) \<noteq> THREAD_READY
      then rbind (thread_unblock t (s\<lparr>waiting_list := ts\<rparr>)) (\<lambda>s1. wake_loop ts s1)
      else Inr s)"

definition timer_interrupt :: "kern \<Rightarrow> kern res" where
  "timer_interrupt s =
     (let s1 = s\<lparr>ticks := ticks s + 1\<rparr>
      in rbind (wake_loop (waiting_list s1) s1) thread_tick)"

text \<open>\<^verbatim>\<open>intr_handler\<close> for the timer's vector 0x20: interrupts are off in the handler; the
  interrupted thread's level comes back with its frame.\<close>

definition intr_handler_ext :: "(kern \<Rightarrow> kern res) \<Rightarrow> kern \<Rightarrow> kern res" where
  "intr_handler_ext handler s =
     (let s0 = push_kont (running s) (KIntr (intr_on s)) (intr_disable s)
      in kassert (\<not> intr_on s0)
       (kassert (\<not> in_external_intr s0)
        (rbind (handler (s0\<lparr>in_external_intr := True, yield_on_return := False\<rparr>)) (\<lambda>s1.
          kassert (\<not> intr_on s1)
           (kassert (in_external_intr s1)
            (let s2 = s1\<lparr>in_external_intr := False\<rparr>
             in if yield_on_return s2 then thread_yield s2 else Inr s2))))))"

text \<open>Conversion of a time to ticks, and what to do with it: sleep, or busy-wait.\<close>

definition real_time_ticks :: "int \<Rightarrow> int \<Rightarrow> int" where
  "real_time_ticks num denom = (num * TIMER_FREQ) sdiv denom"

definition real_time_sleep :: "int \<Rightarrow> int \<Rightarrow> kern \<Rightarrow> kern res" where
  "real_time_sleep num denom s =
     kassert (intr_on s)
      (if real_time_ticks num denom > 0 then timer_sleep (real_time_ticks num denom) s
       else kassert (denom mod 1000 = 0) (Inr s))"

definition timer_msleep :: "int \<Rightarrow> kern \<Rightarrow> kern res" where
  "timer_msleep ms s = real_time_sleep ms 1000 s"

definition timer_usleep :: "int \<Rightarrow> kern \<Rightarrow> kern res" where
  "timer_usleep us s = real_time_sleep us (1000 * 1000) s"

definition timer_nsleep :: "int \<Rightarrow> kern \<Rightarrow> kern res" where
  "timer_nsleep ns s = real_time_sleep ns (1000 * 1000 * 1000) s"

subsection \<open>Continuations and the machine\<close>

text \<open>What the running thread does next, when it is inside a kernel routine.\<close>

definition run_kont :: "kont \<Rightarrow> kern \<Rightarrow> kern res" where
  "run_kont k s = (case k of
     KIntr lvl \<Rightarrow> intr_set_level lvl s
   | KSema p \<Rightarrow> sema_down_loop p s
   | KDown p \<Rightarrow> sema_down p s
   | KHold l \<Rightarrow> rbind (thread_current s) (\<lambda>t. Inr (s\<lparr>holders := (holders s)(l := t)\<rparr>))
   | KAcquire l \<Rightarrow> lock_acquire l s
   | KBroadcast c l \<Rightarrow> cond_broadcast_loop c l s
   | KStart \<Rightarrow> intr_enable s
   | KIdleInit p \<Rightarrow> rbind (thread_current s) (\<lambda>t.
       sema_up p (push_kont t KIdleBlock (s\<lparr>idle_thread := t\<rparr>)))
   | KIdleBlock \<Rightarrow> thread_block (push_kont (running s) KIdleWake (intr_disable s))
   | KIdleWake \<Rightarrow> Inr (push_kont (running s) KIdleBlock (s\<lparr>intr_on := True\<rparr>)))"

definition resume :: "kern \<Rightarrow> kern res" where
  "resume s = (case konts s (running s) of
     [] \<Rightarrow> Inr s
   | k # ks \<Rightarrow> run_kont k (s\<lparr>konts := (konts s)(running s := ks)\<rparr>))"

end
