(* ===== verification/Sched.thy ===== *)
theory Sched
  imports Timer
begin

text \<open>
  The thread system as a machine, and its invariant.

  \<open>kstep\<close> is one step of the kernel: the running thread calls a primitive, or carries on inside
  one (\<open>resume\<close>), or a timer interrupt arrives. \<open>kinv\<close> is what holds in every reachable
  state: each thread is on exactly the queue its status calls for (\<open>qok\<close>), what every thread
  has left to do has one of a few shapes (\<open>konts_ok\<close>), and each lock is free, or held, or on its
  way to exactly one thread (\<open>lock_ok\<close>). \<open>kstep_kinv\<close> is the preservation theorem; the
  lemmas before it describe what each operation changes.
\<close>

subsection \<open>Queues\<close>

datatype qname = QReady | QSleep | QSema sptr

definition queue :: "kern \<Rightarrow> qname \<Rightarrow> tptr list" where
  "queue s q = (case q of
     QReady \<Rightarrow> ready_list s
   | QSleep \<Rightarrow> waiting_list s
   | QSema p \<Rightarrow> (case semas s p of None \<Rightarrow> [] | Some se \<Rightarrow> waiters se))"

lemma queue_at [simp]:
  "queue s QReady = ready_list s" "queue s QSleep = waiting_list s"
  "queue s (QSema p) = (case semas s p of None \<Rightarrow> [] | Some se \<Rightarrow> waiters se)"
  by (simp_all add: queue_def)

definition stat :: "kern \<Rightarrow> tptr \<Rightarrow> thread_status option" where
  "stat s t = map_option status (threads s t)"

definition qview :: "kern \<Rightarrow> (tptr \<Rightarrow> thread_status option) \<times> (qname \<Rightarrow> tptr list) \<times> tptr \<times> tptr \<times> tptr" where
  "qview s = (stat s, queue s, running s, idle_thread s, initial_thread s)"

definition qok :: "bool \<Rightarrow> tptr set \<Rightarrow> kern \<Rightarrow> bool" where
  "qok r X s \<longleftrightarrow>
     (\<forall>q. distinct (queue s q)) \<and>
     (\<forall>q q' t. t \<in> set (queue s q) \<longrightarrow> t \<in> set (queue s q') \<longrightarrow> q = q') \<and>
     (\<forall>q t. t \<in> set (queue s q) \<longrightarrow>
        stat s t = Some (if q = QReady then THREAD_READY else THREAD_BLOCKED) \<and> t \<noteq> idle_thread s \<and> t \<notin> X) \<and>
     (\<forall>t. stat s t = Some THREAD_RUNNING \<longrightarrow> r \<and> t = running s) \<and>
     (\<forall>t. stat s t = Some THREAD_READY \<longrightarrow> t \<in> set (ready_list s) \<or> t = idle_thread s) \<and>
     (\<forall>t. stat s t = Some THREAD_BLOCKED \<longrightarrow> (\<exists>q. t \<in> set (queue s q)) \<or> t = idle_thread s \<or> t \<in> X) \<and>
     (\<forall>t. stat s t = Some THREAD_DYING \<longrightarrow> t = initial_thread s \<or> \<not> r \<and> t = running s) \<and>
     (r \<longrightarrow> stat s (running s) = Some THREAD_RUNNING) \<and>
     (\<forall>p t. t \<in> set (queue s (QSema (WaitSema p))) \<longrightarrow> t = p) \<and>
     stat s 0 = None"

lemma qokD:
  assumes "qok r X s"
  shows qok_distinct: "distinct (queue s q)"
    and qok_one: "t \<in> set (queue s q) \<Longrightarrow> t \<in> set (queue s q') \<Longrightarrow> q = q'"
    and qok_stat: "t \<in> set (queue s q) \<Longrightarrow> stat s t = Some (if q = QReady then THREAD_READY else THREAD_BLOCKED)"
    and qok_not_idle: "t \<in> set (queue s q) \<Longrightarrow> t \<noteq> idle_thread s"
    and qok_not_X: "t \<in> set (queue s q) \<Longrightarrow> t \<notin> X"
    and qok_RUNNING: "stat s t = Some THREAD_RUNNING \<Longrightarrow> r \<and> t = running s"
    and qok_READY: "stat s t = Some THREAD_READY \<Longrightarrow> t \<in> set (ready_list s) \<or> t = idle_thread s"
    and qok_BLOCKED: "stat s t = Some THREAD_BLOCKED \<Longrightarrow> (\<exists>q. t \<in> set (queue s q)) \<or> t = idle_thread s \<or> t \<in> X"
    and qok_DYING: "stat s t = Some THREAD_DYING \<Longrightarrow> t = initial_thread s \<or> \<not> r \<and> t = running s"
    and qok_running: "r \<Longrightarrow> stat s (running s) = Some THREAD_RUNNING"
    and qok_WaitSema: "t \<in> set (queue s (QSema (WaitSema p))) \<Longrightarrow> t = p"
    and qok_NULL: "stat s 0 = None"
proof -
  note c1 = assms [unfolded qok_def]
  note c2 = conjunct2 [OF c1]
  note c3 = conjunct2 [OF c2]
  note c4 = conjunct2 [OF c3]
  note c5 = conjunct2 [OF c4]
  note c6 = conjunct2 [OF c5]
  note c7 = conjunct2 [OF c6]
  note c8 = conjunct2 [OF c7]
  note c9 = conjunct2 [OF c8]
  note c10 = conjunct2 [OF c9]
  show "distinct (queue s q)" using conjunct1 [OF c1] by blast
  show "t \<in> set (queue s q) \<Longrightarrow> t \<in> set (queue s q') \<Longrightarrow> q = q'" using conjunct1 [OF c2] by blast
  show "t \<in> set (queue s q) \<Longrightarrow> stat s t = Some (if q = QReady then THREAD_READY else THREAD_BLOCKED)" using conjunct1 [OF c3] by blast
  show "t \<in> set (queue s q) \<Longrightarrow> t \<noteq> idle_thread s" using conjunct1 [OF c3] by blast
  show "t \<in> set (queue s q) \<Longrightarrow> t \<notin> X" using conjunct1 [OF c3] by blast
  show "stat s t = Some THREAD_RUNNING \<Longrightarrow> r \<and> t = running s" using conjunct1 [OF c4] by blast
  show "stat s t = Some THREAD_READY \<Longrightarrow> t \<in> set (ready_list s) \<or> t = idle_thread s" using conjunct1 [OF c5] by blast
  show "stat s t = Some THREAD_BLOCKED \<Longrightarrow> (\<exists>q. t \<in> set (queue s q)) \<or> t = idle_thread s \<or> t \<in> X" using conjunct1 [OF c6] by blast
  show "stat s t = Some THREAD_DYING \<Longrightarrow> t = initial_thread s \<or> \<not> r \<and> t = running s" using conjunct1 [OF c7] by blast
  show "r \<Longrightarrow> stat s (running s) = Some THREAD_RUNNING" using conjunct1 [OF c8] by blast
  show "t \<in> set (queue s (QSema (WaitSema p))) \<Longrightarrow> t = p" using conjunct1 [OF c9] by blast
  show "stat s 0 = None" using c10 .
qed

lemma qok_running_free: "qok True X s \<Longrightarrow> running s \<notin> set (queue s x)"
  using qok_stat [of True X s "running s" x] qok_running [of True X s] by (auto split: if_splits)

lemma qok_cong: "qview s = qview s' \<Longrightarrow> qok r X s = qok r X s'"
proof -
  assume v: "qview s = qview s'"
  then have "ready_list s = ready_list s'" using queue_at(1) by (metis prod.inject qview_def)
  then show ?thesis using v by (simp add: qok_def qview_def)
qed

lemma stat_simps [simp]:
  "stat (set_status t st s) t' = (if t' = t then map_option (\<lambda>_. st) (stat s t) else stat s t')"
  "stat (push_kont t k s) = stat s" "stat (intr_disable s) = stat s"
  "stat (upd_sema p f s) = stat s"
  "stat (s\<lparr>ready_list := rl\<rparr>) = stat s" "stat (s\<lparr>waiting_list := rl\<rparr>) = stat s"
  "stat (s\<lparr>running := t\<rparr>) = stat s" "stat (s\<lparr>intr_on := b\<rparr>) = stat s"
  "stat (s\<lparr>thread_ticks := n\<rparr>) = stat s" "stat (s\<lparr>konts := ks\<rparr>) = stat s"
  "stat (s\<lparr>holders := h\<rparr>) = stat s" "stat (s\<lparr>conds := c\<rparr>) = stat s"
  "stat (s\<lparr>all_list := al\<rparr>) = stat s"
  "stat (s\<lparr>in_external_intr := b\<rparr>) = stat s" "stat (s\<lparr>yield_on_return := b\<rparr>) = stat s"
  by (auto simp: stat_def set_status_def upd_thread_def push_kont_def intr_disable_def upd_sema_def fun_eq_iff
      option.map_comp o_def)

lemma upd_thread_stat: "(\<And>th. status (f th) = status th) \<Longrightarrow> stat (upd_thread t f s) = stat s"
  by (auto simp: stat_def upd_thread_def fun_eq_iff option.map_comp o_def)

lemma stat_free [simp]: "stat (palloc_free_thread t s) = (stat s)(t := None)"
  by (auto simp: stat_def palloc_free_thread_def)

lemma dom_set_status [simp]: "dom (stat (set_status t st s)) = dom (stat s)"
  by (auto simp: dom_def split: if_splits)

lemma queue_simps [simp]:
  "queue (set_status t st s) = queue s"
  "queue (push_kont t k s) = queue s" "queue (intr_disable s) = queue s"
  "queue (s\<lparr>running := t\<rparr>) = queue s" "queue (s\<lparr>intr_on := b\<rparr>) = queue s"
  "queue (s\<lparr>thread_ticks := n\<rparr>) = queue s" "queue (s\<lparr>konts := ks\<rparr>) = queue s"
  "queue (s\<lparr>holders := h\<rparr>) = queue s" "queue (s\<lparr>conds := c\<rparr>) = queue s"
  "queue (s\<lparr>all_list := al\<rparr>) = queue s"
  "queue (s\<lparr>in_external_intr := b\<rparr>) = queue s" "queue (s\<lparr>yield_on_return := b\<rparr>) = queue s"
  "queue (s\<lparr>threads := T\<rparr>) = queue s" "queue (upd_thread t f s) = queue s" "queue (palloc_free_thread t s) = queue s"
  "queue (s\<lparr>ready_list := rl\<rparr>) = (queue s)(QReady := rl)"
  "queue (s\<lparr>waiting_list := rl\<rparr>) = (queue s)(QSleep := rl)"
  by (auto simp: fun_eq_iff queue_def set_status_def upd_thread_def push_kont_def intr_disable_def
      palloc_free_thread_def split: qname.split)

lemma sel_simps [simp]:
  "running (set_status t st s) = running s" "idle_thread (set_status t st s) = idle_thread s"
  "initial_thread (set_status t st s) = initial_thread s" "ready_list (set_status t st s) = ready_list s"
  "intr_on (set_status t st s) = intr_on s" "in_external_intr (set_status t st s) = in_external_intr s"
  "konts (set_status t st s) = konts s" "semas (set_status t st s) = semas s" "holders (set_status t st s) = holders s"
  "running (push_kont t k s) = running s" "idle_thread (push_kont t k s) = idle_thread s"
  "initial_thread (push_kont t k s) = initial_thread s" "ready_list (push_kont t k s) = ready_list s"
  "intr_on (push_kont t k s) = intr_on s" "in_external_intr (push_kont t k s) = in_external_intr s"
  "semas (push_kont t k s) = semas s" "holders (push_kont t k s) = holders s" "threads (push_kont t k s) = threads s"
  "running (upd_thread t f s) = running s" "idle_thread (upd_thread t f s) = idle_thread s"
  "initial_thread (upd_thread t f s) = initial_thread s" "ready_list (upd_thread t f s) = ready_list s"
  "intr_on (upd_thread t f s) = intr_on s" "in_external_intr (upd_thread t f s) = in_external_intr s"
  "konts (upd_thread t f s) = konts s" "semas (upd_thread t f s) = semas s" "holders (upd_thread t f s) = holders s"
  "running (upd_sema p g s) = running s" "idle_thread (upd_sema p g s) = idle_thread s"
  "initial_thread (upd_sema p g s) = initial_thread s" "ready_list (upd_sema p g s) = ready_list s"
  "intr_on (upd_sema p g s) = intr_on s" "in_external_intr (upd_sema p g s) = in_external_intr s"
  "konts (upd_sema p g s) = konts s" "holders (upd_sema p g s) = holders s" "threads (upd_sema p g s) = threads s"
  "running (intr_disable s) = running s" "idle_thread (intr_disable s) = idle_thread s"
  "initial_thread (intr_disable s) = initial_thread s" "ready_list (intr_disable s) = ready_list s"
  "\<not> intr_on (intr_disable s)" "in_external_intr (intr_disable s) = in_external_intr s"
  "konts (intr_disable s) = konts s" "semas (intr_disable s) = semas s" "holders (intr_disable s) = holders s"
  "threads (intr_disable s) = threads s"
  "running (palloc_free_thread t s) = running s" "idle_thread (palloc_free_thread t s) = idle_thread s"
  "initial_thread (palloc_free_thread t s) = initial_thread s" "ready_list (palloc_free_thread t s) = ready_list s"
  "waiting_list (set_status t st s) = waiting_list s" "waiting_list (push_kont t k s) = waiting_list s"
  "waiting_list (upd_thread t f s) = waiting_list s" "waiting_list (upd_sema p g s) = waiting_list s"
  "waiting_list (intr_disable s) = waiting_list s"
  "all_list (set_status t st s) = all_list s" "all_list (push_kont t k s) = all_list s"
  "all_list (upd_thread t f s) = all_list s" "all_list (upd_sema p g s) = all_list s"
  "all_list (intr_disable s) = all_list s" "all_list (palloc_free_thread t s) = all_list s"
  "konts (palloc_free_thread t s) = konts s" "semas (palloc_free_thread t s) = semas s" "holders (palloc_free_thread t s) = holders s"
  by (simp_all add: set_status_def upd_thread_def push_kont_def intr_disable_def upd_sema_def palloc_free_thread_def)

lemma queue_upd_sema:
  "queue (upd_sema p (\<lambda>se. se\<lparr>waiters := w se\<rparr>) s) =
     (case semas s p of None \<Rightarrow> queue s | Some se \<Rightarrow> (queue s)(QSema p := w se))"
  by (auto simp: fun_eq_iff queue_def upd_sema_def split: qname.split option.split)

lemma queue_upd_sval [simp]: "queue (upd_sema p (\<lambda>se. se\<lparr>sval := v se\<rparr>) s) = queue s"
  by (auto simp: fun_eq_iff queue_def upd_sema_def split: qname.split option.split)

lemma is_thread_stat: "is_thread s t \<longleftrightarrow> t \<noteq> 0 \<and> stat s t \<noteq> None"
  by (simp add: is_thread_def stat_def)

lemma status_stat: "stat s t = Some st \<Longrightarrow> status (thr s t) = st"
  by (auto simp: stat_def thr_def)

lemma thread_current_Inr: "thread_current s = Inr t \<longleftrightarrow> t = running s \<and> t \<noteq> 0 \<and> stat s t = Some THREAD_RUNNING"
  by (auto simp: thread_current_def res_simps is_thread_def thr_def stat_def)

subsection \<open>The scheduler keeps the queues\<close>

definition nxt_of :: "kern \<Rightarrow> tptr" where
  "nxt_of s = (case ready_list s of [] \<Rightarrow> idle_thread s | t # _ \<Rightarrow> t)"

definition reaped :: "kern \<Rightarrow> bool" where
  "reaped s \<longleftrightarrow> running s \<noteq> nxt_of s \<and> running s \<noteq> 0 \<and>
     status (thr s (running s)) = THREAD_DYING \<and> running s \<noteq> initial_thread s"

lemma thr_other:
  "thr (set_status t st s) t' = (if t' = t then (case threads s t of None \<Rightarrow> thr s t | Some th \<Rightarrow> th\<lparr>status := st\<rparr>) else thr s t')"
  "thr (s\<lparr>thread_ticks := n\<rparr>) = thr s" "thr (s\<lparr>running := u\<rparr>) = thr s" "thr (s\<lparr>ready_list := rl\<rparr>) = thr s"
  by (auto simp: thr_def set_status_def upd_thread_def fun_eq_iff split: option.splits)

lemma thr_set_status [simp]:
  "priority (thr (set_status t st s) u) = priority (thr s u)" "tid (thr (set_status t st s) u) = tid (thr s u)"
  "waiting_ticks (thr (set_status t st s) u) = waiting_ticks (thr s u)"
  by (cases "threads s t"; simp add: thr_def set_status_def upd_thread_def)+

lemma schedule_Inr:
  assumes "schedule s = Inr s'"
  shows "s' = (let s1 = (set_status (nxt_of s) THREAD_RUNNING (s\<lparr>ready_list := tl (ready_list s), running := nxt_of s\<rparr>))\<lparr>thread_ticks := 0\<rparr>
               in if reaped s then palloc_free_thread (running s) s1 else s1)"
    and "\<not> intr_on s" "status (thr s (running s)) \<noteq> THREAD_RUNNING" "is_thread s (nxt_of s)"
proof -
  have n: "next_thread_to_run s = (nxt_of s, s\<lparr>ready_list := tl (ready_list s)\<rparr>)"
    by (cases "ready_list s") (simp_all add: next_thread_to_run_def nxt_of_def)
  have i: "is_thread (s\<lparr>ready_list := rl\<rparr>) t = is_thread s t" for rl t by (simp add: is_thread_def)
  show "\<not> intr_on s" "status (thr s (running s)) \<noteq> THREAD_RUNNING" "is_thread s (nxt_of s)"
    using assms unfolding schedule_def n by (auto simp: res_simps Let_def i thr_other)
  have eq: "running s = n \<Longrightarrow> s\<lparr>ready_list := rl, running := n\<rparr> = s\<lparr>ready_list := rl\<rparr>" for rl n
    by auto
  show "s' = (let s1 = (set_status (nxt_of s) THREAD_RUNNING (s\<lparr>ready_list := tl (ready_list s), running := nxt_of s\<rparr>))\<lparr>thread_ticks := 0\<rparr>
               in if reaped s then palloc_free_thread (running s) s1 else s1)"
    using assms unfolding schedule_def n
    by (auto simp: res_simps Let_def thr_other i thread_schedule_tail_def reaped_def eq split: if_splits)
qed

lemma schedule_view:
  assumes "schedule s = Inr s'"
  shows "queue s' = (queue s)(QReady := tl (ready_list s))" "running s' = nxt_of s"
    "idle_thread s' = idle_thread s" "initial_thread s' = initial_thread s"
    "stat s' = (let f = (stat s)(nxt_of s \<mapsto> THREAD_RUNNING) in if reaped s then f(running s := None) else f)"
  using schedule_Inr [OF assms]
  by (auto simp: Let_def is_thread_stat fun_eq_iff split: if_splits)

lemma schedule_qok:
  assumes q: "qok False {} s" and r: "schedule s = Inr s'"
  shows "qok True {} s'"
proof -
  note v = schedule_view [OF r] and i = schedule_Inr(2-4) [OF r]
  let ?n = "nxt_of s"
  have nz: "?n \<noteq> 0" and ns: "stat s ?n \<noteq> None" using i(3) by (auto simp: is_thread_stat)
  have nq: "?n \<notin> set (queue s' x)" for x
  proof (cases "ready_list s")
    case Nil
    have "idle_thread s \<notin> set (queue s x)" using qok_not_idle [OF q] by blast
    then show ?thesis using v(1) Nil by (simp add: nxt_of_def)
  next
    case (Cons t ts)
    have d: "distinct (t # ts)" using qok_distinct [OF q, of QReady] Cons by simp
    have "t \<in> set (queue s QReady)" using Cons by simp
    then have "t \<notin> set (queue s x)" if "x \<noteq> QReady" using qok_one [OF q] that by blast
    then show ?thesis using d v(1) Cons by (auto simp: nxt_of_def)
  qed
  have sub: "set (queue s' x) \<subseteq> set (queue s x)" for x
    using v(1) by (cases "ready_list s") auto
  have ds: "distinct (queue s' x)" for x
    using qok_distinct [OF q, of x] qok_distinct [OF q, of QReady] v(1) by (simp add: distinct_tl)
  have rq: "running s \<notin> set (queue s x)" if "reaped s" for x
  proof
    assume "running s \<in> set (queue s x)"
    then have "stat s (running s) \<noteq> Some THREAD_DYING" using qok_stat [OF q] by auto
    moreover have "stat s (running s) \<noteq> None" using \<open>running s \<in> set (queue s x)\<close> qok_stat [OF q] by auto
    ultimately show False using that status_stat by (auto simp: reaped_def)
  qed
  have st: "stat s' t = Some x \<longleftrightarrow> (if t = ?n then x = THREAD_RUNNING else stat s t = Some x \<and> \<not> (reaped s \<and> t = running s))" for t x
    using v(5) by (auto simp: Let_def reaped_def)
  show ?thesis unfolding qok_def
  proof (intro conjI allI impI)
    fix x y t assume "t \<in> set (queue s' x)" "t \<in> set (queue s' y)"
    then show "x = y" using qok_one [OF q] sub by blast
  next
    fix x t assume t: "t \<in> set (queue s' x)"
    then have "t \<in> set (queue s x)" "t \<noteq> ?n" using sub nq by auto
    then show "stat s' t = Some (if x = QReady then THREAD_READY else THREAD_BLOCKED)" "t \<noteq> idle_thread s'"
      using qok_stat [OF q] qok_not_idle [OF q] rq st v(3) by (metis, metis)
  next
    fix t assume t: "stat s' t = Some THREAD_RUNNING"
    show "t = running s'"
    proof (rule ccontr)
      assume "t \<noteq> running s'"
      then have "stat s t = Some THREAD_RUNNING" using t st v(2) by (metis)
      then show False using qok_RUNNING [OF q] by blast
    qed
  next
    fix t assume "stat s' t = Some THREAD_READY"
    then have "t \<noteq> ?n" "stat s t = Some THREAD_READY" using st by (auto split: if_splits)
    then have "t \<in> set (ready_list s) \<or> t = idle_thread s" using qok_READY [OF q] by blast
    then show "t \<in> set (ready_list s') \<or> t = idle_thread s'"
      using \<open>t \<noteq> ?n\<close> v(1,3) queue_at(1) [of s'] by (cases "ready_list s") (auto simp: nxt_of_def)
  next
    fix t assume "stat s' t = Some THREAD_BLOCKED"
    then have t: "t \<noteq> ?n" "stat s t = Some THREAD_BLOCKED" using st by (auto split: if_splits)
    then obtain x where "t \<in> set (queue s x) \<or> t = idle_thread s" using qok_BLOCKED [OF q] by blast
    moreover have "x \<noteq> QReady" if "t \<in> set (queue s x)" using that t(2) qok_stat [OF q] by auto
    ultimately show "(\<exists>x. t \<in> set (queue s' x)) \<or> t = idle_thread s' \<or> t \<in> {}"
      using v(1,3) by (metis fun_upd_apply)
  next
    fix t assume "stat s' t = Some THREAD_DYING"
    then have t: "t \<noteq> ?n" "stat s t = Some THREAD_DYING" "\<not> (reaped s \<and> t = running s)" using st by (auto split: if_splits)
    then have "t = initial_thread s \<or> t = running s" using qok_DYING [OF q] by blast
    moreover have "t \<noteq> 0" using t(2) qok_NULL [OF q] by (cases "t = 0") simp_all
    ultimately show "t = initial_thread s' \<or> \<not> True \<and> t = running s'"
      using t v(4) status_stat [OF t(2)] by (auto simp: reaped_def)
  next
    show "stat s' (running s') = Some THREAD_RUNNING" using st v(2) by auto
  next
    fix p t assume "t \<in> set (queue s' (QSema (WaitSema p)))"
    then show "t = p" using qok_WaitSema [OF q] sub by blast
  next
    have "stat s 0 = None" using qok_NULL [OF q] .
    then show "stat s' 0 = None" using v(5) nz by (auto simp: Let_def)
  qed (use ds in auto)
qed

text \<open>One thread changes state and moves to the queue that goes with it.\<close>

definition placed :: "kern \<Rightarrow> tptr \<Rightarrow> thread_status \<Rightarrow> qname option \<Rightarrow> bool" where
  "placed s t st dest \<longleftrightarrow>
     (case dest of
        None \<Rightarrow> st = THREAD_DYING \<and> t = running s \<or> (st = THREAD_READY \<or> st = THREAD_BLOCKED) \<and> t = idle_thread s
      | Some q \<Rightarrow> st = (if q = QReady then THREAD_READY else THREAD_BLOCKED) \<and> t \<noteq> idle_thread s \<and>
                  (\<forall>p. q = QSema (WaitSema p) \<longrightarrow> t = p))"

lemma qok_move:
  assumes q: "qok r {} s" and t: "t \<noteq> 0" and st: "stat s' = (stat s)(t \<mapsto> st)" and pl: "placed s t st dest"
    and qs: "\<And>x. set (queue s' x) = (set (queue s x) - {t}) \<union> (if dest = Some x then {t} else {})"
    and ds: "\<And>x. distinct (queue s' x)"
    and same: "running s' = running s" "idle_thread s' = idle_thread s" "initial_thread s' = initial_thread s"
    and r': "r' = (r \<and> t \<noteq> running s)"
  shows "qok r' {} s'"
proof -
  have src: "u \<in> set (queue s x) \<and> u \<noteq> t \<or> u = t \<and> dest = Some x" if "u \<in> set (queue s' x)" for u x
    using that qs [of x] by (auto split: if_splits)
  have ready: "set (ready_list s') = (set (ready_list s) - {t}) \<union> (if dest = Some QReady then {t} else {})"
    using qs [of QReady] by simp
  have st': "stat s' u = Some y \<longleftrightarrow> (if u = t then y = st else stat s u = Some y)" for u y
    using st by auto
  show ?thesis unfolding qok_def
  proof (intro conjI allI impI)
    fix x y u assume "u \<in> set (queue s' x)" "u \<in> set (queue s' y)"
    then show "x = y" using src [of u x] src [of u y] qok_one [OF q, of u x y] by auto
  next
    fix x u assume u: "u \<in> set (queue s' x)"
    show "stat s' u = Some (if x = QReady then THREAD_READY else THREAD_BLOCKED)"
      using src [OF u] qok_stat [OF q, of u x] pl by (auto simp: st' placed_def)
    show "u \<noteq> idle_thread s'"
      using src [OF u] qok_not_idle [OF q, of u x] pl by (auto simp: placed_def same)
  next
    fix u assume u: "stat s' u = Some THREAD_RUNNING"
    then have "u \<noteq> t" using pl st' [of u THREAD_RUNNING] by (auto simp: placed_def split: option.splits if_splits)
    then have "stat s u = Some THREAD_RUNNING" using u st' by simp
    then show r' "u = running s'" using qok_RUNNING [OF q, of u] \<open>u \<noteq> t\<close> by (auto simp: r' same)
  next
    fix u assume u: "stat s' u = Some THREAD_READY"
    show "u \<in> set (ready_list s') \<or> u = idle_thread s'"
    proof (cases "u = t")
      case True
      then have "st = THREAD_READY" using u st' by simp
      then show ?thesis using pl True by (auto simp: placed_def ready same split: option.splits if_splits)
    next
      case False
      then show ?thesis using u st' qok_READY [OF q, of u] by (auto simp: ready same)
    qed
  next
    fix u assume u: "stat s' u = Some THREAD_BLOCKED"
    show "(\<exists>x. u \<in> set (queue s' x)) \<or> u = idle_thread s' \<or> u \<in> {}"
    proof (cases "u = t")
      case True
      then have "st = THREAD_BLOCKED" using u st' by simp
      then have "u = idle_thread s' \<or> (\<exists>x. dest = Some x)"
        using pl True by (auto simp: placed_def same split: option.splits)
      moreover have "u \<in> set (queue s' x)" if "dest = Some x" for x using qs [of x] that True by simp
      ultimately show ?thesis by blast
    next
      case False
      then have "(\<exists>x. u \<in> set (queue s x)) \<or> u = idle_thread s" using u st' qok_BLOCKED [OF q, of u] by auto
      moreover have "u \<in> set (queue s' x)" if "u \<in> set (queue s x)" for x using qs [of x] that False by simp
      ultimately show ?thesis using same by auto
    qed
  next
    fix u assume u: "stat s' u = Some THREAD_DYING"
    show "u = initial_thread s' \<or> \<not> r' \<and> u = running s'"
    proof (cases "u = t")
      case True
      then have "st = THREAD_DYING" using u st' by simp
      then show ?thesis using pl True by (auto simp: placed_def same r' split: option.splits if_splits)
    next
      case False
      then show ?thesis using u st' qok_DYING [OF q, of u] by (auto simp: same r')
    qed
  next
    assume r'
    then show "stat s' (running s') = Some THREAD_RUNNING"
      using qok_running [OF q] st' by (auto simp: same r')
  next
    fix p u assume "u \<in> set (queue s' (QSema (WaitSema p)))"
    then show "u = p" using src [of u "QSema (WaitSema p)"] qok_WaitSema [OF q, of u p] pl
      by (auto simp: placed_def)
  next
    show "stat s' 0 = None" using qok_NULL [OF q] st t by simp
  qed (use ds in auto)
qed

subsection \<open>What each operation changes\<close>

definition kframe :: "kern \<Rightarrow> kern \<Rightarrow> bool" where
  "kframe s s' \<longleftrightarrow> konts s' = konts s \<and> semas s' = semas s \<and> holders s' = holders s \<and>
     idle_thread s' = idle_thread s \<and> initial_thread s' = initial_thread s \<and> all_list s' = all_list s"

lemma kframe_trans: "kframe s s' \<Longrightarrow> kframe s' s'' \<Longrightarrow> kframe s s''"
  by (simp add: kframe_def)

lemma schedule_frame: "schedule s = Inr s' \<Longrightarrow> kframe s s'"
  by (drule schedule_Inr(1)) (auto simp: Let_def kframe_def)

definition eff :: "kern \<Rightarrow> kern \<Rightarrow> bool" where
  "eff s s' \<longleftrightarrow> qok True {} s' \<and> idle_thread s' = idle_thread s \<and> initial_thread s' = initial_thread s \<and>
     all_list s' = all_list s \<and> dom (stat s') = dom (stat s)"

lemma schedule_dom:
  assumes "schedule s = Inr s'" "stat s (running s) \<noteq> Some THREAD_DYING" "stat s (running s) \<noteq> None"
  shows "dom (stat s') = dom (stat s)"
proof -
  have "\<not> reaped s" using assms(2,3) status_stat by (auto simp: reaped_def)
  then show ?thesis using schedule_view(5) [OF assms(1)] schedule_Inr(4) [OF assms(1)]
    by (auto simp: Let_def is_thread_stat dom_def)
qed

lemma schedule_eff:
  assumes "schedule s1 = Inr s'" "qok False {} s1" "stat s1 (running s1) \<noteq> Some THREAD_DYING" "stat s1 (running s1) \<noteq> None"
    "idle_thread s1 = idle_thread s" "initial_thread s1 = initial_thread s" "all_list s1 = all_list s" "dom (stat s1) = dom (stat s)"
  shows "eff s s'"
  using schedule_qok [OF assms(2,1)] schedule_dom [OF assms(1,3,4)] schedule_frame [OF assms(1)] assms(5-8)
  by (simp add: eff_def kframe_def)

lemma thread_block_Inr:
  "thread_block s = Inr s' \<Longrightarrow>
     schedule (set_status (running s) THREAD_BLOCKED s) = Inr s' \<and> stat s (running s) = Some THREAD_RUNNING \<and> running s \<noteq> 0"
  by (auto simp: thread_block_def res_simps thread_current_Inr)

lemma thread_block_frame: "thread_block s = Inr s' \<Longrightarrow> kframe s s'"
  by (drule thread_block_Inr, elim conjE, drule schedule_frame) (simp add: kframe_def)

text \<open>The running thread, having queued itself, blocks.\<close>

lemma thread_block_eff:
  assumes q: "qok True {} s" and b: "thread_block s1 = Inr s'"
    and v: "stat s1 = stat s" "running s1 = running s" "idle_thread s1 = idle_thread s" "initial_thread s1 = initial_thread s"
    and pl: "placed s (running s) THREAD_BLOCKED dest"
    and qs: "\<And>x. set (queue s1 x) = set (queue s x) \<union> (if dest = Some x then {running s} else {})"
    and ds: "\<And>x. distinct (queue s1 x)" and al: "all_list s1 = all_list s"
  shows "eff s s'"
proof -
  note tb = thread_block_Inr [OF b]
  have nq: "running s \<notin> set (queue s x)" for x using qok_running_free [OF q] .
  have "qok False {} (set_status (running s) THREAD_BLOCKED s1)"
    by (rule qok_move [OF q, where t = "running s" and st = THREAD_BLOCKED and dest = dest])
       (use tb v pl qs ds nq in \<open>auto simp: fun_eq_iff\<close>)
  then show ?thesis
    by (rule schedule_eff [rotated]) (use tb v al in auto)
qed

lemma thread_yield_Inr:
  "thread_yield s = Inr s' \<Longrightarrow>
     (\<exists>rl. schedule (set_status (running s) THREAD_READY
             ((push_kont (running s) (KIntr (intr_on s)) (intr_disable s))\<lparr>ready_list := rl\<rparr>)) = Inr s' \<and>
        (rl = (if running s \<noteq> idle_thread s then ksort (sort_by_priority s) (ready_list s @ [running s]) else ready_list s))) \<and>
     stat s (running s) = Some THREAD_RUNNING \<and> running s \<noteq> 0 \<and> \<not> in_external_intr s"
proof -
  assume a: "thread_yield s = Inr s'"
  have e: "sort_by_priority (push_kont t k (intr_disable s)) = sort_by_priority s" for t k
    by (simp add: sort_by_priority_def fun_eq_iff thr_def)
  have i: "(push_kont t k (intr_disable s))\<lparr>ready_list := ready_list s\<rparr> = push_kont t k (intr_disable s)" for t k
    by (simp add: push_kont_def intr_disable_def)
  from a show ?thesis
    by (auto simp: thread_yield_def res_simps thread_current_Inr Let_def e i split: if_splits)
qed

lemma thread_yield_frame:
  assumes "thread_yield s = Inr s'"
  shows "konts s' = (konts s)(running s := KIntr (intr_on s) # konts s (running s))" "semas s' = semas s" "holders s' = holders s"
    "idle_thread s' = idle_thread s" "initial_thread s' = initial_thread s"
  using thread_yield_Inr [OF assms] schedule_frame
  by (auto simp: kframe_def push_kont_def intr_disable_def dest!: schedule_frame)

lemma thread_yield_eff:
  assumes q: "qok True {} s" and y: "thread_yield s = Inr s'"
  shows "eff s s'"
proof -
  obtain rl where sc: "schedule (set_status (running s) THREAD_READY
             ((push_kont (running s) (KIntr (intr_on s)) (intr_disable s))\<lparr>ready_list := rl\<rparr>)) = Inr s'"
    and rl: "rl = (if running s \<noteq> idle_thread s then ksort (sort_by_priority s) (ready_list s @ [running s]) else ready_list s)"
    and r: "stat s (running s) = Some THREAD_RUNNING" "running s \<noteq> 0"
    using thread_yield_Inr [OF y] by auto
  have nq: "running s \<notin> set (queue s x)" for x using qok_running_free [OF q] .
  have nr: "running s \<notin> set (ready_list s)" using nq [of QReady] by simp
  have "qok False {} (set_status (running s) THREAD_READY
             ((push_kont (running s) (KIntr (intr_on s)) (intr_disable s))\<lparr>ready_list := rl\<rparr>))"
    by (rule qok_move [OF q, where t = "running s" and st = THREAD_READY
          and dest = "if running s \<noteq> idle_thread s then Some QReady else None"])
       (use r rl nq nr qok_distinct [OF q] qok_distinct [OF q, of QReady] in \<open>auto simp: placed_def fun_eq_iff\<close>)
  then show ?thesis
    by (rule schedule_eff [rotated]) (use sc r in auto)
qed

lemma intr_set_level_Inr: "intr_set_level b s = Inr s' \<longleftrightarrow> s' = s\<lparr>intr_on := b\<rparr> \<and> (b \<longrightarrow> \<not> in_external_intr s)"
  by (auto simp: intr_set_level_def intr_enable_def intr_disable_def res_simps)

lemma thread_unblock_Inr:
  assumes "thread_unblock t s = Inr s'"
  shows "s' = set_status t THREAD_READY (s\<lparr>ready_list := ksort (sort_by_priority s) (ready_list s @ [t])\<rparr>)"
    and "stat s t = Some THREAD_BLOCKED" and "t \<noteq> 0"
proof -
  have e: "sort_by_priority (intr_disable s) = sort_by_priority s" "thr (intr_disable s) = thr s"
      "sort_by_priority (s\<lparr>intr_on := b\<rparr>) = sort_by_priority s" for b
    by (simp_all add: sort_by_priority_def fun_eq_iff thr_def)
  show "s' = set_status t THREAD_READY (s\<lparr>ready_list := ksort (sort_by_priority s) (ready_list s @ [t])\<rparr>)"
    using assms
    by (auto simp: thread_unblock_def res_simps Let_def intr_set_level_Inr e set_status_def upd_thread_def intr_disable_def)
  show "stat s t = Some THREAD_BLOCKED" "t \<noteq> 0"
    using assms by (auto simp: thread_unblock_def res_simps Let_def e is_thread_def stat_def thr_def)
qed

lemma thread_unblock_qok:
  assumes q: "qok r {} s" and u: "thread_unblock t s1 = Inr s'"
    and v: "stat s1 = stat s" "running s1 = running s" "idle_thread s1 = idle_thread s" "initial_thread s1 = initial_thread s"
    and qs: "\<And>x. set (queue s1 x) = set (queue s x) - {t}"
    and ds: "\<And>x. distinct (queue s1 x)" and ni: "t \<noteq> idle_thread s"
  shows "qok r {} s' \<and> dom (stat s') = dom (stat s)"
proof -
  note e = thread_unblock_Inr [OF u]
  have rl: "t \<notin> set (ready_list s1)" using qs [of QReady] by simp
  have nr: "r \<Longrightarrow> t \<noteq> running s" using qok_running [OF q] e(2) v(1) by auto
  have "qok r {} s'"
    by (rule qok_move [OF q, where t = t and st = THREAD_READY and dest = "Some QReady"])
       (use e v qs ds ni rl qs [of QReady] ds [of QReady] nr in \<open>auto simp: placed_def fun_eq_iff\<close>)
  moreover have "dom (stat s') = dom (stat s)" using e v(1) by (auto simp: dom_def)
  ultimately show ?thesis by blast
qed

definition svals :: "kern \<Rightarrow> sptr \<Rightarrow> nat option" where
  "svals s p = map_option sval (semas s p)"

lemma svals_simps [simp]:
  "svals (upd_sema p (\<lambda>se. se\<lparr>waiters := w se\<rparr>) s) = svals s"
  "svals (upd_sema p (\<lambda>se. se\<lparr>sval := v (sval se)\<rparr>) s) = (svals s)(p := map_option v (svals s p))"
  by (auto simp: svals_def upd_sema_def fun_eq_iff option.map_comp o_def)

lemma svals_upd_sema: "svals (upd_sema p f s) p' = (if p' = p then map_option (\<lambda>se. sval (f se)) (semas s p) else svals s p')"
  by (auto simp: svals_def upd_sema_def option.map_comp o_def)

lemma svals_cong: "semas s = semas s' \<Longrightarrow> svals s = svals s'"
  by (simp add: svals_def fun_eq_iff)

lemma queue_upd_waiters:
  "semas s p = Some se \<Longrightarrow> queue (upd_sema p (\<lambda>se. se\<lparr>waiters := w se\<rparr>) s) = (queue s)(QSema p := w se)"
  by (simp add: queue_upd_sema)

lemma sema_down_loop_effect:
  assumes q: "qok True {} s" and p: "semas s p \<noteq> None" and ni: "running s \<noteq> idle_thread s"
    and w: "\<And>u. p = WaitSema u \<Longrightarrow> u = running s" and d: "sema_down_loop p s = Inr s'"
  shows "eff s s' \<and> holders s' = holders s \<and>
    (if sval (sem s p) = 0 then konts s' = (konts s)(running s := KSema p # konts s (running s)) \<and> svals s' = svals s
     else konts s' = konts s \<and> svals s' = (svals s)(p \<mapsto> sval (sem s p) - 1))"
proof -
  obtain se where se: "semas s p = Some se" using p by blast
  show ?thesis
  proof (cases "sval (sem s p) = 0")
    case True
    let ?s1 = "push_kont (running s) (KSema p)
        (upd_sema p (\<lambda>se. se\<lparr>waiters := ksort (sort_by_priority s) (waiters se @ [running s])\<rparr>) s)"
    have b: "thread_block ?s1 = Inr s'"
      using d True by (auto simp: sema_down_loop_def res_simps thread_current_Inr)
    have qe: "queue ?s1 = (queue s)(QSema p := ksort (sort_by_priority s) (waiters se @ [running s]))"
      using queue_upd_waiters [OF se] by simp
    have ws: "waiters se = queue s (QSema p)" using se by simp
    have "eff s s'"
    proof (rule thread_block_eff [OF q b, where dest = "Some (QSema p)"])
      show "placed s (running s) THREAD_BLOCKED (Some (QSema p))" using ni w by (auto simp: placed_def)
      show "set (queue ?s1 x) = set (queue s x) \<union> (if Some (QSema p) = Some x then {running s} else {})" for x
        unfolding qe ws by auto
      show "distinct (queue ?s1 x)" for x
        unfolding qe ws using qok_distinct [OF q, of x] qok_distinct [OF q, of "QSema p"]
          qok_running_free [OF q, of "QSema p"] by (auto simp del: queue_at)
    qed simp_all
    then show ?thesis using thread_block_frame [OF b] True
      by (auto simp: kframe_def push_kont_def intro!: ext dest!: svals_cong)
  next
    case False
    let ?s1 = "upd_sema p (\<lambda>se. se\<lparr>sval := sval se - 1\<rparr>) s"
    have e: "s' = upd_thread (running s) (\<lambda>th. th\<lparr>lock_waiting_for := 0\<rparr>) ?s1"
      using d False by (auto simp: sema_down_loop_def res_simps thread_current_Inr Let_def)
    have "qview s' = qview s"
      unfolding e qview_def by (simp add: upd_thread_stat)
    then have "eff s s'" using qok_cong [of s' s] q e by (simp add: eff_def qview_def)
    moreover have "svals s' = (svals s)(p \<mapsto> sval (sem s p) - 1)"
      unfolding e using se by (auto simp: svals_def upd_thread_def upd_sema_def sem_def fun_eq_iff)
    ultimately show ?thesis using False e by simp
  qed
qed

lemma qok_push [simp]: "qok r X (push_kont t k s) = qok r X s"
  by (rule qok_cong) (simp add: qview_def)

lemma qok_intr [simp]: "qok r X (intr_disable s) = qok r X s" "qok r X (s\<lparr>intr_on := b\<rparr>) = qok r X s"
  by (rule qok_cong; simp add: qview_def)+

lemma qok_konts [simp]: "qok r X (s\<lparr>konts := k\<rparr>) = qok r X s"
  by (rule qok_cong) (simp add: qview_def)

lemma qok_holders [simp]: "qok r X (s\<lparr>holders := h\<rparr>) = qok r X s"
  by (rule qok_cong) (simp add: qview_def)

lemma qok_conds [simp]: "qok r X (s\<lparr>conds := h\<rparr>) = qok r X s"
  by (rule qok_cong) (simp add: qview_def)

lemma qok_ext [simp]: "qok r X (s\<lparr>in_external_intr := b\<rparr>) = qok r X s" "qok r X (s\<lparr>yield_on_return := b\<rparr>) = qok r X s"
  by (rule qok_cong; simp add: qview_def)+

lemma konts_push [simp]: "konts (push_kont t k s) = (konts s)(t := k # konts s t)"
  by (simp add: push_kont_def)

lemma svals_push [simp]: "svals (push_kont t k s) = svals s" "svals (intr_disable s) = svals s"
  "svals (set_status t st s) = svals s" "svals (upd_thread t f s) = svals s"
  by (rule svals_cong; simp)+

lemma sema_down_effect:
  assumes q: "qok True {} s" and ni: "running s \<noteq> idle_thread s"
    and w: "\<And>u. p = WaitSema u \<Longrightarrow> u = running s" and d: "sema_down p s = Inr s'"
  shows "eff s s' \<and> holders s' = holders s \<and>
    (if sval (sem s p) = 0
     then konts s' = (konts s)(running s := KSema p # KIntr (intr_on s) # konts s (running s)) \<and> svals s' = svals s
     else konts s' = (konts s)(running s := KIntr (intr_on s) # konts s (running s)) \<and>
          svals s' = (svals s)(p \<mapsto> sval (sem s p) - 1))"
proof -
  let ?s1 = "push_kont (running s) (KIntr (intr_on s)) (intr_disable s)"
  have "sema_down_loop p ?s1 = Inr s'" "semas ?s1 p \<noteq> None" using d by (auto simp: sema_down_def res_simps Let_def)
  then show ?thesis using sema_down_loop_effect [of ?s1 p s'] q ni w by (auto simp: sem_def eff_def split: if_splits)
qed

lemma sema_up_effect:
  assumes q: "qok True {} s" and u: "sema_up p s = Inr s'"
  shows "eff s s' \<and> holders s' = holders s \<and>
    svals s' = (svals s)(p \<mapsto> sz (Suc (sval (sem s p)))) \<and>
    (\<exists>bs. konts s' = (konts s)(running s := map KIntr bs @ KIntr (intr_on s) # konts s (running s)))"
proof -
  let ?s1 = "push_kont (running s) (KIntr (intr_on s)) (intr_disable s)"
  let ?ws = "ksort (sort_by_priority ?s1) (waiters (sem ?s1 p))"
  obtain se where se: "semas s p = Some se" using u by (auto simp: sema_up_def res_simps)
  obtain wp s2 where s2: "(case ?ws of [] \<Rightarrow> Inr (junk_wt ?s1, ?s1)
        | wt # rest \<Rightarrow> rbind (thread_unblock wt (upd_sema p (\<lambda>se. se\<lparr>waiters := rest\<rparr>) ?s1)) (\<lambda>s2. Inr (Some (priority (thr s2 wt)), s2)))
        = Inr (Some wp, s2)"
    and y: "(if wp > priority (thr (upd_sema p (\<lambda>se. se\<lparr>sval := sz (Suc (sval se))\<rparr>) s2) (running s2))
             then thread_yield (upd_sema p (\<lambda>se. se\<lparr>sval := sz (Suc (sval se))\<rparr>) s2)
             else Inr (upd_sema p (\<lambda>se. se\<lparr>sval := sz (Suc (sval se))\<rparr>) s2)) = Inr s'"
    using u by (auto simp: sema_up_def res_simps Let_def thread_current_Inr split: option.splits)
  let ?s3 = "upd_sema p (\<lambda>se. se\<lparr>sval := sz (Suc (sval se))\<rparr>) s2"
  have A: "eff s s2 \<and> holders s2 = holders s \<and> svals s2 = svals s \<and>
      konts s2 = konts ?s1 \<and> running s2 = running s \<and> intr_on s2 = False \<and> semas s2 p \<noteq> None"
  proof (cases ?ws)
    case Nil
    then have "s2 = ?s1" using s2 by simp
    show ?thesis unfolding \<open>s2 = ?s1\<close> using q se by (simp add: eff_def)
  next
    case (Cons wt rest)
    let ?s0 = "upd_sema p (\<lambda>se. se\<lparr>waiters := rest\<rparr>) ?s1"
    have ub: "thread_unblock wt ?s0 = Inr s2" using s2 Cons by (auto simp: res_simps)
    have w: "waiters se = queue s (QSema p)" using se by simp
    have sw: "set ?ws = set (queue s (QSema p))" "distinct ?ws"
      using se qok_distinct [OF q, of "QSema p"] by (simp_all add: sem_def)
    then have mem: "wt \<in> set (queue s (QSema p))" "set rest = set (queue s (QSema p)) - {wt}" "distinct rest"
      using Cons by auto
    have qe: "queue ?s0 = (queue s)(QSema p := rest)" using queue_upd_waiters [of ?s1 p se "\<lambda>_. rest"] se by simp
    have "qok True {} s2 \<and> dom (stat s2) = dom (stat s)"
    proof (rule thread_unblock_qok [OF q ub])
      show "set (queue ?s0 x) = set (queue s x) - {wt}" for x
        using mem(2) qok_one [OF q mem(1), of x] by (cases "x = QSema p") (auto simp: qe simp del: queue_at)
      show "distinct (queue ?s0 x)" for x
        unfolding qe using mem(3) qok_distinct [OF q, of x] by (auto simp del: queue_at)
      show "wt \<noteq> idle_thread s" using qok_not_idle [OF q mem(1)] .
    qed simp_all
    moreover have "s2 = set_status wt THREAD_READY (?s0\<lparr>ready_list := ksort (sort_by_priority ?s0) (ready_list ?s0 @ [wt])\<rparr>)"
      using thread_unblock_Inr(1) [OF ub] .
    ultimately show ?thesis using se by (auto simp: eff_def upd_sema_def svals_def fun_eq_iff push_kont_def set_status_def upd_thread_def intr_disable_def)
  qed
  have v3: "qview ?s3 = qview s2" by (simp add: qview_def)
  then have q3: "eff s ?s3" "qok True {} ?s3" using A qok_cong [of ?s3 s2] by (simp_all add: eff_def qview_def)
  have sv: "svals ?s3 = (svals s)(p \<mapsto> sz (Suc (sval (sem s p))))"
  proof -
    have "svals s p = Some (sval (sem s p))" using se by (simp add: svals_def sem_def)
    then show ?thesis using A svals_simps(2) [of p "\<lambda>n. sz (Suc n)" s2] by simp
  qed
  show ?thesis
  proof (cases "wp > priority (thr ?s3 (running s2))")
    case True
    then have ty: "thread_yield ?s3 = Inr s'" using y by simp
    have k: "konts s' = (konts s)(running s := map KIntr [False] @ KIntr (intr_on s) # konts s (running s))"
      using thread_yield_frame(1) [OF ty] A by simp
    have "svals s' = svals ?s3" using thread_yield_frame(2) [OF ty] by (rule svals_cong)
    then have "holders s' = holders s \<and> svals s' = (svals s)(p \<mapsto> sz (Suc (sval (sem s p))))"
      using thread_yield_frame(3) [OF ty] A sv by simp
    moreover have "eff s s'" using thread_yield_eff [OF q3(2) ty] q3(1) by (simp add: eff_def)
    ultimately show ?thesis using k by blast
  next
    case False
    then have e: "s' = ?s3" using y by simp
    have "konts ?s3 = (konts s)(running s := map KIntr [] @ KIntr (intr_on s) # konts s (running s))"
      "holders ?s3 = holders s"
      using A by simp_all
    then show ?thesis unfolding e using q3 sv by blast
  qed
qed

subsection \<open>Donation and restoration touch thread structures only\<close>

definition tframe :: "kern \<Rightarrow> kern \<Rightarrow> bool" where
  "tframe s s' \<longleftrightarrow> s' = s\<lparr>threads := threads s'\<rparr> \<and> stat s' = stat s"

lemma tframe_refl [simp]: "tframe s s"
  by (simp add: tframe_def)

lemma tframe_trans: "tframe s s' \<Longrightarrow> tframe s' s'' \<Longrightarrow> tframe s s''"
proof -
  assume a: "tframe s s'" "tframe s' s''"
  then have "s'' = s\<lparr>threads := threads s'\<rparr>\<lparr>threads := threads s''\<rparr>" unfolding tframe_def by metis
  then show ?thesis using a by (simp add: tframe_def)
qed

lemma tframe_upd: "(\<And>th. status (f th) = status th) \<Longrightarrow> tframe s (upd_thread t f s)"
  by (simp add: tframe_def upd_thread_stat) (simp add: upd_thread_def)

lemma tframe_upd_after: "tframe s s1 \<Longrightarrow> (\<And>th. status (f th) = status th) \<Longrightarrow> tframe s (upd_thread t f s1)"
  by (rule tframe_trans [OF _ tframe_upd])

lemma tframe_sel:
  assumes "tframe s s'"
  shows "konts s' = konts s" "semas s' = semas s" "holders s' = holders s" "running s' = running s"
    "idle_thread s' = idle_thread s" "initial_thread s' = initial_thread s" "all_list s' = all_list s"
    "ready_list s' = ready_list s" "waiting_list s' = waiting_list s" "intr_on s' = intr_on s"
    "in_external_intr s' = in_external_intr s" "conds s' = conds s" "queue s' = queue s" "stat s' = stat s"
proof -
  obtain T where T: "s' = s\<lparr>threads := T\<rparr>" using assms unfolding tframe_def by blast
  show "konts s' = konts s" "semas s' = semas s" "holders s' = holders s" "running s' = running s"
    "idle_thread s' = idle_thread s" "initial_thread s' = initial_thread s" "all_list s' = all_list s"
    "ready_list s' = ready_list s" "waiting_list s' = waiting_list s" "intr_on s' = intr_on s"
    "in_external_intr s' = in_external_intr s" "conds s' = conds s" "queue s' = queue s"
    by (auto simp: T queue_def fun_eq_iff split: qname.splits)
  show "stat s' = stat s" using assms unfolding tframe_def by blast
qed

lemma tframe_qok: "tframe s s' \<Longrightarrow> qok r X s' = qok r X s"
  by (rule qok_cong) (simp add: qview_def tframe_sel)

lemma priority_donation_frame: "priority_donation n l s = Inr s' \<Longrightarrow> tframe s s'"
proof (induction n arbitrary: l s)
  case (Suc n)
  let ?lh = "holders s l"
  define s1 where "s1 = (if donation_nested_level (thr s ?lh) = 0
       then upd_thread ?lh (\<lambda>th. th\<lparr>orig_priority := priority th\<rparr>) s else s)"
  define s2 where "s2 = (if l \<notin> set (lock_list (thr s1 ?lh))
       then upd_thread ?lh (\<lambda>th. th\<lparr>donation_nested_level := donation_nested_level th + 1, lock_list := lock_list th @ [l]\<rparr>) s1 else s1)"
  define s3 where "s3 = upd_thread ?lh (\<lambda>th. th\<lparr>priority := priority (thr s (running s))\<rparr>) s2"
  have f: "tframe s s3"
    unfolding s3_def s2_def s1_def by (auto intro!: tframe_upd_after)
  have "s' = s \<or> s' = s3 \<or> (\<exists>l'. priority_donation n l' s3 = Inr s')"
    using Suc.prems by (auto simp: Let_def res_simps thread_current_Inr s1_def [symmetric] s2_def [symmetric] s3_def [symmetric] split: if_splits)
  then show ?case using Suc.IH f tframe_trans by auto
qed simp

lemma priority_restoration_frame: "priority_restoration l s = Inr (p, s') \<Longrightarrow> tframe s s'"
  by (auto simp: priority_restoration_def res_simps thread_current_Inr Let_def split: if_splits
      intro!: tframe_upd_after)

subsection \<open>The invariant of the thread system\<close>

text \<open>The shape of what a thread may have left to do.\<close>

fun kwf :: "tptr \<Rightarrow> tptr \<Rightarrow> kont list \<Rightarrow> bool" where
  "kwf idle t [] = True"
| "kwf idle t (KIntr b # ks) = kwf idle t ks"
| "kwf idle t (KSema p # ks) = (case p of
      Sema n \<Rightarrow> \<exists>b. ks = [KIntr b]
    | SemaOf l \<Rightarrow> \<exists>b. ks = [KIntr b, KHold l]
    | WaitSema u \<Rightarrow> u = t \<and> (\<exists>b l. ks = [KIntr b, KAcquire l]))"
| "kwf idle t (KDown p # ks) = (p = WaitSema t \<and> (\<exists>l. ks = [KAcquire l]))"
| "kwf idle t (KHold l # ks) = (ks = [])"
| "kwf idle t (KAcquire l # ks) = (ks = [])"
| "kwf idle t (KBroadcast c l # ks) = (ks = [])"
| "kwf idle t (KStart # ks) = (ks = [])"
| "kwf idle t (KIdleInit p # ks) = False"
| "kwf idle t (KIdleBlock # ks) = (ks = [] \<and> t = idle)"
| "kwf idle t (KIdleWake # ks) = (ks = [] \<and> t = idle)"

fun idle_konts :: "kont list \<Rightarrow> bool" where
  "idle_konts (KIntr b # ks) = idle_konts ks"
| "idle_konts (KIdleBlock # ks) = True"
| "idle_konts (KIdleWake # ks) = True"
| "idle_konts _ = False"

text \<open>A thread that has got the lock's semaphore but has not yet recorded itself as holder.\<close>

fun pend :: "kont list \<Rightarrow> lptr \<Rightarrow> bool" where
  "pend (KIntr b # ks) l = pend ks l"
| "pend (KHold l' # ks) l = (l = l')"
| "pend _ l = False"

definition lock_ok :: "(sptr \<Rightarrow> nat option) \<Rightarrow> (lptr \<Rightarrow> tptr) \<Rightarrow> (tptr \<Rightarrow> kont list) \<Rightarrow> lptr \<Rightarrow> bool" where
  "lock_ok sv h ks l \<longleftrightarrow>
     (case sv (SemaOf l) of
        None \<Rightarrow> h l = 0 \<and> (\<forall>t. \<not> pend (ks t) l)
      | Some v \<Rightarrow>
          v = 1 \<and> h l = 0 \<and> (\<forall>t. \<not> pend (ks t) l) \<or>
          v = 0 \<and> h l \<noteq> 0 \<and> (\<forall>t. \<not> pend (ks t) l) \<or>
          v = 0 \<and> h l = 0 \<and> (\<exists>t. pend (ks t) l \<and> (\<forall>t'. pend (ks t') l \<longrightarrow> t' = t)))"

definition konts_ok :: "kern \<Rightarrow> bool" where
  "konts_ok s \<longleftrightarrow>
     (\<forall>t. kwf (idle_thread s) t (konts s t)) \<and>
     (idle_thread s \<noteq> 0 \<longrightarrow> idle_konts (konts s (idle_thread s))) \<and>
     (\<forall>t p. KSema p \<in> set (konts s t) \<longrightarrow> svals s p \<noteq> None) \<and>
     (\<forall>t. stat s t = None \<longrightarrow> konts s t = [])"

definition kinv :: "kern \<Rightarrow> bool" where
  "kinv s \<longleftrightarrow> qok True {} s \<and> konts_ok s \<and> (\<forall>l. lock_ok (svals s) (holders s) (konts s) l) \<and>
     dom (stat s) \<subseteq> insert (initial_thread s) (set (all_list s))"

lemma pend_map_KIntr [simp]: "pend (map KIntr bs @ ks) l = pend ks l"
  by (induction bs) auto

lemma kwf_map_KIntr [simp]: "kwf i t (map KIntr bs @ ks) = kwf i t ks"
  by (induction bs) auto

lemma idle_map_KIntr [simp]: "idle_konts (map KIntr bs @ ks) = idle_konts ks"
  by (induction bs) auto

lemma kinvI:
  assumes k: "kinv s" and e: "eff s s'" and ks: "konts s' = (konts s)(t := ks)"
    and w: "kwf (idle_thread s) t ks" and i: "t = idle_thread s \<Longrightarrow> idle_konts ks"
    and d: "\<And>p. KSema p \<in> set ks \<Longrightarrow> svals s' p \<noteq> None" and g: "\<And>p. svals s p \<noteq> None \<Longrightarrow> svals s' p \<noteq> None"
    and l: "stat s t \<noteq> None" and lo: "\<And>l. lock_ok (svals s') (holders s') (konts s') l"
  shows "kinv s'"
proof -
  have ko: "konts_ok s" and q: "qok True {} s'" using k e by (simp_all add: kinv_def eff_def)
  have dm: "stat s' u = None \<longleftrightarrow> stat s u = None" for u
    using e unfolding eff_def by (metis domIff)
  have "konts_ok s'"
    unfolding konts_ok_def
  proof (intro conjI allI impI)
    fix u show "kwf (idle_thread s') u (konts s' u)"
      using ko e w ks by (simp add: konts_ok_def eff_def)
  next
    assume "idle_thread s' \<noteq> 0"
    then show "idle_konts (konts s' (idle_thread s'))"
      using ko e i ks by (auto simp: konts_ok_def eff_def)
  next
    fix u p assume "KSema p \<in> set (konts s' u)"
    then show "svals s' p \<noteq> None" using ko d g ks by (auto simp: konts_ok_def split: if_splits)
  next
    fix u assume "stat s' u = None"
    then show "konts s' u = []" using ko l ks dm by (auto simp: konts_ok_def)
  qed
  then show ?thesis using k e lo q by (simp add: kinv_def eff_def)
qed

lemma lock_ok_same:
  assumes "lock_ok sv h ks l" "sv' (SemaOf l) = sv (SemaOf l)" "h' l = h l" "\<And>t. pend (ks' t) l = pend (ks t) l"
  shows "lock_ok sv' h' ks' l"
  using assms(1) unfolding lock_ok_def assms(2-4) .

lemma running_alive: "qok True {} s \<Longrightarrow> stat s (running s) \<noteq> None \<and> running s \<noteq> 0"
  using qok_running [of True "{}" s] qok_NULL [of True "{}" s] by (cases "running s = 0") auto

text \<open>Operations that only push interrupt levels.\<close>

lemma kinv_push_intr:
  assumes k: "kinv s" and e: "eff s s'" and ks: "konts s' = (konts s)(running s := map KIntr bs @ konts s (running s))"
    and sv: "\<And>p. svals s p \<noteq> None \<Longrightarrow> svals s' p \<noteq> None" "\<And>l. svals s' (SemaOf l) = svals s (SemaOf l)"
    and h: "holders s' = holders s"
  shows "kinv s'"
proof -
  have ko: "konts_ok s" "qok True {} s" using k by (simp_all add: kinv_def)
  show ?thesis
  proof (rule kinvI [OF k e ks])
    show "stat s (running s) \<noteq> None" using running_alive ko(2) by blast
    show "lock_ok (svals s') (holders s') (konts s') l" for l
      by (rule lock_ok_same [of "svals s" "holders s" "konts s"]) (use k sv h ks in \<open>auto simp: kinv_def\<close>)
    show "KSema p \<in> set (map KIntr bs @ konts s (running s)) \<Longrightarrow> svals s' p \<noteq> None" for p
      using ko sv(1) by (auto simp: konts_ok_def)
  qed (use ko running_alive [OF ko(2)] sv in \<open>auto simp: konts_ok_def\<close>)
qed

subsection \<open>Every operation keeps the invariant\<close>

lemma kinvD:
  assumes "kinv s"
  shows kinv_qok: "qok True {} s" and kinv_kwf: "kwf (idle_thread s) t (konts s t)"
    and kinv_idle: "idle_thread s \<noteq> 0 \<Longrightarrow> idle_konts (konts s (idle_thread s))"
    and kinv_KSema: "KSema p \<in> set (konts s t) \<Longrightarrow> svals s p \<noteq> None"
    and kinv_dead: "stat s t = None \<Longrightarrow> konts s t = []"
    and kinv_lock: "lock_ok (svals s) (holders s) (konts s) l"
    and kinv_live: "dom (stat s) \<subseteq> insert (initial_thread s) (set (all_list s))"
    and kinv_not_idle: "\<not> idle_konts (konts s (running s)) \<Longrightarrow> running s \<noteq> idle_thread s"
    and kinv_run: "stat s (running s) = Some THREAD_RUNNING" "running s \<noteq> 0"
  using assms running_alive [of s] qok_running [of True "{}" s]
  by (auto simp: kinv_def konts_ok_def)

lemma lock_take:
  assumes "lock_ok sv h ks l" "sv (SemaOf l) = Some v" "v \<noteq> 0"
  shows "v = 1" "h l = 0" "\<not> pend (ks t) l"
  using assms by (auto simp: lock_ok_def)

lemma sem_svals: "svals s p = Some v \<Longrightarrow> sval (sem s p) = v" "svals s p \<noteq> None \<longleftrightarrow> semas s p \<noteq> None"
  by (auto simp: svals_def sem_def)

lemma svals_obtain: "svals s p \<noteq> None \<Longrightarrow> \<exists>v. svals s p = Some v \<and> sval (sem s p) = v"
  by (auto simp: svals_def sem_def)

lemma sema_down_Sema_kinv:
  assumes k: "kinv s" and c: "konts s (running s) = []" and d: "sema_down (Sema n) s = Inr s'"
  shows "kinv s'"
proof -
  have ni: "running s \<noteq> idle_thread s" using kinv_not_idle [OF k] c by simp
  have sp: "svals s (Sema n) \<noteq> None" using d unfolding sem_svals by (auto simp: sema_down_def res_simps)
  note e = sema_down_effect [OF kinv_qok [OF k] ni _ d, simplified]
  let ?ks = "konts s' (running s)"
  show ?thesis
  proof (rule kinvI [OF k, of s' "running s" ?ks])
    show "lock_ok (svals s') (holders s') (konts s') l" for l
      by (rule lock_ok_same [OF kinv_lock [OF k]]) (use e c in \<open>auto split: if_splits\<close>)
  qed (use e c sp ni kinv_run [OF k] in \<open>auto split: if_splits\<close>)
qed

lemma sema_up_kinv:
  assumes k: "kinv s" and u: "sema_up p s = Inr s'" and p: "\<And>l. p \<noteq> SemaOf l"
  shows "kinv s'"
proof -
  note e = sema_up_effect [OF kinv_qok [OF k] u]
  then obtain bs where "konts s' = (konts s)(running s := map KIntr (bs @ [intr_on s]) @ konts s (running s))" by auto
  with _ show ?thesis by (rule kinv_push_intr [OF k]) (use e p in auto)
qed

lemma thread_yield_kinv:
  assumes k: "kinv s" and y: "thread_yield s = Inr s'"
  shows "kinv s'"
proof (rule kinv_push_intr [OF k thread_yield_eff [OF kinv_qok [OF k] y], where bs = "[intr_on s]"])
  show "konts s' = (konts s)(running s := map KIntr [intr_on s] @ konts s (running s))"
    using thread_yield_frame [OF y] by simp
qed (use thread_yield_frame [OF y] in \<open>auto simp: svals_def\<close>)

lemma eff_tframe: "tframe s s' \<Longrightarrow> qok True {} s \<Longrightarrow> eff s s'"
  by (simp add: eff_def tframe_sel tframe_qok)

lemma kinv_tframe: "kinv s \<Longrightarrow> tframe s s' \<Longrightarrow> kinv s'"
  using tframe_sel [of s s'] tframe_qok [of s s'] svals_cong [of s' s] by (simp add: kinv_def konts_ok_def)

lemma thread_set_priority_kinv:
  assumes k: "kinv s" and p: "thread_set_priority pr s = Inr s'"
  shows "kinv s'"
proof -
  let ?s1 = "if donation_nested_level (thr s (running s)) = 0
     then upd_thread (running s) (\<lambda>th. th\<lparr>priority := pr\<rparr>) s else s"
  let ?s2 = "upd_thread (running s) (\<lambda>th. th\<lparr>orig_priority := pr\<rparr>) ?s1"
  have "tframe s ?s2" by (auto intro!: tframe_upd_after)
  then have k2: "kinv ?s2" using k kinv_tframe by blast
  have "s' = ?s2 \<or> thread_yield ?s2 = Inr s'"
    using p by (auto simp: thread_set_priority_def res_simps thread_current_Inr Let_def split: if_splits)
  then show ?thesis using k2 thread_yield_kinv by blast
qed

lemma sema_try_down_Inr:
  assumes "sema_try_down p s = Inr (b, s')"
  shows "s' = (if 0 < sval (sem s p) then upd_sema p (\<lambda>se. se\<lparr>sval := sval se - 1\<rparr>) s else s)"
    "b = (0 < sval (sem s p))" "semas s p \<noteq> None"
proof -
  have i: "(upd_sema p f (intr_disable s))\<lparr>intr_on := intr_on s\<rparr> = upd_sema p f s" for f
    by (simp add: upd_sema_def intr_disable_def)
  have j: "(intr_disable s)\<lparr>intr_on := intr_on s\<rparr> = s" by (simp add: intr_disable_def)
  show "s' = (if 0 < sval (sem s p) then upd_sema p (\<lambda>se. se\<lparr>sval := sval se - 1\<rparr>) s else s)"
    "b = (0 < sval (sem s p))" "semas s p \<noteq> None"
    using assms by (auto simp: sema_try_down_def res_simps Let_def sem_def intr_set_level_Inr i j split: if_splits)
qed

lemma eff_upd_sval: "qok True {} s \<Longrightarrow> eff s (upd_sema p (\<lambda>se. se\<lparr>sval := f se\<rparr>) s)"
  using qok_cong [of "upd_sema p (\<lambda>se. se\<lparr>sval := f se\<rparr>) s" s True "{}"] by (simp add: eff_def qview_def)

lemma sema_try_down_kinv:
  assumes k: "kinv s" and d: "sema_try_down (Sema n) s = Inr (b, s')"
  shows "kinv s'"
proof (cases "0 < sval (sem s (Sema n))")
  case True
  then have e: "s' = upd_sema (Sema n) (\<lambda>se. se\<lparr>sval := (\<lambda>v. v - 1) (sval se)\<rparr>) s" using sema_try_down_Inr(1) [OF d] by simp
  have "eff s s'" unfolding e by (rule eff_upd_sval [OF kinv_qok [OF k]])
  then show ?thesis
    by (rule kinv_push_intr [OF k, where bs = "[]"]) (auto simp: e upd_sema_def svals_def)
qed (use sema_try_down_Inr(1) [OF d] k in simp)


subsubsection \<open>Locks\<close>

lemma lock_acquire_effect:
  assumes k: "kinv s" and ni: "running s \<noteq> idle_thread s" and a: "lock_acquire l s = Inr s'"
  shows "eff s s' \<and> holders s' = holders s \<and> svals s (SemaOf l) \<noteq> None \<and>
    (if sval (sem s (SemaOf l)) = 0
     then konts s' = (konts s)(running s := KSema (SemaOf l) # KIntr (intr_on s) # KHold l # konts s (running s)) \<and> svals s' = svals s
     else konts s' = (konts s)(running s := KIntr (intr_on s) # KHold l # konts s (running s)) \<and>
          svals s' = (svals s)(SemaOf l \<mapsto> sval (sem s (SemaOf l)) - 1))"
proof -
  obtain s1 where s1: "priority_donation (length (all_list s) + 2) l s = Inr s1"
    and d: "sema_down (SemaOf l) (push_kont (running s1) (KHold l) (upd_thread (running s1) (\<lambda>th. th\<lparr>lock_waiting_for := l\<rparr>) s1)) = Inr s'"
    using a by (auto simp: lock_acquire_def res_simps thread_current_Inr Let_def simp del: priority_donation.simps)
  let ?s2 = "upd_thread (running s1) (\<lambda>th. th\<lparr>lock_waiting_for := l\<rparr>) s1"
  have "tframe s s1" using priority_donation_frame [OF s1] .
  then have f: "tframe s ?s2" by (rule tframe_upd_after) simp
  note fs = tframe_sel [OF f]
  have sv: "svals ?s2 = svals s" "sem ?s2 = sem s" using fs(2) by (simp_all add: svals_def sem_def fun_eq_iff)
  have q2: "qok True {} ?s2" using tframe_qok [OF f] kinv_qok [OF k] by simp
  have sp: "svals s (SemaOf l) \<noteq> None" using d fs(2) unfolding sem_svals by (auto simp: sema_down_def res_simps)
  have r: "running ?s2 = running s1" by simp
  let ?s3 = "push_kont (running s1) (KHold l) ?s2"
  have q3: "qok True {} ?s3" "running ?s3 \<noteq> idle_thread ?s3" using q2 ni fs by simp_all
  have r1: "running s1 = running s" using fs(4) by simp
  have sm: "sem ?s3 = sem s" "svals ?s3 = svals s" using sv by (simp_all add: sem_def fun_eq_iff)
  have kk: "konts ?s3 = (konts s)(running s := KHold l # konts s (running s))" "holders ?s3 = holders s"
    "intr_on ?s3 = intr_on s" "running ?s3 = running s" using fs r1 by simp_all
  have ef: "eff ?s3 s' \<Longrightarrow> eff s s'" using fs by (simp add: eff_def)
  show ?thesis using sema_down_effect [OF q3 _ d] ef sp unfolding sm kk by (auto split: if_splits)
qed

lemma lock_ok_other:
  assumes "lock_ok sv h ks m" "m \<noteq> l" "sv' (SemaOf m) = sv (SemaOf m)" "h' m = h m"
    "\<And>t. pend (ks' t) m \<longleftrightarrow> pend (ks t) m"
  shows "lock_ok sv' h' ks' m"
  using lock_ok_same assms by metis

lemma lock_acquire_kinv:
  assumes k: "kinv s" and c: "konts s (running s) = []" and a: "lock_acquire l s = Inr s'"
  shows "kinv s'"
proof -
  have ni: "running s \<noteq> idle_thread s" using kinv_not_idle [OF k] c by simp
  note e = lock_acquire_effect [OF k ni a]
  obtain v where v: "svals s (SemaOf l) = Some v" "sval (sem s (SemaOf l)) = v" using e svals_obtain by blast
  let ?ks = "konts s' (running s)"
  show ?thesis
  proof (rule kinvI [OF k, of s' "running s" ?ks])
    fix m show "lock_ok (svals s') (holders s') (konts s') m"
    proof (cases "m = l \<and> v \<noteq> 0")
      case False
      show ?thesis
        by (rule lock_ok_same [OF kinv_lock [OF k]]) (use e c v False in \<open>auto split: if_splits\<close>)
    next
      case True
      then have t: "v = 1" "holders s l = 0" "\<And>t. \<not> pend (konts s t) l"
        using lock_take [OF kinv_lock [OF k] v(1)] by auto
      show ?thesis using e c v True t by (auto simp: lock_ok_def)
    qed
  qed (use e c v ni kinv_run [OF k] in \<open>auto split: if_splits\<close>)
qed

lemma lock_try_acquire_kinv:
  assumes k: "kinv s" and a: "lock_try_acquire l s = Inr (b, s')"
  shows "kinv s'"
proof -
  obtain b1 s1 where s1: "sema_try_down (SemaOf l) s = Inr (b1, s1)"
    and r: "if b1 then s' = s1\<lparr>holders := (holders s1)(l := running s1)\<rparr> else s' = s1"
    using a by (auto simp: lock_try_acquire_def res_simps thread_current_Inr split: if_splits)
  note d = sema_try_down_Inr [OF s1]
  show ?thesis
  proof (cases b1)
    case True
    then have pos: "0 < sval (sem s (SemaOf l))" using d by simp
    obtain v where v: "svals s (SemaOf l) = Some v" "sval (sem s (SemaOf l)) = v" "v \<noteq> 0"
      using d(3) pos by (auto simp: svals_def sem_def)
    note t = lock_take [OF kinv_lock [OF k] v(1,3)]
    have e1: "s1 = upd_sema (SemaOf l) (\<lambda>se. se\<lparr>sval := sval se - 1\<rparr>) s" using d pos by simp
    have e: "s' = s1\<lparr>holders := (holders s)(l := running s)\<rparr>" using r True e1 by simp
    have ef: "eff s s'" using eff_upd_sval [OF kinv_qok [OF k], of "SemaOf l"] unfolding e e1 by (simp add: eff_def)
    have sv: "svals s' = (svals s)(SemaOf l \<mapsto> v - 1)"
    proof -
      have "svals s' = svals s1" unfolding e by (simp add: svals_def fun_eq_iff)
      moreover have "map_option (\<lambda>se. sval se - 1) (semas s (SemaOf l)) = Some (v - 1)"
        using v(1) by (auto simp: svals_def)
      ultimately show ?thesis by (intro ext) (simp add: e1 svals_upd_sema)
    qed
    have hk: "holders s' = (holders s)(l := running s)" "konts s' = konts s" unfolding e e1 by simp_all
    show ?thesis
    proof (rule kinvI [OF k ef, of "running s" "konts s (running s)"])
      fix m show "lock_ok (svals s') (holders s') (konts s') m"
      proof (cases "m = l")
        case False
        then show ?thesis by (intro lock_ok_same [OF kinv_lock [OF k]]) (auto simp: sv hk)
      next
        case True
        then show ?thesis using t kinv_run [OF k] by (simp add: lock_ok_def sv hk)
      qed
    qed (use kinv_kwf [OF k] kinv_idle [OF k] kinv_KSema [OF k] kinv_run [OF k] sv hk in auto)
  next
    case False
    then show ?thesis using r d k by simp
  qed
qed

lemma lock_release_effect:
  assumes q: "qok True {} s" and a: "lock_release l s = Inr s'"
  shows "eff s s' \<and> holders s' = (holders s)(l := 0) \<and> holders s l = running s \<and>
    svals s (SemaOf l) \<noteq> None \<and> svals s' = (svals s)(SemaOf l \<mapsto> sz (Suc (sval (sem s (SemaOf l))))) \<and>
    (\<exists>bs. konts s' = (konts s)(running s := map KIntr bs @ konts s (running s)))"
proof -
  obtain pr s1 where s1: "priority_restoration l s = Inr (pr, s1)" and h: "holders s l = running s"
    and u: "sema_up (SemaOf l) (if 0 \<le> pr then upd_thread (running s1) (\<lambda>th. th\<lparr>priority := pr\<rparr>) (s1\<lparr>holders := (holders s1)(l := 0)\<rparr>)
              else s1\<lparr>holders := (holders s1)(l := 0)\<rparr>) = Inr s'"
    using a by (auto simp: lock_release_def lock_held_by_current_thread_def res_simps thread_current_Inr Let_def split: if_splits)
  let ?s2 = "s1\<lparr>holders := (holders s1)(l := 0)\<rparr>"
  let ?s3 = "if 0 \<le> pr then upd_thread (running s1) (\<lambda>th. th\<lparr>priority := pr\<rparr>) ?s2 else ?s2"
  note fs = tframe_sel [OF priority_restoration_frame [OF s1]]
  have f3: "tframe ?s2 ?s3" by (auto intro!: tframe_upd_after)
  note fs3 = tframe_sel [OF f3]
  have q3: "qok True {} ?s3" using tframe_qok [OF f3] tframe_qok [OF priority_restoration_frame [OF s1]] q by simp
  have sv: "svals ?s3 = svals s" "sem ?s3 = sem s" using fs(2) fs3(2) by (simp_all add: svals_def sem_def fun_eq_iff)
  note e = sema_up_effect [OF q3 u]
  have sp: "svals s (SemaOf l) \<noteq> None" using u fs(2) unfolding sem_svals by (auto simp: sema_up_def res_simps split: if_splits)
  have ef: "eff s s'" using e fs fs3 by (simp add: eff_def)
  have hs: "holders ?s3 = (holders s)(l := 0)" using fs fs3 by simp
  obtain bs where "konts s' = (konts ?s3)(running ?s3 := map KIntr bs @ KIntr (intr_on ?s3) # konts ?s3 (running ?s3))"
    using e by blast
  then have "konts s' = (konts s)(running s := map KIntr (bs @ [intr_on s]) @ konts s (running s))"
    using fs fs3 by simp
  then show ?thesis using e ef h hs sp sv by metis
qed

lemma lock_release_lock_ok:
  assumes k: "lock_ok (svals s) (holders s) (konts s) m" and r: "running s \<noteq> 0"
    and e: "holders s' = (holders s)(l := 0)" "holders s l = running s" "svals s (SemaOf l) \<noteq> None"
      "svals s' = (svals s)(SemaOf l \<mapsto> sz (Suc (sval (sem s (SemaOf l)))))"
    and p: "\<And>t m. pend (konts s' t) m = pend (konts s t) m"
  shows "lock_ok (svals s') (holders s') (konts s') m"
proof (cases "m = l")
  case False
  then show ?thesis by (intro lock_ok_same [OF k]) (auto simp: e p)
next
  case True
  obtain v where v: "svals s (SemaOf l) = Some v" "sval (sem s (SemaOf l)) = v" using e(3) svals_obtain by blast
  have "v = 0" "\<And>t. \<not> pend (konts s t) l"
    using k True v e(2) r by (auto simp: lock_ok_def)
  then show ?thesis using True v e p by (simp add: lock_ok_def sz_def)
qed

lemma lock_release_kinv:
  assumes k: "kinv s" and a: "lock_release l s = Inr s'"
  shows "kinv s'"
proof -
  note e = lock_release_effect [OF kinv_qok [OF k] a]
  then obtain bs where ks: "konts s' = (konts s)(running s := map KIntr bs @ konts s (running s))" by blast
  have p: "pend (konts s' t) m = pend (konts s t) m" for t m using ks by simp
  show ?thesis
  proof (rule kinvI [OF k _ ks])
    show "lock_ok (svals s') (holders s') (konts s') m" for m
      by (rule lock_release_lock_ok [OF kinv_lock [OF k] kinv_run(2) [OF k]]) (use e p in auto)
  qed (use e kinv_kwf [OF k] kinv_idle [OF k] kinv_KSema [OF k] kinv_run [OF k] in auto)
qed


subsubsection \<open>Condition variables\<close>

lemma stat_cong: "threads s = threads s' \<Longrightarrow> stat s = stat s'"
  by (simp add: stat_def fun_eq_iff)

lemma queue_cong: "ready_list s = ready_list s' \<Longrightarrow> waiting_list s = waiting_list s' \<Longrightarrow> semas s = semas s' \<Longrightarrow> queue s = queue s'"
  by (rule ext) (simp add: queue_def split: qname.split)

lemma kinv_cong:
  assumes "stat s' = stat s" "queue s' = queue s" "running s' = running s" "idle_thread s' = idle_thread s"
    "initial_thread s' = initial_thread s" "konts s' = konts s" "semas s' = semas s" "holders s' = holders s" "all_list s' = all_list s"
  shows "kinv s' = kinv s"
  using assms qok_cong [of s' s True "{}"] svals_cong [of s' s] by (simp add: kinv_def konts_ok_def qview_def)

lemma kinv_upd [simp]:
  "kinv (s\<lparr>conds := c\<rparr>) = kinv s" "kinv (s\<lparr>intr_on := b\<rparr>) = kinv s" "kinv (s\<lparr>in_external_intr := b\<rparr>) = kinv s"
  "kinv (s\<lparr>yield_on_return := b\<rparr>) = kinv s" "kinv (s\<lparr>ticks := n\<rparr>) = kinv s" "kinv (s\<lparr>idle_ticks := n\<rparr>) = kinv s"
  "kinv (s\<lparr>kernel_ticks := n\<rparr>) = kinv s" "kinv (s\<lparr>thread_ticks := m\<rparr>) = kinv s"
  by ((rule kinv_cong; (simp; fail)?; (rule stat_cong)?; (rule queue_cong)?; simp)+)

lemma kinv_set_konts:
  assumes k: "kinv s" and t: "stat s t \<noteq> None" and w: "kwf (idle_thread s) t ks" and i: "t = idle_thread s \<Longrightarrow> idle_konts ks"
    and d: "\<And>p. KSema p \<in> set ks \<Longrightarrow> svals s p \<noteq> None" and p: "\<And>l. pend ks l = pend (konts s t) l"
  shows "kinv (s\<lparr>konts := (konts s)(t := ks)\<rparr>)"
proof (rule kinvI [OF k _ _ w i])
  show "eff s (s\<lparr>konts := (konts s)(t := ks)\<rparr>)" using kinv_qok [OF k] by (simp add: eff_def)
  have sv: "svals (s\<lparr>konts := f\<rparr>) = svals s" for f by (simp add: svals_def fun_eq_iff)
  show "lock_ok (svals (s\<lparr>konts := (konts s)(t := ks)\<rparr>)) (holders (s\<lparr>konts := (konts s)(t := ks)\<rparr>))
          (konts (s\<lparr>konts := (konts s)(t := ks)\<rparr>)) l" for l
    by (rule lock_ok_same [OF kinv_lock [OF k]]) (use p sv in auto)
  show "svals (s\<lparr>konts := (konts s)(t := ks)\<rparr>) p \<noteq> None" if "KSema p \<in> set ks" for p using d [OF that] sv by simp
  show "svals (s\<lparr>konts := (konts s)(t := ks)\<rparr>) p \<noteq> None" if "svals s p \<noteq> None" for p using that sv by simp
qed (use t in auto)

lemma push_kont_konts: "push_kont t k s = s\<lparr>konts := (konts s)(t := k # konts s t)\<rparr>"
  by (simp add: push_kont_def)

lemma cond_signal_kinv:
  assumes k: "kinv s" and a: "cond_signal c l s = Inr s'"
  shows "kinv s'"
proof -
  have "s' = s \<or> (\<exists>t cs. sema_up (WaitSema t) (s\<lparr>conds := cs\<rparr>) = Inr s')"
    using a by (auto simp: cond_signal_def res_simps split: list.splits prod.splits)
  then show ?thesis using k sema_up_kinv [of "s\<lparr>conds := cs\<rparr>" "WaitSema t" s' for cs t] by auto
qed

lemma cond_broadcast_loop_kinv:
  assumes k: "kinv s" and c: "konts s (running s) = []" and a: "cond_broadcast_loop c' l s = Inr s'"
  shows "kinv s'"
proof -
  have ni: "running s \<noteq> idle_thread s" using kinv_not_idle [OF k] c by simp
  have "kinv (push_kont (running s) (KBroadcast c' l) s)"
    unfolding push_kont_konts by (rule kinv_set_konts [OF k]) (use c ni kinv_run [OF k] in auto)
  then show ?thesis using a k cond_signal_kinv
    by (auto simp: cond_broadcast_loop_def split: list.splits)
qed

lemma cond_wait_kinv:
  assumes k: "kinv s" and c: "konts s (running s) = []" and a: "cond_wait cv l s = Inr s'"
  shows "kinv s'"
proof -
  have ni: "running s \<noteq> idle_thread s" using kinv_not_idle [OF k] c by simp
  let ?t = "running s"
  let ?s1 = "sema_init (WaitSema ?t) 0 s"
  obtain cs where r: "lock_release l (push_kont ?t (KDown (WaitSema ?t)) (push_kont ?t (KAcquire l) (?s1\<lparr>conds := cs\<rparr>))) = Inr s'"
    using a by (auto simp: cond_wait_def res_simps thread_current_Inr Let_def)
  have "t \<in> set (queue s (QSema (WaitSema ?t))) \<Longrightarrow> False" for t
    using qok_WaitSema [OF kinv_qok [OF k], of t ?t] qok_running_free [OF kinv_qok [OF k], of "QSema (WaitSema ?t)"] by blast
  then have "queue s (QSema (WaitSema ?t)) = []" by (metis list.set_intros(1) neq_Nil_conv)
  then have "queue ?s1 = queue s"
    by (auto simp: fun_eq_iff queue_def sema_init_def split: qname.splits)
  moreover have "stat ?s1 = stat s" by (rule stat_cong) (simp add: sema_init_def)
  ultimately have "qok True {} ?s1"
    using kinv_qok [OF k] qok_cong [of ?s1 s True "{}"] by (simp add: qview_def sema_init_def)
  then have q3: "qok True {} (push_kont ?t (KDown (WaitSema ?t)) (push_kont ?t (KAcquire l) (?s1\<lparr>conds := cs\<rparr>)))" (is "qok _ _ ?s3")
    by simp
  note e = lock_release_effect [OF q3 r]
  obtain bs where "konts s' = (konts ?s3)(running ?s3 := map KIntr bs @ konts ?s3 (running ?s3))" using e by blast
  then have ks: "konts s' = (konts s)(?t := map KIntr bs @ [KDown (WaitSema ?t), KAcquire l])"
    using c by (simp add: sema_init_def)
  have st: "stat ?s3 = stat s" using \<open>stat ?s1 = stat s\<close> by simp
  have ef: "eff s s'" using e st by (simp add: eff_def sema_init_def)
  have sv3: "svals ?s3 = (svals s)(WaitSema ?t \<mapsto> 0)" by (auto simp: svals_def fun_eq_iff sema_init_def)
  have sm: "sem ?s3 (SemaOf l) = sem s (SemaOf l)" by (simp add: sem_def sema_init_def)
  have sv: "svals s' = (svals s)(WaitSema ?t \<mapsto> 0, SemaOf l \<mapsto> sz (Suc (sval (sem s (SemaOf l)))))"
    using e sv3 sm by simp
  have h: "holders s' = (holders s)(l := 0)" "holders s l = ?t" using e by (simp_all add: sema_init_def)
  have sd: "svals s (SemaOf l) \<noteq> None" using e sv3 by simp
  show ?thesis
  proof (rule kinvI [OF k ef ks])
    fix m
    have "lock_ok ((svals s)(SemaOf l \<mapsto> sz (Suc (sval (sem s (SemaOf l)))))) (holders s') (konts s') m"
    proof (cases "m = l")
      case False
      then show ?thesis by (intro lock_ok_same [OF kinv_lock [OF k]]) (use h ks c in auto)
    next
      case True
      obtain v where v: "svals s (SemaOf l) = Some v" "sval (sem s (SemaOf l)) = v" using sd svals_obtain by blast
      have "v = 0" "\<And>t. \<not> pend (konts s t) l"
        using kinv_lock [OF k, of l] v h kinv_run(2) [OF k] by (auto simp: lock_ok_def)
      then show ?thesis using True v h ks by (simp add: lock_ok_def sz_def)
    qed
    then show "lock_ok (svals s') (holders s') (konts s') m"
      by (rule lock_ok_same) (auto simp: sv)
  qed (use ni sv kinv_run [OF k] in auto)
qed


subsubsection \<open>The timer\<close>

lemma timer_sleep_kinv:
  assumes k: "kinv s" and c: "konts s (running s) = []" and a: "timer_sleep n s = Inr s'"
  shows "kinv s'"
proof -
  have ni: "running s \<noteq> idle_thread s" using kinv_not_idle [OF k] c by simp
  note q = kinv_qok [OF k]
  let ?s1 = "push_kont (running s) (KIntr (intr_on s)) (intr_disable s)"
  let ?s2 = "upd_thread (running s) (\<lambda>th. th\<lparr>waiting_ticks := timer_ticks s + n\<rparr>) ?s1"
  let ?s3 = "?s2\<lparr>waiting_list := ksort (sort_by_waiting_ticks ?s2) (waiting_list ?s2 @ [running s])\<rparr>"
  have b: "thread_block ?s3 = Inr s'"
    using a by (auto simp: timer_sleep_def res_simps thread_current_Inr Let_def)
  have qe: "queue ?s3 = (queue s)(QSleep := ksort (sort_by_waiting_ticks ?s2) (queue s QSleep @ [running s]))"
    by simp
  have "eff s s'"
  proof (rule thread_block_eff [OF q b, where dest = "Some QSleep"])
    show "placed s (running s) THREAD_BLOCKED (Some QSleep)" using ni by (simp add: placed_def)
    show "set (queue ?s3 x) = set (queue s x) \<union> (if Some QSleep = Some x then {running s} else {})" for x
      unfolding qe by (auto simp del: queue_at)
    show "distinct (queue ?s3 x)" for x
      unfolding qe using qok_distinct [OF q, of x] qok_distinct [OF q, of QSleep] qok_running_free [OF q, of QSleep]
      by (auto simp del: queue_at)
  qed (simp_all add: upd_thread_stat)
  moreover have "kframe ?s3 s'" using thread_block_frame [OF b] .
  then have f: "konts s' = (konts s)(running s := map KIntr [intr_on s] @ konts s (running s))" "semas s' = semas s" "holders s' = holders s"
    by (simp_all add: kframe_def)
  ultimately show ?thesis by (intro kinv_push_intr [OF k, where bs = "[intr_on s]"]) (auto simp: svals_def)
qed

lemma kinv_eff_same:
  "kinv s \<Longrightarrow> eff s s' \<Longrightarrow> konts s' = konts s \<Longrightarrow> semas s' = semas s \<Longrightarrow> holders s' = holders s \<Longrightarrow> kinv s'"
  by (rule kinv_push_intr [where bs = "[]"]) (auto simp: svals_def)

lemma thread_unblock_sel:
  assumes "thread_unblock t s = Inr s'"
  shows "konts s' = konts s" "semas s' = semas s" "holders s' = holders s" "idle_thread s' = idle_thread s"
    "initial_thread s' = initial_thread s" "all_list s' = all_list s" "running s' = running s" "waiting_list s' = waiting_list s"
    "ticks s' = ticks s" "in_external_intr s' = in_external_intr s" "intr_on s' = intr_on s"
  by (simp_all add: thread_unblock_Inr(1) [OF assms]) (simp_all add: set_status_def upd_thread_def)

lemma wake_one_kinv:
  assumes k: "kinv s" and w: "waiting_list s = t # ts" and u: "thread_unblock t (s\<lparr>waiting_list := ts\<rparr>) = Inr s1"
  shows "kinv s1"
proof -
  note q = kinv_qok [OF k]
  have qt: "t \<in> set (queue s QSleep)" "distinct (t # ts)" "set ts = set (queue s QSleep) - {t}"
    using w qok_distinct [OF q, of QSleep] by auto
  have "qok True {} s1 \<and> dom (stat s1) = dom (stat s)"
  proof (rule thread_unblock_qok [OF q u])
    show "set (queue (s\<lparr>waiting_list := ts\<rparr>) x) = set (queue s x) - {t}" for x
      using qt(3) qok_one [OF q qt(1), of x] by (cases "x = QSleep") (auto simp del: queue_at)
    show "distinct (queue (s\<lparr>waiting_list := ts\<rparr>) x)" for x
      using qt(2) qok_distinct [OF q, of x] by (auto simp del: queue_at)
    show "t \<noteq> idle_thread s" using qok_not_idle [OF q qt(1)] .
  qed simp_all
  then have "eff s s1" using thread_unblock_sel [OF u] by (simp add: eff_def)
  then show ?thesis by (rule kinv_eff_same [OF k]) (use thread_unblock_sel [OF u] in simp_all)
qed

lemma wake_loop_kinv: "kinv s \<Longrightarrow> waiting_list s = ts \<Longrightarrow> wake_loop ts s = Inr s' \<Longrightarrow> kinv s'"
proof (induction ts arbitrary: s)
  case Nil
  then show ?case by (auto simp: res_simps)
next
  case (Cons t ts)
  show ?case
  proof (cases "s' = s")
    case True
    then show ?thesis using Cons by simp
  next
    case False
    then obtain s1 where u: "thread_unblock t (s\<lparr>waiting_list := ts\<rparr>) = Inr s1" and w: "wake_loop ts s1 = Inr s'"
      using Cons.prems(3) by (auto simp: res_simps split: if_splits)
    show ?thesis
      using Cons.IH [OF wake_one_kinv [OF Cons.prems(1,2) u] _ w] thread_unblock_sel(8) [OF u] by simp
  qed
qed

lemma thread_tick_kinv:
  assumes k: "kinv s" and t: "thread_tick s = Inr s'"
  shows "kinv s'"
proof -
  define s1 where "s1 = (if running s = idle_thread s then s\<lparr>idle_ticks := idle_ticks s + 1\<rparr> else s\<lparr>kernel_ticks := kernel_ticks s + 1\<rparr>)"
  have "s' = s1\<lparr>thread_ticks := Suc (thread_ticks s1)\<rparr> \<or> s' = s1\<lparr>thread_ticks := Suc (thread_ticks s1), yield_on_return := True\<rparr>"
    using t unfolding thread_tick_def rbind_eq_Inr thread_current_Inr Let_def
    by (auto simp: s1_def [symmetric] intr_yield_on_return_def kassert_eq_Inr split: if_splits)
  moreover have "kinv s1" using k by (simp add: s1_def)
  ultimately show ?thesis by (elim disjE) simp_all
qed

lemma timer_interrupt_kinv:
  assumes k: "kinv s" and t: "timer_interrupt s = Inr s'"
  shows "kinv s'"
proof -
  let ?s1 = "s\<lparr>ticks := ticks s + 1\<rparr>"
  obtain s2 where w: "wake_loop (waiting_list ?s1) ?s1 = Inr s2" "thread_tick s2 = Inr s'"
    using t unfolding timer_interrupt_def Let_def by (auto simp: rbind_eq_Inr)
  have "kinv ?s1" using k by simp
  then have "kinv s2" using wake_loop_kinv w(1) by blast
  then show ?thesis using thread_tick_kinv w(2) by blast
qed

lemma kinv_push_KIntr: "kinv s \<Longrightarrow> kinv (push_kont (running s) (KIntr b) s)"
  unfolding push_kont_konts
  by (rule kinv_set_konts) (use kinv_run [of s] kinv_kwf [of s] kinv_KSema [of s] kinv_idle [of s] in auto)

lemma intr_handler_kinv:
  assumes k: "kinv s" and a: "intr_handler_ext timer_interrupt s = Inr s'"
  shows "kinv s'"
proof -
  let ?s0 = "push_kont (running s) (KIntr (intr_on s)) (intr_disable s)"
  have "kinv (intr_disable s)" using k by (simp add: intr_disable_def)
  then have k0: "kinv ?s0" using kinv_push_KIntr [of "intr_disable s"] by simp
  obtain s1 where s1: "timer_interrupt (?s0\<lparr>in_external_intr := True, yield_on_return := False\<rparr>) = Inr s1"
    and r: "s' = s1\<lparr>in_external_intr := False\<rparr> \<or> thread_yield (s1\<lparr>in_external_intr := False\<rparr>) = Inr s'"
    using a by (auto simp: intr_handler_ext_def res_simps Let_def split: if_splits)
  have "kinv (s1\<lparr>in_external_intr := False\<rparr>)" using timer_interrupt_kinv [OF _ s1] k0 by simp
  then show ?thesis using r thread_yield_kinv by blast
qed


subsubsection \<open>Creation and exit\<close>

lemma thread_exit_kinv:
  assumes k: "kinv s" and c: "konts s (running s) = []" and a: "thread_exit s = Inr s'"
  shows "kinv s'"
proof -
  have ni: "running s \<noteq> idle_thread s" using kinv_not_idle [OF k] c by simp
  note q = kinv_qok [OF k]
  let ?s3 = "set_status (running s) THREAD_DYING ((intr_disable s)\<lparr>all_list := remove1 (running s) (all_list s)\<rparr>)"
  have sc: "schedule ?s3 = Inr s'"
    using a by (auto simp: thread_exit_def res_simps thread_current_Inr Let_def)
  have "qok False {} ?s3"
    by (rule qok_move [OF q, where t = "running s" and st = THREAD_DYING and dest = None])
       (use kinv_run [OF k] qok_running_free [OF q] qok_distinct [OF q] in \<open>auto simp: placed_def fun_eq_iff simp del: queue_at\<close>)
  note q' = schedule_qok [OF this sc]
  note v = schedule_view [OF sc] and f = schedule_frame [OF sc, unfolded kframe_def]
  have sub: "dom (stat s') \<subseteq> dom (stat s)" "running s = initial_thread s \<or> running s \<notin> dom (stat s')"
  proof -
    have st: "stat ?s3 = (stat s)(running s \<mapsto> THREAD_DYING)" using kinv_run [OF k] by (auto simp: fun_eq_iff)
    have nx: "nxt_of ?s3 \<in> dom (stat s)" using schedule_Inr(4) [OF sc] st kinv_run [OF k] by (auto simp: is_thread_stat split: if_splits)
    show "dom (stat s') \<subseteq> dom (stat s)" using v(5) st nx kinv_run [OF k] by (auto simp: Let_def dom_def split: if_splits)
    have "nxt_of ?s3 \<noteq> running s"
      using ni qok_running_free [OF q, of QReady] by (auto simp: nxt_of_def split: list.splits)
    moreover have "status (thr ?s3 (running s)) = THREAD_DYING" by (rule status_stat) (simp add: st)
    ultimately have "running s \<noteq> initial_thread s \<Longrightarrow> reaped ?s3"
      using kinv_run [OF k] by (simp add: reaped_def)
    then show "running s = initial_thread s \<or> running s \<notin> dom (stat s')"
      using v(5) by (auto simp: Let_def)
  qed
  have sv: "svals s' = svals s" "konts s' = konts s" "holders s' = holders s" "idle_thread s' = idle_thread s"
    "initial_thread s' = initial_thread s" "all_list s' = remove1 (running s) (all_list s)"
    using f svals_cong [of s' s] by simp_all
  have dead: "konts s t = []" if "stat s' t = None" for t
  proof (cases "stat s t = None")
    case False
    have "nxt_of ?s3 \<noteq> t" using that v(5) q' qok_running v(2) by (metis option.simps(3))
    then have "t = running s" using that False v(5) kinv_run [OF k] by (auto simp: Let_def split: if_splits)
    then show ?thesis using c by simp
  qed (use kinv_dead [OF k] in blast)
  have "konts_ok s'"
    using k dead by (simp add: kinv_def konts_ok_def sv)
  moreover have "dom (stat s') \<subseteq> insert (initial_thread s') (set (all_list s'))"
  proof
    fix t assume t: "t \<in> dom (stat s')"
    then have "t \<in> insert (initial_thread s) (set (all_list s))" using sub(1) kinv_live [OF k] by blast
    moreover have "t \<noteq> running s \<or> t = initial_thread s" using sub(2) t by blast
    ultimately show "t \<in> insert (initial_thread s') (set (all_list s'))" 
      by (cases "t = initial_thread s") (auto simp: sv)
  qed
  ultimately show ?thesis using q' k by (simp add: kinv_def sv)
qed

lemma thread_create_kinv:
  assumes k: "kinv s" and fr: "threads s page = None" and a: "thread_create page nm pri [] arg s = Inr (tid', s')"
  shows "kinv s'"
proof (cases "page = 0")
  case True
  then show ?thesis using a k by (simp add: thread_create_def)
next
  case False
  note q = kinv_qok [OF k]
  have sn: "stat s page = None" using fr by (simp add: stat_def)
  then have kn: "konts s page = []" using kinv_dead [OF k] by blast
  then have npi: "page \<noteq> idle_thread s" using kinv_idle [OF k] False by auto
  have nq: "page \<notin> set (queue s x)" for x using qok_stat [OF q, of page x] sn by auto
  obtain s8 s9 where s8: "stat s8 = (stat s)(page \<mapsto> THREAD_BLOCKED)" "queue s8 = queue s" "running s8 = running s"
      "idle_thread s8 = idle_thread s" "initial_thread s8 = initial_thread s" "konts s8 = (konts s)(page := [KStart])"
      "semas s8 = semas s" "holders s8 = holders s" "all_list s8 = all_list s @ [page]"
    and u: "thread_unblock page s8 = Inr s9"
    and r: "s' = s9 \<or> thread_yield s9 = Inr s'"
  proof -
    obtain s1 where s1: "init_thread page nm pri s = Inr s1"
      using a False by (auto simp: thread_create_def rbind_eq_Inr)
    have st1: "stat s1 = (stat s)(page \<mapsto> THREAD_BLOCKED)" "queue s1 = queue s" "running s1 = running s"
      "idle_thread s1 = idle_thread s" "initial_thread s1 = initial_thread s" "konts s1 = (konts s)(page := [])"
      "semas s1 = semas s" "holders s1 = holders s" "all_list s1 = all_list s @ [page]"
      using s1 by (auto simp: init_thread_def res_simps stat_def fun_eq_iff intro!: queue_cong)
    let ?s3 = "upd_thread page (\<lambda>th. th\<lparr>tid := next_tid s1\<rparr>) (s1\<lparr>next_tid := next_tid s1 + 1\<rparr>)"
    let ?g = "\<lambda>n. upd_thread page (\<lambda>th. th\<lparr>stack := stack th - n\<rparr>)"
    let ?s8 = "(?g 28 (?g 4 (upd_thread page (\<lambda>th. th\<lparr>aux := arg\<rparr>) (?g 12 ?s3))))"
    let ?s8' = "?s8\<lparr>konts := (konts ?s8)(page := [KStart])\<rparr>"
    obtain s9 where "thread_unblock page ?s8' = Inr s9" "s' = s9 \<or> thread_yield s9 = Inr s'"
      using a False s1 by (auto simp: thread_create_def alloc_frame_def allocate_tid_def res_simps thread_current_Inr Let_def split: if_splits)
    moreover have "stat (s1\<lparr>next_tid := n\<rparr>) = stat s1" "queue (s1\<lparr>next_tid := n\<rparr>) = queue s1" for n
      by (simp_all add: stat_def fun_eq_iff queue_def split: qname.split)
    then have "stat ?s8' = stat s1" "queue ?s8' = queue s1" by (simp_all add: upd_thread_stat)
    ultimately show thesis using st1 by (intro that [of ?s8' s9]) simp_all
  qed
  note sel = thread_unblock_sel [OF u] and ue = thread_unblock_Inr(1) [OF u]
  have st9: "stat s9 = (stat s)(page \<mapsto> THREAD_READY)" using ue s8(1) by (auto simp: fun_eq_iff)
  have q9: "queue s9 = (queue s)(QReady := ksort (sort_by_priority s8) (queue s QReady @ [page]))"
    using ue s8(2) queue_at(1) [of s8] by simp
  have rp: "page \<noteq> running s" using sn kinv_run [OF k] by auto
  have "qok True {} s9"
    by (rule qok_move [OF q, where t = page and st = THREAD_READY and dest = "Some QReady"])
       (use False st9 npi rp nq nq [of QReady] qok_distinct [OF q, of QReady] qok_distinct [OF q] sel s8
         in \<open>auto simp: placed_def q9 simp del: queue_at\<close>)
  moreover have "konts_ok s9"
    using k False npi sn svals_cong [of s9 s] sel s8 st9 by (auto simp: kinv_def konts_ok_def)
  moreover have "lock_ok (svals s9) (holders s9) (konts s9) l" for l
    by (rule lock_ok_same [OF kinv_lock [OF k]]) (use svals_cong [of s9 s] sel s8 kn in auto)
  moreover have "dom (stat s9) \<subseteq> insert (initial_thread s9) (set (all_list s9))"
    using kinv_live [OF k] sel s8 st9 by auto
  ultimately have "kinv s9" by (simp add: kinv_def)
  then show ?thesis using r thread_yield_kinv by blast
qed

subsection \<open>The machine\<close>

text \<open>What client code may call when it runs, with the obligations of its callers: a semaphore or
  lock is initialised once, before use, and a new thread gets a page that is not in use.\<close>

datatype kop =
    OpSemaInit nat nat
  | OpDown nat
  | OpTryDown nat
  | OpUp nat
  | OpLockInit lptr
  | OpAcquire lptr
  | OpTryAcquire lptr
  | OpRelease lptr
  | OpWait nat lptr
  | OpSignal nat lptr
  | OpBroadcast nat lptr
  | OpYield
  | OpSleep int
  | OpSetPriority int
  | OpCreate tptr string int nat
  | OpExit

definition do_op :: "kop \<Rightarrow> kern \<Rightarrow> kern res" where
  "do_op c s = (case c of
     OpSemaInit n v \<Rightarrow> kdefined (semas s (Sema n) = None) (Inr (sema_init (Sema n) v s))
   | OpDown n \<Rightarrow> sema_down (Sema n) s
   | OpTryDown n \<Rightarrow> rbind (sema_try_down (Sema n) s) (\<lambda>r. Inr (snd r))
   | OpUp n \<Rightarrow> sema_up (Sema n) s
   | OpLockInit l \<Rightarrow> kdefined (l \<noteq> 0 \<and> semas s (SemaOf l) = None) (Inr (lock_init l s))
   | OpAcquire l \<Rightarrow> lock_acquire l s
   | OpTryAcquire l \<Rightarrow> rbind (lock_try_acquire l s) (\<lambda>r. Inr (snd r))
   | OpRelease l \<Rightarrow> lock_release l s
   | OpWait c l \<Rightarrow> cond_wait c l s
   | OpSignal c l \<Rightarrow> cond_signal c l s
   | OpBroadcast c l \<Rightarrow> cond_broadcast c l s
   | OpYield \<Rightarrow> thread_yield s
   | OpSleep n \<Rightarrow> timer_sleep n s
   | OpSetPriority p \<Rightarrow> thread_set_priority p s
   | OpCreate page nm pri arg \<Rightarrow>
       kdefined (threads s page = None) (rbind (thread_create page nm pri [] arg s) (\<lambda>r. Inr (snd r)))
   | OpExit \<Rightarrow> thread_exit s)"

inductive kstep :: "kern \<Rightarrow> kern \<Rightarrow> bool" where
  call: "konts s (running s) = [] \<Longrightarrow> do_op c s = Inr s' \<Longrightarrow> kstep s s'"
| cont: "konts s (running s) \<noteq> [] \<Longrightarrow> resume s = Inr s' \<Longrightarrow> kstep s s'"
| tick: "intr_on s \<Longrightarrow> intr_handler_ext timer_interrupt s = Inr s' \<Longrightarrow> kstep s s'"

inductive_cases kstepE: "kstep s s'"

inductive kreach :: "kern \<Rightarrow> kern \<Rightarrow> bool" for s0 :: kern where
  start: "kreach s0 s0"
| step: "kreach s0 s \<Longrightarrow> kstep s s' \<Longrightarrow> kreach s0 s'"

lemma sema_init_kinv:
  assumes k: "kinv s" and n: "semas s (Sema n) = None"
  shows "kinv (sema_init (Sema n) v s)"
proof -
  let ?s = "sema_init (Sema n) v s"
  have sel: "konts ?s = konts s" "holders ?s = holders s" "running ?s = running s" "idle_thread ?s = idle_thread s"
    "initial_thread ?s = initial_thread s" "all_list ?s = all_list s" by (simp_all add: sema_init_def)
  have qe: "queue ?s = queue s" using n by (auto simp: fun_eq_iff queue_def sema_init_def split: qname.splits)
  have st: "stat ?s = stat s" by (rule stat_cong) (simp add: sema_init_def)
  have sv: "svals ?s = (svals s)(Sema n \<mapsto> v)" by (auto simp: svals_def sema_init_def fun_eq_iff)
  have "eff s ?s" using qok_cong [of ?s s True "{}"] kinv_qok [OF k] qe st sel by (simp add: eff_def qview_def)
  then show ?thesis by (rule kinv_push_intr [OF k, where bs = "[]"]) (use sel sv in auto)
qed

lemma lock_init_kinv:
  assumes k: "kinv s" and n: "semas s (SemaOf l) = None"
  shows "kinv (lock_init l s)"
proof -
  let ?s = "lock_init l s"
  have sel: "konts ?s = konts s" "holders ?s = (holders s)(l := 0)" "running ?s = running s" "idle_thread ?s = idle_thread s"
    "initial_thread ?s = initial_thread s" "all_list ?s = all_list s" by (simp_all add: lock_init_def sema_init_def)
  have qe: "queue ?s = queue s" using n by (auto simp: fun_eq_iff queue_def sema_init_def lock_init_def split: qname.splits)
  have st: "stat ?s = stat s" by (rule stat_cong) (simp add: lock_init_def sema_init_def)
  have sv: "svals ?s = (svals s)(SemaOf l \<mapsto> 1)" by (auto simp: svals_def lock_init_def sema_init_def fun_eq_iff)
  have ef: "eff s ?s" using qok_cong [of ?s s True "{}"] kinv_qok [OF k] qe st sel by (simp add: eff_def qview_def)
  have np: "\<not> pend (konts s t) l" for t using kinv_lock [OF k, of l] n by (simp add: lock_ok_def svals_def)
  show ?thesis
  proof (rule kinvI [OF k ef, of "running s" "konts s (running s)"])
    fix m show "lock_ok (svals ?s) (holders ?s) (konts ?s) m"
    proof (cases "m = l")
      case True
      then show ?thesis using np by (simp add: lock_ok_def sv sel)
    next
      case False
      then show ?thesis by (intro lock_ok_same [OF kinv_lock [OF k]]) (auto simp: sv sel)
    qed
  qed (use kinv_kwf [OF k] kinv_idle [OF k] kinv_KSema [OF k] kinv_run [OF k] sv sel in auto)
qed

lemma do_op_kinv:
  assumes k: "kinv s" and c: "konts s (running s) = []" and a: "do_op op s = Inr s'"
  shows "kinv s'"
proof (cases op)
  case (OpSemaInit n v)
  then show ?thesis using a sema_init_kinv [OF k] by (auto simp: do_op_def res_simps)
next
  case (OpDown n)
  then show ?thesis using a sema_down_Sema_kinv [OF k c] by (auto simp: do_op_def)
next
  case (OpTryDown n)
  then show ?thesis using a sema_try_down_kinv [OF k] by (auto simp: do_op_def res_simps)
next
  case (OpUp n)
  then show ?thesis using a sema_up_kinv [OF k] by (auto simp: do_op_def)
next
  case (OpLockInit l)
  then show ?thesis using a lock_init_kinv [OF k] by (auto simp: do_op_def res_simps)
next
  case (OpAcquire l)
  then show ?thesis using a lock_acquire_kinv [OF k c] by (auto simp: do_op_def)
next
  case (OpTryAcquire l)
  then show ?thesis using a lock_try_acquire_kinv [OF k] by (auto simp: do_op_def res_simps)
next
  case (OpRelease l)
  then show ?thesis using a lock_release_kinv [OF k] by (auto simp: do_op_def)
next
  case (OpWait cv l)
  then show ?thesis using a cond_wait_kinv [OF k c] by (auto simp: do_op_def)
next
  case (OpSignal cv l)
  then show ?thesis using a cond_signal_kinv [OF k] by (auto simp: do_op_def)
next
  case (OpBroadcast cv l)
  then show ?thesis using a cond_broadcast_loop_kinv [OF k c] by (auto simp: do_op_def cond_broadcast_def res_simps)
next
  case OpYield
  then show ?thesis using a thread_yield_kinv [OF k] by (auto simp: do_op_def)
next
  case (OpSleep n)
  then show ?thesis using a timer_sleep_kinv [OF k c] by (auto simp: do_op_def)
next
  case (OpSetPriority p)
  then show ?thesis using a thread_set_priority_kinv [OF k] by (auto simp: do_op_def)
next
  case (OpCreate page nm pri arg)
  then show ?thesis using a thread_create_kinv [OF k] by (auto simp: do_op_def res_simps)
next
  case OpExit
  then show ?thesis using a thread_exit_kinv [OF k c] by (auto simp: do_op_def)
qed

subsubsection \<open>Continuations\<close>

lemma pop_kinv:
  assumes k: "kinv s" and c: "konts s (running s) = k # ks" and w: "kwf (idle_thread s) (running s) ks"
    and i: "running s = idle_thread s \<Longrightarrow> idle_konts ks" and p: "\<And>l. pend ks l = pend (k # ks) l"
  shows "kinv (s\<lparr>konts := (konts s)(running s := ks)\<rparr>)"
  by (rule kinv_set_konts [OF k _ w i]) (use kinv_run [OF k] kinv_KSema [OF k, of _ "running s"] c p in auto)

lemma resume_KSema:
  assumes k: "kinv s" and c: "konts s (running s) = KSema p # ks"
    and r: "sema_down_loop p (s\<lparr>konts := (konts s)(running s := ks)\<rparr>) = Inr s'"
  shows "kinv s'"
proof -
  let ?s = "s\<lparr>konts := (konts s)(running s := ks)\<rparr>"
  have w: "kwf (idle_thread s) (running s) (KSema p # ks)" using kinv_kwf [OF k, of "running s"] c by simp
  have ni: "running s \<noteq> idle_thread s" using kinv_not_idle [OF k] c by simp
  have sp: "svals s p \<noteq> None" using kinv_KSema [OF k, of p "running s"] c by simp
  obtain v where v: "svals s p = Some v" "sval (sem s p) = v" using svals_obtain [OF sp] by blast
  have sm: "sem ?s = sem s" "svals ?s = svals s" by (simp_all add: sem_def svals_def fun_eq_iff)
  have q: "qok True {} ?s" using kinv_qok [OF k] by simp
  have wu: "u = running ?s" if "p = WaitSema u" for u using w that by simp
  have nn: "semas ?s p \<noteq> None" "running ?s \<noteq> idle_thread ?s" using sp ni unfolding sem_svals by simp_all
  note e = sema_down_loop_effect [OF q nn wu r, unfolded sm v(2)]
  have ef: "eff s s'" using e by (simp add: eff_def)
  show ?thesis
  proof (cases "v = 0")
    case True
    then have same: "konts s' = konts s" "svals s' = svals s" "holders s' = holders s"
      using e c by (auto simp: fun_eq_iff)
    show ?thesis by (rule kinv_push_intr [OF k ef, where bs = "[]"]) (use same in simp_all)
  next
    case False
    then have f: "konts s' = (konts s)(running s := ks)" "svals s' = (svals s)(p \<mapsto> v - 1)" "holders s' = holders s"
      using e by simp_all
    have ks: "kwf (idle_thread s) (running s) ks" "KSema p' \<notin> set ks" for p' using w by (auto split: sptr.splits)
    show ?thesis
    proof (rule kinvI [OF k ef f(1) ks(1)])
      fix m show "lock_ok (svals s') (holders s') (konts s') m"
      proof (cases "p = SemaOf m")
        case True
        then obtain b where b: "ks = [KIntr b, KHold m]" using w by auto
        note t = lock_take [OF kinv_lock [OF k, of m] v(1) [unfolded True] False]
        show ?thesis using t f b True by (auto simp: lock_ok_def)
      next
        case False
        then show ?thesis
          by (intro lock_ok_same [OF kinv_lock [OF k]]) (use w f c in \<open>auto split: sptr.splits\<close>)
      qed
    qed (use ni ks f kinv_run [OF k] in auto)
  qed
qed

lemma resume_KDown:
  assumes k: "kinv s" and c: "konts s (running s) = KDown p # ks"
    and r: "sema_down p (s\<lparr>konts := (konts s)(running s := ks)\<rparr>) = Inr s'"
  shows "kinv s'"
proof -
  let ?s = "s\<lparr>konts := (konts s)(running s := ks)\<rparr>"
  have "kwf (idle_thread s) (running s) (KDown p # ks)" using kinv_kwf [OF k, of "running s"] c by simp
  then obtain l where w: "p = WaitSema (running s)" "ks = [KAcquire l]" by auto
  have ni: "running s \<noteq> idle_thread s" using kinv_not_idle [OF k] c by simp
  have sm: "sem ?s = sem s" "svals ?s = svals s" by (simp_all add: sem_def svals_def fun_eq_iff)
  have q: "qok True {} ?s" using kinv_qok [OF k] by simp
  have sp: "svals s p \<noteq> None" using r unfolding sem_svals by (auto simp: sema_down_def res_simps)
  have nn: "running ?s \<noteq> idle_thread ?s" using ni by simp
  have wu: "u = running ?s" if "p = WaitSema u" for u using w that by simp
  note e = sema_down_effect [OF q nn wu r, unfolded sm]
  have ef: "eff s s'" using e by (simp add: eff_def)
  have f: "konts s' = (konts s)(running s := konts s' (running s))" "holders s' = holders s" "svals s' p \<noteq> None"
    "\<And>l. svals s' (SemaOf l) = svals s (SemaOf l)" "\<And>p. svals s p \<noteq> None \<Longrightarrow> svals s' p \<noteq> None"
    "\<And>l. \<not> pend (konts s' (running s)) l" "kwf (idle_thread s) (running s) (konts s' (running s))"
    "\<And>p'. KSema p' \<in> set (konts s' (running s)) \<Longrightarrow> p' = p"
    using e w sp by (auto split: if_splits)
  show ?thesis
  proof (rule kinvI [OF k ef f(1)])
    fix m show "lock_ok (svals s') (holders s') (konts s') m"
    proof (rule lock_ok_same [OF kinv_lock [OF k, of m]])
      show "pend (konts s' t) m = pend (konts s t) m" for t
        using f(1,6) c by (cases "t = running s") (simp, metis fun_upd_other)
    qed (use f in auto)
  next
    show "svals s' p' \<noteq> None" if "KSema p' \<in> set (konts s' (running s))" for p' using f(3,8) that by blast
  qed (use f ni kinv_run [OF k] in auto)
qed

lemma resume_KHold:
  assumes k: "kinv s" and c: "konts s (running s) = KHold l # ks"
    and r: "s' = s\<lparr>konts := (konts s)(running s := ks), holders := (holders s)(l := running s)\<rparr>"
  shows "kinv s'"
proof -
  have w: "ks = []" using kinv_kwf [OF k, of "running s"] c by simp
  have ni: "running s \<noteq> idle_thread s" using kinv_not_idle [OF k] c by simp
  have sv: "svals s' = svals s" by (simp add: r svals_def fun_eq_iff)
  have ef: "eff s s'" using kinv_qok [OF k] by (simp add: r eff_def)
  have pe: "pend (konts s (running s)) l" using c by simp
  show ?thesis
  proof (rule kinvI [OF k ef, of "running s" "[]"])
    fix m show "lock_ok (svals s') (holders s') (konts s') m"
    proof (cases "m = l")
      case True
      obtain v where v: "svals s (SemaOf l) = Some v" "v = 0"
        "\<And>t. pend (konts s t) l \<Longrightarrow> t = running s"
        using kinv_lock [OF k, of l] pe unfolding lock_ok_def by (auto split: option.splits)
      show ?thesis using v True kinv_run [OF k] w unfolding lock_ok_def sv by (auto simp: r)
    next
      case False
      then show ?thesis by (intro lock_ok_same [OF kinv_lock [OF k]]) (use c w in \<open>auto simp: r svals_def\<close>)
    qed
  qed (use w ni sv kinv_run [OF k] in \<open>auto simp: r\<close>)
qed

lemma resume_KIdleBlock:
  assumes k: "kinv s" and c: "konts s (running s) = KIdleBlock # ks"
    and r: "thread_block (push_kont (running s) KIdleWake (intr_disable (s\<lparr>konts := (konts s)(running s := ks)\<rparr>))) = Inr s'"
  shows "kinv s'"
proof -
  have w: "ks = []" "running s = idle_thread s" using kinv_kwf [OF k, of "running s"] c by simp_all
  note q = kinv_qok [OF k]
  let ?s = "push_kont (running s) KIdleWake (intr_disable (s\<lparr>konts := (konts s)(running s := ks)\<rparr>))"
  have ef: "eff s s'"
    by (rule thread_block_eff [OF q r, where dest = None]) (use w qok_distinct [OF q] in \<open>auto simp: placed_def\<close>)
  have f: "konts s' = (konts s)(running s := [KIdleWake])" "semas s' = semas s" "holders s' = holders s"
    using thread_block_frame [OF r] w by (simp_all add: kframe_def)
  show ?thesis
  proof (rule kinvI [OF k ef f(1)])
    show "lock_ok (svals s') (holders s') (konts s') m" for m
      by (rule lock_ok_same [OF kinv_lock [OF k]]) (use f c in \<open>auto simp: svals_def\<close>)
  qed (use w f kinv_run [OF k] in \<open>auto simp: svals_def\<close>)
qed

lemma resume_kinv:
  assumes k: "kinv s" and n: "konts s (running s) \<noteq> []" and a: "resume s = Inr s'"
  shows "kinv s'"
proof -
  obtain x ks where c: "konts s (running s) = x # ks" using n by (cases "konts s (running s)") auto
  let ?s = "s\<lparr>konts := (konts s)(running s := ks)\<rparr>"
  have r: "run_kont x ?s = Inr s'" using a c by (simp add: resume_def)
  have w: "kwf (idle_thread s) (running s) (x # ks)" using kinv_kwf [OF k, of "running s"] c by simp
  have i: "running s = idle_thread s \<Longrightarrow> idle_konts (x # ks)" using kinv_idle [OF k] c kinv_run(2) [OF k] by metis
  have sel: "running ?s = running s" "konts ?s (running ?s) = ks" by simp_all
  show ?thesis
  proof (cases x)
    case (KIntr b)
    have "kinv ?s" by (rule pop_kinv [OF k c]) (use w i KIntr in auto)
    then show ?thesis using r KIntr by (auto simp: run_kont_def intr_set_level_Inr)
  next
    case (KSema p)
    then show ?thesis using resume_KSema [OF k] c r by (simp add: run_kont_def)
  next
    case (KDown p)
    then show ?thesis using resume_KDown [OF k] c r by (simp add: run_kont_def)
  next
    case (KHold l)
    have "s' = s\<lparr>konts := (konts s)(running s := ks), holders := (holders s)(l := running s)\<rparr>"
      using r KHold by (auto simp: run_kont_def res_simps thread_current_Inr)
    then show ?thesis using resume_KHold [OF k] c KHold by blast
  next
    case (KAcquire l)
    have "kinv ?s" by (rule pop_kinv [OF k c]) (use w i KAcquire in auto)
    then show ?thesis using r KAcquire w lock_acquire_kinv [of ?s l s'] by (simp add: run_kont_def)
  next
    case (KBroadcast cv l)
    have "kinv ?s" by (rule pop_kinv [OF k c]) (use w i KBroadcast in auto)
    then show ?thesis using r KBroadcast w cond_broadcast_loop_kinv [of ?s cv l s'] by (simp add: run_kont_def)
  next
    case KStart
    have "kinv ?s" by (rule pop_kinv [OF k c]) (use w i KStart in auto)
    then show ?thesis using r KStart by (auto simp: run_kont_def intr_enable_def res_simps)
  next
    case KIdleBlock
    then show ?thesis using resume_KIdleBlock [OF k] c r by (simp add: run_kont_def)
  next
    case KIdleWake
    then have w': "ks = []" "running s = idle_thread s" using w by simp_all
    have "kinv (s\<lparr>konts := (konts s)(running s := [KIdleBlock])\<rparr>)"
      by (rule kinv_set_konts [OF k]) (use w' c KIdleWake kinv_run [OF k] in auto)
    then have "kinv (s\<lparr>konts := (konts s)(running s := [KIdleBlock]), intr_on := True\<rparr>)" by simp
    moreover have "s' = s\<lparr>konts := (konts s)(running s := [KIdleBlock]), intr_on := True\<rparr>"
      using r KIdleWake w' by (auto simp: run_kont_def push_kont_def)
    ultimately show ?thesis by simp
  qed (use w in simp)
qed

lemma kstep_kinv: "kinv s \<Longrightarrow> kstep s s' \<Longrightarrow> kinv s'"
  by (erule kstepE) (auto intro: do_op_kinv resume_kinv intr_handler_kinv)

lemma kreach_kinv: "kreach s0 s \<Longrightarrow> kinv s0 \<Longrightarrow> kinv s"
  by (induction rule: kreach.induct) (auto intro: kstep_kinv)

end
