(* ===== verification/Scheduling.thy ===== *)
theory Scheduling
  imports Sched
begin

text \<open>
  What the thread system does, in the states it can reach: booting, which thread runs next,
  priority donation, sleeping, and the safety of locks. The properties at the end quantify
  over every state reachable from the booted kernel.
\<close>

interpretation by_priority: strict_weak_order "sort_by_priority s" for s
  by unfold_locales (auto simp: sort_by_priority_def)

interpretation by_waiting_ticks: strict_weak_order "sort_by_waiting_ticks s" for s
  by unfold_locales (auto simp: sort_by_waiting_ticks_def)

subsection \<open>Running the model\<close>

text \<open>Congruence rules that make the simplifier evaluate a fallible step before it looks at what
  follows.\<close>

lemma rbind_weak: "m = m' \<Longrightarrow> rbind m f = rbind m' f" by simp
lemma kassert_weak: "b = b' \<Longrightarrow> kassert b r = kassert b' r" by simp
lemma kdefined_weak: "b = b' \<Longrightarrow> kdefined b r = kdefined b' r" by simp

lemmas weak_congs = rbind_weak kassert_weak kdefined_weak let_weak_cong

datatype kcmd = Call kop | Resume | Tick

fun krun :: "kcmd list \<Rightarrow> kern \<Rightarrow> kern res" where
  "krun [] s = Inr s"
| "krun (Call c # cs) s = kassert (konts s (running s) = []) (rbind (do_op c s) (krun cs))"
| "krun (Resume # cs) s = kassert (konts s (running s) \<noteq> []) (rbind (resume s) (krun cs))"
| "krun (Tick # cs) s = kassert (intr_on s) (rbind (intr_handler_ext timer_interrupt s) (krun cs))"

lemma kreach_prepend: "kstep s s1 \<Longrightarrow> kreach s1 s' \<Longrightarrow> kreach s s'"
  by (rotate_tac 1, induction rule: kreach.induct) (auto intro: kreach.intros)

lemma krun_reach: "krun cs s = Inr s' \<Longrightarrow> kreach s s'"
  by (induction cs s rule: krun.induct)
     (auto simp: res_simps intro: kreach.start kreach_prepend kstep.intros)

definition thread_start :: "tptr \<Rightarrow> kern \<Rightarrow> kern res" where
  "thread_start page s =
     (let s1 = sema_init (Sema 0) 0 s
      in rbind (thread_create page ''idle'' PRI_MIN [KIdleInit (Sema 0)] 0 s1) (\<lambda>(_, s2).
         rbind (intr_enable s2) (\<lambda>s3. sema_down (Sema 0) s3)))"



definition new_thread :: "int \<Rightarrow> thread_status \<Rightarrow> string \<Rightarrow> nat \<Rightarrow> int \<Rightarrow> thread" where
  "new_thread i st nm sp pri =
     \<lparr>tid = i, status = st, tname = nm, stack = sp, priority = pri, orig_priority = pri, aux = 0,
      lock_waiting_for = 0, lock_list = [], donation_nested_level = 0, waiting_ticks = 0\<rparr>"

definition booted :: "int option \<Rightarrow> int \<Rightarrow> bool \<Rightarrow> kern" where
  "booted jw jf js =
    \<lparr>threads = [8192 \<mapsto> new_thread 2 THREAD_READY ''idle'' 12244 0, 4096 \<mapsto> new_thread 1 THREAD_RUNNING ''main'' 8192 31],
     konts = (\<lambda>_. [])(8192 := [KIntr False, KIntr True, KIdleBlock], 4096 := []),
     semas = [Sema 0 \<mapsto> \<lparr>sval = 0, waiters = []\<rparr>], holders = (\<lambda>_. 0), conds = (\<lambda>_. []),
     ready_list = [], all_list = [4096, 8192], waiting_list = [], running = 4096, idle_thread = 8192, initial_thread = 4096,
     next_tid = 3, thread_ticks = 0, idle_ticks = 0, kernel_ticks = 0, ticks = 0, intr_on = True,
     in_external_intr = False, yield_on_return = False, junk_wt = jw, junk_front = jf, junk_sleeper = js\<rparr>"

lemmas kexec = thread_init_def init_thread_def allocate_tid_def set_status_def upd_thread_def push_kont_def
  thread_create_def alloc_frame_def is_thread_def thread_unblock_def intr_disable_def intr_set_level_def intr_enable_def
  sort_by_priority_def thr_def thread_current_def thread_yield_def schedule_def next_thread_to_run_def
  thread_schedule_tail_def palloc_free_thread_def thread_block_def sema_init_def sema_down_def sema_down_loop_def
  upd_sema_def sem_def sema_up_def resume_def run_kont_def PRI_MIN_def PRI_MAX_def PRI_DEFAULT_def ksort_def
  thread_start_def sz_def Let_def new_thread_def do_op_def lock_init_def lock_acquire_def lock_held_by_current_thread_def
  MAX_NESTED_LEVEL_def lock_release_def priority_restoration_def


lemma booted_kinv: "kinv (booted jw jf js)"
proof -
  let ?s = "booted jw jf js"
  have q: "queue ?s x = []" for x by (auto simp: queue_def booted_def split: qname.split)
  have st: "stat ?s t = (if t = 4096 then Some THREAD_RUNNING else if t = 8192 then Some THREAD_READY else None)" for t
    by (simp add: stat_def booted_def new_thread_def)
  have sel: "running ?s = 4096" "idle_thread ?s = 8192" "initial_thread ?s = 4096" "all_list ?s = [4096, 8192]" "holders ?s = (\<lambda>_. 0)"
    "konts ?s = (\<lambda>_. [])(8192 := [KIntr False, KIntr True, KIdleBlock], 4096 := [])" "ready_list ?s = []"
    by (simp_all add: booted_def)
  have "qok True {} ?s" unfolding qok_def by (simp add: q st sel del: queue_at)
  moreover have "konts_ok ?s" unfolding konts_ok_def by (auto simp: st sel split: if_splits)
  moreover have "lock_ok (svals ?s) (holders ?s) (konts ?s) l" for l
    by (simp add: lock_ok_def sel) (simp add: svals_def booted_def)
  moreover have "dom (stat ?s) \<subseteq> insert (initial_thread ?s) (set (all_list ?s))"
    by (auto simp: st sel split: if_splits)
  ultimately show ?thesis by (simp add: kinv_def)
qed

text \<open>Lock 1 is held by main (31); H (33) creates M (32) and then asks for the lock.\<close>

definition inversion_run :: "kcmd list" where
  "inversion_run = [Call (OpLockInit 1), Call (OpAcquire 1), Resume, Resume,
     Call (OpCreate 12288 ''H'' 33 0), Resume, Call (OpCreate 16384 ''M'' 32 0), Call (OpAcquire 1)]"


subsection \<open>Which thread runs next\<close>

context strict_weak_order
begin

lemma hd_ksort_least: "xs \<noteq> [] \<Longrightarrow> x \<in> set xs \<Longrightarrow> \<not> lt x (hd (ksort lt xs))"
proof -
  assume x: "xs \<noteq> []" "x \<in> set xs"
  obtain y ys where y: "ksort lt xs = y # ys" using x by (metis length_0_conv length_ksort list.exhaust)
  have "x \<in> set (y # ys)" using x(2) y by (metis set_ksort)
  moreover have "\<forall>z\<in>set ys. \<not> lt z y" using ksorted_ksort [of xs] y by (simp add: ksorted_def)
  ultimately show ?thesis using y irrefl by auto
qed

lemma hd_ksort_first:
  assumes "xs ! i = hd (ksort lt xs)" "i < length xs" "j < i" "distinct xs"
  shows "lt (xs ! i) (xs ! j)"
proof (rule ccontr)
  let ?h = "hd (ksort lt xs)" and ?P = "\<lambda>e. \<not> lt (hd (ksort lt xs)) e \<and> \<not> lt e (hd (ksort lt xs))"
  assume "\<not> lt (xs ! i) (xs ! j)"
  then have pj: "?P (xs ! j)" using hd_ksort_least [of xs "xs ! j"] assms by force
  obtain ys where y: "ksort lt xs = ?h # ys" using assms by (metis length_0_conv length_ksort list.collapse not_less_zero)
  have "filter ?P (ksort lt xs) = filter ?P xs" using ksim_ksort [of xs] by (simp add: ksim_def)
  moreover have "filter ?P (ksort lt xs) = ?h # filter ?P ys" using irrefl by (subst y) simp
  ultimately have f: "filter ?P xs = ?h # filter ?P ys" by simp
  have "xs = take i xs @ drop i xs" by simp
  moreover have "filter ?P (take i xs) \<noteq> []"
    using pj assms nth_mem [of j "take i xs"] by (auto simp: filter_empty_conv)
  ultimately have "hd (filter ?P xs) \<in> set (take i xs)"
    by (metis filter_append hd_append2 filter_is_subset list.set_sel(1) subsetD)
  then have "?h \<in> set (take i xs)" using f by simp
  then obtain m where "m < i" "xs ! m = ?h" using assms(2) by (auto simp: in_set_conv_nth)
  then show False using assms nth_eq_iff_index_eq [of xs m i] by auto
qed

end

lemma thread_yield_next:
  assumes "thread_yield s = Inr s'" "running s \<noteq> idle_thread s"
  shows "running s' = hd (ksort (sort_by_priority s) (ready_list s @ [running s]))"
proof -
  let ?rl = "ksort (sort_by_priority s) (ready_list s @ [running s])"
  have ne: "?rl \<noteq> []" by (metis length_0_conv length_ksort snoc_eq_iff_butlast)
  obtain s1 where "schedule s1 = Inr s'" "ready_list s1 = ?rl"
    using thread_yield_Inr [OF assms(1)] assms(2) by auto
  then show "running s' = hd ?rl"
    using schedule_view(2) [of s1 s'] ne by (cases ?rl) (auto simp: nxt_of_def)
qed

lemma yield_picks_highest:
  assumes k: "kinv s" and y: "thread_yield s = Inr s'" and ni: "running s \<noteq> idle_thread s"
  shows "running s' \<in> set (ready_list s @ [running s])"
    and "\<And>t. t \<in> set (ready_list s @ [running s]) \<Longrightarrow> priority (thr s t) \<le> priority (thr s (running s'))"
    and "running s' = running s \<Longrightarrow> t \<in> set (ready_list s) \<Longrightarrow> priority (thr s t) < priority (thr s (running s))"
proof -
  let ?xs = "ready_list s @ [running s]"
  note n = thread_yield_next [OF y ni]
  show m: "running s' \<in> set ?xs"
    unfolding n by (metis hd_in_set length_0_conv length_ksort set_ksort snoc_eq_iff_butlast)
  show "priority (thr s t) \<le> priority (thr s (running s'))" if "t \<in> set ?xs" for t
    using by_priority.hd_ksort_least [of ?xs t s] that n by (simp add: sort_by_priority_def)
  assume e: "running s' = running s" and t: "t \<in> set (ready_list s)"
  obtain j where j: "j < length (ready_list s)" "t = ready_list s ! j" using t by (auto simp: in_set_conv_nth)
  have d: "distinct ?xs"
    using qok_distinct [OF kinv_qok [OF k], of QReady] qok_running_free [OF kinv_qok [OF k], of QReady] by simp
  have "sort_by_priority s (?xs ! length (ready_list s)) (?xs ! j)"
    by (rule by_priority.hd_ksort_first) (use d j e n in auto)
  then show "priority (thr s t) < priority (thr s (running s))" using j by (simp add: sort_by_priority_def nth_append)
qed


lemma schedule_stat_other:
  "schedule s = Inr s' \<Longrightarrow> t \<noteq> running s \<Longrightarrow> t \<noteq> nxt_of s \<Longrightarrow> stat s' t = stat s t"
  by (drule schedule_view(5)) (simp add: Let_def)




subsection \<open>Priority donation\<close>

definition donated :: "lptr \<Rightarrow> kern \<Rightarrow> kern" where
  "donated l s =
     (let lh = holders s l;
          s1 = (if donation_nested_level (thr s lh) = 0
                then upd_thread lh (\<lambda>th. th\<lparr>orig_priority := priority th\<rparr>) s else s);
          s2 = (if l \<notin> set (lock_list (thr s1 lh))
                then upd_thread lh (\<lambda>th. th\<lparr>donation_nested_level := donation_nested_level th + 1,
                                             lock_list := lock_list th @ [l]\<rparr>) s1
                else s1)
      in upd_thread lh (\<lambda>th. th\<lparr>priority := priority (thr s (running s))\<rparr>) s2)"

lemma donated_frame: "tframe s (donated l s)"
  by (auto simp: donated_def Let_def intro!: tframe_upd_after)

lemma donated_thr:
  assumes "threads s (holders s l) \<noteq> None"
  shows "priority (thr (donated l s) t) = (if t = holders s l then priority (thr s (running s)) else priority (thr s t))"
  using assms by (auto simp: donated_def Let_def thr_def upd_thread_def)

text \<open>One level of \<^verbatim>\<open>priority_donation\<close>.\<close>

lemma priority_donation_step:
  assumes "thread_current s = Inr ct"
  shows "priority_donation (Suc n) l s =
     (if holders s l = 0 then Inr s
      else kdefined (is_thread s (holders s l))
        (if priority (thr s (holders s l)) < priority (thr s ct) \<and> donation_nested_level (thr s (holders s l)) < MAX_NESTED_LEVEL
         then kdefined (l \<in> set (lock_list (thr s (holders s l))) \<or> (\<forall>t\<in>set (all_list s). l \<notin> set (lock_list (thr s t))))
               (if lock_waiting_for (thr (donated l s) (holders s l)) \<noteq> 0
                then priority_donation n (lock_waiting_for (thr (donated l s) (holders s l))) (donated l s)
                else Inr (donated l s))
         else Inr s))"
proof -
  have ct: "ct = running s" using assms by (simp add: thread_current_Inr)
  have ll: "lock_list (thr (upd_thread (holders s l) (\<lambda>th. th\<lparr>orig_priority := priority th\<rparr>) s) (holders s l)) = lock_list (thr s (holders s l))"
    if "is_thread s (holders s l)" using that by (auto simp: thr_def upd_thread_def is_thread_def)
  show ?thesis
    by (cases "holders s l = 0"; cases "is_thread s (holders s l)")
       (auto simp: assms donated_def Let_def ll ct)
qed

lemma priority_donation_terminates:
  "thread_current s = Inr ct \<Longrightarrow> finite (dom (stat s)) \<Longrightarrow>
   card {t \<in> dom (stat s). priority (thr s t) < priority (thr s ct)} < n \<Longrightarrow>
   priority_donation n l s \<noteq> Inl Diverged"
proof (induction n arbitrary: l s)
  case (Suc n)
  let ?lh = "holders s l" and ?s = "donated l s"
  show ?case
  proof (cases "is_thread s ?lh \<and> priority (thr s ?lh) < priority (thr s ct)")
    case True
    then have ex: "threads s ?lh \<noteq> None" and mem: "?lh \<in> dom (stat s)" by (auto simp: is_thread_def stat_def)
    note f = tframe_sel [OF donated_frame [of s l]]
    have ct: "ct = running s" "stat s ct = Some THREAD_RUNNING" "ct \<noteq> 0" using Suc.prems(1) by (auto simp: thread_current_Inr)
    have ne: "ct \<noteq> ?lh" using True by auto
    have cur: "thread_current ?s = Inr ct" using ct f by (simp add: thread_current_Inr)
    let ?B = "\<lambda>s. {t \<in> dom (stat s). priority (thr s t) < priority (thr s ct)}"
    have "?B ?s \<subset> ?B s"
    proof (rule psubsetI)
      show "?B ?s \<subseteq> ?B s" using f(14) ne ct(1) by (auto simp: donated_thr [OF ex] split: if_splits)
      have "?lh \<in> ?B s" "?lh \<notin> ?B ?s" using mem True ne ct(1) by (auto simp: donated_thr [OF ex])
      then show "?B ?s \<noteq> ?B s" by blast
    qed
    then have "card (?B ?s) < card (?B s)" using Suc.prems(2) by (intro psubset_card_mono) auto
    then have "card (?B ?s) < n" using Suc.prems(3) by linarith
    then have ih: "priority_donation n l' ?s \<noteq> Inl Diverged" for l'
      using Suc.IH [OF cur] Suc.prems(2) f(14) by simp
    then show ?thesis unfolding priority_donation_step [OF Suc.prems(1)] by (auto simp: kdefined_def)
  next
    case False
    then show ?thesis unfolding priority_donation_step [OF Suc.prems(1)] by (auto simp: kdefined_def)
  qed
qed simp

lemma priority_donation_mono:
  "priority_donation n l s = Inr s' \<Longrightarrow> priority (thr s t) \<le> priority (thr s' t)"
proof (induction n arbitrary: l s)
  case (Suc n)
  obtain ct where ct: "thread_current s = Inr ct" using Suc.prems by (auto simp: res_simps)
  let ?lh = "holders s l" and ?s = "donated l s"
  show ?case
  proof (cases "s' = s")
    case False
    then have c: "is_thread s ?lh" "priority (thr s ?lh) < priority (thr s ct)"
      and r: "(\<exists>l'. priority_donation n l' ?s = Inr s') \<or> s' = ?s"
      using Suc.prems unfolding priority_donation_step [OF ct] by (auto simp: res_simps split: if_splits)
    have "threads s ?lh \<noteq> None" using c by (simp add: is_thread_def)
    then have "priority (thr s t) \<le> priority (thr ?s t)"
      using c ct by (simp add: donated_thr thread_current_Inr)
    then show ?thesis using r Suc.IH [of _ ?s] by fastforce
  qed simp
qed simp

lemma priority_donation_reaches_holder:
  assumes "priority_donation n l s = Inr s'" "thread_current s = Inr ct" "holders s l \<noteq> 0"
    "donation_nested_level (thr s (holders s l)) < MAX_NESTED_LEVEL"
  shows "priority (thr s ct) \<le> priority (thr s' (holders s l))"
proof -
  obtain m where n: "n = Suc m" using assms(1) by (cases n) auto
  let ?lh = "holders s l" and ?s = "donated l s"
  show ?thesis
  proof (cases "priority (thr s ?lh) < priority (thr s ct)")
    case True
    then have r: "is_thread s ?lh" "(\<exists>l'. priority_donation m l' ?s = Inr s') \<or> s' = ?s"
      using assms unfolding n priority_donation_step [OF assms(2)] by (auto simp: res_simps split: if_splits)
    then have "priority (thr ?s ?lh) = priority (thr s ct)"
      using assms(2) by (simp add: donated_thr is_thread_def thread_current_Inr)
    then show ?thesis using r(2) priority_donation_mono [of m _ ?s s' ?lh] by auto
  next
    case False
    then show ?thesis using priority_donation_mono [OF assms(1), of ?lh] by linarith
  qed
qed

lemma kinv_lock_acquire_no_divergence:
  assumes k: "kinv s"
  shows "priority_donation (length (all_list s) + 2) l s \<noteq> Inl Diverged"
proof -
  have ct: "thread_current s = Inr (running s)" using kinv_run [OF k] by (simp add: thread_current_Inr)
  have sub: "dom (stat s) \<subseteq> insert (initial_thread s) (set (all_list s))" using kinv_live [OF k] .
  then have fin: "finite (dom (stat s))" by (rule finite_subset) simp
  have "card {t \<in> dom (stat s). priority (thr s t) < priority (thr s (running s))} \<le> card (insert (initial_thread s) (set (all_list s)))"
    using sub by (intro card_mono) auto
  also have "\<dots> \<le> Suc (length (all_list s))"
    by (metis card_insert_le_m1 card_length diff_Suc_1 zero_less_Suc Suc_le_mono card_insert_if le_SucI)
  finally show ?thesis by (intro priority_donation_terminates [OF ct fin]) simp
qed


subsection \<open>Sleeping\<close>


lemma timer_sleep_queues:
  assumes k: "kinv s" and c: "konts s (running s) = []" and a: "timer_sleep n s = Inr s'"
  shows "ksorted (sort_by_waiting_ticks s') (waiting_list s')" "set (waiting_list s') = insert (running s) (set (waiting_list s))"
    "waiting_ticks (thr s' (running s)) = ticks s + n"
proof -
  let ?s1 = "push_kont (running s) (KIntr (intr_on s)) (intr_disable s)"
  let ?s2 = "upd_thread (running s) (\<lambda>th. th\<lparr>waiting_ticks := timer_ticks s + n\<rparr>) ?s1"
  let ?s3 = "?s2\<lparr>waiting_list := ksort (sort_by_waiting_ticks ?s2) (waiting_list ?s2 @ [running s])\<rparr>"
  have b: "thread_block ?s3 = Inr s'"
    using a by (auto simp: timer_sleep_def res_simps thread_current_Inr Let_def)
  have sc: "schedule (set_status (running s) THREAD_BLOCKED ?s3) = Inr s'" using thread_block_Inr [OF b] by simp
  let ?s4 = "set_status (running s) THREAD_BLOCKED ?s3"
  have wl: "waiting_list s' = waiting_list ?s3" using schedule_Inr(1) [OF sc] by (auto simp: Let_def palloc_free_thread_def)
  have nr: "\<not> reaped ?s4"
  proof -
    have "stat ?s4 (running s) = Some THREAD_BLOCKED" using kinv_run [OF k] by (simp add: upd_thread_stat)
    then show ?thesis using status_stat by (auto simp: reaped_def)
  qed
  have wt: "waiting_ticks (thr s' u) = waiting_ticks (thr ?s2 u)" for u
  proof -
    have e: "thr (s\<lparr>thread_ticks := a\<rparr>) = thr s" "thr (s\<lparr>waiting_list := b, ready_list := c, running := d\<rparr>) = thr s"
      "thr (s\<lparr>ready_list := c, running := d\<rparr>) = thr s" "thr (s\<lparr>waiting_list := b\<rparr>) = thr s" for a b c d and s :: kern
      by (simp_all add: thr_def fun_eq_iff)
    show ?thesis using schedule_Inr(1) [OF sc] nr by (simp add: Let_def e)
  qed
  show "waiting_ticks (thr s' (running s)) = ticks s + n"
    using kinv_run [OF k] unfolding wt by (auto simp: thr_def upd_thread_def stat_def timer_ticks_def)
  show "set (waiting_list s') = insert (running s) (set (waiting_list s))" by (simp add: wl)
  have "sort_by_waiting_ticks s' = sort_by_waiting_ticks ?s2" by (simp add: sort_by_waiting_ticks_def fun_eq_iff wt)
  then show "ksorted (sort_by_waiting_ticks s') (waiting_list s')"
    using by_waiting_ticks.ksorted_ksort [of ?s2 "waiting_list ?s2 @ [running s]"] by (simp add: wl)
qed


subsection \<open>A lock stays with its holder\<close>

definition kept :: "kern \<Rightarrow> kern \<Rightarrow> bool" where
  "kept s s' \<longleftrightarrow> (\<forall>l. holders s' l = holders s l \<or> holders s l = 0 \<or> holders s l = running s)"

lemma kept_same: "holders s' = holders s \<Longrightarrow> kept s s'"
  by (simp add: kept_def)

lemma lock_take_holder: "kinv s \<Longrightarrow> 0 < sval (sem s (SemaOf l)) \<Longrightarrow> semas s (SemaOf l) \<noteq> None \<Longrightarrow> holders s l = 0"
  using lock_take(2) [OF kinv_lock, of s l] by (auto simp: svals_def sem_def)

lemma thread_create_holders: "thread_create page nm pri f arg s = Inr (i, s') \<Longrightarrow> holders s' = holders s"
  by (auto simp: thread_create_def init_thread_def alloc_frame_def allocate_tid_def res_simps Let_def
      dest!: thread_yield_frame(3) thread_unblock_sel(3) split: if_splits)

lemma lock_release_kept: "qok True {} s \<Longrightarrow> lock_release l s = Inr s' \<Longrightarrow> kept s s'"
  using lock_release_effect [of s l s'] by (auto simp: kept_def)

lemma cond_signal_kept: "qok True {} s \<Longrightarrow> cond_signal c l s = Inr s' \<Longrightarrow> kept s s'"
proof -
  assume q: "qok True {} s" and a: "cond_signal c l s = Inr s'"
  then consider "s' = s" | t cs where "sema_up (WaitSema t) (s\<lparr>conds := cs\<rparr>) = Inr s'"
    by (auto simp: cond_signal_def res_simps split: list.splits prod.splits)
  then show ?thesis
  proof cases
    case 2
    then show ?thesis using sema_up_effect [of "s\<lparr>conds := cs\<rparr>" "WaitSema t" s'] q by (auto intro: kept_same)
  qed (simp add: kept_same)
qed

lemma cond_broadcast_loop_kept: "qok True {} s \<Longrightarrow> cond_broadcast_loop c l s = Inr s' \<Longrightarrow> kept s s'"
  using cond_signal_kept [of "push_kont (running s) (KBroadcast c l) s" c l s']
  by (auto simp: cond_broadcast_loop_def kept_def split: list.splits)

lemma cond_wait_kept:
  assumes k: "kinv s" and c: "konts s (running s) = []" and a: "cond_wait cv l s = Inr s'"
  shows "kept s s'"
proof -
  let ?t = "running s"
  let ?s1 = "sema_init (WaitSema ?t) 0 s"
  obtain cs where r: "lock_release l (push_kont ?t (KDown (WaitSema ?t)) (push_kont ?t (KAcquire l) (?s1\<lparr>conds := cs\<rparr>))) = Inr s'"
    using a by (auto simp: cond_wait_def res_simps thread_current_Inr Let_def)
  then have "holders s l = ?t \<and> (\<exists>pr s1 s2. priority_restoration l (push_kont ?t (KDown (WaitSema ?t)) (push_kont ?t (KAcquire l) (?s1\<lparr>conds := cs\<rparr>))) = Inr (pr, s1))"
    by (auto simp: lock_release_def lock_held_by_current_thread_def res_simps thread_current_Inr sema_init_def)
  have q: "qok True {} ?s1"
  proof -
    have "t \<in> set (queue s (QSema (WaitSema ?t))) \<Longrightarrow> False" for t
      using qok_WaitSema [OF kinv_qok [OF k], of t ?t] qok_running_free [OF kinv_qok [OF k], of "QSema (WaitSema ?t)"] by blast
    then have "queue s (QSema (WaitSema ?t)) = []" by (metis list.set_intros(1) neq_Nil_conv)
    then have "queue ?s1 = queue s"
      by (auto simp: fun_eq_iff queue_def sema_init_def split: qname.splits)
    moreover have "stat ?s1 = stat s" by (rule stat_cong) (simp add: sema_init_def)
    ultimately show ?thesis using kinv_qok [OF k] qok_cong [of ?s1 s True "{}"] by (simp add: qview_def sema_init_def)
  qed
  then show ?thesis using lock_release_kept [OF _ r] by (simp add: kept_def sema_init_def)
qed

lemma do_op_kept:
  assumes k: "kinv s" and c: "konts s (running s) = []" and a: "do_op op s = Inr s'"
  shows "kept s s'"
proof -
  note q = kinv_qok [OF k]
  have ni: "running s \<noteq> idle_thread s" using kinv_not_idle [OF k] c by simp
  show ?thesis
  proof (cases op)
    case (OpDown n)
    then show ?thesis using a sema_down_effect [OF q ni, of "Sema n" s'] by (auto simp: do_op_def intro: kept_same)
  next
    case (OpTryDown n)
    then show ?thesis using a by (auto simp: do_op_def res_simps intro!: kept_same dest!: sema_try_down_Inr(1))
  next
    case (OpUp n)
    then show ?thesis using a sema_up_effect [OF q, of "Sema n" s'] by (auto simp: do_op_def intro: kept_same)
  next
    case (OpLockInit l)
    have "holders s l = 0" if "semas s (SemaOf l) = None"
      using kinv_lock [OF k, of l] that by (simp add: lock_ok_def svals_def)
    then show ?thesis using a OpLockInit by (auto simp: do_op_def res_simps lock_init_def sema_init_def kept_def split: if_splits)
  next
    case (OpAcquire l)
    then show ?thesis using a lock_acquire_effect [OF k ni, of l s'] by (auto simp: do_op_def intro: kept_same)
  next
    case (OpTryAcquire l)
    then obtain b b1 s1 where s1: "sema_try_down (SemaOf l) s = Inr (b1, s1)"
      and r: "if b1 then s' = s1\<lparr>holders := (holders s1)(l := running s1)\<rparr> else s' = s1"
      using a by (auto simp: do_op_def lock_try_acquire_def res_simps thread_current_Inr split: if_splits)
    note d = sema_try_down_Inr [OF s1]
    show ?thesis using r d lock_take_holder [OF k, of l] by (auto simp: kept_def split: if_splits)
  next
    case (OpSemaInit n v)
    then show ?thesis using a by (auto simp: do_op_def res_simps sema_init_def kept_def)
  next
    case (OpRelease l)
    then show ?thesis using a lock_release_kept [OF q] by (auto simp: do_op_def)
  next
    case (OpWait cv l)
    then show ?thesis using a cond_wait_kept [OF k c] by (auto simp: do_op_def)
  next
    case (OpSignal cv l)
    then show ?thesis using a cond_signal_kept [OF q] by (auto simp: do_op_def)
  next
    case (OpBroadcast cv l)
    then show ?thesis using a cond_broadcast_loop_kept [OF q] by (auto simp: do_op_def cond_broadcast_def res_simps)
  next
    case OpYield
    then show ?thesis using a thread_yield_frame(3) by (auto simp: do_op_def intro: kept_same)
  next
    case (OpSleep n)
    then show ?thesis using a
      by (auto simp: do_op_def timer_sleep_def res_simps Let_def kframe_def intro!: kept_same dest!: thread_block_frame)
  next
    case (OpSetPriority p)
    then show ?thesis using a
      by (auto simp: do_op_def thread_set_priority_def res_simps Let_def intro!: kept_same dest!: thread_yield_frame(3) split: if_splits)
  next
    case (OpCreate page nm pri arg)
    then show ?thesis using a by (auto simp: do_op_def res_simps intro!: kept_same dest!: thread_create_holders)
  next
    case OpExit
    then show ?thesis using a
      by (auto simp: do_op_def thread_exit_def res_simps Let_def kframe_def intro!: kept_same dest!: schedule_frame)
  qed
qed

lemma resume_kept:
  assumes k: "kinv s" and n: "konts s (running s) \<noteq> []" and a: "resume s = Inr s'"
  shows "kept s s'"
proof -
  obtain x ks where c: "konts s (running s) = x # ks" using n by (cases "konts s (running s)") auto
  let ?s = "s\<lparr>konts := (konts s)(running s := ks)\<rparr>"
  have r: "run_kont x ?s = Inr s'" using a c by (simp add: resume_def)
  have w: "kwf (idle_thread s) (running s) (x # ks)" using kinv_kwf [OF k, of "running s"] c by simp
  have q: "qok True {} ?s" using kinv_qok [OF k] by simp
  have sel: "holders ?s = holders s" "running ?s = running s" by simp_all
  have ni: "running s \<noteq> idle_thread s" if "\<not> idle_konts (x # ks)" using kinv_not_idle [OF k] c that by simp
  show ?thesis
  proof (cases x)
    case (KSema p)
    have nn: "semas ?s p \<noteq> None" using kinv_KSema [OF k, of p "running s"] c KSema unfolding sem_svals by simp
    show ?thesis using sema_down_loop_effect [OF q nn, of s'] r KSema ni w
      by (auto simp: run_kont_def intro!: kept_same split: sptr.splits)
  next
    case (KDown p)
    show ?thesis using sema_down_effect [OF q, of p s'] r KDown ni w by (auto simp: run_kont_def intro!: kept_same)
  next
    case (KHold l)
    have "pend (konts s (running s)) l" using c KHold by simp
    then have "holders s l = 0" using kinv_lock [OF k, of l] unfolding lock_ok_def by (auto split: option.splits)
    then show ?thesis using r KHold by (auto simp: run_kont_def res_simps kept_def split: if_splits)
  next
    case (KAcquire l)
    have "kinv ?s" by (rule pop_kinv [OF k c]) (use w ni KAcquire in auto)
    then show ?thesis using lock_acquire_effect [of ?s l s'] r KAcquire ni by (auto simp: run_kont_def intro!: kept_same)
  next
    case (KBroadcast cv l)
    then show ?thesis using cond_broadcast_loop_kept [OF q, of cv l s'] r by (auto simp: run_kont_def kept_def)
  next
    case KIdleBlock
    then show ?thesis using r by (auto simp: run_kont_def kframe_def intro!: kept_same dest!: thread_block_frame)
  qed (use r w in \<open>auto simp: run_kont_def intr_set_level_Inr intr_enable_def res_simps intro!: kept_same\<close>)
qed

lemma wake_loop_holders: "wake_loop ts s = Inr s' \<Longrightarrow> holders s' = holders s"
proof (induction ts arbitrary: s)
  case (Cons t ts)
  show ?case
  proof (cases "s' = s")
    case False
    then obtain s1 where "thread_unblock t (s\<lparr>waiting_list := ts\<rparr>) = Inr s1" "wake_loop ts s1 = Inr s'"
      using Cons.prems by (auto simp: res_simps split: if_splits)
    then show ?thesis using Cons.IH [of s1] thread_unblock_sel(3) by fastforce
  qed simp
qed (auto simp: res_simps)

lemma thread_tick_holders: "thread_tick s = Inr s' \<Longrightarrow> holders s' = holders s"
proof -
  assume t: "thread_tick s = Inr s'"
  define s1 where "s1 = (if running s = idle_thread s then s\<lparr>idle_ticks := idle_ticks s + 1\<rparr> else s\<lparr>kernel_ticks := kernel_ticks s + 1\<rparr>)"
  have "s' = s1\<lparr>thread_ticks := Suc (thread_ticks s1)\<rparr> \<or> s' = s1\<lparr>thread_ticks := Suc (thread_ticks s1), yield_on_return := True\<rparr>"
    using t unfolding thread_tick_def rbind_eq_Inr thread_current_Inr Let_def
    by (auto simp: s1_def [symmetric] intr_yield_on_return_def kassert_eq_Inr split: if_splits)
  then show ?thesis by (elim disjE) (simp_all add: s1_def)
qed

lemma tick_kept:
  assumes "intr_handler_ext timer_interrupt s = Inr s'"
  shows "holders s' = holders s"
proof -
  let ?s0 = "(push_kont (running s) (KIntr (intr_on s)) (intr_disable s))\<lparr>in_external_intr := True, yield_on_return := False\<rparr>"
  let ?s1 = "?s0\<lparr>ticks := ticks ?s0 + 1\<rparr>"
  obtain s1 where s1: "timer_interrupt ?s0 = Inr s1"
    and r: "s' = s1\<lparr>in_external_intr := False\<rparr> \<or> thread_yield (s1\<lparr>in_external_intr := False\<rparr>) = Inr s'"
    using assms unfolding intr_handler_ext_def Let_def by (auto simp: res_simps split: if_splits)
  obtain s2 where "wake_loop (waiting_list ?s1) ?s1 = Inr s2" "thread_tick s2 = Inr s1"
    using s1 unfolding timer_interrupt_def Let_def rbind_eq_Inr by blast
  then have "holders s1 = holders s" using wake_loop_holders thread_tick_holders by fastforce
  then show ?thesis using r thread_yield_frame(3) by fastforce
qed

lemma kstep_kept: "kinv s \<Longrightarrow> kstep s s' \<Longrightarrow> kept s s'"
  by (erule kstepE) (auto intro: do_op_kept resume_kept kept_same tick_kept)


section \<open>Properties\<close>




text \<open>C2: locks exclude. In every reachable state, if a lock has a holder, its semaphore is 0 and
  no other thread is about to become holder; at most one thread is on its way to becoming
  holder; and while a thread other than the running one holds a lock, no step of the kernel
  takes the lock away from it.\<close>

theorem lock_mutual_exclusion:
  assumes "kreach (booted jw jf js) s" "semas s (SemaOf l) = Some se"
  shows "(holders s l \<noteq> 0 \<longrightarrow> sval se = 0 \<and> (\<forall>t. \<not> pend (konts s t) l)) \<and>
    (sval se \<noteq> 0 \<longrightarrow> sval se = 1 \<and> holders s l = 0 \<and> (\<forall>t. \<not> pend (konts s t) l)) \<and>
    (\<forall>t u. pend (konts s t) l \<longrightarrow> pend (konts s u) l \<longrightarrow> t = u) \<and>
    (\<forall>s'. kstep s s' \<longrightarrow> holders s l \<noteq> 0 \<longrightarrow> holders s l \<noteq> running s \<longrightarrow> holders s' l = holders s l)"
proof -
  have k: "kinv s" using kreach_kinv [OF assms(1) booted_kinv] .
  have "lock_ok (svals s) (holders s) (konts s) l" using kinv_lock [OF k] .
  then have "(holders s l \<noteq> 0 \<longrightarrow> sval se = 0 \<and> (\<forall>t. \<not> pend (konts s t) l)) \<and>
      (sval se \<noteq> 0 \<longrightarrow> sval se = 1 \<and> holders s l = 0 \<and> (\<forall>t. \<not> pend (konts s t) l)) \<and>
      (\<forall>t u. pend (konts s t) l \<longrightarrow> pend (konts s u) l \<longrightarrow> t = u)"
    using assms(2) unfolding lock_ok_def svals_def by (auto simp del: neq0_conv)
  moreover have "holders s' l = holders s l" if "kstep s s'" "holders s l \<noteq> 0" "holders s l \<noteq> running s" for s'
    using kstep_kept [OF k that(1)] that unfolding kept_def by metis
  ultimately show ?thesis by blast
qed

theorem lock_mutual_exclusion_witness:
  "\<exists>s se. kreach (booted None 0 False) s \<and> semas s (SemaOf 1) = Some se \<and> holders s 1 = 4096 \<and> sval se = 0"
proof -
  have "\<exists>s se. krun inversion_run (booted None 0 False) = Inr s \<and> semas s (SemaOf 1) = Some se \<and> holders s 1 = 4096"
    by (simp add: inversion_run_def booted_def kexec cong: weak_congs)
  then obtain s se where s: "krun inversion_run (booted None 0 False) = Inr s" "semas s (SemaOf 1) = Some se" "holders s 1 = 4096"
    by blast
  then show ?thesis using lock_mutual_exclusion [OF krun_reach [OF s(1)] s(2)] krun_reach [OF s(1)] by auto
qed

text \<open>C3: \<^verbatim>\<open>thread_yield\<close> hands the processor to a thread of the highest priority among the
  ready threads and the caller, and the caller keeps it only if it is strictly above all of
  them (round robin among equals).\<close>

theorem yield_runs_highest_priority:
  assumes "kreach (booted jw jf js) s" "thread_yield s = Inr s'" "running s \<noteq> idle_thread s"
  shows "running s' \<in> set (ready_list s @ [running s]) \<and>
    (\<forall>t\<in>set (ready_list s @ [running s]). priority (thr s t) \<le> priority (thr s (running s'))) \<and>
    (running s' = running s \<longrightarrow> (\<forall>t\<in>set (ready_list s). priority (thr s t) < priority (thr s (running s))))"
proof -
  have k: "kinv s" using kreach_kinv [OF assms(1) booted_kinv] .
  show ?thesis using yield_picks_highest [OF k assms(2,3)] by blast
qed

definition two_equal_run :: "kcmd list" where
  "two_equal_run = [Call (OpCreate 12288 ''a'' 31 0)]"

theorem yield_runs_highest_priority_witness:
  "\<exists>s s'. kreach (booted None 0 False) s \<and> thread_yield s = Inr s' \<and> running s' = 12288 \<and>
     running s' \<in> set (ready_list s @ [running s])"
proof -
  have "\<exists>s s'. krun two_equal_run (booted None 0 False) = Inr s \<and> thread_yield s = Inr s' \<and>
     running s = 4096 \<and> idle_thread s = 8192 \<and> running s' = 12288"
    by (simp add: two_equal_run_def booted_def kexec cong: weak_congs)
  then obtain s s' where s: "krun two_equal_run (booted None 0 False) = Inr s" "thread_yield s = Inr s'"
     "running s = 4096" "idle_thread s = 8192" "running s' = 12288" by blast
  then show ?thesis using yield_runs_highest_priority [OF krun_reach [OF s(1)] s(2)] krun_reach [OF s(1)] by auto
qed




text \<open>C6: \<^verbatim>\<open>priority_donation\<close> always ends, even on a cyclic chain of locks; it never lowers a
  priority; and unless the holder has already taken part in 8 donations, the holder of the lock
  comes out with at least the priority of the thread that asks for it.\<close>

theorem donation_ends_and_raises_holder:
  assumes "kreach (booted jw jf js) s"
  shows "priority_donation (length (all_list s) + 2) l s \<noteq> Inl Diverged \<and>
    (\<forall>s'. priority_donation (length (all_list s) + 2) l s = Inr s' \<longrightarrow>
       (\<forall>t. priority (thr s t) \<le> priority (thr s' t)) \<and>
       (holders s l \<noteq> 0 \<longrightarrow> donation_nested_level (thr s (holders s l)) < MAX_NESTED_LEVEL \<longrightarrow>
          priority (thr s (running s)) \<le> priority (thr s' (holders s l))))"
proof -
  have k: "kinv s" using kreach_kinv [OF assms booted_kinv] .
  have ct: "thread_current s = Inr (running s)" using kinv_run [OF k] by (simp add: thread_current_Inr)
  show ?thesis
    using kinv_lock_acquire_no_divergence [OF k] priority_donation_mono priority_donation_reaches_holder [OF _ ct] by blast
qed

definition contended_run :: "kcmd list" where
  "contended_run = [Call (OpLockInit 1), Call (OpAcquire 1), Resume, Resume, Call (OpCreate 12288 ''H'' 33 0), Resume]"

theorem donation_ends_and_raises_holder_witness:
  "\<exists>s s'. kreach (booted None 0 False) s \<and> holders s 1 = 4096 \<and> priority (thr s 4096) = 31 \<and>
     priority_donation (length (all_list s) + 2) 1 s = Inr s' \<and> 33 \<le> priority (thr s' 4096)"
proof -
  have "\<exists>s s'. krun contended_run (booted None 0 False) = Inr s \<and> holders s 1 = 4096 \<and> priority (thr s 4096) = 31 \<and>
     priority (thr s (running s)) = 33 \<and> donation_nested_level (thr s 4096) = 0 \<and> priority_donation (length (all_list s) + 2) 1 s = Inr s'"
    by (simp add: contended_run_def booted_def kexec cong: weak_congs)
  then obtain s s' where s: "krun contended_run (booted None 0 False) = Inr s" "holders s 1 = 4096" "priority (thr s 4096) = 31"
     "priority (thr s (running s)) = 33" "donation_nested_level (thr s 4096) = 0"
     "priority_donation (length (all_list s) + 2) 1 s = Inr s'" by blast
  then have "33 \<le> priority (thr s' 4096)"
    using donation_ends_and_raises_holder [OF krun_reach [OF s(1)], of 1] by (auto simp: MAX_NESTED_LEVEL_def)
  then show ?thesis using s krun_reach [OF s(1)] by blast
qed




text \<open>\<^verbatim>\<open>timer_sleep\<close> puts the caller among the sleepers with its wake-up time, the current
  tick plus the ticks asked for, and leaves the sleepers ordered by wake-up time.\<close>

theorem timer_sleep_enqueues_in_order:
  assumes "kreach (booted jw jf js) s" "konts s (running s) = []" "timer_sleep n s = Inr s'"
  shows "ksorted (sort_by_waiting_ticks s') (waiting_list s') \<and>
     set (waiting_list s') = insert (running s) (set (waiting_list s)) \<and>
     waiting_ticks (thr s' (running s)) = ticks s + n \<and> stat s' (running s) = Some THREAD_BLOCKED"
proof -
  have k: "kinv s" using kreach_kinv [OF assms(1) booted_kinv] .
  note w = timer_sleep_queues [OF k assms(2,3)]
  have "running s \<in> set (queue s' QSleep)" using w(2) by simp
  then have "stat s' (running s) = Some THREAD_BLOCKED"
    using qok_stat [OF kinv_qok [OF timer_sleep_kinv [OF k assms(2,3)]], of "running s" QSleep] by simp
  then show ?thesis using w by blast
qed

theorem timer_sleep_enqueues_in_order_witness:
  "\<exists>s'. timer_sleep 2 (booted None 0 False) = Inr s' \<and> set (waiting_list s') = {4096} \<and> waiting_ticks (thr s' 4096) = 2"
proof -
  have "\<exists>s'. timer_sleep 2 (booted None 0 False) = Inr s'"
    by (simp add: booted_def kexec timer_sleep_def timer_ticks_def sort_by_waiting_ticks_def cong: weak_congs)
  then obtain s' where s': "timer_sleep 2 (booted None 0 False) = Inr s'" by blast
  have b: "konts (booted None 0 False) (running (booted None 0 False)) = []" "running (booted None 0 False) = 4096"
    "waiting_list (booted None 0 False) = []" "ticks (booted None 0 False) = 0" by (simp_all add: booted_def)
  show ?thesis using timer_sleep_enqueues_in_order [OF kreach.start b(1) s'] s' unfolding b by auto
qed

end
