(* ===== verification/Bytes.thy ===== *)
theory Bytes
  imports Prelude
begin

text \<open>
  Structures as bytes. The i386 stores integers least significant byte first; \<open>le_bytes\<close> and
  \<open>le_val\<close> convert between a number and its bytes. \<open>overlay\<close> is the effect of copying a
  block of bytes into the middle of another, as \<^verbatim>\<open>memcpy\<close> into a buffer does.
\<close>

fun le_bytes :: "nat \<Rightarrow> nat \<Rightarrow> u8 list" where
  "le_bytes 0 v = []"
| "le_bytes (Suc n) v = of_nat (v mod 256) # le_bytes n (v div 256)"

fun le_val :: "u8 list \<Rightarrow> nat" where
  "le_val [] = 0"
| "le_val (b # bs) = unat b + 256 * le_val bs"

definition overlay :: "'a list \<Rightarrow> nat \<Rightarrow> 'a list \<Rightarrow> 'a list" where
  "overlay xs k ys = take k xs @ ys @ drop (k + length ys) xs"

lemma length_le_bytes [simp]: "length (le_bytes n v) = n"
  by (induction n arbitrary: v) auto

lemma unat_u8_less: "unat (b :: u8) < 256"
  using unsigned_less [where ?'a = nat and w = b] by simp

lemma le_val_le_bytes: "le_val (le_bytes n v) = v mod 256 ^ n"
proof (induction n arbitrary: v)
  case (Suc n)
  have "unat (of_nat (v mod 256) :: u8) = v mod 256" by (simp add: unat_of_nat take_bit_eq_mod)
  then show ?case using Suc [of "v div 256"] mod_mult2_eq [of v 256 "256 ^ n"] by simp
qed simp

lemma le_val_id [simp]: "v < 256 ^ n \<Longrightarrow> le_val (le_bytes n v) = v"
  by (simp add: le_val_le_bytes)

lemma le_bytes_le_val [simp]: "length bs = n \<Longrightarrow> le_bytes n (le_val bs) = bs"
proof (induction bs arbitrary: n)
  case (Cons b bs)
  have "unat b < 256" by (rule unat_u8_less)
  then show ?case using Cons by auto
qed simp

lemma le_val_zeros: "le_val (replicate n 0) = 0"
  by (induction n) auto

lemma le_val_less: "le_val bs < 256 ^ length bs"
proof (induction bs)
  case (Cons b bs)
  have "unat b < 256" by (rule unat_u8_less)
  then show ?case using Cons by simp
qed simp

lemma length_overlay [simp]: "k + length ys \<le> length xs \<Longrightarrow> length (overlay xs k ys) = length xs"
  by (simp add: overlay_def)

lemma overlay_Nil [simp]: "overlay xs k [] = xs"
  by (simp add: overlay_def)

lemma overlay_adjacent:
  assumes "k + length ys + length zs \<le> length xs"
  shows "overlay (overlay xs k ys) (k + length ys) zs = overlay xs k (ys @ zs)"
proof -
  have "min (length xs) k = k" using assms by simp
  then show ?thesis by (simp add: overlay_def ac_simps)
qed

lemma take_drop_overlay: "k + length ys \<le> length xs \<Longrightarrow> take (length ys) (drop k (overlay xs k ys)) = ys"
  by (simp add: overlay_def)

lemma nth_overlay:
  assumes "k + length ys \<le> length xs" "i < length xs"
  shows "overlay xs k ys ! i = (if k \<le> i \<and> i < k + length ys then ys ! (i - k) else xs ! i)"
  using assms by (auto simp: overlay_def nth_append min_def)

lemma take_overlay:
  assumes "k + length ys \<le> n" "n \<le> length xs"
  shows "take n (overlay xs k ys) = overlay (take n xs) k ys"
  using assms by (auto intro!: nth_equalityI simp: nth_overlay)

subsection \<open>Blocks of equal size\<close>

lemma length_concat_blocks:
  "(\<And>x. x \<in> set xss \<Longrightarrow> length x = n) \<Longrightarrow> length (concat xss) = n * length xss"
  by (induction xss) auto

lemma concat_blocks_slice:
  assumes "\<And>x. x \<in> set xss \<Longrightarrow> length x = n" "q < length xss" "r + c \<le> n"
  shows "take c (drop (n * q + r) (concat xss)) = take c (drop r (xss ! q))"
proof -
  have l: "length (concat (take q xss)) = n * q"
    using length_concat_blocks [of "take q xss" n] assms(1,2) by (auto simp: min_def dest: in_set_takeD)
  have c: "concat xss = concat (take q xss) @ xss ! q @ concat (drop (Suc q) xss)"
    using assms(2) by (metis id_take_nth_drop concat.simps(2) concat_append)
  have "length (xss ! q) = n" using assms(1,2) by simp
  then show ?thesis unfolding c using l assms(3) by simp
qed

lemma concat_blocks_update:
  assumes "\<And>x. x \<in> set xss \<Longrightarrow> length x = n" "q < length xss" "length y = n"
  shows "concat (xss[q := y]) = overlay (concat xss) (n * q) y"
proof -
  have l: "length (concat (take q xss)) = n * q"
    using length_concat_blocks [of "take q xss" n] assms(1,2) by (auto simp: min_def dest: in_set_takeD)
  have c: "concat xss = concat (take q xss) @ xss ! q @ concat (drop (Suc q) xss)"
    using assms(2) by (metis id_take_nth_drop concat.simps(2) concat_append)
  have "length (xss ! q) = n" using assms(1,2) by simp
  then have "overlay (concat xss) (n * q) y = concat (take q xss) @ y @ concat (drop (Suc q) xss)"
    unfolding c overlay_def using l assms(3) by simp
  then show ?thesis using assms(2) by (simp add: upd_conv_take_nth_drop)
qed

lemma overlay_overlay_inner:
  assumes "length y = n" "k + n \<le> length xs" "r + length z \<le> n"
    "take n (drop k xs) = y0" "y = overlay y0 r z"
  shows "overlay xs k y = overlay xs (k + r) z"
proof (rule nth_equalityI)
  have l0: "length y0 = n" using assms(2,4) by auto
  show "length (overlay xs k y) = length (overlay xs (k + r) z)" using assms by simp
  fix i assume "i < length (overlay xs k y)"
  then have i: "i < length xs" using assms by simp
  have y0: "y0 ! (i - k) = xs ! i" if "k \<le> i" "i < k + n" using assms(4) that i by auto
  show "overlay xs k y ! i = overlay xs (k + r) z ! i"
  proof (cases "k \<le> i \<and> i < k + n")
    case True
    then have "overlay xs k y ! i = overlay y0 r z ! (i - k)" using assms(1,2,5) i by (simp add: nth_overlay)
    also have "\<dots> = (if k + r \<le> i \<and> i < k + r + length z then z ! (i - (k + r)) else xs ! i)"
      using True assms(3) l0 y0 by (auto simp: nth_overlay)
    finally show ?thesis using i assms(2,3) by (simp add: nth_overlay)
  next
    case False
    then show ?thesis using i assms by (auto simp: nth_overlay)
  qed
qed

end
