(* ===== verification/Block.thy ===== *)
theory Block
  imports Bytes
begin

text \<open>
  Block devices (src/pintos2/src/devices/block.c), as the file system and swap use them: an
  array of 512-byte sectors behind a range check. The drivers under \<^verbatim>\<open>block->ops\<close>
  (devices/ide.c, devices/partition.c) program the hardware; here they are the sectors
  themselves, which keep what was last written to them. A sector number is a 32-bit unsigned
  number, kept as a natural number.
\<close>

definition BLOCK_SECTOR_SIZE :: nat where
  "BLOCK_SECTOR_SIZE = 512"

record block =
  block_size :: nat
  sectors :: "nat \<Rightarrow> u8 list"
  foreign :: bool
  read_cnt :: nat
  write_cnt :: nat

definition check_sector :: "block \<Rightarrow> nat \<Rightarrow> 'a res \<Rightarrow> 'a res" where
  "check_sector b sector k =
     (if sector \<ge> block_size b then Inl (Panic ''Access past end of device'') else k)"

definition block_read :: "nat \<Rightarrow> block \<Rightarrow> (u8 list \<times> block) res" where
  "block_read sector b =
     check_sector b sector (Inr (sectors b sector, b\<lparr>read_cnt := Suc (read_cnt b)\<rparr>))"

definition block_write :: "nat \<Rightarrow> u8 list \<Rightarrow> block \<Rightarrow> block res" where
  "block_write sector buf b =
     check_sector b sector
      (kassert (\<not> foreign b)
        (Inr (b\<lparr>sectors := (sectors b)(sector := buf), write_cnt := Suc (write_cnt b)\<rparr>)))"

lemma check_sector_ok [simp]: "sector < block_size b \<Longrightarrow> check_sector b sector k = k"
  by (simp add: check_sector_def)

lemma check_sector_cong [fundef_cong]:
  "b = b' \<Longrightarrow> n = n' \<Longrightarrow> (n' < block_size b' \<Longrightarrow> k = k') \<Longrightarrow> check_sector b n k = check_sector b' n' k'"
  by (simp add: check_sector_def)

text \<open>Device numbers fit in 32 bits and every sector holds 512 bytes.\<close>

definition block_wf :: "block \<Rightarrow> bool" where
  "block_wf b \<longleftrightarrow> block_size b < 2 ^ 32 \<and> \<not> foreign b \<and> (\<forall>k<block_size b. length (sectors b k) = BLOCK_SECTOR_SIZE)"

lemma block_wf_sector: "block_wf b \<Longrightarrow> k < block_size b \<Longrightarrow> length (sectors b k) = BLOCK_SECTOR_SIZE"
  by (simp add: block_wf_def)

lemma block_wf_counters [simp]:
  "block_wf (b\<lparr>read_cnt := n\<rparr>) = block_wf b" "block_wf (b\<lparr>write_cnt := n\<rparr>) = block_wf b"
  by (simp_all add: block_wf_def)

lemma block_write_wf:
  assumes "block_wf b" "length buf = BLOCK_SECTOR_SIZE" "block_write n buf b = Inr b'"
  shows "block_wf b'" "block_size b' = block_size b" "n < block_size b" "sectors b' = (sectors b)(n := buf)"
  using assms by (auto simp: block_write_def check_sector_def block_wf_def res_simps split: if_splits)

lemma block_write_ok:
  "block_wf b \<Longrightarrow> n < block_size b \<Longrightarrow>
     block_write n buf b = Inr (b\<lparr>sectors := (sectors b)(n := buf), write_cnt := Suc (write_cnt b)\<rparr>)"
  by (simp add: block_write_def block_wf_def)

lemma block_read_ok:
  "n < block_size b \<Longrightarrow> block_read n b = Inr (sectors b n, b\<lparr>read_cnt := Suc (read_cnt b)\<rparr>)"
  by (simp add: block_read_def)

subsection \<open>Runs of sectors\<close>

definition run_bytes :: "(nat \<Rightarrow> u8 list) \<Rightarrow> nat \<Rightarrow> nat \<Rightarrow> u8 list" where
  "run_bytes f start n = concat (map f [start..<start + n])"

lemma run_bytes_cong: "(\<And>k. start \<le> k \<Longrightarrow> k < start + n \<Longrightarrow> f k = g k) \<Longrightarrow> run_bytes f start n = run_bytes g start n"
  unfolding run_bytes_def by (rule arg_cong [where f = concat]) auto

lemma run_bytes_slice:
  assumes "\<And>k. start \<le> k \<Longrightarrow> k < start + n \<Longrightarrow> length (f k) = 512" "q < n" "r + c \<le> 512"
  shows "take c (drop (512 * q + r) (run_bytes f start n)) = take c (drop r (f (start + q)))"
  unfolding run_bytes_def using assms by (subst concat_blocks_slice [where n = 512]) auto

lemma length_run_bytes:
  assumes "\<And>k. start \<le> k \<Longrightarrow> k < start + n \<Longrightarrow> length (f k) = 512"
  shows "length (run_bytes f start n) = 512 * n"
  unfolding run_bytes_def using assms by (subst length_concat_blocks [where n = 512]) auto

lemma run_bytes_update:
  assumes "\<And>k. start \<le> k \<Longrightarrow> k < start + n \<Longrightarrow> length (f k) = 512" "q < n" "length y = 512"
  shows "run_bytes (f(start + q := y)) start n = overlay (run_bytes f start n) (512 * q) y"
proof -
  have "map (f(start + q := y)) [start..<start + n] = (map f [start..<start + n])[q := y]"
    using assms(2) by (auto intro!: nth_equalityI simp: nth_list_update)
  moreover have "concat ((map f [start..<start + n])[q := y]) = overlay (concat (map f [start..<start + n])) (512 * q) y"
    by (rule concat_blocks_update) (use assms in auto)
  ultimately show ?thesis unfolding run_bytes_def by simp
qed

lemma run_bytes_update_slice:
  assumes "\<And>k. start \<le> k \<Longrightarrow> k < start + n \<Longrightarrow> length (f k) = 512" "q < n" "r + length z \<le> 512"
  shows "run_bytes (f(start + q := overlay (f (start + q)) r z)) start n = overlay (run_bytes f start n) (512 * q + r) z"
proof -
  have l: "length (f (start + q)) = 512" using assms(1,2) by simp
  have s: "take 512 (drop (512 * q) (run_bytes f start n)) = f (start + q)"
    using run_bytes_slice [OF assms(1,2), where r = 0 and c = 512] l by simp
  have "512 * q + 512 \<le> length (run_bytes f start n)" using assms(2) length_run_bytes [OF assms(1)] by simp
  then have "overlay (run_bytes f start n) (512 * q) (overlay (f (start + q)) r z) = overlay (run_bytes f start n) (512 * q + r) z"
    by (intro overlay_overlay_inner [OF _ _ assms(3) s]) (use l assms(3) in auto)
  then show ?thesis using run_bytes_update [OF assms(1,2)] l assms(3) by simp
qed

end
