(* ===== verification/Inode.thy ===== *)
theory Inode
  imports Block Bitmap "HOL-Library.Signed_Division"
begin

text \<open>
  Inodes (src/pintos2/src/filesys/inode.c) and the state of the file system.

  \<^item> The state \<open>fs\<close> gathers the static variables of the modules: the device, the in-memory
    inodes and the list of the open ones (inode.c), the free map and its file (free-map.c), the
    open \<^verbatim>\<open>struct file\<close> and \<^verbatim>\<open>struct dir\<close> objects, the lock of filesys.c. Pointers to inodes,
    files and directories are addresses; 0 is \<^verbatim>\<open>NULL\<close>.
  \<^item> \<^verbatim>\<open>malloc\<close> may fail at any call: \<open>mallocs k\<close> says whether the \<open>k\<close>-th call from now succeeds;
    \<open>mcount\<close> counts the calls.
  \<^item> \<^verbatim>\<open>off_t\<close> values are integers, with C's truncating division; sector numbers are natural
    numbers below \<open>2 ^ 32\<close>. A signed overflow is \<open>Undefined\<close>.
  \<^item> A buffer that an operation fills is the list of the bytes it has filled in.
  \<^item> \<open>junk_entry\<close> is what the uninitialised \<^verbatim>\<open>struct dir_entry\<close> of \<^verbatim>\<open>dir_add\<close> holds.
\<close>

definition INODE_MAGIC :: nat where
  "INODE_MAGIC = 0x494e4f44"

record inode_disk =
  di_start :: nat
  di_length :: int
  di_magic :: nat
  di_unused :: "u8 list"

record inode =
  i_sector :: nat
  open_cnt :: int
  removed :: bool
  deny_write_cnt :: int
  i_data :: inode_disk

record open_file =
  f_inode :: nat
  f_pos :: int
  deny_write :: bool

record dir =
  d_inode :: nat
  d_pos :: int

record fs =
  fs_device :: block
  inodes :: "nat \<rightharpoonup> inode"
  open_inodes :: "nat list"
  free_map :: bitmap
  free_map_file :: nat
  files :: "nat \<rightharpoonup> open_file"
  dirs :: "nat \<rightharpoonup> dir"
  filesys_lock :: bool
  mallocs :: "nat \<Rightarrow> bool"
  mcount :: nat
  last_ptr :: nat
  junk_entry :: "u8 list"

subsection \<open>The on-disk inode\<close>

definition i32_of :: "nat \<Rightarrow> int" where
  "i32_of n = (if n < 2 ^ 31 then int n else int n - 2 ^ 32)"

definition inode_disk_bytes :: "inode_disk \<Rightarrow> u8 list" where
  "inode_disk_bytes d =
     le_bytes 4 (di_start d) @ le_bytes 4 (nat (di_length d mod 2 ^ 32)) @ le_bytes 4 (di_magic d) @ di_unused d"

definition inode_disk_of :: "u8 list \<Rightarrow> inode_disk" where
  "inode_disk_of bs =
     \<lparr>di_start = le_val (take 4 bs), di_length = i32_of (le_val (take 4 (drop 4 bs))),
      di_magic = le_val (take 4 (drop 8 bs)), di_unused = drop 12 bs\<rparr>"

definition inode_disk_wf :: "inode_disk \<Rightarrow> bool" where
  "inode_disk_wf d \<longleftrightarrow> di_start d < 2 ^ 32 \<and> - (2 ^ 31) \<le> di_length d \<and> di_length d < 2 ^ 31 \<and>
     di_magic d < 2 ^ 32 \<and> length (di_unused d) = 500"

subsection \<open>Memory and device\<close>

definition fs_malloc :: "fs \<Rightarrow> nat \<times> fs" where
  "fs_malloc s =
     (let s1 = s\<lparr>mcount := Suc (mcount s)\<rparr>
      in if mallocs s (mcount s) then (Suc (last_ptr s), s1\<lparr>last_ptr := Suc (last_ptr s)\<rparr>) else (0, s1))"

definition fs_read :: "nat \<Rightarrow> fs \<Rightarrow> (u8 list \<times> fs) res" where
  "fs_read sector s =
     rbind (block_read sector (fs_device s)) (\<lambda>(d, b). Inr (d, s\<lparr>fs_device := b\<rparr>))"

definition fs_write :: "nat \<Rightarrow> u8 list \<Rightarrow> fs \<Rightarrow> fs res" where
  "fs_write sector buf s =
     rbind (block_write sector buf (fs_device s)) (\<lambda>b. Inr (s\<lparr>fs_device := b\<rparr>))"

definition get_inode :: "nat \<Rightarrow> fs \<Rightarrow> inode res" where
  "get_inode i s = (case inodes s i of None \<Rightarrow> Inl Undefined | Some ino \<Rightarrow> Inr ino)"

definition upd_inode :: "nat \<Rightarrow> (inode \<Rightarrow> inode) \<Rightarrow> fs \<Rightarrow> fs" where
  "upd_inode i f s = s\<lparr>inodes := (inodes s)(i := map_option f (inodes s i))\<rparr>"

subsection \<open>Operations\<close>

definition bytes_to_sectors :: "int \<Rightarrow> nat res" where
  "bytes_to_sectors n = kdefined (n + 511 < 2 ^ 31) (Inr (nat ((n + 511) sdiv 512 mod 2 ^ 32)))"

definition byte_to_sector :: "inode \<Rightarrow> int \<Rightarrow> nat" where
  "byte_to_sector ino pos =
     (if pos < di_length (i_data ino) then nat ((int (di_start (i_data ino)) + pos sdiv 512) mod 2 ^ 32)
      else 2 ^ 32 - 1)"

definition inode_init :: "fs \<Rightarrow> fs" where
  "inode_init s = s\<lparr>open_inodes := []\<rparr>"

definition inode_reopen :: "nat \<Rightarrow> fs \<Rightarrow> (nat \<times> fs) res" where
  "inode_reopen i s =
     (if i \<noteq> 0
      then rbind (get_inode i s) (\<lambda>_. Inr (i, upd_inode i (\<lambda>ino. ino\<lparr>open_cnt := open_cnt ino + 1\<rparr>) s))
      else Inr (i, s))"

definition inode_get_inumber :: "nat \<Rightarrow> fs \<Rightarrow> nat res" where
  "inode_get_inumber i s = rbind (get_inode i s) (\<lambda>ino. Inr (i_sector ino))"

definition inode_remove :: "nat \<Rightarrow> fs \<Rightarrow> fs res" where
  "inode_remove i s =
     kassert (i \<noteq> 0) (rbind (get_inode i s) (\<lambda>_. Inr (upd_inode i (\<lambda>ino. ino\<lparr>removed := True\<rparr>) s)))"

definition inode_length :: "nat \<Rightarrow> fs \<Rightarrow> int res" where
  "inode_length i s = rbind (get_inode i s) (\<lambda>ino. Inr (di_length (i_data ino)))"

definition inode_deny_write :: "nat \<Rightarrow> fs \<Rightarrow> fs res" where
  "inode_deny_write i s =
     rbind (get_inode i s) (\<lambda>ino.
       kassert (deny_write_cnt ino + 1 \<le> open_cnt ino)
        (Inr (upd_inode i (\<lambda>ino. ino\<lparr>deny_write_cnt := deny_write_cnt ino + 1\<rparr>) s)))"

definition inode_allow_write :: "nat \<Rightarrow> fs \<Rightarrow> fs res" where
  "inode_allow_write i s =
     rbind (get_inode i s) (\<lambda>ino.
       kassert (deny_write_cnt ino > 0)
        (kassert (deny_write_cnt ino \<le> open_cnt ino)
          (Inr (upd_inode i (\<lambda>ino. ino\<lparr>deny_write_cnt := deny_write_cnt ino - 1\<rparr>) s))))"

text \<open>How much of the current sector an iteration of the copying loops handles.\<close>

definition chunk_size :: "inode \<Rightarrow> int \<Rightarrow> int \<Rightarrow> int" where
  "chunk_size ino n offset =
     (let sector_ofs = offset smod 512;
          inode_left = di_length (i_data ino) - offset;
          sector_left = 512 - sector_ofs;
          min_left = (if inode_left < sector_left then inode_left else sector_left)
      in if n < min_left then n else min_left)"

function (sequential) inode_read_at_loop ::
  "inode \<Rightarrow> bool \<Rightarrow> int \<Rightarrow> int \<Rightarrow> int \<Rightarrow> u8 list \<Rightarrow> fs \<Rightarrow> (int \<times> u8 list \<times> fs) res" where
  "inode_read_at_loop ino bounce n offset bytes_read buf s =
     (if n > 0 then
        let sector_idx = byte_to_sector ino offset; sector_ofs = offset smod 512; chunk = chunk_size ino n offset
        in if chunk \<le> 0 then Inr (bytes_read, buf, s)
           else if sector_ofs = 0 \<and> chunk = 512
           then rbind (fs_read sector_idx s) (\<lambda>(d, s1).
                  inode_read_at_loop ino bounce (n - chunk) (offset + chunk) (bytes_read + chunk) (buf @ d) s1)
           else let (b, s1) = (if bounce then (1, s) else fs_malloc s)
                in if b = 0 then Inr (bytes_read, buf, s1)
                   else rbind (fs_read sector_idx s1) (\<lambda>(d, s2).
                          kdefined (0 \<le> sector_ofs)
                           (inode_read_at_loop ino True (n - chunk) (offset + chunk) (bytes_read + chunk)
                             (buf @ take (nat chunk) (drop (nat sector_ofs) d)) s2))
      else Inr (bytes_read, buf, s))"
  by pat_completeness auto
termination
  by (relation "measure (\<lambda>(ino, bounce, n, offset, bytes_read, buf, s). nat n)") auto

definition inode_read_at :: "nat \<Rightarrow> int \<Rightarrow> int \<Rightarrow> fs \<Rightarrow> (int \<times> u8 list \<times> fs) res" where
  "inode_read_at i n offset s =
     (if n > 0 then kassert (i \<noteq> 0) (rbind (get_inode i s) (\<lambda>ino. inode_read_at_loop ino False n offset 0 [] s))
      else Inr (0, [], s))"

text \<open>The bounce buffer of a write: the old sector if part of it is to stay, zeros otherwise,
  with the new bytes copied in.\<close>

function (sequential) inode_write_at_loop ::
  "inode \<Rightarrow> u8 list \<Rightarrow> bool \<Rightarrow> int \<Rightarrow> int \<Rightarrow> int \<Rightarrow> fs \<Rightarrow> (int \<times> fs) res" where
  "inode_write_at_loop ino buffer bounce n offset bytes_written s =
     (if n > 0 then
        let sector_idx = byte_to_sector ino offset; sector_ofs = offset smod 512; chunk = chunk_size ino n offset;
            src = take (nat chunk) (drop (nat bytes_written) buffer)
        in if chunk \<le> 0 then Inr (bytes_written, s)
           else kdefined (bytes_written + chunk \<le> int (length buffer))
            (if sector_ofs = 0 \<and> chunk = 512
             then rbind (fs_write sector_idx src s) (\<lambda>s1.
                    inode_write_at_loop ino buffer bounce (n - chunk) (offset + chunk) (bytes_written + chunk) s1)
             else let (b, s1) = (if bounce then (1, s) else fs_malloc s)
                  in if b = 0 then Inr (bytes_written, s1)
                     else rbind (if sector_ofs > 0 \<or> chunk < 512 - sector_ofs then fs_read sector_idx s1
                                 else Inr (replicate 512 0, s1)) (\<lambda>(d, s2).
                          kdefined (0 \<le> sector_ofs)
                           (rbind (fs_write sector_idx (overlay d (nat sector_ofs) src) s2) (\<lambda>s3.
                              inode_write_at_loop ino buffer True (n - chunk) (offset + chunk) (bytes_written + chunk) s3))))
      else Inr (bytes_written, s))"
  by pat_completeness auto
termination
  by (relation "measure (\<lambda>(ino, buffer, bounce, n, offset, bytes_written, s). nat n)") auto

definition inode_write_at :: "nat \<Rightarrow> u8 list \<Rightarrow> int \<Rightarrow> int \<Rightarrow> fs \<Rightarrow> (int \<times> fs) res" where
  "inode_write_at i buffer n offset s =
     rbind (get_inode i s) (\<lambda>ino.
       if deny_write_cnt ino \<noteq> 0 then Inr (0, s)
       else inode_write_at_loop ino buffer False n offset 0 s)"

declare inode_read_at_loop.simps [simp del] inode_write_at_loop.simps [simp del]

subsection \<open>Reading\<close>

lemma i32_of_nat: "- (2 ^ 31) \<le> x \<Longrightarrow> x < 2 ^ 31 \<Longrightarrow> i32_of (nat (x mod 2 ^ 32)) = x"
proof -
  assume x: "- (2 ^ 31) \<le> x" "x < 2 ^ 31"
  have "x mod 2 ^ 32 = (if 0 \<le> x then x else x + 2 ^ 32)"
    using x by (auto intro: mod_pos_pos_trivial) (smt (verit) mod_add_self2 mod_pos_pos_trivial)
  then show ?thesis using x by (auto simp: i32_of_def)
qed

lemma inode_disk_roundtrip:
  assumes "inode_disk_wf d"
  shows "inode_disk_of (inode_disk_bytes d) = d" "length (inode_disk_bytes d) = 512"
proof -
  have "nat (di_length d mod 2 ^ 32) < 256 ^ 4" by (simp add: nat_less_iff)
  moreover have "i32_of (nat (di_length d mod 2 ^ 32)) = di_length d" using assms i32_of_nat [of "di_length d"] unfolding inode_disk_wf_def by blast
  ultimately show "inode_disk_of (inode_disk_bytes d) = d" "length (inode_disk_bytes d) = 512"
    using assms by (auto simp: inode_disk_wf_def inode_disk_of_def inode_disk_bytes_def)
qed

subsection \<open>What reads and writes do to the bytes of a file\<close>

definition sector_cnt :: "int \<Rightarrow> nat" where
  "sector_cnt len = (nat len + 511) div 512"

definition inode_bytes :: "(nat \<Rightarrow> u8 list) \<Rightarrow> inode_disk \<Rightarrow> u8 list" where
  "inode_bytes f d = take (nat (di_length d)) (run_bytes f (di_start d) (sector_cnt (di_length d)))"

definition inode_ok :: "block \<Rightarrow> inode_disk \<Rightarrow> bool" where
  "inode_ok b d \<longleftrightarrow> block_wf b \<and> 0 \<le> di_length d \<and> di_length d < 2 ^ 31 - 511 \<and>
     di_start d + sector_cnt (di_length d) \<le> block_size b"

text \<open>Two states that differ only in the counters.\<close>

definition quiet :: "fs \<Rightarrow> fs \<Rightarrow> bool" where
  "quiet s s' \<longleftrightarrow> last_ptr s \<le> last_ptr s' \<and>
     s' = s\<lparr>fs_device := (fs_device s)\<lparr>read_cnt := read_cnt (fs_device s')\<rparr>, mcount := mcount s', last_ptr := last_ptr s'\<rparr>"

lemma quiet_refl [simp]: "quiet s s"
  by (simp add: quiet_def)

lemma quiet_trans: "quiet s s' \<Longrightarrow> quiet s' s'' \<Longrightarrow> quiet s s''"
  unfolding quiet_def
  by (cases s; cases s'; cases s''; cases "fs_device s"; cases "fs_device s'"; cases "fs_device s''") auto

lemma quietD:
  assumes "quiet s s'"
  shows "sectors (fs_device s') = sectors (fs_device s)" "block_size (fs_device s') = block_size (fs_device s)"
    "block_wf (fs_device s') = block_wf (fs_device s)" "mallocs s' = mallocs s" "inodes s' = inodes s"
    "open_inodes s' = open_inodes s" "free_map s' = free_map s" "free_map_file s' = free_map_file s"
    "files s' = files s" "dirs s' = dirs s" "filesys_lock s' = filesys_lock s" "junk_entry s' = junk_entry s"
    "last_ptr s \<le> last_ptr s'" "inode_ok (fs_device s') d = inode_ok (fs_device s) d"
proof -
  have e: "s' = s\<lparr>fs_device := (fs_device s)\<lparr>read_cnt := read_cnt (fs_device s')\<rparr>, mcount := mcount s', last_ptr := last_ptr s'\<rparr>"
    using assms unfolding quiet_def by blast
  show "sectors (fs_device s') = sectors (fs_device s)" "block_size (fs_device s') = block_size (fs_device s)"
    "block_wf (fs_device s') = block_wf (fs_device s)" "mallocs s' = mallocs s" "inodes s' = inodes s"
    "open_inodes s' = open_inodes s" "free_map s' = free_map s" "free_map_file s' = free_map_file s"
    "files s' = files s" "dirs s' = dirs s" "filesys_lock s' = filesys_lock s" "junk_entry s' = junk_entry s"
    "inode_ok (fs_device s') d = inode_ok (fs_device s) d"
    by (subst e, simp add: inode_ok_def)+
  show "last_ptr s \<le> last_ptr s'" using assms by (simp add: quiet_def)
qed

lemma quiet_malloc: "fs_malloc s = (p, s') \<Longrightarrow> quiet s s' \<and> (mallocs s (mcount s) \<longleftrightarrow> p \<noteq> 0)"
  by (auto simp: fs_malloc_def quiet_def Let_def split: if_splits)

lemma fs_read_ok:
  "k < block_size (fs_device s) \<Longrightarrow>
     \<exists>s'. fs_read k s = Inr (sectors (fs_device s) k, s') \<and> quiet s s'"
  by (simp add: fs_read_def quiet_def block_read_ok)

lemma sdivmod_nonneg: "0 \<le> (a :: int) \<Longrightarrow> a sdiv 512 = a div 512" "0 \<le> a \<Longrightarrow> a smod 512 = a mod 512"
  by (auto simp: signed_divide_int_def signed_modulo_int_def sgn_if minus_div_mult_eq_mod)

text \<open>Where an iteration at a given offset works: the sector, the place in it and the length.\<close>

lemma chunk_geometry:
  assumes "inode_ok b (i_data ino)" "0 \<le> offset" "0 < n" "chunk_size ino n offset = c"
  shows "c \<le> n" "c \<le> di_length (i_data ino) - offset"
    "c \<le> 0 \<longleftrightarrow> di_length (i_data ino) \<le> offset"
    "0 < c \<Longrightarrow> byte_to_sector ino offset = di_start (i_data ino) + nat offset div 512"
    "0 < c \<Longrightarrow> nat offset div 512 < sector_cnt (di_length (i_data ino))"
    "offset smod 512 = int (nat offset mod 512)"
    "nat offset mod 512 + nat c \<le> 512"
    "0 < c \<Longrightarrow> di_start (i_data ino) + nat offset div 512 < block_size b"
proof -
  let ?len = "di_length (i_data ino)" and ?st = "di_start (i_data ino)"
  obtain o' where o': "offset = int o'" using assms(2) nonneg_int_cases by blast
  show sm: "offset smod 512 = int (nat offset mod 512)" using o' by (simp add: sdivmod_nonneg zmod_int)
  have c: "c = (let m = min (?len - offset) (512 - int (nat offset mod 512)) in min n m)"
    using assms(4) unfolding chunk_size_def sm by (auto simp: Let_def min_def)
  have r: "nat offset mod 512 < 512" by simp
  show c1: "c \<le> n" "c \<le> ?len - offset" using c by (simp_all add: Let_def)
  show "nat offset mod 512 + nat c \<le> 512" using c r by (simp add: Let_def) linarith
  show "c \<le> 0 \<longleftrightarrow> ?len \<le> offset" using c r assms(3) by (simp add: Let_def min_def) linarith
  assume "0 < c"
  then have lt: "offset < ?len" using c1 by simp
  then show q: "nat offset div 512 < sector_cnt ?len"
    unfolding sector_cnt_def using o' by (simp add: less_eq_div_iff_mult_less_eq Suc_le_eq [symmetric])
  then show d: "?st + nat offset div 512 < block_size b" using assms(1) by (simp add: inode_ok_def)
  have "?st + nat offset div 512 < 2 ^ 32" using d assms(1) by (simp add: inode_ok_def block_wf_def)
  then show "byte_to_sector ino offset = ?st + nat offset div 512"
    using lt o' unfolding byte_to_sector_def by (simp add: sdivmod_nonneg nat_mod_distrib nat_add_distrib zdiv_int flip: of_nat_add)
qed

lemma slice_of_inode:
  assumes "inode_ok b d" "nat offset div 512 < sector_cnt (di_length d)" "nat offset mod 512 + c \<le> 512"
    "int c \<le> di_length d - offset" "0 \<le> offset"
  shows "take c (drop (nat offset mod 512) (sectors b (di_start d + nat offset div 512))) =
         take c (drop (nat offset) (inode_bytes (sectors b) d))"
proof -
  have w: "\<And>k. di_start d \<le> k \<Longrightarrow> k < di_start d + sector_cnt (di_length d) \<Longrightarrow> length (sectors b k) = 512"
    using assms(1) by (auto simp: inode_ok_def block_wf_def BLOCK_SECTOR_SIZE_def)
  have "take c (drop (512 * (nat offset div 512) + nat offset mod 512) (run_bytes (sectors b) (di_start d) (sector_cnt (di_length d)))) =
     take c (drop (nat offset mod 512) (sectors b (di_start d + nat offset div 512)))"
    by (rule run_bytes_slice [OF w assms(2,3)]) auto
  moreover have "nat offset + c \<le> nat (di_length d)" using assms(4,5) by linarith
  then have "min c (nat (di_length d) - nat offset) = c" by simp
  ultimately show ?thesis unfolding inode_bytes_def by (simp add: drop_take)
qed

lemma nat_chunk_min:
  "0 < c \<Longrightarrow> c \<le> n \<Longrightarrow> c \<le> m \<Longrightarrow> nat c + min (nat (n - c)) (nat (m - c)) = min (nat n) (nat m)" for c n m :: int
  by (auto simp: min_def)

lemma inode_read_at_loop_stop:
  assumes "inode_ok (fs_device s) (i_data ino)" "0 \<le> offset" "n \<le> 0 \<or> di_length (i_data ino) \<le> offset"
  shows "inode_read_at_loop ino bounce n offset br buf s = Inr (br, buf, s)"
  using assms(3) chunk_geometry(3) [OF assms(1,2)]
  by (subst inode_read_at_loop.simps) (auto simp: Let_def not_less [symmetric])

lemma inode_read_at_loop_step:
  assumes "inode_ok (fs_device s) (i_data ino)" "0 \<le> offset" "0 < n" "offset < di_length (i_data ino)"
    "chunk_size ino n offset = c"
  shows "(\<exists>s1. inode_read_at_loop ino bounce n offset br buf s = Inr (br, buf, s1) \<and> quiet s s1 \<and> \<not> (\<forall>j. mallocs s j)) \<or>
     (\<exists>b' s2. quiet s s2 \<and> inode_read_at_loop ino bounce n offset br buf s =
        inode_read_at_loop ino b' (n - c) (offset + c) (br + c)
          (buf @ take (nat c) (drop (nat offset) (inode_bytes (sectors (fs_device s)) (i_data ino)))) s2)"
proof -
  let ?d = "i_data ino"
  let ?k = "di_start ?d + nat offset div 512" and ?r = "nat offset mod 512"
  note g = chunk_geometry [OF assms(1-3) assms(5)]
  have c: "0 < c" using g(3) assms(4) by simp
  have sl: "take (nat c) (drop (nat offset) (inode_bytes (sectors (fs_device s)) ?d)) =
      take (nat c) (drop ?r (sectors (fs_device s) ?k))"
    using slice_of_inode [OF assms(1) g(5) g(7)] c g(2) assms(2) by simp
  have len: "length (sectors (fs_device s) ?k) = 512"
    using assms(1) g(8) c by (auto simp: inode_ok_def block_wf_def BLOCK_SECTOR_SIZE_def)
  obtain b s1 where m: "(if bounce then (1, s) else fs_malloc s) = (b, s1)" by fastforce
  have q1: "quiet s s1" "b = 0 \<Longrightarrow> \<not> (\<forall>j. mallocs s j)" using m quiet_malloc by (auto split: if_splits)
  obtain s2 where s2: "fs_read ?k s = Inr (sectors (fs_device s) ?k, s2)" "quiet s s2"
    using fs_read_ok g(8) c by blast
  obtain s3 where s3: "fs_read ?k s1 = Inr (sectors (fs_device s) ?k, s3)" "quiet s1 s3"
    using fs_read_ok [of ?k s1] g(8) c quietD(1,2) [OF q1(1)] by auto
  note u = inode_read_at_loop.simps [of ino bounce n offset br buf s]
  consider "?r = 0 \<and> c = 512" | "\<not> (?r = 0 \<and> c = 512)" "b = 0" | "\<not> (?r = 0 \<and> c = 512)" "b \<noteq> 0" by blast
  then show ?thesis
  proof cases
    case 1
    then have "inode_read_at_loop ino bounce n offset br buf s =
        inode_read_at_loop ino bounce (n - c) (offset + c) (br + c) (buf @ take (nat c) (drop ?r (sectors (fs_device s) ?k))) s2"
      using u assms(3,5) g(4,6) c s2(1) len by (simp add: Let_def)
    then show ?thesis unfolding sl using s2(2) by blast
  next
    case 2
    then have "inode_read_at_loop ino bounce n offset br buf s = Inr (br, buf, s1)"
      using u m assms(3,5) g(4,6) c by (auto simp: Let_def)
    then show ?thesis using q1 2 by blast
  next
    case 3
    then have "inode_read_at_loop ino bounce n offset br buf s =
        inode_read_at_loop ino True (n - c) (offset + c) (br + c) (buf @ take (nat c) (drop ?r (sectors (fs_device s) ?k))) s3"
      using u m assms(3,5) g(4,6) c s3(1) by (auto simp: Let_def)
    then show ?thesis unfolding sl using q1(1) s3(2) quiet_trans by blast
  qed
qed

lemma inode_read_at_loop_spec:
  assumes "inode_ok (fs_device s) (i_data ino)" "0 \<le> offset"
  shows "\<exists>k s'. inode_read_at_loop ino bounce n offset br buf s =
       Inr (br + int k, buf @ take k (drop (nat offset) (inode_bytes (sectors (fs_device s)) (i_data ino))), s') \<and>
     quiet s s' \<and> k \<le> min (nat n) (nat (di_length (i_data ino) - offset)) \<and>
     ((\<forall>j. mallocs s j) \<longrightarrow> k = min (nat n) (nat (di_length (i_data ino) - offset)))"
  using assms
proof (induction "nat n" arbitrary: bounce n offset br buf s rule: less_induct)
  case less
  let ?d = "i_data ino" and ?c = "chunk_size ino n offset" and ?D = "inode_bytes (sectors (fs_device s)) (i_data ino)"
  show ?case
  proof (cases "0 < n \<and> offset < di_length ?d")
    case False
    then show ?thesis using inode_read_at_loop_stop [OF less(2,3)] by (intro exI [of _ 0] exI [of _ s]) auto
  next
    case True
    then have n: "0 < n" "offset < di_length ?d" by auto
    note g = chunk_geometry [OF less(2,3) n(1) HOL.refl]
    have c: "0 < ?c" using g(3) n(2) by simp
    from inode_read_at_loop_step [OF less(2,3) n HOL.refl, of bounce br buf] show ?thesis
    proof (elim disjE exE conjE)
      fix s1 assume "inode_read_at_loop ino bounce n offset br buf s = Inr (br, buf, s1)" "quiet s s1" "\<not> (\<forall>j. mallocs s j)"
      then show ?thesis by (intro exI [of _ 0] exI [of _ s1]) auto
    next
      fix b' s2 assume q: "quiet s s2" and e: "inode_read_at_loop ino bounce n offset br buf s =
        inode_read_at_loop ino b' (n - ?c) (offset + ?c) (br + ?c) (buf @ take (nat ?c) (drop (nat offset) ?D)) s2"
      have "nat (n - ?c) < nat n" using c n(1) by simp
      from less(1) [OF this, of s2 "offset + ?c" b' "br + ?c" "buf @ take (nat ?c) (drop (nat offset) ?D)"]
      obtain k s' where k: "inode_read_at_loop ino b' (n - ?c) (offset + ?c) (br + ?c) (buf @ take (nat ?c) (drop (nat offset) ?D)) s2 =
          Inr (br + ?c + int k, (buf @ take (nat ?c) (drop (nat offset) ?D)) @ take k (drop (nat (offset + ?c)) ?D), s')" "quiet s2 s'"
          "k \<le> min (nat (n - ?c)) (nat (di_length ?d - (offset + ?c)))"
          "(\<forall>j. mallocs s j) \<longrightarrow> k = min (nat (n - ?c)) (nat (di_length ?d - (offset + ?c)))"
        using less(2,3) c quietD(1,4,14) [OF q] by auto
      have o: "nat (offset + ?c) = nat offset + nat ?c" using c less(3) by simp
      have "take (nat ?c) (drop (nat offset) ?D) @ take k (drop (nat (offset + ?c)) ?D) = take (nat ?c + k) (drop (nat offset) ?D)"
        unfolding o by (simp add: take_add [of "nat ?c"] add.commute [of "nat offset"])
      then have "inode_read_at_loop ino bounce n offset br buf s = Inr (br + int (nat ?c + k), buf @ take (nat ?c + k) (drop (nat offset) ?D), s')"
        using e k(1) c by simp
      moreover have "nat ?c + k \<le> min (nat n) (nat (di_length ?d - offset))" using k(3) c g(1,2) less(3) by auto
      moreover have "(\<forall>j. mallocs s j) \<longrightarrow> nat ?c + k = min (nat n) (nat (di_length ?d - offset))"
        using k(4) nat_chunk_min [OF c g(1,2)] by (simp add: diff_diff_eq)
      ultimately show ?thesis using quiet_trans [OF q k(2)] by blast
    qed
  qed
qed


subsection \<open>Writing\<close>

text \<open>Two states that differ only in the counters and in the contents of the sectors of a set.\<close>

definition wrote :: "nat set \<Rightarrow> fs \<Rightarrow> fs \<Rightarrow> bool" where
  "wrote X s s' \<longleftrightarrow> last_ptr s \<le> last_ptr s' \<and>
     s' = s\<lparr>fs_device := fs_device s', mcount := mcount s', last_ptr := last_ptr s'\<rparr> \<and>
     block_size (fs_device s') = block_size (fs_device s) \<and> (block_wf (fs_device s) \<longrightarrow> block_wf (fs_device s')) \<and>
     (\<forall>k. k \<notin> X \<longrightarrow> sectors (fs_device s') k = sectors (fs_device s) k)"

lemma wroteD:
  assumes "wrote X s s'"
  shows "k \<notin> X \<Longrightarrow> sectors (fs_device s') k = sectors (fs_device s) k" "block_size (fs_device s') = block_size (fs_device s)"
    "block_wf (fs_device s) \<Longrightarrow> block_wf (fs_device s')" "mallocs s' = mallocs s" "inodes s' = inodes s"
    "open_inodes s' = open_inodes s" "free_map s' = free_map s" "free_map_file s' = free_map_file s"
    "files s' = files s" "dirs s' = dirs s" "filesys_lock s' = filesys_lock s" "junk_entry s' = junk_entry s"
    "last_ptr s \<le> last_ptr s'" "inode_ok (fs_device s) d \<Longrightarrow> inode_ok (fs_device s') d"
proof -
  have e: "s' = s\<lparr>fs_device := fs_device s', mcount := mcount s', last_ptr := last_ptr s'\<rparr>"
    using assms unfolding wrote_def by blast
  show "mallocs s' = mallocs s" "inodes s' = inodes s"
    "open_inodes s' = open_inodes s" "free_map s' = free_map s" "free_map_file s' = free_map_file s"
    "files s' = files s" "dirs s' = dirs s" "filesys_lock s' = filesys_lock s" "junk_entry s' = junk_entry s"
    by (subst e, simp)+
  show "k \<notin> X \<Longrightarrow> sectors (fs_device s') k = sectors (fs_device s) k" "block_size (fs_device s') = block_size (fs_device s)"
    "block_wf (fs_device s) \<Longrightarrow> block_wf (fs_device s')" "last_ptr s \<le> last_ptr s'"
    "inode_ok (fs_device s) d \<Longrightarrow> inode_ok (fs_device s') d"
    using assms by (auto simp: wrote_def inode_ok_def)
qed

lemma quiet_wrote: "quiet s s' \<Longrightarrow> wrote X s s'"
  using quietD [of s s'] unfolding wrote_def quiet_def by (cases s; cases s') auto

lemma wrote_trans:
  assumes "wrote X s s'" "wrote Y s' s''"
  shows "wrote (X \<union> Y) s s''"
proof -
  have "s'' = s\<lparr>fs_device := fs_device s'', mcount := mcount s'', last_ptr := last_ptr s''\<rparr>"
    using assms unfolding wrote_def by (cases s; cases s'; cases s'') auto
  then show ?thesis using assms unfolding wrote_def by auto
qed

lemma wrote_trans_same: "wrote X s s' \<Longrightarrow> wrote X s' s'' \<Longrightarrow> wrote X s s''"
  using wrote_trans [of X s s' X s''] by simp

lemma wrote_mono: "wrote X s s' \<Longrightarrow> X \<subseteq> Y \<Longrightarrow> wrote Y s s'"
  unfolding wrote_def by blast

lemma fs_write_ok:
  assumes "block_wf (fs_device s)" "k < block_size (fs_device s)" "length buf = 512"
  shows "\<exists>s'. fs_write k buf s = Inr s' \<and> wrote {k} s s' \<and> sectors (fs_device s') = (sectors (fs_device s))(k := buf)"
  using assms block_write_ok [OF assms(1,2), of buf]
  by (auto simp: fs_write_def wrote_def block_wf_def BLOCK_SECTOR_SIZE_def)

definition inode_extent :: "inode_disk \<Rightarrow> nat set" where
  "inode_extent d = {di_start d..<di_start d + sector_cnt (di_length d)}"

lemma inode_ok_run:
  assumes "inode_ok b d"
  shows "\<And>k. di_start d \<le> k \<Longrightarrow> k < di_start d + sector_cnt (di_length d) \<Longrightarrow> length (sectors b k) = 512"
    "length (run_bytes (sectors b) (di_start d) (sector_cnt (di_length d))) = 512 * sector_cnt (di_length d)"
    "nat (di_length d) \<le> 512 * sector_cnt (di_length d)"
proof -
  show l: "\<And>k. di_start d \<le> k \<Longrightarrow> k < di_start d + sector_cnt (di_length d) \<Longrightarrow> length (sectors b k) = 512"
    using assms by (auto simp: inode_ok_def block_wf_def BLOCK_SECTOR_SIZE_def)
  show "length (run_bytes (sectors b) (di_start d) (sector_cnt (di_length d))) = 512 * sector_cnt (di_length d)"
    by (rule length_run_bytes [OF l])
  show "nat (di_length d) \<le> 512 * sector_cnt (di_length d)" unfolding sector_cnt_def by simp
qed

lemma length_inode_bytes: "inode_ok b d \<Longrightarrow> length (inode_bytes (sectors b) d) = nat (di_length d)"
  using inode_ok_run(2,3) [of b d] by (simp add: inode_bytes_def)

lemma inode_bytes_outside:
  "(\<And>k. k \<in> inode_extent d \<Longrightarrow> f k = g k) \<Longrightarrow> inode_bytes f d = inode_bytes g d"
  unfolding inode_bytes_def by (subst run_bytes_cong [of _ _ f g]) (auto simp: inode_extent_def)

lemma inode_bytes_update:
  assumes "inode_ok b d" "nat offset div 512 < sector_cnt (di_length d)" "nat offset mod 512 + length z \<le> 512"
    "int (length z) \<le> di_length d - offset" "0 \<le> offset"
    "f = (sectors b)(di_start d + nat offset div 512 := overlay (sectors b (di_start d + nat offset div 512)) (nat offset mod 512) z)"
  shows "inode_bytes f d = overlay (inode_bytes (sectors b) d) (nat offset) z"
proof -
  have "run_bytes f (di_start d) (sector_cnt (di_length d)) =
      overlay (run_bytes (sectors b) (di_start d) (sector_cnt (di_length d))) (nat offset) z"
    unfolding assms(6) by (subst run_bytes_update_slice [OF inode_ok_run(1) [OF assms(1)] assms(2,3)]) auto
  moreover have "nat offset + length z \<le> nat (di_length d)" using assms(4,5) by linarith
  ultimately show ?thesis unfolding inode_bytes_def using inode_ok_run(2,3) [OF assms(1)] by (simp add: take_overlay)
qed

lemma inode_write_at_loop_stop:
  assumes "inode_ok (fs_device s) (i_data ino)" "0 \<le> offset" "n \<le> 0 \<or> di_length (i_data ino) \<le> offset"
  shows "inode_write_at_loop ino buffer bounce n offset bw s = Inr (bw, s)"
  using assms(3) chunk_geometry(3) [OF assms(1,2)]
  by (subst inode_write_at_loop.simps) (auto simp: Let_def not_less [symmetric])

lemma inode_write_at_loop_step:
  assumes "inode_ok (fs_device s) (i_data ino)" "0 \<le> offset" "0 < n" "offset < di_length (i_data ino)"
    "chunk_size ino n offset = c" "0 \<le> bw" "bw + n \<le> int (length buffer)"
  shows "(\<exists>s1. inode_write_at_loop ino buffer bounce n offset bw s = Inr (bw, s1) \<and> quiet s s1 \<and> \<not> (\<forall>j. mallocs s j)) \<or>
     (\<exists>b' s2. wrote (inode_extent (i_data ino)) s s2 \<and>
        inode_bytes (sectors (fs_device s2)) (i_data ino) =
          overlay (inode_bytes (sectors (fs_device s)) (i_data ino)) (nat offset) (take (nat c) (drop (nat bw) buffer)) \<and>
        inode_write_at_loop ino buffer bounce n offset bw s =
        inode_write_at_loop ino buffer b' (n - c) (offset + c) (bw + c) s2)"
proof -
  let ?d = "i_data ino"
  let ?k = "di_start ?d + nat offset div 512" and ?r = "nat offset mod 512"
  let ?z = "take (nat c) (drop (nat bw) buffer)"
  let ?y = "overlay (sectors (fs_device s) ?k) ?r ?z"
  note g = chunk_geometry [OF assms(1-3) assms(5)]
  have c: "0 < c" using g(3) assms(4) by simp
  have z: "length ?z = nat c" "bw + c \<le> int (length buffer)" using assms(6,7) g(1) c by auto
  have len: "length (sectors (fs_device s) ?k) = 512" using inode_ok_run(1) [OF assms(1)] g(5) c by simp
  then have y: "length ?y = 512" using z(1) g(7) by simp
  have ext: "{?k} \<subseteq> inode_extent ?d" using g(5) c by (simp add: inode_extent_def)
  have wf: "block_wf (fs_device s)" using assms(1) by (simp add: inode_ok_def)
  obtain b s1 where m: "(if bounce then (1, s) else fs_malloc s) = (b, s1)" by fastforce
  have q1: "quiet s s1" "b = 0 \<Longrightarrow> \<not> (\<forall>j. mallocs s j)" using m quiet_malloc by (auto split: if_splits)
  obtain s3 where s3: "fs_read ?k s1 = Inr (sectors (fs_device s) ?k, s3)" "quiet s s3"
    using fs_read_ok [of ?k s1] g(8) c quietD(1,2) [OF q1(1)] quiet_trans [OF q1(1)] by auto
  have upd: "wrote (inode_extent ?d) s s4 \<and> inode_bytes (sectors (fs_device s4)) ?d = overlay (inode_bytes (sectors (fs_device s)) ?d) (nat offset) ?z"
    if "quiet s s0" "wrote {?k} s0 s4" "sectors (fs_device s4) = (sectors (fs_device s0))(?k := ?y)" for s0 s4
  proof -
    have "wrote (inode_extent ?d) s s4"
      using wrote_trans_same [OF quiet_wrote [OF that(1)] wrote_mono [OF that(2) ext]] .
    moreover have "inode_bytes (sectors (fs_device s4)) ?d = overlay (inode_bytes (sectors (fs_device s)) ?d) (nat offset) ?z"
      by (rule inode_bytes_update [OF assms(1) g(5) _ _ assms(2)]) (use c z(1) g(2,7) that(3) quietD(1) [OF that(1)] in auto)
    ultimately show ?thesis by blast
  qed
  note u = inode_write_at_loop.simps [of ino buffer bounce n offset bw s]
  consider "?r = 0 \<and> c = 512" | "\<not> (?r = 0 \<and> c = 512)" "b = 0" | "\<not> (?r = 0 \<and> c = 512)" "b \<noteq> 0" by blast
  then show ?thesis
  proof cases
    case 1
    then have yz: "?y = ?z" using z(1) len by (simp add: overlay_def)
    obtain s4 where s4: "fs_write ?k ?z s = Inr s4" "wrote {?k} s s4" "sectors (fs_device s4) = (sectors (fs_device s))(?k := ?y)"
      using fs_write_ok [OF wf g(8) [OF c] y] yz by auto
    have "inode_write_at_loop ino buffer bounce n offset bw s = inode_write_at_loop ino buffer bounce (n - c) (offset + c) (bw + c) s4"
      using u assms(3,5) g(4,6) c s4(1) 1 z(2) by (simp add: Let_def)
    then show ?thesis using upd [OF quiet_refl s4(2,3)] by blast
  next
    case 2
    then have "inode_write_at_loop ino buffer bounce n offset bw s = Inr (bw, s1)"
      using u m assms(3,5) g(4,6) c z(2) by (auto simp: Let_def)
    then show ?thesis using q1 2 by blast
  next
    case 3
    have d: "0 < ?r \<or> c < 512 - int ?r" using 3(1) g(7) c by auto
    obtain s4 where s4: "fs_write ?k ?y s3 = Inr s4" "wrote {?k} s3 s4" "sectors (fs_device s4) = (sectors (fs_device s3))(?k := ?y)"
      using fs_write_ok [of s3 ?k ?y] wf g(8) [OF c] y quietD(2,3) [OF s3(2)] by auto
    have "inode_write_at_loop ino buffer bounce n offset bw s = inode_write_at_loop ino buffer True (n - c) (offset + c) (bw + c) s4"
      using u m assms(3,5) g(4,6) c s3(1) s4(1) 3 z(2) d by (auto simp: Let_def)
    then show ?thesis using upd [OF s3(2) s4(2,3)] by blast
  qed
qed


lemma inode_write_at_loop_spec:
  assumes "inode_ok (fs_device s) (i_data ino)" "0 \<le> offset" "0 \<le> bw" "bw + n \<le> int (length buffer)"
  shows "\<exists>k s'. inode_write_at_loop ino buffer bounce n offset bw s = Inr (bw + int k, s') \<and>
     wrote (inode_extent (i_data ino)) s s' \<and>
     inode_bytes (sectors (fs_device s')) (i_data ino) =
       overlay (inode_bytes (sectors (fs_device s)) (i_data ino)) (nat offset) (take k (drop (nat bw) buffer)) \<and>
     k \<le> min (nat n) (nat (di_length (i_data ino) - offset)) \<and>
     ((\<forall>j. mallocs s j) \<longrightarrow> k = min (nat n) (nat (di_length (i_data ino) - offset)))"
  using assms
proof (induction "nat n" arbitrary: bounce n offset bw s rule: less_induct)
  case less
  let ?d = "i_data ino" and ?c = "chunk_size ino n offset"
  let ?D = "\<lambda>s. inode_bytes (sectors (fs_device s)) (i_data ino)"
  show ?case
  proof (cases "0 < n \<and> offset < di_length ?d")
    case False
    then show ?thesis using inode_write_at_loop_stop [OF less(2,3)] quiet_wrote [OF quiet_refl]
      by (intro exI [of _ 0] exI [of _ s]) auto
  next
    case True
    then have n: "0 < n" "offset < di_length ?d" by auto
    note g = chunk_geometry [OF less(2,3) n(1) HOL.refl]
    have c: "0 < ?c" using g(3) n(2) by simp
    from inode_write_at_loop_step [OF less(2,3) n HOL.refl less(4,5), of bounce] show ?thesis
    proof (elim disjE exE conjE)
      fix s1 assume "inode_write_at_loop ino buffer bounce n offset bw s = Inr (bw, s1)" "quiet s s1" "\<not> (\<forall>j. mallocs s j)"
      then show ?thesis using quietD(1) quiet_wrote by (intro exI [of _ 0] exI [of _ s1]) auto
    next
      fix b' s2 assume w: "wrote (inode_extent ?d) s s2"
        and o: "?D s2 = overlay (?D s) (nat offset) (take (nat ?c) (drop (nat bw) buffer))"
        and e: "inode_write_at_loop ino buffer bounce n offset bw s = inode_write_at_loop ino buffer b' (n - ?c) (offset + ?c) (bw + ?c) s2"
      have "nat (n - ?c) < nat n" using c n(1) by simp
      from less(1) [OF this wroteD(14) [OF w less(2)], of "offset + ?c" "bw + ?c" b']
      obtain k s' where k: "inode_write_at_loop ino buffer b' (n - ?c) (offset + ?c) (bw + ?c) s2 = Inr (bw + ?c + int k, s')"
          "wrote (inode_extent ?d) s2 s'"
          "?D s' = overlay (?D s2) (nat (offset + ?c)) (take k (drop (nat (bw + ?c)) buffer))"
          "k \<le> min (nat (n - ?c)) (nat (di_length ?d - (offset + ?c)))"
          "(\<forall>j. mallocs s j) \<longrightarrow> k = min (nat (n - ?c)) (nat (di_length ?d - (offset + ?c)))"
        using less(3-5) c wroteD(4) [OF w] by auto
      have lz: "length (take (nat ?c) (drop (nat bw) buffer)) = nat ?c" using less(4,5) g(1) c by auto
      have kc: "nat ?c + k \<le> min (nat n) (nat (di_length ?d - offset))" using k(4) c g(1,2) less(3) by auto
      have nn: "nat (offset + ?c) = nat offset + nat ?c" "nat (bw + ?c) = nat bw + nat ?c" using c less(3,4) by auto
      have fit: "nat offset + nat ?c + min m k \<le> nat (di_length ?d)" for m
      proof -
        have "nat ?c + k \<le> nat (di_length ?d - offset)" using kc by simp
        then have "nat offset + nat ?c + k \<le> nat (di_length ?d)" using less(3) c by linarith
        then show ?thesis by simp
      qed
      have "?D s' = overlay (?D s) (nat offset) (take (nat ?c) (drop (nat bw) buffer) @ take k (drop (nat bw + nat ?c) buffer))"
        unfolding k(3) o nn
        by (subst overlay_adjacent [symmetric]) (use lz fit length_inode_bytes [OF less(2)] in auto)
      also have "take (nat ?c) (drop (nat bw) buffer) @ take k (drop (nat bw + nat ?c) buffer) = take (nat ?c + k) (drop (nat bw) buffer)"
        by (simp add: take_add [of "nat ?c"] add.commute [of "nat bw"])
      finally have "?D s' = overlay (?D s) (nat offset) (take (nat ?c + k) (drop (nat bw) buffer))" .
      moreover have "(\<forall>j. mallocs s j) \<longrightarrow> nat ?c + k = min (nat n) (nat (di_length ?d - offset))"
        using k(5) nat_chunk_min [OF c g(1,2)] by (simp add: diff_diff_eq)
      moreover have "inode_write_at_loop ino buffer bounce n offset bw s = Inr (bw + int (nat ?c + k), s')" using e k(1) c by simp
      ultimately show ?thesis using wrote_trans_same [OF w k(2)] kc by blast
    qed
  qed
qed

text \<open>The two operations, for an inode that is open.\<close>

lemma inode_read_at_spec:
  assumes "inodes s i = Some ino" "i \<noteq> 0" "inode_ok (fs_device s) (i_data ino)" "0 \<le> offset"
  shows "\<exists>k s'. inode_read_at i n offset s =
       Inr (int k, take k (drop (nat offset) (inode_bytes (sectors (fs_device s)) (i_data ino))), s') \<and>
     quiet s s' \<and> k \<le> min (nat n) (nat (di_length (i_data ino) - offset)) \<and>
     ((\<forall>j. mallocs s j) \<longrightarrow> k = min (nat n) (nat (di_length (i_data ino) - offset)))"
proof (cases "n > 0")
  case True
  then show ?thesis using inode_read_at_loop_spec [OF assms(3,4), of False n 0 "[]"] assms(1,2)
    by (simp add: inode_read_at_def get_inode_def)
qed (auto simp: inode_read_at_def intro: exI [of _ s])

lemma inode_write_at_spec:
  assumes "inodes s i = Some ino" "inode_ok (fs_device s) (i_data ino)" "0 \<le> offset"
    "n \<le> int (length buffer)" "deny_write_cnt ino = 0"
  shows "\<exists>k s'. inode_write_at i buffer n offset s = Inr (int k, s') \<and> wrote (inode_extent (i_data ino)) s s' \<and>
     inode_bytes (sectors (fs_device s')) (i_data ino) =
       overlay (inode_bytes (sectors (fs_device s)) (i_data ino)) (nat offset) (take k buffer) \<and>
     k \<le> min (nat n) (nat (di_length (i_data ino) - offset)) \<and>
     ((\<forall>j. mallocs s j) \<longrightarrow> k = min (nat n) (nat (di_length (i_data ino) - offset)))"
  using inode_write_at_loop_spec [OF assms(2,3), of 0 n buffer False] assms(1,4,5)
  by (simp add: inode_write_at_def get_inode_def)

lemma inode_write_at_denied:
  "inodes s i = Some ino \<Longrightarrow> deny_write_cnt ino \<noteq> 0 \<Longrightarrow> inode_write_at i buffer n offset s = Inr (0, s)"
  by (simp add: inode_write_at_def get_inode_def)

end
