(* ===== verification/Free_Map.thy ===== *)
theory Free_Map
  imports Inode
begin

text \<open>
  The free map (src/pintos2/src/filesys/free-map.c), the part of file.c and bitmap.c that
  keeps it on the disk, and the operations of inode.c that allocate and release sectors. The
  modules call each other, but not in a cycle of functions: the free map writes itself through
  \<^verbatim>\<open>file_write_at\<close>, which allocates nothing.
\<close>

definition FREE_MAP_SECTOR :: nat where
  "FREE_MAP_SECTOR = 0"

definition ROOT_DIR_SECTOR :: nat where
  "ROOT_DIR_SECTOR = 1"

subsection \<open>Files by position\<close>

definition get_file :: "nat \<Rightarrow> fs \<Rightarrow> open_file res" where
  "get_file f s = (case files s f of None \<Rightarrow> Inl Undefined | Some fl \<Rightarrow> Inr fl)"

definition file_read_at :: "nat \<Rightarrow> int \<Rightarrow> int \<Rightarrow> fs \<Rightarrow> (int \<times> u8 list \<times> fs) res" where
  "file_read_at f n file_ofs s = rbind (get_file f s) (\<lambda>fl. inode_read_at (f_inode fl) n file_ofs s)"

definition file_write_at :: "nat \<Rightarrow> u8 list \<Rightarrow> int \<Rightarrow> int \<Rightarrow> fs \<Rightarrow> (int \<times> fs) res" where
  "file_write_at f buffer n file_ofs s = rbind (get_file f s) (\<lambda>fl. inode_write_at (f_inode fl) buffer n file_ofs s)"

subsection \<open>Bitmaps in files\<close>

definition words_bytes :: "u32 list \<Rightarrow> u8 list" where
  "words_bytes ws = concat (map (\<lambda>w. le_bytes 4 (unat w)) ws)"

fun bytes_words :: "u8 list \<Rightarrow> u32 list" where
  "bytes_words (a # b # c # d # bs) = of_nat (le_val [a, b, c, d]) # bytes_words bs"
| "bytes_words _ = []"

definition bitmap_read :: "bitmap \<Rightarrow> nat \<Rightarrow> fs \<Rightarrow> (bool \<times> bitmap \<times> fs) res" where
  "bitmap_read b f s =
     (if bit_cnt b > 0 then
        let n = i32_of (byte_cnt (bit_cnt b))
        in rbind (file_read_at f n 0 s) (\<lambda>(k, data, s1).
             let ws = bytes_words (overlay (words_bytes (bits b)) 0 data); l = elem_cnt (bit_cnt b) - 1
             in kdefined (l < length ws)
                 (Inr (k = n, b\<lparr>bits := ws[l := ws ! l AND last_mask b]\<rparr>, s1)))
      else Inr (True, b, s))"

definition bitmap_write :: "bitmap \<Rightarrow> nat \<Rightarrow> fs \<Rightarrow> (bool \<times> fs) res" where
  "bitmap_write b f s =
     (let n = i32_of (byte_cnt (bit_cnt b))
      in rbind (file_write_at f (words_bytes (bits b)) n 0 s) (\<lambda>(k, s1). Inr (k = n, s1)))"

subsection \<open>The free map\<close>

text \<open>\<open>junk\<close> is what the words of the new bitmap hold before they are cleared.\<close>

definition free_map_init :: "u32 list \<Rightarrow> fs \<Rightarrow> fs res" where
  "free_map_init junk s =
     (let (p, s1) = fs_malloc s;
          (q, s2) = (if p \<noteq> 0 then fs_malloc s1 else (0, s1))
      in rbind (bitmap_create (p \<noteq> 0) (if q \<noteq> 0 then Some junk else None) (block_size (fs_device s2))) (\<lambda>ob. case ob of
           None \<Rightarrow> Inl (Panic ''bitmap creation failed--file system device is too large'')
         | Some m \<Rightarrow> rbind (bitmap_mark m FREE_MAP_SECTOR) (\<lambda>m1.
             rbind (bitmap_mark m1 ROOT_DIR_SECTOR) (\<lambda>m2. Inr (s2\<lparr>free_map := m2\<rparr>)))))"

text \<open>\<^verbatim>\<open>free_map_allocate\<close> returns the first sector of the group it found, or none.\<close>

definition free_map_allocate :: "nat \<Rightarrow> fs \<Rightarrow> (nat option \<times> fs) res" where
  "free_map_allocate cnt s =
     rbind (bitmap_scan_and_flip (free_map s) 0 cnt False) (\<lambda>(sector, m).
       let s1 = s\<lparr>free_map := m\<rparr>
       in if sector \<noteq> BITMAP_ERROR \<and> free_map_file s1 \<noteq> 0
          then rbind (bitmap_write (free_map s1) (free_map_file s1) s1) (\<lambda>(ok, s2).
                 if ok then Inr (Some sector, s2)
                 else rbind (bitmap_set_multiple (free_map s2) sector cnt False) (\<lambda>m'.
                        Inr (None, s2\<lparr>free_map := m'\<rparr>)))
          else Inr (if sector \<noteq> BITMAP_ERROR then Some sector else None, s1))"

definition free_map_release :: "nat \<Rightarrow> nat \<Rightarrow> fs \<Rightarrow> fs res" where
  "free_map_release sector cnt s =
     rbind (bitmap_all (free_map s) sector cnt) (\<lambda>a.
       kassert a
        (rbind (bitmap_set_multiple (free_map s) sector cnt False) (\<lambda>m.
           rbind (bitmap_write m (free_map_file s) (s\<lparr>free_map := m\<rparr>)) (\<lambda>(_, s1). Inr s1))))"

subsection \<open>Creating, opening and closing inodes\<close>

fun inode_create_loop :: "nat \<Rightarrow> nat \<Rightarrow> fs \<Rightarrow> fs res" where
  "inode_create_loop start 0 s = Inr s"
| "inode_create_loop start (Suc n) s =
     rbind (fs_write start (replicate 512 0) s) (inode_create_loop (Suc start) n)"

definition inode_create :: "nat \<Rightarrow> int \<Rightarrow> fs \<Rightarrow> (bool \<times> fs) res" where
  "inode_create sector len s =
     kassert (len \<ge> 0)
      (let (disk_inode, s1) = fs_malloc s
       in if disk_inode \<noteq> 0
          then rbind (bytes_to_sectors len) (\<lambda>sectors.
               rbind (free_map_allocate sectors s1) (\<lambda>(start, s2).
                 case start of
                   None \<Rightarrow> Inr (False, s2)
                 | Some st \<Rightarrow>
                     rbind (fs_write sector (inode_disk_bytes
                              \<lparr>di_start = st, di_length = len, di_magic = INODE_MAGIC, di_unused = replicate 500 0\<rparr>) s2)
                      (\<lambda>s3. rbind (inode_create_loop st sectors s3) (\<lambda>s4. Inr (True, s4)))))
          else Inr (False, s1))"

definition inode_open :: "nat \<Rightarrow> fs \<Rightarrow> (nat \<times> fs) res" where
  "inode_open sector s =
     (case List.find (\<lambda>i. map_option i_sector (inodes s i) = Some sector) (open_inodes s) of
        Some i \<Rightarrow> inode_reopen i s
      | None \<Rightarrow>
          let (i, s1) = fs_malloc s
          in if i = 0 then Inr (0, s1)
             else rbind (fs_read sector s1) (\<lambda>(d, s2).
                    Inr (i, s2\<lparr>open_inodes := i # open_inodes s2,
                               inodes := (inodes s2)(i \<mapsto>
                                 \<lparr>i_sector = sector, open_cnt = 1, removed = False, deny_write_cnt = 0,
                                  i_data = inode_disk_of d\<rparr>)\<rparr>)))"

definition inode_close :: "nat \<Rightarrow> fs \<Rightarrow> fs res" where
  "inode_close i s =
     (if i = 0 then Inr s
      else rbind (get_inode i s) (\<lambda>ino.
        let s1 = upd_inode i (\<lambda>ino. ino\<lparr>open_cnt := open_cnt ino - 1\<rparr>) s
        in if open_cnt ino - 1 = 0
           then let s2 = s1\<lparr>open_inodes := remove1 i (open_inodes s1)\<rparr>
                in rbind (if removed ino
                          then rbind (free_map_release (i_sector ino) 1 s2) (\<lambda>s3.
                               rbind (bytes_to_sectors (di_length (i_data ino))) (\<lambda>n.
                                 free_map_release (di_start (i_data ino)) n s3))
                          else Inr s2) (\<lambda>s4.
                     Inr (s4\<lparr>inodes := (inodes s4)(i := None)\<rparr>))
           else Inr s1))"

subsection \<open>Open files\<close>

definition file_open :: "nat \<Rightarrow> fs \<Rightarrow> (nat \<times> fs) res" where
  "file_open i s =
     (let (f, s1) = fs_malloc s
      in if i \<noteq> 0 \<and> f \<noteq> 0
         then Inr (f, s1\<lparr>files := (files s1)(f \<mapsto> \<lparr>f_inode = i, f_pos = 0, deny_write = False\<rparr>)\<rparr>)
         else rbind (inode_close i s1) (\<lambda>s2. Inr (0, s2)))"

definition file_reopen :: "nat \<Rightarrow> fs \<Rightarrow> (nat \<times> fs) res" where
  "file_reopen f s = rbind (get_file f s) (\<lambda>fl. rbind (inode_reopen (f_inode fl) s) (\<lambda>(i, s1). file_open i s1))"

definition upd_file :: "nat \<Rightarrow> (open_file \<Rightarrow> open_file) \<Rightarrow> fs \<Rightarrow> fs" where
  "upd_file f g s = s\<lparr>files := (files s)(f := map_option g (files s f))\<rparr>"

definition file_allow_write :: "nat \<Rightarrow> fs \<Rightarrow> fs res" where
  "file_allow_write f s =
     kassert (f \<noteq> 0)
      (rbind (get_file f s) (\<lambda>fl.
        if deny_write fl
        then inode_allow_write (f_inode fl) (upd_file f (\<lambda>fl. fl\<lparr>deny_write := False\<rparr>) s)
        else Inr s))"

definition file_deny_write :: "nat \<Rightarrow> fs \<Rightarrow> fs res" where
  "file_deny_write f s =
     kassert (f \<noteq> 0)
      (rbind (get_file f s) (\<lambda>fl.
        if \<not> deny_write fl
        then inode_deny_write (f_inode fl) (upd_file f (\<lambda>fl. fl\<lparr>deny_write := True\<rparr>) s)
        else Inr s))"

definition file_close :: "nat \<Rightarrow> fs \<Rightarrow> fs res" where
  "file_close f s =
     (if f \<noteq> 0
      then rbind (file_allow_write f s) (\<lambda>s1. rbind (get_file f s1) (\<lambda>fl.
           rbind (inode_close (f_inode fl) s1) (\<lambda>s2. Inr (s2\<lparr>files := (files s2)(f := None)\<rparr>))))
      else Inr s)"

definition file_get_inode :: "nat \<Rightarrow> fs \<Rightarrow> nat res" where
  "file_get_inode f s = rbind (get_file f s) (\<lambda>fl. Inr (f_inode fl))"

definition file_read :: "nat \<Rightarrow> int \<Rightarrow> fs \<Rightarrow> (int \<times> u8 list \<times> fs) res" where
  "file_read f n s =
     rbind (get_file f s) (\<lambda>fl.
     rbind (inode_read_at (f_inode fl) n (f_pos fl) s) (\<lambda>(bytes_read, data, s1).
       Inr (bytes_read, data, upd_file f (\<lambda>fl. fl\<lparr>f_pos := f_pos fl + bytes_read\<rparr>) s1)))"

definition file_write :: "nat \<Rightarrow> u8 list \<Rightarrow> int \<Rightarrow> fs \<Rightarrow> (int \<times> fs) res" where
  "file_write f buffer n s =
     rbind (get_file f s) (\<lambda>fl.
     rbind (inode_write_at (f_inode fl) buffer n (f_pos fl) s) (\<lambda>(bytes_written, s1).
       Inr (bytes_written, upd_file f (\<lambda>fl. fl\<lparr>f_pos := f_pos fl + bytes_written\<rparr>) s1)))"

definition file_length :: "nat \<Rightarrow> fs \<Rightarrow> int res" where
  "file_length f s = kassert (f \<noteq> 0) (rbind (get_file f s) (\<lambda>fl. inode_length (f_inode fl) s))"

definition file_seek :: "nat \<Rightarrow> int \<Rightarrow> fs \<Rightarrow> fs res" where
  "file_seek f new_pos s =
     kassert (f \<noteq> 0)
      (kassert (new_pos \<ge> 0) (rbind (get_file f s) (\<lambda>_. Inr (upd_file f (\<lambda>fl. fl\<lparr>f_pos := new_pos\<rparr>) s))))"

definition file_tell :: "nat \<Rightarrow> fs \<Rightarrow> int res" where
  "file_tell f s = kassert (f \<noteq> 0) (rbind (get_file f s) (\<lambda>fl. Inr (f_pos fl)))"

subsection \<open>The file of the free map\<close>

definition free_map_open :: "fs \<Rightarrow> fs res" where
  "free_map_open s =
     rbind (inode_open FREE_MAP_SECTOR s) (\<lambda>(i, s1).
     rbind (file_open i s1) (\<lambda>(f, s2).
       let s3 = s2\<lparr>free_map_file := f\<rparr>
       in if f = 0 then Inl (Panic ''can't open free map'')
          else rbind (bitmap_read (free_map s3) f s3) (\<lambda>(ok, m, s4).
                 if ok then Inr (s4\<lparr>free_map := m\<rparr>) else Inl (Panic ''can't read free map''))))"

definition free_map_close :: "fs \<Rightarrow> fs res" where
  "free_map_close s = file_close (free_map_file s) s"

definition free_map_create :: "fs \<Rightarrow> fs res" where
  "free_map_create s =
     rbind (inode_create FREE_MAP_SECTOR (i32_of (bitmap_file_size (free_map s))) s) (\<lambda>(ok, s1).
       if \<not> ok then Inl (Panic ''free map creation failed'')
       else rbind (inode_open FREE_MAP_SECTOR s1) (\<lambda>(i, s2).
            rbind (file_open i s2) (\<lambda>(f, s3).
              let s4 = s3\<lparr>free_map_file := f\<rparr>
              in if f = 0 then Inl (Panic ''can't open free map'')
                 else rbind (bitmap_write (free_map s4) f s4) (\<lambda>(ok2, s5).
                        if ok2 then Inr s5 else Inl (Panic ''can't write free map'')))))"

subsection \<open>Properties: bitmaps in files\<close>

lemma length_words_bytes [simp]: "length (words_bytes ws) = 4 * length ws"
  by (induction ws) (auto simp: words_bytes_def)

lemma bytes_words_append:
  "length bs = 4 \<Longrightarrow> bytes_words (bs @ cs) = of_nat (le_val bs) # bytes_words cs"
  by (auto simp: length_Suc_conv eval_nat_numeral simp del: le_val.simps)

lemma bytes_words_words_bytes [simp]: "bytes_words (words_bytes ws) = ws"
proof (induction ws)
  case (Cons w ws)
  have "of_nat (le_val (le_bytes 4 (unat w))) = w"
    using unat_u32_less [of w] by (simp del: le_bytes.simps)
  then show ?case using Cons by (simp add: words_bytes_def bytes_words_append)
qed (simp add: words_bytes_def)

lemma elem_cnt_le: "bm_wf b \<Longrightarrow> elem_cnt (bit_cnt b) \<le> length (bits b)"
proof -
  assume w: "bm_wf b"
  have "elem_cnt (bit_cnt b) \<le> (bit_cnt b + 31) div 32"
    unfolding elem_cnt_def DIV_ROUND_UP_def ELEM_BITS_def sz_def by (simp add: div_le_mono)
  also have "\<dots> \<le> length (bits b)" using w unfolding bm_wf_def by linarith
  finally show ?thesis .
qed

lemma i32_of_le: "i32_of n \<le> int n"
  by (simp add: i32_of_def)

lemma byte_cnt_le: "bm_wf b \<Longrightarrow> i32_of (byte_cnt (bit_cnt b)) \<le> int (length (words_bytes (bits b)))"
proof -
  assume w: "bm_wf b"
  have "byte_cnt (bit_cnt b) \<le> 4 * elem_cnt (bit_cnt b)" by (simp add: byte_cnt_def sz_def)
  then show ?thesis using elem_cnt_le [OF w] i32_of_le [of "byte_cnt (bit_cnt b)"] by simp
qed

subsection \<open>The free map as an allocator of sectors\<close>

definition fm_inode :: "fs \<Rightarrow> inode option" where
  "fm_inode s = (case files s (free_map_file s) of None \<Rightarrow> None | Some fl \<Rightarrow> inodes s (f_inode fl))"

definition fm_extent :: "fs \<Rightarrow> nat set" where
  "fm_extent s = (case fm_inode s of None \<Rightarrow> {} | Some ino \<Rightarrow> inode_extent (i_data ino))"

definition fm_ok :: "fs \<Rightarrow> bool" where
  "fm_ok s \<longleftrightarrow> bm_wf (free_map s) \<and> block_wf (fs_device s) \<and>
     (free_map_file s \<noteq> 0 \<longrightarrow> (\<exists>ino. fm_inode s = Some ino \<and> inode_ok (fs_device s) (i_data ino)))"

abbreviation used_sectors :: "fs \<Rightarrow> nat set" where
  "used_sectors s \<equiv> bm_used (free_map s)"

lemma fm_inode_wrote: "wrote X s s' \<Longrightarrow> fm_inode s' = fm_inode s"
  by (simp add: fm_inode_def wroteD split: option.splits)

lemma fm_extent_wrote: "wrote X s s' \<Longrightarrow> fm_extent s' = fm_extent s"
  by (simp add: fm_extent_def fm_inode_wrote)

lemma fm_ok_wrote: "wrote X s s' \<Longrightarrow> fm_ok s \<Longrightarrow> fm_ok s'"
  using wroteD(14) [of X s s'] by (auto simp: fm_ok_def fm_inode_wrote wroteD)

lemma fm_set_map [simp]:
  "fm_inode (s\<lparr>free_map := m\<rparr>) = fm_inode s" "fm_extent (s\<lparr>free_map := m\<rparr>) = fm_extent s"
  by (simp_all add: fm_inode_def fm_extent_def split: option.splits)

lemma fm_ok_set_map: "fm_ok s \<Longrightarrow> bm_wf m \<Longrightarrow> fm_ok (s\<lparr>free_map := m\<rparr>)"
  by (simp add: fm_ok_def)

lemma wrote_set_map: "wrote X s s' \<Longrightarrow> wrote X (s\<lparr>free_map := m\<rparr>) (s'\<lparr>free_map := m\<rparr>)"
  unfolding wrote_def by (cases s; cases s') auto

text \<open>Writing the map succeeds or fails as a whole, and touches only the sectors of its file.\<close>

lemma bitmap_write_spec:
  assumes "fm_ok s" "free_map_file s \<noteq> 0" "bm_wf b"
  shows "\<exists>ok s'. bitmap_write b (free_map_file s) s = Inr (ok, s') \<and> wrote (fm_extent s) s s'"
proof -
  obtain fl ino where f: "files s (free_map_file s) = Some fl" "inodes s (f_inode fl) = Some ino" "inode_ok (fs_device s) (i_data ino)"
    using assms(1,2) by (auto simp: fm_ok_def fm_inode_def split: option.splits)
  have e: "fm_extent s = inode_extent (i_data ino)" using f by (simp add: fm_extent_def fm_inode_def)
  show ?thesis
  proof (cases "deny_write_cnt ino = 0")
    case True
    then show ?thesis using inode_write_at_spec [OF f(2,3) _ byte_cnt_le [OF assms(3)], of 0] e f(1)
      by (auto simp: bitmap_write_def Let_def file_write_at_def get_file_def)
  next
    case False
    then show ?thesis using inode_write_at_denied [OF f(2)] f(1) quiet_wrote [OF quiet_refl]
      by (auto simp: bitmap_write_def Let_def file_write_at_def get_file_def)
  qed
qed

lemma bitmap_scan_and_flip_zero:
  assumes "bm_wf b"
  shows "bitmap_scan_and_flip b 0 0 v = Inr (0, b)"
proof -
  have "bitmap_scan b 0 0 v = Inr 0"
    using bitmap_scan_refines [OF assms, of 0 0 v] by (simp add: free_run_def upt_rec [of 0])
  moreover have "bitmap_set_multiple b 0 0 (\<not> v) = Inr b"
    by (simp add: bitmap_set_multiple_def sz_def)
  ultimately show ?thesis by (simp add: bitmap_scan_and_flip_def BITMAP_ERROR_def)
qed

text \<open>An allocation of sectors: the group it returns was free, and only it becomes used; or
  nothing changes.\<close>

lemma free_map_allocate_cases:
  assumes "fm_ok s"
  obtains (found) k s' where "free_map_allocate cnt s = Inr (Some k, s')" "fm_ok s'"
      "k + cnt \<le> bit_cnt (free_map s)" "extent (k, cnt) \<inter> used_sectors s = {}"
      "used_sectors s' = used_sectors s \<union> extent (k, cnt)" "bit_cnt (free_map s') = bit_cnt (free_map s)"
      "wrote (fm_extent s) (s\<lparr>free_map := free_map s'\<rparr>) s'"
  | (none) s' where "free_map_allocate cnt s = Inr (None, s')" "fm_ok s'"
      "used_sectors s' = used_sectors s" "bit_cnt (free_map s') = bit_cnt (free_map s)"
      "wrote (fm_extent s) (s\<lparr>free_map := free_map s'\<rparr>) s'"
proof -
  have wf: "bm_wf (free_map s)" using assms by (simp add: fm_ok_def)
  have "(\<exists>k m. bitmap_scan_and_flip (free_map s) 0 cnt False = Inr (k, m) \<and> k \<noteq> BITMAP_ERROR \<and> bm_wf m \<and>
          bit_cnt m = bit_cnt (free_map s) \<and> k + cnt \<le> bit_cnt (free_map s) \<and>
          extent (k, cnt) \<inter> used_sectors s = {} \<and> bm_used m = used_sectors s \<union> extent (k, cnt)) \<or>
        bitmap_scan_and_flip (free_map s) 0 cnt False = Inr (BITMAP_ERROR, free_map s)"
  proof (cases "cnt = 0")
    case True
    then show ?thesis using bitmap_scan_and_flip_zero [OF wf, of False] wf by (auto simp: extent_def BITMAP_ERROR_def)
  next
    case False
    show ?thesis
    proof (rule bitmap_scan_and_flip_cases [OF wf, of 0 cnt False])
      fix k b' assume h: "bitmap_scan_and_flip (free_map s) 0 cnt False = Inr (k, b')" "k \<noteq> BITMAP_ERROR"
        "k + cnt \<le> bit_cnt (free_map s)" "bm_wf b'" "bit_cnt b' = bit_cnt (free_map s)" "free_run (bm_abs (free_map s)) False cnt k"
        "bm_abs b' = take k (bm_abs (free_map s)) @ replicate cnt (\<not> False) @ drop (k + cnt) (bm_abs (free_map s))"
      then show ?thesis using bm_used_splice [OF h(7,5,3)] free_run_extent [OF h(6)] by simp
    qed (use False in auto)
  qed
  then show thesis
  proof (elim disjE exE conjE)
    assume "bitmap_scan_and_flip (free_map s) 0 cnt False = Inr (BITMAP_ERROR, free_map s)"
    then have "free_map_allocate cnt s = Inr (None, s)" by (simp add: free_map_allocate_def Let_def)
    then show thesis by (rule none) (use assms quiet_wrote [OF quiet_refl] in auto)
  next
    fix k m assume h: "bitmap_scan_and_flip (free_map s) 0 cnt False = Inr (k, m)" "k \<noteq> BITMAP_ERROR" "bm_wf m"
      "bit_cnt m = bit_cnt (free_map s)" "k + cnt \<le> bit_cnt (free_map s)" "extent (k, cnt) \<inter> used_sectors s = {}"
      "bm_used m = used_sectors s \<union> extent (k, cnt)"
    let ?s1 = "s\<lparr>free_map := m\<rparr>"
    have ok1: "fm_ok ?s1" using fm_ok_set_map [OF assms h(3)] .
    show thesis
    proof (cases "free_map_file s = 0")
      case True
      then have "free_map_allocate cnt s = Inr (Some k, ?s1)" using h(1,2) by (simp add: free_map_allocate_def Let_def)
      then show thesis by (rule found) (use h ok1 quiet_wrote [OF quiet_refl] in auto)
    next
      case False
      obtain ok s2 where w: "bitmap_write m (free_map_file s) ?s1 = Inr (ok, s2)" "wrote (fm_extent s) ?s1 s2"
        using bitmap_write_spec [OF ok1 _ h(3)] False by auto
      have m2: "free_map s2 = m" using wroteD(7) [OF w(2)] by simp
      show thesis
      proof (cases ok)
        case True
        then have "free_map_allocate cnt s = Inr (Some k, s2)" using h(1,2) False w(1) by (simp add: free_map_allocate_def Let_def)
        then show thesis by (rule found) (use h m2 w fm_ok_wrote [OF w(2) ok1] in auto)
      next
        case nok: False
        obtain m' where m': "bitmap_set_multiple m k cnt False = Inr m'" "bm_wf m'" "bit_cnt m' = bit_cnt m"
            "bm_abs m' = take k (bm_abs m) @ replicate cnt False @ drop (k + cnt) (bm_abs m)"
          using bitmap_set_multiple_refines [OF h(3), of k cnt False] h(4,5) by auto
        have u: "bm_used m' = used_sectors s"
          using bm_used_splice [OF m'(4,3)] h(4-7) by auto
        have "free_map_allocate cnt s = Inr (None, s2\<lparr>free_map := m'\<rparr>)"
          using h(1,2) False w(1) m'(1) m2 nok by (simp add: free_map_allocate_def Let_def)
        then show thesis
          by (rule none) (use u m' h(4) wrote_set_map [OF w(2), of m'] fm_ok_set_map [OF fm_ok_wrote [OF w(2) ok1] m'(2)] in auto)
      qed
    qed
  qed
qed

lemma free_map_release_spec:
  assumes "fm_ok s" "free_map_file s \<noteq> 0" "extent (k, n) \<subseteq> used_sectors s" "k + n \<le> bit_cnt (free_map s)"
  shows "\<exists>s'. free_map_release k n s = Inr s' \<and> fm_ok s' \<and> used_sectors s' = used_sectors s - extent (k, n) \<and>
     bit_cnt (free_map s') = bit_cnt (free_map s) \<and> wrote (fm_extent s) (s\<lparr>free_map := free_map s'\<rparr>) s'"
proof -
  have wf: "bm_wf (free_map s)" using assms by (simp add: fm_ok_def)
  have "False \<notin> set (take n (drop k (bm_abs (free_map s))))"
    using assms(3,4) by (auto simp: in_set_conv_nth extent_def bm_used_def subset_iff)
  then have all: "bitmap_all (free_map s) k n = Inr True"
    using bitmap_contains_refines [OF wf assms(4)] by (simp add: bitmap_all_def)
  obtain m where m: "bitmap_set_multiple (free_map s) k n False = Inr m" "bm_wf m" "bit_cnt m = bit_cnt (free_map s)"
      "bm_abs m = take k (bm_abs (free_map s)) @ replicate n False @ drop (k + n) (bm_abs (free_map s))"
    using bitmap_set_multiple_refines [OF wf assms(4), of False] by auto
  obtain ok s2 where w: "bitmap_write m (free_map_file s) (s\<lparr>free_map := m\<rparr>) = Inr (ok, s2)" "wrote (fm_extent s) (s\<lparr>free_map := m\<rparr>) s2"
    using bitmap_write_spec [OF fm_ok_set_map [OF assms(1) m(2)] _ m(2)] assms(2) by auto
  have "free_map_release k n s = Inr s2" using all m(1) w(1) by (simp add: free_map_release_def)
  then show ?thesis
    using w(2) wroteD(7) [OF w(2)] m bm_used_splice [OF m(4,3) assms(4)] fm_ok_wrote [OF w(2) fm_ok_set_map [OF assms(1) m(2)]] by simp
qed

definition fm_inv :: "fs \<Rightarrow> bool" where
  "fm_inv s \<longleftrightarrow> fm_ok s \<and> free_map_file s \<noteq> 0"

definition fm_get :: "nat \<Rightarrow> fs \<Rightarrow> nat option \<times> fs" where
  "fm_get n s = (case free_map_allocate n s of Inl _ \<Rightarrow> (None, s) | Inr r \<Rightarrow> r)"

definition fm_put :: "nat \<Rightarrow> nat \<Rightarrow> fs \<Rightarrow> fs option" where
  "fm_put k n s = (case free_map_release k n s of Inl _ \<Rightarrow> None | Inr s' \<Rightarrow> Some s')"

lemma wrote_file: "wrote X (s\<lparr>free_map := m\<rparr>) s' \<Longrightarrow> free_map_file s' = free_map_file s"
  using wroteD(8) by fastforce

interpretation sectors_map: slot_allocator fm_inv used_sectors fm_get fm_put
proof
  fix s n k s' assume a: "fm_inv s" "0 < n" "fm_get n s = (Some k, s')"
  then have "fm_ok s" by (simp add: fm_inv_def)
  then show "fm_inv s' \<and> extent (k, n) \<inter> used_sectors s = {} \<and> used_sectors s' = used_sectors s \<union> extent (k, n)"
    by (rule free_map_allocate_cases [of s n]) (use a wrote_file in \<open>auto simp: fm_get_def fm_inv_def\<close>)
next
  fix s n s' assume a: "fm_inv s" "0 < n" "fm_get n s = (None, s')"
  then have "fm_ok s" by (simp add: fm_inv_def)
  then show "fm_inv s' \<and> used_sectors s' = used_sectors s"
    by (rule free_map_allocate_cases [of s n]) (use a wrote_file in \<open>auto simp: fm_get_def fm_inv_def\<close>)
next
  fix s n k assume a: "fm_inv s" "0 < n" "extent (k, n) \<subseteq> used_sectors s"
  have "k + n \<le> bit_cnt (free_map s)" using extent_bounded [OF a(2,3)] .
  then show "\<exists>s'. fm_put k n s = Some s' \<and> fm_inv s' \<and> used_sectors s' = used_sectors s - extent (k, n)"
    using free_map_release_spec [of s k n] a wrote_file by (fastforce simp: fm_put_def fm_inv_def)
qed

end
