(* ===== verification/Directory.thy ===== *)
theory Directory
  imports Free_Map
begin

text \<open>
  Directories (src/pintos2/src/filesys/directory.c): a file that is an array of 20-byte entries,
  each with the sector of an inode, a name of up to 14 characters in an array of 15, and a flag.
  File names are the lists of their characters, without the terminator.
\<close>

definition NAME_MAX :: nat where
  "NAME_MAX = 14"

record dir_entry =
  inode_sector :: nat
  e_name :: "u8 list"
  in_use :: bool

definition sizeof_dir_entry :: nat where
  "sizeof_dir_entry = 20"

definition dir_entry_bytes :: "dir_entry \<Rightarrow> u8 list" where
  "dir_entry_bytes e = le_bytes 4 (inode_sector e) @ e_name e @ [if in_use e then 1 else 0]"

definition dir_entry_of :: "u8 list \<Rightarrow> dir_entry" where
  "dir_entry_of bs = \<lparr>inode_sector = le_val (take 4 bs), e_name = take 15 (drop 4 bs), in_use = bs ! 19 \<noteq> 0\<rparr>"

text \<open>\<^verbatim>\<open>!strcmp (a, b)\<close>: stops at the first difference or at the terminator; running off the end of
  the array is undefined.\<close>

fun streq :: "u8 list \<Rightarrow> u8 list \<Rightarrow> bool res" where
  "streq (a # as) (b # bs) = (if a \<noteq> b then Inr False else if a = 0 then Inr True else streq as bs)"
| "streq _ _ = Inl Undefined"

text \<open>\<^verbatim>\<open>strlcpy (e.name, name, sizeof e.name)\<close>.\<close>

definition set_name :: "u8 list \<Rightarrow> u8 list \<Rightarrow> u8 list" where
  "set_name old name = overlay old 0 (take NAME_MAX name @ [0])"

definition dir_create :: "nat \<Rightarrow> nat \<Rightarrow> fs \<Rightarrow> (bool \<times> fs) res" where
  "dir_create sector entry_cnt s = inode_create sector (i32_of (sz (entry_cnt * sizeof_dir_entry))) s"

definition dir_open :: "nat \<Rightarrow> fs \<Rightarrow> (nat \<times> fs) res" where
  "dir_open i s =
     (let (d, s1) = fs_malloc s
      in if i \<noteq> 0 \<and> d \<noteq> 0
         then Inr (d, s1\<lparr>dirs := (dirs s1)(d \<mapsto> \<lparr>d_inode = i, d_pos = 0\<rparr>)\<rparr>)
         else rbind (inode_close i s1) (\<lambda>s2. Inr (0, s2)))"

definition dir_open_root :: "fs \<Rightarrow> (nat \<times> fs) res" where
  "dir_open_root s = rbind (inode_open ROOT_DIR_SECTOR s) (\<lambda>(i, s1). dir_open i s1)"

definition get_dir :: "nat \<Rightarrow> fs \<Rightarrow> dir res" where
  "get_dir d s = (case dirs s d of None \<Rightarrow> Inl Undefined | Some dr \<Rightarrow> Inr dr)"

definition dir_reopen :: "nat \<Rightarrow> fs \<Rightarrow> (nat \<times> fs) res" where
  "dir_reopen d s = rbind (get_dir d s) (\<lambda>dr. rbind (inode_reopen (d_inode dr) s) (\<lambda>(i, s1). dir_open i s1))"

definition dir_close :: "nat \<Rightarrow> fs \<Rightarrow> fs res" where
  "dir_close d s =
     (if d \<noteq> 0
      then rbind (get_dir d s) (\<lambda>dr. rbind (inode_close (d_inode dr) s) (\<lambda>s1.
             Inr (s1\<lparr>dirs := (dirs s1)(d := None)\<rparr>)))
      else Inr s)"

definition dir_get_inode :: "nat \<Rightarrow> fs \<Rightarrow> nat res" where
  "dir_get_inode d s = rbind (get_dir d s) (\<lambda>dr. Inr (d_inode dr))"

text \<open>The loops over the entries of a directory read one entry per iteration until a read is
  short. The number of iterations they are given is one more than the bytes of the directory.\<close>

definition entry_fuel :: "nat \<Rightarrow> fs \<Rightarrow> nat" where
  "entry_fuel i s = (case inodes s i of None \<Rightarrow> 1 | Some ino \<Rightarrow> Suc (nat (di_length (i_data ino))))"

text \<open>\<^verbatim>\<open>lookup\<close>: the entry and its offset, if there is one.\<close>

fun lookup_loop :: "nat \<Rightarrow> nat \<Rightarrow> u8 list \<Rightarrow> int \<Rightarrow> fs \<Rightarrow> ((dir_entry \<times> int) option \<times> fs) res" where
  "lookup_loop 0 i name ofs s = Inl Diverged"
| "lookup_loop (Suc fuel) i name ofs s =
     rbind (inode_read_at i (int sizeof_dir_entry) ofs s) (\<lambda>(k, data, s1).
       if k = int sizeof_dir_entry then
         let e = dir_entry_of data
         in rbind (if in_use e then streq (name @ [0]) (e_name e) else Inr False) (\<lambda>eq.
              if eq then Inr (Some (e, ofs), s1)
              else lookup_loop fuel i name (ofs + int sizeof_dir_entry) s1)
       else Inr (None, s1))"

definition lookup :: "nat \<Rightarrow> u8 list \<Rightarrow> fs \<Rightarrow> ((dir_entry \<times> int) option \<times> fs) res" where
  "lookup d name s =
     kassert (d \<noteq> 0) (rbind (get_dir d s) (\<lambda>dr. lookup_loop (entry_fuel (d_inode dr) s) (d_inode dr) name 0 s))"

definition dir_lookup :: "nat \<Rightarrow> u8 list \<Rightarrow> fs \<Rightarrow> (nat \<times> fs) res" where
  "dir_lookup d name s =
     rbind (lookup d name s) (\<lambda>(r, s1). case r of
       Some (e, _) \<Rightarrow> inode_open (inode_sector e) s1
     | None \<Rightarrow> Inr (0, s1))"

text \<open>The search of \<^verbatim>\<open>dir_add\<close> for a free slot: its offset, and the bytes of \<^verbatim>\<open>e\<close> when it ends. A
  short read overwrites only the first bytes of \<^verbatim>\<open>e\<close>.\<close>

fun free_slot_loop :: "nat \<Rightarrow> nat \<Rightarrow> u8 list \<Rightarrow> int \<Rightarrow> fs \<Rightarrow> (u8 list \<times> int \<times> fs) res" where
  "free_slot_loop 0 i e ofs s = Inl Diverged"
| "free_slot_loop (Suc fuel) i e ofs s =
     rbind (inode_read_at i (int sizeof_dir_entry) ofs s) (\<lambda>(k, data, s1).
       let e1 = overlay e 0 data
       in if k = int sizeof_dir_entry then
            if \<not> in_use (dir_entry_of e1) then Inr (e1, ofs, s1)
            else free_slot_loop fuel i e1 (ofs + int sizeof_dir_entry) s1
          else Inr (e1, ofs, s1))"

definition dir_add :: "nat \<Rightarrow> u8 list \<Rightarrow> nat \<Rightarrow> fs \<Rightarrow> (bool \<times> fs) res" where
  "dir_add d name sector s =
     kassert (d \<noteq> 0)
      (if name = [] \<or> length name > NAME_MAX then Inr (False, s)
       else rbind (lookup d name s) (\<lambda>(r, s1).
         case r of
           Some _ \<Rightarrow> Inr (False, s1)
         | None \<Rightarrow>
             rbind (get_dir d s1) (\<lambda>dr.
             rbind (free_slot_loop (entry_fuel (d_inode dr) s1) (d_inode dr) (junk_entry s1) 0 s1) (\<lambda>(e, ofs, s2).
               let e1 = \<lparr>inode_sector = sector, e_name = set_name (e_name (dir_entry_of e)) name, in_use = True\<rparr>
               in rbind (inode_write_at (d_inode dr) (dir_entry_bytes e1) (int sizeof_dir_entry) ofs s2) (\<lambda>(k, s3).
                    Inr (k = int sizeof_dir_entry, s3))))))"

definition dir_remove :: "nat \<Rightarrow> u8 list \<Rightarrow> fs \<Rightarrow> (bool \<times> fs) res" where
  "dir_remove d name s =
     kassert (d \<noteq> 0)
      (rbind (lookup d name s) (\<lambda>(r, s1).
         case r of
           None \<Rightarrow> Inr (False, s1)
         | Some (e, ofs) \<Rightarrow>
             rbind (inode_open (inode_sector e) s1) (\<lambda>(i, s2).
               if i = 0 then Inr (False, s2)
               else rbind (get_dir d s2) (\<lambda>dr.
                    rbind (inode_write_at (d_inode dr) (dir_entry_bytes (e\<lparr>in_use := False\<rparr>)) (int sizeof_dir_entry) ofs s2) (\<lambda>(k, s3).
                      rbind (if k \<noteq> int sizeof_dir_entry then Inr (False, s3)
                             else rbind (inode_remove i s3) (\<lambda>s4. Inr (True, s4))) (\<lambda>(success, s5).
                        rbind (inode_close i s5) (\<lambda>s6. Inr (success, s6))))))))"

text \<open>\<^verbatim>\<open>dir_readdir\<close>: the name of the next entry in use, if there is one.\<close>

definition c_string :: "u8 list \<Rightarrow> u8 list" where
  "c_string bs = takeWhile (\<lambda>c. c \<noteq> 0) bs"

fun dir_readdir_loop :: "nat \<Rightarrow> nat \<Rightarrow> fs \<Rightarrow> (u8 list option \<times> fs) res" where
  "dir_readdir_loop 0 d s = Inl Diverged"
| "dir_readdir_loop (Suc fuel) d s =
     rbind (get_dir d s) (\<lambda>dr.
     rbind (inode_read_at (d_inode dr) (int sizeof_dir_entry) (d_pos dr) s) (\<lambda>(k, data, s1).
       if k = int sizeof_dir_entry then
         let s2 = s1\<lparr>dirs := (dirs s1)(d \<mapsto> dr\<lparr>d_pos := d_pos dr + int sizeof_dir_entry\<rparr>)\<rparr>;
             e = dir_entry_of data
         in if in_use e then kdefined (0 \<in> set (e_name e)) (Inr (Some (take NAME_MAX (c_string (e_name e))), s2))
            else dir_readdir_loop fuel d s2
       else Inr (None, s1)))"

definition dir_readdir :: "nat \<Rightarrow> fs \<Rightarrow> (u8 list option \<times> fs) res" where
  "dir_readdir d s = rbind (get_dir d s) (\<lambda>dr. dir_readdir_loop (entry_fuel (d_inode dr) s) d s)"

subsection \<open>A directory as a list of entries\<close>

definition entries_of :: "u8 list \<Rightarrow> dir_entry list" where
  "entries_of D = map (\<lambda>j. dir_entry_of (take 20 (drop (20 * j) D))) [0..<length D div 20]"

definition entry_ok :: "dir_entry \<Rightarrow> bool" where
  "entry_ok e \<longleftrightarrow> inode_sector e < 2 ^ 32 \<and> length (e_name e) = 15 \<and> (in_use e \<longrightarrow> 0 \<in> set (e_name e))"

definition names :: "u8 list \<Rightarrow> dir_entry \<Rightarrow> bool" where
  "names name e \<longleftrightarrow> in_use e \<and> c_string (e_name e) = name"

definition entry_index :: "u8 list \<Rightarrow> dir_entry list \<Rightarrow> nat option" where
  "entry_index name es = List.find (\<lambda>j. names name (es ! j)) [0..<length es]"

definition free_index :: "dir_entry list \<Rightarrow> nat option" where
  "free_index es = List.find (\<lambda>j. \<not> in_use (es ! j)) [0..<length es]"

definition valid_name :: "u8 list \<Rightarrow> bool" where
  "valid_name name \<longleftrightarrow> name \<noteq> [] \<and> length name \<le> NAME_MAX \<and> 0 \<notin> set name"

lemma length_entries_of [simp]: "length (entries_of D) = length D div 20"
  by (simp add: entries_of_def)

lemma entries_of_nth: "j < length D div 20 \<Longrightarrow> entries_of D ! j = dir_entry_of (take 20 (drop (20 * j) D))"
  by (simp add: entries_of_def)

lemma length_dir_entry_bytes: "entry_ok e \<Longrightarrow> length (dir_entry_bytes e) = 20"
  by (simp add: dir_entry_bytes_def entry_ok_def)

lemma dir_entry_roundtrip: "entry_ok e \<Longrightarrow> dir_entry_of (dir_entry_bytes e) = e"
  by (simp add: dir_entry_of_def dir_entry_bytes_def entry_ok_def nth_append)

lemma c_string_le: "length bs = 15 \<Longrightarrow> 0 \<in> set bs \<Longrightarrow> length (c_string bs) \<le> 14"
proof -
  assume a: "length bs = 15" "(0 :: u8) \<in> set bs"
  have "takeWhile (\<lambda>c. c \<noteq> 0) bs \<noteq> bs" using a(2) by (auto simp: takeWhile_eq_all_conv)
  then have "length (takeWhile (\<lambda>c. c \<noteq> 0) bs) \<noteq> length bs" by (metis takeWhile_eq_take take_all_iff order_refl)
  then have "length (takeWhile (\<lambda>c. c \<noteq> 0) bs) < length bs" using length_takeWhile_le [of _ bs] by (simp add: order_less_le)
  then show ?thesis using a(1) by (simp add: c_string_def)
qed

lemma streq_c_string: "0 \<notin> set name \<Longrightarrow> 0 \<in> set bs \<Longrightarrow> streq (name @ [0]) bs = Inr (c_string bs = name)"
proof (induction name arbitrary: bs)
  case Nil
  then show ?case by (cases bs) (auto simp: c_string_def)
next
  case (Cons a name)
  then show ?case by (cases bs) (auto simp: c_string_def)
qed

lemma c_string_set_name:
  assumes "valid_name name" "length old = 15"
  shows "c_string (set_name old name) = name" "length (set_name old name) = 15" "0 \<in> set (set_name old name)"
proof -
  have e: "set_name old name = name @ 0 # drop (Suc (length name)) old"
    using assms by (simp add: set_name_def overlay_def valid_name_def NAME_MAX_def)
  show "c_string (set_name old name) = name" using assms(1) by (simp add: e c_string_def valid_name_def takeWhile_append)
  show "length (set_name old name) = 15" "0 \<in> set (set_name old name)"
    using assms by (simp_all add: e valid_name_def NAME_MAX_def)
qed

lemma entries_of_update:
  assumes "j < length D div 20" "entry_ok e"
  shows "entries_of (overlay D (20 * j) (dir_entry_bytes e)) = (entries_of D)[j := e]"
proof (rule nth_equalityI)
  have l: "20 * j + length (dir_entry_bytes e) \<le> length D" using assms by (simp add: length_dir_entry_bytes)
  then show "length (entries_of (overlay D (20 * j) (dir_entry_bytes e))) = length ((entries_of D)[j := e])" by simp
  fix m assume "m < length (entries_of (overlay D (20 * j) (dir_entry_bytes e)))"
  then have m: "m < length D div 20" using l by simp
  then have m20: "20 * m + 20 \<le> length D" by linarith
  show "entries_of (overlay D (20 * j) (dir_entry_bytes e)) ! m = (entries_of D)[j := e] ! m"
  proof (cases "m = j")
    case True
    then show ?thesis using m l take_drop_overlay [OF l] assms(2) by (simp add: entries_of_nth length_dir_entry_bytes dir_entry_roundtrip)
  next
    case False
    have "take 20 (drop (20 * m) (overlay D (20 * j) (dir_entry_bytes e))) = take 20 (drop (20 * m) D)"
    proof (rule nth_equalityI)
      fix i assume "i < length (take 20 (drop (20 * m) (overlay D (20 * j) (dir_entry_bytes e))))"
      then have "i < 20" by simp
      then show "take 20 (drop (20 * m) (overlay D (20 * j) (dir_entry_bytes e))) ! i = take 20 (drop (20 * m) D) ! i"
        using l m20 False assms(2) by (auto simp: nth_overlay length_dir_entry_bytes)
    qed (use l in simp)
    then show ?thesis using False m l by (simp add: entries_of_nth)
  qed
qed

subsection \<open>The loops over the entries\<close>

text \<open>A directory inode in memory, with its bytes.\<close>

definition dir_at :: "fs \<Rightarrow> nat \<Rightarrow> inode \<Rightarrow> u8 list \<Rightarrow> bool" where
  "dir_at s i ino D \<longleftrightarrow> inodes s i = Some ino \<and> i \<noteq> 0 \<and> inode_ok (fs_device s) (i_data ino) \<and>
     D = inode_bytes (sectors (fs_device s)) (i_data ino)"

lemma dir_at_length: "dir_at s i ino D \<Longrightarrow> length D = nat (di_length (i_data ino)) \<and> 0 \<le> di_length (i_data ino)"
  by (auto simp: dir_at_def length_inode_bytes) (simp add: inode_ok_def)

lemma dir_at_quiet: "quiet s s' \<Longrightarrow> dir_at s i ino D \<Longrightarrow> dir_at s' i ino D"
  by (simp add: dir_at_def quietD)

lemma read_entry:
  assumes "dir_at s i ino D" "\<forall>k. mallocs s k"
  shows "\<exists>k data s'. inode_read_at i (int sizeof_dir_entry) (int (20 * j)) s = Inr (k, data, s') \<and> quiet s s' \<and>
     (if j < length D div 20 then k = 20 \<and> data = take 20 (drop (20 * j) D)
      else k \<noteq> 20 \<and> (length D mod 20 = 0 \<and> j = length D div 20 \<longrightarrow> data = []))"
proof -
  have d: "inodes s i = Some ino" "i \<noteq> 0" "inode_ok (fs_device s) (i_data ino)" "D = inode_bytes (sectors (fs_device s)) (i_data ino)"
    using assms(1) by (auto simp: dir_at_def)
  obtain k s' where k: "inode_read_at i 20 (int (20 * j)) s = Inr (int k, take k (drop (nat (int (20 * j))) D), s')" "quiet s s'"
      "k = min (nat 20) (nat (di_length (i_data ino) - int (20 * j)))"
    using inode_read_at_spec [OF d(1-3), of "int (20 * j)" 20] assms(2) d(4) by auto
  have l: "length D = nat (di_length (i_data ino))" "0 \<le> di_length (i_data ino)" using dir_at_length [OF assms(1)] by auto
  have k': "k = min 20 (length D - 20 * j)" unfolding k(3) l(1) by (simp add: nat_diff_distrib')
  show ?thesis
  proof (cases "j < length D div 20")
    case True
    then have "k = 20" using k' by auto
    then show ?thesis using k(1,2) True by (simp add: sizeof_dir_entry_def nat_mult_distrib)
  next
    case False
    then have "k < 20" "length D mod 20 = 0 \<and> j = length D div 20 \<longrightarrow> k = 0" using k' by auto
    then show ?thesis using k(1,2) False by (simp add: sizeof_dir_entry_def nat_mult_distrib)
  qed
qed

lemma lookup_loop_spec:
  assumes "dir_at s i ino D" "\<forall>k. mallocs s k" "\<forall>e\<in>set (entries_of D). entry_ok e" "0 \<notin> set name"
    "j \<le> length D div 20" "length D div 20 - j < fuel"
  shows "\<exists>s'. lookup_loop fuel i name (int (20 * j)) s =
      Inr (map_option (\<lambda>m. (entries_of D ! m, int (20 * m)))
             (List.find (\<lambda>m. names name (entries_of D ! m)) [j..<length D div 20]), s') \<and> quiet s s'"
  using assms
proof (induction fuel arbitrary: j s)
  case (Suc fuel)
  obtain k data s1 where r: "inode_read_at i (int sizeof_dir_entry) (int (20 * j)) s = Inr (k, data, s1)" "quiet s s1"
     "if j < length D div 20 then k = 20 \<and> data = take 20 (drop (20 * j) D)
      else k \<noteq> 20 \<and> (length D mod 20 = 0 \<and> j = length D div 20 \<longrightarrow> data = [])"
    using read_entry [OF Suc.prems(1,2), of j] by blast
  show ?case
  proof (cases "j < length D div 20")
    case False
    then show ?thesis using r Suc.prems(5) by (auto simp: sizeof_dir_entry_def)
  next
    case True
    let ?e = "entries_of D ! j"
    have f: "length D div 20 - Suc j < fuel" "Suc j \<le> length D div 20" using Suc.prems(6) True by linarith+
    have e: "dir_entry_of data = ?e" "k = 20" using r(3) True by (auto simp: entries_of_nth)
    have ok: "entry_ok ?e" using Suc.prems(3) True by (metis length_entries_of nth_mem)
    have t: "(if in_use ?e then streq (name @ [0]) (e_name ?e) else Inr False) = Inr (names name ?e)"
      using ok Suc.prems(4) by (simp add: entry_ok_def names_def streq_c_string)
    have u: "[j..<length D div 20] = j # [Suc j..<length D div 20]" using True by (simp add: upt_conv_Cons)
    have i20: "int (20 * Suc j) = int (20 * j) + int sizeof_dir_entry" by (simp add: sizeof_dir_entry_def)
    have k20: "k = int sizeof_dir_entry" using e(2) by (simp add: sizeof_dir_entry_def)
    have "lookup_loop (Suc fuel) i name (int (20 * j)) s =
        rbind (if in_use ?e then streq (name @ [0]) (e_name ?e) else Inr False) (\<lambda>eq.
          if eq then Inr (Some (?e, int (20 * j)), s1) else lookup_loop fuel i name (int (20 * Suc j)) s1)"
      unfolding lookup_loop.simps r(1) rbind_Inr prod.case Let_def e(1) i20 using k20 by simp
    then have step: "lookup_loop (Suc fuel) i name (int (20 * j)) s =
        (if names name ?e then Inr (Some (?e, int (20 * j)), s1) else lookup_loop fuel i name (int (20 * Suc j)) s1)"
      unfolding t by simp
    show ?thesis
    proof (cases "names name ?e")
      case n: True
      then show ?thesis unfolding step using r(2) u by simp
    next
      case n: False
      obtain s' where s': "lookup_loop fuel i name (int (20 * Suc j)) s1 =
        Inr (map_option (\<lambda>m. (entries_of D ! m, int (20 * m)))
             (List.find (\<lambda>m. names name (entries_of D ! m)) [Suc j..<length D div 20]), s')" "quiet s1 s'"
        using Suc.IH [of s1 "Suc j", OF dir_at_quiet [OF r(2) Suc.prems(1)] _ Suc.prems(3,4) f(2,1)] quietD(4) [OF r(2)] Suc.prems(2) by auto
      then show ?thesis unfolding step using r(2) u n quiet_trans by auto
    qed
  qed
qed simp

lemma free_slot_loop_spec:
  assumes "dir_at s i ino D" "\<forall>k. mallocs s k" "length D mod 20 = 0" "length e = 20"
    "j \<le> length D div 20" "length D div 20 - j < fuel"
  shows "\<exists>e' s'. free_slot_loop fuel i e (int (20 * j)) s =
      Inr (e', int (20 * (case List.find (\<lambda>m. \<not> in_use (entries_of D ! m)) [j..<length D div 20] of
                            None \<Rightarrow> length D div 20 | Some m \<Rightarrow> m)), s') \<and> quiet s s' \<and> length e' = 20 \<and>
      (\<forall>m. List.find (\<lambda>m. \<not> in_use (entries_of D ! m)) [j..<length D div 20] = Some m \<longrightarrow> dir_entry_of e' = entries_of D ! m)"
  using assms
proof (induction fuel arbitrary: j s e)
  case (Suc fuel)
  obtain k data s1 where r: "inode_read_at i (int sizeof_dir_entry) (int (20 * j)) s = Inr (k, data, s1)" "quiet s s1"
     "if j < length D div 20 then k = 20 \<and> data = take 20 (drop (20 * j) D)
      else k \<noteq> 20 \<and> (length D mod 20 = 0 \<and> j = length D div 20 \<longrightarrow> data = [])"
    using read_entry [OF Suc.prems(1,2), of j] by blast
  show ?case
  proof (cases "j < length D div 20")
    case False
    then have "j = length D div 20" "k \<noteq> 20" "data = []" using r(3) Suc.prems(3,5) by auto
    then show ?thesis using r Suc.prems(4) by (simp add: Let_def sizeof_dir_entry_def)
  next
    case True
    let ?e = "entries_of D ! j"
    have f: "length D div 20 - Suc j < fuel" "Suc j \<le> length D div 20" using Suc.prems(6) True by linarith+
    have ld: "length data = 20" using r(3) True by auto
    have ov: "overlay e 0 data = data" using ld Suc.prems(4) by (simp add: overlay_def)
    have e: "dir_entry_of data = ?e" "k = 20" using r(3) True by (auto simp: entries_of_nth)
    have u: "[j..<length D div 20] = j # [Suc j..<length D div 20]" using True by (simp add: upt_conv_Cons)
    have i20: "int (20 * Suc j) = int (20 * j) + int sizeof_dir_entry" by (simp add: sizeof_dir_entry_def)
    have k20: "k = int sizeof_dir_entry" using e(2) by (simp add: sizeof_dir_entry_def)
    have step: "free_slot_loop (Suc fuel) i e (int (20 * j)) s =
        (if \<not> in_use ?e then Inr (data, int (20 * j), s1) else free_slot_loop fuel i data (int (20 * Suc j)) s1)"
      unfolding free_slot_loop.simps r(1) rbind_Inr prod.case Let_def ov e(1) i20 using k20 by simp
    show ?thesis
    proof (cases "in_use ?e")
      case n: False
      then show ?thesis unfolding step using r(2) e u ld by simp
    next
      case n: True
      obtain e' s' where s': "free_slot_loop fuel i data (int (20 * Suc j)) s1 =
        Inr (e', int (20 * (case List.find (\<lambda>m. \<not> in_use (entries_of D ! m)) [Suc j..<length D div 20] of
                            None \<Rightarrow> length D div 20 | Some m \<Rightarrow> m)), s')" "quiet s1 s'" "length e' = 20"
        "\<forall>m. List.find (\<lambda>m. \<not> in_use (entries_of D ! m)) [Suc j..<length D div 20] = Some m \<longrightarrow> dir_entry_of e' = entries_of D ! m"
        using Suc.IH [of s1 data "Suc j", OF dir_at_quiet [OF r(2) Suc.prems(1)] _ Suc.prems(3) ld f(2,1)]
          quietD(4) [OF r(2)] Suc.prems(2) by auto
      then show ?thesis unfolding step using r(2) u n quiet_trans [OF r(2) s'(2)] by auto
    qed
  qed
qed simp


subsection \<open>Name tables\<close>

definition entry_for :: "u8 list \<Rightarrow> nat \<Rightarrow> dir_entry \<Rightarrow> dir_entry" where
  "entry_for name k e = \<lparr>inode_sector = k, e_name = set_name (e_name e) name, in_use = True\<rparr>"

definition dl_map :: "dir_entry list \<Rightarrow> u8 list \<rightharpoonup> nat" where
  "dl_map es name = map_option (\<lambda>j. inode_sector (es ! j)) (entry_index name es)"

definition dl_add :: "u8 list \<Rightarrow> nat \<Rightarrow> dir_entry list \<Rightarrow> dir_entry list option" where
  "dl_add name k es =
     (if name = [] \<or> length name > NAME_MAX \<or> entry_index name es \<noteq> None then None
      else map_option (\<lambda>j. es[j := entry_for name k (es ! j)]) (free_index es))"

definition dl_remove :: "u8 list \<Rightarrow> dir_entry list \<Rightarrow> dir_entry list option" where
  "dl_remove name es = map_option (\<lambda>j. es[j := (es ! j)\<lparr>in_use := False\<rparr>]) (entry_index name es)"

definition dl_inv :: "dir_entry list \<Rightarrow> bool" where
  "dl_inv es \<longleftrightarrow> (\<forall>e\<in>set es. entry_ok e) \<and>
     (\<forall>i j name. i < length es \<longrightarrow> j < length es \<longrightarrow> names name (es ! i) \<longrightarrow> names name (es ! j) \<longrightarrow> i = j)"

lemma entry_index_Some: "entry_index name es = Some j \<Longrightarrow> j < length es \<and> names name (es ! j)"
  unfolding entry_index_def using find_upt_Some by fastforce

lemma entry_index_None: "entry_index name es = None \<longleftrightarrow> (\<forall>j<length es. \<not> names name (es ! j))"
  unfolding entry_index_def by (auto simp: find_None_iff)

lemma entry_index_unique: "dl_inv es \<Longrightarrow> j < length es \<Longrightarrow> names name (es ! j) \<Longrightarrow> entry_index name es = Some j"
  using entry_index_Some [of name es] entry_index_None [of name es] unfolding dl_inv_def
  by (cases "entry_index name es") auto

lemma free_index_Some: "free_index es = Some j \<Longrightarrow> j < length es \<and> \<not> in_use (es ! j)"
  unfolding free_index_def using find_upt_Some by fastforce

lemma dl_map_Some: "dl_inv es \<Longrightarrow> dl_map es name = Some k \<longleftrightarrow> (\<exists>j<length es. names name (es ! j) \<and> inode_sector (es ! j) = k)"
proof
  assume "dl_inv es" "dl_map es name = Some k"
  then obtain j where "entry_index name es = Some j" "inode_sector (es ! j) = k" by (auto simp: dl_map_def)
  then show "\<exists>j<length es. names name (es ! j) \<and> inode_sector (es ! j) = k" using entry_index_Some by blast
next
  assume "dl_inv es" "\<exists>j<length es. names name (es ! j) \<and> inode_sector (es ! j) = k"
  then show "dl_map es name = Some k" using entry_index_unique by (auto simp: dl_map_def)
qed

lemma dl_map_None: "dl_map es name = None \<longleftrightarrow> (\<forall>j<length es. \<not> names name (es ! j))"
  by (simp add: dl_map_def entry_index_None)

lemma dl_map_eqI:
  assumes "dl_inv es'" "\<And>n k. f n = Some k \<longleftrightarrow> (\<exists>j<length es'. names n (es' ! j) \<and> inode_sector (es' ! j) = k)"
  shows "dl_map es' = f"
proof
  fix n show "dl_map es' n = f n"
    using dl_map_Some [OF assms(1), of n] assms(2) [of n] by (metis not_Some_eq)
qed

lemma dl_add_laws:
  assumes "dl_inv es" "0 \<notin> set name \<and> k < 2 ^ 32" "dl_add name k es = Some es'"
  shows "dl_map es name = None \<and> dl_inv es' \<and> dl_map es' = (dl_map es)(name \<mapsto> k)"
proof -
  obtain j where j: "free_index es = Some j" "es' = es[j := entry_for name k (es ! j)]" "entry_index name es = None"
      "name \<noteq> []" "length name \<le> NAME_MAX"
    using assms(3) by (auto simp: dl_add_def split: if_splits)
  have f: "j < length es" "\<not> in_use (es ! j)" using free_index_Some [OF j(1)] by auto
  have v: "valid_name name" using j(4,5) assms(2) by (simp add: valid_name_def)
  have okj: "entry_ok (es ! j)" using assms(1) f(1) by (simp add: dl_inv_def)
  note c = c_string_set_name [OF v, of "e_name (es ! j)"]
  have ok: "entry_ok (entry_for name k (es ! j))" using okj c assms(2) by (simp add: entry_ok_def entry_for_def)
  have n: "names n (es' ! i) \<longleftrightarrow> (if i = j then n = name else names n (es ! i))" if "i < length es" for n i
    using f okj c(1) that by (auto simp: j(2) names_def entry_for_def entry_ok_def)
  have absent: "\<not> names name (es ! i)" if "i < length es" for i using j(3) that by (simp add: entry_index_None)
  have "\<forall>e\<in>set es'. entry_ok e" using assms(1) ok f(1) set_update_subset_insert [of es j] by (auto simp: j(2) dl_inv_def)
  moreover have "i = i'" if "i < length es'" "i' < length es'" "names m (es' ! i)" "names m (es' ! i')" for i i' m
    using that n [of i m] n [of i' m] absent assms(1) unfolding dl_inv_def
    by (cases "i = j"; cases "i' = j") (auto simp: j(2))
  ultimately have inv: "dl_inv es'" unfolding dl_inv_def by blast
  have "dl_map es' = (dl_map es)(name \<mapsto> k)"
  proof (rule dl_map_eqI [OF inv])
    fix m x
    have l: "length es' = length es" by (simp add: j(2))
    show "((dl_map es)(name \<mapsto> k)) m = Some x \<longleftrightarrow> (\<exists>i<length es'. names m (es' ! i) \<and> inode_sector (es' ! i) = x)"
    proof (cases "m = name")
      case True
      have "i = j" if "i < length es" "names name (es' ! i)" for i using n [OF that(1), of name] that absent by (auto split: if_splits)
      moreover have "names name (es' ! j)" "inode_sector (es' ! j) = k" using n [OF f(1), of name] f(1) by (auto simp: j(2) entry_for_def)
      ultimately show ?thesis using True f(1) l by (metis fun_upd_same option.inject)
    next
      case False
      have "names m (es' ! i) \<and> inode_sector (es' ! i) = x \<longleftrightarrow> names m (es ! i) \<and> inode_sector (es ! i) = x" if "i < length es" for i
        using n [OF that, of m] False f(2) by (cases "i = j") (auto simp: j(2) names_def)
      then show ?thesis using False l dl_map_Some [OF assms(1), of m x] by auto
    qed
  qed
  then show ?thesis using inv j(3) by (simp add: dl_map_def)
qed

lemma dl_remove_laws:
  assumes "dl_inv es" "dl_remove name es = Some es'"
  shows "dl_inv es' \<and> dl_map es' = (dl_map es)(name := None)"
proof -
  obtain j where j: "entry_index name es = Some j" "es' = es[j := (es ! j)\<lparr>in_use := False\<rparr>]"
    using assms(2) by (auto simp: dl_remove_def)
  have f: "j < length es" "names name (es ! j)" using entry_index_Some [OF j(1)] by auto
  have okj: "entry_ok ((es ! j)\<lparr>in_use := False\<rparr>)" using assms(1) f(1) by (auto simp: dl_inv_def entry_ok_def)
  have n: "names n (es' ! i) \<longleftrightarrow> i \<noteq> j \<and> names n (es ! i)" if "i < length es" for n i
    using f(1) that by (cases "i = j") (auto simp: j(2) names_def)
  have l: "length es' = length es" by (simp add: j(2))
  have "\<forall>e\<in>set es'. entry_ok e" using assms(1) okj f(1) set_update_subset_insert [of es j] by (auto simp: j(2) dl_inv_def)
  then have inv: "dl_inv es'" using assms(1) n l unfolding dl_inv_def by auto
  have "dl_map es' = (dl_map es)(name := None)"
  proof (rule dl_map_eqI [OF inv])
    fix m x
    have "i = j" if "i < length es" "names name (es ! i)" for i using assms(1) that f unfolding dl_inv_def by blast
    moreover have "inode_sector (es' ! i) = inode_sector (es ! i)" if "i \<noteq> j" for i using that by (simp add: j(2))
    moreover have "m = name" if "names m (es ! j)" using that f(2) by (simp add: names_def)
    ultimately have "(\<exists>i<length es'. names m (es' ! i) \<and> inode_sector (es' ! i) = x) \<longleftrightarrow>
        m \<noteq> name \<and> (\<exists>i<length es. names m (es ! i) \<and> inode_sector (es ! i) = x)"
      using n l by metis
    then show "((dl_map es)(name := None)) m = Some x \<longleftrightarrow> (\<exists>i<length es'. names m (es' ! i) \<and> inode_sector (es' ! i) = x)"
      using dl_map_Some [OF assms(1), of m x] by simp
  qed
  then show ?thesis using inv by simp
qed

interpretation directory: name_table dl_inv dl_map "\<lambda>n k. 0 \<notin> set n \<and> k < 2 ^ 32" dl_add dl_remove
proof
  fix t n v t' assume "dl_inv t" "0 \<notin> set n \<and> v < 2 ^ 32" "dl_add n v t = Some t'"
  then show "dl_map t n = None \<and> dl_inv t' \<and> dl_map t' = (dl_map t)(n \<mapsto> v)" by (rule dl_add_laws)
next
  fix t n t' assume "dl_inv t" "dl_remove n t = Some t'"
  then show "dl_inv t' \<and> dl_map t' = (dl_map t)(n := None)" by (rule dl_remove_laws)
qed (simp add: dl_remove_def dl_map_def)

subsection \<open>The operations on a directory refine those on the list of its entries\<close>

definition dir_ready :: "fs \<Rightarrow> nat \<Rightarrow> inode \<Rightarrow> u8 list \<Rightarrow> bool" where
  "dir_ready s d ino D \<longleftrightarrow> d \<noteq> 0 \<and> (\<exists>dr. dirs s d = Some dr \<and> dir_at s (d_inode dr) ino D) \<and>
     (\<forall>k. mallocs s k) \<and> dl_inv (entries_of D) \<and> length D mod 20 = 0 \<and> length (junk_entry s) = 20 \<and> deny_write_cnt ino = 0"

lemma lookup_spec:
  assumes "dir_ready s d ino D" "0 \<notin> set name"
  shows "\<exists>s'. lookup d name s =
      Inr (map_option (\<lambda>m. (entries_of D ! m, int (20 * m))) (entry_index name (entries_of D)), s') \<and> quiet s s'"
proof -
  obtain dr where dr: "dirs s d = Some dr" "dir_at s (d_inode dr) ino D" using assms(1) by (auto simp: dir_ready_def)
  have fu: "length D div 20 - 0 < entry_fuel (d_inode dr) s"
    using dr(2) dir_at_length [OF dr(2)] by (auto simp: entry_fuel_def dir_at_def)
  have "lookup d name s = lookup_loop (entry_fuel (d_inode dr) s) (d_inode dr) name (int (20 * 0)) s"
    using assms(1) dr(1) by (simp add: lookup_def get_dir_def dir_ready_def)
  then show ?thesis
    using lookup_loop_spec [OF dr(2) _ _ assms(2) _ fu] assms(1) unfolding dir_ready_def dl_inv_def entry_index_def by auto
qed

lemma dir_ready_quiet: "quiet s s' \<Longrightarrow> dir_ready s d ino D \<Longrightarrow> dir_ready s' d ino D"
  using dir_at_quiet [of s s'] by (auto simp: dir_ready_def quietD)

text \<open>An entry written into a slot of the directory.\<close>

lemma write_entry:
  assumes "dir_at s i ino D" "\<forall>k. mallocs s k" "deny_write_cnt ino = 0" "entry_ok e" "j < length D div 20"
  shows "\<exists>s'. inode_write_at i (dir_entry_bytes e) (int sizeof_dir_entry) (int (20 * j)) s = Inr (int sizeof_dir_entry, s') \<and>
     wrote (inode_extent (i_data ino)) s s' \<and> dir_at s' i ino (overlay D (20 * j) (dir_entry_bytes e))"
proof -
  have d: "inodes s i = Some ino" "i \<noteq> 0" "inode_ok (fs_device s) (i_data ino)" "D = inode_bytes (sectors (fs_device s)) (i_data ino)"
    using assms(1) by (auto simp: dir_at_def)
  have l: "length D = nat (di_length (i_data ino))" "0 \<le> di_length (i_data ino)" using dir_at_length [OF assms(1)] by auto
  have b: "length (dir_entry_bytes e) = 20" using length_dir_entry_bytes [OF assms(4)] .
  have m: "min (nat 20) (nat (di_length (i_data ino) - int (20 * j))) = 20" using assms(5) l by auto
  obtain s' where s': "inode_write_at i (dir_entry_bytes e) 20 (int (20 * j)) s = Inr (int 20, s')"
      "wrote (inode_extent (i_data ino)) s s'"
      "inode_bytes (sectors (fs_device s')) (i_data ino) = overlay D (nat (int (20 * j))) (take 20 (dir_entry_bytes e))"
    using inode_write_at_spec [OF d(1,3), of "int (20 * j)" 20 "dir_entry_bytes e"] assms(2,3) d(4) b m by auto
  have "dir_at s' i ino (overlay D (20 * j) (dir_entry_bytes e))"
    using s'(3) b d(1-3) wroteD(5,14) [OF s'(2)] by (simp add: dir_at_def nat_mult_distrib)
  then show ?thesis using s'(1,2) by (simp add: sizeof_dir_entry_def)
qed

lemma dir_add_spec:
  assumes "dir_ready s d ino D" "0 \<notin> set name" "k < 2 ^ 32"
  shows "\<exists>s' D'. dir_add d name k s = Inr (dl_add name k (entries_of D) \<noteq> None, s') \<and>
     wrote (inode_extent (i_data ino)) s s' \<and> dir_ready s' d ino D' \<and>
     entries_of D' = (case dl_add name k (entries_of D) of None \<Rightarrow> entries_of D | Some es \<Rightarrow> es)"
proof (cases "name = [] \<or> length name > NAME_MAX")
  case True
  then have "dir_add d name k s = Inr (False, s)" using assms(1) by (auto simp: dir_add_def dir_ready_def)
  then show ?thesis using True assms(1) quiet_wrote [OF quiet_refl] by (auto simp: dl_add_def)
next
  case False
  let ?es = "entries_of D"
  obtain s1 where lk: "lookup d name s = Inr (map_option (\<lambda>m. (?es ! m, int (20 * m))) (entry_index name ?es), s1)" "quiet s s1"
    using lookup_spec [OF assms(1,2)] by blast
  have r1: "dir_ready s1 d ino D" using dir_ready_quiet [OF lk(2) assms(1)] .
  have d0: "d \<noteq> 0" using assms(1) by (simp add: dir_ready_def)
  show ?thesis
  proof (cases "entry_index name ?es")
    case (Some j)
    then have "dir_add d name k s = Inr (False, s1)" using False lk(1) d0 by (auto simp: dir_add_def)
    then show ?thesis using Some r1 quiet_wrote [OF lk(2)] by (auto simp: dl_add_def)
  next
    case None
    obtain dr where dr: "dirs s1 d = Some dr" "dir_at s1 (d_inode dr) ino D" using r1 by (auto simp: dir_ready_def)
    have fu: "length D div 20 - 0 < entry_fuel (d_inode dr) s1"
      using dr(2) dir_at_length [OF dr(2)] by (auto simp: entry_fuel_def dir_at_def)
    obtain e' s2 where fr: "free_slot_loop (entry_fuel (d_inode dr) s1) (d_inode dr) (junk_entry s1) (int (20 * 0)) s1 =
          Inr (e', int (20 * (case free_index ?es of None \<Rightarrow> length D div 20 | Some m \<Rightarrow> m)), s2)" "quiet s1 s2"
        "length e' = 20" "\<And>m. free_index ?es = Some m \<Longrightarrow> dir_entry_of e' = ?es ! m"
    proof -
      have "\<forall>k. mallocs s1 k" "length D mod 20 = 0" "length (junk_entry s1) = 20" using r1 by (auto simp: dir_ready_def)
      from free_slot_loop_spec [OF dr(2) this _ fu] show thesis using that unfolding free_index_def by auto
    qed
    let ?ofs = "int (20 * (case free_index ?es of None \<Rightarrow> length D div 20 | Some m \<Rightarrow> m))"
    have r2: "dir_ready s2 d ino D" using dir_ready_quiet [OF fr(2) r1] .
    have at2: "dir_at s2 (d_inode dr) ino D" using dir_at_quiet [OF fr(2) dr(2)] .
    have dr2: "dirs s2 d = Some dr" using quietD(10) [OF fr(2)] dr(1) by simp
    have ad: "dir_add d name k s = rbind (inode_write_at (d_inode dr) (dir_entry_bytes (entry_for name k (dir_entry_of e'))) (int sizeof_dir_entry) ?ofs s2)
         (\<lambda>(n, s3). Inr (n = int sizeof_dir_entry, s3))"
      using False None lk(1) d0 dr(1) fr(1) by (auto simp: dir_add_def get_dir_def Let_def entry_for_def)
    have v: "valid_name name" using False assms(2) by (simp add: valid_name_def)
    have l15: "length (e_name (dir_entry_of e')) = 15" using fr(3) by (simp add: dir_entry_of_def)
    have ok: "entry_ok (entry_for name k (dir_entry_of e'))"
      using c_string_set_name [OF v l15] assms(3) by (simp add: entry_ok_def entry_for_def)
    show ?thesis
    proof (cases "free_index ?es")
      case (Some m)
      have m: "m < length D div 20" using free_index_Some [OF Some] by simp
      obtain s3 where w: "inode_write_at (d_inode dr) (dir_entry_bytes (entry_for name k (?es ! m))) (int sizeof_dir_entry) (int (20 * m)) s2 =
          Inr (int sizeof_dir_entry, s3)" "wrote (inode_extent (i_data ino)) s2 s3"
          "dir_at s3 (d_inode dr) ino (overlay D (20 * m) (dir_entry_bytes (entry_for name k (?es ! m))))"
        using write_entry [OF at2 _ _ _ m, of "entry_for name k (?es ! m)"] r2 ok fr(4) [OF Some] by (auto simp: dir_ready_def)
      let ?D' = "overlay D (20 * m) (dir_entry_bytes (entry_for name k (?es ! m)))"
      have ok': "entry_ok (entry_for name k (?es ! m))" using ok fr(4) [OF Some] by simp
      have es': "entries_of ?D' = ?es[m := entry_for name k (?es ! m)]" using entries_of_update [OF m ok'] .
      have dl: "dl_add name k ?es = Some (entries_of ?D')" using False None Some es' by (auto simp: dl_add_def)
      have "20 * m + length (dir_entry_bytes (entry_for name k (?es ! m))) \<le> length D"
        using m length_dir_entry_bytes [OF ok'] by linarith
      then have "dir_ready s3 d ino ?D'"
        using r2 w(3) dr2 wroteD(4,10,12) [OF w(2)] dl_add_laws [OF _ _ dl] assms(2,3) by (auto simp: dir_ready_def)
      moreover have "wrote (inode_extent (i_data ino)) s s3"
        using wrote_trans_same [OF quiet_wrote [OF quiet_trans [OF lk(2) fr(2)]] w(2)] .
      moreover have "dir_add d name k s = Inr (True, s3)" using ad w(1) Some fr(4) [OF Some] by simp
      ultimately show ?thesis using dl by auto
    next
      case none: None
      have dd: "inodes s2 (d_inode dr) = Some ino" "inode_ok (fs_device s2) (i_data ino)" using at2 by (auto simp: dir_at_def)
      have "nat (di_length (i_data ino)) = 20 * (length D div 20)" "0 \<le> di_length (i_data ino)"
        using dir_at_length [OF at2] r2 by (auto simp: dir_ready_def)
      then have z: "min (nat 20) (nat (di_length (i_data ino) - ?ofs)) = 0" using none by simp
      obtain s3 where w: "inode_write_at (d_inode dr) (dir_entry_bytes (entry_for name k (dir_entry_of e'))) 20 ?ofs s2 = Inr (0, s3)"
          "wrote (inode_extent (i_data ino)) s2 s3"
          "inode_bytes (sectors (fs_device s3)) (i_data ino) = inode_bytes (sectors (fs_device s2)) (i_data ino)"
        using inode_write_at_spec [OF dd, of ?ofs 20 "dir_entry_bytes (entry_for name k (dir_entry_of e'))"] r2 ok z
        by (auto simp: dir_ready_def length_dir_entry_bytes)
      have "dir_at s3 (d_inode dr) ino D" using at2 w(3) wroteD(5,14) [OF w(2)] by (simp add: dir_at_def)
      then have "dir_ready s3 d ino D" using r2 dr2 wroteD(4,10,12) [OF w(2)] by (auto simp: dir_ready_def)
      moreover have "wrote (inode_extent (i_data ino)) s s3"
        using wrote_trans_same [OF quiet_wrote [OF quiet_trans [OF lk(2) fr(2)]] w(2)] .
      moreover have "dir_add d name k s = Inr (False, s3)" using ad w(1) by (simp add: sizeof_dir_entry_def)
      ultimately show ?thesis using none by (auto simp: dl_add_def)
    qed
  qed
qed

end
