(* ===== verification/Filesys.thy ===== *)
theory Filesys
  imports Directory
begin

text \<open>
  The file system proper (src/pintos2/src/filesys/filesys.c): create, open and remove by name in
  the root directory, formatting and initialisation. Every operation runs under one lock. The
  operations here are run one after the other, so a lock that is found taken stays taken: the
  caller waits for ever (\<open>Diverged\<close>).
\<close>

definition lock_filesys :: "fs \<Rightarrow> fs res" where
  "lock_filesys s = (if filesys_lock s then Inl Diverged else Inr (s\<lparr>filesys_lock := True\<rparr>))"

definition unlock_filesys :: "fs \<Rightarrow> fs res" where
  "unlock_filesys s = kassert (filesys_lock s) (Inr (s\<lparr>filesys_lock := False\<rparr>))"

definition filesys_create :: "u8 list \<Rightarrow> int \<Rightarrow> fs \<Rightarrow> (bool \<times> fs) res" where
  "filesys_create name initial_size s =
     rbind (lock_filesys s) (\<lambda>s0.
     rbind (dir_open_root s0) (\<lambda>(d, s1).
     rbind (if d = 0 then Inr (False, 0, s1)
            else rbind (free_map_allocate 1 s1) (\<lambda>(sec, s2). case sec of
                   None \<Rightarrow> Inr (False, 0, s2)
                 | Some k \<Rightarrow> rbind (inode_create k initial_size s2) (\<lambda>(ok, s3).
                     if ok then rbind (dir_add d name k s3) (\<lambda>(ok2, s4). Inr (ok2, k, s4))
                     else Inr (False, k, s3)))) (\<lambda>(success, k, s5).
     rbind (if \<not> success \<and> k \<noteq> 0 then free_map_release k 1 s5 else Inr s5) (\<lambda>s6.
     rbind (dir_close d s6) (\<lambda>s7.
     rbind (unlock_filesys s7) (\<lambda>s8. Inr (success, s8)))))))"

definition filesys_open :: "u8 list \<Rightarrow> fs \<Rightarrow> (nat \<times> fs) res" where
  "filesys_open name s =
     rbind (lock_filesys s) (\<lambda>s0.
     rbind (dir_open_root s0) (\<lambda>(d, s1).
     rbind (if d \<noteq> 0 then dir_lookup d name s1 else Inr (0, s1)) (\<lambda>(i, s2).
     rbind (dir_close d s2) (\<lambda>s3.
     rbind (unlock_filesys s3) (\<lambda>s4. file_open i s4)))))"

definition filesys_remove :: "u8 list \<Rightarrow> fs \<Rightarrow> (bool \<times> fs) res" where
  "filesys_remove name s =
     rbind (lock_filesys s) (\<lambda>s0.
     rbind (dir_open_root s0) (\<lambda>(d, s1).
     rbind (if d \<noteq> 0 then dir_remove d name s1 else Inr (False, s1)) (\<lambda>(success, s2).
     rbind (dir_close d s2) (\<lambda>s3.
     rbind (unlock_filesys s3) (\<lambda>s4. Inr (success, s4))))))"

definition do_format :: "fs \<Rightarrow> fs res" where
  "do_format s =
     rbind (free_map_create s) (\<lambda>s1.
     rbind (dir_create ROOT_DIR_SECTOR 16 s1) (\<lambda>(ok, s2).
       if \<not> ok then Inl (Panic ''root directory creation failed'') else free_map_close s2))"

definition filesys_init :: "bool \<Rightarrow> block option \<Rightarrow> u32 list \<Rightarrow> fs \<Rightarrow> fs res" where
  "filesys_init format fs_dev junk s =
     (let s0 = s\<lparr>filesys_lock := False\<rparr>
      in case fs_dev of
           None \<Rightarrow> Inl (Panic ''No file system device found, can't initialize file system.'')
         | Some dev \<Rightarrow>
             rbind (free_map_init junk (inode_init (s0\<lparr>fs_device := dev\<rparr>))) (\<lambda>s1.
             rbind (if format then do_format s1 else Inr s1) (\<lambda>s2. free_map_open s2)))"

definition filesys_done :: "fs \<Rightarrow> fs res" where
  "filesys_done s = free_map_close s"

definition check_filesys_lock :: "fs \<Rightarrow> bool" where
  "check_filesys_lock s = filesys_lock s"

end
