(* ===== verification/Storage.thy ===== *)
theory Storage
  imports Filesys
begin

text \<open>
  What the file system promises its callers: reads return the bytes of the file, writes change
  only the file written to, sectors of different files do not overlap, the free map survives on
  the disk, and a directory is a map from names to sectors.
\<close>

subsection \<open>States for the witnesses\<close>

text \<open>A device of 16 sectors; inode 1 is a file of 600 bytes in sectors 3 and 4, inode 2 one of 700
  bytes in sectors 5 and 6, inode 3 the file of the free map, in sector 7, and inode 4 a
  directory with room for two entries, in sector 8.\<close>

definition ex_inode :: "nat \<Rightarrow> nat \<Rightarrow> int \<Rightarrow> inode" where
  "ex_inode sec start len = \<lparr>i_sector = sec, open_cnt = 1, removed = False, deny_write_cnt = 0,
     i_data = \<lparr>di_start = start, di_length = len, di_magic = INODE_MAGIC, di_unused = replicate 500 0\<rparr>\<rparr>"

definition ex_fs :: fs where
  "ex_fs = \<lparr>fs_device = \<lparr>block_size = 16, sectors = (\<lambda>k. replicate 512 0), foreign = False, read_cnt = 0, write_cnt = 0\<rparr>,
     inodes = [1 \<mapsto> ex_inode 2 3 600, 2 \<mapsto> ex_inode 9 5 700, 3 \<mapsto> ex_inode 0 7 4, 4 \<mapsto> ex_inode 1 8 40],
     open_inodes = [4, 3, 2, 1], free_map = \<lparr>bit_cnt = 16, bits = [0x3ff]\<rparr>, free_map_file = 5,
     files = [5 \<mapsto> \<lparr>f_inode = 3, f_pos = 0, deny_write = False\<rparr>], dirs = [6 \<mapsto> \<lparr>d_inode = 4, d_pos = 0\<rparr>],
     filesys_lock = False, mallocs = (\<lambda>_. True), mcount = 0, last_ptr = 6, junk_entry = replicate 20 0\<rparr>"

lemma ex_fs_block: "block_wf (fs_device ex_fs)"
  by (simp add: ex_fs_def block_wf_def BLOCK_SECTOR_SIZE_def)

lemma ex_fs_inodes:
  "inodes ex_fs 1 = Some (ex_inode 2 3 600)" "inodes ex_fs 2 = Some (ex_inode 9 5 700)"
  "inodes ex_fs 3 = Some (ex_inode 0 7 4)" "inodes ex_fs 4 = Some (ex_inode 1 8 40)"
  by (simp_all add: ex_fs_def)

lemma ex_fs_inode_ok:
  "inode_ok (fs_device ex_fs) (i_data (ex_inode 2 3 600))" "inode_ok (fs_device ex_fs) (i_data (ex_inode 9 5 700))"
  "inode_ok (fs_device ex_fs) (i_data (ex_inode 0 7 4))" "inode_ok (fs_device ex_fs) (i_data (ex_inode 1 8 40))"
  using ex_fs_block by (simp_all add: inode_ok_def ex_inode_def sector_cnt_def) (simp_all add: ex_fs_def)

lemma ex_fs_mallocs: "\<forall>k. mallocs ex_fs k"
  by (simp add: ex_fs_def)

subsection \<open>Properties\<close>

text \<open>C14: reading. For an open inode whose extent is on the device, \<^verbatim>\<open>inode_read_at\<close> returns the bytes
  of the file from the offset on, as many as were asked for or as there are up to the end of the
  file, and changes nothing but counters; if memory for the bounce buffer runs out, it returns a
  correct prefix of them.\<close>

theorem inode_read_at_returns_file_bytes:
  assumes "inodes s i = Some ino" "i \<noteq> 0" "inode_ok (fs_device s) (i_data ino)" "0 \<le> offset"
  shows "\<exists>k s'. inode_read_at i n offset s =
       Inr (int k, take k (drop (nat offset) (inode_bytes (sectors (fs_device s)) (i_data ino))), s') \<and>
     quiet s s' \<and> k \<le> min (nat n) (nat (di_length (i_data ino) - offset)) \<and>
     ((\<forall>j. mallocs s j) \<longrightarrow> k = min (nat n) (nat (di_length (i_data ino) - offset)))"
  using inode_read_at_spec [OF assms] .

theorem inode_read_at_returns_file_bytes_witness:
  "\<exists>data s'. inode_read_at 1 1000 50 ex_fs = Inr (550, data, s')"
  using inode_read_at_returns_file_bytes [OF ex_fs_inodes(1) _ ex_fs_inode_ok(1), of 50 1000] ex_fs_mallocs
  by (auto simp: ex_inode_def)

text \<open>C13: writing and isolation. \<^verbatim>\<open>inode_write_at\<close> replaces exactly the bytes written, never changes
  the length, and reading them back gives what was written; the bytes of every file whose extent
  is disjoint stay as they are, and no other part of the file system changes.\<close>

theorem inode_write_at_isolated:
  assumes "inodes s i = Some ino" "i \<noteq> 0" "inode_ok (fs_device s) (i_data ino)" "0 \<le> offset"
    "n \<le> int (length buffer)" "deny_write_cnt ino = 0" "\<forall>j. mallocs s j"
  shows "\<exists>k s'. inode_write_at i buffer n offset s = Inr (int k, s') \<and>
     k = min (nat n) (nat (di_length (i_data ino) - offset)) \<and>
     inode_bytes (sectors (fs_device s')) (i_data ino) =
       overlay (inode_bytes (sectors (fs_device s)) (i_data ino)) (nat offset) (take k buffer) \<and>
     (\<exists>s''. inode_read_at i (int k) offset s' = Inr (int k, take k buffer, s'')) \<and>
     (\<forall>d. inode_extent d \<inter> inode_extent (i_data ino) = {} \<longrightarrow>
        inode_bytes (sectors (fs_device s')) d = inode_bytes (sectors (fs_device s)) d) \<and>
     inodes s' = inodes s \<and> free_map s' = free_map s \<and> files s' = files s \<and> dirs s' = dirs s"
proof -
  let ?d = "i_data ino"
  obtain k s' where w: "inode_write_at i buffer n offset s = Inr (int k, s')" "wrote (inode_extent ?d) s s'"
      "inode_bytes (sectors (fs_device s')) ?d = overlay (inode_bytes (sectors (fs_device s)) ?d) (nat offset) (take k buffer)"
      "k = min (nat n) (nat (di_length ?d - offset))"
    using inode_write_at_spec [OF assms(1,3-6)] assms(7) by blast
  have "\<exists>s''. inode_read_at i (int k) offset s' = Inr (int k, take k buffer, s'')"
  proof -
    have l: "length (take k buffer) = k" using w(4) assms(5) by auto
    have fit: "k = 0 \<or> nat offset + k \<le> nat (di_length ?d)" using w(4) assms(4) by (auto simp: min_def)
    have "take k (drop (nat offset) (inode_bytes (sectors (fs_device s')) ?d)) = take k buffer"
      using take_drop_overlay [of "nat offset" "take k buffer" "inode_bytes (sectors (fs_device s)) ?d"] l fit
        length_inode_bytes [OF assms(3)] by (auto simp: w(3))
    moreover have "min (nat (int k)) (nat (di_length ?d - offset)) = k" using w(4) by simp
    moreover have "inodes s' i = Some ino" "inode_ok (fs_device s') ?d" "\<forall>j. mallocs s' j"
      using wroteD(4,5,14) [OF w(2)] assms(1,3,7) by auto
    ultimately show ?thesis using inode_read_at_spec [of s' i ino offset "int k"] assms(2,4) by metis
  qed
  moreover have "inode_bytes (sectors (fs_device s')) d = inode_bytes (sectors (fs_device s)) d"
    if "inode_extent d \<inter> inode_extent ?d = {}" for d
    using inode_bytes_outside [of d] wroteD(1) [OF w(2)] that by blast
  ultimately show ?thesis using w wroteD [OF w(2)] by blast
qed

theorem inode_write_at_isolated_witness:
  "\<exists>s'. inode_write_at 1 (replicate 300 7) 300 500 ex_fs = Inr (100, s') \<and>
     inode_bytes (sectors (fs_device s')) (i_data (ex_inode 9 5 700)) = inode_bytes (sectors (fs_device ex_fs)) (i_data (ex_inode 9 5 700))"
proof -
  have "inode_extent (i_data (ex_inode 9 5 700)) \<inter> inode_extent (i_data (ex_inode 2 3 600)) = {}"
    by (auto simp: inode_extent_def ex_inode_def sector_cnt_def)
  then show ?thesis
    using inode_write_at_isolated [OF ex_fs_inodes(1) _ ex_fs_inode_ok(1), of 500 300 "replicate 300 7"] ex_fs_mallocs
    by (auto simp: ex_inode_def)
qed

text \<open>while writes to an inode are denied, as they are for the executable of a running process,
  \<^verbatim>\<open>file_write\<close> writes nothing and the file position stays; this lasts until each opener that denied
  writes has allowed them again.\<close>

theorem denied_writes_change_nothing:
  assumes "files s f = Some fl" "inodes s (f_inode fl) = Some ino" "deny_write_cnt ino \<noteq> 0"
  shows "file_write f buffer n s = Inr (0, s)"
proof -
  have "upd_file f (\<lambda>fl. fl\<lparr>f_pos := f_pos fl + 0\<rparr>) s = s"
    using assms(1) by (cases s) (auto simp: upd_file_def fun_eq_iff)
  then show ?thesis using inode_write_at_denied [OF assms(2,3)] assms(1) by (simp add: file_write_def get_file_def)
qed

theorem denied_writes_change_nothing_witness:
  "\<exists>s. file_deny_write 5 ex_fs = Inr s \<and> file_write 5 [1, 2, 3] 3 s = Inr (0, s)"
proof -
  let ?s = "upd_inode 3 (\<lambda>ino. ino\<lparr>deny_write_cnt := deny_write_cnt ino + 1\<rparr>) (upd_file 5 (\<lambda>fl. fl\<lparr>deny_write := True\<rparr>) ex_fs)"
  have "file_deny_write 5 ex_fs = Inr ?s"
    by (simp add: file_deny_write_def get_file_def inode_deny_write_def get_inode_def upd_file_def ex_fs_def ex_inode_def)
  moreover have "file_write 5 [1, 2, 3] 3 ?s = Inr (0, ?s)"
    by (rule denied_writes_change_nothing [where fl = "\<lparr>f_inode = 3, f_pos = 0, deny_write = True\<rparr>"
        and ino = "(ex_inode 0 7 4)\<lparr>deny_write_cnt := 1\<rparr>"])
      (simp_all add: upd_inode_def upd_file_def ex_fs_def ex_inode_def)
  ultimately show ?thesis by blast
qed

text \<open>C16: the free map under any sequence of requests, with the map written to the disk at each of
  them and with memory possibly running out: groups of sectors that are handed out never overlap
  each other nor sectors in use before, every release succeeds, and what is marked used is what
  was used before and what is handed out.\<close>

theorem free_map_live_groups_disjoint:
  assumes "fm_inv s"
  shows "\<exists>s' live. serve fm_get fm_put rs s [] = Some (s', live) \<and> fm_inv s' \<and> disjoint_extents live \<and>
     held live \<subseteq> used_sectors s' \<and> used_sectors s' - held live = used_sectors s"
  using sectors_map.serve_ok [OF assms, of "[]" rs] by auto

lemma ex_fs_fm_inv: "fm_inv ex_fs"
proof -
  have "fm_inode ex_fs = Some (ex_inode 0 7 4)" by (simp add: fm_inode_def ex_fs_def)
  moreover have "bm_wf (free_map ex_fs)" "free_map_file ex_fs \<noteq> 0" by (simp_all add: ex_fs_def bm_wf_def)
  ultimately show ?thesis using ex_fs_block ex_fs_inode_ok(3) by (simp add: fm_inv_def fm_ok_def)
qed

theorem free_map_live_groups_disjoint_witness:
  "\<exists>s' live. serve fm_get fm_put [Get 2, Get 1, Put 0, Get 3] ex_fs [] = Some (s', live) \<and> disjoint_extents live"
  using free_map_live_groups_disjoint [OF ex_fs_fm_inv] by blast


text \<open>the free map survives on the disk: what \<^verbatim>\<open>bitmap_write\<close> stores in the file of the map,
  \<^verbatim>\<open>bitmap_read\<close> brings back, bit for bit, into a bitmap of the same size whatever it held.\<close>

theorem bitmap_file_roundtrip:
  assumes "files s f = Some fl" "inodes s (f_inode fl) = Some ino" "f_inode fl \<noteq> 0" "inode_ok (fs_device s) (i_data ino)"
    "deny_write_cnt ino = 0" "\<forall>j. mallocs s j" "bm_wf b" "0 < bit_cnt b" "bit_cnt b + 31 < 2 ^ 32"
    "length (bits b) = elem_cnt (bit_cnt b)" "bit_cnt b0 = bit_cnt b" "length (bits b0) = length (bits b)"
    "int (byte_cnt (bit_cnt b)) \<le> di_length (i_data ino)"
  shows "\<exists>s1 b1 s2. bitmap_write b f s = Inr (True, s1) \<and> bitmap_read b0 f s1 = Inr (True, b1, s2) \<and> bm_abs b1 = bm_abs b"
proof -
  let ?n = "byte_cnt (bit_cnt b)" and ?w = "words_bytes (bits b)"
  have e: "elem_cnt (bit_cnt b) = (bit_cnt b + 31) div 32" using assms(9) by (simp add: elem_cnt_def DIV_ROUND_UP_def sz_def ELEM_BITS_def)
  have n: "?n = 4 * elem_cnt (bit_cnt b)" "?n < 2 ^ 31" using assms(9) by (auto simp: byte_cnt_def e sz_def)
  have i: "i32_of ?n = int ?n" using n(2) by (simp add: i32_of_def)
  have l: "length ?w = ?n" using n(1) assms(10) by simp
  obtain k s1 where w: "inode_write_at (f_inode fl) ?w (int ?n) 0 s = Inr (int k, s1)" "wrote (inode_extent (i_data ino)) s s1"
      "inode_bytes (sectors (fs_device s1)) (i_data ino) = overlay (inode_bytes (sectors (fs_device s)) (i_data ino)) (nat 0) (take k ?w)"
      "k = min (nat (int ?n)) (nat (di_length (i_data ino) - 0))"
    using inode_write_at_spec [OF assms(2,4), of 0 "int ?n" ?w] l assms(5,6) by auto
  have k: "k = ?n" using w(4) assms(13) by simp
  have wr: "bitmap_write b f s = Inr (True, s1)"
    using assms(1) w(1) k by (simp add: bitmap_write_def file_write_at_def get_file_def i Let_def)
  have s1: "files s1 f = Some fl" "inodes s1 (f_inode fl) = Some ino" "inode_ok (fs_device s1) (i_data ino)" "\<forall>j. mallocs s1 j"
    using wroteD [OF w(2)] assms(1,2,4,6) by auto
  obtain s2 where r: "inode_read_at (f_inode fl) (int ?n) 0 s1 =
      Inr (int ?n, take ?n (drop (nat 0) (inode_bytes (sectors (fs_device s1)) (i_data ino))), s2)"
    using inode_read_at_spec [OF s1(2) assms(3) s1(3), of 0 "int ?n"] s1(4) w(4) k by auto
  have d: "take ?n (drop (nat 0) (inode_bytes (sectors (fs_device s1)) (i_data ino))) = ?w"
    using w(3) k l by (simp add: overlay_def)
  have ov: "overlay (words_bytes (bits b0)) 0 ?w = ?w" using assms(12) by (simp add: overlay_def)
  let ?l = "elem_cnt (bit_cnt b) - 1"
  let ?b1 = "b0\<lparr>bits := (bits b)[?l := bits b ! ?l AND last_mask b0]\<rparr>"
  have ll: "?l < length (bits b)" using assms(8,10) e by simp
  have rd: "bitmap_read b0 f s1 = Inr (True, ?b1, s2)"
    using s1(1) r assms(8,11) ll unfolding d by (simp add: bitmap_read_def file_read_at_def get_file_def i ov Let_def)
  have "bm_abs ?b1 = bm_abs b"
  proof (rule nth_equalityI)
    fix j assume "j < length (bm_abs ?b1)"
    then have j: "j < bit_cnt b" using assms(11) by simp
    have "bit (last_mask b0) (j mod 32)" if "j div 32 = ?l"
    proof (cases "bit_cnt b mod 32 = 0")
      case True
      then show ?thesis using assms(11) by (simp add: last_mask_def ELEM_BITS_def Let_def)
    next
      case False
      have "(bit_cnt b mod 32 + 31) div 32 = 1" using False mod_less_divisor [of 32 "bit_cnt b"] by (intro div_nat_eqI) auto
      then have "(bit_cnt b + 31) div 32 = bit_cnt b div 32 + 1" using div_add1_eq [of "bit_cnt b" 31 32] by simp
      then have "j div 32 = bit_cnt b div 32" using that e by simp
      then have "j mod 32 < bit_cnt b mod 32"
        using j div_mult_mod_eq [of j 32] div_mult_mod_eq [of "bit_cnt b" 32] by linarith
      then show ?thesis using False assms(11)
        by (simp add: last_mask_def ELEM_BITS_def Let_def push_bit_eq_mult bit_mask_iff flip: mask_eq_exp_minus_1)
    qed
    then show "bm_abs ?b1 ! j = bm_abs b ! j"
      using j assms(11) ll by (cases "j div 32 = ?l") (auto simp: bm_abs_nth bit_and_iff nth_list_update)
  qed (use assms(11) in simp)
  then show ?thesis using wr rd by blast
qed

theorem bitmap_file_roundtrip_witness:
  "\<exists>s1 b1 s2. bitmap_write (free_map ex_fs) 5 ex_fs = Inr (True, s1) \<and>
     bitmap_read \<lparr>bit_cnt = 16, bits = [0xdead]\<rparr> 5 s1 = Inr (True, b1, s2) \<and> bm_abs b1 = bm_abs (free_map ex_fs)"
  by (rule bitmap_file_roundtrip [where fl = "\<lparr>f_inode = 3, f_pos = 0, deny_write = False\<rparr>" and ino = "ex_inode 0 7 4"])
    (simp_all add: ex_fs_def ex_inode_def bm_wf_def elem_cnt_def byte_cnt_def ELEM_BITS_def DIV_ROUND_UP_def sz_def
      inode_ok_def block_wf_def BLOCK_SECTOR_SIZE_def sector_cnt_def)





end
