(* ===== verification/Kstring.thy ===== *)
theory Kstring
  imports Prelude
begin

text \<open>
  The string library (src/pintos2/src/lib/string.c) on a flat memory of bytes. Pointers are 32-bit
  addresses, sizes are natural numbers. A loop that runs until it meets a terminator takes a
  number of iterations; running out of them is running past every byte one is willing to look at.

  \<open>cstr m a s\<close> says that the string \<open>s\<close> and its terminator are at \<open>a\<close>. The lemmas show what each function
  computes on such strings; \<open>strtok_r\<close> splits off the first word (\<open>strtok_r_word\<close>), and calling it
  until it returns null gives the words of the string (\<open>Arguments\<close>).
\<close>

type_synonym mem = "u32 \<Rightarrow> u8"

subsection \<open>Blocks\<close>

fun memcpy_loop :: "u32 \<Rightarrow> u32 \<Rightarrow> nat \<Rightarrow> mem \<Rightarrow> mem" where
  "memcpy_loop dst src 0 m = m"
| "memcpy_loop dst src (Suc n) m = memcpy_loop (dst + 1) (src + 1) n (m(dst := m src))"

definition memcpy :: "u32 \<Rightarrow> u32 \<Rightarrow> nat \<Rightarrow> mem \<Rightarrow> (u32 \<times> mem) res" where
  "memcpy dst src n m =
     kassert (dst \<noteq> 0 \<or> n = 0) (kassert (src \<noteq> 0 \<or> n = 0) (Inr (dst, memcpy_loop dst src n m)))"

fun memmove_up :: "u32 \<Rightarrow> u32 \<Rightarrow> nat \<Rightarrow> mem \<Rightarrow> u32 \<times> mem" where
  "memmove_up dst src 0 m = (dst, m)"
| "memmove_up dst src (Suc n) m = memmove_up (dst + 1) (src + 1) n (m(dst := m src))"

fun memmove_down :: "u32 \<Rightarrow> u32 \<Rightarrow> nat \<Rightarrow> mem \<Rightarrow> u32 \<times> mem" where
  "memmove_down dst src 0 m = (dst, m)"
| "memmove_down dst src (Suc n) m = memmove_down (dst - 1) (src - 1) n (m(dst - 1 := m (src - 1)))"

definition memmove :: "u32 \<Rightarrow> u32 \<Rightarrow> nat \<Rightarrow> mem \<Rightarrow> (u32 \<times> mem) res" where
  "memmove dst src n m =
     kassert (dst \<noteq> 0 \<or> n = 0) (kassert (src \<noteq> 0 \<or> n = 0)
       (Inr (if dst < src then memmove_up dst src n m else memmove_down (dst + of_nat n) (src + of_nat n) n m)))"

fun memcmp_loop :: "u32 \<Rightarrow> u32 \<Rightarrow> nat \<Rightarrow> mem \<Rightarrow> int" where
  "memcmp_loop a b 0 m = 0"
| "memcmp_loop a b (Suc n) m = (if m a \<noteq> m b then (if m a > m b then 1 else - 1) else memcmp_loop (a + 1) (b + 1) n m)"

definition memcmp :: "u32 \<Rightarrow> u32 \<Rightarrow> nat \<Rightarrow> mem \<Rightarrow> int res" where
  "memcmp a b n m = kassert (a \<noteq> 0 \<or> n = 0) (kassert (b \<noteq> 0 \<or> n = 0) (Inr (memcmp_loop a b n m)))"

fun memchr_loop :: "u32 \<Rightarrow> u8 \<Rightarrow> nat \<Rightarrow> mem \<Rightarrow> u32" where
  "memchr_loop b ch 0 m = 0"
| "memchr_loop b ch (Suc n) m = (if m b = ch then b else memchr_loop (b + 1) ch n m)"

definition memchr :: "u32 \<Rightarrow> u8 \<Rightarrow> nat \<Rightarrow> mem \<Rightarrow> u32 res" where
  "memchr b ch n m = kassert (b \<noteq> 0 \<or> n = 0) (Inr (memchr_loop b ch n m))"

fun memset_loop :: "u32 \<Rightarrow> u8 \<Rightarrow> nat \<Rightarrow> mem \<Rightarrow> mem" where
  "memset_loop dst v 0 m = m"
| "memset_loop dst v (Suc n) m = memset_loop (dst + 1) v n (m(dst := v))"

definition memset :: "u32 \<Rightarrow> u8 \<Rightarrow> nat \<Rightarrow> mem \<Rightarrow> (u32 \<times> mem) res" where
  "memset dst v n m = kassert (dst \<noteq> 0 \<or> n = 0) (Inr (dst, memset_loop dst v n m))"

subsection \<open>Strings\<close>

fun strcmp_loop :: "nat \<Rightarrow> u32 \<Rightarrow> u32 \<Rightarrow> mem \<Rightarrow> int res" where
  "strcmp_loop 0 a b m = Inl Diverged"
| "strcmp_loop (Suc fuel) a b m =
     (if m a \<noteq> 0 \<and> m a = m b then strcmp_loop fuel (a + 1) (b + 1) m
      else Inr (if m a < m b then - 1 else if m a > m b then 1 else 0))"

definition strcmp :: "nat \<Rightarrow> u32 \<Rightarrow> u32 \<Rightarrow> mem \<Rightarrow> int res" where
  "strcmp fuel a b m = kassert (a \<noteq> 0) (kassert (b \<noteq> 0) (strcmp_loop fuel a b m))"

fun strchr_loop :: "nat \<Rightarrow> u32 \<Rightarrow> u8 \<Rightarrow> mem \<Rightarrow> u32 res" where
  "strchr_loop 0 string c m = Inl Diverged"
| "strchr_loop (Suc fuel) string c m =
     (if m string = c then Inr string else if m string = 0 then Inr 0 else strchr_loop fuel (string + 1) c m)"

definition strchr :: "nat \<Rightarrow> u32 \<Rightarrow> u8 \<Rightarrow> mem \<Rightarrow> u32 res" where
  "strchr fuel string c m = kassert (string \<noteq> 0) (strchr_loop fuel string c m)"

fun strcspn_loop :: "nat \<Rightarrow> nat \<Rightarrow> u32 \<Rightarrow> u32 \<Rightarrow> mem \<Rightarrow> nat res" where
  "strcspn_loop 0 len string stop m = Inl Diverged"
| "strcspn_loop (Suc fuel) len string stop m =
     (if m (string + of_nat len) = 0 then Inr len
      else rbind (strchr (Suc fuel) stop (m (string + of_nat len)) m) (\<lambda>p.
             if p \<noteq> 0 then Inr len else strcspn_loop fuel (len + 1) string stop m))"

definition strcspn :: "nat \<Rightarrow> u32 \<Rightarrow> u32 \<Rightarrow> mem \<Rightarrow> nat res" where
  "strcspn fuel string stop m = strcspn_loop fuel 0 string stop m"

fun strpbrk :: "nat \<Rightarrow> u32 \<Rightarrow> u32 \<Rightarrow> mem \<Rightarrow> u32 res" where
  "strpbrk 0 string stop m = Inl Diverged"
| "strpbrk (Suc fuel) string stop m =
     (if m string = 0 then Inr 0
      else rbind (strchr (Suc fuel) stop (m string) m) (\<lambda>p.
             if p \<noteq> 0 then Inr string else strpbrk fuel (string + 1) stop m))"

fun strrchr_loop :: "nat \<Rightarrow> u32 \<Rightarrow> u8 \<Rightarrow> u32 \<Rightarrow> mem \<Rightarrow> u32 res" where
  "strrchr_loop 0 string c p m = Inl Diverged"
| "strrchr_loop (Suc fuel) string c p m =
     (if m string = 0 then Inr p else strrchr_loop fuel (string + 1) c (if m string = c then string else p) m)"

definition strrchr :: "nat \<Rightarrow> u32 \<Rightarrow> u8 \<Rightarrow> mem \<Rightarrow> u32 res" where
  "strrchr fuel string c m = strrchr_loop fuel string c 0 m"

fun strspn_loop :: "nat \<Rightarrow> nat \<Rightarrow> u32 \<Rightarrow> u32 \<Rightarrow> mem \<Rightarrow> nat res" where
  "strspn_loop 0 len string skip m = Inl Diverged"
| "strspn_loop (Suc fuel) len string skip m =
     (if m (string + of_nat len) = 0 then Inr len
      else rbind (strchr (Suc fuel) skip (m (string + of_nat len)) m) (\<lambda>p.
             if p = 0 then Inr len else strspn_loop fuel (len + 1) string skip m))"

definition strspn :: "nat \<Rightarrow> u32 \<Rightarrow> u32 \<Rightarrow> mem \<Rightarrow> nat res" where
  "strspn fuel string skip m = strspn_loop fuel 0 string skip m"

fun strlen_loop :: "nat \<Rightarrow> u32 \<Rightarrow> mem \<Rightarrow> u32 res" where
  "strlen_loop 0 p m = Inl Diverged"
| "strlen_loop (Suc fuel) p m = (if m p \<noteq> 0 then strlen_loop fuel (p + 1) m else Inr p)"

definition strlen :: "nat \<Rightarrow> u32 \<Rightarrow> mem \<Rightarrow> nat res" where
  "strlen fuel string m = kassert (string \<noteq> 0) (rbind (strlen_loop fuel string m) (\<lambda>p. Inr (unat (p - string))))"

fun strnlen_loop :: "nat \<Rightarrow> nat \<Rightarrow> u32 \<Rightarrow> nat \<Rightarrow> mem \<Rightarrow> nat res" where
  "strnlen_loop 0 len string maxlen m = Inl Diverged"
| "strnlen_loop (Suc fuel) len string maxlen m =
     (if m (string + of_nat len) \<noteq> 0 \<and> len < maxlen then strnlen_loop fuel (len + 1) string maxlen m else Inr len)"

definition strnlen :: "nat \<Rightarrow> u32 \<Rightarrow> nat \<Rightarrow> mem \<Rightarrow> nat res" where
  "strnlen fuel string maxlen m = strnlen_loop fuel 0 string maxlen m"

fun strstr_loop :: "nat \<Rightarrow> nat \<Rightarrow> u32 \<Rightarrow> u32 \<Rightarrow> nat \<Rightarrow> mem \<Rightarrow> u32 res" where
  "strstr_loop i 0 haystack needle needle_len m = Inr 0"
| "strstr_loop i (Suc left) haystack needle needle_len m =
     rbind (memcmp (haystack + of_nat i) needle needle_len m) (\<lambda>c.
       if c = 0 then Inr (haystack + of_nat i) else strstr_loop (Suc i) left haystack needle needle_len m)"

definition strstr :: "nat \<Rightarrow> u32 \<Rightarrow> u32 \<Rightarrow> mem \<Rightarrow> u32 res" where
  "strstr fuel haystack needle m =
     rbind (strlen fuel haystack m) (\<lambda>haystack_len.
     rbind (strlen fuel needle m) (\<lambda>needle_len.
       if haystack_len \<ge> needle_len then strstr_loop 0 (haystack_len - needle_len + 1) haystack needle needle_len m
       else Inr 0))"

fun strtok_skip :: "nat \<Rightarrow> u32 \<Rightarrow> u32 \<Rightarrow> mem \<Rightarrow> (bool \<times> u32) res" where
  "strtok_skip 0 s delimiters m = Inl Diverged"
| "strtok_skip (Suc fuel) s delimiters m =
     rbind (strchr (Suc fuel) delimiters (m s) m) (\<lambda>p.
       if p \<noteq> 0 then (if m s = 0 then Inr (True, s) else strtok_skip fuel (s + 1) delimiters m)
       else Inr (False, s))"

fun strtok_scan :: "nat \<Rightarrow> u32 \<Rightarrow> u32 \<Rightarrow> mem \<Rightarrow> u32 res" where
  "strtok_scan 0 s delimiters m = Inl Diverged"
| "strtok_scan (Suc fuel) s delimiters m =
     rbind (strchr (Suc fuel) delimiters (m s) m) (\<lambda>p.
       if p = 0 then strtok_scan fuel (s + 1) delimiters m else Inr s)"

text \<open>\<^verbatim>\<open>strtok_r\<close> returns the token, the new value of \<^verbatim>\<open>*save_ptr\<close> and the memory.\<close>

definition strtok_r :: "nat \<Rightarrow> u32 \<Rightarrow> u32 \<Rightarrow> u32 \<Rightarrow> mem \<Rightarrow> (u32 \<times> u32 \<times> mem) res" where
  "strtok_r fuel s delimiters save_ptr m =
     kassert (delimiters \<noteq> 0)
      (let s1 = (if s = 0 then save_ptr else s)
       in kassert (s1 \<noteq> 0)
        (rbind (strtok_skip fuel s1 delimiters m) (\<lambda>(done, token).
           if done then Inr (0, token, m)
           else rbind (strtok_scan fuel token delimiters m) (\<lambda>s2.
             if m s2 \<noteq> 0 then Inr (token, s2 + 1, m(s2 := 0)) else Inr (token, s2, m)))))"

definition strlcpy :: "nat \<Rightarrow> u32 \<Rightarrow> u32 \<Rightarrow> nat \<Rightarrow> mem \<Rightarrow> (nat \<times> mem) res" where
  "strlcpy fuel dst src n m =
     kassert (dst \<noteq> 0) (kassert (src \<noteq> 0)
      (rbind (strlen fuel src m) (\<lambda>src_len.
         if n > 0 then
           let dst_len = (if src_len < n - 1 then src_len else n - 1)
           in rbind (memcpy dst src dst_len m) (\<lambda>(_, m1). Inr (src_len, m1(dst + of_nat dst_len := 0)))
         else Inr (src_len, m))))"

definition strlcat :: "nat \<Rightarrow> u32 \<Rightarrow> u32 \<Rightarrow> nat \<Rightarrow> mem \<Rightarrow> (nat \<times> mem) res" where
  "strlcat fuel dst src n m =
     kassert (dst \<noteq> 0) (kassert (src \<noteq> 0)
      (rbind (strlen fuel src m) (\<lambda>src_len.
       rbind (strlen fuel dst m) (\<lambda>dst_len.
         if n > 0 \<and> dst_len < n then
           let copy_cnt = (if src_len < n - dst_len - 1 then src_len else n - dst_len - 1)
           in rbind (memcpy (dst + of_nat dst_len) src copy_cnt m) (\<lambda>(_, m1).
                Inr (sz (src_len + dst_len), m1(dst + of_nat (dst_len + copy_cnt) := 0)))
         else Inr (sz (src_len + dst_len), m)))))"


subsection \<open>Reading and writing blocks\<close>

definition kread :: "u32 \<Rightarrow> nat \<Rightarrow> mem \<Rightarrow> u8 list" where
  "kread src n m = map (\<lambda>i. m (src + of_nat i)) [0..<n]"

definition kwrite :: "u32 \<Rightarrow> u8 list \<Rightarrow> mem \<Rightarrow> mem" where
  "kwrite dst bs m = (\<lambda>a. if unat (a - dst) < length bs then bs ! unat (a - dst) else m a)"

lemma length_kread [simp]: "length (kread a n m) = n"
  by (simp add: kread_def)

lemma kread_add: "kread a (n + k) m = kread a n m @ kread (a + of_nat n) k m"
  by (rule nth_equalityI) (auto simp: kread_def nth_append ac_simps of_nat_diff)

lemma kread_blocks: "concat (map (\<lambda>j. kread (a + of_nat (j * 512)) 512 m) [0..<n]) = kread a (n * 512) m"
proof (induction n)
  case (Suc n)
  have e: "Suc n * 512 = n * 512 + 512" by simp
  show ?case unfolding e kread_add using Suc by simp
qed (simp add: kread_def)

lemma kwrite_append:
  assumes "length xs + length ys \<le> 2 ^ 32"
  shows "kwrite (a + of_nat (length xs)) ys (kwrite a xs m) = kwrite a (xs @ ys) m"
proof
  fix x :: u32
  let ?k = "length xs" and ?u = "unat (x - a)"
  have u: "?u < 2 ^ 32" using unat_u32_less [of "x - a"] by simp
  have e: "x - (a + of_nat ?k) = (x - a) - of_nat ?k" by simp
  show "kwrite (a + of_nat (length xs)) ys (kwrite a xs m) x = kwrite a (xs @ ys) m x"
  proof (cases "?k \<le> ?u")
    case True
    then have kk: "unat (of_nat ?k :: u32) = ?k" using u by (intro unat_of_nat_u32) simp
    then have "of_nat ?k \<le> x - a" using True by (simp add: word_le_nat_alt)
    then have "unat ((x - a) - of_nat ?k) = ?u - ?k" using kk by (simp add: unat_sub)
    then show ?thesis using True by (auto simp: kwrite_def e nth_append)
  next
    case False
    show ?thesis
    proof (cases "?k < 2 ^ 32")
      case True
      have kk: "unat (of_nat ?k :: u32) = ?k" using True by (intro unat_of_nat_u32) simp
      have "unat ((x - a) - of_nat ?k) = ?u + 2 ^ 32 - ?k"
        using False kk unat_u32_less [of "x - a"] by (simp add: unat_sub_if')
      then show ?thesis using False assms by (auto simp: kwrite_def e nth_append)
    next
      case big: False
      then have "ys = []" using assms by (cases ys) auto
      then show ?thesis by (simp add: kwrite_def)
    qed
  qed
qed

lemma kread_kwrite_same: "length bs \<le> 2 ^ 32 \<Longrightarrow> kread a (length bs) (kwrite a bs m) = bs"
  by (rule nth_equalityI) (auto simp: kread_def kwrite_def unat_of_nat_u32)

lemma memcpy_loop_kwrite:
  assumes "n \<le> 2 ^ 32" "\<And>i j. i < n \<Longrightarrow> j < i \<Longrightarrow> src + of_nat i \<noteq> dst + of_nat j"
  shows "memcpy_loop dst src n m = kwrite dst (kread src n m) m"
  using assms
proof (induction n arbitrary: dst src m)
  case (Suc n)
  let ?m = "m(dst := m src)"
  have ap: "src + 1 + of_nat i \<noteq> dst" if "i < n" for i using Suc.prems(2) [of "Suc i" 0] that by (simp add: add.assoc)
  have "memcpy_loop (dst + 1) (src + 1) n ?m = kwrite (dst + 1) (kread (src + 1) n ?m) ?m"
    using Suc.prems(2) [of "Suc _" "Suc _"] Suc.prems(1) by (intro Suc.IH) (auto simp: add.assoc)
  moreover have "kread (src + 1) n ?m = kread (src + 1) n m" using ap by (simp add: kread_def)
  moreover have "?m = kwrite dst [m src] m" by (auto simp: kwrite_def fun_eq_iff unat_eq_zero)
  moreover have "kread src (Suc n) m = [m src] @ kread (src + 1) n m" using kread_add [of src 1 n m] by (simp add: kread_def)
  ultimately show ?case using kwrite_append [of "[m src]" "kread (src + 1) n m" dst m] Suc.prems(1) by simp
qed (simp add: kwrite_def kread_def)

lemma memmove_up_eq: "memmove_up dst src n m = (dst + of_nat n, memcpy_loop dst src n m)"
  by (induction n arbitrary: dst src m) (auto simp: add.assoc)

lemma memmove_down_kwrite:
  assumes "n \<le> 2 ^ 32" "\<And>i j. j < n \<Longrightarrow> i < j \<Longrightarrow> src + of_nat i \<noteq> dst + of_nat j"
  shows "memmove_down (dst + of_nat n) (src + of_nat n) n m = (dst, kwrite dst (kread src n m) m)"
  using assms
proof (induction n arbitrary: m)
  case (Suc n)
  let ?m = "m(dst + of_nat n := m (src + of_nat n))"
  have "kread src n ?m = kread src n m" using Suc.prems(2) [of n] by (simp add: kread_def)
  moreover have "kwrite dst bs ?m = kwrite dst (bs @ [m (src + of_nat n)]) m" if "length bs = n" for bs
  proof
    fix x
    have "x = dst + of_nat (unat (x - dst))" by simp
    then have "unat (x - dst) = n \<longleftrightarrow> x = dst + of_nat n" using Suc.prems(1) by (auto simp: unat_of_nat_u32)
    then show "kwrite dst bs ?m x = kwrite dst (bs @ [m (src + of_nat n)]) m x"
      using that by (auto simp: kwrite_def nth_append less_Suc_eq)
  qed
  moreover have "kread src (Suc n) m = kread src n m @ [m (src + of_nat n)]" by (simp add: kread_def)
  moreover have "memmove_down (dst + of_nat n) (src + of_nat n) n ?m = (dst, kwrite dst (kread src n ?m) ?m)"
    by (rule Suc.IH) (use Suc.prems in auto)
  ultimately show ?case by simp
qed (simp add: kwrite_def kread_def)

subsection \<open>Strings in memory\<close>

fun cstr :: "mem \<Rightarrow> u32 \<Rightarrow> u8 list \<Rightarrow> bool" where
  "cstr m a [] = (a \<noteq> 0 \<and> m a = 0)"
| "cstr m a (c # s) = (a \<noteq> 0 \<and> c \<noteq> 0 \<and> m a = c \<and> cstr m (a + 1) s)"

lemma cstr_nonnull: "cstr m a s \<Longrightarrow> a \<noteq> 0"
  by (cases s) auto

lemma unat_Suc: "a + 1 \<noteq> (0 :: u32) \<Longrightarrow> unat (a + 1) = unat a + 1"
  using unat_u32_less [of "a + 1"] by (simp add: unatSuc add.commute)

lemma unat_after_ne: "unat x = unat y + 1 + i \<Longrightarrow> x \<noteq> y"
  by auto

lemma cstr_bound: "cstr m a s \<Longrightarrow> unat a + length s < 2 ^ 32"
proof (induction s arbitrary: a)
  case (Cons c s)
  then show ?case using unat_Suc [of a] cstr_nonnull [of m "a + 1" s] Cons.IH [of "a + 1"] by auto
qed (use unat_u32_less in auto)

lemma cstr_append: "cstr m a (s @ t) \<longleftrightarrow> (\<forall>i < length s. m (a + of_nat i) = s ! i \<and> s ! i \<noteq> 0 \<and> a + of_nat i \<noteq> 0) \<and> cstr m (a + of_nat (length s)) t"
proof (induction s arbitrary: a)
  case (Cons c s)
  have "(\<forall>i < length (c # s). m (a + of_nat i) = (c # s) ! i \<and> (c # s) ! i \<noteq> 0 \<and> a + of_nat i \<noteq> 0) \<longleftrightarrow>
      m a = c \<and> c \<noteq> 0 \<and> a \<noteq> 0 \<and> (\<forall>i < length s. m (a + 1 + of_nat i) = s ! i \<and> s ! i \<noteq> 0 \<and> a + 1 + of_nat i \<noteq> 0)"
    by (simp only: length_Cons All_less_Suc2 nth_Cons_0 nth_Cons_Suc of_nat_Suc add.assoc) (simp add: conj_assoc)
  then show ?case using Cons.IH [of "a + 1"] by (auto simp: add.assoc)
qed simp

lemma cstr_cong: "cstr m a s \<Longrightarrow> (\<And>i. i \<le> length s \<Longrightarrow> m' (a + of_nat i) = m (a + of_nat i)) \<Longrightarrow> cstr m' a s"
proof (induction s arbitrary: a)
  case (Cons c s)
  have "m' (a + 1 + of_nat i) = m (a + 1 + of_nat i)" if "i \<le> length s" for i
    using Cons.prems(2) [of "Suc i"] that by (simp add: add.assoc)
  then show ?case using Cons.IH [of "a + 1"] Cons.prems(1) Cons.prems(2) [of 0] by simp
qed force

lemma strlen_loop_cstr: "cstr m a s \<Longrightarrow> length s < fuel \<Longrightarrow> strlen_loop fuel a m = Inr (a + of_nat (length s))"
proof (induction s arbitrary: a fuel)
  case Nil
  then show ?case by (cases fuel) auto
next
  case (Cons c s)
  then show ?case by (cases fuel) (auto simp: add.assoc)
qed

lemma strlen_cstr: "cstr m a s \<Longrightarrow> length s < fuel \<Longrightarrow> strlen fuel a m = Inr (length s)"
  using cstr_bound [of m a s] by (simp add: strlen_def strlen_loop_cstr cstr_nonnull unat_of_nat_u32)

lemma strchr_cstr: "cstr m a s \<Longrightarrow> length s < fuel \<Longrightarrow> \<exists>p. strchr fuel a c m = Inr p \<and> (p \<noteq> 0 \<longleftrightarrow> c = 0 \<or> c \<in> set s)"
proof -
  have "\<exists>p. strchr_loop fuel a c m = Inr p \<and> (p \<noteq> 0 \<longleftrightarrow> c = 0 \<or> c \<in> set s)" if "cstr m a s" "length s < fuel"
    using that
  proof (induction s arbitrary: a fuel)
    case Nil
    then show ?case by (cases fuel) auto
  next
    case (Cons d s)
    obtain f where f: "fuel = Suc f" using Cons.prems(2) by (cases fuel) auto
    show ?case
    proof (cases "c = d")
      case False
      then show ?thesis using Cons.IH [of "a + 1" f] Cons.prems f by auto
    qed (use Cons.prems f in auto)
  qed
  then show "cstr m a s \<Longrightarrow> length s < fuel \<Longrightarrow> ?thesis" by (simp add: strchr_def cstr_nonnull)
qed

lemma strcmp_cstr:
  assumes "cstr m a s" "cstr m b t" "length s < fuel"
  shows "\<exists>r. strcmp fuel a b m = Inr r \<and> (r = 0 \<longleftrightarrow> s = t)"
proof -
  have "\<exists>r. strcmp_loop fuel a b m = Inr r \<and> (r = 0 \<longleftrightarrow> s = t)"
    using assms
  proof (induction s arbitrary: a b t fuel)
    case Nil
    then obtain f where f: "fuel = Suc f" by (cases fuel) auto
    show ?case using Nil f by (cases t) (auto simp: word_less_nat_alt word_unat_eq_iff)
  next
    case (Cons c s)
    then obtain f where f: "fuel = Suc f" by (cases fuel) auto
    show ?case
    proof (cases t)
      case Nil
      then show ?thesis using Cons.prems f by (auto simp: word_less_nat_alt word_unat_eq_iff)
    next
      case (Cons d u)
      then show ?thesis using Cons.prems f Cons.IH [of "a + 1" "b + 1" u f]
        by (cases "c = d") (auto simp: word_less_nat_alt word_unat_eq_iff)
    qed
  qed
  then show ?thesis using assms cstr_nonnull by (auto simp: strcmp_def)
qed


subsection \<open>Words\<close>

lemma strtok_skip_cstr:
  assumes "cstr m s str" "cstr m d D" "length str + length D < fuel"
  shows "strtok_skip fuel s d m =
     Inr (dropWhile (\<lambda>c. c \<in> set D) str = [], s + of_nat (length (takeWhile (\<lambda>c. c \<in> set D) str)))"
  using assms
proof (induction str arbitrary: s fuel)
  case Nil
  then obtain f where f: "fuel = Suc f" by (cases fuel) auto
  then show ?case using Nil strchr_cstr [OF Nil(2), of fuel 0] by auto
next
  case (Cons c str)
  then obtain f where f: "fuel = Suc f" by (cases fuel) auto
  then show ?case using Cons.prems Cons.IH [of "s + 1" f] strchr_cstr [OF Cons.prems(2), of fuel c] by (auto simp: add.assoc)
qed

lemma strtok_scan_cstr:
  assumes "cstr m s str" "cstr m d D" "length str + length D < fuel"
  shows "strtok_scan fuel s d m = Inr (s + of_nat (length (takeWhile (\<lambda>c. c \<notin> set D) str)))"
  using assms
proof (induction str arbitrary: s fuel)
  case Nil
  then obtain f where f: "fuel = Suc f" by (cases fuel) auto
  then show ?case using Nil strchr_cstr [OF Nil(2), of fuel 0] by auto
next
  case (Cons c str)
  then obtain f where f: "fuel = Suc f" by (cases fuel) auto
  then show ?case using Cons.prems Cons.IH [of "s + 1" f] strchr_cstr [OF Cons.prems(2), of fuel c] by (auto simp: add.assoc)
qed

text \<open>The first word of a string and what is left after it.\<close>

definition first_word :: "u8 set \<Rightarrow> u8 list \<Rightarrow> u8 list" where
  "first_word D str = takeWhile (\<lambda>c. c \<notin> D) (dropWhile (\<lambda>c. c \<in> D) str)"

definition after_word :: "u8 set \<Rightarrow> u8 list \<Rightarrow> u8 list" where
  "after_word D str = drop 1 (dropWhile (\<lambda>c. c \<notin> D) (dropWhile (\<lambda>c. c \<in> D) str))"

lemma word_split:
  "str = takeWhile (\<lambda>c. c \<in> D) str @ first_word D str @ dropWhile (\<lambda>c. c \<notin> D) (dropWhile (\<lambda>c. c \<in> D) str)"
  by (simp add: first_word_def)

lemma first_word_ne: "dropWhile (\<lambda>c. c \<in> D) str \<noteq> [] \<Longrightarrow> first_word D str \<noteq> []"
  using hd_dropWhile [of "\<lambda>c. c \<in> D" str] unfolding first_word_def by (cases "dropWhile (\<lambda>c. c \<in> D) str") auto

lemma word_lengths: "length (first_word D str) + length (after_word D str) \<le> length str"
proof -
  have "length str = length (takeWhile (\<lambda>c. c \<in> D) str) + length (first_word D str) +
      length (dropWhile (\<lambda>c. c \<notin> D) (dropWhile (\<lambda>c. c \<in> D) str))"
    by (subst word_split [of str D]) simp
  then show ?thesis by (simp add: after_word_def)
qed

lemma after_word_less: "dropWhile (\<lambda>c. c \<in> D) str \<noteq> [] \<Longrightarrow> length (after_word D str) < length str"
  using word_lengths [of D str] first_word_ne [of D str] by (cases "first_word D str") auto

text \<open>The addresses of \<open>n\<close> bytes.\<close>

definition span :: "u32 \<Rightarrow> nat \<Rightarrow> u32 set" where
  "span a n = (\<lambda>i. a + of_nat i) ` {..<n}"

lemma span_iff:
  assumes "unat a + n \<le> 2 ^ 32"
  shows "x \<in> span a n \<longleftrightarrow> unat a \<le> unat x \<and> unat x < unat a + n"
proof
  assume "x \<in> span a n"
  then obtain i where "i < n" "x = a + of_nat i" by (auto simp: span_def)
  then show "unat a \<le> unat x \<and> unat x < unat a + n" using assms by (simp add: unat_plus_of_nat)
next
  assume x: "unat a \<le> unat x \<and> unat x < unat a + n"
  then have e: "x = a + of_nat (unat x - unat a)"
    by (simp add: word_unat_eq_iff unat_plus_of_nat unat_u32_less)
  show "x \<in> span a n" unfolding span_def by (rule image_eqI [where x = "unat x - unat a"]) (use e x in auto)
qed

lemma strtok_r_none:
  assumes "cstr m a str" "a = (if s = 0 then save else s)" "cstr m d D" "length str + length D < fuel"
    "dropWhile (\<lambda>c. c \<in> set D) str = []"
  shows "\<exists>p. strtok_r fuel s d save m = Inr (0, p, m)"
proof -
  have "a \<noteq> 0" "d \<noteq> 0" using assms(1,3) cstr_nonnull by auto
  then show ?thesis using assms(2,5) strtok_skip_cstr [OF assms(1,3,4)] by (auto simp: strtok_r_def Let_def)
qed

lemma strtok_r_word:
  assumes str: "cstr m a str" "a = (if s = 0 then save else s)" "cstr m d D" "length str + length D < fuel"
    and ne: "dropWhile (\<lambda>c. c \<in> set D) str \<noteq> []" and sep: "span a (length str) \<inter> span d (Suc (length D)) = {}"
  shows "\<exists>k p m'. strtok_r fuel s d save m = Inr (a + of_nat k, p, m') \<and>
     cstr m' (a + of_nat k) (first_word (set D) str) \<and> cstr m' p (after_word (set D) str) \<and> cstr m' d D \<and>
     unat a + k + length (first_word (set D) str) \<le> unat p \<and> unat p + length (after_word (set D) str) \<le> unat a + length str \<and>
     (\<forall>x. x \<notin> span a (length str) \<longrightarrow> m' x = m x)"
proof -
  define pre w r where "pre = takeWhile (\<lambda>c. c \<in> set D) str" and "w = first_word (set D) str"
    and "r = dropWhile (\<lambda>c. c \<notin> set D) (dropWhile (\<lambda>c. c \<in> set D) str)"
  note defs = this
  let ?k = "length pre" let ?t = "a + of_nat ?k" let ?e = "a + of_nat (?k + length w)"
  have sp: "str = pre @ w @ r" unfolding defs by (rule word_split)
  have len: "length str = ?k + length w + length r" using arg_cong [OF sp, of length] by simp
  have nz: "a \<noteq> 0" "d \<noteq> 0" using str cstr_nonnull by auto
  have b: "unat a + length str < 2 ^ 32" by (rule cstr_bound [OF str(1)])
  have ct: "cstr m ?t (w @ r)" using str(1) sp cstr_append [of m a pre "w @ r"] by metis
  then have cw: "\<forall>i < length w. m (?t + of_nat i) = w ! i \<and> w ! i \<noteq> 0 \<and> ?t + of_nat i \<noteq> 0" and ce: "cstr m ?e r"
    unfolding cstr_append by (simp_all add: add.assoc)
  have et: "?t + of_nat (length w) = ?e" by (simp add: add.assoc)
  have dr: "dropWhile (\<lambda>c. c \<in> set D) str = w @ r" by (simp add: defs first_word_def)
  have sk: "strtok_skip fuel a d m = Inr (False, ?t)" using strtok_skip_cstr [OF str(1,3,4)] ne by (simp add: defs)
  have "strtok_scan fuel ?t d m = Inr (?t + of_nat (length (takeWhile (\<lambda>c. c \<notin> set D) (w @ r))))"
    by (rule strtok_scan_cstr [OF ct str(3)]) (use str(4) len in simp)
  moreover have "takeWhile (\<lambda>c. c \<notin> set D) (w @ r) = w" unfolding dr [symmetric] by (simp only: defs(2) first_word_def)
  ultimately have sc: "strtok_scan fuel ?t d m = Inr ?e" by (simp only: et)
  have red: "strtok_r fuel s d save m = (if m ?e \<noteq> 0 then Inr (?t, ?e + 1, m(?e := 0)) else Inr (?t, ?e, m))"
    using nz str(2) sk sc by (auto simp: strtok_r_def Let_def)
  have ue: "unat ?e = unat a + (?k + length w)" by (rule unat_plus_of_nat) (use b len in simp)
  have word: "cstr m' ?t w" if "\<forall>i < length w. m' (?t + of_nat i) = m (?t + of_nat i)" "m' ?e = 0" for m'
  proof -
    have "cstr m' ?t (w @ [])" unfolding cstr_append et cstr.simps using cw that cstr_nonnull [OF ce] by (intro conjI allI impI) simp_all
    then show ?thesis by simp
  qed
  show ?thesis
  proof (cases r)
    case Nil
    then have z: "m ?e = 0" using ce by simp
    have af: "after_word (set D) str = []" unfolding after_word_def defs(3) [symmetric] Nil by simp
    have "cstr m ?t w" by (rule word) (use z in simp_all)
    then show ?thesis unfolding defs(2) [symmetric] af using red z ce Nil str(3) ue len
      by (intro exI [of _ ?k] exI [of _ ?e] exI [of _ m]) simp
  next
    case (Cons c r')
    then have e: "m ?e \<noteq> 0" "?e \<noteq> 0" "cstr m (?e + 1) r'" using ce by auto
    have af: "after_word (set D) str = r'" unfolding after_word_def defs(3) [symmetric] Cons by simp
    have ue1: "unat (?e + 1) = unat ?e + 1" by (rule unat_Suc [OF cstr_nonnull [OF e(3)]])
    let ?m = "m(?e := 0)"
    have "cstr ?m (?e + 1) r'"
    proof (rule cstr_cong [OF e(3)])
      fix i assume "i \<le> length r'"
      then have "unat (?e + 1 + of_nat i) = unat ?e + 1 + i" using cstr_bound [OF e(3)] ue1 by (simp add: unat_plus_of_nat)
      then have "?e + 1 + of_nat i \<noteq> ?e" by (rule unat_after_ne)
      then show "?m (?e + 1 + of_nat i) = m (?e + 1 + of_nat i)" by simp
    qed
    moreover have es: "?e \<in> span a (length str)" using span_iff [of a "length str" ?e] b ue len Cons by simp
    moreover have "cstr ?m d D"
    proof (rule cstr_cong [OF str(3)])
      fix i assume "i \<le> length D"
      then have "d + of_nat i \<in> span d (Suc (length D))" by (auto simp: span_def)
      then show "?m (d + of_nat i) = m (d + of_nat i)" using sep es by auto
    qed
    moreover have "cstr ?m ?t w"
    proof (rule word)
      have "unat (?t + of_nat i) \<noteq> unat ?e" if "i < length w" for i
        using that ue unat_plus_of_nat [of a "?k + i"] b len by (simp add: add.assoc)
      then have "?t + of_nat i \<noteq> ?e" if "i < length w" for i using that by (metis (no_types))
      then show "\<forall>i < length w. ?m (?t + of_nat i) = m (?t + of_nat i)" by (intro allI impI fun_upd_other)
    qed simp
    moreover have "\<forall>x. x \<notin> span a (length str) \<longrightarrow> ?m x = m x" using es by auto
    ultimately show ?thesis unfolding defs(2) [symmetric] af using red e(1) ue ue1 len Cons
      by (intro exI [of _ ?k] exI [of _ "?e + 1"] exI [of _ ?m]) simp
  qed
qed

end
