(* ===== verification/Swap.thy ===== *)
theory Swap
  imports Palloc Block Kstring
begin

text \<open>
  Swap space (src/pintos2/src/vm/swap.c): pages on the swap disk, eight sectors each, under the
  address of the frame they were in and the process that owned it.

  The table of lists of entries is a list of owners with their entries; a pointer to an entry is
  the place where the lookup found it. \<^verbatim>\<open>malloc\<close> may fail at any call (\<open>heap_ok\<close>); its result is used
  unchecked. The operations run one after the other: taking a lock that is held is waiting for
  ever (\<open>Diverged\<close>).
\<close>

record swap_entry =
  se_kpage :: u32
  disk_offset :: nat

record swapper = palloc +
  swap_table :: "(int \<times> swap_entry list) list"
  swap_disk :: block
  swap_disk_size :: nat
  empty_block_sector :: "bool list"
  swap_lock :: bool
  heap_ok :: "nat \<Rightarrow> bool"
  heap_cnt :: nat

subsection \<open>Allocation and lists\<close>

definition kmalloc :: "'a swapper_scheme \<Rightarrow> ('a swapper_scheme \<Rightarrow> 'b res) \<Rightarrow> 'b res" where
  "kmalloc s k = kdefined (heap_ok s (heap_cnt s)) (k (s\<lparr>heap_cnt := Suc (heap_cnt s)\<rparr>))"

fun upd_first :: "('b \<Rightarrow> bool) \<Rightarrow> ('b \<Rightarrow> 'b) \<Rightarrow> 'b list \<Rightarrow> 'b list" where
  "upd_first P f [] = []"
| "upd_first P f (x # xs) = (if P x then f x # xs else x # upd_first P f xs)"

fun remove_first :: "('b \<Rightarrow> bool) \<Rightarrow> 'b list \<Rightarrow> 'b list" where
  "remove_first P [] = []"
| "remove_first P (x # xs) = (if P x then xs else x # remove_first P xs)"

subsection \<open>The operations of swap.c\<close>

definition swap_disk_init :: "block option \<Rightarrow> 'a swapper_scheme \<Rightarrow> 'a swapper_scheme res" where
  "swap_disk_init disk s = (case disk of
     None \<Rightarrow> Inl Undefined
   | Some d \<Rightarrow>
       kmalloc s (\<lambda>s1. kmalloc s1 (\<lambda>s2.
         Inr (s2\<lparr>swap_table := [], swap_lock := False, swap_disk := d, swap_disk_size := block_size d div 8,
                  empty_block_sector := replicate (block_size d div 8) True\<rparr>))))"

definition swap_find_empty_sector :: "'a swapper_scheme \<Rightarrow> nat \<times> 'a swapper_scheme" where
  "swap_find_empty_sector s =
     (case List.find (\<lambda>i. empty_block_sector s ! i) [0..<swap_disk_size s] of
        Some i \<Rightarrow> (i, s\<lparr>empty_block_sector := (empty_block_sector s)[i := False]\<rparr>)
      | None \<Rightarrow> (swap_disk_size s + 1, s))"

definition swap_entry_list_lookup :: "int \<Rightarrow> 'a swapper_scheme \<Rightarrow> swap_entry list option" where
  "swap_entry_list_lookup owner s = map_option snd (List.find (\<lambda>sl. fst sl = owner) (swap_table s))"

definition swap_entry_insert :: "u32 \<Rightarrow> int \<Rightarrow> 'a swapper_scheme \<Rightarrow> (swap_entry \<times> 'a swapper_scheme) res" where
  "swap_entry_insert kpage owner s =
     (let (empty_sector, s1) = swap_find_empty_sector s
      in kassert (empty_sector < swap_disk_size s1)
       (rbind (if swap_entry_list_lookup owner s1 = None
               then kmalloc s1 (\<lambda>s2. Inr (s2\<lparr>swap_table := swap_table s2 @ [(owner, [])]\<rparr>))
               else Inr s1) (\<lambda>s3.
        kmalloc s3 (\<lambda>s4.
          let e = \<lparr>se_kpage = kpage, disk_offset = empty_sector\<rparr>
          in Inr (e, s4\<lparr>swap_table := upd_first (\<lambda>sl. fst sl = owner) (\<lambda>sl. (fst sl, snd sl @ [e])) (swap_table s4)\<rparr>)))))"

definition swap_entry_lookup_sub :: "u32 \<Rightarrow> swap_entry list \<Rightarrow> swap_entry option" where
  "swap_entry_lookup_sub kpage l = List.find (\<lambda>s. se_kpage s = kpage) l"

definition swap_entry_lookup :: "u32 \<Rightarrow> int \<Rightarrow> 'a swapper_scheme \<Rightarrow> swap_entry option" where
  "swap_entry_lookup kpage owner s =
     (case swap_entry_list_lookup owner s of None \<Rightarrow> None | Some l \<Rightarrow> swap_entry_lookup_sub kpage l)"

text \<open>The entry to delete is the one that \<^verbatim>\<open>swap_entry_lookup\<close> has found.\<close>

definition swap_entry_delete :: "u32 \<Rightarrow> int \<Rightarrow> swap_entry \<Rightarrow> 'a swapper_scheme \<Rightarrow> 'a swapper_scheme" where
  "swap_entry_delete kpage owner e s =
     s\<lparr>empty_block_sector := (empty_block_sector s)[disk_offset e := True],
       swap_table := upd_first (\<lambda>sl. fst sl = owner)
         (\<lambda>sl. (fst sl, remove_first (\<lambda>x. se_kpage x = kpage) (snd sl))) (swap_table s)\<rparr>"

definition take_swap_lock :: "'a swapper_scheme \<Rightarrow> ('a swapper_scheme \<Rightarrow> 'b res) \<Rightarrow> 'b res" where
  "take_swap_lock s k = (if swap_lock s then Inl Diverged else k (s\<lparr>swap_lock := True\<rparr>))"

fun swap_out_loop :: "u32 \<Rightarrow> nat \<Rightarrow> nat \<Rightarrow> nat \<Rightarrow> 'a swapper_scheme \<Rightarrow> 'a swapper_scheme res" where
  "swap_out_loop kpage off i 0 s = Inr s"
| "swap_out_loop kpage off i (Suc left) s =
     rbind (block_write (8 * off + i) (kread (kpage + of_nat (i * 512)) 512 (kmem s)) (swap_disk s)) (\<lambda>d.
       swap_out_loop kpage off (Suc i) left (s\<lparr>swap_disk := d\<rparr>))"

definition swap_frame_to_disk :: "u32 \<Rightarrow> int \<Rightarrow> 'a swapper_scheme \<Rightarrow> 'a swapper_scheme res" where
  "swap_frame_to_disk kpage owner s =
     take_swap_lock s (\<lambda>s1.
       rbind (swap_entry_insert kpage owner s1) (\<lambda>(e, s2).
         rbind (swap_out_loop kpage (disk_offset e) 0 8 s2) (\<lambda>s3. Inr (s3\<lparr>swap_lock := False\<rparr>))))"

fun swap_in_loop :: "u32 \<Rightarrow> nat \<Rightarrow> nat \<Rightarrow> nat \<Rightarrow> 'a swapper_scheme \<Rightarrow> 'a swapper_scheme res" where
  "swap_in_loop dst off i 0 s = Inr s"
| "swap_in_loop dst off i (Suc left) s =
     rbind (block_read (8 * off + i) (swap_disk s)) (\<lambda>(data, d).
       swap_in_loop dst off (Suc i) left
         (s\<lparr>swap_disk := d, kmem := kwrite (dst + of_nat (i * 512)) data (kmem s)\<rparr>))"

text \<open>\<^verbatim>\<open>swap_disk_to_frame\<close>: if there is no entry it returns with the lock held.\<close>

definition swap_disk_to_frame :: "u32 \<Rightarrow> u32 \<Rightarrow> int \<Rightarrow> 'a swapper_scheme \<Rightarrow> 'a swapper_scheme res" where
  "swap_disk_to_frame dst kpage owner s =
     take_swap_lock s (\<lambda>s1.
       case swap_entry_lookup kpage owner s1 of
         None \<Rightarrow> Inr s1
       | Some e \<Rightarrow>
           rbind (swap_in_loop dst (disk_offset e) 0 8 s1) (\<lambda>s2.
             Inr ((swap_entry_delete kpage owner e s2)\<lparr>swap_lock := False\<rparr>)))"

text \<open>\<^verbatim>\<open>swap_entry_delete_by_tid\<close>: the loop compares with the end of the wrong list and never
  advances. On an empty list it removes the list's tail, which fails an assertion; otherwise its
  second iteration uses the element it has freed.\<close>

definition swap_entry_delete_by_tid :: "int \<Rightarrow> 'a swapper_scheme \<Rightarrow> 'a swapper_scheme res" where
  "swap_entry_delete_by_tid owner s =
     take_swap_lock s (\<lambda>s1.
       case swap_entry_list_lookup owner s1 of
         None \<Rightarrow> Inr (s1\<lparr>swap_lock := False\<rparr>)
       | Some [] \<Rightarrow> Inl Assertion
       | Some (e # es) \<Rightarrow> Inl Undefined)"

subsection \<open>Association lists with a first match\<close>

definition entries_for :: "('k \<times> 'b list) list \<Rightarrow> 'k \<Rightarrow> 'b list" where
  "entries_for tbl t = (case List.find (\<lambda>x. fst x = t) tbl of None \<Rightarrow> [] | Some x \<Rightarrow> snd x)"

lemma entries_for_simps [simp]:
  "entries_for [] t = []" "entries_for ((k, l) # tbl) t = (if k = t then l else entries_for tbl t)"
  by (simp_all add: entries_for_def)

lemma entries_for_subset: "set (entries_for tbl t) \<subseteq> set (concat (map snd tbl))"
  by (induction tbl) (auto split: if_splits)

lemma entries_for_append: "entries_for (tbl @ [(t, [])]) k = entries_for tbl k"
  by (induction tbl) auto

lemma entries_for_upd:
  "List.find (\<lambda>x. fst x = t) tbl \<noteq> None \<Longrightarrow>
   entries_for (upd_first (\<lambda>x. fst x = t) (\<lambda>x. (fst x, g (snd x))) tbl) k = (if k = t then g (entries_for tbl t) else entries_for tbl k)"
  by (induction tbl) (auto split: if_splits)

lemma upd_first_mset:
  "List.find (\<lambda>x. fst x = t) tbl \<noteq> None \<Longrightarrow>
   mset (concat (map snd (upd_first (\<lambda>x. fst x = t) (\<lambda>x. (fst x, g (snd x))) tbl))) + mset (entries_for tbl t) =
   mset (concat (map snd tbl)) + mset (g (entries_for tbl t))"
  by (induction tbl) (auto simp: ac_simps split: if_splits)

lemma remove_first_mset: "x \<in> set xs \<Longrightarrow> P x \<Longrightarrow> List.find P xs = Some y \<Longrightarrow> add_mset y (mset (remove_first P xs)) = mset xs"
  by (induction xs) (auto split: if_splits)

lemma filter_remove_first:
  "filter P (remove_first P xs) = tl (filter P xs)"
  "(\<And>x. Q x \<Longrightarrow> \<not> P x) \<Longrightarrow> filter Q (remove_first P xs) = filter Q xs"
  by (induction xs) auto

lemma find_filter: "List.find P xs = (case filter P xs of [] \<Rightarrow> None | x # _ \<Rightarrow> Some x)"
  by (induction xs) auto

subsection \<open>Swap space as queues of pages\<close>

definition swap_page :: "block \<Rightarrow> nat \<Rightarrow> u8 list" where
  "swap_page d off = run_bytes (sectors d) (8 * off) 8"

definition swap_entries :: "'a swapper_scheme \<Rightarrow> swap_entry list" where
  "swap_entries s = concat (map snd (swap_table s))"

definition swapq :: "'a swapper_scheme \<Rightarrow> int \<Rightarrow> u32 \<Rightarrow> u8 list list" where
  "swapq s t k = map (\<lambda>e. swap_page (swap_disk s) (disk_offset e)) (filter (\<lambda>e. se_kpage e = k) (entries_for (swap_table s) t))"

definition swap_wf :: "'a swapper_scheme \<Rightarrow> bool" where
  "swap_wf s \<longleftrightarrow> block_wf (swap_disk s) \<and> swap_disk_size s = block_size (swap_disk s) div 8 \<and>
     length (empty_block_sector s) = swap_disk_size s \<and> distinct (map disk_offset (swap_entries s)) \<and>
     (\<forall>e\<in>set (swap_entries s). disk_offset e < swap_disk_size s \<and> \<not> empty_block_sector s ! disk_offset e)"

lemma swap_out_loop_spec:
  assumes "block_wf (swap_disk s)" "8 * off + 8 \<le> block_size (swap_disk s)" "i + left = 8"
  shows "\<exists>d. swap_out_loop kpage off i left s = Inr (s\<lparr>swap_disk := d\<rparr>) \<and> block_wf d \<and> block_size d = block_size (swap_disk s) \<and>
     (\<forall>k. sectors d k = (if 8 * off + i \<le> k \<and> k < 8 * off + 8
                          then kread (kpage + of_nat ((k - 8 * off) * 512)) 512 (kmem s) else sectors (swap_disk s) k))"
  using assms
proof (induction left arbitrary: i s)
  case 0
  then show ?case by (intro exI [of _ "swap_disk s"]) auto
next
  case (Suc left)
  let ?buf = "kread (kpage + of_nat (i * 512)) 512 (kmem s)"
  obtain d where d: "block_write (8 * off + i) ?buf (swap_disk s) = Inr d" "block_wf d" "block_size d = block_size (swap_disk s)"
      "sectors d = (sectors (swap_disk s))(8 * off + i := ?buf)"
  proof -
    have lt: "8 * off + i < block_size (swap_disk s)" using Suc.prems(2,3) by simp
    have l: "length ?buf = BLOCK_SECTOR_SIZE" by (simp add: BLOCK_SECTOR_SIZE_def)
    note ok = block_write_ok [OF Suc.prems(1) lt, of ?buf]
    show thesis using that [OF ok] block_write_wf [OF Suc.prems(1) l ok] by blast
  qed
  obtain d' where d': "swap_out_loop kpage off (Suc i) left (s\<lparr>swap_disk := d\<rparr>) = Inr (s\<lparr>swap_disk := d'\<rparr>)" "block_wf d'"
      "block_size d' = block_size d"
      "\<And>k. sectors d' k = (if 8 * off + Suc i \<le> k \<and> k < 8 * off + 8
            then kread (kpage + of_nat ((k - 8 * off) * 512)) 512 (kmem s) else sectors d k)"
    using Suc.IH [of "s\<lparr>swap_disk := d\<rparr>" "Suc i"] d(2,3) Suc.prems(2,3) by auto
  have "sectors d' k = (if 8 * off + i \<le> k \<and> k < 8 * off + 8
            then kread (kpage + of_nat ((k - 8 * off) * 512)) 512 (kmem s) else sectors (swap_disk s) k)" for k
    using d'(4) [of k] d(4) Suc.prems(3) by (cases "k = 8 * off + i") auto
  then show ?case using d d' by (intro exI [of _ d']) simp
qed

lemma swap_page_of_writes:
  assumes "\<And>k. 8 * off \<le> k \<Longrightarrow> k < 8 * off + 8 \<Longrightarrow> sectors d k = kread (kpage + of_nat ((k - 8 * off) * 512)) 512 m"
  shows "swap_page d off = kread kpage 4096 m"
proof -
  have "map (sectors d) [8 * off..<8 * off + 8] = map (\<lambda>j. sectors d (8 * off + j)) [0..<8]"
    by (intro nth_equalityI) auto
  also have "\<dots> = map (\<lambda>j. kread (kpage + of_nat (j * 512)) 512 m) [0..<8]" using assms by (intro map_cong) auto
  finally show ?thesis unfolding swap_page_def run_bytes_def using kread_blocks [of kpage m 8] by simp
qed

lemma swap_page_other: "(\<And>k. 8 * off \<le> k \<Longrightarrow> k < 8 * off + 8 \<Longrightarrow> sectors d k = sectors d' k) \<Longrightarrow> swap_page d off = swap_page d' off"
  unfolding swap_page_def by (rule run_bytes_cong) auto


lemma swap_entry_list_lookup_None: "swap_entry_list_lookup t s = None \<longleftrightarrow> List.find (\<lambda>sl. fst sl = t) (swap_table s) = None"
  by (simp add: swap_entry_list_lookup_def)

lemma find_snoc_key: "List.find (\<lambda>x. fst x = t) (tbl @ [(t, l)]) \<noteq> None"
  by (induction tbl) auto

lemma swap_entry_insert_spec:
  assumes "i < swap_disk_size s" "List.find (\<lambda>i. empty_block_sector s ! i) [0..<swap_disk_size s] = Some i"
    "\<forall>n. heap_ok s n"
  shows "\<exists>tbl hc. swap_entry_insert k t s = Inr (\<lparr>se_kpage = k, disk_offset = i\<rparr>,
       s\<lparr>empty_block_sector := (empty_block_sector s)[i := False], swap_table := tbl, heap_cnt := hc\<rparr>) \<and>
     (\<forall>t'. entries_for tbl t' = (if t' = t then entries_for (swap_table s) t @ [\<lparr>se_kpage = k, disk_offset = i\<rparr>] else entries_for (swap_table s) t')) \<and>
     mset (concat (map snd tbl)) = add_mset \<lparr>se_kpage = k, disk_offset = i\<rparr> (mset (swap_entries s))"
proof -
  let ?e = "\<lparr>se_kpage = k, disk_offset = i\<rparr>"
  let ?t0 = "if List.find (\<lambda>sl. fst sl = t) (swap_table s) = None then swap_table s @ [(t, [])] else swap_table s"
  let ?tbl = "upd_first (\<lambda>sl. fst sl = t) (\<lambda>sl. (fst sl, snd sl @ [?e])) ?t0"
  have f: "List.find (\<lambda>sl. fst sl = t) ?t0 \<noteq> None" using find_snoc_key by auto
  have e0: "entries_for ?t0 t' = entries_for (swap_table s) t'" for t' by (simp add: entries_for_append)
  have c0: "concat (map snd ?t0) = swap_entries s" by (simp add: swap_entries_def)
  have "entries_for ?tbl t' = (if t' = t then entries_for (swap_table s) t @ [?e] else entries_for (swap_table s) t')" for t'
    using entries_for_upd [OF f, of "\<lambda>l. l @ [?e]" t'] e0 by simp
  moreover have "mset (concat (map snd ?tbl)) = add_mset ?e (mset (swap_entries s))"
    using upd_first_mset [OF f, of "\<lambda>l. l @ [?e]"] unfolding c0 e0 by simp
  moreover have "\<exists>hc. swap_entry_insert k t s = Inr (?e, s\<lparr>empty_block_sector := (empty_block_sector s)[i := False], swap_table := ?tbl, heap_cnt := hc\<rparr>)"
  proof (cases "List.find (\<lambda>sl. fst sl = t) (swap_table s) = None")
    case True
    then show ?thesis using assms
      by (intro exI [of _ "Suc (Suc (heap_cnt s))"], cases s)
        (simp add: swap_entry_insert_def swap_find_empty_sector_def kmalloc_def swap_entry_list_lookup_def Let_def)
  next
    case False
    then show ?thesis using assms
      by (intro exI [of _ "Suc (heap_cnt s)"], cases s)
        (clarsimp simp: swap_entry_insert_def swap_find_empty_sector_def kmalloc_def swap_entry_list_lookup_def Let_def)
  qed
  ultimately show ?thesis by blast
qed

lemma swapq_eq:
  assumes "entries_for tbl t = es" "\<And>e. e \<in> set es \<Longrightarrow> se_kpage e = k \<Longrightarrow> swap_page d (disk_offset e) = f e"
  shows "map (\<lambda>e. swap_page d (disk_offset e)) (filter (\<lambda>e. se_kpage e = k) (entries_for tbl t)) = map f (filter (\<lambda>e. se_kpage e = k) es)"
  using assms by simp

text \<open>Swapping a page out puts it at the end of the queue of its frame and owner.\<close>

lemma swap_frame_to_disk_spec:
  assumes "swap_wf s" "\<not> swap_lock s" "\<exists>i < swap_disk_size s. empty_block_sector s ! i" "\<forall>n. heap_ok s n"
  shows "\<exists>s'. swap_frame_to_disk k t s = Inr s' \<and> swap_wf s' \<and> \<not> swap_lock s' \<and>
     swapq s' = (\<lambda>t' k'. if t' = t \<and> k' = k then swapq s t k @ [kread k 4096 (kmem s)] else swapq s t' k') \<and>
     kmem s' = kmem s \<and> heap_ok s' = heap_ok s \<and>
     (\<exists>i < swap_disk_size s. empty_block_sector s ! i \<and> empty_block_sector s' = (empty_block_sector s)[i := False]) \<and>
     swap_disk_size s' = swap_disk_size s \<and> kernel_pool s' = kernel_pool s \<and> user_pool s' = user_pool s \<and> swapper.more s' = swapper.more s"
proof -
  obtain i where fi: "List.find (\<lambda>i. empty_block_sector s ! i) [0..<swap_disk_size s] = Some i"
    using assms(3) by (cases "List.find (\<lambda>i. empty_block_sector s ! i) [0..<swap_disk_size s]") (auto simp: find_None_iff)
  have i: "i < swap_disk_size s" "empty_block_sector s ! i" using find_upt_Some [OF fi] by auto
  let ?e = "\<lparr>se_kpage = k, disk_offset = i\<rparr>" and ?s1 = "s\<lparr>swap_lock := True\<rparr>"
  obtain tbl hc where ins: "swap_entry_insert k t ?s1 = Inr (?e,
       ?s1\<lparr>empty_block_sector := (empty_block_sector s)[i := False], swap_table := tbl, heap_cnt := hc\<rparr>)"
      "\<And>t'. entries_for tbl t' = (if t' = t then entries_for (swap_table s) t @ [?e] else entries_for (swap_table s) t')"
      "mset (concat (map snd tbl)) = add_mset ?e (mset (swap_entries s))"
    using swap_entry_insert_spec [of i ?s1 k t] i fi assms(4) by (auto simp: swap_entries_def)
  let ?s2 = "?s1\<lparr>empty_block_sector := (empty_block_sector s)[i := False], swap_table := tbl, heap_cnt := hc\<rparr>"
  have wf: "block_wf (swap_disk s)" "swap_disk_size s = block_size (swap_disk s) div 8" "length (empty_block_sector s) = swap_disk_size s"
      "distinct (map disk_offset (swap_entries s))"
      "\<And>e. e \<in> set (swap_entries s) \<Longrightarrow> disk_offset e < swap_disk_size s \<and> \<not> empty_block_sector s ! disk_offset e"
    using assms(1) by (auto simp: swap_wf_def)
  have off: "8 * i + 8 \<le> block_size (swap_disk s)" using i(1) wf(2) by linarith
  obtain d where d: "swap_out_loop k i 0 8 ?s2 = Inr (?s2\<lparr>swap_disk := d\<rparr>)" "block_wf d" "block_size d = block_size (swap_disk s)"
      "\<And>x. sectors d x = (if 8 * i + 0 \<le> x \<and> x < 8 * i + 8 then kread (k + of_nat ((x - 8 * i) * 512)) 512 (kmem s) else sectors (swap_disk s) x)"
    using swap_out_loop_spec [of ?s2 i 0 8 k] wf(1) off by auto
  let ?s' = "(?s2\<lparr>swap_disk := d\<rparr>)\<lparr>swap_lock := False\<rparr>"
  have r: "swap_frame_to_disk k t s = Inr ?s'" using assms(2) ins(1) d(1) by (simp add: swap_frame_to_disk_def take_swap_lock_def)
  have pi: "swap_page d i = kread k 4096 (kmem s)" by (rule swap_page_of_writes) (use d(4) in auto)
  have po: "swap_page d (disk_offset e) = swap_page (swap_disk s) (disk_offset e)" if "e \<in> set (swap_entries s)" for e
  proof (rule swap_page_other)
    fix x assume x: "8 * disk_offset e \<le> x" "x < 8 * disk_offset e + 8"
    have "disk_offset e \<noteq> i" using wf(5) [OF that] i(2) by auto
    then have "\<not> (8 * i + 0 \<le> x \<and> x < 8 * i + 8)" using x by presburger
    then show "sectors d x = sectors (swap_disk s) x" using d(4) [of x] by argo
  qed
  have sub: "e \<in> set (swap_entries s)" if "e \<in> set (entries_for (swap_table s) t')" for e t'
    using entries_for_subset [of "swap_table s" t'] that by (auto simp: swap_entries_def)
  have q: "swapq ?s' t' k' = (if t' = t \<and> k' = k then swapq s t k @ [kread k 4096 (kmem s)] else swapq s t' k')" for t' k'
    using po sub by (auto simp: swapq_def ins(2) pi)
  have "distinct (map disk_offset (?e # swap_entries s))" using wf(4,5) i(2) by auto
  moreover have "mset (map disk_offset (concat (map snd tbl))) = mset (map disk_offset (?e # swap_entries s))" using ins(3) by simp
  ultimately have dist: "distinct (map disk_offset (concat (map snd tbl)))" using mset_eq_imp_distinct_iff by blast
  have "set (concat (map snd tbl)) = insert ?e (set (swap_entries s))" using arg_cong [OF ins(3), of set_mset] by simp
  then have "swap_wf ?s'" using wf d(2,3) dist i(1) by (auto simp: swap_wf_def swap_entries_def nth_list_update)
  then show ?thesis using r q i by (auto simp: fun_eq_iff)
qed

lemma swap_in_loop_spec:
  assumes "block_wf (swap_disk s)" "8 * off + 8 \<le> block_size (swap_disk s)" "i + left = 8"
    "kmem s = kwrite dst (run_bytes (sectors (swap_disk s)) (8 * off) i) m"
  shows "\<exists>rc. swap_in_loop dst off i left s =
     Inr (s\<lparr>swap_disk := (swap_disk s)\<lparr>read_cnt := rc\<rparr>, kmem := kwrite dst (run_bytes (sectors (swap_disk s)) (8 * off) 8) m\<rparr>)"
  using assms
proof (induction left arbitrary: i s)
  case 0
  then show ?case by (intro exI [of _ "read_cnt (swap_disk s)"]) simp
next
  case (Suc left)
  let ?d = "swap_disk s" and ?n = "8 * off + i"
  have lt: "?n < block_size ?d" using Suc.prems(2,3) by simp
  have len: "length (run_bytes (sectors ?d) (8 * off) i) = 512 * i"
    by (rule length_run_bytes) (use Suc.prems(1-3) in \<open>auto simp: block_wf_def BLOCK_SECTOR_SIZE_def\<close>)
  have ls: "length (sectors ?d ?n) = 512" using Suc.prems(1) lt by (simp add: block_wf_def BLOCK_SECTOR_SIZE_def)
  have "run_bytes (sectors ?d) (8 * off) (Suc i) = run_bytes (sectors ?d) (8 * off) i @ sectors ?d ?n"
    by (simp add: run_bytes_def)
  then have k: "kwrite (dst + of_nat (i * 512)) (sectors ?d ?n) (kmem s) = kwrite dst (run_bytes (sectors ?d) (8 * off) (Suc i)) m"
    unfolding Suc.prems(4) using kwrite_append [of "run_bytes (sectors ?d) (8 * off) i" "sectors ?d ?n" dst m] len ls Suc.prems(3)
    by (simp add: mult.commute)
  let ?s1 = "s\<lparr>swap_disk := ?d\<lparr>read_cnt := Suc (read_cnt ?d)\<rparr>, kmem := kwrite dst (run_bytes (sectors ?d) (8 * off) (Suc i)) m\<rparr>"
  have "swap_in_loop dst off i (Suc left) s = swap_in_loop dst off (Suc i) left ?s1"
    using block_read_ok [OF lt] k by simp
  then show ?case using Suc.IH [of ?s1 "Suc i"] Suc.prems(1-3) by simp
qed

text \<open>Swapping a page in takes it from the front of the queue of its frame and owner.\<close>

lemma swap_disk_to_frame_spec:
  assumes "swap_wf s" "\<not> swap_lock s" "swapq s t k = c # cs"
  shows "\<exists>s'. swap_disk_to_frame dst k t s = Inr s' \<and> swap_wf s' \<and> \<not> swap_lock s' \<and>
     swapq s' = (\<lambda>t' k'. if t' = t \<and> k' = k then cs else swapq s t' k') \<and>
     kmem s' = kwrite dst c (kmem s) \<and> heap_ok s' = heap_ok s \<and> length c = 4096 \<and>
     (\<exists>i < swap_disk_size s. \<not> empty_block_sector s ! i \<and> empty_block_sector s' = (empty_block_sector s)[i := True]) \<and>
     swap_disk_size s' = swap_disk_size s \<and> kernel_pool s' = kernel_pool s \<and> user_pool s' = user_pool s \<and> swapper.more s' = swapper.more s"
proof -
  let ?tb = "swap_table s" and ?P = "\<lambda>e. se_kpage e = k"
  have wf: "block_wf (swap_disk s)" "swap_disk_size s = block_size (swap_disk s) div 8" "length (empty_block_sector s) = swap_disk_size s"
      "distinct (map disk_offset (swap_entries s))"
      "\<And>e. e \<in> set (swap_entries s) \<Longrightarrow> disk_offset e < swap_disk_size s \<and> \<not> empty_block_sector s ! disk_offset e"
    using assms(1) by (auto simp: swap_wf_def)
  obtain e es where fe: "filter ?P (entries_for ?tb t) = e # es" "c = swap_page (swap_disk s) (disk_offset e)"
      "cs = map (\<lambda>e. swap_page (swap_disk s) (disk_offset e)) es"
    using assms(3) by (auto simp: swapq_def map_eq_Cons_conv)
  have fnd: "List.find ?P (entries_for ?tb t) = Some e" using fe(1) by (simp add: find_filter)
  have "e \<in> set (filter ?P (entries_for ?tb t))" unfolding fe(1) by simp
  then have ein: "e \<in> set (entries_for ?tb t)" "?P e" by auto
  have ne: "List.find (\<lambda>x. fst x = t) ?tb \<noteq> None"
  proof
    assume "List.find (\<lambda>x. fst x = t) ?tb = None"
    then show False using ein(1) by (simp add: entries_for_def)
  qed
  have lk: "swap_entry_lookup k t (s\<lparr>swap_lock := True\<rparr>) = Some e"
    using ne fnd by (auto simp: swap_entry_lookup_def swap_entry_list_lookup_def swap_entry_lookup_sub_def entries_for_def split: option.splits)
  have es: "e \<in> set (swap_entries s)" using entries_for_subset [of ?tb t] ein(1) by (auto simp: swap_entries_def)
  have off: "8 * disk_offset e + 8 \<le> block_size (swap_disk s)" using wf(5) [OF es] wf(2) by linarith
  obtain rc where lp: "swap_in_loop dst (disk_offset e) 0 8 (s\<lparr>swap_lock := True\<rparr>) =
      Inr (s\<lparr>swap_lock := True, swap_disk := (swap_disk s)\<lparr>read_cnt := rc\<rparr>, kmem := kwrite dst c (kmem s)\<rparr>)"
    using swap_in_loop_spec [of "s\<lparr>swap_lock := True\<rparr>" "disk_offset e" 0 8 dst "kmem s"] wf(1) off fe(2)
    by (auto simp: swap_page_def run_bytes_def kwrite_def)
  let ?tbl = "upd_first (\<lambda>sl. fst sl = t) (\<lambda>sl. (fst sl, remove_first ?P (snd sl))) ?tb"
  let ?s' = "(s\<lparr>swap_disk := (swap_disk s)\<lparr>read_cnt := rc\<rparr>, kmem := kwrite dst c (kmem s),
     empty_block_sector := (empty_block_sector s)[disk_offset e := True], swap_table := ?tbl, swap_lock := False\<rparr>)"
  have r: "swap_disk_to_frame dst k t s = Inr ?s'"
    using assms(2) lk lp by (simp add: swap_disk_to_frame_def take_swap_lock_def swap_entry_delete_def)
  have ent: "entries_for ?tbl t' = (if t' = t then remove_first ?P (entries_for ?tb t) else entries_for ?tb t')" for t'
    using entries_for_upd [OF ne, of "remove_first ?P" t'] by simp
  have "mset (concat (map snd ?tbl)) + mset (entries_for ?tb t) = mset (swap_entries s) + mset (remove_first ?P (entries_for ?tb t))"
    using upd_first_mset [OF ne, of "remove_first ?P"] by (simp add: swap_entries_def)
  moreover have rm: "mset (entries_for ?tb t) = add_mset e (mset (remove_first ?P (entries_for ?tb t)))"
    using remove_first_mset [OF ein fnd] by simp
  ultimately have m: "mset (swap_entries s) = add_mset e (mset (concat (map snd ?tbl)))" by simp
  have "mset (map disk_offset (e # concat (map snd ?tbl))) = mset (map disk_offset (swap_entries s))" using m by simp
  then have dist: "distinct (map disk_offset (e # concat (map snd ?tbl)))" using wf(4) mset_eq_imp_distinct_iff by blast
  have sub: "set (swap_entries s) = insert e (set (concat (map snd ?tbl)))" using arg_cong [OF m, of set_mset] by simp
  have d12: "disk_offset e \<notin> set (map disk_offset (concat (map snd ?tbl)))" "distinct (map disk_offset (concat (map snd ?tbl)))"
    using dist unfolding list.map(2) distinct.simps(2) by blast+
  have "disk_offset x < swap_disk_size s \<and> \<not> (empty_block_sector s)[disk_offset e := True] ! disk_offset x" if "x \<in> set (concat (map snd ?tbl))" for x
  proof -
    have "disk_offset x \<in> set (map disk_offset (concat (map snd ?tbl)))" unfolding set_map by (rule imageI [OF that])
    then have "disk_offset x \<noteq> disk_offset e" using d12(1) by metis
    moreover have "x \<in> set (swap_entries s)" unfolding sub using that by (rule insertI2)
    ultimately show ?thesis using wf(5) [of x] by simp
  qed
  moreover note d12(2)
  moreover have "swap_entries ?s' = concat (map snd ?tbl)" by (simp add: swap_entries_def)
  ultimately have w': "swap_wf ?s'" using wf(1-3) unfolding swap_wf_def by (simp del: set_concat map_concat)
  have tl: "filter ?P (remove_first ?P (entries_for ?tb t)) = es" using filter_remove_first(1) [of ?P "entries_for ?tb t"] fe(1) by simp
  have ot: "filter (\<lambda>e. se_kpage e = k') (remove_first ?P (entries_for ?tb t)) = filter (\<lambda>e. se_kpage e = k') (entries_for ?tb t)" if "k' \<noteq> k" for k'
    by (rule filter_remove_first(2)) (use that in auto)
  have sp: "swap_page (swap_disk ?s') o' = swap_page (swap_disk s) o'" for o' by (simp add: swap_page_def)
  have q: "swapq ?s' t' k' = (if t' = t \<and> k' = k then cs else swapq s t' k')" for t' k'
    unfolding swapq_def sp using tl ot fe(3) by (auto simp: ent)
  have "length c = 4096" unfolding fe(2) swap_page_def
    by (subst length_run_bytes) (use wf(1) off in \<open>auto simp: block_wf_def BLOCK_SECTOR_SIZE_def\<close>)
  then show ?thesis using r w' q wf(5) [OF es] by (auto simp: fun_eq_iff)
qed

end
