(* ===== verification/Pagedir.thy ===== *)
theory Pagedir
  imports Swap
begin

unbundle bit_operations_syntax

text \<open>
  Virtual memory: the table of frames (src/pintos2/src/vm/frame.c), the supplemental page table
  (vm/pagetable.c), the page directories of user processes (userprog/pagedir.c) and the page
  fault handler (userprog/exception.c).

  \<^item> Page directories and page tables are words of kernel memory (\<open>kmem\<close>); \<open>kword\<close> and \<open>kset\<close> read
    and write them. \<open>cr3\<close> is the register that selects the active directory; \<^verbatim>\<open>invalidate_pagedir\<close>
    writes it again to flush the translation buffer.
  \<^item> The supplemental page table lists owners with their entries. An entry is named by its
    owner and its user page, under which every lookup finds the first one.
  \<^item> \<open>pagedirs\<close> is \<^verbatim>\<open>get_thread_by_tid\<close> followed by \<^verbatim>\<open>->pagedir\<close>; \<open>cur_tid\<close> is the running thread.
  \<^item> The evicted frame's entry is taken off the table by \<^verbatim>\<open>find_swap_victim\<close>; removing it a second
    time in \<^verbatim>\<open>frame_entry_delete\<close> changes nothing.
\<close>

record frame_entry =
  fe_upage :: u32
  fe_kpage :: u32
  fe_owner :: int

record page_entry =
  pe_upage :: u32
  pe_kpage :: u32
  pe_writable :: bool
  pe_swapped :: bool
  pe_owner :: int

record vm = swapper +
  frametable :: "frame_entry list"
  pagetable :: "(int \<times> page_entry list) list"
  page_lock :: bool
  exception_lock :: bool
  pagedirs :: "int \<rightharpoonup> u32"
  cur_tid :: int
  init_page_dir :: u32
  init_ram_pages :: nat
  cr3 :: u32
  page_fault_cnt :: nat

subsection \<open>Frames\<close>

definition frametable_init :: "vm \<Rightarrow> vm" where
  "frametable_init s = s\<lparr>frametable := []\<rparr>"

definition frame_entry_insert :: "u32 \<Rightarrow> u32 \<Rightarrow> int \<Rightarrow> vm \<Rightarrow> vm res" where
  "frame_entry_insert upage kpage owner s =
     kmalloc s (\<lambda>s1. Inr (s1\<lparr>frametable := frametable s1 @ [\<lparr>fe_upage = upage, fe_kpage = kpage, fe_owner = owner\<rparr>]\<rparr>))"

definition frame_entry_lookup :: "u32 \<Rightarrow> int \<Rightarrow> vm \<Rightarrow> frame_entry option" where
  "frame_entry_lookup kpage owner s = List.find (\<lambda>f. fe_owner f = owner \<and> fe_kpage f = kpage) (frametable s)"

fun frame_delete_loop :: "int \<Rightarrow> frame_entry list \<Rightarrow> frame_entry list" where
  "frame_delete_loop tid [] = []"
| "frame_delete_loop tid (f # fs) =
     (if fe_owner f = tid then frame_delete_loop tid fs else f # frame_delete_loop tid fs)"

definition frame_delete_by_pid :: "int \<Rightarrow> vm \<Rightarrow> vm" where
  "frame_delete_by_pid tid s = s\<lparr>frametable := frame_delete_loop tid (frametable s)\<rparr>"

definition find_swap_victim :: "vm \<Rightarrow> (frame_entry \<times> vm) res" where
  "find_swap_victim s = (case frametable s of [] \<Rightarrow> Inl Assertion | f # fs \<Rightarrow> Inr (f, s\<lparr>frametable := fs\<rparr>))"

subsection \<open>The supplemental page table\<close>

definition pagetable_init :: "vm \<Rightarrow> vm" where
  "pagetable_init s = s\<lparr>page_lock := False, pagetable := []\<rparr>"

definition page_entry_list_lookup :: "int \<Rightarrow> vm \<Rightarrow> page_entry list option" where
  "page_entry_list_lookup owner s = map_option snd (List.find (\<lambda>pe. fst pe = owner) (pagetable s))"

definition page_entry_lookup :: "u32 \<Rightarrow> int \<Rightarrow> vm \<Rightarrow> page_entry option" where
  "page_entry_lookup upage owner s =
     (case page_entry_list_lookup owner s of
        None \<Rightarrow> None
      | Some l \<Rightarrow> List.find (\<lambda>pe. pe_upage pe = upage) l)"

definition page_entry_insert :: "u32 \<Rightarrow> u32 \<Rightarrow> bool \<Rightarrow> int \<Rightarrow> vm \<Rightarrow> vm res" where
  "page_entry_insert upage kpage writable owner s =
     (if page_entry_lookup upage owner s \<noteq> None then Inr s
      else rbind (if page_entry_list_lookup owner s = None
                  then kmalloc s (\<lambda>s1. Inr (s1\<lparr>pagetable := pagetable s1 @ [(owner, [])]\<rparr>))
                  else Inr s) (\<lambda>s2.
             kmalloc s2 (\<lambda>s3.
               Inr (s3\<lparr>pagetable := upd_first (\<lambda>pel. fst pel = owner)
                 (\<lambda>pel. (fst pel, snd pel @ [\<lparr>pe_upage = upage, pe_kpage = kpage, pe_writable = writable,
                                                pe_swapped = False, pe_owner = owner\<rparr>])) (pagetable s3)\<rparr>))))"

definition upd_page_entry :: "u32 \<Rightarrow> int \<Rightarrow> (page_entry \<Rightarrow> page_entry) \<Rightarrow> vm \<Rightarrow> vm" where
  "upd_page_entry upage owner f s =
     s\<lparr>pagetable := upd_first (\<lambda>pel. fst pel = owner)
        (\<lambda>pel. (fst pel, upd_first (\<lambda>pe. pe_upage pe = upage) f (snd pel))) (pagetable s)\<rparr>"

definition page_entry_update_kpage :: "u32 \<Rightarrow> int \<Rightarrow> u32 \<Rightarrow> vm \<Rightarrow> vm" where
  "page_entry_update_kpage upage owner new_kpage s = upd_page_entry upage owner (\<lambda>pe. pe\<lparr>pe_kpage := new_kpage\<rparr>) s"

definition is_swapped :: "page_entry option \<Rightarrow> bool" where
  "is_swapped p = (case p of None \<Rightarrow> False | Some pe \<Rightarrow> pe_swapped pe)"

definition flap_swapped_flag :: "u32 \<Rightarrow> int \<Rightarrow> vm \<Rightarrow> vm" where
  "flap_swapped_flag upage owner s = upd_page_entry upage owner (\<lambda>pe. pe\<lparr>pe_swapped := \<not> pe_swapped pe\<rparr>) s"

subsection \<open>Page directories\<close>

definition kword :: "vm \<Rightarrow> u32 \<Rightarrow> u32" where
  "kword s a = of_nat (le_val (kread a 4 (kmem s)))"

definition kset :: "u32 \<Rightarrow> u32 \<Rightarrow> vm \<Rightarrow> vm" where
  "kset a w s = s\<lparr>kmem := kwrite a (le_bytes 4 (unat w)) (kmem s)\<rparr>"

type_synonym evict = "vm \<Rightarrow> (u32 \<times> vm) res"

text \<open>\<^verbatim>\<open>lookup_page\<close> returns the address of the entry, or 0. Page tables come from the kernel pool,
  for which the allocator never evicts.\<close>

definition lookup_page :: "evict \<Rightarrow> u32 \<Rightarrow> u32 \<Rightarrow> bool \<Rightarrow> vm \<Rightarrow> (u32 \<times> vm) res" where
  "lookup_page page_swap_to_disk pd vaddr create s =
     kassert (pd \<noteq> 0)
      (kassert (\<not> create \<or> is_user_vaddr vaddr)
        (let pde = pd + 4 * pd_no vaddr
         in rbind (if kword s pde = 0
                   then (if create
                         then rbind (palloc_get_page page_swap_to_disk PAL_ZERO s) (\<lambda>(pt, s1).
                                if pt = 0 then Inr (False, s1)
                                else rbind (pde_create pt) (\<lambda>e. Inr (True, kset pde e s1)))
                         else Inr (False, s))
                   else Inr (True, s)) (\<lambda>(found, s2).
              if found then rbind (pde_get_pt (kword s2 pde)) (\<lambda>pt. Inr (pt + 4 * pt_no vaddr, s2))
              else Inr (0, s2))))"

definition pagedir_activate :: "u32 \<Rightarrow> vm \<Rightarrow> vm res" where
  "pagedir_activate pd s = rbind (vtop (if pd = 0 then init_page_dir s else pd)) (\<lambda>p. Inr (s\<lparr>cr3 := p\<rparr>))"

definition active_pd :: "vm \<Rightarrow> u32 res" where
  "active_pd s = ptov (cr3 s)"

definition invalidate_pagedir :: "u32 \<Rightarrow> vm \<Rightarrow> vm res" where
  "invalidate_pagedir pd s = rbind (active_pd s) (\<lambda>a. if a = pd then pagedir_activate pd s else Inr s)"

definition pagedir_create :: "evict \<Rightarrow> vm \<Rightarrow> (u32 \<times> vm) res" where
  "pagedir_create page_swap_to_disk s =
     rbind (palloc_get_page page_swap_to_disk 0 s) (\<lambda>(pd, s1).
       if pd \<noteq> 0 then Inr (pd, s1\<lparr>kmem := kwrite pd (kread (init_page_dir s1) PGSIZE (kmem s1)) (kmem s1)\<rparr>)
       else Inr (pd, s1))"

fun destroy_pt_loop :: "u32 \<Rightarrow> nat \<Rightarrow> nat \<Rightarrow> vm \<Rightarrow> vm res" where
  "destroy_pt_loop pt i 0 s = Inr s"
| "destroy_pt_loop pt i (Suc left) s =
     (let pte = kword s (pt + 4 * of_nat i)
      in rbind (if pte AND PTE_P \<noteq> 0 then rbind (pte_get_page pte) (\<lambda>p. palloc_free_page p s) else Inr s) (\<lambda>s1.
           destroy_pt_loop pt (Suc i) left s1))"

fun destroy_pd_loop :: "u32 \<Rightarrow> nat \<Rightarrow> nat \<Rightarrow> vm \<Rightarrow> vm res" where
  "destroy_pd_loop pd i 0 s = Inr s"
| "destroy_pd_loop pd i (Suc left) s =
     (let pde = kword s (pd + 4 * of_nat i)
      in rbind (if pde AND PTE_P \<noteq> 0
                then rbind (pde_get_pt pde) (\<lambda>pt. rbind (destroy_pt_loop pt 0 1024 s) (\<lambda>s1. palloc_free_page pt s1))
                else Inr s) (\<lambda>s2.
           destroy_pd_loop pd (Suc i) left s2))"

definition pagedir_destroy :: "u32 \<Rightarrow> vm \<Rightarrow> vm res" where
  "pagedir_destroy pd s =
     (if pd = 0 then Inr s
      else kassert (pd \<noteq> init_page_dir s)
       (rbind (destroy_pd_loop pd 0 (unat (pd_no PHYS_BASE)) s) (\<lambda>s1. palloc_free_page pd s1)))"

definition pagedir_set_page :: "evict \<Rightarrow> u32 \<Rightarrow> u32 \<Rightarrow> u32 \<Rightarrow> bool \<Rightarrow> vm \<Rightarrow> (bool \<times> vm) res" where
  "pagedir_set_page page_swap_to_disk pd upage kpage writable s =
     kassert (pg_ofs upage = 0)
      (kassert (pg_ofs kpage = 0)
       (kassert (is_user_vaddr upage)
        (rbind (vtop kpage) (\<lambda>phys.
          kassert (unat (drop_bit PGBITS phys) < init_ram_pages s)
           (kassert (pd \<noteq> init_page_dir s)
            (rbind (lookup_page page_swap_to_disk pd upage True s) (\<lambda>(pte, s1).
               if pte \<noteq> 0 then
                 kassert (kword s1 pte AND PTE_P = 0)
                  (rbind (pte_create_user kpage writable) (\<lambda>e.
                     rbind (page_entry_insert upage kpage writable (cur_tid s1) (kset pte e s1)) (\<lambda>s2.
                       rbind (frame_entry_insert upage kpage (cur_tid s2) s2) (\<lambda>s3. Inr (True, s3)))))
               else Inr (False, s1))))))))"

definition pagedir_get_page :: "u32 \<Rightarrow> u32 \<Rightarrow> vm \<Rightarrow> u32 res" where
  "pagedir_get_page pd uaddr s =
     kassert (is_user_vaddr uaddr)
      (rbind (lookup_page no_swap pd uaddr False s) (\<lambda>(pte, _).
         if pte \<noteq> 0 \<and> kword s pte AND PTE_P \<noteq> 0
         then rbind (pte_get_page (kword s pte)) (\<lambda>p. Inr (p + pg_ofs uaddr))
         else Inr 0))"

definition pagedir_clear_page :: "u32 \<Rightarrow> u32 \<Rightarrow> vm \<Rightarrow> vm res" where
  "pagedir_clear_page pd upage s =
     kassert (pg_ofs upage = 0)
      (kassert (is_user_vaddr upage)
       (rbind (lookup_page no_swap pd upage False s) (\<lambda>(pte, _).
          if pte \<noteq> 0 \<and> kword s pte AND PTE_P \<noteq> 0 then invalidate_pagedir pd (kset pte (kword s pte AND NOT PTE_P) s) else Inr s)))"

definition pagedir_is_dirty :: "u32 \<Rightarrow> u32 \<Rightarrow> vm \<Rightarrow> bool res" where
  "pagedir_is_dirty pd vpage s =
     rbind (lookup_page no_swap pd vpage False s) (\<lambda>(pte, _). Inr (pte \<noteq> 0 \<and> kword s pte AND PTE_D \<noteq> 0))"

definition pagedir_set_dirty :: "u32 \<Rightarrow> u32 \<Rightarrow> bool \<Rightarrow> vm \<Rightarrow> vm res" where
  "pagedir_set_dirty pd vpage dirty s =
     rbind (lookup_page no_swap pd vpage False s) (\<lambda>(pte, _).
       if pte \<noteq> 0
       then (if dirty then Inr (kset pte (kword s pte OR PTE_D) s)
             else invalidate_pagedir pd (kset pte (kword s pte AND NOT PTE_D) s))
       else Inr s)"

definition pagedir_is_accessed :: "u32 \<Rightarrow> u32 \<Rightarrow> vm \<Rightarrow> bool res" where
  "pagedir_is_accessed pd vpage s =
     rbind (lookup_page no_swap pd vpage False s) (\<lambda>(pte, _). Inr (pte \<noteq> 0 \<and> kword s pte AND PTE_A \<noteq> 0))"

definition pagedir_set_accessed :: "u32 \<Rightarrow> u32 \<Rightarrow> bool \<Rightarrow> vm \<Rightarrow> vm res" where
  "pagedir_set_accessed pd vpage accessed s =
     rbind (lookup_page no_swap pd vpage False s) (\<lambda>(pte, _).
       if pte \<noteq> 0
       then (if accessed then Inr (kset pte (kword s pte OR PTE_A) s)
             else invalidate_pagedir pd (kset pte (kword s pte AND NOT PTE_A) s))
       else Inr s)"

subsection \<open>Eviction and page faults\<close>

definition page_swap_to_disk :: evict where
  "page_swap_to_disk s =
     (if page_lock s then Inl Diverged
      else rbind (find_swap_victim (s\<lparr>page_lock := True\<rparr>)) (\<lambda>(f_e, s1).
        case page_entry_lookup (fe_upage f_e) (fe_owner f_e) s1 of
          None \<Rightarrow> Inl Assertion
        | Some p_e \<Rightarrow>
            kassert (\<not> pe_swapped p_e)
             (let new_page = pe_kpage p_e
              in rbind (case pagedirs s1 (pe_owner p_e) of
                          None \<Rightarrow> Inr s1
                        | Some pd \<Rightarrow> pagedir_clear_page pd (pe_upage p_e) s1) (\<lambda>s2.
                 rbind (swap_frame_to_disk (fe_kpage f_e) (pe_owner p_e)
                          (flap_swapped_flag (fe_upage f_e) (fe_owner f_e) s2)) (\<lambda>s3.
                   let s4 = s3\<lparr>kmem := kmemset new_page 0 PGSIZE (kmem s3)\<rparr>
                   in kassert (new_page \<noteq> 0) (Inr (new_page, s4\<lparr>page_lock := False\<rparr>)))))))"

datatype pf_outcome = Resumed | EaxMinus1 | Exited int

text \<open>\<^verbatim>\<open>page_fault\<close>: \<open>fs_locked\<close> is \<^verbatim>\<open>check_filesys_lock\<close>, the address is the register CR2. The code
  prints members of the page entry before it tests whether there is one.\<close>

definition page_fault :: "bool \<Rightarrow> u32 \<Rightarrow> vm \<Rightarrow> (pf_outcome \<times> vm) res" where
  "page_fault fs_locked fault_addr s0 =
     (let s = s0\<lparr>page_fault_cnt := Suc (page_fault_cnt s0)\<rparr>; t = cur_tid s
      in if fs_locked \<and> is_kernel_vaddr fault_addr then Inr (EaxMinus1, s)
         else if is_user_vaddr fault_addr then
           (if exception_lock s then Inl Diverged
            else let s1 = s\<lparr>exception_lock := True\<rparr>
                 in case pagedirs s1 t of
                      None \<Rightarrow> Inl Undefined
                    | Some pd \<Rightarrow>
                        rbind (pagedir_get_page pd fault_addr s1) (\<lambda>p.
                          if p \<noteq> 0 then Inr (Resumed, s1\<lparr>exception_lock := False\<rparr>)
                          else (let fault_page = fault_addr AND 0xfffff000
                                in case page_entry_lookup fault_page t s1 of
                                     None \<Rightarrow> Inl Undefined
                                   | Some p_e \<Rightarrow>
                                       if pe_swapped p_e then
                                         rbind (palloc_get_page page_swap_to_disk PAL_USER s1) (\<lambda>(pages, s2).
                                         rbind (swap_disk_to_frame pages (pe_kpage p_e) t s2) (\<lambda>s3.
                                         rbind (pagedir_set_page page_swap_to_disk pd fault_page pages (pe_writable p_e)
                                                  (flap_swapped_flag fault_page t s3)) (\<lambda>(_, s4).
                                         rbind (pagedir_get_page pd fault_addr s4) (\<lambda>_.
                                           Inr (Resumed, (page_entry_update_kpage fault_page t pages s4)\<lparr>exception_lock := False\<rparr>)))))
                                       else Inr (Resumed, s1\<lparr>exception_lock := False\<rparr>))))
         else Inr (Exited (-1), s))"

end
