(* ===== verification/Address_Space.thy ===== *)
theory Address_Space imports Pagedir begin

unbundle bit_operations_syntax

text \<open>
  What the page directories of src/pintos2/src/userprog/pagedir.c promise. A directory and its
  tables are words of kernel memory in pages that no one else uses (\<open>pd_wf\<close>); the entry of a user
  address is \<open>pte_slot\<close>. Creating a table and writing an entry change the translation of exactly one
  page (\<open>pagedir_set_page_spec\<close>, \<open>pagedir_clear_page_spec\<close>), so that an address space is a table of
  pages in the sense of \<open>name_table\<close>.
\<close>

subsection \<open>Words of kernel memory\<close>

lemma unat_minus_cases: "unat (a - b :: u32) = (if unat b \<le> unat a then unat a - unat b else 4294967296 + unat a - unat b)"
  unfolding unat_sub_if' by (cases "unat b \<le> unat a") (simp_all add: add.commute [of "4294967296"])

lemma unat_inj: "unat (a :: u32) = unat b \<Longrightarrow> a = b"
  by (simp add: word_unat_eq_iff)

lemma aligned4: "unat (a :: u32) mod 4 = 0 \<Longrightarrow> \<exists>q < 1073741824. unat a = 4 * q"
  using unat_u32_less [of a] by (auto elim!: dvdE)

lemma aligned4_add: "unat (a :: u32) mod 4 = 0 \<Longrightarrow> i < 4 \<Longrightarrow> unat (a + of_nat i) = unat a + i"
  using aligned4 [of a] by (intro unat_plus_of_nat) auto

lemma aligned_page: "pg_ofs t = 0 \<Longrightarrow> \<exists>q < 1048576. unat t = 4096 * q"
  using unat_u32_less [of t] unat_pg_ofs [of t] by (auto elim!: dvdE)

lemma page_parts: "\<exists>q r. q < 1048576 \<and> r < 4096 \<and> unat (x :: u32) = 4096 * q + r"
proof -
  have "unat x div 4096 < 1048576" using unat_u32_less [of x] by simp
  moreover have "unat x = 4096 * (unat x div 4096) + unat x mod 4096" by simp
  ultimately show ?thesis by (metis mod_less_divisor zero_less_numeral)
qed

lemma page_quot: "r < 4096 \<Longrightarrow> (4096 * q + r) div 4096 = (q :: nat)"
  by simp

lemma same_page_iff:
  assumes "pg_ofs p = 0"
  shows "unat (x - p) < 4096 \<longleftrightarrow> pg_no x = pg_no p"
proof -
  obtain P where p: "P < 1048576" "unat p = 4096 * P" using aligned_page [OF assms] by blast
  obtain X r where x: "X < 1048576" "r < 4096" "unat x = 4096 * X + r" using page_parts [of x] by blast
  have "pg_no x = pg_no p \<longleftrightarrow> X = P" using x(2) by (simp add: word_unat_eq_iff unat_pg_no p(2) x(3))
  moreover have "unat (x - p) < 4096 \<longleftrightarrow> X = P"
    unfolding unat_minus_cases p(2) x(3) using p(1) x(1,2) by (cases X P rule: linorder_cases) auto
  ultimately show ?thesis by simp
qed

lemma word_bytes_apart:
  fixes a b :: u32
  assumes "unat a mod 4 = 0" "unat b mod 4 = 0" "a \<noteq> b" "i < 4"
  shows "\<not> unat (a + of_nat i - b) < 4"
proof -
  obtain A where A: "A < 1073741824" "unat a = 4 * A" using aligned4 [OF assms(1)] by blast
  obtain B where B: "B < 1073741824" "unat b = 4 * B" using aligned4 [OF assms(2)] by blast
  have ne: "A \<noteq> B" using assms(3) unat_inj A(2) B(2) by auto
  show ?thesis unfolding unat_minus_cases aligned4_add [OF assms(1,4)] A(2) B(2)
    using A(1) B(1) ne assms(4) by (cases A B rule: linorder_cases) auto
qed

lemma kword_kset_same [simp]: "kword (kset a w s) a = w"
proof -
  have "kread a (length (le_bytes 4 (unat w))) (kwrite a (le_bytes 4 (unat w)) (kmem s)) = le_bytes 4 (unat w)"
    by (rule kread_kwrite_same) simp
  then show ?thesis using unat_u32_less [of w] by (simp add: kword_def kset_def)
qed

lemma kword_kset_other:
  assumes "unat a mod 4 = 0" "unat b mod 4 = 0" "a \<noteq> b"
  shows "kword (kset b w s) a = kword s a"
proof -
  have "kread a 4 (kwrite b (le_bytes 4 (unat w)) (kmem s)) = kread a 4 (kmem s)"
    unfolding kread_def by (rule map_cong) (use word_bytes_apart [OF assms] in \<open>auto simp: kwrite_def\<close>)
  then show ?thesis by (simp add: kword_def kset_def)
qed

lemma kword_cong: "kmem s' = kmem s \<Longrightarrow> kword s' = kword s"
  unfolding kword_def by simp

lemma aligned_word_page:
  fixes a :: u32
  assumes "unat a mod 4 = 0" "i < 4"
  shows "pg_no (a + of_nat i) = pg_no a"
proof -
  obtain A where A: "unat a = 4 * A" using aligned4 [OF assms(1)] by blast
  have "(4 * A + i) div 4096 = (4 * A + i) div 4 div 1024" by (simp add: div_mult2_eq [symmetric])
  also have "\<dots> = 4 * A div 4096" using assms(2) by (simp add: div_mult2_eq [of _ 4 1024, simplified])
  finally show ?thesis by (intro unat_inj) (simp add: unat_pg_no aligned4_add [OF assms] A)
qed

lemma kword_kmemset:
  assumes "kmem s' = kmemset p 0 4096 (kmem s)" "pg_ofs p = 0" "unat a mod 4 = 0"
  shows "kword s' a = (if pg_no a = pg_no p then 0 else kword s a)"
proof -
  have "kread a 4 (kmem s') = (if pg_no a = pg_no p then replicate 4 0 else kread a 4 (kmem s))"
    by (rule nth_equalityI)
      (use same_page_iff [OF assms(2)] aligned_word_page [OF assms(3)] in \<open>auto simp: kread_def assms(1) kmemset_def\<close>)
  then show ?thesis by (simp add: kword_def numeral_eq_Suc)
qed

subsection \<open>Tables\<close>

definition pt_of :: "u32 \<Rightarrow> u32" where
  "pt_of e = (e AND PTE_ADDR) + PHYS_BASE"

definition table_page :: "vm \<Rightarrow> u32 \<Rightarrow> bool" where
  "table_page s a \<longleftrightarrow> pg_ofs a = 0 \<and> is_kernel_vaddr a \<and> unat (pg_no a) \<in> used_pages s"

definition pde_at :: "vm \<Rightarrow> u32 \<Rightarrow> nat \<Rightarrow> u32" where
  "pde_at s pd i = kword s (pd + 4 * of_nat i)"

text \<open>A page directory whose tables for user addresses are pages in use, different from each other
  and from the directory.\<close>

definition pd_wf :: "vm \<Rightarrow> u32 \<Rightarrow> bool" where
  "pd_wf s pd \<longleftrightarrow> table_page s pd \<and>
     (\<forall>i<768. pde_at s pd i \<noteq> 0 \<longrightarrow> pde_at s pd i AND PTE_P \<noteq> 0 \<and> pde_at s pd i AND PTE_ADDR < PHYS_BASE \<and>
        table_page s (pt_of (pde_at s pd i)) \<and> pt_of (pde_at s pd i) \<noteq> pd) \<and>
     (\<forall>i<768. \<forall>j<768. i \<noteq> j \<longrightarrow> pde_at s pd i \<noteq> 0 \<longrightarrow> pde_at s pd j \<noteq> 0 \<longrightarrow>
        pt_of (pde_at s pd i) \<noteq> pt_of (pde_at s pd j))"

definition pte_slot :: "vm \<Rightarrow> u32 \<Rightarrow> u32 \<Rightarrow> u32 option" where
  "pte_slot s pd va =
     (let e = pde_at s pd (unat (pd_no va)) in if e = 0 then None else Some (pt_of e + 4 * pt_no va))"

definition pte_decode :: "u32 \<Rightarrow> u32 \<Rightarrow> u32 res" where
  "pte_decode e va = (if e AND PTE_P \<noteq> 0 then rbind (pte_get_page e) (\<lambda>p. Inr (p + pg_ofs va)) else Inr 0)"

lemma table_slot:
  assumes "pg_ofs t = 0" "k < 1024"
  shows "unat (t + 4 * of_nat k) = unat t + 4 * k" "unat (t + 4 * of_nat k) mod 4 = 0" "pg_no (t + 4 * of_nat k) = pg_no t"
proof -
  obtain T where T: "T < 1048576" "unat t = 4096 * T" using aligned_page [OF assms(1)] by blast
  have "unat (t + of_nat (4 * k)) = unat t + 4 * k" by (rule unat_plus_of_nat) (use T assms(2) in simp)
  then show u: "unat (t + 4 * of_nat k) = unat t + 4 * k" by simp
  have "unat t + 4 * k = 4 * (1024 * T + k)" by (simp add: T(2))
  then show "unat (t + 4 * of_nat k) mod 4 = 0" unfolding u by simp
  show "pg_no (t + 4 * of_nat k) = pg_no t"
    by (rule unat_inj) (use assms(2) in \<open>simp only: unat_pg_no u T(2)\<close>, simp)
qed

lemma pd_no_user: "is_user_vaddr va \<Longrightarrow> unat (pd_no va) < 768"
  by (simp add: is_user_vaddr_def word_less_nat_alt PHYS_BASE_def unat_pd_no)

lemma aligned_page_eq: "pg_ofs a = 0 \<Longrightarrow> pg_ofs b = 0 \<Longrightarrow> pg_no a = pg_no b \<Longrightarrow> a = b"
proof -
  assume a: "pg_ofs a = 0" "pg_ofs b = 0" "pg_no a = pg_no b"
  obtain A B where A: "unat a = 4096 * A" "unat b = 4096 * B" using aligned_page a(1,2) by blast
  then have "A = B" using a(3) unat_pg_no [of a] unat_pg_no [of b] by simp
  then show ?thesis using A by (intro unat_inj) simp
qed

lemma pt_no_nat: "pt_no va = of_nat (unat (pt_no va))" "pd_no va = of_nat (unat (pd_no va))"
  by simp_all

lemma pte_slot_facts:
  assumes "pd_wf s pd" "is_user_vaddr va" "pte_slot s pd va = Some a"
  shows "unat a mod 4 = 0" "pg_no a = pg_no (pt_of (pde_at s pd (unat (pd_no va))))" "a \<noteq> 0" "pg_no a \<noteq> pg_no pd"
    "unat a = unat (pt_of (pde_at s pd (unat (pd_no va)))) + 4 * unat (pt_no va)"
proof -
  let ?i = "unat (pd_no va)" let ?t = "pt_of (pde_at s pd ?i)"
  have e: "pde_at s pd ?i \<noteq> 0" "a = ?t + 4 * pt_no va" using assms(3) by (auto simp: pte_slot_def Let_def split: if_splits)
  have t: "table_page s ?t" "?t \<noteq> pd" "table_page s pd" using assms(1) e(1) pd_no_user [OF assms(2)] by (auto simp: pd_wf_def)
  have o: "pg_ofs ?t = 0" "pg_ofs pd = 0" using t by (auto simp: table_page_def)
  note sl = table_slot [OF o(1) pt_no_bound [of va], folded pt_no_nat(1)]
  show "unat a mod 4 = 0" "pg_no a = pg_no ?t" "unat a = unat ?t + 4 * unat (pt_no va)" using sl e(2) by auto
  show "pg_no a \<noteq> pg_no pd" using sl(3) e(2) t(2) aligned_page_eq [OF o] by auto
  have "PHYS_BASE \<le> ?t" using t(1) by (simp add: table_page_def is_kernel_vaddr_def)
  then have "0 < unat a" using sl(1) e(2) by (simp add: word_le_nat_alt PHYS_BASE_def)
  then show "a \<noteq> 0" by auto
qed

lemma pte_slot_inj:
  assumes "pd_wf s pd" "is_user_vaddr va" "is_user_vaddr va'" "pte_slot s pd va = Some a" "pte_slot s pd va' = Some a"
  shows "pg_no va = pg_no va'"
proof -
  let ?i = "unat (pd_no va)" and ?j = "unat (pd_no va')"
  note f = pte_slot_facts [OF assms(1,2,4)] pte_slot_facts [OF assms(1,3,5)]
  have e: "pde_at s pd ?i \<noteq> 0" "pde_at s pd ?j \<noteq> 0" using assms(4,5) by (auto simp: pte_slot_def Let_def split: if_splits)
  have o: "pg_ofs (pt_of (pde_at s pd ?i)) = 0" "pg_ofs (pt_of (pde_at s pd ?j)) = 0"
    using assms(1) e pd_no_user [OF assms(2)] pd_no_user [OF assms(3)] by (auto simp: pd_wf_def table_page_def)
  have tt: "pt_of (pde_at s pd ?i) = pt_of (pde_at s pd ?j)" using aligned_page_eq [OF o] f(2,7) by simp
  then have ij: "?i = ?j"
    using assms(1) e pd_no_user [OF assms(2)] pd_no_user [OF assms(3)] unfolding pd_wf_def by metis
  have "unat (pt_no va) = unat (pt_no va')" using f(5,10) tt by simp
  then have "unat (pg_no va) = unat (pg_no va')" using ij by (simp add: pd_pt_pg)
  then show ?thesis by (rule unat_inj)
qed

text \<open>The pages that hold the directory and its tables; \<open>pd_wf\<close> and the translation only depend on them.\<close>

definition tables :: "vm \<Rightarrow> u32 \<Rightarrow> u32 set" where
  "tables s pd = insert (pg_no pd) ((\<lambda>i. pg_no (pt_of (pde_at s pd i))) ` {i. i < 768 \<and> pde_at s pd i \<noteq> 0})"

lemma pte_slot_tables:
  assumes "pd_wf s pd" "is_user_vaddr va" "pte_slot s pd va = Some a"
  shows "pg_no a \<in> tables s pd"
proof -
  have "pde_at s pd (unat (pd_no va)) \<noteq> 0" using assms(3) by (auto simp: pte_slot_def Let_def split: if_splits)
  then show ?thesis using pte_slot_facts(2) [OF assms] pd_no_user [OF assms(2)] by (auto simp: tables_def)
qed

lemma kset_other_page:
  assumes "unat a mod 4 = 0" "pg_no x \<noteq> pg_no a"
  shows "kmem (kset a w s) x = kmem s x"
proof (cases "unat (x - a) < 4")
  case True
  have "x = a + of_nat (unat (x - a))" by simp
  then have "pg_no x = pg_no a" using aligned_word_page [OF assms(1) True] by simp
  then show ?thesis using assms(2) by simp
qed (simp add: kset_def kwrite_def)

lemma pde_get_pt_ok: "pd_wf s pd \<Longrightarrow> i < 768 \<Longrightarrow> pde_at s pd i \<noteq> 0 \<Longrightarrow> pde_get_pt (pde_at s pd i) = Inr (pt_of (pde_at s pd i))"
  by (simp add: pde_get_pt_def ptov_def pt_of_def pd_wf_def)

lemma lookup_page_find:
  assumes "pd_wf s pd" "is_user_vaddr va" "pte_slot s pd va \<noteq> None \<or> \<not> create"
  shows "lookup_page sw pd va create s = Inr (case pte_slot s pd va of None \<Rightarrow> 0 | Some a \<Rightarrow> a, s)"
proof -
  have "pd \<noteq> 0" using assms(1) by (auto simp: pd_wf_def table_page_def is_kernel_vaddr_def PHYS_BASE_def)
  moreover have "kword s (pd + 4 * pd_no va) = pde_at s pd (unat (pd_no va))" by (simp add: pde_at_def)
  ultimately show ?thesis
    using assms pde_get_pt_ok [OF assms(1) pd_no_user [OF assms(2)]]
    by (auto simp: lookup_page_def pte_slot_def Let_def split: if_splits)
qed

lemma pagedir_get_page_slot:
  assumes "pd_wf s pd" "is_user_vaddr va"
  shows "pagedir_get_page pd va s = (case pte_slot s pd va of None \<Rightarrow> Inr 0 | Some a \<Rightarrow> pte_decode (kword s a) va)"
  using assms lookup_page_find [OF assms, of False no_swap] pte_slot_facts(3) [OF assms]
  by (cases "pte_slot s pd va") (auto simp: pagedir_get_page_def pte_decode_def)


subsection \<open>Creating a table\<close>

lemma pde_create_roundtrip:
  assumes "pg_ofs t = 0" "is_kernel_vaddr t"
  shows "\<exists>e. pde_create t = Inr e \<and> e \<noteq> 0 \<and> e AND PTE_P \<noteq> 0 \<and> e AND PTE_ADDR < PHYS_BASE \<and> pt_of e = t"
proof -
  obtain p where p: "vtop t = Inr p" "p AND mask 12 = 0" "ptov p = Inr t" using vtop_aligned [OF assms] by blast
  let ?f = "PTE_U OR PTE_P OR PTE_W"
  have f: "?f AND NOT (mask 12) = 0" by (simp add: PTE_P_def PTE_W_def PTE_U_def mask_eq_exp_minus_1)
  have addr: "(p OR ?f) AND PTE_ADDR = p" using low_or_high [OF p(2) f] by (simp add: PTE_ADDR_not PGMASK_mask)
  have "bit ((p OR ?f) AND PTE_P) 0" by (simp add: PTE_P_def bit_simps)
  then have P: "(p OR ?f) AND PTE_P \<noteq> 0" by auto
  have "p < PHYS_BASE \<and> p + PHYS_BASE = t" using p(3) by (auto simp: ptov_def kassert_eq_Inr)
  moreover have "pde_create t = Inr (p OR ?f)" using assms(1) p(1) by (simp add: pde_create_def or.assoc)
  ultimately show ?thesis using addr P by (intro exI [of _ "p OR ?f"]) (auto simp: pt_of_def)
qed

lemma user_slot: "(PAL_ZERO AND PAL_USER) = 0" "PAL_ZERO AND PAL_ZERO \<noteq> 0" "PAL_ZERO AND PAL_ASSERT = 0"
  by (simp_all add: PAL_ZERO_def PAL_USER_def PAL_ASSERT_def)

lemma kernel_pool_never_swaps:
  "flags AND PAL_USER = 0 \<Longrightarrow> palloc_get_multiple sw flags n s = palloc_get_multiple sw' flags n s"
  unfolding palloc_get_multiple_def Let_def by (simp cong: if_cong)

lemma palloc_zeroed_page:
  fixes s :: vm
  assumes "palloc_wf s"
  obtains (full) "palloc_get_page sw PAL_ZERO s = Inr (0, s)"
  | (page) t um s1 where "palloc_get_page sw PAL_ZERO s = Inr (t, s1)" "t \<noteq> 0"
      "s1 = (set_pool PAL_ZERO um s)\<lparr>kmem := kmemset t 0 4096 (kmem s)\<rparr>" "palloc_wf s1"
      "pg_ofs t = 0" "is_kernel_vaddr t" "unat (pg_no t) \<notin> used_pages s" "used_pages s1 = insert (unat (pg_no t)) (used_pages s)"
proof (rule palloc_get_multiple_cases [OF assms, of 1 sw PAL_ZERO])
  fix k um
  assume h: "palloc_get_multiple sw PAL_ZERO 1 s =
      Inr (page_at (the_pool PAL_ZERO s) k,
           if PAL_ZERO AND PAL_ZERO \<noteq> 0
           then (set_pool PAL_ZERO um s)\<lparr>kmem := kmemset (page_at (the_pool PAL_ZERO s) k) 0 (PGSIZE * 1) (kmem s)\<rparr>
           else set_pool PAL_ZERO um s)"
    "k + 1 \<le> bit_cnt (used_map (the_pool PAL_ZERO s))"
  let ?t = "page_at (the_pool PAL_ZERO s) k"
  let ?s1 = "(set_pool PAL_ZERO um s)\<lparr>kmem := kmemset ?t 0 4096 (kmem s)\<rparr>"
  have g: "palloc_get_multiple sw PAL_ZERO 1 s = Inr (?t, ?s1)" using h(1) user_slot by (simp add: PGSIZE_def)
  have t0: "?t \<noteq> 0" "is_kernel_vaddr ?t" using page_at_facts [OF the_pool_wf [OF assms], of k PAL_ZERO] h(2) by (auto simp: is_kernel_vaddr_def)
  have "palloc_get_multiple (\<lambda>s. Inr (0, s)) PAL_ZERO 1 s = Inr (?t, ?s1)"
    using g kernel_pool_never_swaps [OF user_slot(1), of sw] by metis
  note fr = palloc_get_fresh [OF assms _ this refl t0(1)]
  show thesis by (rule page [of ?t ?s1 um]) (use g t0 fr in \<open>auto simp: palloc_get_page_def extent_def\<close>)
next
  assume "palloc_get_multiple sw PAL_ZERO 1 s =
        (if PAL_ZERO AND PAL_ASSERT \<noteq> 0 then Inl (Panic ''palloc_get: out of pages'')
         else if PAL_ZERO AND PAL_USER \<noteq> 0 then sw s else Inr (0, s))"
  then show thesis using full user_slot by (simp add: palloc_get_page_def)
qed simp


lemma pde_at_other_page:
  assumes "pg_ofs pd = 0" "i < 1024" "unat a mod 4 = 0" "pg_no a \<noteq> pg_no pd"
  shows "pde_at (kset a w s) pd i = pde_at s pd i"
  unfolding pde_at_def
  by (rule kword_kset_other) (use table_slot [OF assms(1,2)] assms(3,4) in auto)

lemma pd_wf_cong: "kmem s' = kmem s \<Longrightarrow> used_pages s \<subseteq> used_pages s' \<Longrightarrow> pd_wf s pd \<Longrightarrow> pd_wf s' pd"
proof -
  assume a: "kmem s' = kmem s" "used_pages s \<subseteq> used_pages s'" "pd_wf s pd"
  have "pde_at s' pd = pde_at s pd" by (simp add: pde_at_def fun_eq_iff kword_cong [OF a(1)])
  then show ?thesis using a(2,3) unfolding pd_wf_def table_page_def by auto
qed

lemma pd_wf_kset:
  assumes "pd_wf s pd" "unat a mod 4 = 0" "pg_no a \<noteq> pg_no pd"
  shows "pd_wf (kset a w s) pd" "is_user_vaddr va \<Longrightarrow> pte_slot (kset a w s) pd va = pte_slot s pd va"
proof -
  have o: "pg_ofs pd = 0" using assms(1) by (simp add: pd_wf_def table_page_def)
  have e: "pde_at (kset a w s) pd i = pde_at s pd i" if "i < 768" for i
    using pde_at_other_page [OF o _ assms(2,3)] that by simp
  have "used_pages (kset a w s) = used_pages s" by (simp add: kset_def)
  then show "pd_wf (kset a w s) pd" using assms(1) e unfolding pd_wf_def table_page_def by simp
  show "is_user_vaddr va \<Longrightarrow> pte_slot (kset a w s) pd va = pte_slot s pd va"
    using e [OF pd_no_user] by (simp add: pte_slot_def)
qed


text \<open>A new table: the page \<open>t\<close> was not in use and is all zeros, and entry \<open>i\<close> of the directory points to it.\<close>

lemma add_table:
  fixes s s1 :: vm and pd e :: u32 and i :: nat
  defines "s2 \<equiv> kset (pd + 4 * of_nat i) e s1"
  assumes wf: "pd_wf s pd" and i: "i < 768" "pde_at s pd i = 0"
    and t: "kmem s1 = kmemset t 0 4096 (kmem s)" "pg_ofs t = 0" "is_kernel_vaddr t" "unat (pg_no t) \<notin> used_pages s"
    and u: "used_pages s1 = insert (unat (pg_no t)) (used_pages s)"
    and e: "e \<noteq> 0" "e AND PTE_P \<noteq> 0" "e AND PTE_ADDR < PHYS_BASE" "pt_of e = t"
  shows "pd_wf (s2) pd"
    and "j < 768 \<Longrightarrow> pde_at (s2) pd j = (if j = i then e else pde_at s pd j)"
    and "unat a mod 4 = 0 \<Longrightarrow> pg_no a \<noteq> pg_no pd \<Longrightarrow> kword (s2) a = (if pg_no a = pg_no t then 0 else kword s a)"
proof -
  have pd: "pg_ofs pd = 0" "unat (pg_no pd) \<in> used_pages s" using wf by (auto simp: pd_wf_def table_page_def)
  have tpd: "pg_no t \<noteq> pg_no pd" using t(4) pd(2) by auto
  have sl: "unat (pd + 4 * of_nat j) mod 4 = 0" "pg_no (pd + 4 * of_nat j) = pg_no pd" "unat (pd + 4 * of_nat j) = unat pd + 4 * j" if "j < 768" for j
    using table_slot [OF pd(1), of j] that by auto
  have k1: "kword s1 a = (if pg_no a = pg_no t then 0 else kword s a)" if "unat a mod 4 = 0" for a
    by (rule kword_kmemset [OF t(1,2) that])
  have pde: "pde_at (s2) pd j = (if j = i then e else pde_at s pd j)" if j: "j < 768" for j
  proof (cases "j = i")
    case False
    then have "unat (pd + 4 * of_nat j) \<noteq> unat (pd + 4 * of_nat i)" using sl(3) [OF j] sl(3) [OF i(1)] by simp
    then have "kword (s2) (pd + 4 * of_nat j) = kword s1 (pd + 4 * of_nat j)"
      unfolding s2_def by (intro kword_kset_other) (use sl(1) [OF j] sl(1) [OF i(1)] in auto)
    then show ?thesis using False k1 [OF sl(1) [OF j]] sl(2) [OF j] tpd by (simp add: pde_at_def)
  qed (simp add: pde_at_def s2_def)
  then show "j < 768 \<Longrightarrow> pde_at (s2) pd j = (if j = i then e else pde_at s pd j)" by simp
  show "kword (s2) a = (if pg_no a = pg_no t then 0 else kword s a)" if a: "unat a mod 4 = 0" "pg_no a \<noteq> pg_no pd"
  proof -
    have "kword (s2) a = kword s1 a"
      unfolding s2_def by (rule kword_kset_other) (use a sl [OF i(1)] in auto)
    then show ?thesis using k1 [OF a(1)] by simp
  qed
  have us: "used_pages (s2) = insert (unat (pg_no t)) (used_pages s)" using u by (simp add: s2_def kset_def)
  have old: "table_page s x \<Longrightarrow> table_page (s2) x" for x using us by (auto simp: table_page_def)
  have new: "table_page (s2) t" using us t(2,3) by (simp add: table_page_def)
  have fresh: "table_page s x \<Longrightarrow> x \<noteq> t" for x using t(4) by (auto simp: table_page_def)
  show "pd_wf (s2) pd"
    unfolding pd_wf_def
  proof (intro conjI allI impI)
    show "table_page (s2) pd" using old wf by (simp add: pd_wf_def)
  next
    fix j assume j: "j < 768" "pde_at (s2) pd j \<noteq> 0"
    note w = wf [unfolded pd_wf_def, THEN conjunct2, THEN conjunct1, rule_format, OF j(1)]
    show "pde_at (s2) pd j AND PTE_P \<noteq> 0" "pde_at (s2) pd j AND PTE_ADDR < PHYS_BASE"
      "table_page (s2) (pt_of (pde_at (s2) pd j))" "pt_of (pde_at (s2) pd j) \<noteq> pd"
      using j pde [OF j(1)] w e new old tpd by (auto split: if_splits)
  next
    fix j k assume jk: "j < 768" "k < 768" "j \<noteq> k" "pde_at (s2) pd j \<noteq> 0" "pde_at (s2) pd k \<noteq> 0"
    have tp: "j < 768 \<Longrightarrow> pde_at s pd j \<noteq> 0 \<Longrightarrow> table_page s (pt_of (pde_at s pd j))" for j using wf by (auto simp: pd_wf_def)
    have "pde_at s pd j \<noteq> 0 \<Longrightarrow> pde_at s pd k \<noteq> 0 \<Longrightarrow> pt_of (pde_at s pd j) \<noteq> pt_of (pde_at s pd k)"
      using wf jk(1-3) unfolding pd_wf_def by blast
    then show "pt_of (pde_at (s2) pd j) \<noteq> pt_of (pde_at (s2) pd k)"
      using jk pde [OF jk(1)] pde [OF jk(2)] fresh [OF tp [OF jk(1)]] fresh [OF tp [OF jk(2)]] e(4) by (auto split: if_splits)
  qed
qed


lemma add_table_translation:
  fixes s s1 :: vm and pd e :: u32 and i :: nat
  defines "s2 \<equiv> kset (pd + 4 * of_nat i) e s1"
  assumes wf: "pd_wf s pd" and i: "i < 768" "pde_at s pd i = 0"
    and t: "kmem s1 = kmemset t 0 4096 (kmem s)" "pg_ofs t = 0" "is_kernel_vaddr t" "unat (pg_no t) \<notin> used_pages s"
    and u: "used_pages s1 = insert (unat (pg_no t)) (used_pages s)"
    and e: "e \<noteq> 0" "e AND PTE_P \<noteq> 0" "e AND PTE_ADDR < PHYS_BASE" "pt_of e = t"
    and v: "is_user_vaddr va"
  shows "pagedir_get_page pd va s2 = pagedir_get_page pd va s"
proof -
  note nt = add_table [OF wf i t u e, folded s2_def]
  have tsl: "pg_no (t + 4 * pt_no va) = pg_no t" using table_slot(3) [OF t(2) pt_no_bound [of va]] by simp
  show ?thesis
  proof (cases "unat (pd_no va) = i")
    case True
    then have "pte_slot s pd va = None" "pte_slot s2 pd va = Some (t + 4 * pt_no va)"
      using i(2) nt(2) [OF i(1)] e(1,4) by (simp_all add: pte_slot_def)
    moreover from this(2) have "kword s2 (t + 4 * pt_no va) = 0"
      using pte_slot_facts [OF nt(1) v] nt(3) tsl by simp
    ultimately show ?thesis
      by (simp add: pagedir_get_page_slot [OF wf v] pagedir_get_page_slot [OF nt(1) v] pte_decode_def)
  next
    case False
    have eq: "pte_slot s2 pd va = pte_slot s pd va" using nt(2) [OF pd_no_user [OF v]] False by (simp add: pte_slot_def)
    have "kword s2 a = kword s a" if a: "pte_slot s pd va = Some a" for a
    proof -
      note f = pte_slot_facts [OF wf v a]
      have "pde_at s pd (unat (pd_no va)) \<noteq> 0" using a by (auto simp: pte_slot_def Let_def split: if_splits)
      then have "unat (pg_no a) \<in> used_pages s" using wf pd_no_user [OF v] f(2) by (simp add: pd_wf_def table_page_def)
      then have "pg_no a \<noteq> pg_no t" using t(4) by auto
      then show ?thesis using nt(3) [OF f(1,4)] by simp
    qed
    then show ?thesis
      by (simp add: pagedir_get_page_slot [OF wf v] pagedir_get_page_slot [OF nt(1) v] eq split: option.split)
  qed
qed

lemma lookup_page_create:
  fixes s :: vm
  assumes wf: "pd_wf s pd" "palloc_wf s" "is_user_vaddr va"
  obtains (full) "lookup_page sw pd va True s = Inr (0, s)" "pte_slot s pd va = None"
  | (slot) a um m s' where "lookup_page sw pd va True s = Inr (a, s')" "s' = s \<or> s' = (set_pool PAL_ZERO um s)\<lparr>kmem := m\<rparr>"
      "pd_wf s' pd" "palloc_wf s'" "used_pages s \<subseteq> used_pages s'" "pte_slot s' pd va = Some a"
      "\<And>va'. is_user_vaddr va' \<Longrightarrow> pagedir_get_page pd va' s' = pagedir_get_page pd va' s"
      "pte_slot s pd va = None \<Longrightarrow> kword s' a = 0" "pte_slot s pd va \<noteq> None \<Longrightarrow> s' = s"
      "\<And>x. unat (pg_no x) \<in> used_pages s \<Longrightarrow> pg_no x \<notin> tables s pd \<Longrightarrow> kmem s' x = kmem s x \<and> pg_no x \<noteq> pg_no a"
proof (cases "pte_slot s pd va")
  case (Some a)
  show thesis
    by (rule slot [of a s]) (use wf Some lookup_page_find [OF wf(1,3), of True sw] pte_slot_tables [OF wf(1,3) Some] in auto)
next
  case None
  let ?i = "unat (pd_no va)"
  have i: "?i < 768" "pde_at s pd ?i = 0" using None pd_no_user [OF wf(3)] by (auto simp: pte_slot_def Let_def split: if_splits)
  have pd: "pd \<noteq> 0" "kword s (pd + 4 * pd_no va) = 0"
    using wf(1) i(2) by (auto simp: pd_wf_def table_page_def is_kernel_vaddr_def PHYS_BASE_def pde_at_def)
  show thesis
  proof (rule palloc_zeroed_page [OF wf(2), of sw])
    assume "palloc_get_page sw PAL_ZERO s = Inr (0, s)"
    then show thesis using pd wf(3) None by (intro full) (simp_all add: lookup_page_def)
  next
    fix t um s1
    assume p: "palloc_get_page sw PAL_ZERO s = Inr (t, s1)" "t \<noteq> 0"
      "s1 = (set_pool PAL_ZERO um s)\<lparr>kmem := kmemset t 0 4096 (kmem s)\<rparr>" "palloc_wf s1"
      "pg_ofs t = 0" "is_kernel_vaddr t" "unat (pg_no t) \<notin> used_pages s" "used_pages s1 = insert (unat (pg_no t)) (used_pages s)"
    obtain e where e: "pde_create t = Inr e" "e \<noteq> 0" "e AND PTE_P \<noteq> 0" "e AND PTE_ADDR < PHYS_BASE" "pt_of e = t"
      using pde_create_roundtrip [OF p(5,6)] by blast
    let ?s2 = "kset (pd + 4 * pd_no va) e s1"
    have m1: "kmem s1 = kmemset t 0 4096 (kmem s)" using p(3) by simp
    note nt = add_table [OF wf(1) i m1 p(5-8) e(2-5), simplified]
    have g: "pde_get_pt e = Inr t" using e(3-5) by (simp add: pde_get_pt_def ptov_def pt_of_def)
    have sl: "pte_slot ?s2 pd va = Some (t + 4 * pt_no va)" using nt(2) [OF i(1)] e(2,5) by (simp add: pte_slot_def)
    note same = add_table_translation [OF wf(1) i m1 p(5-8) e(2-5), simplified]
    note sf = pte_slot_facts [OF nt(1) wf(3) sl]
    have lk: "lookup_page sw pd va True s = Inr (t + 4 * pt_no va, ?s2)"
      using pd wf(3) p(1,2) e(1) g by (simp add: lookup_page_def Let_def)
    have pw: "palloc_wf ?s2" "used_pages s \<subseteq> used_pages ?s2" using p(4,8) by (auto simp: kset_def)
    have tp: "pg_no (t + 4 * pt_no va) = pg_no t" using table_slot(3) [OF p(5) pt_no_bound [of va]] by simp
    have mem: "kmem ?s2 x = kmem s x \<and> pg_no x \<noteq> pg_no (t + 4 * pt_no va)"
      if x: "unat (pg_no x) \<in> used_pages s" "pg_no x \<notin> tables s pd" for x
    proof -
      have "pg_no x \<noteq> pg_no t" using x(1) p(7) by auto
      moreover have "pg_no x \<noteq> pg_no (pd + 4 * pd_no va)"
        using x(2) wf(1) table_slot(3) [of pd "unat (pd_no va)"] i(1) by (auto simp: tables_def pd_wf_def table_page_def)
      moreover have "unat (pd + 4 * pd_no va) mod 4 = 0" using wf(1) table_slot(2) [of pd "unat (pd_no va)"] i(1) by (auto simp: pd_wf_def table_page_def)
      ultimately show ?thesis using kset_other_page [of "pd + 4 * pd_no va" x] same_page_iff [OF p(5), of x] tp
        by (simp add: m1 kmemset_def)
    qed
    show thesis
      by (rule slot [of "t + 4 * pt_no va" ?s2 "kmem ?s2" um, OF lk _ nt(1) pw sl same])
        (use nt(3) [OF sf(1,4)] tp None mem in \<open>auto simp: kset_def p(3)\<close>)
  qed
qed


subsection \<open>Mapping and unmapping\<close>

definition page_present :: "vm \<Rightarrow> u32 \<Rightarrow> u32 \<Rightarrow> bool" where
  "page_present s pd va = (case pte_slot s pd va of None \<Rightarrow> False | Some a \<Rightarrow> kword s a AND PTE_P \<noteq> 0)"

lemma page_absent_get: "pd_wf s pd \<Longrightarrow> is_user_vaddr va \<Longrightarrow> \<not> page_present s pd va \<Longrightarrow> pagedir_get_page pd va s = Inr 0"
  by (simp add: pagedir_get_page_slot page_present_def pte_decode_def split: option.splits)

lemma tables_frame:
  assumes "pd_wf s pd" "\<And>x. pg_no x \<in> tables s pd \<Longrightarrow> kmem s' x = kmem s x" "used_pages s \<subseteq> used_pages s'"
  shows "pd_wf s' pd" "tables s' pd = tables s pd" "is_user_vaddr va \<Longrightarrow> pte_slot s' pd va = pte_slot s pd va"
    "is_user_vaddr va \<Longrightarrow> pagedir_get_page pd va s' = pagedir_get_page pd va s"
    "is_user_vaddr va \<Longrightarrow> page_present s' pd va = page_present s pd va"
proof -
  have kw: "kword s' a = kword s a" if "unat a mod 4 = 0" "pg_no a \<in> tables s pd" for a
  proof -
    have "kread a 4 (kmem s') = kread a 4 (kmem s)"
      unfolding kread_def by (rule map_cong) (use assms(2) aligned_word_page [OF that(1)] that(2) in auto)
    then show ?thesis by (simp add: kword_def)
  qed
  have pde: "pde_at s' pd i = pde_at s pd i" if "i < 768" for i
    unfolding pde_at_def by (rule kw) (use assms(1) table_slot [of pd i] that in \<open>auto simp: pd_wf_def table_page_def tables_def\<close>)
  show wf: "pd_wf s' pd" using assms(1,3) pde unfolding pd_wf_def table_page_def by (simp, blast)
  show "tables s' pd = tables s pd" using pde by (auto simp: tables_def)
  show sl: "pte_slot s' pd va = pte_slot s pd va" if "is_user_vaddr va" for va
    using pde [OF pd_no_user [OF that]] by (simp add: pte_slot_def)
  have kws: "kword s' a = kword s a" if v: "is_user_vaddr va" "pte_slot s pd va = Some a" for va a
    by (rule kw [OF pte_slot_facts(1) [OF assms(1) v] pte_slot_tables [OF assms(1) v]])
  show "page_present s' pd va = page_present s pd va" if v: "is_user_vaddr va"
    using kws [OF v] sl [OF v] by (simp add: page_present_def split: option.split)
  show "pagedir_get_page pd va s' = pagedir_get_page pd va s" if v: "is_user_vaddr va"
    using kws [OF v] by (simp add: pagedir_get_page_slot [OF assms(1) v] pagedir_get_page_slot [OF wf v] sl [OF v] split: option.split)
qed

lemma pagedir_get_page_cong:
  assumes "kmem s' = kmem s" "used_pages s \<subseteq> used_pages s'" "pd_wf s pd" "is_user_vaddr va"
  shows "pagedir_get_page pd va s' = pagedir_get_page pd va s"
proof -
  have "pte_slot s' pd va = pte_slot s pd va" by (simp add: pte_slot_def pde_at_def kword_cong [OF assms(1)])
  then show ?thesis
    by (simp add: pagedir_get_page_slot [OF assms(3,4)] pagedir_get_page_slot [OF pd_wf_cong [OF assms(1-3)] assms(4)]
        kword_cong [OF assms(1)] split: option.split)
qed

lemma same_page_slot: "pg_no va = pg_no va' \<Longrightarrow> pte_slot s pd va = pte_slot s pd va'"
proof -
  assume "pg_no va = pg_no va'"
  then have n: "unat va div 4096 = unat va' div 4096" using unat_pg_no [of va] unat_pg_no [of va'] by simp
  have "unat va div 4194304 = unat va' div 4194304"
    using n by (simp add: div_mult2_eq [of _ 4096 1024, simplified])
  then have "pd_no va = pd_no va'" by (intro unat_inj) (simp add: unat_pd_no)
  moreover have "pt_no va = pt_no va'" using n by (intro unat_inj) (simp add: unat_pt_no)
  ultimately show ?thesis by (simp add: pte_slot_def Let_def)
qed

text \<open>Writing one entry changes the translation of one page.\<close>

lemma set_pte_translation:
  assumes wf: "pd_wf s pd" "is_user_vaddr up" "pte_slot s pd up = Some a" and v: "is_user_vaddr va"
  shows "pd_wf (kset a e s) pd"
    and "pagedir_get_page pd va (kset a e s) = (if pg_no va = pg_no up then pte_decode e va else pagedir_get_page pd va s)"
proof -
  note f = pte_slot_facts [OF wf]
  note k = pd_wf_kset [OF wf(1) f(1,4)]
  show "pd_wf (kset a e s) pd" by (rule k(1))
  have "kword (kset a e s) b = kword s b" if b: "pte_slot s pd va = Some b" "pg_no va \<noteq> pg_no up" for b
  proof (rule kword_kset_other [OF pte_slot_facts(1) [OF wf(1) v b(1)] f(1)])
    show "b \<noteq> a" using pte_slot_inj [OF wf(1) v wf(2) b(1)] wf(3) b(2) by auto
  qed
  then show "pagedir_get_page pd va (kset a e s) = (if pg_no va = pg_no up then pte_decode e va else pagedir_get_page pd va s)"
    using same_page_slot [of va up s pd] wf(3)
    by (simp add: pagedir_get_page_slot [OF wf(1) v] pagedir_get_page_slot [OF k(1) v] k(2) [OF v] split: option.split)
qed

lemma page_entry_insert_frame:
  assumes "\<And>n. heap_ok s n"
  shows "\<exists>c l. page_entry_insert upage kpage w owner s = Inr (s\<lparr>heap_cnt := c, pagetable := l\<rparr>) \<and>
     (page_entry_lookup upage owner s \<noteq> None \<longrightarrow> l = pagetable s)"
proof (cases "page_entry_lookup upage owner s")
  case None
  then show ?thesis using assms
    by (cases "page_entry_list_lookup owner s") (auto simp: page_entry_insert_def kmalloc_def)
next
  case (Some pe)
  have "s = s\<lparr>heap_cnt := heap_cnt s, pagetable := pagetable s\<rparr>" by simp
  then show ?thesis using Some unfolding page_entry_insert_def by (metis option.distinct(1))
qed

lemma register_page:
  fixes s :: vm
  assumes "\<And>n. heap_ok s n"
  obtains s' where "rbind (page_entry_insert upage kpage w (cur_tid s) s) (\<lambda>s2.
      rbind (frame_entry_insert upage kpage (cur_tid s2) s2) (\<lambda>s3. Inr (True, s3))) = Inr (True, s')"
    "kmem s' = kmem s" "kernel_pool s' = kernel_pool s" "user_pool s' = user_pool s" "cr3 s' = cr3 s" "init_page_dir s' = init_page_dir s"
    "heap_ok s' = heap_ok s" "init_ram_pages s' = init_ram_pages s"
    "\<exists>c l f. s' = s\<lparr>heap_cnt := c, pagetable := l, frametable := f\<rparr> \<and> (page_entry_lookup upage (cur_tid s) s \<noteq> None \<longrightarrow> l = pagetable s)"
proof -
  obtain c l where i: "page_entry_insert upage kpage w (cur_tid s) s = Inr (s\<lparr>heap_cnt := c, pagetable := l\<rparr>)"
      "page_entry_lookup upage (cur_tid s) s \<noteq> None \<longrightarrow> l = pagetable s"
    using page_entry_insert_frame [OF assms] by blast
  let ?s = "s\<lparr>heap_cnt := Suc c, pagetable := l,
    frametable := frametable s @ [\<lparr>fe_upage = upage, fe_kpage = kpage, fe_owner = cur_tid s\<rparr>]\<rparr>"
  show thesis
    by (rule that [of ?s]) (use assms i(2) in \<open>auto simp: i(1) frame_entry_insert_def kmalloc_def intro!: exI [of _ "Suc c"] exI [of _ l]\<close>)
qed


lemma pagedir_set_page_spec:
  fixes s :: vm
  assumes wf: "pd_wf s pd" "palloc_wf s" and up: "pg_ofs up = 0" "is_user_vaddr up" and kp: "pg_ofs kp = 0" "is_kernel_vaddr kp"
    and phys: "unat (drop_bit PGBITS (kp - PHYS_BASE)) < init_ram_pages s" "pd \<noteq> init_page_dir s"
    and ab: "\<not> page_present s pd up" and h: "\<And>n. heap_ok s n"
  shows "\<exists>r s'. pagedir_set_page sw pd up kp w s = Inr (r, s') \<and> pd_wf s' pd \<and> palloc_wf s' \<and>
     (\<forall>va. is_user_vaddr va \<longrightarrow> pagedir_get_page pd va s' =
         (if r \<and> pg_no va = pg_no up then Inr (kp + pg_ofs va) else pagedir_get_page pd va s)) \<and>
     (\<not> r \<longrightarrow> s' = s \<and> pte_slot s pd up = None) \<and> cr3 s' = cr3 s \<and> init_page_dir s' = init_page_dir s \<and> heap_ok s' = heap_ok s \<and>
     init_ram_pages s' = init_ram_pages s \<and>
     (\<forall>x. unat (pg_no x) \<in> used_pages s \<longrightarrow> pg_no x \<notin> tables s pd \<longrightarrow> kmem s' x = kmem s x) \<and>
     (\<exists>c l f m k. s' = s\<lparr>heap_cnt := c, pagetable := l, frametable := f, kmem := m, kernel_pool := k\<rparr> \<and>
        (page_entry_lookup up (cur_tid s) s \<noteq> None \<longrightarrow> l = pagetable s))"
proof -
  have pre: "pagedir_set_page sw pd up kp w s = rbind (lookup_page sw pd up True s) (\<lambda>(pte, s1).
      if pte \<noteq> 0 then
        kassert (kword s1 pte AND PTE_P = 0)
          (rbind (pte_create_user kp w) (\<lambda>e.
             rbind (page_entry_insert up kp w (cur_tid s1) (kset pte e s1)) (\<lambda>s2.
               rbind (frame_entry_insert up kp (cur_tid s2) s2) (\<lambda>s3. Inr (True, s3)))))
      else Inr (False, s1))"
    using up kp phys by (simp add: pagedir_set_page_def vtop_def)
  show ?thesis
  proof (rule lookup_page_create [OF wf up(2), of sw])
    assume "lookup_page sw pd up True s = Inr (0, s)" "pte_slot s pd up = None"
    moreover have "\<exists>c l f m k. s = s\<lparr>heap_cnt := c, pagetable := l, frametable := f, kmem := m, kernel_pool := k\<rparr> \<and>
        (page_entry_lookup up (cur_tid s) s \<noteq> None \<longrightarrow> l = pagetable s)"
      by (intro exI [of _ "heap_cnt s"] exI [of _ "pagetable s"] exI [of _ "frametable s"] exI [of _ "kmem s"] exI [of _ "kernel_pool s"]) simp
    ultimately show ?thesis using pre wf by (intro exI [of _ False] exI [of _ s]) simp
  next
    fix a um m s1
    assume l: "lookup_page sw pd up True s = Inr (a, s1)" "s1 = s \<or> s1 = (set_pool PAL_ZERO um s)\<lparr>kmem := m\<rparr>"
      "pd_wf s1 pd" "palloc_wf s1" "used_pages s \<subseteq> used_pages s1" "pte_slot s1 pd up = Some a"
      "\<And>va'. is_user_vaddr va' \<Longrightarrow> pagedir_get_page pd va' s1 = pagedir_get_page pd va' s"
      "pte_slot s pd up = None \<Longrightarrow> kword s1 a = 0" "pte_slot s pd up \<noteq> None \<Longrightarrow> s1 = s"
      "\<And>x. unat (pg_no x) \<in> used_pages s \<Longrightarrow> pg_no x \<notin> tables s pd \<Longrightarrow> kmem s1 x = kmem s x \<and> pg_no x \<noteq> pg_no a"
    have z: "kword s1 a AND PTE_P = 0" using ab l(6,8,9) by (cases "pte_slot s pd up") (auto simp: page_present_def)
    have a0: "a \<noteq> 0" using pte_slot_facts(3) [OF l(3) up(2) l(6)] .
    obtain e where e: "pte_create_user kp w = Inr e" "pte_get_page e = Inr kp" "e AND PTE_P \<noteq> 0"
      using pte_create_user_roundtrip [OF kp] by blast
    let ?s = "kset a e s1"
    have fr: "heap_ok ?s = heap_ok s" "cr3 ?s = cr3 s" "init_page_dir ?s = init_page_dir s" "init_ram_pages ?s = init_ram_pages s" "cur_tid ?s = cur_tid s1"
      using l(2) by (auto simp: kset_def set_pool_def)
    obtain s' where s': "rbind (page_entry_insert up kp w (cur_tid ?s) ?s) (\<lambda>s2.
        rbind (frame_entry_insert up kp (cur_tid s2) s2) (\<lambda>s3. Inr (True, s3))) = Inr (True, s')"
      "kmem s' = kmem ?s" "kernel_pool s' = kernel_pool ?s" "user_pool s' = user_pool ?s" "cr3 s' = cr3 ?s" "init_page_dir s' = init_page_dir ?s"
      "heap_ok s' = heap_ok ?s" "init_ram_pages s' = init_ram_pages ?s"
      "\<exists>c l f. s' = ?s\<lparr>heap_cnt := c, pagetable := l, frametable := f\<rparr> \<and> (page_entry_lookup up (cur_tid ?s) ?s \<noteq> None \<longrightarrow> l = pagetable ?s)"
      by (rule register_page [of ?s up kp w]) (use h fr(1) in auto)
    have us: "used_pages s' = used_pages ?s" "palloc_wf s'" using s'(3,4) l(4) by (simp_all add: used_pages_def palloc_wf_def kset_def)
    note t = set_pte_translation [OF l(3) up(2) l(6), of _ e]
    have wfs: "pd_wf s' pd" using pd_wf_cong [OF s'(2) _ t(1)] us(1) up(2) by blast
    have "pagedir_get_page pd va s' = (if pg_no va = pg_no up then Inr (kp + pg_ofs va) else pagedir_get_page pd va s)"
      if v: "is_user_vaddr va" for va
      using pagedir_get_page_cong [OF s'(2) _ t(1) [OF v] v] us(1) t(2) [OF v] l(7) [OF v] e(2,3) by (simp add: pte_decode_def)
    moreover have "pagedir_set_page sw pd up kp w s = Inr (True, s')"
      using s'(1) by (simp add: pre l(1) a0 z e(1) fr(5))
    moreover have "kmem s' x = kmem s x" if "unat (pg_no x) \<in> used_pages s" "pg_no x \<notin> tables s pd" for x
      using l(10) [OF that] kset_other_page [OF pte_slot_facts(1) [OF l(3) up(2) l(6)], of x e s1] s'(2) by simp
    moreover have "\<exists>c l f m k. s' = s\<lparr>heap_cnt := c, pagetable := l, frametable := f, kmem := m, kernel_pool := k\<rparr> \<and>
        (page_entry_lookup up (cur_tid s) s \<noteq> None \<longrightarrow> l = pagetable s)"
    proof -
      obtain c l' f where q: "s' = ?s\<lparr>heap_cnt := c, pagetable := l', frametable := f\<rparr>"
          "page_entry_lookup up (cur_tid ?s) ?s \<noteq> None \<longrightarrow> l' = pagetable ?s"
        using s'(9) by blast
      have "page_entry_lookup up (cur_tid ?s) ?s = page_entry_lookup up (cur_tid s) s" "pagetable ?s = pagetable s"
        using l(2) by (auto simp: page_entry_lookup_def page_entry_list_lookup_def kset_def set_pool_def user_slot)
      moreover have "s' = s\<lparr>heap_cnt := c, pagetable := l', frametable := f, kmem := kmem ?s, kernel_pool := kernel_pool ?s\<rparr>"
        using l(2) by (auto simp: q(1) kset_def set_pool_def user_slot)
      ultimately show ?thesis using q(2) by metis
    qed
    ultimately show ?thesis using wfs us(2) fr s'(5-8) by (intro exI [of _ True] exI [of _ s']) simp
  qed
qed

lemma pagedir_set_page_present:
  assumes "pd_wf s pd" "pg_ofs up = 0" "is_user_vaddr up" "pg_ofs kp = 0" "page_present s pd up"
  shows "pagedir_set_page sw pd up kp w s = Inl Assertion"
proof -
  obtain a where a: "pte_slot s pd up = Some a" "kword s a AND PTE_P \<noteq> 0"
    using assms(5) by (auto simp: page_present_def split: option.splits)
  then show ?thesis
    using assms lookup_page_find [OF assms(1,3), of True sw] pte_slot_facts(3) [OF assms(1,3) a(1)]
    by (simp add: pagedir_set_page_def vtop_def kassert_def)
qed

lemma invalidate_pagedir_ok:
  assumes "cr3 s < PHYS_BASE" "is_kernel_vaddr pd"
  shows "invalidate_pagedir pd s = Inr s \<or> invalidate_pagedir pd s = Inr (s\<lparr>cr3 := pd - PHYS_BASE\<rparr>) \<and> cr3 s + PHYS_BASE = pd"
  using assms by (auto simp: invalidate_pagedir_def active_pd_def pagedir_activate_def ptov_def vtop_def is_kernel_vaddr_def PHYS_BASE_def)

lemma pagedir_clear_page_spec:
  fixes s :: vm
  assumes wf: "pd_wf s pd" and up: "pg_ofs up = 0" "is_user_vaddr up" and cr: "cr3 s < PHYS_BASE"
  shows "\<exists>s'. pagedir_clear_page pd up s = Inr s' \<and> pd_wf s' pd \<and> used_pages s' = used_pages s \<and> \<not> page_present s' pd up \<and> cr3 s' = cr3 s \<and>
     (\<forall>va. is_user_vaddr va \<longrightarrow> pagedir_get_page pd va s' = (if pg_no va = pg_no up then Inr 0 else pagedir_get_page pd va s)) \<and>
     (\<exists>m. s' = s\<lparr>kmem := m\<rparr>) \<and> tables s' pd = tables s pd \<and> (\<forall>x. pg_no x \<notin> tables s pd \<longrightarrow> kmem s' x = kmem s x) \<and>
     (\<forall>va. is_user_vaddr va \<longrightarrow> pte_slot s' pd va = pte_slot s pd va)"
proof (cases "page_present s pd up")
  case False
  have "page_present s pd va = page_present s pd up" if "pg_no va = pg_no up" for va
    using same_page_slot [OF that, of s pd] by (simp add: page_present_def)
  then have "pg_no va = pg_no up \<Longrightarrow> is_user_vaddr va \<Longrightarrow> pagedir_get_page pd va s = Inr 0" for va
    using page_absent_get [OF wf, of va] False by simp
  moreover have "pagedir_clear_page pd up s = Inr s"
    using False up lookup_page_find [OF wf up(2), of False no_swap]
    by (auto simp: pagedir_clear_page_def page_present_def split: option.splits)
  ultimately show ?thesis using wf False by (intro exI [of _ s]) (auto intro: exI [of _ "kmem s"])
next
  case True
  then obtain a where a: "pte_slot s pd up = Some a" "kword s a AND PTE_P \<noteq> 0" by (auto simp: page_present_def split: option.splits)
  let ?e = "kword s a AND NOT PTE_P" let ?s = "kset a ?e s"
  have z: "?e AND PTE_P = 0" by (simp add: and.assoc)
  have k: "is_kernel_vaddr pd" using wf by (simp add: pd_wf_def table_page_def)
  have "invalidate_pagedir pd ?s = Inr ?s"
    using invalidate_pagedir_ok [OF _ k, of ?s] cr by (auto simp: kset_def)
  then have c: "pagedir_clear_page pd up s = Inr ?s"
    using a up lookup_page_find [OF wf up(2), of False no_swap] pte_slot_facts(3) [OF wf up(2) a(1)]
    by (simp add: pagedir_clear_page_def)
  note t = set_pte_translation [OF wf up(2) a(1), of _ ?e]
  note f = pte_slot_facts [OF wf up(2) a(1)]
  have "\<not> page_present ?s pd up"
    using pd_wf_kset(2) [OF wf f(1,4) up(2)] a(1) z by (simp add: page_present_def)
  moreover have "tables ?s pd = tables s pd" 
    using pde_at_other_page [OF _ _ f(1,4)] wf by (simp add: tables_def pd_wf_def table_page_def cong: image_cong_simp conj_cong)
  moreover have "kmem ?s x = kmem s x" if "pg_no x \<notin> tables s pd" for x
    by (rule kset_other_page [OF f(1)]) (use pte_slot_tables [OF wf up(2) a(1)] that in auto)
  moreover have "?s = s\<lparr>kmem := kmem ?s\<rparr>" "used_pages ?s = used_pages s" "cr3 ?s = cr3 s" by (simp_all add: kset_def)
  moreover note pd_wf_kset(2) [OF wf f(1,4)]
  ultimately show ?thesis using c t(1) [OF up(2)] t(2) z
    by (intro exI [of _ ?s]) (auto simp: pte_decode_def simp del: fun_upd_apply intro: exI [of _ "kmem ?s"])
qed


subsection \<open>An address space is a table of pages\<close>

definition user_page :: "u32 \<Rightarrow> bool" where
  "user_page up \<longleftrightarrow> pg_ofs up = 0 \<and> is_user_vaddr up"

definition as_inv :: "u32 \<Rightarrow> vm \<Rightarrow> bool" where
  "as_inv pd s \<longleftrightarrow> pd_wf s pd \<and> palloc_wf s \<and> cr3 s < PHYS_BASE \<and> pd \<noteq> init_page_dir s \<and> (\<forall>n. heap_ok s n)"

definition as_table :: "u32 \<Rightarrow> vm \<Rightarrow> u32 \<rightharpoonup> u32" where
  "as_table pd s up = (if user_page up then (case pagedir_get_page pd up s of Inr p \<Rightarrow> if p = 0 then None else Some p | Inl _ \<Rightarrow> None) else None)"

definition as_ok :: "u32 \<Rightarrow> u32 \<Rightarrow> bool" where
  "as_ok up kp \<longleftrightarrow> user_page up \<and> pg_ofs kp = 0 \<and> is_kernel_vaddr kp"

definition as_map :: "u32 \<Rightarrow> u32 \<Rightarrow> u32 \<Rightarrow> vm \<Rightarrow> vm option" where
  "as_map pd up kp s = (case pagedir_set_page page_swap_to_disk pd up kp True s of Inr (True, s') \<Rightarrow> Some s' | _ \<Rightarrow> None)"

definition as_unmap :: "u32 \<Rightarrow> u32 \<Rightarrow> vm \<Rightarrow> vm option" where
  "as_unmap pd up s = (if as_table pd s up = None then None
     else case pagedir_clear_page pd up s of Inr s' \<Rightarrow> Some s' | Inl _ \<Rightarrow> None)"

lemma user_pages_eq: "user_page a \<Longrightarrow> user_page b \<Longrightarrow> pg_no a = pg_no b \<longleftrightarrow> a = b"
  using aligned_page_eq by (auto simp: user_page_def)

lemma pagedir_set_page_guards:
  assumes "pagedir_set_page sw pd up kp w s = Inr r"
  shows "unat (drop_bit PGBITS (kp - PHYS_BASE)) < init_ram_pages s"
  using assms by (auto simp: pagedir_set_page_def vtop_def kassert_eq_Inr rbind_eq_Inr)

lemma as_map_law:
  assumes "as_inv pd s" "as_ok up kp" "as_map pd up kp s = Some s'"
  shows "as_table pd s up = None \<and> as_inv pd s' \<and> as_table pd s' = (as_table pd s)(up \<mapsto> kp)"
proof -
  have i: "pd_wf s pd" "palloc_wf s" "cr3 s < PHYS_BASE" "pd \<noteq> init_page_dir s" "\<And>n. heap_ok s n" using assms(1) by (auto simp: as_inv_def)
  have k: "user_page up" "pg_ofs up = 0" "is_user_vaddr up" "pg_ofs kp = 0" "is_kernel_vaddr kp" "kp \<noteq> 0"
    using assms(2) by (auto simp: as_ok_def user_page_def is_kernel_vaddr_def PHYS_BASE_def)
  have m: "pagedir_set_page page_swap_to_disk pd up kp True s = Inr (True, s')"
    using assms(3) by (auto simp: as_map_def split: sum.splits prod.splits bool.splits)
  have ab: "\<not> page_present s pd up" using pagedir_set_page_present [OF i(1) k(2-4), of page_swap_to_disk True] m by auto
  note sp = pagedir_set_page_spec [OF i(1,2) k(2-5) pagedir_set_page_guards [OF m] i(4) ab i(5), of page_swap_to_disk True]
  have as: "pd_wf s' pd" "palloc_wf s'" "cr3 s' = cr3 s" "init_page_dir s' = init_page_dir s" "heap_ok s' = heap_ok s"
    "\<And>va. is_user_vaddr va \<Longrightarrow> pagedir_get_page pd va s' = (if pg_no va = pg_no up then Inr (kp + pg_ofs va) else pagedir_get_page pd va s)"
    using sp m by auto
  have "as_table pd s' va = ((as_table pd s)(up \<mapsto> kp)) va" for va
    using as(6) [of va] k user_pages_eq [of va up] by (auto simp: as_table_def user_page_def split: sum.splits)
  then show ?thesis
    using page_absent_get [OF i(1) k(3) ab] as(1-5) i by (auto simp: as_inv_def as_table_def fun_eq_iff)
qed

lemma as_unmap_law:
  assumes "as_inv pd s"
  shows "as_unmap pd up s = None \<longleftrightarrow> as_table pd s up = None"
    and "as_unmap pd up s = Some s' \<Longrightarrow> as_inv pd s' \<and> as_table pd s' = (as_table pd s)(up := None)"
proof -
  have "\<exists>s1. as_unmap pd up s = Some s1 \<and> as_inv pd s1 \<and> as_table pd s1 = (as_table pd s)(up := None)" if n: "as_table pd s up \<noteq> None"
  proof -
    have u: "user_page up" "pg_ofs up = 0" "is_user_vaddr up" using n by (auto simp: as_table_def user_page_def split: if_splits)
    obtain s1 m where c: "pagedir_clear_page pd up s = Inr s1" "pd_wf s1 pd" "s1 = s\<lparr>kmem := m\<rparr>"
      "\<And>va. is_user_vaddr va \<Longrightarrow> pagedir_get_page pd va s1 = (if pg_no va = pg_no up then Inr 0 else pagedir_get_page pd va s)"
      using pagedir_clear_page_spec [of s pd up] assms u(2,3) by (auto simp: as_inv_def)
    have "as_table pd s1 va = ((as_table pd s)(up := None)) va" for va
      using c(4) [of va] u user_pages_eq [of va up] by (auto simp: as_table_def user_page_def split: sum.splits)
    moreover have "as_inv pd s1" using assms c(2,3) by (simp add: as_inv_def)
    ultimately show ?thesis using n c(1) by (auto simp: as_unmap_def fun_eq_iff)
  qed
  then show "as_unmap pd up s = None \<longleftrightarrow> as_table pd s up = None"
    "as_unmap pd up s = Some s' \<Longrightarrow> as_inv pd s' \<and> as_table pd s' = (as_table pd s)(up := None)"
    by (auto simp: as_unmap_def split: if_splits)
qed

interpretation address_space: name_table "as_inv pd" "as_table pd" as_ok "as_map pd" "as_unmap pd"
  by unfold_locales (use as_map_law as_unmap_law in blast)+

end
