(* ===== verification/Eviction.thy ===== *)
theory Eviction imports Address_Space begin

unbundle bit_operations_syntax

text \<open>
  Pages that leave memory and come back: \<^verbatim>\<open>page_swap_to_disk\<close> (vm/pagetable.c) writes the frame of its
  victim to the swap disk and unmaps it; \<^verbatim>\<open>page_fault\<close> (userprog/exception.c) reads a page back into a
  new frame and maps it there. Both are specified by the queue of contents that the swap table
  holds for each process and frame (\<open>swapq\<close>) and by the owner's table of pages (\<open>as_table\<close>).
\<close>

lemma vm_more:
  fixes s s' :: vm
  assumes "swapper.more s' = swapper.more s"
  shows "frametable s' = frametable s" "pagetable s' = pagetable s" "page_lock s' = page_lock s"
    "exception_lock s' = exception_lock s" "pagedirs s' = pagedirs s" "cur_tid s' = cur_tid s" "init_page_dir s' = init_page_dir s"
    "init_ram_pages s' = init_ram_pages s" "cr3 s' = cr3 s"
  by (cases s; cases s'; use assms in simp)+

lemma used_pages_cong: "kernel_pool s' = kernel_pool s \<Longrightarrow> user_pool s' = user_pool s \<Longrightarrow>
   used_pages s' = used_pages s \<and> palloc_wf s' = palloc_wf s"
  by (simp add: used_pages_def palloc_wf_def)

subsection \<open>Entries of the supplemental page table\<close>

lemma entries_lookup: "page_entry_lookup up t s = List.find (\<lambda>pe. pe_upage pe = up) (entries_for (pagetable s) t)"
  by (simp add: page_entry_lookup_def page_entry_list_lookup_def entries_for_def split: option.split)

lemma find_upd_first:
  assumes "\<And>x. pe_upage (f x) = pe_upage x"
  shows "List.find (\<lambda>pe. pe_upage pe = u) (upd_first (\<lambda>pe. pe_upage pe = up) f l) =
     (if u = up then map_option f (List.find (\<lambda>pe. pe_upage pe = u) l) else List.find (\<lambda>pe. pe_upage pe = u) l)"
  by (induction l) (auto simp: assms)

lemma lookup_upd_page_entry:
  assumes "\<And>x. pe_upage (f x) = pe_upage x"
  shows "page_entry_lookup u t (upd_page_entry up o' f s) =
     (if t = o' \<and> u = up then map_option f (page_entry_lookup u t s) else page_entry_lookup u t s)"
proof -
  have "entries_for (upd_first (\<lambda>pel. fst pel = o') (\<lambda>pel. (fst pel, upd_first (\<lambda>pe. pe_upage pe = up) f (snd pel))) tbl) t =
      (if t = o' then upd_first (\<lambda>pe. pe_upage pe = up) f (entries_for tbl t) else entries_for tbl t)" for tbl
    by (induction tbl) auto
  then show ?thesis by (simp add: entries_lookup upd_page_entry_def find_upd_first [OF assms])
qed

lemma upd_page_entry_sel [simp]:
  "kmem (upd_page_entry u t f s) = kmem s" "frametable (upd_page_entry u t f s) = frametable s"
  "swapq (upd_page_entry u t f s) = swapq s" "swap_wf (upd_page_entry u t f s) = swap_wf s"
  "swap_lock (upd_page_entry u t f s) = swap_lock s" "swap_disk_size (upd_page_entry u t f s) = swap_disk_size s"
  "empty_block_sector (upd_page_entry u t f s) = empty_block_sector s" "heap_ok (upd_page_entry u t f s) = heap_ok s"
  "kernel_pool (upd_page_entry u t f s) = kernel_pool s" "user_pool (upd_page_entry u t f s) = user_pool s"
  "page_lock (upd_page_entry u t f s) = page_lock s" "cur_tid (upd_page_entry u t f s) = cur_tid s"
  "cr3 (upd_page_entry u t f s) = cr3 s" "init_page_dir (upd_page_entry u t f s) = init_page_dir s"
  "pagedirs (upd_page_entry u t f s) = pagedirs s" "init_ram_pages (upd_page_entry u t f s) = init_ram_pages s"
  "exception_lock (upd_page_entry u t f s) = exception_lock s" "swap_table (upd_page_entry u t f s) = swap_table s"
  "swap_disk (upd_page_entry u t f s) = swap_disk s"
  by (simp_all add: upd_page_entry_def swapq_def swap_wf_def swap_entries_def fun_eq_iff)

lemma swap_cong:
  assumes "swap_table s' = swap_table s" "swap_disk s' = swap_disk s" "swap_disk_size s' = swap_disk_size s"
    "empty_block_sector s' = empty_block_sector s"
  shows "swap_wf s' = swap_wf s" "swapq s' = swapq s"
  using assms by (simp_all add: swap_wf_def swap_entries_def swapq_def fun_eq_iff)

subsection \<open>Eviction\<close>

text \<open>The first frame of the table can be evicted: its page is in memory, in that frame, which is
  no page table of the owner.\<close>

definition evictable :: "vm \<Rightarrow> frame_entry \<Rightarrow> u32 \<Rightarrow> page_entry \<Rightarrow> bool" where
  "evictable s f pd pe \<longleftrightarrow> frametable s \<noteq> [] \<and> hd (frametable s) = f \<and> pagedirs s (fe_owner f) = Some pd \<and>
     page_entry_lookup (fe_upage f) (fe_owner f) s = Some pe \<and> \<not> pe_swapped pe \<and> pe_kpage pe = fe_kpage f \<and> pe_owner pe = fe_owner f \<and>
     user_page (fe_upage f) \<and> pg_ofs (fe_kpage f) = 0 \<and> fe_kpage f \<noteq> 0 \<and> pg_no (fe_kpage f) \<notin> tables s pd"

definition swap_ready :: "vm \<Rightarrow> bool" where
  "swap_ready s \<longleftrightarrow> swap_wf s \<and> \<not> swap_lock s \<and> (\<exists>i < swap_disk_size s. empty_block_sector s ! i)"

lemma kread_page_cong:
  assumes "pg_ofs p = 0" "\<And>x. pg_no x = pg_no p \<Longrightarrow> m x = m' x"
  shows "kread p 4096 m = kread p 4096 m'"
  unfolding kread_def
proof (rule map_cong [OF refl])
  fix i assume i: "i \<in> set [0..<4096]"
  obtain q where q: "q < 1048576" "unat p = 4096 * q" using aligned_page [OF assms(1)] by blast
  have "unat (p + of_nat i - p) < 4096" using i by (simp add: unat_of_nat_u32)
  then show "m (p + of_nat i) = m' (p + of_nat i)" using same_page_iff [OF assms(1)] assms(2) by blast
qed

lemma kread_kmemset: "kread p 4096 (kmemset p 0 4096 m) = replicate 4096 0"
  by (rule nth_equalityI) (simp_all add: kread_def kmemset_def unat_of_nat_u32)

lemma as_frame:
  assumes "as_inv pd s" "\<And>x. pg_no x \<in> tables s pd \<Longrightarrow> kmem s' x = kmem s x"
    "kernel_pool s' = kernel_pool s" "user_pool s' = user_pool s" "cr3 s' = cr3 s" "init_page_dir s' = init_page_dir s" "heap_ok s' = heap_ok s"
  shows "as_inv pd s'" "as_table pd s' = as_table pd s" "tables s' pd = tables s pd"
proof -
  have wf: "pd_wf s pd" using assms(1) by (simp add: as_inv_def)
  have u: "used_pages s' = used_pages s" "palloc_wf s' = palloc_wf s" using used_pages_cong [OF assms(3,4)] by auto
  note t = tables_frame [OF wf assms(2)]
  show "as_inv pd s'" using assms(1,5-7) t(1) u by (simp add: as_inv_def)
  show "tables s' pd = tables s pd" by (rule t(2)) (use u in auto)
  show "as_table pd s' = as_table pd s" using t(4) u by (auto simp: as_table_def user_page_def fun_eq_iff)
qed

lemma page_swap_to_disk_spec:
  assumes ev: "evictable s f pd pe" and as: "as_inv pd s" and sw: "swap_ready s" "\<not> page_lock s"
  shows "\<exists>s'. page_swap_to_disk s = Inr (fe_kpage f, s') \<and> as_inv pd s' \<and> swap_wf s' \<and> \<not> swap_lock s' \<and> \<not> page_lock s' \<and>
     swapq s' = (\<lambda>t k. if t = fe_owner f \<and> k = fe_kpage f then swapq s t k @ [kread k 4096 (kmem s)] else swapq s t k) \<and>
     as_table pd s' = (as_table pd s)(fe_upage f := None) \<and>
     frametable s' = tl (frametable s) \<and>
     page_entry_lookup (fe_upage f) (fe_owner f) s' = Some (pe\<lparr>pe_swapped := True\<rparr>) \<and>
     kread (fe_kpage f) 4096 (kmem s') = replicate 4096 0 \<and>
     \<not> page_present s' pd (fe_upage f) \<and> (\<forall>va. is_user_vaddr va \<longrightarrow> pte_slot s' pd va = pte_slot s pd va) \<and>
     used_pages s' = used_pages s \<and> user_pool s' = user_pool s \<and> cur_tid s' = cur_tid s \<and> pagedirs s' = pagedirs s \<and>
     exception_lock s' = exception_lock s \<and> init_ram_pages s' = init_ram_pages s"
proof -
  let ?t = "fe_owner f" and ?k = "fe_kpage f" and ?u = "fe_upage f"
  obtain fs where e: "frametable s = f # fs" "pagedirs s ?t = Some pd" "page_entry_lookup ?u ?t s = Some pe" "\<not> pe_swapped pe"
      "pe_kpage pe = ?k" "pe_owner pe = ?t" "user_page ?u" "pg_ofs ?k = 0" "?k \<noteq> 0" "pg_no ?k \<notin> tables s pd"
    using ev unfolding evictable_def by (cases "frametable s") auto
  have pu: "pe_upage pe = ?u" using e(3) by (auto simp: entries_lookup find_Some_iff)
  let ?s1 = "s\<lparr>page_lock := True, frametable := fs\<rparr>"
  have a1: "as_inv pd ?s1" "as_table pd ?s1 = as_table pd s" "tables ?s1 pd = tables s pd"
    by (rule as_frame [OF as]; simp)+
  have p1: "page_entry_lookup ?u ?t ?s1 = Some pe" using e(3) by (simp add: entries_lookup)
  obtain s2 m where c: "pagedir_clear_page pd ?u ?s1 = Inr s2" "pd_wf s2 pd" "s2 = ?s1\<lparr>kmem := m\<rparr>"
      "\<And>va. is_user_vaddr va \<Longrightarrow> pagedir_get_page pd va s2 = (if pg_no va = pg_no ?u then Inr 0 else pagedir_get_page pd va ?s1)"
      "tables s2 pd = tables ?s1 pd" "\<And>x. pg_no x \<notin> tables ?s1 pd \<Longrightarrow> kmem s2 x = kmem ?s1 x"
      "\<not> page_present s2 pd ?u" "\<And>va. is_user_vaddr va \<Longrightarrow> pte_slot s2 pd va = pte_slot ?s1 pd va"
    using pagedir_clear_page_spec [of ?s1 pd ?u] a1(1) e(7) unfolding as_inv_def user_page_def by blast
  let ?s2 = "flap_swapped_flag ?u ?t s2"
  have a2: "as_inv pd s2" using a1(1) c(2,3) by (simp add: as_inv_def)
  have t2: "as_table pd s2 = (as_table pd s)(?u := None)"
    using c(4) user_pages_eq [OF _ e(7)] e(7) unfolding a1(2) [symmetric]
    by (auto simp: as_table_def user_page_def fun_eq_iff split: sum.splits)
  have "swap_wf ?s2 = swap_wf s" and q2: "swapq ?s2 = swapq s"
    by (rule swap_cong; simp add: flap_swapped_flag_def c(3))+
  then have r2: "swap_wf ?s2" "\<not> swap_lock ?s2" "\<exists>i < swap_disk_size ?s2. empty_block_sector ?s2 ! i" "\<forall>n. heap_ok ?s2 n"
    using sw(1) a2 unfolding swap_ready_def by (simp_all add: flap_swapped_flag_def c(3) as_inv_def)
  obtain s3 where w: "swap_frame_to_disk ?k ?t ?s2 = Inr s3" "swap_wf s3" "\<not> swap_lock s3"
      "swapq s3 = (\<lambda>t' k'. if t' = ?t \<and> k' = ?k then swapq ?s2 ?t ?k @ [kread ?k 4096 (kmem ?s2)] else swapq ?s2 t' k')"
      "kmem s3 = kmem ?s2" "heap_ok s3 = heap_ok ?s2" "kernel_pool s3 = kernel_pool ?s2" "user_pool s3 = user_pool ?s2" "swapper.more s3 = swapper.more ?s2"
    using swap_frame_to_disk_spec [OF r2(1-4), of ?k ?t] by blast
  note mr = vm_more [OF w(9)]
  let ?s4 = "s3\<lparr>kmem := kmemset ?k 0 PGSIZE (kmem s3), page_lock := False\<rparr>"
  have kr: "kread ?k 4096 (kmem ?s2) = kread ?k 4096 (kmem s)"
    by (rule kread_page_cong [OF e(8)]) (use c(6) e(10) a1(3) in \<open>simp add: flap_swapped_flag_def\<close>)
  have res: "page_swap_to_disk s = Inr (?k, ?s4)"
    using sw(2) e(1,2,4,5,6,9) p1 c(1) w(1) pu by (simp add: page_swap_to_disk_def find_swap_victim_def Let_def)
  have km: "kmem ?s4 x = kmem s2 x" if "pg_no x \<in> tables s2 pd" for x
    using that e(10) same_page_iff [OF e(8), of x] a1(3) c(5) w(5) by (auto simp: kmemset_def PGSIZE_def flap_swapped_flag_def)
  have a4: "as_inv pd ?s4" "as_table pd ?s4 = as_table pd s2"
    by (rule as_frame [OF a2 km]; simp add: w(6-8) mr flap_swapped_flag_def)+
  have u4: "used_pages s2 \<subseteq> used_pages ?s4" using w(7,8) by (simp add: used_pages_def flap_swapped_flag_def)
  have p4: "is_user_vaddr va \<Longrightarrow> page_present ?s4 pd va = page_present s2 pd va" "is_user_vaddr va \<Longrightarrow> pte_slot ?s4 pd va = pte_slot s2 pd va" for va
    by (rule tables_frame [OF c(2)]; use km u4 in simp)+
  have t1: "is_user_vaddr va \<Longrightarrow> pte_slot ?s1 pd va = pte_slot s pd va" for va
    by (simp add: pte_slot_def pde_at_def kword_def)
  have q4: "swap_wf ?s4 = swap_wf s3" "swapq ?s4 = swapq s3" by (rule swap_cong; simp)+
  have l4: "page_entry_lookup ?u ?t ?s4 = Some (pe\<lparr>pe_swapped := True\<rparr>)"
  proof -
    have "page_entry_lookup ?u ?t ?s4 = page_entry_lookup ?u ?t ?s2" by (simp add: entries_lookup mr(2))
    also have "\<dots> = Some (pe\<lparr>pe_swapped := True\<rparr>)"
      using p1 e(4) by (simp add: flap_swapped_flag_def lookup_upd_page_entry c(3)) (simp add: entries_lookup)
    finally show ?thesis .
  qed
  have f4: "frametable ?s4 = fs" using mr(1) by (simp add: flap_swapped_flag_def c(3))
  have z4: "kread ?k 4096 (kmem ?s4) = replicate 4096 0" using kread_kmemset by (simp add: PGSIZE_def)
  have "swapq ?s4 = (\<lambda>t k. if t = ?t \<and> k = ?k then swapq s t k @ [kread k 4096 (kmem s)] else swapq s t k)"
    using q4(2) w(4) q2 kr by (simp add: fun_eq_iff)
  moreover have "\<not> page_present ?s4 pd ?u" "\<And>va. is_user_vaddr va \<Longrightarrow> pte_slot ?s4 pd va = pte_slot s pd va"
    using p4 c(7,8) e(7) t1 by (simp_all add: user_page_def)
  moreover have "used_pages ?s4 = used_pages s" using w(7,8) by (simp add: used_pages_def flap_swapped_flag_def c(3))
  moreover have "user_pool ?s4 = user_pool s" "cur_tid ?s4 = cur_tid s" "pagedirs ?s4 = pagedirs s" "exception_lock ?s4 = exception_lock s" "init_ram_pages ?s4 = init_ram_pages s"
    using w(7,8) mr by (simp_all add: flap_swapped_flag_def c(3))
  ultimately show ?thesis using res a4 t2 q4(1) w(2,3) l4 f4 z4 e(1) by (intro exI [of _ ?s4]) simp
qed


subsection \<open>Page faults\<close>

lemma user_flags: "PAL_USER AND PAL_USER \<noteq> 0" "PAL_USER AND PAL_ZERO = 0" "PAL_USER AND PAL_ASSERT = 0"
  by (simp_all add: PAL_ZERO_def PAL_USER_def PAL_ASSERT_def)

lemma palloc_found_any:
  assumes "palloc_get_multiple (\<lambda>s. Inr (0, s)) flags n s = Inr (a, s1)" "a \<noteq> 0" "0 < n"
  shows "palloc_get_multiple sw flags n s = Inr (a, s1)"
  using assms(1,2) unfolding palloc_get_multiple_alt [OF assms(3)]
  by (cases "bitmap_scan_and_flip (used_map (the_pool flags s)) 0 n False") (auto simp: Let_def split: if_splits)

lemma palloc_user_page:
  fixes s :: vm
  assumes "palloc_wf s" "free_run (bm_abs (used_map (user_pool s))) False 1 j"
  obtains p um where "palloc_get_page sw PAL_USER s = Inr (p, s\<lparr>user_pool := (user_pool s)\<lparr>used_map := um\<rparr>\<rparr>)" "p \<noteq> 0"
      "palloc_wf (s\<lparr>user_pool := (user_pool s)\<lparr>used_map := um\<rparr>\<rparr>)" "pg_ofs p = 0" "is_kernel_vaddr p" "unat (pg_no p) \<notin> used_pages s"
      "used_pages (s\<lparr>user_pool := (user_pool s)\<lparr>used_map := um\<rparr>\<rparr>) = insert (unat (pg_no p)) (used_pages s)"
      "unat p < pool_end (user_pool s)"
proof (rule palloc_get_multiple_cases [OF assms(1), of 1 "\<lambda>s. Inr (0, s)" PAL_USER])
  fix k um
  assume h: "palloc_get_multiple (\<lambda>s. Inr (0, s)) PAL_USER 1 s =
      Inr (page_at (the_pool PAL_USER s) k,
           if PAL_USER AND PAL_ZERO \<noteq> 0
           then (set_pool PAL_USER um s)\<lparr>kmem := kmemset (page_at (the_pool PAL_USER s) k) 0 (PGSIZE * 1) (kmem s)\<rparr>
           else set_pool PAL_USER um s)"
    "k + 1 \<le> bit_cnt (used_map (the_pool PAL_USER s))"
    "free_run (bm_abs (used_map (the_pool PAL_USER s))) False 1 k"
  let ?t = "page_at (the_pool PAL_USER s) k" and ?s = "s\<lparr>user_pool := (user_pool s)\<lparr>used_map := um\<rparr>\<rparr>"
  have pool: "the_pool PAL_USER s = user_pool s" using user_flags by (simp add: the_pool_def)
  have g: "palloc_get_multiple (\<lambda>s. Inr (0, s)) PAL_USER 1 s = Inr (?t, ?s)" using h(1) user_flags by (simp add: set_pool_def)
  note pf = page_at_facts [OF the_pool_wf [OF assms(1)], of k PAL_USER]
  have t0: "?t \<noteq> 0" "is_kernel_vaddr ?t" using pf h(2) by (auto simp: is_kernel_vaddr_def)
  have "unat ?t = unat (base (user_pool s)) + 4096 * k"
    using unat_page_at [OF the_pool_wf [OF assms(1)], of k PAL_USER] h(2) by (simp add: pool)
  then have pe: "unat ?t < pool_end (user_pool s)" using h(2) pool by (simp add: pool_end_def PGSIZE_def)
  note fr = palloc_get_fresh [OF assms(1) _ g refl t0(1)]
  show thesis by (rule that [of ?t um]) (use palloc_found_any [OF g t0(1)] t0 fr pe in \<open>auto simp: palloc_get_page_def extent_def\<close>)
qed (use assms(2) user_flags in \<open>auto simp: the_pool_def\<close>)

lemma round_down_page:
  "pg_ofs (va AND 0xfffff000) = 0" "pg_no (va AND 0xfffff000) = pg_no va" "is_user_vaddr va \<Longrightarrow> is_user_vaddr (va AND 0xfffff000)"
proof -
  have n: "(0xfffff000 :: u32) = - 4096" by simp
  have r: "va AND 0xfffff000 = pg_round_down va" unfolding n by (simp add: pg_round_down_def PGMASK_mask mask_eq_exp_minus_1)
  have u: "unat (pg_round_down va) = 4096 * (unat va div 4096)" using unat_pg_round_down [of va] by simp
  show "pg_ofs (va AND 0xfffff000) = 0" by (rule unat_inj) (simp add: r unat_pg_ofs u)
  show "pg_no (va AND 0xfffff000) = pg_no va" by (rule unat_inj) (simp add: r unat_pg_no u)
  show "is_user_vaddr va \<Longrightarrow> is_user_vaddr (va AND 0xfffff000)"
    using div_times_less_eq_dividend [of "unat va" 4096] unfolding is_user_vaddr_def word_less_nat_alt r u by linarith
qed

lemma tables_used: "pd_wf s pd \<Longrightarrow> pg_no x \<in> tables s pd \<Longrightarrow> unat (pg_no x) \<in> used_pages s"
  by (auto simp: tables_def pd_wf_def table_page_def)

lemma frame_number:
  assumes "is_kernel_vaddr p"
  shows "unat (drop_bit 12 (p - PHYS_BASE)) = (unat p - unat PHYS_BASE) div 4096"
  using assms by (simp add: is_kernel_vaddr_def unat_sub drop_bit_eq_div unat_div)

lemma frame_in_ram:
  assumes "is_kernel_vaddr p" "unat p < unat PHYS_BASE + 4096 * n"
  shows "unat (drop_bit PGBITS (p - PHYS_BASE)) < n"
proof -
  have "unat PHYS_BASE \<le> unat p" using assms(1) by (simp add: is_kernel_vaddr_def word_le_nat_alt)
  then have "unat p - unat PHYS_BASE < n * 4096" using assms(2) by linarith
  then show ?thesis using frame_number [OF assms(1)] less_mult_imp_div_less by (simp add: PGBITS_def)
qed

text \<open>The handler takes a frame and reads the page into it, ...\<close>

lemma swap_in_page:
  fixes s :: vm
  assumes as: "as_inv pd s" and sw: "swap_wf s" "\<not> swap_lock s" "swapq s t k = c # cs"
    and fr: "free_run (bm_abs (used_map (user_pool s))) False 1 j"
  obtains p s2 s3 where "palloc_get_page page_swap_to_disk PAL_USER s = Inr (p, s2)" "swap_disk_to_frame p k t s2 = Inr s3"
    "p \<noteq> 0" "pg_ofs p = 0" "is_kernel_vaddr p" "unat (pg_no p) \<notin> used_pages s" "unat p < pool_end (user_pool s)"
    "kmem s3 = kwrite p c (kmem s)" "length c = 4096" "used_pages s3 = insert (unat (pg_no p)) (used_pages s)" "palloc_wf s3"
    "swapq s3 = (\<lambda>t' k'. if t' = t \<and> k' = k then cs else swapq s t' k')" "heap_ok s3 = heap_ok s" "swapper.more s3 = swapper.more s"
proof -
  obtain p um where p: "palloc_get_page page_swap_to_disk PAL_USER s = Inr (p, s\<lparr>user_pool := (user_pool s)\<lparr>used_map := um\<rparr>\<rparr>)" "p \<noteq> 0"
      "palloc_wf (s\<lparr>user_pool := (user_pool s)\<lparr>used_map := um\<rparr>\<rparr>)" "pg_ofs p = 0" "is_kernel_vaddr p" "unat (pg_no p) \<notin> used_pages s"
      "used_pages (s\<lparr>user_pool := (user_pool s)\<lparr>used_map := um\<rparr>\<rparr>) = insert (unat (pg_no p)) (used_pages s)" "unat p < pool_end (user_pool s)"
    by (rule palloc_user_page [of s j page_swap_to_disk]) (use as fr in \<open>auto simp: as_inv_def\<close>)
  let ?s2 = "s\<lparr>user_pool := (user_pool s)\<lparr>used_map := um\<rparr>\<rparr>"
  have "swap_wf ?s2 = swap_wf s" and q2: "swapq ?s2 = swapq s" by (rule swap_cong; simp)+
  then have pre2: "swap_wf ?s2" "\<not> swap_lock ?s2" "swapq ?s2 t k = c # cs" using sw by simp_all
  obtain s3 where w: "swap_disk_to_frame p k t ?s2 = Inr s3"
      "swapq s3 = (\<lambda>t' k'. if t' = t \<and> k' = k then cs else swapq ?s2 t' k')"
      "kmem s3 = kwrite p c (kmem ?s2)" "heap_ok s3 = heap_ok ?s2" "length c = 4096"
      "kernel_pool s3 = kernel_pool ?s2" "user_pool s3 = user_pool ?s2" "swapper.more s3 = swapper.more ?s2"
    using swap_disk_to_frame_spec [OF pre2, of p] by blast
  have u3: "used_pages s3 = insert (unat (pg_no p)) (used_pages s)" "palloc_wf s3"
    using p(3,7) used_pages_cong [OF w(6,7)] by simp_all
  show thesis
    by (rule that [OF p(1) w(1) p(2,4,5,6,8) _ w(5) u3]) (use w(2-4,8) in \<open>simp_all only: q2, simp_all\<close>)
qed

text \<open>... and maps the page there.\<close>

lemma map_loaded_page:
  fixes s :: vm
  assumes as: "as_inv pd s" and p: "pg_ofs p = 0" "is_kernel_vaddr p" "unat p < unat PHYS_BASE + 4096 * init_ram_pages s"
      "unat (pg_no p) \<in> used_pages s" "pg_no p \<notin> tables s pd"
    and up: "user_page up" "\<not> page_present s pd up" "pte_slot s pd up \<noteq> None" "page_entry_lookup up (cur_tid s) s \<noteq> None"
  obtains s4 hc f m kp where "pagedir_set_page page_swap_to_disk pd up p w s = Inr (True, s4)" "as_inv pd s4"
      "\<And>va. is_user_vaddr va \<Longrightarrow> pagedir_get_page pd va s4 = (if pg_no va = pg_no up then Inr (p + pg_ofs va) else pagedir_get_page pd va s)"
      "as_table pd s4 = (as_table pd s)(up \<mapsto> p)" "kread p 4096 (kmem s4) = kread p 4096 (kmem s)"
      "s4 = s\<lparr>heap_cnt := hc, pagetable := pagetable s, frametable := f, kmem := m, kernel_pool := kp\<rparr>"
proof -
  have i: "pd_wf s pd" "palloc_wf s" "cr3 s < PHYS_BASE" "pd \<noteq> init_page_dir s" "\<And>n. heap_ok s n" using as by (auto simp: as_inv_def)
  have u: "pg_ofs up = 0" "is_user_vaddr up" using up(1) by (auto simp: user_page_def)
  note ph = frame_in_ram [OF p(2,3)]
  obtain r s4 where q: "pagedir_set_page page_swap_to_disk pd up p w s = Inr (r, s4)" "pd_wf s4 pd" "palloc_wf s4"
      "\<And>va. is_user_vaddr va \<Longrightarrow> pagedir_get_page pd va s4 = (if r \<and> pg_no va = pg_no up then Inr (p + pg_ofs va) else pagedir_get_page pd va s)"
      "\<not> r \<longrightarrow> pte_slot s pd up = None" "cr3 s4 = cr3 s" "init_page_dir s4 = init_page_dir s" "heap_ok s4 = heap_ok s"
      "\<And>x. unat (pg_no x) \<in> used_pages s \<Longrightarrow> pg_no x \<notin> tables s pd \<Longrightarrow> kmem s4 x = kmem s x"
      "\<exists>c l f m k. s4 = s\<lparr>heap_cnt := c, pagetable := l, frametable := f, kmem := m, kernel_pool := k\<rparr> \<and>
        (page_entry_lookup up (cur_tid s) s \<noteq> None \<longrightarrow> l = pagetable s)"
    using pagedir_set_page_spec [OF i(1,2) u p(1,2) ph i(4) up(2) i(5), of page_swap_to_disk w] by blast
  have r: r using q(5) up(3) by auto
  have p0: "p \<noteq> 0" using p(2) by (auto simp: is_kernel_vaddr_def PHYS_BASE_def)
  have t4: "as_table pd s4 = (as_table pd s)(up \<mapsto> p)"
  proof
    fix v show "as_table pd s4 v = ((as_table pd s)(up \<mapsto> p)) v"
      using q(4) [of v] r p0 user_pages_eq [of v up] up(1) by (auto simp: as_table_def user_page_def)
  qed
  have k4: "kread p 4096 (kmem s4) = kread p 4096 (kmem s)"
    by (rule kread_page_cong [OF p(1)]) (use q(9) p(4,5) in auto)
  have a4: "as_inv pd s4" using i q(2,3,6-8) by (simp add: as_inv_def)
  obtain hc f m kp where "s4 = s\<lparr>heap_cnt := hc, pagetable := pagetable s, frametable := f, kmem := m, kernel_pool := kp\<rparr>"
    using q(10) up(4) by auto
  then show thesis by (intro that [of s4 kp m f hc]) (use q(1,4) r a4 t4 k4 in simp_all)
qed

lemma page_fault_spec:
  fixes s :: vm
  defines "t \<equiv> cur_tid s"
  assumes as: "as_inv pd s" "pagedirs s t = Some pd" "is_user_vaddr va" "\<not> page_present s pd va" "pte_slot s pd va \<noteq> None"
    and pe: "page_entry_lookup (va AND 0xfffff000) t s = Some pe" "pe_swapped pe" "swapq s t (pe_kpage pe) = c # cs"
    and lk: "\<not> exception_lock s" "\<not> swap_lock s" "swap_wf s"
    and fr: "free_run (bm_abs (used_map (user_pool s))) False 1 j" "pool_end (user_pool s) \<le> unat PHYS_BASE + 4096 * init_ram_pages s"
  shows "\<exists>p s'. page_fault b va s = Inr (Resumed, s') \<and> as_inv pd s' \<and> pagedir_get_page pd va s' = Inr (p + pg_ofs va) \<and>
     kread p 4096 (kmem s') = c \<and> unat (pg_no p) \<notin> used_pages s \<and> as_table pd s' = (as_table pd s)(va AND 0xfffff000 \<mapsto> p) \<and>
     swapq s' = (\<lambda>t' k'. if t' = t \<and> k' = pe_kpage pe then cs else swapq s t' k') \<and>
     page_entry_lookup (va AND 0xfffff000) t s' = Some (pe\<lparr>pe_swapped := False, pe_kpage := p\<rparr>) \<and> \<not> exception_lock s'"
proof -
  let ?up = "va AND 0xfffff000" let ?k = "pe_kpage pe"
  let ?s1 = "s\<lparr>page_fault_cnt := Suc (page_fault_cnt s), exception_lock := True\<rparr>"
  have up: "pg_ofs ?up = 0" "pg_no ?up = pg_no va" "is_user_vaddr ?up" "user_page ?up"
    using round_down_page as(3) by (auto simp: user_page_def)
  have nk: "\<not> is_kernel_vaddr va" using as(3) by (simp add: is_user_vaddr_def is_kernel_vaddr_def)
  have a1: "as_inv pd ?s1" "as_table pd ?s1 = as_table pd s" "tables ?s1 pd = tables s pd" by (rule as_frame [OF as(1)]; simp)+
  have wf: "pd_wf s pd" using as(1) by (simp add: as_inv_def)
  have us1: "used_pages ?s1 = used_pages s" by (simp add: used_pages_def)
  have g0: "pagedir_get_page pd va ?s1 = Inr 0"
    using page_absent_get [OF wf as(3,4)] tables_frame(4) [OF wf _ _ as(3), of ?s1] us1 by simp
  have "swap_wf ?s1 = swap_wf s" and q1: "swapq ?s1 = swapq s" by (rule swap_cong; simp)+
  then have "swap_wf ?s1" "\<not> swap_lock ?s1" "swapq ?s1 t ?k = c # cs" "free_run (bm_abs (used_map (user_pool ?s1))) False 1 j"
    using lk(2,3) pe(3) fr(1) by simp_all
  then obtain p s2 s3 where w: "palloc_get_page page_swap_to_disk PAL_USER ?s1 = Inr (p, s2)" "swap_disk_to_frame p ?k t s2 = Inr s3"
      "p \<noteq> 0" "pg_ofs p = 0" "is_kernel_vaddr p" "unat (pg_no p) \<notin> used_pages ?s1" "unat p < pool_end (user_pool ?s1)"
      "kmem s3 = kwrite p c (kmem ?s1)" "length c = 4096" "used_pages s3 = insert (unat (pg_no p)) (used_pages ?s1)" "palloc_wf s3"
      "swapq s3 = (\<lambda>t' k'. if t' = t \<and> k' = ?k then cs else swapq ?s1 t' k')" "heap_ok s3 = heap_ok ?s1" "swapper.more s3 = swapper.more ?s1"
    by (rule swap_in_page [OF a1(1)])
  note mr = vm_more [OF w(14)]
  let ?s3 = "flap_swapped_flag ?up t s3"
  have nt: "pg_no p \<notin> tables s pd" using tables_used [OF wf] w(6) us1 by auto
  have t3: "pd_wf ?s3 pd" "tables ?s3 pd = tables s pd" "pte_slot ?s3 pd ?up = pte_slot s pd ?up"
      "page_present ?s3 pd ?up = page_present s pd ?up" "\<And>v. is_user_vaddr v \<Longrightarrow> pagedir_get_page pd v ?s3 = pagedir_get_page pd v s"
    by (rule tables_frame [OF wf];
        use nt same_page_iff [OF w(4)] up(3) w(8-10) us1 used_pages_cong [of ?s3 s3] in \<open>auto simp: flap_swapped_flag_def kwrite_def\<close>)+
  have a3: "as_inv pd ?s3" "as_table pd ?s3 = as_table pd s"
    using t3 as(1) used_pages_cong [of ?s3 s3] w(11,13)
    by (auto simp: as_inv_def flap_swapped_flag_def mr as_table_def user_page_def fun_eq_iff)
  have "page_entry_lookup ?up t s3 = Some pe" using pe(1) by (simp add: entries_lookup mr(2))
  then have l3: "page_entry_lookup ?up t ?s3 = Some (pe\<lparr>pe_swapped := False\<rparr>)" using pe(2) by (simp add: flap_swapped_flag_def lookup_upd_page_entry)
  have pr: "unat p < unat PHYS_BASE + 4096 * init_ram_pages ?s3" "unat (pg_no p) \<in> used_pages ?s3" "cur_tid ?s3 = t"
    using w(7,10) fr(2) used_pages_cong [of ?s3 s3] by (simp_all add: flap_swapped_flag_def mr t_def)
  have sl: "pte_slot s pd ?up = pte_slot s pd va" "page_present s pd ?up = page_present s pd va"
    using same_page_slot [OF up(2), of s pd] by (simp_all add: page_present_def)
  obtain s4 hc f m kp where q: "pagedir_set_page page_swap_to_disk pd ?up p (pe_writable pe) ?s3 = Inr (True, s4)" "as_inv pd s4"
      "\<And>v. is_user_vaddr v \<Longrightarrow> pagedir_get_page pd v s4 = (if pg_no v = pg_no ?up then Inr (p + pg_ofs v) else pagedir_get_page pd v ?s3)"
      "as_table pd s4 = (as_table pd ?s3)(?up \<mapsto> p)" "kread p 4096 (kmem s4) = kread p 4096 (kmem ?s3)"
      "s4 = ?s3\<lparr>heap_cnt := hc, pagetable := pagetable ?s3, frametable := f, kmem := m, kernel_pool := kp\<rparr>"
    by (rule map_loaded_page [OF a3(1) w(4,5) pr(1,2) _ up(4), of "pe_writable pe"]) (use t3 sl nt as(4,5) l3 pr(3) in auto)
  let ?s5 = "(page_entry_update_kpage ?up t p s4)\<lparr>exception_lock := False\<rparr>"
  have l1: "page_entry_lookup ?up t ?s1 = Some pe" using pe(1) by (simp add: entries_lookup)
  have g4: "pagedir_get_page pd va s4 = Inr (p + pg_ofs va)" using q(3) [OF as(3)] up(2) by simp
  have res: "page_fault b va s = Inr (Resumed, ?s5)"
    using nk as(2,3) lk(1) g0 l1 pe(2) w(1,2) q(1) g4 by (simp add: page_fault_def Let_def t_def)
  have a5: "as_inv pd ?s5" "as_table pd ?s5 = as_table pd s4" by (rule as_frame [OF q(2)]; simp add: page_entry_update_kpage_def)+
  have k5: "kread p 4096 (kmem ?s5) = c"
    using q(5) kread_kwrite_same [of c p] w(8,9) by (simp add: flap_swapped_flag_def page_entry_update_kpage_def)
  have "swapq ?s5 = swapq s3" by (rule swap_cong) (simp_all add: page_entry_update_kpage_def q(6) flap_swapped_flag_def)
  then have q5: "swapq ?s5 = (\<lambda>t' k'. if t' = t \<and> k' = ?k then cs else swapq s t' k')" using w(12) unfolding q1 by simp
  have "page_entry_lookup ?up t s4 = page_entry_lookup ?up t ?s3" by (simp add: entries_lookup q(6))
  then have l5: "page_entry_lookup ?up t ?s5 = Some (pe\<lparr>pe_swapped := False, pe_kpage := p\<rparr>)"
    using l3 lookup_upd_page_entry [of "\<lambda>pe. pe\<lparr>pe_kpage := p\<rparr>" ?up t ?up t s4] by (simp add: page_entry_update_kpage_def entries_lookup)
  have g5: "pagedir_get_page pd va ?s5 = Inr (p + pg_ofs va)"
    using tables_frame(4) [of s4 pd ?s5 va] q(2) as(3) g4 by (simp add: page_entry_update_kpage_def used_pages_def as_inv_def)
  show ?thesis
    by (intro exI [of _ p] exI [of _ ?s5] conjI) (use res a5 q(4) a3(2) k5 q5 l5 g5 w(6) us1 in simp_all)
qed

lemma evict_then_fault:
  assumes ev: "evictable s f pd pe" "as_inv pd s" "swap_ready s" "\<not> page_lock s"
    and own: "fe_owner f = cur_tid s" "is_user_vaddr va" "va AND 0xfffff000 = fe_upage f" "pte_slot s pd va \<noteq> None" "\<not> exception_lock s"
    and fr: "free_run (bm_abs (used_map (user_pool s))) False 1 j" "pool_end (user_pool s) \<le> unat PHYS_BASE + 4096 * init_ram_pages s"
  shows "\<exists>s1 p s2. page_swap_to_disk s = Inr (fe_kpage f, s1) \<and> page_fault b va s1 = Inr (Resumed, s2) \<and>
     pagedir_get_page pd va s2 = Inr (p + pg_ofs va) \<and> unat (pg_no p) \<notin> used_pages s \<and>
     kread p 4096 (kmem s2) = hd (swapq s (fe_owner f) (fe_kpage f) @ [kread (fe_kpage f) 4096 (kmem s)]) \<and>
     as_table pd s2 = (as_table pd s)(fe_upage f \<mapsto> p)"
proof -
  let ?t = "fe_owner f" and ?k = "fe_kpage f"
  have e: "pagedirs s ?t = Some pd" "pe_kpage pe = ?k" using ev(1) by (auto simp: evictable_def)
  obtain s1 where s1: "page_swap_to_disk s = Inr (?k, s1)" "as_inv pd s1" "swap_wf s1" "\<not> swap_lock s1"
     "swapq s1 = (\<lambda>t k. if t = ?t \<and> k = ?k then swapq s t k @ [kread k 4096 (kmem s)] else swapq s t k)"
     "as_table pd s1 = (as_table pd s)(fe_upage f := None)"
     "page_entry_lookup (fe_upage f) ?t s1 = Some (pe\<lparr>pe_swapped := True\<rparr>)"
     "\<not> page_present s1 pd (fe_upage f)" "\<forall>va. is_user_vaddr va \<longrightarrow> pte_slot s1 pd va = pte_slot s pd va"
     "used_pages s1 = used_pages s" "user_pool s1 = user_pool s" "cur_tid s1 = cur_tid s" "pagedirs s1 = pagedirs s"
     "exception_lock s1 = exception_lock s" "init_ram_pages s1 = init_ram_pages s"
    using page_swap_to_disk_spec [OF ev] by blast
  obtain c cs where q: "swapq s1 ?t ?k = c # cs" "c = hd (swapq s ?t ?k @ [kread ?k 4096 (kmem s)])"
    using s1(5) by (cases "swapq s ?t ?k") auto
  have ab: "\<not> page_present s1 pd va"
    using s1(8) own(3) same_page_slot [of va "fe_upage f" s1 pd] round_down_page(2) [of va] by (simp add: page_present_def)
  obtain p s2 where "page_fault b va s1 = Inr (Resumed, s2)" "pagedir_get_page pd va s2 = Inr (p + pg_ofs va)"
      "kread p 4096 (kmem s2) = c" "unat (pg_no p) \<notin> used_pages s1" "as_table pd s2 = (as_table pd s1)(va AND 0xfffff000 \<mapsto> p)"
    using page_fault_spec [of pd s1 va "pe\<lparr>pe_swapped := True\<rparr>" c cs j b] s1 own e fr q(1) ab by auto
  then show ?thesis using s1(1,6,10) own(3) q(2) by auto
qed

end
