(* ===== verification/Paging.thy ===== *)
theory Paging imports Eviction begin

unbundle bit_operations_syntax

text \<open>
  Properties of virtual memory: address spaces, eviction and page faults, each at a small machine:
  the kernel pool at \<open>0xc0100000\<close> holds a page directory and one page table, the user pool at
  \<open>0xc0200000\<close> one frame in use, which belongs to the page \<open>0x1000\<close> of process 3.
\<close>

definition ex_vm :: vm where
  "ex_vm = kset 0xc0100000 0x101007
     \<lparr>kernel_pool = \<lparr>used_map = \<lparr>bit_cnt = 8, bits = [3]\<rparr>, base = 0xc0100000\<rparr>,
      user_pool = \<lparr>used_map = \<lparr>bit_cnt = 8, bits = [1]\<rparr>, base = 0xc0200000\<rparr>, kmem = (\<lambda>_. 0),
      swap_table = [], swap_disk = \<lparr>block_size = 32, sectors = (\<lambda>_. replicate 512 1), foreign = False, read_cnt = 0, write_cnt = 0\<rparr>,
      swap_disk_size = 4, empty_block_sector = [True, True, True, True], swap_lock = False, heap_ok = (\<lambda>_. True), heap_cnt = 0,
      frametable = [\<lparr>fe_upage = 0x1000, fe_kpage = 0xc0200000, fe_owner = 3\<rparr>],
      pagetable = [(3, [\<lparr>pe_upage = 0x1000, pe_kpage = 0xc0200000, pe_writable = True, pe_swapped = False, pe_owner = 3\<rparr>])],
      page_lock = False, exception_lock = False, pagedirs = [3 \<mapsto> 0xc0100000], cur_tid = 3, init_page_dir = 0xc0000000,
      init_ram_pages = 1024, cr3 = 0, page_fault_cnt = 0\<rparr>"

lemma ex_vm_sel [simp]:
  "kernel_pool ex_vm = \<lparr>used_map = \<lparr>bit_cnt = 8, bits = [3]\<rparr>, base = 0xc0100000\<rparr>"
  "user_pool ex_vm = \<lparr>used_map = \<lparr>bit_cnt = 8, bits = [1]\<rparr>, base = 0xc0200000\<rparr>"
  "cr3 ex_vm = 0" "init_page_dir ex_vm = 0xc0000000" "init_ram_pages ex_vm = 1024" "heap_ok ex_vm n" "cur_tid ex_vm = 3"
  "swap_lock ex_vm = False" "page_lock ex_vm = False" "exception_lock ex_vm = False" "pagedirs ex_vm = [3 \<mapsto> 0xc0100000]"
  "frametable ex_vm = [\<lparr>fe_upage = 0x1000, fe_kpage = 0xc0200000, fe_owner = 3\<rparr>]"
  "pagetable ex_vm = [(3, [\<lparr>pe_upage = 0x1000, pe_kpage = 0xc0200000, pe_writable = True, pe_swapped = False, pe_owner = 3\<rparr>])]"
  by (simp_all add: ex_vm_def kset_def)

lemma ex_vm_pools: "palloc_wf ex_vm" "used_pages ex_vm = {0xc0100, 0xc0101, 0xc0200}"
proof -
  show "palloc_wf ex_vm"
    by (simp add: palloc_wf_def pool_wf_def pool_end_def bm_wf_def PGSIZE_def PHYS_BASE_def pg_ofs_mod)
  have lt8: "i < 8 \<longleftrightarrow> i = 0 \<or> i = 1 \<or> i = 2 \<or> i = 3 \<or> i = 4 \<or> i = 5 \<or> i = 6 \<or> i = (7 :: nat)" for i by auto
  have b: "bm_used \<lparr>bit_cnt = 8, bits = [3]\<rparr> = {0, 1}" "bm_used \<lparr>bit_cnt = 8, bits = [1]\<rparr> = {0}"
    by (auto simp: bm_used_def bm_abs_def lt8)
  show "used_pages ex_vm = {0xc0100, 0xc0101, 0xc0200}"
    by (auto simp: used_pages_def pool_pages_def unat_pg_no b)
qed

lemma kword_zero: "kmem s = (\<lambda>_. 0) \<Longrightarrow> kword s a = 0"
  by (simp add: kword_def kread_def map_replicate_const numeral_eq_Suc)

lemma ex_vm_pde: "i < 768 \<Longrightarrow> pde_at ex_vm 0xc0100000 i = (if i = 0 then 0x101007 else 0)"
proof (cases "i = 0")
  case False
  assume i: "i < 768"
  have o: "pg_ofs 0xc0100000 = 0" by (simp add: pg_ofs_mod)
  have "unat ((0xc0100000 :: u32) + 4 * of_nat i) \<noteq> unat (0xc0100000 :: u32)" using table_slot(1) [OF o, of i] i False by simp
  then have "(0xc0100000 :: u32) + 4 * of_nat i \<noteq> 0xc0100000" by metis
  then show ?thesis using table_slot(2) [OF o, of i] i False
    by (simp add: pde_at_def ex_vm_def kword_kset_other kword_zero)
qed (simp add: pde_at_def ex_vm_def)


lemma ex_vm_as: "as_inv 0xc0100000 ex_vm" "tables ex_vm 0xc0100000 = {0xc0100, 0xc0101}"
proof -
  have n: "pg_no 0xc0100000 = 0xc0100" "pg_no 0xc0101000 = 0xc0101" by (simp_all add: word_unat_eq_iff unat_pg_no)
  have a: "(0x101007 :: u32) AND PTE_ADDR = 0x101000" by (simp add: PTE_ADDR_def BITMASK_def PGBITS_def)
  have p: "pt_of 0x101007 = 0xc0101000" by (simp add: pt_of_def a PHYS_BASE_def)
  have t: "table_page ex_vm 0xc0100000" "table_page ex_vm 0xc0101000"
    by (simp_all add: table_page_def ex_vm_pools(2) n pg_ofs_mod is_kernel_vaddr_def PHYS_BASE_def)
  have "pd_wf ex_vm 0xc0100000"
    unfolding pd_wf_def using t a p by (auto simp: ex_vm_pde PTE_P_def PHYS_BASE_def)
  then show "as_inv 0xc0100000 ex_vm" by (simp add: as_inv_def ex_vm_pools(1) PHYS_BASE_def)
  have "{i. i < 768 \<and> pde_at ex_vm 0xc0100000 i \<noteq> 0} = {0}" by (auto simp: ex_vm_pde split: if_splits)
  then show "tables ex_vm 0xc0100000 = {0xc0100, 0xc0101}" by (simp add: tables_def ex_vm_pde p n)
qed





lemma ex_vm_absent: "pte_slot ex_vm 0xc0100000 0x2000 \<noteq> None" "\<not> page_present ex_vm 0xc0100000 0x2000"
proof -
  have n: "pd_no 0x2000 = 0" "pt_no 0x2000 = 2" by (simp_all add: word_unat_eq_iff unat_pd_no unat_pt_no)
  have sl: "pte_slot ex_vm 0xc0100000 0x2000 = Some 0xc0101008"
    by (simp add: pte_slot_def n ex_vm_pde pt_of_def PTE_ADDR_def PHYS_BASE_def)
  then show "pte_slot ex_vm 0xc0100000 0x2000 \<noteq> None" by simp
  have "kword ex_vm 0xc0101008 = 0" by (simp add: ex_vm_def kword_kset_other kword_zero)
  then show "\<not> page_present ex_vm 0xc0100000 0x2000" by (simp add: page_present_def sl)
qed

lemma ex_vm_ok: "as_ok 0x2000 0xc0201000" "unat (0xc0201000 :: u32) < unat PHYS_BASE + 4096 * init_ram_pages ex_vm"
  by (simp_all add: as_ok_def user_page_def pg_ofs_mod is_user_vaddr_def is_kernel_vaddr_def PHYS_BASE_def)



subsection \<open>Properties\<close>



text \<open>mapping a page and clearing it again gives back the address space there was.\<close>

theorem map_then_clear_restores:
  assumes "as_inv pd s" "as_ok up kp" "pagedir_set_page page_swap_to_disk pd up kp True s = Inr (True, s1)"
  shows "\<exists>s2. pagedir_clear_page pd up s1 = Inr s2 \<and> as_inv pd s2 \<and> as_table pd s2 = as_table pd s"
proof -
  have "as_map pd up kp s = Some s1" using assms(3) by (simp add: as_map_def)
  from address_space.add_then_del [OF assms(1,2) this]
  show ?thesis by (auto simp: as_unmap_def split: if_splits sum.splits)
qed

theorem map_then_clear_restores_witness:
  "\<exists>s1 s2. pagedir_set_page page_swap_to_disk 0xc0100000 0x2000 0xc0201000 True ex_vm = Inr (True, s1) \<and>
     pagedir_clear_page 0xc0100000 0x2000 s1 = Inr s2 \<and> as_table 0xc0100000 s2 = as_table 0xc0100000 ex_vm"
proof -
  have i: "pd_wf ex_vm 0xc0100000" "palloc_wf ex_vm" "0xc0100000 \<noteq> init_page_dir ex_vm" using ex_vm_as(1) by (auto simp: as_inv_def)
  have k: "pg_ofs 0x2000 = 0" "is_user_vaddr 0x2000" "pg_ofs 0xc0201000 = 0" "is_kernel_vaddr 0xc0201000"
    using ex_vm_ok(1) by (auto simp: as_ok_def user_page_def)
  obtain s1 where s1: "pagedir_set_page page_swap_to_disk 0xc0100000 0x2000 0xc0201000 True ex_vm = Inr (True, s1)"
    using pagedir_set_page_spec [OF i(1,2) k frame_in_ram [OF k(4) ex_vm_ok(2)] i(3) ex_vm_absent(2), of page_swap_to_disk True]
      ex_vm_absent(1) by auto
  then show ?thesis using map_then_clear_restores [OF ex_vm_as(1) ex_vm_ok(1) s1] by auto
qed







end
