(* ===== verification/Arguments.thy ===== *)
theory Arguments
  imports Kstring Vaddr Bytes
begin

text \<open>
  How a new process gets its arguments (\<^verbatim>\<open>start_process\<close> in src/pintos2/src/userprog/process.c): the
  command line is copied twice and cut into words with \<^verbatim>\<open>strtok_r\<close>; the first pass counts, the second
  pushes the words and their addresses on the user stack.

  The memory is the one that the new process's page directory gives: the kernel's from \<^verbatim>\<open>PHYS_BASE\<close> on,
  and below it the stack page that \<^verbatim>\<open>setup_stack\<close> has mapped. Touching a user address outside that page
  is a fault in the kernel that \<^verbatim>\<open>page_fault\<close> does not survive (\<open>Undefined\<close>). \<open>d\<close> is the address of the
  literal \<^verbatim>\<open>" "\<close>.
\<close>

definition user_stack :: "u32 \<Rightarrow> nat \<Rightarrow> bool" where
  "user_stack a n \<longleftrightarrow> unat PHYS_BASE - PGSIZE \<le> unat a \<and> unat a + n \<le> unat PHYS_BASE"

definition copy_command :: "nat \<Rightarrow> u32 \<Rightarrow> u32 \<Rightarrow> mem \<Rightarrow> mem res" where
  "copy_command fuel dst src m =
     rbind (strlen fuel src m) (\<lambda>n. rbind (strlcpy fuel dst src (sz (n + 1)) m) (\<lambda>(_, m1). Inr m1))"

text \<open>The two copies with their first tokens and saved positions; \<open>t1\<close> and \<open>t2\<close> are what \<^verbatim>\<open>malloc\<close> returns.\<close>

definition parse_command ::
  "nat \<Rightarrow> u32 \<Rightarrow> u32 \<Rightarrow> u32 \<Rightarrow> u32 \<Rightarrow> mem \<Rightarrow> ((u32 \<times> u32) \<times> (u32 \<times> u32) \<times> mem) res" where
  "parse_command fuel d file_name t1 t2 m =
     rbind (copy_command fuel t1 file_name m) (\<lambda>m1.
     rbind (strtok_r fuel t1 d 0 m1) (\<lambda>(name, save, m2).
     rbind (copy_command fuel t2 file_name m2) (\<lambda>m3.
     rbind (strtok_r fuel t2 d 0 m3) (\<lambda>(token, save2, m4). Inr ((name, save), (token, save2), m4)))))"

fun count_args :: "nat \<Rightarrow> nat \<Rightarrow> u32 \<Rightarrow> u32 \<Rightarrow> u32 \<Rightarrow> u32 \<Rightarrow> u32 \<Rightarrow> mem \<Rightarrow> (u32 \<times> u32 \<times> mem) res" where
  "count_args 0 F d token save arg_length arg_count m = Inl Diverged"
| "count_args (Suc fuel) F d token save arg_length arg_count m =
     (if token = 0 then Inr (arg_length, arg_count, m)
      else rbind (strlen F token m) (\<lambda>n.
           rbind (strtok_r F 0 d save m) (\<lambda>(token', save', m').
             count_args fuel F d token' save' (arg_length + of_nat n + 1) (arg_count + 1) m')))"

definition put_word :: "u32 \<Rightarrow> u32 \<Rightarrow> mem \<Rightarrow> mem res" where
  "put_word a v m = kdefined (user_stack a 4) (Inr (kwrite a (le_bytes 4 (unat v)) m))"

fun push_args :: "nat \<Rightarrow> nat \<Rightarrow> u32 \<Rightarrow> u32 \<Rightarrow> u32 \<Rightarrow> u32 \<Rightarrow> u32 \<Rightarrow> mem \<Rightarrow> (u32 \<times> mem) res" where
  "push_args 0 F d file_name save stack_top temp_addr m = Inl Diverged"
| "push_args (Suc fuel) F d file_name save stack_top temp_addr m =
     (if file_name = 0 then Inr (temp_addr, m)
      else rbind (strlen F file_name m) (\<lambda>n.
           kdefined (user_stack stack_top (n + 1))
           (rbind (memcpy stack_top file_name (n + 1) m) (\<lambda>(_, m1).
           rbind (put_word temp_addr stack_top m1) (\<lambda>m2.
           rbind (strtok_r F 0 d save m2) (\<lambda>(file_name', save', m3).
             push_args fuel F d file_name' save' (stack_top + of_nat n + 1) (temp_addr + 4) m3))))))"

definition build_stack :: "nat \<Rightarrow> u32 \<Rightarrow> u32 \<times> u32 \<Rightarrow> u32 \<times> u32 \<Rightarrow> u32 \<Rightarrow> mem \<Rightarrow> (u32 \<times> mem) res" where
  "build_stack fuel d file_name_save token_save esp m =
     (let (file_name, save) = file_name_save; (token, save2) = token_save
      in rbind (count_args fuel fuel d token save2 0 0 m) (\<lambda>(arg_length, arg_count, m1).
           let word_align = (if arg_length mod 4 \<noteq> 0 then 4 - arg_length mod 4 else 0);
               stack_top = esp - arg_length;
               temp_addr = stack_top - (word_align + 4)
           in kdefined (user_stack temp_addr (unat (word_align + 4)))
             (rbind (memset temp_addr 0 (unat (word_align + 4)) m1) (\<lambda>(_, m2).
                let argv0_addr = temp_addr - 4 * arg_count
                in rbind (push_args fuel fuel d file_name save stack_top argv0_addr m2) (\<lambda>(t, m3).
                     let t1 = t - (4 * arg_count + 4)
                     in rbind (put_word t1 argv0_addr m3) (\<lambda>m4.
                          let t2 = t1 - 8
                          in rbind (put_word (t2 + 4) arg_count m4) (\<lambda>m5.
                               rbind (put_word t2 0 m5) (\<lambda>m6. Inr (t2, m6)))))))))"

subsection \<open>Words of a command line\<close>

function words :: "u8 set \<Rightarrow> u8 list \<Rightarrow> u8 list list" where
  "words D str = (if dropWhile (\<lambda>c. c \<in> D) str = [] then [] else first_word D str # words D (after_word D str))"
  by pat_completeness auto

termination words
  by (relation "measure (length \<circ> snd)") (auto intro: after_word_less)

declare words.simps [simp del]

text \<open>The state of the tokenizer: the current token and the words that are still to come, all in the
  bytes from \<open>lo\<close> to \<open>hi\<close>, where the terminator is.\<close>

definition tokens :: "mem \<Rightarrow> u32 \<Rightarrow> u32 \<Rightarrow> u32 \<Rightarrow> nat \<Rightarrow> nat \<Rightarrow> u8 list list \<Rightarrow> bool" where
  "tokens m d tok save lo hi ws \<longleftrightarrow> cstr m d [32] \<and> (unat d + 1 < lo \<or> hi < unat d) \<and>
     (case ws of [] \<Rightarrow> tok = 0
      | w # ws' \<Rightarrow> cstr m tok w \<and> lo \<le> unat tok \<and>
          (\<exists>str. cstr m save str \<and> words {32} str = ws' \<and> unat tok + length w \<le> unat save \<and> unat save + length str \<le> hi))"

lemma tokens_step:
  assumes c: "cstr m a str" "a = (if s = 0 then save else s)" "cstr m d [32]" "unat d + 1 < lo \<or> hi < unat d"
    and b: "lo \<le> unat a" "unat a + length str \<le> hi" "hi + 1 < F + lo"
  shows "\<exists>tok' save' m'. strtok_r F s d save m = Inr (tok', save', m') \<and> tokens m' d tok' save' lo hi (words {32} str) \<and>
     (\<forall>x. unat x < unat a \<or> hi \<le> unat x \<longrightarrow> m' x = m x)"
proof (cases "dropWhile (\<lambda>c. c \<in> set [32]) str = []")
  case True
  then have "words {32} str = []" by (subst words.simps) simp
  then show ?thesis using strtok_r_none [OF c(1,2,3) _ True, of F] b c(3,4) by (auto simp: tokens_def)
next
  case False
  have ba: "unat a + length str < 2 ^ 32" by (rule cstr_bound [OF c(1)])
  have bd: "unat d + 1 < 2 ^ 32" using cstr_bound [OF c(3)] by simp
  have sep: "span a (length str) \<inter> span d (Suc (length [32 :: u8])) = {}"
    using span_iff [of a "length str"] span_iff [of d 2] ba bd b c(4) by (auto simp: numeral_2_eq_2)
  obtain k p m' where t: "strtok_r F s d save m = Inr (a + of_nat k, p, m')"
      "cstr m' (a + of_nat k) (first_word {32} str)" "cstr m' p (after_word {32} str)" "cstr m' d [32]"
      "unat a + k + length (first_word {32} str) \<le> unat p" "unat p + length (after_word {32} str) \<le> unat a + length str"
      "\<forall>x. x \<notin> span a (length str) \<longrightarrow> m' x = m x"
    using strtok_r_word [OF c(1,2,3) _ False sep, of F] b by auto
  have "unat (a + of_nat k) = unat a + k" using t(5,6) ba by (intro unat_plus_of_nat) simp
  moreover have "words {32} str = first_word {32} str # words {32} (after_word {32} str)" using False by (subst words.simps) simp
  ultimately have "tokens m' d (a + of_nat k) p lo hi (words {32} str)"
    using t(2-6) c(4) b by (auto simp: tokens_def intro!: exI [of _ "after_word {32} str"])
  moreover have "\<forall>x. unat x < unat a \<or> hi \<le> unat x \<longrightarrow> m' x = m x"
    using t(7) span_iff [of a "length str"] ba b by auto
  ultimately show ?thesis using t(1) by auto
qed

lemma tokens_next:
  assumes "tokens m d tok save lo hi (w # ws)" "hi + 1 < F + lo"
  shows "\<exists>tok' save' m'. strtok_r F 0 d save m = Inr (tok', save', m') \<and> tokens m' d tok' save' lo hi ws \<and>
     (\<forall>x. unat x < unat save \<or> hi \<le> unat x \<longrightarrow> m' x = m x)"
proof -
  obtain str where "cstr m save str" "words {32} str = ws" "lo \<le> unat save" "unat save + length str \<le> hi" "cstr m d [32]" "unat d + 1 < lo \<or> hi < unat d"
    using assms(1) by (auto simp: tokens_def)
  then show ?thesis using tokens_step [of m save str 0 save d lo hi F] assms(2) by auto
qed

lemma tokens_frame:
  assumes "tokens m d tok save lo hi ws" "\<And>x. lo \<le> unat x \<Longrightarrow> unat x \<le> hi \<Longrightarrow> m' x = m x" "m' d = m d" "m' (d + 1) = m (d + 1)"
  shows "tokens m' d tok save lo hi ws"
proof -
  have str: "cstr m' a str" if "cstr m a str" "lo \<le> unat a" "unat a + length str \<le> hi" for a str
    by (rule cstr_cong [OF that(1)]) (use that cstr_bound [OF that(1)] assms(2) in \<open>simp add: unat_plus_of_nat\<close>)
  have "cstr m' d [32]" using assms(1,3,4) by (auto simp: tokens_def)
  then show ?thesis using assms(1) str by (cases ws) (fastforce simp: tokens_def)+
qed


subsection \<open>Writing to disjoint blocks\<close>

lemma in_block_iff:
  fixes a x :: u32
  assumes "unat a + n \<le> 2 ^ 32"
  shows "unat (x - a) < n \<longleftrightarrow> unat a \<le> unat x \<and> unat x < unat a + n"
proof -
  have "unat (x - a) < n \<longleftrightarrow> x \<in> span a n"
  proof
    assume "unat (x - a) < n"
    then show "x \<in> span a n" unfolding span_def by (intro image_eqI [where x = "unat (x - a)"]) auto
  next
    assume "x \<in> span a n"
    then obtain i where "i < n" "x = a + of_nat i" by (auto simp: span_def)
    then show "unat (x - a) < n" using assms by (simp add: unat_of_nat_u32)
  qed
  then show ?thesis using span_iff [OF assms] by simp
qed

lemma kwrite_at: "m x = m' x \<Longrightarrow> kwrite a bs m x = kwrite a bs m' x"
  by (simp add: kwrite_def)

lemma kwrite_outside: "\<not> unat (x - a) < length bs \<Longrightarrow> kwrite a bs m x = m x"
  by (simp add: kwrite_def)

lemma kwrite_commute:
  assumes "unat a + length xs \<le> unat b" "unat b + length ys \<le> 2 ^ 32"
  shows "kwrite b ys (kwrite a xs m) = kwrite a xs (kwrite b ys m)"
proof
  fix x
  have "\<not> (unat (x - a) < length xs \<and> unat (x - b) < length ys)"
    using in_block_iff [of a "length xs" x] in_block_iff [of b "length ys" x] assms by auto
  then show "kwrite b ys (kwrite a xs m) x = kwrite a xs (kwrite b ys m) x" by (auto simp: kwrite_def)
qed

lemma kread_cstr: "cstr m a s \<Longrightarrow> kread a (length s + 1) m = s @ [0]"
proof (induction s arbitrary: a)
  case (Cons c s)
  have "kread a (length (c # s) + 1) m = kread a 1 m @ kread (a + 1) (length s + 1) m"
    using kread_add [of a 1 "length s + 1" m] by simp
  then show ?case using Cons by (simp add: kread_def)
qed (simp add: kread_def)

lemma memset_loop_kwrite: "n \<le> 2 ^ 32 \<Longrightarrow> memset_loop a v n m = kwrite a (replicate n v) m"
proof (induction n arbitrary: a m)
  case (Suc n)
  have "m(a := v) = kwrite a [v] m" by (auto simp: kwrite_def fun_eq_iff unat_eq_zero)
  then show ?case using Suc.IH [of "a + 1" "m(a := v)"] Suc.prems kwrite_append [of "[v]" "replicate n v" a m] by simp
qed (simp add: kwrite_def)

subsection \<open>The two passes\<close>

definition strs :: "u8 list list \<Rightarrow> u8 list" where
  "strs ws = concat (map (\<lambda>w. w @ [0]) ws)"

fun ptrs :: "u32 \<Rightarrow> u8 list list \<Rightarrow> u32 list" where
  "ptrs st [] = []"
| "ptrs st (w # ws) = st # ptrs (st + of_nat (length w) + 1) ws"

definition word_bytes :: "u32 list \<Rightarrow> u8 list" where
  "word_bytes ps = concat (map (\<lambda>p. le_bytes 4 (unat p)) ps)"

lemma strs_simps [simp]: "strs [] = []" "strs (w # ws) = (w @ [0]) @ strs ws"
  by (simp_all add: strs_def)

lemma word_bytes_simps [simp]: "word_bytes [] = []" "word_bytes (p # ps) = le_bytes 4 (unat p) @ word_bytes ps" "length (word_bytes ps) = 4 * length ps"
  by (induction ps) (simp_all add: word_bytes_def)

lemma length_ptrs [simp]: "length (ptrs st ws) = length ws"
  by (induction ws arbitrary: st) auto

lemma tokens_strlen:
  assumes "tokens m d tok save lo hi (w # ws)" "hi + 1 < F + lo"
  shows "strlen F tok m = Inr (length w)" "tok \<noteq> 0"
  using assms strlen_cstr [of m tok w F] cstr_nonnull [of m tok w] by (auto simp: tokens_def)

lemma count_args_spec:
  assumes "tokens m d tok save lo hi ws" "hi + 1 < F + lo" "length ws < fuel"
  shows "\<exists>m'. count_args fuel F d tok save len cnt m = Inr (len + of_nat (length (strs ws)), cnt + of_nat (length ws), m') \<and>
     (\<forall>x. unat x < lo \<or> hi \<le> unat x \<longrightarrow> m' x = m x)"
  using assms
proof (induction ws arbitrary: fuel tok save m len cnt)
  case Nil
  then show ?case by (cases fuel) (auto simp: tokens_def)
next
  case (Cons w ws)
  obtain f where f: "fuel = Suc f" using Cons.prems(3) by (cases fuel) auto
  note sl = tokens_strlen [OF Cons.prems(1,2)]
  obtain tok' save' m1 where n: "strtok_r F 0 d save m = Inr (tok', save', m1)" "tokens m1 d tok' save' lo hi ws"
      "\<forall>x. unat x < unat save \<or> hi \<le> unat x \<longrightarrow> m1 x = m x"
    using tokens_next [OF Cons.prems(1,2)] by blast
  have "lo \<le> unat save" using Cons.prems(1) by (auto simp: tokens_def)
  moreover obtain m2 where "count_args f F d tok' save' (len + of_nat (length w) + 1) (cnt + 1) m1 =
      Inr (len + of_nat (length w) + 1 + of_nat (length (strs ws)), cnt + 1 + of_nat (length ws), m2)"
      "\<forall>x. unat x < lo \<or> hi \<le> unat x \<longrightarrow> m2 x = m1 x"
    using Cons.IH [OF n(2) Cons.prems(2)] Cons.prems(3) f by fastforce
  ultimately show ?case using sl n(1,3) f by (auto simp: add.assoc)
qed


lemma push_one:
  assumes tk: "tokens m d tok save lo hi (w # ws)" "hi + 1 < F + lo" and ker: "unat PHYS_BASE \<le> lo" "unat PHYS_BASE \<le> unat d"
    and st: "unat PHYS_BASE - 4096 \<le> unat tp" "unat tp + 4 \<le> unat st" "unat st + length w + 1 \<le> unat PHYS_BASE"
  shows "\<exists>tok' save' m3. (\<forall>fuel. push_args (Suc fuel) F d tok save st tp m =
        push_args fuel F d tok' save' (st + of_nat (length w) + 1) (tp + 4) m3) \<and> tokens m3 d tok' save' lo hi ws \<and>
     (\<forall>x. unat x < unat PHYS_BASE \<longrightarrow> m3 x = kwrite tp (le_bytes 4 (unat st)) (kwrite st (w @ [0]) m) x)"
proof -
  have PB: "unat PHYS_BASE = 3221225472" by (simp add: PHYS_BASE_def)
  note sl = tokens_strlen [OF tk]
  have tok: "cstr m tok w" "lo \<le> unat tok" "unat tok + length w \<le> unat save" using tk(1) by (auto simp: tokens_def)
  have bt: "unat tok + length w < 2 ^ 32" by (rule cstr_bound [OF tok(1)])
  have st0: "st \<noteq> 0" using st(2) by auto
  have "memcpy_loop st tok (length w + 1) m = kwrite st (kread tok (length w + 1) m) m"
  proof (rule memcpy_loop_kwrite)
    fix i j assume "i < length w + 1" "j < i"
    then have "unat (tok + of_nat i) = unat tok + i" "unat (st + of_nat j) = unat st + j"
      using bt st(3) PB by (simp_all add: unat_plus_of_nat)
    then show "tok + of_nat i \<noteq> st + of_nat j" using \<open>i < length w + 1\<close> \<open>j < i\<close> tok(2) ker(1) st(3) PB by auto
  qed (use bt in simp)
  then have mc: "memcpy st tok (length w + 1) m = Inr (st, kwrite st (w @ [0]) m)"
    using st0 sl(2) kread_cstr [OF tok(1)] by (simp add: memcpy_def)
  let ?m1 = "kwrite st (w @ [0]) m" let ?m2 = "kwrite tp (le_bytes 4 (unat st)) ?m1"
  have g: "user_stack st (length w + 1)" "user_stack tp 4" using st by (auto simp: user_stack_def PGSIZE_def)
  have kern: "?m2 x = m x" if "unat PHYS_BASE \<le> unat x" for x
    using that st PB in_block_iff [of tp 4 x] in_block_iff [of st "length w + 1" x] by (simp add: kwrite_def)
  have bd: "unat (d + 1) = unat d + 1" using tk(1) unat_Suc [of d] by (auto simp: tokens_def)
  have t2: "tokens ?m2 d tok save lo hi (w # ws)"
    by (rule tokens_frame [OF tk(1)]) (use ker bd in \<open>auto intro!: kern\<close>)
  obtain tok' save' m3 where n: "strtok_r F 0 d save ?m2 = Inr (tok', save', m3)" "tokens m3 d tok' save' lo hi ws"
      "\<forall>x. unat x < unat save \<or> hi \<le> unat x \<longrightarrow> m3 x = ?m2 x"
    using tokens_next [OF t2 tk(2)] by blast
  have "push_args (Suc fuel) F d tok save st tp m = push_args fuel F d tok' save' (st + of_nat (length w) + 1) (tp + 4) m3" for fuel
    using sl g mc n(1) by (simp add: put_word_def)
  moreover have "\<forall>x. unat x < unat PHYS_BASE \<longrightarrow> m3 x = ?m2 x" using n(3) tok ker by auto
  ultimately show ?thesis using n(2) by blast
qed

lemma push_args_spec:
  assumes "tokens m d tok save lo hi ws" "hi + 1 < F + lo" "unat PHYS_BASE \<le> lo" "unat PHYS_BASE \<le> unat d"
    and "unat PHYS_BASE - 4096 \<le> unat tp" "unat tp + 4 * length ws \<le> unat st" "unat st + length (strs ws) \<le> unat PHYS_BASE" "length ws < fuel"
  shows "\<exists>m'. push_args fuel F d tok save st tp m = Inr (tp + of_nat (4 * length ws), m') \<and>
     (\<forall>x. unat x < unat PHYS_BASE \<longrightarrow> m' x = kwrite tp (word_bytes (ptrs st ws)) (kwrite st (strs ws) m) x)"
  using assms
proof (induction ws arbitrary: fuel tok save st tp m)
  case Nil
  then show ?case by (cases fuel) (auto simp: tokens_def kwrite_def)
next
  case (Cons w ws)
  have PB: "unat PHYS_BASE = 3221225472" by (simp add: PHYS_BASE_def)
  obtain f where f: "fuel = Suc f" using Cons.prems(8) by (cases fuel) auto
  let ?st = "st + of_nat (length w) + 1" and ?tp = "tp + 4"
  obtain tok' save' m3 where n: "push_args (Suc f) F d tok save st tp m = push_args f F d tok' save' ?st ?tp m3"
      "tokens m3 d tok' save' lo hi ws"
      "\<And>x. unat x < unat PHYS_BASE \<Longrightarrow> m3 x = kwrite tp (le_bytes 4 (unat st)) (kwrite st (w @ [0]) m) x"
    using push_one [OF Cons.prems(1-5), of st] Cons.prems(6,7) by auto
  have "unat (st + of_nat (length w + 1)) = unat st + (length w + 1)" "unat (tp + of_nat 4) = unat tp + 4"
    using Cons.prems(6,7) PB by (intro unat_plus_of_nat; simp)+
  then have u: "unat ?st = unat st + length w + 1" "unat ?tp = unat tp + 4" by (simp_all add: ac_simps)
  obtain m' where m': "push_args f F d tok' save' ?st ?tp m3 = Inr (?tp + of_nat (4 * length ws), m')"
      "\<And>x. unat x < unat PHYS_BASE \<Longrightarrow> m' x = kwrite ?tp (word_bytes (ptrs ?st ws)) (kwrite ?st (strs ws) m3) x"
    using Cons.IH [OF n(2) Cons.prems(2-4), of ?tp ?st f] Cons.prems(5-8) u f by auto
  have c1: "kwrite ?st (strs ws) (kwrite tp (le_bytes 4 (unat st)) (kwrite st (w @ [0]) m)) =
      kwrite tp (le_bytes 4 (unat st)) (kwrite st (strs (w # ws)) m)"
    using kwrite_commute [of tp "le_bytes 4 (unat st)" ?st "strs ws"] kwrite_append [of "w @ [0]" "strs ws" st m]
      u Cons.prems(6,7) PB by (simp add: ac_simps)
  have c2: "kwrite ?tp (word_bytes (ptrs ?st ws)) (kwrite tp (le_bytes 4 (unat st)) X) = kwrite tp (word_bytes (ptrs st (w # ws))) X" for X
    using kwrite_append [of "le_bytes 4 (unat st)" "word_bytes (ptrs ?st ws)" tp X] Cons.prems(6,7) PB by simp
  have fin: "m' x = kwrite tp (word_bytes (ptrs st (w # ws))) (kwrite st (strs (w # ws)) m) x" if "unat x < unat PHYS_BASE" for x
  proof -
    have "kwrite ?tp (word_bytes (ptrs ?st ws)) (kwrite ?st (strs ws) m3) x =
        kwrite ?tp (word_bytes (ptrs ?st ws)) (kwrite ?st (strs ws) (kwrite tp (le_bytes 4 (unat st)) (kwrite st (w @ [0]) m))) x"
      by (intro kwrite_at n(3) that)
    then show ?thesis unfolding c1 c2 using m'(2) [OF that] by simp
  qed
  show ?case using fin n(1) m'(1) f by (auto simp: add.assoc)
qed


subsection \<open>The finished stack\<close>

definition below_base :: "nat \<Rightarrow> u32" where
  "below_base k = PHYS_BASE - of_nat k"

lemma unat_below_base: "k \<le> 4096 \<Longrightarrow> unat (below_base k) = unat PHYS_BASE - k"
  by (simp add: below_base_def PHYS_BASE_def unat_sub word_le_nat_alt unat_of_nat_u32)

lemma user_stack_below: "k \<le> 4096 \<Longrightarrow> j \<le> k \<Longrightarrow> user_stack (below_base k) j"
  by (auto simp: user_stack_def unat_below_base PGSIZE_def PHYS_BASE_def)

lemma below_base_add: "j \<le> k \<Longrightarrow> below_base k + of_nat j = below_base (k - j)"
  by (simp add: below_base_def of_nat_diff)

lemma below_base_sub: "below_base k - of_nat j = below_base (k + j)"
  by (simp add: below_base_def algebra_simps)

definition align4 :: "nat \<Rightarrow> nat" where
  "align4 n = (if n mod 4 \<noteq> 0 then 4 - n mod 4 else 0)"

lemma align4_facts: "align4 n < 4" "(n + align4 n) mod 4 = 0"
proof -
  show "align4 n < 4" by (simp add: align4_def)
  show "(n + align4 n) mod 4 = 0" unfolding align4_def by (auto simp: mod_simps) presburger
qed

lemma word_align_eq: "n < 2 ^ 32 \<Longrightarrow> (if (of_nat n :: u32) mod 4 \<noteq> 0 then 4 - of_nat n mod 4 else 0) = (of_nat (align4 n) :: u32)"
proof -
  assume "n < 2 ^ 32"
  then have "unat ((of_nat n :: u32) mod 4) = n mod 4" by (simp add: unat_mod unat_of_nat_u32)
  then have "(of_nat n :: u32) mod 4 = of_nat (n mod 4)" by (simp add: word_unat_eq_iff unat_of_nat_u32)
  moreover have "(of_nat (n mod 4) :: u32) = 0 \<longleftrightarrow> n mod 4 = 0" by (simp add: word_unat_eq_iff unat_of_nat_u32)
  ultimately show ?thesis by (auto simp: align4_def of_nat_diff)
qed

text \<open>The stack of \<^verbatim>\<open>start_process\<close>: a return address, the number of arguments, their vector with a null
  pointer at its end, padding, and the words.\<close>

definition frame_size :: "u8 list list \<Rightarrow> nat" where
  "frame_size ws = length (strs ws) + align4 (length (strs ws)) + 4 + 4 * length ws + 12"

definition stack_image :: "u8 list list \<Rightarrow> u8 list" where
  "stack_image ws =
     le_bytes 4 0 @ le_bytes 4 (length ws) @ le_bytes 4 (unat (below_base (frame_size ws - 12))) @
     word_bytes (ptrs (below_base (length (strs ws))) ws) @ replicate (align4 (length (strs ws)) + 4) 0 @ strs ws"

lemma length_stack_image: "length (stack_image ws) = frame_size ws"
  by (simp add: stack_image_def frame_size_def)

lemma kwrite_prepend:
  assumes "unat a + length xs + length ys \<le> 2 ^ 32" "b = a + of_nat (length xs)"
  shows "kwrite a xs (kwrite b ys m) = kwrite a (xs @ ys) m"
proof (cases "length xs = 0 \<or> ys = []")
  case True
  then show ?thesis using assms by (auto simp: kwrite_def)
next
  case False
  then have "unat b = unat a + length xs" unfolding assms(2) using assms(1) by (intro unat_plus_of_nat) (cases ys; simp)
  then show ?thesis using kwrite_commute [of a xs b ys m] kwrite_append [of xs ys a m] assms by simp
qed


lemma build_stack_eval:
  assumes "count_args F F d tok2 save2 0 0 m = Inr (len, cnt, m1)"
    and "(if len mod 4 \<noteq> 0 then 4 - len mod 4 else 0) = al" "esp - len = st" "st - (al + 4) = tp" "unat (al + 4) = z"
    and "user_stack tp z" "memset tp 0 z m1 = Inr (x, m2)" "tp - 4 * cnt = av" "push_args F F d tok1 save1 st av m2 = Inr (t, m3)"
    and "t - (4 * cnt + 4) = b1" "b1 - 8 = b3" "b3 + 4 = b2" "user_stack b1 4" "user_stack b2 4" "user_stack b3 4"
  shows "build_stack F d (tok1, save1) (tok2, save2) esp m =
     Inr (b3, kwrite b3 (le_bytes 4 0) (kwrite b2 (le_bytes 4 (unat cnt)) (kwrite b1 (le_bytes 4 (unat av)) m3)))"
  by (simp only: build_stack_def Let_def prod.case assms rbind_Inr put_word_def kdefined_True unat_0)

lemma build_stack_spec:
  assumes t1: "tokens m d tok1 save1 lo1 hi1 ws" and t2: "tokens m d tok2 save2 lo2 hi2 ws"
    and ker: "unat PHYS_BASE \<le> lo1" "unat PHYS_BASE \<le> lo2" "unat PHYS_BASE \<le> unat d" "hi1 < lo2 \<or> hi2 < lo1"
    and fuel: "hi1 + 1 < F + lo1" "hi2 + 1 < F + lo2" "length ws < F" and fits: "frame_size ws \<le> 4096"
  shows "\<exists>m'. build_stack F d (tok1, save1) (tok2, save2) PHYS_BASE m = Inr (below_base (frame_size ws), m') \<and>
     (\<forall>x. unat x < unat PHYS_BASE \<longrightarrow> m' x = kwrite (below_base (frame_size ws)) (stack_image ws) m x)"
proof -
  define n L al where "n = length ws" and "L = length (strs ws)" and "al = align4 L"
  have T: "frame_size ws = L + al + 4 + 4 * n + 12" by (simp add: frame_size_def n_def L_def al_def)
  have le: "L + al + 4 + 4 * n + 12 \<le> 4096" using fits T by simp
  have PB: "unat PHYS_BASE = 3221225472" by (simp add: PHYS_BASE_def)
  obtain m1 where c: "count_args F F d tok2 save2 0 0 m = Inr (of_nat L, of_nat n, m1)" "\<forall>x. unat x < lo2 \<or> hi2 \<le> unat x \<longrightarrow> m1 x = m x"
    using count_args_spec [OF t2 fuel(2,3), of 0 0] by (auto simp: L_def n_def)
  have m1u: "m1 x = m x" if "unat x < unat PHYS_BASE" for x using c(2) that ker(2) by auto
  have bd: "unat (d + 1) = unat d + 1" "unat d + 1 < lo2 \<or> hi2 < unat d" using t2 unat_Suc [of d] by (auto simp: tokens_def)
  let ?tp = "below_base (L + al + 4)" and ?av = "below_base (L + al + 4 + 4 * n)" and ?st = "below_base L"
  let ?Z = "replicate (al + 4) (0 :: u8)" let ?m2 = "kwrite ?tp ?Z m1"
  have u: "k \<le> 4096 \<Longrightarrow> unat (below_base k) = 3221225472 - k" for k using unat_below_base [of k] PB by simp
  have "unat ?tp \<noteq> 0" using u [of "L + al + 4"] le by simp
  then have "?tp \<noteq> 0" by auto
  then have ms: "memset ?tp 0 (al + 4) m1 = Inr (?tp, ?m2)" using le memset_loop_kwrite [of "al + 4" ?tp 0 m1] by (simp add: memset_def)
  have g: "user_stack ?tp (al + 4)" using le by (simp add: user_stack_below)
  have kern: "?m2 x = m1 x" if "unat PHYS_BASE \<le> unat x" for x
    using in_block_iff [of ?tp "al + 4" x] that u [of "L + al + 4"] le PB by (auto simp: kwrite_def)
  have tk: "tokens ?m2 d tok1 save1 lo1 hi1 ws"
    by (rule tokens_frame [OF t1]) (use kern c(2) ker bd in auto)
  have q: "unat PHYS_BASE - 4096 \<le> unat ?av" "unat ?av + 4 * length ws \<le> unat ?st" "unat ?st + length (strs ws) \<le> unat PHYS_BASE"
    using u [of "L + al + 4 + 4 * n"] u [of L] le PB unfolding n_def [symmetric] L_def [symmetric] by auto
  obtain m3 where p: "push_args F F d tok1 save1 ?st ?av ?m2 = Inr (?av + of_nat (4 * n), m3)"
      "\<And>x. unat x < unat PHYS_BASE \<Longrightarrow> m3 x = kwrite ?av (word_bytes (ptrs ?st ws)) (kwrite ?st (strs ws) ?m2) x"
    using push_args_spec [OF tk fuel(1) ker(1,3) q fuel(3)] unfolding n_def [symmetric] by blast
  let ?b1 = "below_base (L + al + 4 + 4 * n + 4)" and ?b2 = "below_base (L + al + 4 + 4 * n + 8)" and ?b3 = "below_base (frame_size ws)"
  have a: "PHYS_BASE - of_nat L = ?st" "?st - (of_nat al + 4) = ?tp" "?tp - 4 * of_nat n = ?av" "?av + of_nat (4 * n) = ?tp"
      "?tp - (4 * of_nat n + 4) = ?b1" "?b1 - 8 = ?b3" "?b3 + 4 = ?b2" "unat (of_nat al + 4 :: u32) = al + 4"
    using unat_of_nat_u32 [of "al + 4"] le by (simp_all add: below_base_def T algebra_simps)
  let ?m6 = "kwrite ?b3 (le_bytes 4 0) (kwrite ?b2 (le_bytes 4 n) (kwrite ?b1 (le_bytes 4 (unat ?av)) m3))"
  have us: "user_stack ?b1 4" "user_stack ?b2 4" "user_stack ?b3 4"
    using le T by (simp_all add: user_stack_below)
  have un: "unat (of_nat n :: u32) = n" using le by (intro unat_of_nat_u32) simp
  have al: "(if (of_nat L :: u32) mod 4 \<noteq> 0 then 4 - of_nat L mod 4 else 0) = (of_nat al :: u32)"
    unfolding al_def by (rule word_align_eq) (use le in simp)
  have res: "build_stack F d (tok1, save1) (tok2, save2) PHYS_BASE m = Inr (?b3, ?m6)"
    using build_stack_eval [OF c(1) al a(1,2,8) g ms a(3) p(1) [unfolded a(4)] a(5-7) us] unfolding un .
  let ?P = "word_bytes (ptrs ?st ws)" let ?S = "strs ws"
  have step: "kwrite (below_base (k + length xs)) xs (kwrite (below_base k) ys mm) = kwrite (below_base (k + length xs)) (xs @ ys) mm"
    if "k + length xs \<le> 4096" "length ys = k" for k xs ys mm
    by (rule kwrite_prepend) (use that u [of "k + length xs"] below_base_add [of "length xs" "k + length xs"] in simp_all)
  have "kwrite ?st ?S ?m2 = kwrite ?tp (?Z @ ?S) m1"
    using kwrite_append [of ?Z ?S ?tp m1] below_base_add [of "al + 4" "L + al + 4"] le by (simp add: L_def)
  moreover have "frame_size ws - 12 = L + al + 4 + 4 * n" using T by simp
  then have si: "stack_image ws = le_bytes 4 0 @ le_bytes 4 n @ le_bytes 4 (unat ?av) @ ?P @ ?Z @ ?S"
    unfolding stack_image_def by (simp only: n_def [symmetric] L_def [symmetric] al_def [symmetric])
  ultimately have img: "kwrite ?b3 (le_bytes 4 0) (kwrite ?b2 (le_bytes 4 n) (kwrite ?b1 (le_bytes 4 (unat ?av)) (kwrite ?av ?P (kwrite ?st ?S ?m2)))) =
      kwrite ?b3 (stack_image ws) m1"
    using step [of "L + al + 4" ?P "?Z @ ?S"] step [of "L + al + 4 + 4 * n" "le_bytes 4 (unat ?av)" "?P @ ?Z @ ?S"]
      step [of "L + al + 4 + 4 * n + 4" "le_bytes 4 n" "le_bytes 4 (unat ?av) @ ?P @ ?Z @ ?S"]
      step [of "L + al + 4 + 4 * n + 8" "le_bytes 4 0" "le_bytes 4 n @ le_bytes 4 (unat ?av) @ ?P @ ?Z @ ?S"] le T
    unfolding si by (simp add: n_def [symmetric] L_def [symmetric])
  have "?m6 x = kwrite ?b3 (stack_image ws) m x" if x: "unat x < unat PHYS_BASE" for x
  proof -
    have "?m6 x = kwrite ?b3 (le_bytes 4 0) (kwrite ?b2 (le_bytes 4 n) (kwrite ?b1 (le_bytes 4 (unat ?av)) (kwrite ?av ?P (kwrite ?st ?S ?m2)))) x"
      by (intro kwrite_at p(2) x)
    also have "\<dots> = kwrite ?b3 (stack_image ws) m x" unfolding img by (intro kwrite_at m1u x)
    finally show ?thesis .
  qed
  then show ?thesis using res by blast
qed


subsection \<open>Reading the stack\<close>

definition mword :: "mem \<Rightarrow> u32 \<Rightarrow> u32" where
  "mword m a = of_nat (le_val (kread a 4 m))"

lemma kread_slice: "k + n \<le> N \<Longrightarrow> kread (a + of_nat k) n m = take n (drop k (kread a N m))"
  using kread_add [of a k "n + (N - k - n)" m] kread_add [of "a + of_nat k" n "N - k - n" m] by (simp add: add.assoc)

lemma word_bytes_nth: "i < length ps \<Longrightarrow> take 4 (drop (4 * i) (word_bytes ps)) = le_bytes 4 (unat (ps ! i))"
proof (induction ps arbitrary: i)
  case (Cons p ps)
  then show ?case by (cases i) auto
qed simp

lemma ptrs_nth: "i < length ws \<Longrightarrow> ptrs st ws ! i = st + of_nat (length (strs (take i ws)))"
proof (induction ws arbitrary: st i)
  case (Cons w ws)
  then show ?case by (cases i) (auto simp: ac_simps)
qed simp

lemma strs_nth: "i < length ws \<Longrightarrow> take (length (ws ! i) + 1) (drop (length (strs (take i ws))) (strs ws)) = ws ! i @ [0]"
proof -
  assume "i < length ws"
  then have "strs ws = strs (take i ws) @ (ws ! i @ [0]) @ strs (drop (Suc i) ws)"
    by (subst id_take_nth_drop [of i ws]) (simp_all add: strs_def)
  then show ?thesis by simp
qed

lemma strs_prefix: "i < length ws \<Longrightarrow> length (strs (take i ws)) + length (ws ! i) + 1 \<le> length (strs ws)"
  by (subst (2) id_take_nth_drop [of i ws]) (simp_all add: strs_def)

lemma cstr_no0: "cstr m a s \<Longrightarrow> 0 \<notin> set s"
  by (induction s arbitrary: a) auto

lemma cstr_kread: "kread a (length s + 1) m = s @ [0] \<Longrightarrow> 0 \<notin> set s \<Longrightarrow> a \<noteq> 0 \<Longrightarrow> unat a + length s < 2 ^ 32 \<Longrightarrow> cstr m a s"
proof (induction s arbitrary: a)
  case (Cons c s)
  have "kread a (length (c # s) + 1) m = m a # kread (a + 1) (length s + 1) m"
    using kread_add [of a 1 "length s + 1" m] by (simp add: kread_def)
  then have k: "m a = c" "kread (a + 1) (length s + 1) m = s @ [0]" using Cons.prems(1) by auto
  have "unat (a + of_nat 1) = unat a + 1" by (rule unat_plus_of_nat) (use Cons.prems(4) in simp)
  then have u: "unat (a + 1) = unat a + 1" by simp
  then have "a + 1 \<noteq> 0" by auto
  then show ?case using Cons.IH [OF k(2)] Cons.prems k(1) u by auto
qed (simp add: kread_def)

lemma word_in_str: "w \<in> set (words D str) \<Longrightarrow> set w \<subseteq> set str"
proof (induction D str rule: words.induct)
  case (1 D str)
  have f: "set (first_word D str) \<subseteq> set str" "set (after_word D str) \<subseteq> set str"
    unfolding first_word_def after_word_def by (auto dest!: set_takeWhileD set_dropWhileD in_set_dropD)
  show ?case
  proof (cases "dropWhile (\<lambda>c. c \<in> D) str = []")
    case True
    then have "words D str = []" by (subst words.simps) simp
    then show ?thesis using 1(2) by simp
  next
    case False
    then have "words D str = first_word D str # words D (after_word D str)" by (subst words.simps) simp
    then have "w = first_word D str \<or> w \<in> set (words D (after_word D str))" using 1(2) by simp
    then show ?thesis using 1(1) [OF False] f by blast
  qed
qed

lemma length_words: "length (words D str) \<le> length str"
proof (induction D str rule: words.induct)
  case (1 D str)
  show ?case
  proof (cases "dropWhile (\<lambda>c. c \<in> D) str = []")
    case True
    then have "words D str = []" by (subst words.simps) simp
    then show ?thesis by simp
  next
    case False
    then have "words D str = first_word D str # words D (after_word D str)" by (subst words.simps) simp
    then show ?thesis using 1 [OF False] after_word_less [OF False] by simp
  qed
qed

lemma mword_at:
  assumes "kread e N m = img" "k + 4 \<le> N" "take 4 (drop k img) = le_bytes 4 (unat v)"
  shows "mword m (e + of_nat k) = v"
  using kread_slice [OF assms(2), of e m] assms(1,3) unat_u32_less [of v] by (simp add: mword_def)

lemma le_bytes_zero: "le_bytes n 0 = replicate n 0"
  by (induction n) (simp_all add: le_bytes.simps)

lemma stack_image_reads:
  fixes ws :: "u8 list list"
  defines "n \<equiv> length ws" and "e \<equiv> below_base (frame_size ws)"
  assumes k: "kread e (frame_size ws) m = stack_image ws" and fits: "frame_size ws \<le> 4096" and z: "\<And>w. w \<in> set ws \<Longrightarrow> 0 \<notin> set w"
  shows "mword m e = 0" "mword m (e + 4) = of_nat n" "mword m (e + 8) = e + 12"
    "i < n \<Longrightarrow> cstr m (mword m (e + 12 + of_nat (4 * i))) (ws ! i)" "mword m (e + 12 + of_nat (4 * n)) = 0" "unat e mod 4 = 0"
proof -
  let ?L = "length (strs ws)" let ?al = "align4 ?L" let ?st = "below_base ?L"
  have T: "frame_size ws = ?L + ?al + 4 + 4 * n + 12" by (simp add: frame_size_def n_def)
  have e12: "e + 12 = below_base (frame_size ws - 12)" using below_base_add [of 12 "frame_size ws"] T by (simp add: e_def)
  have un: "unat (of_nat n :: u32) = n" using fits T by (intro unat_of_nat_u32) simp
  have img: "stack_image ws = le_bytes 4 0 @ le_bytes 4 n @ le_bytes 4 (unat (e + 12)) @ word_bytes (ptrs ?st ws) @ replicate (?al + 4) 0 @ strs ws"
    by (simp only: stack_image_def e12 n_def)
  show "mword m e = 0" using mword_at [OF k, of 0 0] T by (simp add: img)
  show "mword m (e + 4) = of_nat n" using mword_at [OF k, of 4 "of_nat n"] T un by (simp add: img)
  show "mword m (e + 8) = e + 12" using mword_at [OF k, of 8 "e + 12"] T by (simp add: img)
  have d12: "drop (12 + j) (stack_image ws) = drop j (word_bytes (ptrs ?st ws) @ replicate (?al + 4) 0 @ strs ws)" for j
    by (simp add: img)
  have "take 4 (replicate (?al + 4) (0 :: u8) @ strs ws) = le_bytes 4 0" by (simp add: le_bytes_zero)
  then show "mword m (e + 12 + of_nat (4 * n)) = 0"
    using mword_at [OF k, of "12 + 4 * n" 0] T d12 [of "4 * n"] by (simp add: n_def add.assoc)
  show "unat e mod 4 = 0"
  proof -
    obtain q where q: "?L + ?al = 4 * q" using align4_facts(2) [of ?L] by (auto elim!: dvdE)
    have "unat e = 3221225472 - (4 * q + 4 + 4 * n + 12)" using unat_below_base [OF fits] T q by (simp add: e_def PHYS_BASE_def)
    also have "\<dots> = 4 * (805306368 - (q + 1 + n + 3))" by (simp add: diff_mult_distrib2)
    finally show ?thesis by simp
  qed
  assume i: "i < n"
  let ?p = "ptrs ?st ws ! i" let ?o = "length (strs (take i ws))"
  have pf: "?o + length (ws ! i) + 1 \<le> ?L" "ptrs ?st ws ! i = ?st + of_nat ?o" using i strs_prefix ptrs_nth by (auto simp: n_def)
  have "mword m (e + of_nat (12 + 4 * i)) = ?p"
    by (rule mword_at [OF k]) (use i T d12 [of "4 * i"] word_bytes_nth [of i "ptrs ?st ws"] in \<open>simp_all add: n_def\<close>)
  then have mp: "mword m (e + 12 + of_nat (4 * i)) = ?p" by (simp add: add.assoc)
  let ?k = "12 + 4 * n + (?al + 4) + ?o"
  have pe: "?p = e + of_nat ?k"
  proof -
    have "e + of_nat ?k = below_base (frame_size ws - ?k)" unfolding e_def by (rule below_base_add) (use T pf(1) in simp)
    also have "frame_size ws - ?k = ?L - ?o" using T by simp
    also have "below_base (?L - ?o) = ?p" unfolding pf(2) using below_base_add [of ?o ?L] pf(1) by simp
    finally show ?thesis by simp
  qed
  have "kread ?p (length (ws ! i) + 1) m = take (length (ws ! i) + 1) (drop ?k (stack_image ws))"
    unfolding pe using kread_slice [of ?k "length (ws ! i) + 1" "frame_size ws" e m] k T pf(1) by simp
  also have "\<dots> = ws ! i @ [0]" using strs_nth [of i ws] i by (simp add: img n_def)
  finally have kr: "kread ?p (length (ws ! i) + 1) m = ws ! i @ [0]" .
  have up: "unat ?p = unat PHYS_BASE - (?L - ?o)"
    unfolding pf(2) using below_base_add [of ?o ?L] unat_below_base [of "?L - ?o"] pf(1) T fits by simp
  have "?p \<noteq> 0" using up T fits by (auto simp: PHYS_BASE_def)
  moreover have "unat ?p + length (ws ! i) < 2 ^ 32" using up pf(1) T fits by (simp add: PHYS_BASE_def)
  ultimately show "cstr m (mword m (e + 12 + of_nat (4 * i))) (ws ! i)"
    unfolding mp using cstr_kread [OF kr] z [of "ws ! i"] i by (simp add: n_def)
qed


subsection \<open>The copies of the command line\<close>

definition apart :: "(u32 \<times> nat) list \<Rightarrow> bool" where
  "apart xs \<longleftrightarrow> sorted_wrt (\<lambda>(a, n) (b, k). unat a + n \<le> unat b \<or> unat b + k \<le> unat a) xs"

lemma copy_command_cstr:
  assumes "cstr m src str" "dst \<noteq> 0" "unat dst + length str < 2 ^ 32" "length str < fuel" "apart [(src, length str + 1), (dst, length str + 1)]"
  shows "copy_command fuel dst src m = Inr (kwrite dst (str @ [0]) m)"
proof -
  let ?n = "length str"
  have b: "unat src + ?n < 2 ^ 32" by (rule cstr_bound [OF assms(1)])
  have ne: "src + of_nat i \<noteq> dst + of_nat j" if "i < ?n" "j < i" for i j
    using that b assms(3,5) unat_plus_of_nat [of src i] unat_plus_of_nat [of dst j] by (auto simp: apart_def)
  have "kread src (?n + 1) m = str @ [0]" by (rule kread_cstr [OF assms(1)])
  then have "kread src ?n m = str" by (simp add: kread_def)
  then have "memcpy_loop dst src ?n m = kwrite dst str m" using memcpy_loop_kwrite [of ?n src dst m] ne b by simp
  moreover have "(kwrite dst str m)(dst + of_nat ?n := 0) = kwrite dst (str @ [0]) m"
  proof -
    have "(kwrite dst str m)(dst + of_nat ?n := 0) = kwrite (dst + of_nat ?n) [0] (kwrite dst str m)"
      by (auto simp: kwrite_def fun_eq_iff unat_eq_zero)
    then show ?thesis using kwrite_append [of str "[0]" dst m] assms(3) by simp
  qed
  moreover have "0 < unat dst" using assms(2) by (simp add: unat_gt_0)
  then have "sz (?n + 1) = ?n + 1" using assms(3) by (intro sz_id) simp
  ultimately show ?thesis
    using assms(2) strlen_cstr [OF assms(1,4)] cstr_nonnull [OF assms(1)] by (simp add: copy_command_def strlcpy_def memcpy_def)
qed

lemma cstr_kwrite:
  assumes "a \<noteq> 0" "unat a + length s < 2 ^ 32" "0 \<notin> set s"
  shows "cstr (kwrite a (s @ [0]) m) a s"
  by (rule cstr_kread) (use assms kread_kwrite_same [of "s @ [0]" a m] in auto)

lemma kwrite_frame: "unat a + length bs \<le> 2 ^ 32 \<Longrightarrow> unat x < unat a \<or> unat a + length bs \<le> unat x \<Longrightarrow> kwrite a bs m x = m x"
  using in_block_iff [of a "length bs" x] by (auto simp: kwrite_def)

text \<open>Copying a string and cutting off its first token.\<close>

lemma copy_and_cut:
  assumes c: "cstr m src str" "cstr m d [32]" and t: "t \<noteq> 0" "unat t + length str < 2 ^ 32" and F: "length str + 2 < F"
    and ap: "apart [(src, length str + 1), (t, length str + 1), (d, 2)]"
  shows "\<exists>m1 tok save m2. copy_command F t src m = Inr m1 \<and> strtok_r F t d 0 m1 = Inr (tok, save, m2) \<and>
     tokens m2 d tok save (unat t) (unat t + length str) (words {32} str) \<and>
     (\<forall>x. unat x < unat t \<or> unat t + length str < unat x \<longrightarrow> m2 x = m x)"
proof -
  let ?n = "length str" let ?m1 = "kwrite t (str @ [0]) m"
  have cp: "copy_command F t src m = Inr ?m1" by (rule copy_command_cstr [OF c(1) t]) (use F ap in \<open>auto simp: apart_def\<close>)
  have fr: "?m1 x = m x" if "unat x < unat t \<or> unat t + ?n < unat x" for x by (rule kwrite_frame) (use that t(2) in auto)
  have bd: "unat (d + 1) = unat d + 1" using c(2) unat_Suc [of d] by auto
  have apd: "unat t + ?n + 1 \<le> unat d \<or> unat d + 2 \<le> unat t" using ap by (simp add: apart_def)
  have cd: "cstr ?m1 d [32]" using c(2) fr [of d] fr [of "d + 1"] bd apd by auto
  have ct: "cstr ?m1 t str" by (rule cstr_kwrite [OF t]) (use cstr_no0 [OF c(1)] in simp)
  obtain tok save m2 where "strtok_r F t d 0 ?m1 = Inr (tok, save, m2)" "tokens m2 d tok save (unat t) (unat t + ?n) (words {32} str)"
      "\<forall>x. unat x < unat t \<or> unat t + ?n \<le> unat x \<longrightarrow> m2 x = ?m1 x"
    using tokens_step [OF ct _ cd, of t 0 "unat t" "unat t + ?n" F] t(1) apd F by auto
  then show ?thesis using cp fr by (intro exI [of _ ?m1] exI [of _ tok] exI [of _ save] exI [of _ m2]) auto
qed

lemma parse_command_spec:
  assumes c: "cstr m cmd str" "cstr m d [32]" and t: "t1 \<noteq> 0" "unat t1 + length str < 2 ^ 32" "t2 \<noteq> 0" "unat t2 + length str < 2 ^ 32"
    and F: "length str + 2 < F" and ap: "apart [(cmd, length str + 1), (t1, length str + 1), (t2, length str + 1), (d, 2)]"
  shows "\<exists>a b a' b' m'. parse_command F d cmd t1 t2 m = Inr ((a, b), (a', b'), m') \<and>
     tokens m' d a b (unat t1) (unat t1 + length str) (words {32} str) \<and>
     tokens m' d a' b' (unat t2) (unat t2 + length str) (words {32} str) \<and>
     (\<forall>x. (unat x < unat t1 \<or> unat t1 + length str < unat x) \<and> (unat x < unat t2 \<or> unat t2 + length str < unat x) \<longrightarrow> m' x = m x)"
proof -
  let ?n = "length str"
  have A: "unat cmd + ?n + 1 \<le> unat t1 \<or> unat t1 + ?n + 1 \<le> unat cmd" "unat cmd + ?n + 1 \<le> unat t2 \<or> unat t2 + ?n + 1 \<le> unat cmd"
      "unat t1 + ?n + 1 \<le> unat t2 \<or> unat t2 + ?n + 1 \<le> unat t1" "unat t1 + ?n + 1 \<le> unat d \<or> unat d + 2 \<le> unat t1"
      "unat t2 + ?n + 1 \<le> unat d \<or> unat d + 2 \<le> unat t2" "unat cmd + ?n + 1 \<le> unat d \<or> unat d + 2 \<le> unat cmd"
    using ap by (simp_all add: apart_def)
  have ap1: "apart [(cmd, ?n + 1), (t1, ?n + 1), (d, 2)]" "apart [(cmd, ?n + 1), (t2, ?n + 1), (d, 2)]" using A by (simp_all add: apart_def)
  obtain m1 a b m2 where s1: "copy_command F t1 cmd m = Inr m1" "strtok_r F t1 d 0 m1 = Inr (a, b, m2)"
      "tokens m2 d a b (unat t1) (unat t1 + ?n) (words {32} str)" "\<forall>x. unat x < unat t1 \<or> unat t1 + ?n < unat x \<longrightarrow> m2 x = m x"
    using copy_and_cut [OF c t(1,2) F ap1(1)] by blast
  have bd: "unat (d + 1) = unat d + 1" using c(2) unat_Suc [of d] by auto
  have "cstr m2 cmd str"
    by (rule cstr_cong [OF c(1)]) (use s1(4) A(1) cstr_bound [OF c(1)] in \<open>auto simp: unat_plus_of_nat\<close>)
  moreover have "cstr m2 d [32]" using s1(3) by (simp add: tokens_def)
  ultimately obtain m3 a' b' m4 where s2: "copy_command F t2 cmd m2 = Inr m3" "strtok_r F t2 d 0 m3 = Inr (a', b', m4)"
      "tokens m4 d a' b' (unat t2) (unat t2 + ?n) (words {32} str)" "\<forall>x. unat x < unat t2 \<or> unat t2 + ?n < unat x \<longrightarrow> m4 x = m2 x"
    using copy_and_cut [OF _ _ t(3,4) F ap1(2)] by blast
  have "tokens m4 d a b (unat t1) (unat t1 + ?n) (words {32} str)"
    by (rule tokens_frame [OF s1(3)]) (use s2(4) A(3,5) bd in auto)
  then show ?thesis using s1 s2 by (auto simp: parse_command_def)
qed

end
