(* ===== verification/Loader.thy ===== *)
theory Loader
  imports Pagedir Filesys Arguments
begin

unbundle bit_operations_syntax

text \<open>
  Loading user programs (src/pintos2/src/userprog/process.c): the headers of an executable, the checks
  on its segments, reading the segments into pages of the new process, and its stack.

  The state pairs the memory (\<open>vm\<close>) with the file system (\<open>fs\<close>); the running thread is \<^verbatim>\<open>cur_tid\<close> and its
  page directory is the entry of \<^verbatim>\<open>pagedirs\<close>. \<^verbatim>\<open>goto done\<close> is the result \<open>False\<close> of the part before the
  label. \<^verbatim>\<open>tss_update\<close> writes a register of the processor and is left out.
\<close>

record user_state =
  vm_of :: vm
  fs_of :: fs
  is_running :: bool

definition on_vm :: "(vm \<Rightarrow> ('a \<times> vm) res) \<Rightarrow> user_state \<Rightarrow> ('a \<times> user_state) res" where
  "on_vm f s = rbind (f (vm_of s)) (\<lambda>(x, v). Inr (x, s\<lparr>vm_of := v\<rparr>))"

definition do_vm :: "(vm \<Rightarrow> vm res) \<Rightarrow> user_state \<Rightarrow> user_state res" where
  "do_vm f s = rbind (f (vm_of s)) (\<lambda>v. Inr (s\<lparr>vm_of := v\<rparr>))"

definition do_fs :: "(fs \<Rightarrow> fs res) \<Rightarrow> user_state \<Rightarrow> user_state res" where
  "do_fs f s = rbind (f (fs_of s)) (\<lambda>v. Inr (s\<lparr>fs_of := v\<rparr>))"

subsection \<open>ELF headers\<close>

record Elf32_Ehdr =
  e_ident :: "u8 list"
  e_type :: nat
  e_machine :: nat
  e_version :: nat
  e_entry :: u32
  e_phoff :: u32
  e_phentsize :: nat
  e_phnum :: nat

record Elf32_Phdr =
  p_type :: u32
  p_offset :: u32
  p_vaddr :: u32
  p_filesz :: u32
  p_memsz :: u32
  p_flags :: u32

definition field :: "nat \<Rightarrow> nat \<Rightarrow> u8 list \<Rightarrow> nat" where
  "field ofs n bs = le_val (take n (drop ofs bs))"

definition sizeof_Ehdr :: nat where "sizeof_Ehdr = 52"
definition sizeof_Phdr :: nat where "sizeof_Phdr = 32"

definition ehdr_of :: "u8 list \<Rightarrow> Elf32_Ehdr" where
  "ehdr_of bs = \<lparr>e_ident = take 16 bs, e_type = field 16 2 bs, e_machine = field 18 2 bs, e_version = field 20 4 bs,
     e_entry = of_nat (field 24 4 bs), e_phoff = of_nat (field 28 4 bs), e_phentsize = field 42 2 bs, e_phnum = field 44 2 bs\<rparr>"

definition phdr_of :: "u8 list \<Rightarrow> Elf32_Phdr" where
  "phdr_of bs = \<lparr>p_type = of_nat (field 0 4 bs), p_offset = of_nat (field 4 4 bs), p_vaddr = of_nat (field 8 4 bs),
     p_filesz = of_nat (field 16 4 bs), p_memsz = of_nat (field 20 4 bs), p_flags = of_nat (field 24 4 bs)\<rparr>"

definition PT_NULL :: u32 where "PT_NULL = 0"
definition PT_LOAD :: u32 where "PT_LOAD = 1"
definition PT_DYNAMIC :: u32 where "PT_DYNAMIC = 2"
definition PT_INTERP :: u32 where "PT_INTERP = 3"
definition PT_SHLIB :: u32 where "PT_SHLIB = 5"
definition PF_W :: u32 where "PF_W = 2"

subsection \<open>Segments\<close>

definition validate_segment :: "Elf32_Phdr \<Rightarrow> u32 \<Rightarrow> bool" where
  "validate_segment phdr file_len =
     (if (p_offset phdr AND PGMASK) \<noteq> (p_vaddr phdr AND PGMASK) then False
      else if p_offset phdr > file_len then False
      else if p_memsz phdr < p_filesz phdr then False
      else if p_memsz phdr = 0 then False
      else if \<not> is_user_vaddr (p_vaddr phdr) then False
      else if \<not> is_user_vaddr (p_vaddr phdr + p_memsz phdr) then False
      else if p_vaddr phdr + p_memsz phdr < p_vaddr phdr then False
      else if p_vaddr phdr < of_nat PGSIZE then False
      else True)"

definition install_page :: "u32 \<Rightarrow> u32 \<Rightarrow> bool \<Rightarrow> vm \<Rightarrow> (bool \<times> vm) res" where
  "install_page upage kpage writable s =
     (case pagedirs s (cur_tid s) of
        None \<Rightarrow> Inl Assertion
      | Some pd \<Rightarrow>
          rbind (pagedir_get_page pd upage s) (\<lambda>p.
            if p = 0 then pagedir_set_page page_swap_to_disk pd upage kpage writable s else Inr (False, s)))"

fun load_segment_loop :: "nat \<Rightarrow> nat \<Rightarrow> u32 \<Rightarrow> u32 \<Rightarrow> u32 \<Rightarrow> bool \<Rightarrow> user_state \<Rightarrow> (bool \<times> user_state) res" where
  "load_segment_loop 0 f upage read_bytes zero_bytes writable s = Inl Diverged"
| "load_segment_loop (Suc fuel) f upage read_bytes zero_bytes writable s =
     (if read_bytes > 0 \<or> zero_bytes > 0 then
        let page_read_bytes = (if read_bytes < of_nat PGSIZE then read_bytes else of_nat PGSIZE);
            page_zero_bytes = of_nat PGSIZE - page_read_bytes
        in rbind (on_vm (palloc_get_page page_swap_to_disk PAL_USER) s) (\<lambda>(kpage, s1).
             if kpage = 0 then Inr (False, s1)
             else rbind (file_read f (int (unat page_read_bytes)) (fs_of s1)) (\<lambda>(n, data, fs1).
               let s2 = s1\<lparr>fs_of := fs1, vm_of := (vm_of s1)\<lparr>kmem := kwrite kpage data (kmem (vm_of s1))\<rparr>\<rparr>
               in if n \<noteq> int (unat page_read_bytes)
                  then rbind (do_vm (palloc_free_page kpage) s2) (\<lambda>s3. Inr (False, s3))
                  else (let s3 = s2\<lparr>vm_of := (vm_of s2)\<lparr>kmem := kmemset (kpage + page_read_bytes) 0 (unat page_zero_bytes) (kmem (vm_of s2))\<rparr>\<rparr>
                        in rbind (on_vm (install_page upage kpage writable) s3) (\<lambda>(ok, s4).
                             if \<not> ok then rbind (do_vm (palloc_free_page kpage) s4) (\<lambda>s5. Inr (False, s5))
                             else load_segment_loop fuel f (upage + of_nat PGSIZE) (read_bytes - page_read_bytes)
                                    (zero_bytes - page_zero_bytes) writable s4))))
      else Inr (True, s))"

definition load_segment :: "nat \<Rightarrow> nat \<Rightarrow> int \<Rightarrow> u32 \<Rightarrow> u32 \<Rightarrow> u32 \<Rightarrow> bool \<Rightarrow> user_state \<Rightarrow> (bool \<times> user_state) res" where
  "load_segment fuel f ofs upage read_bytes zero_bytes writable s =
     kassert ((read_bytes + zero_bytes) mod of_nat PGSIZE = 0)
      (kassert (pg_ofs upage = 0)
       (kassert (ofs mod int PGSIZE = 0)
        (rbind (do_fs (file_seek f ofs) s) (\<lambda>s1. load_segment_loop fuel f upage read_bytes zero_bytes writable s1))))"

definition setup_stack :: "user_state \<Rightarrow> (u32 option \<times> user_state) res" where
  "setup_stack s =
     rbind (on_vm (palloc_get_page page_swap_to_disk (PAL_USER OR PAL_ZERO)) s) (\<lambda>(kpage, s1).
       if kpage \<noteq> 0 then
         rbind (on_vm (install_page (PHYS_BASE - of_nat PGSIZE) kpage True) s1) (\<lambda>(success, s2).
           if success then Inr (Some PHYS_BASE, s2)
           else rbind (do_vm (palloc_free_page kpage) s2) (\<lambda>s3. Inr (None, s3)))
       else Inr (None, s1))"

definition process_activate :: "vm \<Rightarrow> vm res" where
  "process_activate s = pagedir_activate (case pagedirs s (cur_tid s) of None \<Rightarrow> 0 | Some pd \<Rightarrow> pd) s"

text \<open>What \<^verbatim>\<open>load\<close> asks of \<^verbatim>\<open>load_segment\<close>: the page of the file, the page of memory, and the bytes to
  read and to zero.\<close>

definition segment_extent :: "Elf32_Phdr \<Rightarrow> u32 \<times> u32 \<times> u32 \<times> u32" where
  "segment_extent phdr =
     (let file_page = p_offset phdr AND NOT PGMASK;
          mem_page = p_vaddr phdr AND NOT PGMASK;
          page_offset = p_vaddr phdr AND PGMASK;
          end_bytes = of_nat (ROUND_UP (unat (page_offset + p_memsz phdr)) PGSIZE)
      in if p_filesz phdr > 0
         then (file_page, mem_page, page_offset + p_filesz phdr, end_bytes - (page_offset + p_filesz phdr))
         else (file_page, mem_page, 0, end_bytes))"

fun load_headers :: "nat \<Rightarrow> nat \<Rightarrow> nat \<Rightarrow> int \<Rightarrow> user_state \<Rightarrow> (bool \<times> user_state) res" where
  "load_headers fuel 0 f file_ofs s = Inr (True, s)"
| "load_headers fuel (Suc i) f file_ofs s =
     rbind (file_length f (fs_of s)) (\<lambda>len.
       if file_ofs < 0 \<or> file_ofs > len then Inr (False, s)
       else rbind (do_fs (file_seek f file_ofs) s) (\<lambda>s1.
         rbind (file_read f (int sizeof_Phdr) (fs_of s1)) (\<lambda>(n, data, fs2).
           let s2 = s1\<lparr>fs_of := fs2\<rparr>; phdr = phdr_of data
           in if n \<noteq> int sizeof_Phdr then Inr (False, s2)
              else if p_type phdr = PT_DYNAMIC \<or> p_type phdr = PT_INTERP \<or> p_type phdr = PT_SHLIB then Inr (False, s2)
              else if p_type phdr = PT_LOAD then
                rbind (file_length f fs2) (\<lambda>len2.
                  if validate_segment phdr (of_int len2) then
                    (let (file_page, mem_page, read_bytes, zero_bytes) = segment_extent phdr
                     in rbind (load_segment fuel f (i32_of (unat file_page)) mem_page read_bytes zero_bytes (p_flags phdr AND PF_W \<noteq> 0) s2) (\<lambda>(ok, s3).
                          if ok then load_headers fuel i f (file_ofs + int sizeof_Phdr) s3 else Inr (False, s3)))
                  else Inr (False, s2))
              else load_headers fuel i f (file_ofs + int sizeof_Phdr) s2)))"

definition good_header :: "int \<Rightarrow> Elf32_Ehdr \<Rightarrow> bool" where
  "good_header n ehdr \<longleftrightarrow> n = int sizeof_Ehdr \<and> take 7 (e_ident ehdr) = [0x7f, 0x45, 0x4c, 0x46, 1, 1, 1] \<and>
     e_type ehdr = 2 \<and> e_machine ehdr = 3 \<and> e_version ehdr = 1 \<and> e_phentsize ehdr = sizeof_Phdr \<and> e_phnum ehdr \<le> 1024"

definition load_body :: "nat \<Rightarrow> nat \<Rightarrow> user_state \<Rightarrow> ((u32 \<times> u32) option \<times> user_state) res" where
  "load_body fuel f s =
     rbind (file_read f (int sizeof_Ehdr) (fs_of s)) (\<lambda>(n, data, fs1).
       let s1 = s\<lparr>fs_of := fs1\<rparr>; ehdr = ehdr_of data
       in if \<not> good_header n ehdr then Inr (None, s1)
          else rbind (load_headers fuel (e_phnum ehdr) f (i32_of (unat (e_phoff ehdr))) s1) (\<lambda>(ok, s2).
            if \<not> ok then Inr (None, s2)
            else rbind (setup_stack s2) (\<lambda>(esp, s3). case esp of
                   None \<Rightarrow> Inr (None, s3)
                 | Some sp \<Rightarrow> rbind (do_fs (file_allow_write f) s3) (\<lambda>s4. Inr (Some (e_entry ehdr, sp), s4)))))"

text \<open>\<^verbatim>\<open>load\<close> returns the entry point and the stack pointer, or nothing.\<close>

definition load :: "nat \<Rightarrow> u8 list \<Rightarrow> user_state \<Rightarrow> ((u32 \<times> u32) option \<times> user_state) res" where
  "load fuel file_name s =
     rbind (on_vm (pagedir_create page_swap_to_disk) s) (\<lambda>(pd, s0).
     let t = cur_tid (vm_of s0);
         s1 = s0\<lparr>vm_of := (vm_of s0)\<lparr>pagedirs := (pagedirs (vm_of s0))(t := if pd = 0 then None else Some pd)\<rparr>\<rparr>
     in rbind (if pd = 0 then Inr (0, None, s1)
               else rbind (do_vm process_activate s1) (\<lambda>s2.
                 rbind (filesys_open file_name (fs_of s2)) (\<lambda>(f, fs3).
                   let s3 = s2\<lparr>fs_of := fs3\<rparr>
                   in if f = 0 then Inr (0, None, s3)
                      else rbind (do_fs (file_deny_write f) s3) (\<lambda>s4.
                        rbind (load_body fuel f s4) (\<lambda>(r, s5). Inr (f, r, s5)))))) (\<lambda>(f, r, s6).
        rbind (do_fs (file_close f) (s6\<lparr>is_running := True\<rparr>)) (\<lambda>s7. Inr (r, s7))))"

text \<open>\<^verbatim>\<open>process_exit\<close>: \<open>f\<close> is the executable of the thread, if it has one.\<close>

definition process_exit :: "nat \<Rightarrow> user_state \<Rightarrow> user_state res" where
  "process_exit f s =
     rbind (if f \<noteq> 0 then do_fs (file_allow_write f) s else Inr s) (\<lambda>s1.
       case pagedirs (vm_of s1) (cur_tid (vm_of s1)) of
         None \<Rightarrow> Inr s1
       | Some pd \<Rightarrow>
           rbind (do_vm (pagedir_activate 0) (s1\<lparr>vm_of := (vm_of s1)\<lparr>pagedirs := (pagedirs (vm_of s1))(cur_tid (vm_of s1) := None)\<rparr>\<rparr>)) (\<lambda>s2.
             do_vm (pagedir_destroy pd) s2))"

subsection \<open>Extents of valid segments\<close>

lemma ROUND_UP_page:
  assumes "x + 8192 \<le> 2 ^ 32"
  shows "\<exists>q. ROUND_UP x PGSIZE = 4096 * q \<and> x \<le> 4096 * q \<and> 4096 * q < x + 4096"
proof -
  let ?q = "(x + 4095) div 4096"
  have "4096 * ?q \<le> x + 4095" by simp
  moreover have "x + 4095 < 4096 * ?q + 4096" using mod_less_divisor [of 4096 "x + 4095"] div_mod_decomp [of "x + 4095" 4096] by linarith
  ultimately have q: "x \<le> 4096 * ?q" "4096 * ?q < x + 4096" by linarith+
  have s1: "sz (x + 4095) = x + 4095" by (rule sz_id) (use assms in simp)
  have s2: "sz (4096 * ?q) = 4096 * ?q" by (rule sz_id) (use assms q(2) in simp)
  have "ROUND_UP x PGSIZE = sz (sz (x + 4095) div 4096 * 4096)" by (simp add: ROUND_UP_def PGSIZE_def add.commute)
  also have "\<dots> = 4096 * ?q" using s2 unfolding s1 by (simp add: mult.commute)
  finally show ?thesis using q by blast
qed

lemma page_end:
  fixes va :: nat
  assumes "va = 4096 * a + r" "va + ms < 3221225472" "4096 * q < r + ms + 4096"
  shows "4096 * a + 4096 * q \<le> 3221225472"
proof -
  have "4096 * a + 4096 * q < 3221229568" using assms by linarith
  then have "4096 * (a + q) < 4096 * 786433" by simp
  then have "a + q < 786433" by (simp only: mult_less_cancel1)
  then show ?thesis by simp
qed

lemma segment_extent_facts:
  assumes v: "validate_segment ph len" and e: "segment_extent ph = (fp, mp, rb, zb)"
  shows "\<exists>q. unat rb + unat zb = 4096 * q \<and> unat mp + 4096 * q \<le> unat PHYS_BASE \<and> 4096 \<le> unat mp \<and> pg_ofs mp = 0 \<and> pg_ofs fp = 0 \<and>
     unat mp \<le> unat (p_vaddr ph) \<and> unat (p_vaddr ph) + unat (p_memsz ph) \<le> unat mp + 4096 * q \<and>
     p_vaddr ph - mp = p_offset ph - fp \<and> unat fp \<le> unat len \<and>
     (p_filesz ph > 0 \<longrightarrow> unat mp + unat rb = unat (p_vaddr ph) + unat (p_filesz ph)) \<and> (p_filesz ph = 0 \<longrightarrow> rb = 0)"
proof -
  let ?va = "unat (p_vaddr ph)" and ?ms = "unat (p_memsz ph)" and ?fs = "unat (p_filesz ph)"
  have v': "(p_offset ph AND PGMASK) = (p_vaddr ph AND PGMASK)" "p_offset ph \<le> len" "p_filesz ph \<le> p_memsz ph" "p_memsz ph \<noteq> 0"
      "is_user_vaddr (p_vaddr ph + p_memsz ph)" "p_vaddr ph \<le> p_vaddr ph + p_memsz ph" "of_nat PGSIZE \<le> p_vaddr ph"
    using v by (auto simp: validate_segment_def split: if_splits)
  have sum: "unat (p_vaddr ph + p_memsz ph) = ?va + ?ms" using v'(6) unat_plus_simple by blast
  have PB: "?va + ?ms < unat PHYS_BASE" using v'(5) sum by (simp add: is_user_vaddr_def word_less_nat_alt)
  have lo: "4096 \<le> ?va" using v'(7) by (simp add: word_le_nat_alt PGSIZE_def)
  let ?po = "pg_ofs (p_vaddr ph)"
  have po: "unat ?po = ?va mod 4096" by (rule unat_pg_ofs)
  have mp: "mp = pg_round_down (p_vaddr ph)" "fp = pg_round_down (p_offset ph)"
    using e by (auto simp: segment_extent_def pg_round_down_def Let_def split: if_splits)
  have um: "unat mp = ?va div 4096 * 4096" "unat fp = unat (p_offset ph) div 4096 * 4096" using mp unat_pg_round_down by auto
  obtain q where q: "ROUND_UP (unat (?po + p_memsz ph)) PGSIZE = 4096 * q" "unat ?po + ?ms \<le> 4096 * q" "4096 * q < unat ?po + ?ms + 4096"
  proof -
    have b: "unat ?po + ?ms < 3221225472" using po PB mod_less_eq_dividend [of ?va 4096] by (simp add: PHYS_BASE_def)
    then have "unat (?po + p_memsz ph) = unat ?po + ?ms" by (intro unat_add_lem [THEN iffD1]) simp
    moreover have "unat ?po + ?ms + 8192 \<le> 2 ^ 32" using b by simp
    ultimately show thesis using that ROUND_UP_page [of "unat ?po + ?ms"] by auto
  qed
  have dm: "?va = ?va div 4096 * 4096 + ?va mod 4096" by simp
  have hi: "unat mp + 4096 * q \<le> unat PHYS_BASE"
    using page_end [OF _ _ q(3), of ?va "?va div 4096"] PB po um(1) by (simp add: PHYS_BASE_def mult.commute)
  have eb: "unat (of_nat (4096 * q) :: u32) = 4096 * q" using hi by (intro unat_of_nat_u32) (simp add: PHYS_BASE_def)
  have fsz: "?fs \<le> ?ms" using v'(3) by (simp add: word_le_nat_alt)
  have ext: "segment_extent ph = (if p_filesz ph > 0 then (fp, mp, ?po + p_filesz ph, of_nat (4096 * q) - (?po + p_filesz ph)) else (fp, mp, 0, of_nat (4096 * q)))"
    unfolding segment_extent_def mp by (simp add: pg_round_down_def Let_def q(1) [unfolded pg_ofs_def] pg_ofs_def)
  have b: "unat (?po + p_filesz ph) = unat ?po + ?fs"
    using po PB fsz mod_less_eq_dividend [of ?va 4096] by (intro unat_add_lem [THEN iffD1]) (simp add: PHYS_BASE_def)
  have rz: "unat rb + unat zb = 4096 * q \<and> (p_filesz ph > 0 \<longrightarrow> unat rb = unat ?po + ?fs) \<and> (p_filesz ph = 0 \<longrightarrow> rb = 0)"
  proof (cases "p_filesz ph > 0")
    case True
    have "?po + p_filesz ph \<le> of_nat (4096 * q)" unfolding word_le_nat_alt eb b using q(2) fsz by simp
    then show ?thesis using True ext e b eb q(2) fsz by (auto simp: unat_sub)
  next
    case False
    then show ?thesis using ext e eb by (auto simp: word_less_nat_alt)
  qed
  have "4096 \<le> unat mp" using lo um(1) div_le_mono [of 4096 ?va 4096] by simp
  moreover have "pg_ofs mp = 0" "pg_ofs fp = 0" using um by (simp_all add: word_unat_eq_iff unat_pg_ofs)
  moreover have "p_vaddr ph - mp = p_offset ph - fp"
    using pg_split [of "p_vaddr ph"] pg_split [of "p_offset ph"] v'(1) unfolding mp pg_ofs_def by (metis add_diff_cancel_left')
  moreover have "unat fp \<le> unat len" using um(2) v'(2) div_times_less_eq_dividend [of "unat (p_offset ph)" 4096] by (simp add: word_le_nat_alt)
  moreover have "?va + ?ms \<le> unat mp + 4096 * q" "unat mp \<le> ?va" "p_filesz ph > 0 \<Longrightarrow> unat mp + unat rb = ?va + ?fs"
    using q(2) um(1) po dm rz by linarith+
  ultimately show ?thesis using rz hi by blast
qed


text \<open>A segment of \<open>q\<close> pages takes \<open>q\<close> turns of the loop: more iterations make no difference.\<close>

lemma load_segment_loop_fuel:
  assumes "unat rb + unat zb = 4096 * q" "q < n1" "q < n2"
  shows "load_segment_loop n1 f up rb zb w s = load_segment_loop n2 f up rb zb w s"
  using assms
proof (induction q arbitrary: rb zb up s n1 n2)
  case 0
  have z: "rb = 0" "zb = 0" using 0(1) unat_eq_zero [of rb] unat_eq_zero [of zb] by simp_all
  obtain f1 f2 where n: "n1 = Suc f1" "n2 = Suc f2" using 0(2,3) gr0_implies_Suc by blast
  show ?case unfolding z n load_segment_loop.simps by simp
next
  case (Suc q)
  define f1 f2 where "f1 = n1 - 1" and "f2 = n2 - 1"
  then have n: "n1 = Suc f1" "n2 = Suc f2" "q < f1" "q < f2" using Suc.prems(2,3) by simp_all
  let ?pr = "if rb < of_nat PGSIZE then rb else of_nat PGSIZE" let ?pz = "of_nat PGSIZE - ?pr"
  have "unat (rb - ?pr) + unat (zb - ?pz) = 4096 * q"
  proof (cases "rb < of_nat PGSIZE")
    case True
    then have r: "unat rb < 4096" by (simp add: word_less_nat_alt PGSIZE_def)
    have "(4096 :: u32) - rb \<le> zb" using r Suc.prems(1) by (simp add: word_le_nat_alt unat_sub)
    then show ?thesis using True r Suc.prems(1) by (simp add: PGSIZE_def unat_sub word_le_nat_alt)
  next
    case False
    then have "4096 \<le> rb" by (simp add: PGSIZE_def)
    then show ?thesis using False Suc.prems(1) by (simp add: PGSIZE_def unat_sub word_le_nat_alt)
  qed
  then have ih: "load_segment_loop f1 f up' (rb - ?pr) (zb - ?pz) w s' = load_segment_loop f2 f up' (rb - ?pr) (zb - ?pz) w s'" for up' s'
    by (rule Suc.IH) (use n in auto)
  show ?case unfolding n(1,2) load_segment_loop.simps Let_def ih ..
qed

end
