(* ===== verification/Syscall.thy ===== *)
theory Syscall
  imports Loader
begin

unbundle bit_operations_syntax

text \<open>
  System calls (src/pintos2/src/userprog/syscall.c).

  \<^item> \<open>umem\<close> is the memory as the running process sees it; a page that is on the swap disk is brought
    back by the fault that touching it causes. Touching a user page that the process does not
    have is fatal to the kernel (\<open>Undefined\<close>): the fault handler follows a null pointer. Kernel
    addresses are readable in kernel mode.
  \<^item> A call either returns a value, or ends the process (\<open>Ended\<close>), or powers the machine off.
  \<^item> \<^verbatim>\<open>process_execute\<close> and \<^verbatim>\<open>process_wait\<close> switch threads; the handler takes them as arguments. Of
    \<^verbatim>\<open>thread_exit\<close> the part that releases the frames, the page directory and the executable is here.
  \<^item> \<open>console\<close> is what the kernel has printed: the buffers that were written to descriptor 1 and the
    messages of processes that have ended.
  \<^item> Taking \<^verbatim>\<open>syscall_lock\<close> while it is held waits for ever (\<open>Diverged\<close>).
\<close>

datatype FILE_STATE = FILE_IDLE | FILE_OPEN | FILE_CLOSED

record file_fd_name =
  ffn_tid :: int
  ffn_fd :: int
  ffn_name :: u32
  ffn_file :: nat
  file_state :: FILE_STATE

datatype console_output = Putbuf "u8 list" | Exit_message "u8 list" int

record sys = user_state +
  fd_name_mapping :: "file_fd_name list"
  fd_index :: int
  syscall_lock :: bool
  umem :: mem
  keyboard :: "u8 list"
  console :: "console_output list"
  process_name :: "u8 list"
  exit_status :: "int \<rightharpoonup> int"
  executable :: nat
  sys_lock_hold :: bool
  file_lock_hold :: bool

datatype 'a outcome = Done 'a | Ended int | PoweredOff

definition obind :: "('a outcome \<times> sys) res \<Rightarrow> ('a \<Rightarrow> sys \<Rightarrow> ('b outcome \<times> sys) res) \<Rightarrow> ('b outcome \<times> sys) res" where
  "obind r k = rbind r (\<lambda>(out, s). case out of Done x \<Rightarrow> k x s | Ended n \<Rightarrow> Inr (Ended n, s) | PoweredOff \<Rightarrow> Inr (PoweredOff, s))"

definition tid :: "sys \<Rightarrow> int" where
  "tid s = cur_tid (vm_of s)"

definition sys_fs :: "(fs \<Rightarrow> ('a \<times> fs) res) \<Rightarrow> sys \<Rightarrow> ('a \<times> sys) res" where
  "sys_fs f s = rbind (f (fs_of s)) (\<lambda>(x, v). Inr (x, s\<lparr>fs_of := v\<rparr>))"

subsection \<open>User memory\<close>

definition touchable :: "u32 \<Rightarrow> sys \<Rightarrow> bool" where
  "touchable a s \<longleftrightarrow> is_kernel_vaddr a \<or> page_entry_lookup (pg_round_down a) (tid s) (vm_of s) \<noteq> None"

definition umem_at :: "sys \<Rightarrow> u32 \<Rightarrow> u8" where
  "umem_at s a = (if is_kernel_vaddr a then kmem (vm_of s) a else umem s a)"

fun ustring :: "nat \<Rightarrow> u32 \<Rightarrow> sys \<Rightarrow> u8 list res" where
  "ustring 0 a s = Inl Diverged"
| "ustring (Suc fuel) a s =
     kdefined (touchable a s)
      (if umem_at s a = 0 then Inr [] else rbind (ustring fuel (a + 1) s) (\<lambda>cs. Inr (umem_at s a # cs)))"

fun ubytes :: "nat \<Rightarrow> u32 \<Rightarrow> sys \<Rightarrow> u8 list res" where
  "ubytes 0 a s = Inr []"
| "ubytes (Suc n) a s = kdefined (touchable a s) (rbind (ubytes n (a + 1) s) (\<lambda>cs. Inr (umem_at s a # cs)))"

definition uword :: "u32 \<Rightarrow> sys \<Rightarrow> u32 res" where
  "uword a s = rbind (ubytes 4 a s) (\<lambda>bs. Inr (of_nat (le_val bs)))"

fun uwrite :: "u32 \<Rightarrow> u8 list \<Rightarrow> sys \<Rightarrow> sys res" where
  "uwrite a [] s = Inr s"
| "uwrite a (b # bs) s =
     kdefined (touchable a s)
      (uwrite (a + 1) bs (if is_kernel_vaddr a then s\<lparr>vm_of := (vm_of s)\<lparr>kmem := (kmem (vm_of s))(a := b)\<rparr>\<rparr>
                          else s\<lparr>umem := (umem s)(a := b)\<rparr>))"

subsection \<open>The table of open files\<close>

definition find_mapping_by_fd :: "int \<Rightarrow> sys \<Rightarrow> file_fd_name option" where
  "find_mapping_by_fd fd s = List.find (\<lambda>ffn. ffn_fd ffn = fd) (fd_name_mapping s)"

definition find_mapping_by_tid :: "int \<Rightarrow> sys \<Rightarrow> file_fd_name option" where
  "find_mapping_by_tid t s = List.find (\<lambda>ffn. ffn_tid ffn = t) (fd_name_mapping s)"

definition find_file_by_fd :: "int \<Rightarrow> sys \<Rightarrow> nat" where
  "find_file_by_fd fd s = (case List.find (\<lambda>ffn. ffn_fd ffn = fd) (fd_name_mapping s) of None \<Rightarrow> 0 | Some ffn \<Rightarrow> ffn_file ffn)"

text \<open>\<^verbatim>\<open>find_mapping_by_name\<close> compares the strings at the addresses that other calls, perhaps of other
  processes, have passed, in the memory of this process.\<close>

fun ustrcmp :: "nat \<Rightarrow> u32 \<Rightarrow> u32 \<Rightarrow> sys \<Rightarrow> bool res" where
  "ustrcmp 0 a b s = Inl Diverged"
| "ustrcmp (Suc fuel) a b s =
     kdefined (touchable a s)
      (if umem_at s a = 0 then kdefined (touchable b s) (Inr (umem_at s b = 0))
       else kdefined (touchable b s)
         (if umem_at s a = umem_at s b then ustrcmp fuel (a + 1) (b + 1) s else Inr False))"

fun find_name_loop :: "nat \<Rightarrow> u32 \<Rightarrow> file_fd_name list \<Rightarrow> sys \<Rightarrow> file_fd_name option res" where
  "find_name_loop fuel f [] s = Inr None"
| "find_name_loop fuel f (ffn # l) s =
     kassert (ffn_name ffn \<noteq> 0) (kassert (f \<noteq> 0)
      (rbind (ustrcmp fuel (ffn_name ffn) f s) (\<lambda>eq. if eq then Inr (Some ffn) else find_name_loop fuel f l s)))"

definition find_mapping_by_name :: "nat \<Rightarrow> u32 \<Rightarrow> sys \<Rightarrow> file_fd_name option res" where
  "find_mapping_by_name fuel f s = find_name_loop fuel f (fd_name_mapping s) s"

text \<open>\<^verbatim>\<open>find_file_by_name\<close> also prints two lines of debugging output, which are left out.\<close>

definition find_file_by_name :: "nat \<Rightarrow> u32 \<Rightarrow> sys \<Rightarrow> nat res" where
  "find_file_by_name fuel f s =
     rbind (find_name_loop fuel f (fd_name_mapping s) s) (\<lambda>r. Inr (case r of None \<Rightarrow> 0 | Some ffn \<Rightarrow> ffn_file ffn))"

definition syscall_init :: "sys \<Rightarrow> sys" where
  "syscall_init s = s\<lparr>syscall_lock := False, fd_name_mapping := []\<rparr>"

subsection \<open>Addresses\<close>

definition is_valid_addr :: "u32 \<Rightarrow> sys \<Rightarrow> bool res" where
  "is_valid_addr a s =
     (if is_user_vaddr a
      then (case pagedirs (vm_of s) (tid s) of
              None \<Rightarrow> Inl Assertion
            | Some pd \<Rightarrow> rbind (pagedir_get_page pd a (vm_of s)) (\<lambda>p. Inr (p \<noteq> 0)))
      else Inr False)"

subsection \<open>Ending a process\<close>

fun exit_files_loop :: "nat \<Rightarrow> sys \<Rightarrow> sys res" where
  "exit_files_loop 0 s = Inl Diverged"
| "exit_files_loop (Suc fuel) s =
     (case find_mapping_by_tid (tid s) s of
        None \<Rightarrow> Inr s
      | Some ffn \<Rightarrow>
          (let s1 = s\<lparr>fd_name_mapping := remove_first (\<lambda>f. ffn_tid f = tid s) (fd_name_mapping s)\<rparr>
           in rbind (file_close (ffn_file ffn) (fs_of s1)) (\<lambda>fs2. exit_files_loop fuel (s1\<lparr>fs_of := fs2\<rparr>))))"

definition syscall_lock_acquire :: "sys \<Rightarrow> sys res" where
  "syscall_lock_acquire s = (if syscall_lock s then Inl Diverged else Inr (s\<lparr>sys_lock_hold := True, syscall_lock := True\<rparr>))"

definition syscall_lock_release :: "sys \<Rightarrow> sys res" where
  "syscall_lock_release s = kassert (syscall_lock s) (Inr (s\<lparr>sys_lock_hold := False, syscall_lock := False\<rparr>))"

definition thread_exit_user :: "sys \<Rightarrow> sys res" where
  "thread_exit_user s =
     (let v = frame_delete_by_pid (tid s) (vm_of s)
      in rbind (process_exit (executable s) (user_state.truncate (s\<lparr>vm_of := v\<rparr>))) (\<lambda>u.
         let s1 = s\<lparr>vm_of := vm_of u, fs_of := fs_of u\<rparr>
         in rbind (if file_lock_hold s1
                   then rbind (unlock_filesys (fs_of s1)) (\<lambda>f. Inr (s1\<lparr>fs_of := f, file_lock_hold := False\<rparr>)) else Inr s1) (\<lambda>s2.
            rbind (if sys_lock_hold s2 then syscall_lock_release s2 else Inr s2) (\<lambda>s3.
              if executable s3 \<noteq> 0 then rbind (file_allow_write (executable s3) (fs_of s3)) (\<lambda>f. Inr (s3\<lparr>fs_of := f\<rparr>))
              else Inr s3))))"

definition syscall_exit :: "int \<Rightarrow> sys \<Rightarrow> ('a outcome \<times> sys) res" where
  "syscall_exit status s =
     rbind (exit_files_loop (Suc (length (fd_name_mapping s)))
             (s\<lparr>console := console s @ [Exit_message (process_name s) status],
                exit_status := (exit_status s)(tid s \<mapsto> status)\<rparr>)) (\<lambda>s1.
       rbind (thread_exit_user s1) (\<lambda>s2. Inr (Ended status, s2)))"

definition catch_addr_error :: "u32 \<Rightarrow> sys \<Rightarrow> (unit outcome \<times> sys) res" where
  "catch_addr_error a s = rbind (is_valid_addr a s) (\<lambda>ok. if \<not> ok then syscall_exit (- 1) s else Inr (Done (), s))"

subsection \<open>The calls\<close>

definition with_syscall_lock :: "sys \<Rightarrow> (sys \<Rightarrow> ('a \<times> sys) res) \<Rightarrow> ('a \<times> sys) res" where
  "with_syscall_lock s k =
     (if syscall_lock s then Inl Diverged
      else rbind (k (s\<lparr>syscall_lock := True\<rparr>)) (\<lambda>(x, s1). Inr (x, s1\<lparr>syscall_lock := False\<rparr>)))"

definition syscall_halt :: "sys \<Rightarrow> (unit outcome \<times> sys) res" where
  "syscall_halt s = Inr (PoweredOff, s)"

definition syscall_exec :: "(u32 \<Rightarrow> sys \<Rightarrow> (int \<times> sys) res) \<Rightarrow> nat \<Rightarrow> u32 \<Rightarrow> sys \<Rightarrow> (int outcome \<times> sys) res" where
  "syscall_exec process_execute fuel f s =
     obind (catch_addr_error f s) (\<lambda>_ s1.
       rbind (ustring fuel f s1) (\<lambda>cs.
         obind (catch_addr_error (f + of_nat (length cs) - 1) s1) (\<lambda>_ s2.
           with_syscall_lock s2 (\<lambda>s3. rbind (process_execute f s3) (\<lambda>(pid, s4). Inr (Done pid, s4))))))"

definition syscall_wait :: "(int \<Rightarrow> sys \<Rightarrow> (int \<times> sys) res) \<Rightarrow> int \<Rightarrow> sys \<Rightarrow> (int outcome \<times> sys) res" where
  "syscall_wait process_wait pid s = rbind (process_wait pid s) (\<lambda>(r, s1). Inr (Done r, s1))"

definition syscall_create :: "nat \<Rightarrow> u32 \<Rightarrow> u32 \<Rightarrow> sys \<Rightarrow> (bool outcome \<times> sys) res" where
  "syscall_create fuel f initial_size s =
     (if f = 0 then syscall_exit (- 1) s
      else rbind (is_valid_addr f s) (\<lambda>ok.
        if \<not> ok then syscall_exit (- 1) s
        else rbind (ustring fuel f s) (\<lambda>name.
          if name = [] then syscall_exit (- 1) s
          else with_syscall_lock s (\<lambda>s1.
            rbind (sys_fs (filesys_create name (i32_of (unat initial_size))) s1) (\<lambda>(b, s2). Inr (Done b, s2))))))"

definition syscall_remove :: "nat \<Rightarrow> u32 \<Rightarrow> sys \<Rightarrow> (bool outcome \<times> sys) res" where
  "syscall_remove fuel f s =
     with_syscall_lock s (\<lambda>s1.
       rbind (ustring fuel f s1) (\<lambda>name.
         rbind (sys_fs (filesys_remove name) s1) (\<lambda>(b, s2). Inr (Done b, s2))))"

definition syscall_open :: "nat \<Rightarrow> u32 \<Rightarrow> sys \<Rightarrow> (int outcome \<times> sys) res" where
  "syscall_open fuel f s =
     (if f = 0 then syscall_exit (- 1) s
      else rbind (is_valid_addr f s) (\<lambda>ok.
        if \<not> ok then syscall_exit (- 1) s
        else rbind (ustring fuel f s) (\<lambda>name.
          if name = [] then Inr (Done (- 1), s)
          else (let (ffd, fs1) = fs_malloc (fs_of s)
                in with_syscall_lock (s\<lparr>fs_of := fs1\<rparr>) (\<lambda>s1.
                  rbind (find_mapping_by_name fuel f s1) (\<lambda>_.
                  rbind (sys_fs (filesys_open name) s1) (\<lambda>(fl, s2).
                    if fl = 0 then Inr (Done (- 1), s2)
                    else kdefined (ffd \<noteq> 0)
                      (Inr (Done (fd_index s2),
                        s2\<lparr>fd_name_mapping := fd_name_mapping s2 @
                              [\<lparr>ffn_tid = tid s2, ffn_fd = fd_index s2, ffn_name = f, ffn_file = fl, file_state = FILE_OPEN\<rparr>],
                            fd_index := fd_index s2 + 1\<rparr>)))))))))"

definition syscall_filesize :: "int \<Rightarrow> sys \<Rightarrow> (int outcome \<times> sys) res" where
  "syscall_filesize fd s =
     with_syscall_lock s (\<lambda>s1.
       let f = find_file_by_fd fd s1
       in if f \<noteq> 0 then rbind (file_length f (fs_of s1)) (\<lambda>n. Inr (Done n, s1)) else Inr (Done (- 1), s1))"

definition syscall_read :: "int \<Rightarrow> u32 \<Rightarrow> u32 \<Rightarrow> sys \<Rightarrow> (int outcome \<times> sys) res" where
  "syscall_read fd buffer len s =
     obind (catch_addr_error buffer s) (\<lambda>_ s1.
     obind (catch_addr_error (buffer + len - 1) s1) (\<lambda>_ s2.
       if fd = 0 then (case keyboard s2 of
           [] \<Rightarrow> Inl Diverged
         | c # cs \<Rightarrow> rbind (uwrite buffer [c] (s2\<lparr>keyboard := cs\<rparr>)) (\<lambda>s3. Inr (Done 1, s3)))
       else (let f = find_file_by_fd fd s2
             in if f = 0 then Inr (Done (- 1), s2)
                else with_syscall_lock s2 (\<lambda>s3.
                  rbind (file_read f (i32_of (unat len)) (fs_of s3)) (\<lambda>(n, data, fs4).
                    rbind (uwrite buffer data (s3\<lparr>fs_of := fs4\<rparr>)) (\<lambda>s5. Inr (Done n, s5)))))))"

text \<open>How many bytes \<^verbatim>\<open>file_write\<close> takes does not depend on what they are; only those that it takes are
  read from the user's buffer.\<close>

definition syscall_write :: "int \<Rightarrow> u32 \<Rightarrow> u32 \<Rightarrow> sys \<Rightarrow> (int outcome \<times> sys) res" where
  "syscall_write fd buffer len s =
     obind (catch_addr_error buffer s) (\<lambda>_ s1.
     obind (catch_addr_error (buffer + len - 1) s1) (\<lambda>_ s2.
       with_syscall_lock s2 (\<lambda>s3.
         if fd = 1 then rbind (ubytes (unat len) buffer s3) (\<lambda>bs. Inr (Done (i32_of (unat len)), s3\<lparr>console := console s3 @ [Putbuf bs]\<rparr>))
         else (let f = find_file_by_fd fd s3
               in if f = 0 then Inr (Done (- 1), s3)
                  else rbind (file_write f (replicate (unat len) 0) (i32_of (unat len)) (fs_of s3)) (\<lambda>(n, _).
                    rbind (ubytes (nat n) buffer s3) (\<lambda>bs.
                      rbind (file_write f (bs @ replicate (unat len - length bs) 0) (i32_of (unat len)) (fs_of s3)) (\<lambda>(n', fs4).
                        Inr (Done n', s3\<lparr>fs_of := fs4\<rparr>))))))))"

definition syscall_seek :: "int \<Rightarrow> u32 \<Rightarrow> sys \<Rightarrow> (unit outcome \<times> sys) res" where
  "syscall_seek fd position s =
     with_syscall_lock s (\<lambda>s1.
       rbind (file_seek (find_file_by_fd fd s1) (i32_of (unat position)) (fs_of s1)) (\<lambda>f. Inr (Done (), s1\<lparr>fs_of := f\<rparr>)))"

definition syscall_tell :: "int \<Rightarrow> sys \<Rightarrow> (int outcome \<times> sys) res" where
  "syscall_tell fd s = rbind (file_tell (find_file_by_fd fd s) (fs_of s)) (\<lambda>n. Inr (Done n, s))"

definition syscall_close :: "int \<Rightarrow> sys \<Rightarrow> (unit outcome \<times> sys) res" where
  "syscall_close fd s =
     Inr (Done (), s\<lparr>fd_name_mapping := upd_first (\<lambda>ffn. ffn_fd ffn = fd) (\<lambda>ffn. ffn\<lparr>file_state := FILE_CLOSED\<rparr>) (fd_name_mapping s)\<rparr>)"

definition check_syscall_lock :: "sys \<Rightarrow> bool" where
  "check_syscall_lock s = syscall_lock s"

subsection \<open>The handler\<close>

definition SYS_HALT :: int where "SYS_HALT = 0"
definition SYS_EXIT :: int where "SYS_EXIT = 1"
definition SYS_EXEC :: int where "SYS_EXEC = 2"
definition SYS_WAIT :: int where "SYS_WAIT = 3"
definition SYS_CREATE :: int where "SYS_CREATE = 4"
definition SYS_REMOVE :: int where "SYS_REMOVE = 5"
definition SYS_OPEN :: int where "SYS_OPEN = 6"
definition SYS_FILESIZE :: int where "SYS_FILESIZE = 7"
definition SYS_READ :: int where "SYS_READ = 8"
definition SYS_WRITE :: int where "SYS_WRITE = 9"
definition SYS_SEEK :: int where "SYS_SEEK = 10"
definition SYS_TELL :: int where "SYS_TELL = 11"
definition SYS_CLOSE :: int where "SYS_CLOSE = 12"

lemmas SYS_defs = SYS_HALT_def SYS_EXIT_def SYS_EXEC_def SYS_WAIT_def SYS_CREATE_def SYS_REMOVE_def SYS_OPEN_def
  SYS_FILESIZE_def SYS_READ_def SYS_WRITE_def SYS_SEEK_def SYS_TELL_def SYS_CLOSE_def

definition arg1 :: "u32 \<Rightarrow> (u32 \<Rightarrow> sys \<Rightarrow> ('a outcome \<times> sys) res) \<Rightarrow> sys \<Rightarrow> ('a outcome \<times> sys) res" where
  "arg1 esp k s = obind (catch_addr_error (esp + 4) s) (\<lambda>_ s1. rbind (uword (esp + 4) s1) (\<lambda>a. k a s1))"

definition arg2 :: "u32 \<Rightarrow> (u32 \<Rightarrow> u32 \<Rightarrow> sys \<Rightarrow> ('a outcome \<times> sys) res) \<Rightarrow> sys \<Rightarrow> ('a outcome \<times> sys) res" where
  "arg2 esp k s =
     obind (catch_addr_error (esp + 8) s) (\<lambda>_ s1. rbind (uword (esp + 4) s1) (\<lambda>a. rbind (uword (esp + 8) s1) (\<lambda>b. k a b s1)))"

definition arg3 :: "u32 \<Rightarrow> (u32 \<Rightarrow> u32 \<Rightarrow> u32 \<Rightarrow> sys \<Rightarrow> ('a outcome \<times> sys) res) \<Rightarrow> sys \<Rightarrow> ('a outcome \<times> sys) res" where
  "arg3 esp k s =
     obind (catch_addr_error (esp + 12) s) (\<lambda>_ s1.
       rbind (uword (esp + 4) s1) (\<lambda>a. rbind (uword (esp + 8) s1) (\<lambda>b. rbind (uword (esp + 12) s1) (\<lambda>c. k a b c s1))))"

definition return :: "('a \<Rightarrow> u32) \<Rightarrow> ('a outcome \<times> sys) res \<Rightarrow> (u32 outcome \<times> sys) res" where
  "return f r = obind r (\<lambda>x s. Inr (Done (f x), s))"

text \<open>The arguments are above the stack pointer of the interrupted process; the result is what \<^verbatim>\<open>eax\<close>
  holds when the process goes on.\<close>

definition syscall_handler ::
  "(u32 \<Rightarrow> sys \<Rightarrow> (int \<times> sys) res) \<Rightarrow> (int \<Rightarrow> sys \<Rightarrow> (int \<times> sys) res) \<Rightarrow> nat \<Rightarrow> u32 \<Rightarrow> u32 \<Rightarrow> sys \<Rightarrow> (u32 outcome \<times> sys) res" where
  "syscall_handler process_execute process_wait fuel esp eax s =
     obind (catch_addr_error esp s) (\<lambda>_ s0.
     rbind (uword esp s0) (\<lambda>v.
       let syscall_number = i32_of (unat v); int_of = (\<lambda>w. i32_of (unat w)); unchanged = (\<lambda>_. eax); int_result = of_int;
           bool_result = (\<lambda>b. if b then 1 else 0)
       in if syscall_number = SYS_HALT then return unchanged (syscall_halt s0)
          else if syscall_number = SYS_EXIT then arg1 esp (\<lambda>status. syscall_exit (int_of status)) s0
          else if syscall_number = SYS_EXEC then return int_result (arg1 esp (syscall_exec process_execute fuel) s0)
          else if syscall_number = SYS_WAIT then return int_result (arg1 esp (\<lambda>pid. syscall_wait process_wait (int_of pid)) s0)
          else if syscall_number = SYS_CREATE then return bool_result (arg2 esp (syscall_create fuel) s0)
          else if syscall_number = SYS_REMOVE then return bool_result (arg1 esp (syscall_remove fuel) s0)
          else if syscall_number = SYS_OPEN then return int_result (arg1 esp (syscall_open fuel) s0)
          else if syscall_number = SYS_FILESIZE then return int_result (arg1 esp (\<lambda>fd. syscall_filesize (int_of fd)) s0)
          else if syscall_number = SYS_READ then return int_result (arg3 esp (\<lambda>fd. syscall_read (int_of fd)) s0)
          else if syscall_number = SYS_WRITE then return int_result (arg3 esp (\<lambda>fd. syscall_write (int_of fd)) s0)
          else if syscall_number = SYS_SEEK then return unchanged (arg2 esp (\<lambda>fd. syscall_seek (int_of fd)) s0)
          else if syscall_number = SYS_TELL then return int_result (arg1 esp (\<lambda>fd. syscall_tell (int_of fd)) s0)
          else if syscall_number = SYS_CLOSE then return unchanged (arg1 esp (\<lambda>fd. syscall_close (int_of fd)) s0)
          else Inr (Done eax, s0)))"

end
