(* ===== verification/Descriptors.thy ===== *)
theory Descriptors
  imports Syscall
begin

text \<open>
  Facts about system calls: how much a read can return, what the checks of user addresses give,
  what ending a process does to the table of open files, and that every call keeps the table in
  order (\<open>fd_inv\<close>: descriptors from 2 on, all different, below the next one to be given out).
\<close>

subsection \<open>Read lengths\<close>

lemma fs_read_facts:
  "fs_read k s = Inr (d, s') \<Longrightarrow> block_wf (fs_device s) \<Longrightarrow> length d = 512 \<and> block_wf (fs_device s')"
  by (auto simp: fs_read_def block_read_def check_sector_def res_simps block_wf_sector BLOCK_SECTOR_SIZE_def split: if_splits)

lemma fs_malloc_device: "fs_malloc s = (p, s') \<Longrightarrow> fs_device s' = fs_device s"
  by (auto simp: fs_malloc_def Let_def split: if_splits)

lemma inode_read_at_loop_length:
  "inode_read_at_loop ino bounce n offset k buf s = Inr (k', buf', s') \<Longrightarrow> block_wf (fs_device s) \<Longrightarrow> length buf' \<le> length buf + nat n"
proof (induction ino bounce n offset k buf s rule: inode_read_at_loop.induct)
  case (1 ino bounce n offset k buf s)
  define c where "c = chunk_size ino n offset"
  define so where "so = offset smod 512"
  define sec where "sec = byte_to_sector ino offset"
  have U: "inode_read_at_loop ino bounce n offset k buf s =
     (if n > 0 then if c \<le> 0 then Inr (k, buf, s)
        else if so = 0 \<and> c = 512 then rbind (fs_read sec s) (\<lambda>(d, s1). inode_read_at_loop ino bounce (n - c) (offset + c) (k + c) (buf @ d) s1)
        else (case (if bounce then (1, s) else fs_malloc s) of (b, s1) \<Rightarrow>
          if b = 0 then Inr (k, buf, s1)
          else rbind (fs_read sec s1) (\<lambda>(d, s2). kdefined (0 \<le> so)
             (inode_read_at_loop ino True (n - c) (offset + c) (k + c) (buf @ take (nat c) (drop (nat so) d)) s2)))
      else Inr (k, buf, s))"
    by (subst inode_read_at_loop.simps) (simp only: Let_def c_def so_def sec_def)
  note eq = 1(3) [unfolded U]
  show ?case
  proof (cases "n > 0 \<and> \<not> c \<le> 0")
    case False
    then show ?thesis using eq by (auto split: if_splits)
  next
    case True
    have cn: "c \<le> n" by (simp add: c_def chunk_size_def Let_def)
    show ?thesis
    proof (cases "so = 0 \<and> c = 512")
      case direct: True
      then obtain d s1 where r: "fs_read sec s = Inr (d, s1)"
          "inode_read_at_loop ino bounce (n - c) (offset + c) (k + c) (buf @ d) s1 = Inr (k', buf', s')"
        using eq True by (auto simp: res_simps)
      have "length buf' \<le> length (buf @ d) + nat (n - c)"
        using 1(1) [OF _ sec_def so_def c_def _ _ r(1) refl r(2)] True direct fs_read_facts [OF r(1) 1(4)] by simp
      then show ?thesis using fs_read_facts [OF r(1) 1(4)] direct cn True by simp
    next
      case partial: False
      obtain b s1 where m: "(if bounce then (1, s) else fs_malloc s) = (b, s1)" by fastforce
      have dv: "fs_device s1 = fs_device s" using m fs_malloc_device by (auto split: if_splits)
      show ?thesis
      proof (cases "b = 0")
        case True
        then show ?thesis using eq partial m \<open>n > 0 \<and> \<not> c \<le> 0\<close> by (auto split: if_splits)
      next
        case False
        then obtain d s2 where r: "fs_read sec s1 = Inr (d, s2)" "0 \<le> so"
            "inode_read_at_loop ino True (n - c) (offset + c) (k + c) (buf @ take (nat c) (drop (nat so) d)) s2 = Inr (k', buf', s')"
          using eq partial m \<open>n > 0 \<and> \<not> c \<le> 0\<close> by (auto simp: res_simps split: if_splits)
        have "length buf' \<le> length (buf @ take (nat c) (drop (nat so) d)) + nat (n - c)"
          using 1(2) [OF _ sec_def so_def c_def _ _ m [symmetric] refl _ r(1) refl r(2,3)] False True partial dv 1(4) fs_read_facts [OF r(1)] by simp
        moreover have "length (buf @ take (nat c) (drop (nat so) d)) \<le> length buf + nat c" by simp
        ultimately show ?thesis using cn True by linarith
      qed
    qed
  qed
qed

lemma i32_of_nat_le: "nat (i32_of n) \<le> n"
  by (auto simp: i32_of_def nat_le_iff)

lemma file_read_length: "file_read f n s = Inr (k, data, s') \<Longrightarrow> block_wf (fs_device s) \<Longrightarrow> length data \<le> nat n"
  using inode_read_at_loop_length by (fastforce simp: file_read_def inode_read_at_def res_simps split: if_splits)

subsection \<open>Checks of user addresses\<close>

lemma obind_eq_Inr:
  "obind r k = Inr (out, s') \<longleftrightarrow>
     (\<exists>x s1. r = Inr (Done x, s1) \<and> k x s1 = Inr (out, s')) \<or> (\<exists>n. r = Inr (Ended n, s') \<and> out = Ended n) \<or> (r = Inr (PoweredOff, s') \<and> out = PoweredOff)"
proof (cases r)
  case (Inr p)
  then show ?thesis by (cases p; cases "fst p") (auto simp: obind_def)
qed (simp add: obind_def)

lemma syscall_exit_Ended: "syscall_exit n s = Inr (out, s') \<Longrightarrow> out = Ended n"
  by (auto simp: syscall_exit_def res_simps)

lemma catch_addr_error_Done: "catch_addr_error a s = Inr (Done x, s1) \<longleftrightarrow> s1 = s \<and> is_valid_addr a s = Inr True"
  by (auto simp: catch_addr_error_def res_simps dest: syscall_exit_Ended)

lemma is_valid_addr_user: "is_valid_addr a s = Inr True \<Longrightarrow> unat a < unat PHYS_BASE"
  by (auto simp: is_valid_addr_def is_user_vaddr_def word_less_nat_alt split: if_splits)

lemma uwrite_user:
  "uwrite a bs s = Inr s' \<Longrightarrow> unat a + length bs \<le> unat PHYS_BASE \<Longrightarrow> vm_of s' = vm_of s"
proof (induction a bs s rule: uwrite.induct)
  case (2 a b bs s)
  have "\<not> is_kernel_vaddr a" using 2(3) by (simp add: is_kernel_vaddr_def word_le_nat_alt)
  moreover have "unat (a + 1) = unat a + 1" using 2(3) unat_plus_of_nat [of a 1] by (simp add: PHYS_BASE_def)
  ultimately show ?case using 2 by (auto simp: res_simps)
qed simp

lemma user_range:
  fixes a len :: u32
  assumes "unat a < unat PHYS_BASE" "unat (a + len - 1) < unat PHYS_BASE" "unat a + unat len \<le> 2 ^ 32" "len \<noteq> 0"
  shows "unat a + unat len \<le> unat PHYS_BASE"
proof -
  have "unat len > 0" using assms(4) by (simp add: unat_gt_0)
  then have l: "unat (len - 1) = unat len - 1" by (simp add: unat_minus_one assms(4))
  then have "unat (a + (len - 1)) = unat a + unat (len - 1)" using assms(3) \<open>unat len > 0\<close> by (intro unat_add_lem [THEN iffD1]) simp
  then show ?thesis using assms(2) l \<open>unat len > 0\<close> by (simp add: algebra_simps)
qed

subsection \<open>File descriptors\<close>

definition fd_inv :: "sys \<Rightarrow> bool" where
  "fd_inv s \<longleftrightarrow> 2 \<le> fd_index s \<and> distinct (map ffn_fd (fd_name_mapping s)) \<and>
     (\<forall>ffn \<in> set (fd_name_mapping s). 2 \<le> ffn_fd ffn \<and> ffn_fd ffn < fd_index s \<and> ffn_file ffn \<noteq> 0)"

lemma fd_inv_upd [simp]:
  "fd_inv (s\<lparr>vm_of := a\<rparr>) = fd_inv s" "fd_inv (s\<lparr>fs_of := b\<rparr>) = fd_inv s" "fd_inv (s\<lparr>syscall_lock := c\<rparr>) = fd_inv s"
  "fd_inv (s\<lparr>umem := d\<rparr>) = fd_inv s" "fd_inv (s\<lparr>keyboard := e\<rparr>) = fd_inv s" "fd_inv (s\<lparr>console := f\<rparr>) = fd_inv s"
  "fd_inv (s\<lparr>exit_status := g\<rparr>) = fd_inv s" "fd_inv (s\<lparr>sys_lock_hold := h\<rparr>) = fd_inv s" "fd_inv (s\<lparr>file_lock_hold := h\<rparr>) = fd_inv s"
  by (simp_all add: fd_inv_def)

lemma in_set_remove_first: "x \<in> set (remove_first P xs) \<Longrightarrow> x \<in> set xs"
  by (induction xs) (auto split: if_splits)

lemma distinct_map_remove_first: "distinct (map f xs) \<Longrightarrow> distinct (map f (remove_first P xs))"
  by (induction xs) (auto dest!: in_set_remove_first)

lemma uwrite_fds: "uwrite a bs s = Inr s' \<Longrightarrow> fd_inv s \<Longrightarrow> fd_inv s'"
  by (induction a bs s rule: uwrite.induct) (auto simp: res_simps split: if_splits)


lemma fd_inv_removed: "fd_inv s \<Longrightarrow> fd_inv (s\<lparr>fd_name_mapping := remove_first P (fd_name_mapping s)\<rparr>)"
  by (auto simp: fd_inv_def distinct_map_remove_first dest!: in_set_remove_first)

lemma map_upd_first: "(\<And>x. g (f x) = g x) \<Longrightarrow> map g (upd_first P f xs) = map g xs"
  by (induction xs) auto

lemma in_set_upd_first: "x \<in> set (upd_first P f xs) \<Longrightarrow> x \<in> set xs \<or> (\<exists>y \<in> set xs. x = f y)"
  by (induction xs) (auto split: if_splits)

lemma fd_inv_closed: "fd_inv s \<Longrightarrow> fd_inv (s\<lparr>fd_name_mapping := upd_first P (\<lambda>ffn. ffn\<lparr>file_state := c\<rparr>) (fd_name_mapping s)\<rparr>)"
  by (auto simp: fd_inv_def map_upd_first dest!: in_set_upd_first)

lemma fd_inv_opened:
  "fd_inv s \<Longrightarrow> fl \<noteq> 0 \<Longrightarrow> fd_inv (s\<lparr>fd_name_mapping := fd_name_mapping s @ [\<lparr>ffn_tid = t, ffn_fd = fd_index s, ffn_name = f, ffn_file = fl, file_state = c\<rparr>],
     fd_index := fd_index s + 1\<rparr>)"
  by (auto simp: fd_inv_def)

lemma exit_files_loop_facts:
  "exit_files_loop n s = Inr s' \<Longrightarrow>
     (fd_inv s \<longrightarrow> fd_inv s') \<and> fd_name_mapping s' = filter (\<lambda>ffn. ffn_tid ffn \<noteq> tid s) (fd_name_mapping s) \<and>
     exit_status s' = exit_status s \<and> console s' = console s \<and> tid s' = tid s"
proof (induction n s rule: exit_files_loop.induct)
  case (2 n s)
  show ?case
  proof (cases "find_mapping_by_tid (tid s) s")
    case None
    then have "s' = s" using 2(2) by simp
    moreover have "filter (\<lambda>ffn. ffn_tid ffn \<noteq> tid s) (fd_name_mapping s) = fd_name_mapping s"
      using None by (auto simp: find_mapping_by_tid_def find_None_iff filter_id_conv)
    ultimately show ?thesis by simp
  next
    case (Some ffn)
    let ?s = "s\<lparr>fd_name_mapping := remove_first (\<lambda>f. ffn_tid f = tid s) (fd_name_mapping s)\<rparr>"
    obtain f where f: "file_close (ffn_file ffn) (fs_of s) = Inr f" "exit_files_loop n (?s\<lparr>fs_of := f\<rparr>) = Inr s'"
      using 2(2) Some by (auto simp: res_simps)
    have "filter (\<lambda>f. ffn_tid f \<noteq> tid s) (remove_first (\<lambda>f. ffn_tid f = tid s) (fd_name_mapping s)) = filter (\<lambda>f. ffn_tid f \<noteq> tid s) (fd_name_mapping s)"
      by (rule filter_remove_first(2)) auto
    then show ?thesis using 2(1) [OF Some refl _ f(2)] f(1) by (auto simp: tid_def fd_inv_removed)
  qed
qed simp

definition same_fds :: "sys \<Rightarrow> sys \<Rightarrow> bool" where
  "same_fds s s' \<longleftrightarrow> fd_name_mapping s' = fd_name_mapping s \<and> fd_index s' = fd_index s \<and> exit_status s' = exit_status s \<and> console s' = console s"

lemma same_fds_trans [trans]: "same_fds s s1 \<Longrightarrow> same_fds s1 s2 \<Longrightarrow> same_fds s s2"
  by (simp add: same_fds_def)

lemma same_fds_inv: "same_fds s s' \<Longrightarrow> fd_inv s' = fd_inv s"
  by (simp add: same_fds_def fd_inv_def)

lemma syscall_lock_release_fds: "syscall_lock_release s = Inr s' \<Longrightarrow> same_fds s s'"
  by (auto simp: syscall_lock_release_def same_fds_def res_simps)

lemma thread_exit_user_facts: "thread_exit_user s = Inr s' \<Longrightarrow> same_fds s s'"
proof -
  assume r: "thread_exit_user s = Inr s'"
  define S where "S u = s\<lparr>vm_of := vm_of u, fs_of := fs_of u\<rparr>" for u :: user_state
  from r obtain u s2 s3 where
    a: "(if file_lock_hold (S u) then rbind (unlock_filesys (fs_of (S u))) (\<lambda>f. Inr ((S u)\<lparr>fs_of := f, file_lock_hold := False\<rparr>)) else Inr (S u)) = Inr s2"
      "(if sys_lock_hold s2 then syscall_lock_release s2 else Inr s2) = Inr s3"
      "(if executable s3 \<noteq> 0 then rbind (file_allow_write (executable s3) (fs_of s3)) (\<lambda>f. Inr (s3\<lparr>fs_of := f\<rparr>)) else Inr s3) = Inr s'"
    unfolding thread_exit_user_def Let_def rbind_eq_Inr S_def by blast
  have "same_fds s (S u)" by (simp add: same_fds_def S_def)
  also have "same_fds (S u) s2" using a(1) by (auto simp: same_fds_def res_simps split: if_splits)
  also have "same_fds s2 s3" using a(2) by (auto dest: syscall_lock_release_fds simp: same_fds_def split: if_splits)
  also have "same_fds s3 s'" using a(3) by (auto simp: same_fds_def res_simps split: if_splits)
  finally show ?thesis .
qed

lemma syscall_exit_facts:
  assumes "syscall_exit n s = Inr (out, s')"
  shows "out = Ended n" "fd_inv s \<Longrightarrow> fd_inv s'" "fd_name_mapping s' = filter (\<lambda>ffn. ffn_tid ffn \<noteq> tid s) (fd_name_mapping s)"
    "exit_status s' = (exit_status s)(tid s \<mapsto> n)" "console s' = console s @ [Exit_message (process_name s) n]"
proof -
  let ?s = "s\<lparr>console := console s @ [Exit_message (process_name s) n], exit_status := (exit_status s)(tid s \<mapsto> n)\<rparr>"
  obtain k s1 where e: "exit_files_loop k ?s = Inr s1" "thread_exit_user s1 = Inr s'" "out = Ended n"
    using assms by (auto simp: syscall_exit_def res_simps simp del: exit_files_loop.simps)
  show "out = Ended n" "fd_inv s \<Longrightarrow> fd_inv s'" "fd_name_mapping s' = filter (\<lambda>ffn. ffn_tid ffn \<noteq> tid s) (fd_name_mapping s)"
    "exit_status s' = (exit_status s)(tid s \<mapsto> n)" "console s' = console s @ [Exit_message (process_name s) n]"
    using e(3) exit_files_loop_facts [OF e(1)] thread_exit_user_facts [OF e(2)]
    by (simp_all add: same_fds_inv) (simp_all add: same_fds_def tid_def)
qed


subsection \<open>Every call keeps the descriptors in order\<close>

definition keeps :: "('a outcome \<times> sys) res \<Rightarrow> bool" where
  "keeps r \<longleftrightarrow> (\<forall>out s'. r = Inr (out, s') \<longrightarrow> fd_inv s')"

lemma keeps_simps [simp]: "keeps (Inl e)" "keeps (Inr (out, s)) = fd_inv s"
  by (auto simp: keeps_def)

lemma keeps_exit: "fd_inv s \<Longrightarrow> keeps (syscall_exit n s)"
  using syscall_exit_facts(2) by (fastforce simp: keeps_def)

lemma keeps_obind: "keeps r \<Longrightarrow> (\<And>x s1. fd_inv s1 \<Longrightarrow> keeps (k x s1)) \<Longrightarrow> keeps (obind r k)"
  unfolding keeps_def obind_eq_Inr by blast

lemma keeps_rbind: "(\<And>x. r = Inr x \<Longrightarrow> keeps (k x)) \<Longrightarrow> keeps (rbind r k)"
  by (cases r) auto

lemma keeps_if: "(b \<Longrightarrow> keeps r) \<Longrightarrow> (\<not> b \<Longrightarrow> keeps r') \<Longrightarrow> keeps (if b then r else r')"
  by simp

lemma keeps_lock:
  assumes "fd_inv s" "\<And>s1. fd_inv s1 \<Longrightarrow> keeps (k s1)"
  shows "keeps (with_syscall_lock s k)"
proof -
  have "fd_inv s1" if "k (s\<lparr>syscall_lock := True\<rparr>) = Inr (x, s1)" for x s1
    using assms(2) [of "s\<lparr>syscall_lock := True\<rparr>"] assms(1) that by (auto simp: keeps_def)
  then show ?thesis by (auto simp: with_syscall_lock_def keeps_def res_simps)
qed

lemma keeps_catch: "fd_inv s \<Longrightarrow> keeps (catch_addr_error a s)"
  unfolding catch_addr_error_def by (intro keeps_rbind) (simp add: keeps_exit)

lemma sys_fs_fds: "sys_fs f s = Inr (x, s') \<Longrightarrow> fd_inv s \<Longrightarrow> fd_inv s'"
  by (auto simp: sys_fs_def res_simps)

lemma keeps_create: "fd_inv s \<Longrightarrow> keeps (syscall_create fuel f n s)"
  unfolding syscall_create_def by (auto intro!: keeps_exit keeps_rbind keeps_lock) (blast intro: sys_fs_fds)+

lemma keeps_remove: "fd_inv s \<Longrightarrow> keeps (syscall_remove fuel f s)"
  unfolding syscall_remove_def by (auto intro!: keeps_exit keeps_rbind keeps_lock intro: sys_fs_fds)

lemma keeps_open: "fd_inv s \<Longrightarrow> keeps (syscall_open fuel f s)"
  unfolding syscall_open_def
  by (auto simp: kdefined_def split: prod.splits intro!: keeps_exit keeps_rbind keeps_lock fd_inv_opened)
    (blast intro: sys_fs_fds)+

lemma keeps_filesize: "fd_inv s \<Longrightarrow> keeps (syscall_filesize fd s)"
  unfolding syscall_filesize_def by (auto simp: Let_def intro!: keeps_rbind keeps_lock)

lemma keeps_read: "fd_inv s \<Longrightarrow> keeps (syscall_read fd buffer len s)"
  unfolding syscall_read_def
  by (auto simp: Let_def split: list.splits prod.splits intro!: keeps_obind keeps_catch keeps_rbind keeps_lock simp del: uwrite.simps dest!: uwrite_fds)

lemma keeps_write: "fd_inv s \<Longrightarrow> keeps (syscall_write fd buffer len s)"
  unfolding syscall_write_def
  by (auto simp: Let_def split: prod.splits intro!: keeps_obind keeps_catch keeps_rbind keeps_lock)

lemma keeps_seek: "fd_inv s \<Longrightarrow> keeps (syscall_seek fd p s)"
  unfolding syscall_seek_def by (auto intro!: keeps_rbind keeps_lock)

lemma keeps_tell: "fd_inv s \<Longrightarrow> keeps (syscall_tell fd s)"
  unfolding syscall_tell_def by (auto intro!: keeps_rbind)

lemma keeps_close: "fd_inv s \<Longrightarrow> keeps (syscall_close fd s)"
  unfolding syscall_close_def by (auto intro!: fd_inv_closed)

lemma keeps_halt: "fd_inv s \<Longrightarrow> keeps (syscall_halt s)"
  by (simp add: syscall_halt_def)

lemma keeps_exec:
  assumes "\<And>f s pid s'. process_execute f s = Inr (pid, s') \<Longrightarrow> fd_inv s \<Longrightarrow> fd_inv s'" "fd_inv s"
  shows "keeps (syscall_exec process_execute fuel f s)"
  unfolding syscall_exec_def using assms by (auto intro!: keeps_obind keeps_catch keeps_rbind keeps_lock split: prod.splits)

lemma keeps_wait:
  assumes "\<And>p s r s'. process_wait p s = Inr (r, s') \<Longrightarrow> fd_inv s \<Longrightarrow> fd_inv s'" "fd_inv s"
  shows "keeps (syscall_wait process_wait pid s)"
  unfolding syscall_wait_def using assms by (auto intro!: keeps_rbind split: prod.splits)

lemma keeps_args:
  assumes "fd_inv s"
  shows "(\<And>a s. fd_inv s \<Longrightarrow> keeps (k1 a s)) \<Longrightarrow> keeps (arg1 esp k1 s)"
    "(\<And>a b s. fd_inv s \<Longrightarrow> keeps (k2 a b s)) \<Longrightarrow> keeps (arg2 esp k2 s)"
    "(\<And>a b c s. fd_inv s \<Longrightarrow> keeps (k3 a b c s)) \<Longrightarrow> keeps (arg3 esp k3 s)"
  unfolding arg1_def arg2_def arg3_def by (intro keeps_obind keeps_catch keeps_rbind; simp add: assms)+

lemma keeps_return: "keeps r \<Longrightarrow> keeps (return f r)"
  unfolding return_def by (rule keeps_obind) auto

lemmas keeps_calls = keeps_create keeps_remove keeps_open keeps_filesize keeps_read keeps_write keeps_seek keeps_tell
  keeps_close keeps_halt keeps_exit

subsection \<open>Opening\<close>

lemma find_append: "List.find P (xs @ ys) = (case List.find P xs of None \<Rightarrow> List.find P ys | Some x \<Rightarrow> Some x)"
  by (induction xs) auto

lemma find_fd_fresh: "fd_inv s \<Longrightarrow> List.find (\<lambda>ffn. ffn_fd ffn = fd_index s) (fd_name_mapping s) = None"
  by (auto simp: fd_inv_def find_None_iff)

lemma find_file_by_fd_opened:
  "fd_inv s \<Longrightarrow> find_file_by_fd fd (s\<lparr>fd_name_mapping := fd_name_mapping s @ [\<lparr>ffn_tid = t, ffn_fd = fd_index s, ffn_name = f, ffn_file = fl, file_state = c\<rparr>],
     fd_index := n\<rparr>) = (if fd = fd_index s then fl else find_file_by_fd fd s)"
  by (auto simp: find_file_by_fd_def find_append find_fd_fresh split: option.splits)

lemma syscall_open_Done:
  assumes "syscall_open fuel f s = Inr (Done fd, s')" "fd \<noteq> - 1"
  shows "\<exists>s2 fl. fd_name_mapping s2 = fd_name_mapping s \<and> fd_index s2 = fd_index s \<and> fl \<noteq> 0 \<and> fd = fd_index s \<and>
     s' = s2\<lparr>fd_name_mapping := fd_name_mapping s2 @ [\<lparr>ffn_tid = tid s2, ffn_fd = fd_index s2, ffn_name = f, ffn_file = fl, file_state = FILE_OPEN\<rparr>],
            fd_index := fd_index s2 + 1, syscall_lock := False\<rparr>"
proof -
  obtain ffd fs1 where m: "fs_malloc (fs_of s) = (ffd, fs1)" by fastforce
  let ?s = "s\<lparr>fs_of := fs1, syscall_lock := True\<rparr>"
  have f: "f \<noteq> 0" "is_valid_addr f s = Inr True" using assms(1) syscall_exit_Ended
    by (fastforce simp: syscall_open_def rbind_eq_Inr split: if_splits)+
  obtain name where n: "ustring fuel f s = Inr name" "name \<noteq> []"
    using assms f by (auto simp: syscall_open_def rbind_eq_Inr split: if_splits)
  have "with_syscall_lock (s\<lparr>fs_of := fs1\<rparr>) (\<lambda>s1. rbind (find_mapping_by_name fuel f s1) (\<lambda>_. rbind (sys_fs (filesys_open name) s1) (\<lambda>(fl, s2).
      if fl = 0 then Inr (Done (- 1), s2) else kdefined (ffd \<noteq> 0) (Inr (Done (fd_index s2),
        s2\<lparr>fd_name_mapping := fd_name_mapping s2 @ [\<lparr>ffn_tid = tid s2, ffn_fd = fd_index s2, ffn_name = f, ffn_file = fl, file_state = FILE_OPEN\<rparr>],
            fd_index := fd_index s2 + 1\<rparr>))))) = Inr (Done fd, s')"
    using assms(1) f n m by (simp add: syscall_open_def)
  then obtain fl s2 where o: "sys_fs (filesys_open name) ?s = Inr (fl, s2)" "fl \<noteq> 0" "fd = fd_index s2"
      "s' = s2\<lparr>fd_name_mapping := fd_name_mapping s2 @ [\<lparr>ffn_tid = tid s2, ffn_fd = fd_index s2, ffn_name = f, ffn_file = fl, file_state = FILE_OPEN\<rparr>],
            fd_index := fd_index s2 + 1, syscall_lock := False\<rparr>"
    using assms(2) unfolding with_syscall_lock_def by (auto simp: rbind_eq_Inr kdefined_eq_Inr split: if_splits prod.splits)
  have "fd_name_mapping s2 = fd_name_mapping s" "fd_index s2 = fd_index s" using o(1) by (auto simp: sys_fs_def rbind_eq_Inr)
  then show ?thesis using o by (intro exI [of _ s2] exI [of _ fl]) simp
qed

lemma find_file_by_fd_closed:
  "find_file_by_fd fd (s\<lparr>fd_name_mapping := upd_first P (\<lambda>ffn. ffn\<lparr>file_state := c\<rparr>) (fd_name_mapping s)\<rparr>) = find_file_by_fd fd s"
proof -
  have "map_option ffn_file (List.find (\<lambda>ffn. ffn_fd ffn = fd) (upd_first P (\<lambda>ffn. ffn\<lparr>file_state := c\<rparr>) l)) =
      map_option ffn_file (List.find (\<lambda>ffn. ffn_fd ffn = fd) l)" for l
    by (induction l) auto
  from this [of "fd_name_mapping s"] show ?thesis by (auto simp: find_file_by_fd_def split: option.splits)
qed

lemma obind_exit: "obind (syscall_exit n s) k = syscall_exit n s"
proof (cases "syscall_exit n s :: ('a outcome \<times> sys) res")
  case (Inl e)
  then show ?thesis by (auto simp: obind_def syscall_exit_def rbind_eq_Inl)
next
  case (Inr p)
  then show ?thesis by (auto simp: obind_def syscall_exit_def res_simps)
qed

lemma catch_invalid: "is_valid_addr a s = Inr False \<Longrightarrow> catch_addr_error a s = syscall_exit (- 1) s"
  by (simp add: catch_addr_error_def)

end
