(* ===== verification/Userland.thy ===== *)
theory Userland
  imports Descriptors Paging Storage
begin

unbundle bit_operations_syntax

text \<open>
  Properties of the part of the kernel that runs user programs: the stack of a new process, the
  segments of an executable, strings and blocks of memory, and system calls.
\<close>

subsection \<open>Starting a process\<close>

text \<open>C21: a command line that the kernel cuts into words and pushes gives the new process the
  stack that the C calling convention asks for: a return address of 0, the number of words, the
  address of \<open>argv\<close> right above, then one address for each word, which points to that word, and a
  null pointer; the stack pointer is a multiple of 4.\<close>

theorem start_process_arguments:
  fixes str :: "u8 list"
  defines "ws \<equiv> words {32} str"
  assumes c: "cstr m cmd str" "cstr m d [32]"
    and ap: "apart [(cmd, length str + 1), (t1, length str + 1), (t2, length str + 1), (d, 2)]"
    and t: "unat PHYS_BASE \<le> unat t1" "unat PHYS_BASE \<le> unat t2" "unat PHYS_BASE \<le> unat d"
      "unat t1 + length str < 2 ^ 32" "unat t2 + length str < 2 ^ 32"
    and F: "length str + 2 < F" and fits: "frame_size ws \<le> 4096"
  shows "\<exists>p1 p2 m1 e m2. parse_command F d cmd t1 t2 m = Inr (p1, p2, m1) \<and> build_stack F d p1 p2 PHYS_BASE m1 = Inr (e, m2) \<and>
     e = PHYS_BASE - of_nat (frame_size ws) \<and> unat e mod 4 = 0 \<and>
     mword m2 e = 0 \<and> mword m2 (e + 4) = of_nat (length ws) \<and> mword m2 (e + 8) = e + 12 \<and>
     (\<forall>i < length ws. cstr m2 (mword m2 (e + 12 + of_nat (4 * i))) (ws ! i)) \<and>
     mword m2 (e + 12 + of_nat (4 * length ws)) = 0"
proof -
  have nz: "t1 \<noteq> 0" "t2 \<noteq> 0" using t(1,2) by (auto simp: PHYS_BASE_def)
  obtain a b a' b' m1 where p: "parse_command F d cmd t1 t2 m = Inr ((a, b), (a', b'), m1)"
      "tokens m1 d a b (unat t1) (unat t1 + length str) ws" "tokens m1 d a' b' (unat t2) (unat t2 + length str) ws"
    using parse_command_spec [OF c nz(1) t(4) nz(2) t(5) F ap] unfolding ws_def by blast
  have dis: "unat t1 + length str < unat t2 \<or> unat t2 + length str < unat t1" using ap by (auto simp: apart_def)
  have lw: "length ws < F" using length_words [of "{32}" str] F unfolding ws_def by linarith
  obtain m2 where b: "build_stack F d (a, b) (a', b') PHYS_BASE m1 = Inr (below_base (frame_size ws), m2)"
      "\<forall>x. unat x < unat PHYS_BASE \<longrightarrow> m2 x = kwrite (below_base (frame_size ws)) (stack_image ws) m1 x"
    using build_stack_spec [OF p(2,3) t(1,2,3) dis _ _ lw fits] F by auto
  let ?e = "below_base (frame_size ws)"
  have "m2 (?e + of_nat i) = kwrite ?e (stack_image ws) m1 (?e + of_nat i)" if "i < frame_size ws" for i
    using b(2) that fits below_base_add [of i "frame_size ws"] unat_below_base [of "frame_size ws - i"] by (simp add: PHYS_BASE_def)
  then have "kread ?e (frame_size ws) m2 = kread ?e (frame_size ws) (kwrite ?e (stack_image ws) m1)" by (simp add: kread_def)
  also have "\<dots> = stack_image ws" using kread_kwrite_same [of "stack_image ws" ?e m1] fits by (simp add: length_stack_image)
  finally have k: "kread ?e (frame_size ws) m2 = stack_image ws" .
  have z: "0 \<notin> set w" if "w \<in> set ws" for w using word_in_str that cstr_no0 [OF c(1)] unfolding ws_def by blast
  show ?thesis using p(1) b(1) stack_image_reads [OF k fits z] by (auto simp: below_base_def)
qed

lemma words_ls: "words {32} [108, 115, 32, 45, 108] = [[108, 115], [45, 108]]"
  by (simp add: words.simps [of _ "_ # _"] words.simps [of _ "[]"] first_word_def after_word_def)

theorem start_process_arguments_witness:
  "\<exists>p1 p2 m1 e m2. parse_command 20 0xc0303000 0xc0300000 0xc0301000 0xc0302000
        (kwrite 0xc0300000 [108, 115, 32, 45, 108, 0] (kwrite 0xc0303000 [32, 0] (\<lambda>_. 0))) = Inr (p1, p2, m1) \<and>
     build_stack 20 0xc0303000 p1 p2 PHYS_BASE m1 = Inr (e, m2) \<and> e = PHYS_BASE - 32 \<and>
     mword m2 (e + 4) = 2 \<and> cstr m2 (mword m2 (e + 12)) [108, 115] \<and> cstr m2 (mword m2 (e + 16)) [45, 108]"
proof -
  let ?m = "kwrite 0xc0300000 [108, 115, 32, 45, 108, 0] (kwrite 0xc0303000 [32, 0] (\<lambda>_. 0))"
  have c: "cstr ?m 0xc0300000 [108, 115, 32, 45, 108]" "cstr ?m 0xc0303000 [32]" by (simp_all add: kwrite_def)
  have fs: "frame_size [[108, 115], [45, 108]] = 32" by (simp add: frame_size_def align4_def strs_def)
  obtain p1 p2 m1 e m2 where r: "parse_command 20 0xc0303000 0xc0300000 0xc0301000 0xc0302000 ?m = Inr (p1, p2, m1)"
      "build_stack 20 0xc0303000 p1 p2 PHYS_BASE m1 = Inr (e, m2)" "e = PHYS_BASE - of_nat 32" "mword m2 (e + 4) = of_nat (length [[108, 115], [45, 108 :: u8]])"
      "\<forall>i < length [[108, 115], [45, 108 :: u8]]. cstr m2 (mword m2 (e + 12 + of_nat (4 * i))) ([[108, 115], [45, 108]] ! i)"
    using start_process_arguments [OF c, where ?t1.0 = "0xc0301000" and ?t2.0 = "0xc0302000" and F = 20] unfolding words_ls fs
    by (auto simp: apart_def PHYS_BASE_def)
  from r(5) have "cstr m2 (mword m2 (e + 12 + of_nat (4 * 0))) ([[108, 115], [45, 108]] ! 0)" "cstr m2 (mword m2 (e + 12 + of_nat (4 * 1))) ([[108, 115], [45, 108]] ! 1)"
    by (metis length_Cons zero_less_Suc, metis One_nat_def length_Cons lessI list.size(3))
  then have "cstr m2 (mword m2 (e + 12)) [108, 115] \<and> cstr m2 (mword m2 (e + 16)) [45, 108]" by (simp add: ac_simps)
  then show ?thesis using r(1,2,3,4) by auto
qed

text \<open>C26: what \<^verbatim>\<open>load\<close> computes for a segment that \<^verbatim>\<open>validate_segment\<close> accepts is a run of whole pages
  below the kernel and above page 0, which covers the segment; the bytes read from the file end
  where the segment's bytes in the file end, and offsets in memory and in the file agree.\<close>

theorem validate_segment_bounds:
  assumes "validate_segment phdr len" "segment_extent phdr = (file_page, mem_page, read_bytes, zero_bytes)"
  shows "PGSIZE \<le> unat mem_page \<and> unat mem_page + unat read_bytes + unat zero_bytes \<le> unat PHYS_BASE \<and>
     (unat read_bytes + unat zero_bytes) mod PGSIZE = 0 \<and> pg_ofs mem_page = 0 \<and> pg_ofs file_page = 0 \<and> unat file_page \<le> unat len \<and>
     unat mem_page \<le> unat (p_vaddr phdr) \<and>
     unat (p_vaddr phdr) + unat (p_memsz phdr) \<le> unat mem_page + unat read_bytes + unat zero_bytes \<and>
     p_vaddr phdr - mem_page = p_offset phdr - file_page \<and>
     (p_filesz phdr > 0 \<longrightarrow> unat mem_page + unat read_bytes = unat (p_vaddr phdr) + unat (p_filesz phdr))"
  using segment_extent_facts [OF assms] by (auto simp: PGSIZE_def)

theorem validate_segment_bounds_witness:
  "unat (0x8048000 :: u32) + unat (0x234 :: u32) + unat (0xdcc :: u32) \<le> unat PHYS_BASE \<and> pg_ofs 0x8048000 = 0"
proof -
  let ?ph = "\<lparr>p_type = PT_LOAD, p_offset = 0x1034, p_vaddr = 0x8048034, p_filesz = 0x200, p_memsz = 0x300, p_flags = 5\<rparr> :: Elf32_Phdr"
  have v: "validate_segment ?ph 0x2000" by (simp add: validate_segment_def PGMASK_def BITMASK_def PGBITS_def is_user_vaddr_def PHYS_BASE_def PGSIZE_def)
  have e: "segment_extent ?ph = (0x1000, 0x8048000, 0x234, 0xdcc)" by (simp add: segment_extent_def PGMASK_def PGBITS_def BITMASK_def ROUND_UP_def sz_def PGSIZE_def)
  show ?thesis using validate_segment_bounds [OF v e] by simp
qed




subsection \<open>Blocks of memory\<close>

lemma block_ne: "unat a + i < 2 ^ 32 \<Longrightarrow> unat b + j < 2 ^ 32 \<Longrightarrow> unat a + i \<noteq> unat b + j \<Longrightarrow> a + of_nat i \<noteq> (b + of_nat j :: u32)"
  using unat_plus_of_nat [of a i] unat_plus_of_nat [of b j] by metis

text \<open>C29: \<^verbatim>\<open>memmove\<close> leaves in the destination the bytes that the source held, even when the two
  overlap, and changes nothing else; but when it copies upwards it returns the end of the
  destination and not its start.\<close>

theorem memmove_moves_block:
  assumes "dst \<noteq> 0" "src \<noteq> 0" and b: "unat dst + n \<le> 2 ^ 32" "unat src + n \<le> 2 ^ 32"
  shows "memmove dst src n m = Inr (if dst < src then dst + of_nat n else dst, kwrite dst (kread src n m) m)"
proof (cases "dst < src")
  case True
  then have lt: "unat dst < unat src" by (simp add: word_less_nat_alt)
  have "src + of_nat i \<noteq> dst + of_nat j" if "i < n" "j < i" for i j by (rule block_ne) (use that b lt in linarith)+
  then have "memcpy_loop dst src n m = kwrite dst (kread src n m) m" using b(1) by (intro memcpy_loop_kwrite) auto
  then show ?thesis using True assms(1,2) by (simp add: memmove_def memmove_up_eq)
next
  case False
  then have ge: "unat src \<le> unat dst" by (simp add: word_less_nat_alt)
  have "src + of_nat i \<noteq> dst + of_nat j" if "j < n" "i < j" for i j by (rule block_ne) (use that b ge in linarith)+
  then have "memmove_down (dst + of_nat n) (src + of_nat n) n m = (dst, kwrite dst (kread src n m) m)" using b(1) by (intro memmove_down_kwrite) auto
  then show ?thesis using False assms(1,2) by (simp add: memmove_def)
qed

theorem memmove_moves_block_witness:
  "\<forall>m. memmove 0xc0000001 0xc0000000 4 m = Inr (0xc0000001, kwrite 0xc0000001 (kread 0xc0000000 4 m) m)"
  using memmove_moves_block [of "0xc0000001" "0xc0000000" 4] by simp


subsection \<open>System calls\<close>

text \<open>Process 3 of the small machine, with its page \<open>0x1000\<close> mapped and file 5 open as descriptor 2.\<close>

definition ex_sys :: sys where
  "ex_sys = \<lparr>vm_of = kset 0xc0101004 0x200007 ex_vm, fs_of = ex_fs, is_running = True,
     fd_name_mapping = [\<lparr>ffn_tid = 3, ffn_fd = 2, ffn_name = 0x1000, ffn_file = 5, file_state = FILE_OPEN\<rparr>], fd_index = 3,
     syscall_lock = False, umem = (\<lambda>_. 0), keyboard = [97], console = [], process_name = [97], exit_status = Map.empty,
     executable = 0, sys_lock_hold = False, file_lock_hold = False\<rparr>"

lemma ex_sys_valid: "is_valid_addr 0x1234 ex_sys = Inr True"
proof -
  have n: "pd_no 0x1234 = 0" "pt_no 0x1234 = 1" "pg_ofs 0x1234 = 0x234" by (simp_all add: word_unat_eq_iff unat_pd_no unat_pt_no unat_pg_ofs)
  have "kword (kset 0xc0101004 0x200007 ex_vm) 0xc0100000 = 0x101007"
    using ex_vm_pde [of 0] by (subst kword_kset_other) (simp_all add: pde_at_def)
  then have "pagedir_get_page 0xc0100000 0x1234 (kset 0xc0101004 0x200007 ex_vm) = Inr 0xc0200234"
    by (simp add: pagedir_get_page_def lookup_page_def n pde_get_pt_def pte_get_page_def PTE_P_def PTE_ADDR_def BITMASK_def PGBITS_def ptov_def
        is_user_vaddr_def PHYS_BASE_def)
  then show ?thesis by (simp add: is_valid_addr_def ex_sys_def is_user_vaddr_def PHYS_BASE_def tid_def kset_def)
qed

lemma ex_touchable: "pg_round_down a = 0x1000 \<Longrightarrow> vm_of s = vm_of ex_sys \<Longrightarrow> touchable a s"
  by (simp add: touchable_def ex_sys_def page_entry_lookup_def page_entry_list_lookup_def tid_def kset_def)

lemma ex_sys_fds: "fd_inv ex_sys"
  by (simp add: ex_sys_def fd_inv_def)










text \<open>opening a file gives a descriptor that was not in use, through which the file is found, and
  leaves the others alone. Closing a descriptor only marks it: it still leads to the file.\<close>

theorem open_gives_new_descriptor:
  assumes "fd_inv s" "syscall_open fuel f s = Inr (Done fd, s')" "fd \<noteq> - 1"
  shows "find_file_by_fd fd s = 0 \<and> find_file_by_fd fd s' \<noteq> 0 \<and> (\<forall>fd'. fd' \<noteq> fd \<longrightarrow> find_file_by_fd fd' s' = find_file_by_fd fd' s) \<and>
     (\<exists>s''. syscall_close fd s' = Inr (Done (), s'') \<and> find_file_by_fd fd s'' = find_file_by_fd fd s')"
proof -
  obtain s2 fl where o: "fd_name_mapping s2 = fd_name_mapping s" "fd_index s2 = fd_index s" "fl \<noteq> 0" "fd = fd_index s"
      "s' = s2\<lparr>fd_name_mapping := fd_name_mapping s2 @ [\<lparr>ffn_tid = tid s2, ffn_fd = fd_index s2, ffn_name = f, ffn_file = fl, file_state = FILE_OPEN\<rparr>],
            fd_index := fd_index s2 + 1, syscall_lock := False\<rparr>"
    using syscall_open_Done [OF assms(2,3)] by blast
  have i: "fd_inv (s2\<lparr>syscall_lock := False\<rparr>)" using assms(1) o(1,2) by (simp add: fd_inv_def)
  have f: "find_file_by_fd k s' = (if k = fd then fl else find_file_by_fd k s)" for k
    using find_file_by_fd_opened [OF i, of k] o by (simp add: find_file_by_fd_def)
  have "find_file_by_fd fd s = 0" using find_fd_fresh [OF assms(1)] o(4) by (simp add: find_file_by_fd_def)
  then show ?thesis using f o(3) by (simp add: syscall_close_def find_file_by_fd_closed)
qed


text \<open>The same process, with a file name in its memory and a root directory that has the file.\<close>

definition ex_fs_root :: fs where
  "ex_fs_root = ex_fs\<lparr>fs_device := (fs_device ex_fs)\<lparr>sectors := (\<lambda>k. if k = 8 then [2, 0, 0, 0, 97] @ replicate 14 0 @ [1] @ replicate 492 0 else replicate 512 0)\<rparr>\<rparr>"

definition ex_sys_open :: sys where
  "ex_sys_open = ex_sys\<lparr>umem := (\<lambda>_. 0)(0x1234 := 97), fs_of := ex_fs_root\<rparr>"

abbreviation ex_root_inode :: inode where
  "ex_root_inode \<equiv> (ex_inode 1 8 40)\<lparr>open_cnt := 2\<rparr>"

lemma ex_root_dir:
  fixes D :: "u8 list"
  defines "D \<equiv> [2, 0, 0, 0, 97] @ replicate 14 0 @ [1] @ replicate 20 0"
  assumes s: "s = ex_fs_root\<lparr>filesys_lock := True, mcount := m, last_ptr := p, inodes := (inodes ex_fs)(4 \<mapsto> ex_root_inode), dirs := (dirs ex_fs)(8 \<mapsto> \<lparr>d_inode = 4, d_pos = 0\<rparr>)\<rparr>"
  shows "\<exists>s'. dir_lookup 8 [97] s = Inr (1, s') \<and> (\<exists>s2. quiet s s2 \<and> s' = upd_inode 1 (\<lambda>ino. ino\<lparr>open_cnt := open_cnt ino + 1\<rparr>) s2)"
proof -
  have es: "entries_of D = [\<lparr>inode_sector = 2, e_name = 97 # replicate 14 0, in_use = True\<rparr>, \<lparr>inode_sector = 0, e_name = replicate 15 0, in_use = False\<rparr>]"
    by (simp add: D_def entries_of_def dir_entry_of_def le_val_zeros upt_conv_Cons nth_append)
  have "inode_bytes (sectors (fs_device s)) (i_data ex_root_inode) = D"
    by (simp add: inode_bytes_def run_bytes_def s ex_fs_root_def ex_fs_def ex_inode_def sector_cnt_def D_def)
  then have "dir_at s 4 ex_root_inode D" by (simp add: dir_at_def s ex_inode_def inode_ok_def sector_cnt_def ex_fs_root_def ex_fs_def block_wf_def BLOCK_SECTOR_SIZE_def)
  moreover have "dl_inv (entries_of D)" unfolding es dl_inv_def by (auto simp: entry_ok_def names_def nth_Cons split: nat.splits)
  ultimately have "dir_ready s 8 ex_root_inode D" by (auto simp: dir_ready_def s ex_fs_root_def ex_fs_def ex_inode_def D_def)
  from lookup_spec [OF this, of "[97]"] obtain s2 where l: "lookup 8 [97] s =
      Inr (map_option (\<lambda>m. (entries_of D ! m, int (20 * m))) (entry_index [97] (entries_of D)), s2)" "quiet s s2" by auto
  have "entry_index [97] (entries_of D) = Some 0" by (simp add: entry_index_def es names_def c_string_def)
  then have "dir_lookup 8 [97] s = inode_open 2 s2" using l(1) by (simp add: dir_lookup_def es)
  moreover have "inode_open 2 s2 = Inr (1, upd_inode 1 (\<lambda>ino. ino\<lparr>open_cnt := open_cnt ino + 1\<rparr>) s2)"
    using l(2) by (simp add: inode_open_def quietD inode_reopen_def get_inode_def s ex_fs_root_def ex_fs_def ex_inode_def)
  ultimately show ?thesis using l(2) by auto
qed

lemma ex_filesys_open:
  "\<exists>fl s'. filesys_open [97] (ex_fs_root\<lparr>mcount := m, last_ptr := 7\<rparr>) = Inr (fl, s') \<and> fl \<noteq> 0"
proof -
  let ?s = "ex_fs_root\<lparr>filesys_lock := True, mcount := Suc m, last_ptr := 8, inodes := (inodes ex_fs)(4 \<mapsto> ex_root_inode), dirs := (dirs ex_fs)(8 \<mapsto> \<lparr>d_inode = 4, d_pos = 0\<rparr>)\<rparr>"
  have o: "dir_open_root (ex_fs_root\<lparr>mcount := m, last_ptr := 7, filesys_lock := True\<rparr>) = Inr (8, ?s)"
    by (simp add: dir_open_root_def inode_open_def inode_reopen_def get_inode_def dir_open_def fs_malloc_def upd_inode_def
        ex_fs_root_def ex_fs_def ex_inode_def ROOT_DIR_SECTOR_def)
  obtain s2 where d: "dir_lookup 8 [97] ?s = Inr (1, upd_inode 1 (\<lambda>ino. ino\<lparr>open_cnt := open_cnt ino + 1\<rparr>) s2)" "quiet ?s s2"
    using ex_root_dir [OF refl] by blast
  show ?thesis using d(1) o quietD [OF d(2)]
    by (simp add: filesys_open_def lock_filesys_def unlock_filesys_def file_open_def fs_malloc_def dir_close_def get_dir_def inode_close_def get_inode_def
        upd_inode_def ex_fs_root_def ex_fs_def ex_inode_def)
qed

lemma is_valid_addr_vm: "vm_of s = vm_of s' \<Longrightarrow> is_valid_addr a s = is_valid_addr a s'"
  by (simp add: is_valid_addr_def tid_def split: option.splits)

lemma ex_sys_open_result: "\<exists>s'. syscall_open 5 0x1234 ex_sys_open = Inr (Done 3, s')"
proof -
  let ?s = "ex_sys_open\<lparr>fs_of := ex_fs_root\<lparr>mcount := 1, last_ptr := 7\<rparr>, syscall_lock := True\<rparr>"
  have pg: "pg_round_down 0x1234 = 0x1000" "pg_round_down 0x1235 = 0x1000" "pg_round_down 0x1000 = 0x1000"
    by (simp_all add: word_unat_eq_iff unat_pg_round_down)
  have v: "is_valid_addr 0x1234 ex_sys_open = Inr True" 
    using ex_sys_valid is_valid_addr_vm [of ex_sys_open ex_sys] by (simp add: ex_sys_open_def)
  have tc: "touchable a ex_sys_open" "touchable a ?s" if "pg_round_down a = 0x1000" for a using that by (auto intro: ex_touchable simp: ex_sys_open_def)
  have mem: "umem_at s 0x1234 = 97" "umem_at s 0x1235 = 0" "umem_at s 0x1000 = 0" if "umem s = umem ex_sys_open" for s :: sys
    using that by (simp_all add: umem_at_def is_kernel_vaddr_def PHYS_BASE_def ex_sys_open_def)
  have five: "(5 :: nat) = Suc (Suc 3)" by simp
  have "ustring 5 0x1234 ex_sys_open = Inr [97]" unfolding five ustring.simps using mem [OF refl] tc(1) pg by simp
  moreover have "fs_malloc (fs_of ex_sys_open) = (7, ex_fs_root\<lparr>mcount := 1, last_ptr := 7\<rparr>)"
    by (simp add: fs_malloc_def ex_sys_open_def ex_fs_root_def ex_fs_def)
  moreover have "find_mapping_by_name 5 0x1234 ?s = Inr None"
  proof -
    have "ustrcmp 5 0x1000 0x1234 ?s = Inr False" unfolding five ustrcmp.simps using mem [of ?s] tc(2) pg by simp
    moreover have "fd_name_mapping ?s = [\<lparr>ffn_tid = 3, ffn_fd = 2, ffn_name = 0x1000, ffn_file = 5, file_state = FILE_OPEN\<rparr>]"
      by (simp add: ex_sys_open_def ex_sys_def)
    ultimately show ?thesis by (simp add: find_mapping_by_name_def)
  qed
  moreover obtain fl f where "filesys_open [97] (ex_fs_root\<lparr>mcount := 1, last_ptr := 7\<rparr>) = Inr (fl, f)" "fl \<noteq> 0" using ex_filesys_open by blast
  ultimately show ?thesis using v
    by (simp add: syscall_open_def with_syscall_lock_def sys_fs_def) (simp add: ex_sys_open_def ex_sys_def)
qed

theorem open_gives_new_descriptor_witness:
  "\<exists>s'. syscall_open 5 0x1234 ex_sys_open = Inr (Done 3, s') \<and> find_file_by_fd 3 s' \<noteq> 0 \<and> find_file_by_fd 2 s' = 5"
proof -
  obtain s' where o: "syscall_open 5 0x1234 ex_sys_open = Inr (Done 3, s')" using ex_sys_open_result by blast
  have "fd_inv ex_sys_open" using ex_sys_fds by (simp add: ex_sys_open_def)
  from open_gives_new_descriptor [OF this o] have "find_file_by_fd 3 s' \<noteq> 0" "find_file_by_fd 2 s' = find_file_by_fd 2 ex_sys_open" by simp_all
  then show ?thesis using o by (auto simp: ex_sys_open_def ex_sys_def find_file_by_fd_def)
qed

end
