(* ===== verification/Process.thy ===== *)
theory Process
  imports Thread
begin

text \<open>
  Threads of the second tree (src/pintos2/src/threads/thread.c, threads/synch.c) and the life of a
  process: \<^verbatim>\<open>process_execute\<close>, \<^verbatim>\<open>start_process\<close>, \<^verbatim>\<open>process_wait\<close> (src/pintos2/src/userprog/process.c),
  \<^verbatim>\<open>syscall_exit\<close> and \<^verbatim>\<open>thread_exit\<close>.

  \<^item> A routine is cut where another thread may run: where it sleeps, and at the points that are
    named by \<open>pc\<close>, where the timer may take the processor away. A thread's \<open>pc\<close> says where it goes on.
    Names end in 2 where the first tree has a routine of the same name.
  \<^item> \<open>proc\<close> holds the thread structures that are alive, but for the member \<^verbatim>\<open>status\<close>, which is in \<open>statuses\<close>. A \<^verbatim>\<open>waiting_sema\<close> is in the page of its thread,
    and it is used after that page was freed; therefore \<open>w_value\<close> and \<open>w_waiters\<close> have its contents for every page. A
    freed page is filled with \<^verbatim>\<open>0xcc\<close>, and then anyone may overwrite it; the queue of waiters is
    \<open>None\<close> while the memory does not hold a list.
  \<^item> A \<^verbatim>\<open>struct child_thread\<close> is a block from \<^verbatim>\<open>malloc\<close>; \<open>cts\<close> holds the live ones. Pages and blocks that
    the allocators return, and whether \<^verbatim>\<open>load\<close> succeeds, are arguments.
  \<^item> What \<^verbatim>\<open>thread_exit\<close> does to frames, files and locks of the process is in Syscall; arguments and
    loading are in Arguments and Loader.
\<close>

datatype pc =
    In_user
  | Exec_created int
  | Exec_sema tptr nat int
  | Wait_sema tptr "nat option" int
  | Starting
  | Exiting int
  | Exit_children
  | Exit_final
  | Idle_loop

record child_thread =
  ct_tid :: int
  ct_t :: tptr
  ct_status :: thread_status
  ct_exit_status :: int

record process =
  p_tid :: int
  p_priority :: int
  child_thread_list :: "nat list"
  parent_thread :: tptr
  p_exit_status :: int
  waiting_child :: int

datatype event = Exited int int | Executed tptr int | Waited tptr int int | Wait_failed tptr int

record procs =
  proc :: "tptr \<rightharpoonup> process"
  pcs :: "tptr \<Rightarrow> pc"
  statuses :: "tptr \<Rightarrow> thread_status"
  w_value :: "tptr \<Rightarrow> u32"
  w_waiters :: "tptr \<Rightarrow> tptr list option"
  cts :: "nat \<rightharpoonup> child_thread"
  ready2 :: "tptr list"
  all2 :: "tptr list"
  running2 :: tptr
  idle2 :: tptr
  initial2 :: tptr
  next_tid2 :: int
  thread_ticks2 :: nat
  intr_on2 :: bool
  saved_level :: "tptr \<Rightarrow> bool"
  events :: "event list"

definition MINUS_ONE :: tptr where "MINUS_ONE = 0xffffffff"

definition upd_proc :: "tptr \<Rightarrow> (process \<Rightarrow> process) \<Rightarrow> procs \<Rightarrow> procs" where
  "upd_proc t f s = s\<lparr>proc := (proc s)(t := map_option f (proc s t))\<rparr>"

definition prc :: "procs \<Rightarrow> tptr \<Rightarrow> process" where
  "prc s t = the (proc s t)"

definition upd_ct :: "nat \<Rightarrow> (child_thread \<Rightarrow> child_thread) \<Rightarrow> procs \<Rightarrow> procs" where
  "upd_ct c f s = s\<lparr>cts := (cts s)(c := map_option f (cts s c))\<rparr>"

definition set_pc :: "pc \<Rightarrow> procs \<Rightarrow> procs" where
  "set_pc k s = s\<lparr>pcs := (pcs s)(running2 s := k)\<rparr>"

definition set_status2 :: "tptr \<Rightarrow> thread_status \<Rightarrow> procs \<Rightarrow> procs" where
  "set_status2 t st s = s\<lparr>statuses := (statuses s)(t := st)\<rparr>"

definition is_thread2 :: "procs \<Rightarrow> tptr \<Rightarrow> bool" where
  "is_thread2 s t \<longleftrightarrow> t \<noteq> 0 \<and> proc s t \<noteq> None"

definition thread_current2 :: "procs \<Rightarrow> tptr res" where
  "thread_current2 s =
     kassert (is_thread2 s (running2 s))
      (kassert (statuses s (running2 s) = THREAD_RUNNING) (Inr (running2 s)))"

subsection \<open>The scheduler\<close>

definition next_thread_to_run2 :: "procs \<Rightarrow> tptr \<times> procs" where
  "next_thread_to_run2 s =
     (case ready2 s of [] \<Rightarrow> (idle2 s, s) | t # ts \<Rightarrow> (t, s\<lparr>ready2 := ts\<rparr>))"

text \<open>What \<^verbatim>\<open>palloc_free_page\<close> leaves of a thread: its page is filled with \<^verbatim>\<open>0xcc\<close>.\<close>

definition palloc_free_thread2 :: "tptr \<Rightarrow> procs \<Rightarrow> procs" where
  "palloc_free_thread2 t s =
     s\<lparr>proc := (proc s)(t := None), w_value := (w_value s)(t := 0xcccccccc), w_waiters := (w_waiters s)(t := None)\<rparr>"

definition thread_schedule_tail2 :: "tptr \<Rightarrow> procs \<Rightarrow> procs res" where
  "thread_schedule_tail2 prev s =
     (let cur = running2 s; s1 = (set_status2 cur THREAD_RUNNING s)\<lparr>thread_ticks2 := 0\<rparr>
      in kassert (\<not> intr_on2 s)
          (if prev \<noteq> NULL \<and> statuses s1 prev = THREAD_DYING \<and> prev \<noteq> initial2 s
           then kassert (prev \<noteq> cur) (Inr (palloc_free_thread2 prev s1)) else Inr s1))"

definition schedule2 :: "procs \<Rightarrow> procs res" where
  "schedule2 s =
     (let cur = running2 s; (nxt, s1) = next_thread_to_run2 s
      in kassert (\<not> intr_on2 s1)
          (kassert (statuses s1 cur \<noteq> THREAD_RUNNING)
            (kassert (is_thread2 s1 nxt)
              (if cur \<noteq> nxt then thread_schedule_tail2 cur (s1\<lparr>running2 := nxt\<rparr>) else thread_schedule_tail2 NULL s1))))"

definition thread_block2 :: "procs \<Rightarrow> procs res" where
  "thread_block2 s =
     kassert (\<not> intr_on2 s)
      (rbind (thread_current2 s) (\<lambda>t. schedule2 (set_status2 t THREAD_BLOCKED s)))"

definition thread_unblock2 :: "tptr \<Rightarrow> procs \<Rightarrow> procs res" where
  "thread_unblock2 t s =
     kassert (is_thread2 s t)
      (kassert (statuses s t = THREAD_BLOCKED)
        (Inr (set_status2 t THREAD_READY (s\<lparr>ready2 := ready2 s @ [t]\<rparr>))))"

text \<open>A thread that yields puts its interrupt level back when it runs again: \<open>thread_yield2\<close> leaves it
  in \<open>saved_level\<close>.\<close>

definition thread_yield2 :: "procs \<Rightarrow> procs res" where
  "thread_yield2 s =
     rbind (thread_current2 s) (\<lambda>cur.
       let s1 = s\<lparr>saved_level := (saved_level s)(cur := intr_on2 s), intr_on2 := False\<rparr>;
           s2 = (if cur \<noteq> idle2 s1 then s1\<lparr>ready2 := ready2 s1 @ [cur]\<rparr> else s1)
       in schedule2 (set_status2 cur THREAD_READY s2))"

text \<open>The timer interrupt: \<^verbatim>\<open>thread_tick\<close> counts, and at the end of a time slice the interrupt handler
  yields.\<close>

definition thread_tick2 :: "procs \<Rightarrow> procs res" where
  "thread_tick2 s =
     rbind (thread_current2 s) (\<lambda>_.
       let s1 = s\<lparr>thread_ticks2 := thread_ticks2 s + 1\<rparr>
       in if thread_ticks2 s1 \<ge> TIME_SLICE then thread_yield2 (s1\<lparr>intr_on2 := False\<rparr>) else Inr s1)"

text \<open>\<^verbatim>\<open>allocate_tid\<close> holds \<^verbatim>\<open>tid_lock\<close> while it counts; no other thread runs in between here.\<close>

definition allocate_tid2 :: "procs \<Rightarrow> int \<times> procs" where
  "allocate_tid2 s = (next_tid2 s, s\<lparr>next_tid2 := next_tid2 s + 1\<rparr>)"

definition init_thread2 :: "tptr \<Rightarrow> bool \<Rightarrow> int \<Rightarrow> procs \<Rightarrow> procs res" where
  "init_thread2 t named pri s =
     kassert (t \<noteq> NULL)
      (kassert (PRI_MIN \<le> pri \<and> pri \<le> PRI_MAX)
       (kassert named
        (Inr (s\<lparr>proc := (proc s)(t \<mapsto> \<lparr>p_tid = 0, p_priority = pri, child_thread_list = [],
                                      parent_thread = MINUS_ONE, p_exit_status = 0, waiting_child = 0\<rparr>),
                statuses := (statuses s)(t := THREAD_BLOCKED), w_value := (w_value s)(t := 0),
                w_waiters := (w_waiters s)(t := Some []), all2 := all2 s @ [t]\<rparr>))))"

definition thread_create2 :: "tptr option \<Rightarrow> bool \<Rightarrow> int \<Rightarrow> pc \<Rightarrow> procs \<Rightarrow> (int \<times> procs) res" where
  "thread_create2 page named pri function s =
     (case page of
        None \<Rightarrow> Inr (TID_ERROR, s)
      | Some t \<Rightarrow> rbind (init_thread2 t named pri s) (\<lambda>s1.
          let (pid, s2) = allocate_tid2 s1;
              s3 = upd_proc t (\<lambda>p. p\<lparr>p_tid := pid\<rparr>) (s2\<lparr>pcs := (pcs s2)(t := function)\<rparr>)
          in rbind (thread_unblock2 t s3) (\<lambda>s4. Inr (pid, s4))))"

definition get_thread_by_tid :: "int \<Rightarrow> procs \<Rightarrow> tptr option" where
  "get_thread_by_tid pid s = List.find (\<lambda>t. p_tid (prc s t) = pid) (all2 s)"

definition find_child_by_tid :: "nat list \<Rightarrow> int \<Rightarrow> procs \<Rightarrow> nat option" where
  "find_child_by_tid child_list pid s = List.find (\<lambda>c. ct_tid (the (cts s c)) = pid) child_list"

subsection \<open>The semaphore of a thread\<close>

definition sema_up2 :: "tptr \<Rightarrow> procs \<Rightarrow> procs res" where
  "sema_up2 t s =
     (case w_waiters s t of
        None \<Rightarrow> Inl Undefined
      | Some ws \<Rightarrow>
          rbind (case ws of [] \<Rightarrow> Inr s
                 | w # rest \<Rightarrow> thread_unblock2 w (s\<lparr>w_waiters := (w_waiters s)(t := Some rest)\<rparr>)) (\<lambda>s1.
            Inr (s1\<lparr>w_value := (w_value s1)(t := w_value s1 t + 1)\<rparr>)))"

text \<open>One evaluation of the loop of \<^verbatim>\<open>sema_down\<close>: sleep, or take the value and go on with \<open>k\<close>.\<close>

definition sema_down_loop2 :: "tptr \<Rightarrow> (procs \<Rightarrow> procs res) \<Rightarrow> procs \<Rightarrow> procs res" where
  "sema_down_loop2 t k s =
     (if w_value s t = 0
      then (case w_waiters s t of
              None \<Rightarrow> Inl Undefined
            | Some ws \<Rightarrow> rbind (thread_current2 s) (\<lambda>cur.
                thread_block2 (s\<lparr>w_waiters := (w_waiters s)(t := Some (ws @ [cur]))\<rparr>)))
      else k (s\<lparr>w_value := (w_value s)(t := w_value s t - 1), intr_on2 := saved_level s (running2 s)\<rparr>))"

definition sema_down2 :: "tptr \<Rightarrow> (procs \<Rightarrow> procs res) \<Rightarrow> procs \<Rightarrow> procs res" where
  "sema_down2 t k s =
     sema_down_loop2 t k (s\<lparr>saved_level := (saved_level s)(running2 s := intr_on2 s), intr_on2 := False\<rparr>)"

subsection \<open>Processes\<close>

definition finish_exec :: "int \<Rightarrow> procs \<Rightarrow> procs res" where
  "finish_exec r s = Inr (set_pc In_user (s\<lparr>events := events s @ [Executed (running2 s) r]\<rparr>))"

text \<open>\<open>fn_copy\<close> says whether the copy of the command line gets a page, \<open>page\<close> is the page of the new thread. The
  name of the thread is the first word of a second copy: there may be no memory for that copy, no
  word in it, or spaces before the word; the pointer to the word is what is freed.\<close>

datatype command_copy = No_memory | Blank | Indented | Word

definition process_execute :: "bool \<Rightarrow> command_copy \<Rightarrow> tptr option \<Rightarrow> procs \<Rightarrow> procs res" where
  "process_execute fn_copy name page s =
     (if \<not> fn_copy then finish_exec TID_ERROR s
      else kdefined (name \<noteq> No_memory)
       (rbind (thread_create2 page (name \<noteq> Blank) PRI_DEFAULT Starting s) (\<lambda>(pid, s1).
          kassert (name \<noteq> Indented)
           (if pid = TID_ERROR then finish_exec pid s1 else Inr (set_pc (Exec_created pid) s1)))))"

definition exec_loaded :: "nat \<Rightarrow> int \<Rightarrow> procs \<Rightarrow> procs res" where
  "exec_loaded c pid s =
     rbind (thread_current2 s) (\<lambda>cur.
       if ct_status (the (cts s c)) = THREAD_DYING
       then finish_exec (ct_exit_status (the (cts s c)))
              ((upd_proc cur (\<lambda>p. p\<lparr>child_thread_list := remove1 c (child_thread_list p)\<rparr>) s)\<lparr>cts := (cts s)(c := None)\<rparr>)
       else finish_exec pid s)"

definition exec_created :: "nat \<Rightarrow> int \<Rightarrow> procs \<Rightarrow> procs res" where
  "exec_created c pid s =
     rbind (thread_current2 s) (\<lambda>cur.
       case get_thread_by_tid pid s of
         None \<Rightarrow> Inl Undefined
       | Some new \<Rightarrow> kdefined (c \<noteq> NULL)
          (let ct = \<lparr>ct_tid = pid, ct_t = new, ct_status = statuses s new, ct_exit_status = 0\<rparr>;
               s1 = upd_proc new (\<lambda>p. p\<lparr>parent_thread := cur\<rparr>) (s\<lparr>cts := (cts s)(c \<mapsto> ct)\<rparr>);
               s2 = upd_proc cur (\<lambda>p. p\<lparr>child_thread_list := child_thread_list p @ [c]\<rparr>) s1
           in sema_down2 new (exec_loaded c pid) (set_pc (Exec_sema new c pid) s2)))"

definition start_process :: "bool \<Rightarrow> procs \<Rightarrow> procs res" where
  "start_process success s =
     rbind (thread_current2 s) (\<lambda>cur.
       if \<not> success then
         (let par = parent_thread (prc s cur)
          in kdefined (is_thread2 s par)
              (case find_child_by_tid (child_thread_list (prc s par)) (p_tid (prc s cur)) s of
                 None \<Rightarrow> Inl Undefined
               | Some c \<Rightarrow> rbind (sema_up2 cur (upd_ct c (\<lambda>ct. ct\<lparr>ct_status := THREAD_DYING, ct_exit_status := - 1\<rparr>) s)) (\<lambda>s1.
                   Inr (set_pc (Exiting (- 1)) s1))))
       else rbind (sema_up2 cur s) (\<lambda>s1. Inr (set_pc In_user s1)))"

definition wait_done :: "nat option \<Rightarrow> int \<Rightarrow> procs \<Rightarrow> procs res" where
  "wait_done w pid s =
     rbind (thread_current2 s) (\<lambda>cur.
       case w of
         None \<Rightarrow> Inl Undefined
       | Some c \<Rightarrow>
           (let s1 = (upd_proc cur (\<lambda>p. p\<lparr>waiting_child := 0, child_thread_list := remove1 c (child_thread_list p)\<rparr>) s)\<lparr>cts := (cts s)(c := None)\<rparr>
            in Inr (set_pc In_user (s1\<lparr>events := events s1 @ [Waited cur pid (ct_exit_status (the (cts s c)))]\<rparr>))))"

definition process_wait :: "int \<Rightarrow> procs \<Rightarrow> procs res" where
  "process_wait child_tid s =
     rbind (thread_current2 s) (\<lambda>cur.
       let failed = Inr (s\<lparr>events := events s @ [Wait_failed cur child_tid]\<rparr>);
           w = find_child_by_tid (child_thread_list (prc s cur)) child_tid s;
           rest = (case get_thread_by_tid child_tid s of
                     None \<Rightarrow> failed
                   | Some child \<Rightarrow>
                       if parent_thread (prc s child) \<noteq> cur then failed
                       else sema_down2 child (wait_done w child_tid)
                              (set_pc (Wait_sema child w child_tid) (upd_proc cur (\<lambda>p. p\<lparr>waiting_child := child_tid\<rparr>) s)))
       in if waiting_child (prc s cur) = child_tid then failed
          else case w of
                 None \<Rightarrow> rest
               | Some c \<Rightarrow>
                   if ct_status (the (cts s c)) = THREAD_DYING
                   then Inr ((upd_proc cur (\<lambda>p. p\<lparr>child_thread_list := remove1 c (child_thread_list p)\<rparr>) s)
                               \<lparr>cts := (cts s)(c := None),
                                events := events s @ [Waited cur child_tid (ct_exit_status (the (cts s c)))]\<rparr>)
                   else rest)"

text \<open>\<^verbatim>\<open>syscall_exit\<close> prints the status and calls \<^verbatim>\<open>thread_exit\<close>, which tells the parent, then lets go of the
  children, then leaves the processor.\<close>

definition syscall_exit2 :: "int \<Rightarrow> procs \<Rightarrow> procs res" where
  "syscall_exit2 st s =
     rbind (thread_current2 s) (\<lambda>cur.
       let s1 = (upd_proc cur (\<lambda>p. p\<lparr>p_exit_status := st\<rparr>) s)\<lparr>events := events s @ [Exited (p_tid (prc s cur)) st]\<rparr>;
           par = parent_thread (prc s cur)
       in if par \<noteq> NULL
          then kdefined (is_thread2 s1 par)
                (case find_child_by_tid (child_thread_list (prc s1 par)) (p_tid (prc s1 cur)) s1 of
                   None \<Rightarrow> Inl Undefined
                 | Some c \<Rightarrow> Inr (set_pc Exit_children (upd_ct c (\<lambda>ct. ct\<lparr>ct_status := THREAD_DYING, ct_exit_status := p_exit_status (prc s1 cur)\<rparr>) s1)))
          else Inr (set_pc Exit_children s1))"

text \<open>The loop takes the first child until there is none; the length of the list is enough iterations.\<close>

fun exit_children_loop :: "nat \<Rightarrow> tptr \<Rightarrow> procs \<Rightarrow> procs res" where
  "exit_children_loop n cur s =
     (case child_thread_list (prc s cur) of
        [] \<Rightarrow> Inr s
      | c # cs \<Rightarrow>
          (case n of
             0 \<Rightarrow> Inl Diverged
           | Suc m \<Rightarrow>
               (let child = the (cts s c); live = (ct_status child \<noteq> THREAD_DYING);
                    s1 = (if live then upd_proc (ct_t child) (\<lambda>p. p\<lparr>parent_thread := NULL\<rparr>) s else s)
                in kdefined (\<not> live \<or> is_thread2 s (ct_t child))
                    (exit_children_loop m cur
                      ((upd_proc cur (\<lambda>p. p\<lparr>child_thread_list := cs\<rparr>) s1)\<lparr>cts := (cts s1)(c := None)\<rparr>)))))"

declare exit_children_loop.simps [simp del]

definition exit_children :: "procs \<Rightarrow> procs res" where
  "exit_children s =
     rbind (thread_current2 s) (\<lambda>cur.
       rbind (exit_children_loop (length (child_thread_list (prc s cur))) cur s) (\<lambda>s1. Inr (set_pc Exit_final s1)))"

definition exit_final :: "procs \<Rightarrow> procs res" where
  "exit_final s =
     rbind (thread_current2 s) (\<lambda>cur.
       rbind (sema_up2 cur (s\<lparr>intr_on2 := False, all2 := remove1 cur (all2 s)\<rparr>)) (\<lambda>s1.
         schedule2 (set_status2 cur THREAD_DYING s1)))"

definition idle_loop :: "procs \<Rightarrow> procs res" where
  "idle_loop s = thread_block2 (s\<lparr>intr_on2 := False\<rparr>)"

subsection \<open>Runs\<close>

text \<open>What can happen next: the running thread goes on, with what the allocators and \<^verbatim>\<open>load\<close> return; the
  timer ticks; someone writes to a page that is not a thread's.\<close>

datatype act =
    Exec bool command_copy "tptr option"
  | Wait int
  | Exit int
  | Register nat
  | Load bool
  | Go_on
  | Tick
  | Overwrite tptr u32 "tptr list option"

definition go_on :: "procs \<Rightarrow> procs res" where
  "go_on s =
     (case pcs s (running2 s) of
        Exec_sema t c pid \<Rightarrow> sema_down_loop2 t (exec_loaded c pid) s
      | Wait_sema t w pid \<Rightarrow> sema_down_loop2 t (wait_done w pid) s
      | Exiting st \<Rightarrow> syscall_exit2 st (s\<lparr>intr_on2 := True\<rparr>)
      | Exit_children \<Rightarrow> exit_children (s\<lparr>intr_on2 := True\<rparr>)
      | Exit_final \<Rightarrow> exit_final (s\<lparr>intr_on2 := True\<rparr>)
      | Idle_loop \<Rightarrow> idle_loop s
      | _ \<Rightarrow> Inl Undefined)"

definition enabled :: "act \<Rightarrow> procs \<Rightarrow> bool" where
  "enabled a s \<longleftrightarrow>
     (let k = pcs s (running2 s)
      in case a of
           Exec _ _ page \<Rightarrow> k = In_user \<and> (case page of None \<Rightarrow> True | Some t \<Rightarrow> t \<noteq> NULL \<and> t \<noteq> MINUS_ONE \<and> proc s t = None)
         | Wait _ \<Rightarrow> k = In_user
         | Exit _ \<Rightarrow> k = In_user
         | Register c \<Rightarrow> (case k of Exec_created _ \<Rightarrow> cts s c = None | _ \<Rightarrow> False)
         | Load _ \<Rightarrow> k = Starting
         | Go_on \<Rightarrow> (case k of In_user \<Rightarrow> False | Starting \<Rightarrow> False | Exec_created _ \<Rightarrow> False | _ \<Rightarrow> True)
         | Tick \<Rightarrow> (case k of Exec_sema _ _ _ \<Rightarrow> False | Wait_sema _ _ _ \<Rightarrow> False | _ \<Rightarrow> True)
         | Overwrite t _ _ \<Rightarrow> proc s t = None)"

definition perform :: "act \<Rightarrow> procs \<Rightarrow> procs res" where
  "perform a s =
     (case a of
        Exec fn_copy name page \<Rightarrow> process_execute fn_copy name page (s\<lparr>intr_on2 := True\<rparr>)
      | Wait pid \<Rightarrow> process_wait pid (s\<lparr>intr_on2 := True\<rparr>)
      | Exit st \<Rightarrow> syscall_exit2 st (s\<lparr>intr_on2 := True\<rparr>)
      | Register c \<Rightarrow> (case pcs s (running2 s) of Exec_created pid \<Rightarrow> exec_created c pid (s\<lparr>intr_on2 := True\<rparr>) | _ \<Rightarrow> Inl Undefined)
      | Load success \<Rightarrow> start_process success (s\<lparr>intr_on2 := True\<rparr>)
      | Go_on \<Rightarrow> go_on s
      | Tick \<Rightarrow> thread_tick2 s
      | Overwrite t v ws \<Rightarrow> Inr (s\<lparr>w_value := (w_value s)(t := v), w_waiters := (w_waiters s)(t := ws)\<rparr>))"

inductive pstep :: "procs \<Rightarrow> act \<Rightarrow> procs \<Rightarrow> bool" where
  "enabled a s \<Longrightarrow> perform a s = Inr s' \<Longrightarrow> pstep s a s'"

fun prun :: "act list \<Rightarrow> procs \<Rightarrow> procs option" where
  "prun [] s = Some s"
| "prun (a # as) s = (if enabled a s then case perform a s of Inl _ \<Rightarrow> None | Inr s' \<Rightarrow> prun as s' else None)"

text \<open>The kernel after \<^verbatim>\<open>thread_init\<close> and \<^verbatim>\<open>thread_start\<close>: the initial thread runs, the idle thread waits.\<close>

definition pboot :: "tptr \<Rightarrow> tptr \<Rightarrow> procs" where
  "pboot m d =
     (let p = \<lparr>p_tid = 1, p_priority = PRI_DEFAULT, child_thread_list = [], parent_thread = MINUS_ONE, p_exit_status = 0, waiting_child = 0\<rparr>
      in \<lparr>proc = [m \<mapsto> p, d \<mapsto> p\<lparr>p_tid := 2, p_priority := PRI_MIN\<rparr>],
          pcs = (\<lambda>_. In_user)(d := Idle_loop), statuses = (\<lambda>_. THREAD_BLOCKED)(m := THREAD_RUNNING),
          w_value = (\<lambda>_. 0), w_waiters = (\<lambda>_. None)(m := Some [], d := Some []), cts = Map.empty,
          ready2 = [], all2 = [m, d], running2 = m, idle2 = d, initial2 = m, next_tid2 = 3, thread_ticks2 = 0,
          intr_on2 = True, saved_level = (\<lambda>_. False), events = []\<rparr>)"

inductive preach :: "procs \<Rightarrow> bool" where
  boot: "m \<noteq> d \<Longrightarrow> {m, d} \<inter> {NULL, MINUS_ONE} = {} \<Longrightarrow> preach (pboot m d)"
| step: "preach s \<Longrightarrow> pstep s a s' \<Longrightarrow> preach s'"

end
