(* ===== verification/Lifecycle.thy ===== *)
theory Lifecycle
  imports Process
begin

text \<open>
  An invariant of the process machine of Process: thread identifiers and child records are unique, a
  child record that says that the child is dead has the status it exited with (unless the parent is
  still in \<^verbatim>\<open>process_execute\<close> for that child), and the semaphore of a loaded child is 0 until it exits.
  Every step keeps it, whatever the allocators return and however the threads are interleaved.
\<close>

subsection \<open>The invariant\<close>

definition alive :: "procs \<Rightarrow> tptr \<Rightarrow> bool" where
  "alive s t \<longleftrightarrow> proc s t \<noteq> None"

definition kid :: "procs \<Rightarrow> tptr \<Rightarrow> nat \<Rightarrow> bool" where
  "kid s p c \<longleftrightarrow> alive s p \<and> c \<in> set (child_thread_list (prc s p))"

definition the_ct :: "procs \<Rightarrow> nat \<Rightarrow> child_thread" where
  "the_ct s c = the (cts s c)"

definition marked :: "pc \<Rightarrow> bool" where
  "marked k \<longleftrightarrow> k = Exit_children \<or> k = Exit_final"

definition inv_all :: "procs \<Rightarrow> bool" where
  "inv_all s \<longleftrightarrow> \<not> alive s NULL \<and> \<not> alive s MINUS_ONE \<and> distinct (all2 s) \<and> (\<forall>t \<in> set (all2 s). alive s t)"

definition inv_tid :: "procs \<Rightarrow> bool" where
  "inv_tid s \<longleftrightarrow> 0 < next_tid2 s \<and> (\<forall>t. alive s t \<longrightarrow> p_tid (prc s t) < next_tid2 s) \<and>
     (\<forall>t u. alive s t \<longrightarrow> alive s u \<longrightarrow> t \<noteq> u \<longrightarrow> p_tid (prc s t) \<noteq> p_tid (prc s u))"

definition inv_kid :: "procs \<Rightarrow> bool" where
  "inv_kid s \<longleftrightarrow> (\<forall>p. alive s p \<longrightarrow> distinct (child_thread_list (prc s p))) \<and>
     (\<forall>p c. kid s p c \<longrightarrow> cts s c \<noteq> None \<and> ct_tid (the_ct s c) < next_tid2 s) \<and>
     (\<forall>p c q e. kid s p c \<longrightarrow> kid s q e \<longrightarrow> p \<noteq> q \<or> c \<noteq> e \<longrightarrow> ct_tid (the_ct s c) \<noteq> ct_tid (the_ct s e))"

definition inv_dying :: "procs \<Rightarrow> bool" where
  "inv_dying s \<longleftrightarrow> (\<forall>p c. kid s p c \<longrightarrow> ct_status (the_ct s c) = THREAD_DYING \<longrightarrow> (\<forall>t i. pcs s p \<noteq> Exec_sema t c i) \<longrightarrow>
     Exited (ct_tid (the_ct s c)) (ct_exit_status (the_ct s c)) \<in> set (events s))"

definition inv_created :: "procs \<Rightarrow> bool" where
  "inv_created s \<longleftrightarrow> (\<forall>q i. alive s q \<longrightarrow> pcs s q = Exec_created i \<longrightarrow> i < next_tid2 s \<and>
     (\<forall>p c. kid s p c \<longrightarrow> ct_tid (the_ct s c) \<noteq> i) \<and>
     (\<forall>t. alive s t \<longrightarrow> p_tid (prc s t) = i \<longrightarrow> parent_thread (prc s t) = MINUS_ONE \<and> \<not> marked (pcs s t)) \<and>
     (\<forall>q'. q' \<noteq> q \<longrightarrow> alive s q' \<longrightarrow> pcs s q' \<noteq> Exec_created i))"

definition inv_starting :: "procs \<Rightarrow> bool" where
  "inv_starting s \<longleftrightarrow> (\<forall>t. alive s t \<longrightarrow> pcs s t = Starting \<longrightarrow> w_value s t = 0 \<and>
     (parent_thread (prc s t) = MINUS_ONE \<and> (\<exists>q. alive s q \<and> pcs s q = Exec_created (p_tid (prc s t))) \<or>
      (\<exists>c. alive s (parent_thread (prc s t)) \<and> pcs s (parent_thread (prc s t)) = Exec_sema t c (p_tid (prc s t)))))"

definition inv_loaded :: "procs \<Rightarrow> bool" where
  "inv_loaded s \<longleftrightarrow> (\<forall>t. alive s t \<longrightarrow> pcs s t \<noteq> Starting \<longrightarrow> \<not> marked (pcs s t) \<longrightarrow> w_value s t = 0 \<or> w_value s t = 1 \<and>
     (\<exists>q. alive s q \<and> (pcs s q = Exec_created (p_tid (prc s t)) \<or> (\<exists>c. pcs s q = Exec_sema t c (p_tid (prc s t))))))"

definition inv_exec :: "procs \<Rightarrow> bool" where
  "inv_exec s \<longleftrightarrow> (\<forall>p t c i. alive s p \<longrightarrow> pcs s p = Exec_sema t c i \<longrightarrow> kid s p c \<and> ct_tid (the_ct s c) = i)"

definition inv_wait :: "procs \<Rightarrow> bool" where
  "inv_wait s \<longleftrightarrow> (\<forall>p t c i. alive s p \<longrightarrow> pcs s p = Wait_sema t (Some c) i \<longrightarrow> kid s p c \<and> ct_tid (the_ct s c) = i \<and>
     (ct_status (the_ct s c) = THREAD_DYING \<or>
      alive s t \<and> p_tid (prc s t) = i \<and> parent_thread (prc s t) = p \<and> \<not> marked (pcs s t) \<and> pcs s t \<noteq> Starting))"

definition inv_marked :: "procs \<Rightarrow> bool" where
  "inv_marked s \<longleftrightarrow> (\<forall>t p c. alive s t \<longrightarrow> marked (pcs s t) \<longrightarrow> kid s p c \<longrightarrow> ct_tid (the_ct s c) = p_tid (prc s t) \<longrightarrow>
     ct_status (the_ct s c) = THREAD_DYING)"

definition inv_ct :: "procs \<Rightarrow> bool" where
  "inv_ct s \<longleftrightarrow> (\<forall>p c. kid s p c \<longrightarrow> ct_status (the_ct s c) \<noteq> THREAD_DYING \<longrightarrow>
     alive s (ct_t (the_ct s c)) \<and> p_tid (prc s (ct_t (the_ct s c))) = ct_tid (the_ct s c) \<and>
     parent_thread (prc s (ct_t (the_ct s c))) = p)"

definition waited :: "event list \<Rightarrow> int list" where
  "waited es = concat (map (\<lambda>e. case e of Waited p i r \<Rightarrow> [i] | _ \<Rightarrow> []) es)"

definition inv_events :: "procs \<Rightarrow> bool" where
  "inv_events s \<longleftrightarrow> (\<forall>p i r. Waited p i r \<in> set (events s) \<longrightarrow> Exited i r \<in> set (events s)) \<and> distinct (waited (events s)) \<and>
     (\<forall>i \<in> set (waited (events s)). i < next_tid2 s \<and> (\<forall>p c. kid s p c \<longrightarrow> ct_tid (the_ct s c) \<noteq> i) \<and>
        (\<forall>q. alive s q \<longrightarrow> pcs s q \<noteq> Exec_created i))"

definition life_inv :: "procs \<Rightarrow> bool" where
  "life_inv s \<longleftrightarrow> inv_all s \<and> inv_tid s \<and> inv_kid s \<and> inv_dying s \<and> inv_created s \<and> inv_starting s \<and> inv_loaded s \<and>
     inv_exec s \<and> inv_wait s \<and> inv_marked s \<and> inv_ct s \<and> inv_events s"

lemmas inv_parts = inv_all_def inv_tid_def inv_kid_def inv_dying_def inv_created_def inv_starting_def inv_loaded_def
  inv_exec_def inv_wait_def inv_marked_def inv_ct_def inv_events_def

definition keeps_life :: "procs \<Rightarrow> procs \<Rightarrow> bool" where
  "keeps_life s s' \<longleftrightarrow> proc s' = proc s \<and> pcs s' = pcs s \<and> w_value s' = w_value s \<and> cts s' = cts s \<and>
     next_tid2 s' = next_tid2 s \<and> all2 s' = all2 s \<and> events s' = events s"

lemma keeps_life_refl [simp]: "keeps_life s s"
  by (simp add: keeps_life_def)

lemma keeps_life_trans: "keeps_life s t \<Longrightarrow> keeps_life t u \<Longrightarrow> keeps_life s u"
  by (simp add: keeps_life_def)

lemma keeps_life_alive: "keeps_life s s' \<Longrightarrow> alive s' t = alive s t" "keeps_life s s' \<Longrightarrow> prc s' t = prc s t"
  by (simp_all add: keeps_life_def alive_def prc_def)

lemma keeps_life_kid: "keeps_life s s' \<Longrightarrow> kid s' p c = kid s p c" "keeps_life s s' \<Longrightarrow> the_ct s' c = the_ct s c"
  by (simp_all add: keeps_life_def kid_def the_ct_def alive_def prc_def)

lemma keeps_life_inv:
  assumes k: "keeps_life s s'" and i: "life_inv s"
  shows "life_inv s'"
proof -
  have f: "proc s' = proc s" "pcs s' = pcs s" "w_value s' = w_value s" "cts s' = cts s" "next_tid2 s' = next_tid2 s" "all2 s' = all2 s" "events s' = events s"
    using k by (auto simp: keeps_life_def)
  show ?thesis using i unfolding life_inv_def inv_parts keeps_life_alive [OF k] keeps_life_kid [OF k] f .
qed

lemma current_runs: "thread_current2 s = Inr t \<longleftrightarrow> t = running2 s \<and> alive s t \<and> t \<noteq> NULL \<and> statuses s t = THREAD_RUNNING"
  by (auto simp: thread_current2_def is_thread2_def alive_def kassert_def split: if_splits)

lemma schedule2_keeps:
  assumes "schedule2 s = Inr s'" "statuses s (running2 s) \<noteq> THREAD_DYING"
  shows "keeps_life s s'"
  using assms by (auto simp: schedule2_def next_thread_to_run2_def thread_schedule_tail2_def kassert_def Let_def set_status2_def keeps_life_def
      split: list.splits if_splits)

lemma schedule2_frees:
  assumes "schedule2 s = Inr s'"
  shows "keeps_life s s' \<or> keeps_life (palloc_free_thread2 (running2 s) s) s'"
  using assms by (auto simp: schedule2_def next_thread_to_run2_def thread_schedule_tail2_def kassert_def Let_def set_status2_def keeps_life_def palloc_free_thread2_def
      split: list.splits if_splits)

lemma thread_block2_keeps: "thread_block2 s = Inr s' \<Longrightarrow> keeps_life s s'"
  by (auto simp: thread_block2_def kassert_def rbind_eq_Inr current_runs split: if_splits dest!: schedule2_keeps)
     (auto simp: set_status2_def keeps_life_def)

lemma thread_unblock2_keeps: "thread_unblock2 t s = Inr s' \<Longrightarrow> keeps_life s s'"
  by (auto simp: thread_unblock2_def kassert_def set_status2_def keeps_life_def split: if_splits)

lemma thread_yield2_keeps: "thread_yield2 s = Inr s' \<Longrightarrow> keeps_life s s'"
  by (auto simp: thread_yield2_def Let_def rbind_eq_Inr current_runs set_status2_def split: if_splits dest!: schedule2_keeps)
     (auto simp: keeps_life_def)

lemma thread_tick2_keeps: "thread_tick2 s = Inr s' \<Longrightarrow> keeps_life s s'"
  by (auto simp: thread_tick2_def Let_def rbind_eq_Inr split: if_splits dest!: thread_yield2_keeps)
     (auto simp: keeps_life_def)

lemma sema_up2_effect:
  assumes "sema_up2 t s = Inr s'"
  shows "keeps_life (s\<lparr>w_value := (w_value s)(t := w_value s t + 1)\<rparr>) s' \<and> running2 s' = running2 s"
  using assms
  by (auto simp: sema_up2_def rbind_eq_Inr thread_unblock2_def kassert_def set_status2_def keeps_life_def split: option.splits list.splits if_splits)

lemma sema_down_loop2_effect:
  assumes "sema_down_loop2 t k s = Inr s'"
  shows "keeps_life s s' \<or> w_value s t \<noteq> 0 \<and> k (s\<lparr>w_value := (w_value s)(t := w_value s t - 1), intr_on2 := saved_level s (running2 s)\<rparr>) = Inr s'"
  using assms by (auto simp: sema_down_loop2_def rbind_eq_Inr split: option.splits if_splits dest!: thread_block2_keeps)
     (auto simp: keeps_life_def)

subsection \<open>Rules for the parts of the invariant\<close>

lemma waited_append [simp]: "waited (xs @ ys) = waited xs @ waited ys"
  by (simp add: waited_def)

lemma waited_events [simp]: "waited [Executed p r] = []" "waited [Exited i r] = []" "waited [Wait_failed p i] = []" "waited [Waited p i r] = [i]" "waited [] = []"
  by (simp_all add: waited_def)

lemma in_waited: "i \<in> set (waited es) \<longleftrightarrow> (\<exists>p r. Waited p i r \<in> set es)"
  by (force simp: waited_def split: event.splits)

lemmas life_view = alive_def kid_def the_ct_def prc_def

lemma inv_createdD:
  assumes "inv_created s" "alive s q" "pcs s q = Exec_created i"
  shows "i < next_tid2 s" "kid s p c \<Longrightarrow> ct_tid (the_ct s c) \<noteq> i"
    "alive s t \<Longrightarrow> p_tid (prc s t) = i \<Longrightarrow> parent_thread (prc s t) = MINUS_ONE \<and> \<not> marked (pcs s t)"
    "q' \<noteq> q \<Longrightarrow> alive s q' \<Longrightarrow> pcs s q' \<noteq> Exec_created i"
  using assms unfolding inv_created_def by blast+

lemma inv_createdI:
  assumes "\<And>q i. alive s q \<Longrightarrow> pcs s q = Exec_created i \<Longrightarrow> i < next_tid2 s"
    "\<And>q i p c. alive s q \<Longrightarrow> pcs s q = Exec_created i \<Longrightarrow> kid s p c \<Longrightarrow> ct_tid (the_ct s c) \<noteq> i"
    "\<And>q i t. alive s q \<Longrightarrow> pcs s q = Exec_created i \<Longrightarrow> alive s t \<Longrightarrow> p_tid (prc s t) = i \<Longrightarrow> parent_thread (prc s t) = MINUS_ONE \<and> \<not> marked (pcs s t)"
    "\<And>q i q'. alive s q \<Longrightarrow> pcs s q = Exec_created i \<Longrightarrow> q' \<noteq> q \<Longrightarrow> alive s q' \<Longrightarrow> pcs s q' \<noteq> Exec_created i"
  shows "inv_created s"
  using assms unfolding inv_created_def by blast

lemma inv_loadedD:
  assumes "inv_loaded s" "alive s t" "pcs s t \<noteq> Starting" "\<not> marked (pcs s t)" "w_value s t \<noteq> 0"
  shows "w_value s t = 1" "\<exists>q. alive s q \<and> (pcs s q = Exec_created (p_tid (prc s t)) \<or> (\<exists>c. pcs s q = Exec_sema t c (p_tid (prc s t))))"
  using assms unfolding inv_loaded_def by blast+

lemma inv_loadedI:
  assumes "\<And>t. alive s t \<Longrightarrow> pcs s t \<noteq> Starting \<Longrightarrow> \<not> marked (pcs s t) \<Longrightarrow> w_value s t \<noteq> 0 \<Longrightarrow>
      w_value s t = 1 \<and> (\<exists>q. alive s q \<and> (pcs s q = Exec_created (p_tid (prc s t)) \<or> (\<exists>c. pcs s q = Exec_sema t c (p_tid (prc s t)))))"
  shows "inv_loaded s"
  using assms unfolding inv_loaded_def by blast

lemma inv_startingD:
  assumes "inv_starting s" "alive s t" "pcs s t = Starting"
  shows "w_value s t = 0"
    "parent_thread (prc s t) = MINUS_ONE \<and> (\<exists>q. alive s q \<and> pcs s q = Exec_created (p_tid (prc s t))) \<or>
     (\<exists>c. alive s (parent_thread (prc s t)) \<and> pcs s (parent_thread (prc s t)) = Exec_sema t c (p_tid (prc s t)))"
  using assms unfolding inv_starting_def by blast+


lemma inv_execD: "inv_exec s \<Longrightarrow> alive s p \<Longrightarrow> pcs s p = Exec_sema t c i \<Longrightarrow> kid s p c \<and> ct_tid (the_ct s c) = i"
  unfolding inv_exec_def by blast

lemma inv_waitD:
  assumes "inv_wait s" "alive s p" "pcs s p = Wait_sema t (Some c) i"
  shows "kid s p c" "ct_tid (the_ct s c) = i" "ct_status (the_ct s c) = THREAD_DYING \<or>
      alive s t \<and> p_tid (prc s t) = i \<and> parent_thread (prc s t) = p \<and> \<not> marked (pcs s t) \<and> pcs s t \<noteq> Starting"
  using assms unfolding inv_wait_def by blast+

lemma inv_waitI:
  assumes "\<And>p t c i. alive s p \<Longrightarrow> pcs s p = Wait_sema t (Some c) i \<Longrightarrow> kid s p c \<and> ct_tid (the_ct s c) = i \<and> (ct_status (the_ct s c) = THREAD_DYING \<or>
      alive s t \<and> p_tid (prc s t) = i \<and> parent_thread (prc s t) = p \<and> \<not> marked (pcs s t) \<and> pcs s t \<noteq> Starting)"
  shows "inv_wait s"
  using assms unfolding inv_wait_def by blast

lemma inv_starting_step:
  assumes i: "inv_starting s"
    and a: "\<And>u. alive s' u \<Longrightarrow> pcs s' u = Starting \<Longrightarrow> alive s u \<and> pcs s u = Starting \<and> w_value s' u = w_value s u \<and>
      parent_thread (prc s' u) = parent_thread (prc s u) \<and> p_tid (prc s' u) = p_tid (prc s u)"
    and b: "\<And>q j. alive s q \<Longrightarrow> pcs s q = Exec_created j \<Longrightarrow> alive s' q \<and> pcs s' q = Exec_created j"
    and c: "\<And>p u c j. alive s p \<Longrightarrow> pcs s p = Exec_sema u c j \<Longrightarrow> w_value s u = 0 \<Longrightarrow> alive s' p \<and> pcs s' p = Exec_sema u c j"
  shows "inv_starting s'"
proof (unfold inv_starting_def, intro allI impI)
  fix u assume "alive s' u" "pcs s' u = Starting"
  note u = a [OF this]
  show "w_value s' u = 0 \<and>
     (parent_thread (prc s' u) = MINUS_ONE \<and> (\<exists>q. alive s' q \<and> pcs s' q = Exec_created (p_tid (prc s' u))) \<or>
      (\<exists>c. alive s' (parent_thread (prc s' u)) \<and> pcs s' (parent_thread (prc s' u)) = Exec_sema u c (p_tid (prc s' u))))"
    using u inv_startingD [OF i, of u] b c by metis
qed

lemma inv_loaded_step:
  assumes i: "inv_loaded s"
    and a: "\<And>u. alive s' u \<Longrightarrow> pcs s' u \<noteq> Starting \<Longrightarrow> \<not> marked (pcs s' u) \<Longrightarrow> w_value s' u \<noteq> 0 \<Longrightarrow>
      alive s u \<and> pcs s u \<noteq> Starting \<and> \<not> marked (pcs s u) \<and> w_value s' u = w_value s u \<and> p_tid (prc s' u) = p_tid (prc s u)"
    and b: "\<And>q j. alive s q \<Longrightarrow> pcs s q = Exec_created j \<Longrightarrow> alive s' q \<and> pcs s' q = Exec_created j"
    and c: "\<And>p u c j. alive s p \<Longrightarrow> pcs s p = Exec_sema u c j \<Longrightarrow> w_value s' u \<noteq> 0 \<Longrightarrow> alive s' u \<Longrightarrow> pcs s' u \<noteq> Starting \<Longrightarrow> \<not> marked (pcs s' u) \<Longrightarrow>
      alive s' p \<and> pcs s' p = Exec_sema u c j"
  shows "inv_loaded s'"
proof (rule inv_loadedI)
  fix u assume h: "alive s' u" "pcs s' u \<noteq> Starting" "\<not> marked (pcs s' u)" "w_value s' u \<noteq> 0"
  note u = a [OF this]
  show "w_value s' u = 1 \<and> (\<exists>q. alive s' q \<and> (pcs s' q = Exec_created (p_tid (prc s' u)) \<or> (\<exists>c. pcs s' q = Exec_sema u c (p_tid (prc s' u)))))"
    using u h inv_loadedD [OF i, of u] b c by metis
qed

lemma inv_wait_step:
  assumes i: "inv_wait s"
    and a: "\<And>q u e j. alive s' q \<Longrightarrow> pcs s' q = Wait_sema u (Some e) j \<Longrightarrow> alive s q \<and> pcs s q = Wait_sema u (Some e) j \<and>
      (kid s q e \<longrightarrow> kid s' q e \<and> ct_tid (the_ct s' e) = ct_tid (the_ct s e) \<and> (ct_status (the_ct s e) = THREAD_DYING \<longrightarrow> ct_status (the_ct s' e) = THREAD_DYING) \<and>
        (alive s u \<and> p_tid (prc s u) = ct_tid (the_ct s e) \<and> parent_thread (prc s u) = q \<and> \<not> marked (pcs s u) \<and> pcs s u \<noteq> Starting \<longrightarrow>
           ct_status (the_ct s' e) = THREAD_DYING \<or> alive s' u \<and> p_tid (prc s' u) = p_tid (prc s u) \<and> parent_thread (prc s' u) = q \<and> \<not> marked (pcs s' u) \<and> pcs s' u \<noteq> Starting))"
  shows "inv_wait s'"
proof (rule inv_waitI)
  fix q u e j assume h: "alive s' q" "pcs s' q = Wait_sema u (Some e) j"
  note w = a [OF this]
  then have d: "kid s q e" "ct_tid (the_ct s e) = j" "ct_status (the_ct s e) = THREAD_DYING \<or>
      alive s u \<and> p_tid (prc s u) = j \<and> parent_thread (prc s u) = q \<and> \<not> marked (pcs s u) \<and> pcs s u \<noteq> Starting"
    using inv_waitD [OF i, of q u e j] by auto
  then show "kid s' q e \<and> ct_tid (the_ct s' e) = j \<and> (ct_status (the_ct s' e) = THREAD_DYING \<or>
      alive s' u \<and> p_tid (prc s' u) = j \<and> parent_thread (prc s' u) = q \<and> \<not> marked (pcs s' u) \<and> pcs s' u \<noteq> Starting)"
    using w by auto
qed

definition shrinks :: "procs \<Rightarrow> procs \<Rightarrow> bool" where
  "shrinks s s' \<longleftrightarrow> next_tid2 s' = next_tid2 s \<and> (\<forall>u. alive s' u \<longrightarrow> alive s u \<and> p_tid (prc s' u) = p_tid (prc s u)) \<and>
     (\<forall>u. alive s' u \<longrightarrow> distinct (child_thread_list (prc s u)) \<longrightarrow> distinct (child_thread_list (prc s' u))) \<and>
     (\<forall>p c. kid s' p c \<longrightarrow> kid s p c \<and> cts s' c \<noteq> None \<and> ct_tid (the_ct s' c) = ct_tid (the_ct s c)) \<and>
     (\<forall>q i. alive s' q \<longrightarrow> pcs s' q = Exec_created i \<longrightarrow> pcs s q = Exec_created i) \<and>
     (\<forall>u q. alive s' u \<longrightarrow> alive s q \<longrightarrow> pcs s q = Exec_created (p_tid (prc s u)) \<longrightarrow> parent_thread (prc s u) = MINUS_ONE \<longrightarrow>
        \<not> marked (pcs s u) \<longrightarrow> parent_thread (prc s' u) = MINUS_ONE \<and> \<not> marked (pcs s' u))"

lemma shrinks_inv:
  assumes i: "life_inv s" and h: "shrinks s s'"
  shows "inv_tid s'" "inv_kid s'" "inv_created s'"
proof -
  have p: "inv_tid s" "inv_kid s" "inv_created s" using i by (auto simp: life_inv_def)
  have a: "next_tid2 s' = next_tid2 s" "\<And>u. alive s' u \<Longrightarrow> alive s u \<and> p_tid (prc s' u) = p_tid (prc s u)"
      "\<And>u. alive s' u \<Longrightarrow> distinct (child_thread_list (prc s u)) \<Longrightarrow> distinct (child_thread_list (prc s' u))"
      "\<And>p c. kid s' p c \<Longrightarrow> kid s p c \<and> cts s' c \<noteq> None \<and> ct_tid (the_ct s' c) = ct_tid (the_ct s c)"
      "\<And>q i. alive s' q \<Longrightarrow> pcs s' q = Exec_created i \<Longrightarrow> pcs s q = Exec_created i"
      "\<And>u q. alive s' u \<Longrightarrow> alive s q \<Longrightarrow> pcs s q = Exec_created (p_tid (prc s u)) \<Longrightarrow> parent_thread (prc s u) = MINUS_ONE \<Longrightarrow>
        \<not> marked (pcs s u) \<Longrightarrow> parent_thread (prc s' u) = MINUS_ONE \<and> \<not> marked (pcs s' u)"
    using h unfolding shrinks_def by blast+
  show "inv_tid s'" using p(1) a(1,2) unfolding inv_tid_def by metis
  show "inv_kid s'" using p(2) a unfolding inv_kid_def by metis
  show "inv_created s'"
  proof (rule inv_createdI)
    fix q j assume "alive s' q" "pcs s' q = Exec_created j"
    then have q: "alive s q" "pcs s q = Exec_created j" using a(2,5) by blast+
    note d = inv_createdD [OF p(3) q]
    show "j < next_tid2 s'" using d(1) a(1) by simp
    show "ct_tid (the_ct s' c') \<noteq> j" if "kid s' p' c'" for p' c' using d(2) [of p' c'] a(4) [OF that] by auto
    show "parent_thread (prc s' u) = MINUS_ONE \<and> \<not> marked (pcs s' u)" if "alive s' u" "p_tid (prc s' u) = j" for u
      using d(3) [of u] that a(2) [of u] a(6) [of u q] q by auto
    show "pcs s' q' \<noteq> Exec_created j" if "q' \<noteq> q" "alive s' q'" for q' using d(4) [of q'] that a(2,5) by blast
  qed
qed

lemma waited_one: "waited [e] = (case e of Waited p i r \<Rightarrow> [i] | _ \<Rightarrow> [])"
  by (simp add: waited_def)

lemma events_shrink:
  assumes i: "inv_events s" and h: "shrinks s s'" and e: "events s' = events s"
  shows "inv_events s'"
  using i h unfolding inv_events_def shrinks_def e by metis

lemma events_grow:
  assumes i: "inv_events s" and h: "shrinks s s'" and e: "events s' = events s @ [ev]"
    and w: "\<And>p i r. ev = Waited p i r \<Longrightarrow> Exited i r \<in> set (events s) \<and> i \<notin> set (waited (events s)) \<and> i < next_tid2 s' \<and>
      (\<forall>q c. kid s' q c \<longrightarrow> ct_tid (the_ct s' c) \<noteq> i) \<and> (\<forall>q. alive s' q \<longrightarrow> pcs s' q \<noteq> Exec_created i)"
  shows "inv_events s'"
proof -
  have o: "inv_events (s'\<lparr>events := events s\<rparr>)" using i h unfolding inv_events_def shrinks_def by (simp add: life_view) metis
  show ?thesis
  proof (cases "\<exists>p j r. ev = Waited p j r")
    case True
    then obtain p j r where "ev = Waited p j r" by blast
    then show ?thesis using o w [of p j r] unfolding inv_events_def e by (auto simp: life_view waited_one)
  next
    case False
    then have "waited [ev] = []" by (auto simp: waited_one split: event.splits)
    then show ?thesis using o False unfolding inv_events_def e by (auto simp: life_view)
  qed
qed

lemma drop_kid:
  assumes i: "life_inv s" and p: "kid s p c" "\<not> marked (pcs s p)" "pcs s p \<noteq> Starting" "\<And>j. pcs s p \<noteq> Exec_created j" "\<And>t' c' j. pcs s p = Exec_sema t' c' j \<Longrightarrow> t' = t \<and> c' = c \<and> V t = w_value s t - 1 \<and> w_value s t \<noteq> 0"
    and V: "\<And>u. V u = w_value s u \<or> u = t \<and> w_value s t \<noteq> 0 \<and> V t = w_value s t - 1"
    and ev: "ev = Executed p r \<or> ev = Waited p (ct_tid (the_ct s c)) (ct_exit_status (the_ct s c)) \<and>
       Exited (ct_tid (the_ct s c)) (ct_exit_status (the_ct s c)) \<in> set (events s)"
    and w: "\<And>q. p_tid q = p_tid (f q) \<and> parent_thread q = parent_thread (f q) \<and> remove1 c (child_thread_list q) = child_thread_list (f q)"
    and s': "proc s' = (proc s)(p := map_option f (proc s p))" "cts s' = (cts s)(c := None)" "w_value s' = V" "pcs s' = (pcs s)(p := In_user)"
      "events s' = events s @ [ev]" "next_tid2 s' = next_tid2 s" "all2 s' = all2 s"
  shows "life_inv s'"
proof -
  have ki: "inv_kid s" using i by (simp add: life_inv_def)
  have a: "\<And>u. alive s' u = alive s u" by (auto simp: s' alive_def)
  have pf: "\<And>u. p_tid (prc s' u) = p_tid (prc s u)" "\<And>u. parent_thread (prc s' u) = parent_thread (prc s u)"
    using p(1) w by (auto simp: s' life_view)
  have d: "alive s u \<Longrightarrow> child_thread_list (prc s' u) = (if u = p then remove1 c (child_thread_list (prc s u)) else child_thread_list (prc s u))" for u
    using w by (auto simp: s' life_view)
  have own: "kid s q c \<Longrightarrow> q = p" for q using ki p(1) unfolding inv_kid_def by blast
  have k: "kid s' q e \<longleftrightarrow> kid s q e \<and> e \<noteq> c" for q e
  proof -
    have u: "distinct (child_thread_list (prc s p))" using ki p(1) by (simp add: inv_kid_def kid_def)
    show ?thesis
    proof (cases "q = p")
      case True
      then show ?thesis using u by (auto simp: kid_def a d)
    next
      case False
      then show ?thesis using own by (auto simp: kid_def a d)
    qed
  qed
  have t: "\<And>e. e \<noteq> c \<Longrightarrow> the_ct s' e = the_ct s e" by (simp add: s' the_ct_def)
  have sk: "shrinks s s'" using t p(2) by (auto simp: shrinks_def a pf d k s' marked_def inv_kid_def) (use ki in \<open>auto simp: inv_kid_def\<close>)
  note sh = shrinks_inv [OF i sk]
  have il: "inv_loaded s" and st: "inv_starting s" and iw: "inv_wait s" using i by (simp_all add: life_inv_def)
  have "inv_all s'" using i by (simp add: life_inv_def inv_all_def a s')
  moreover have "inv_dying s'" using i t p(5) by (auto simp: life_inv_def inv_dying_def k s') blast
  moreover have "inv_starting s'"
  proof -
    have "V u = w_value s u" if "alive s u" "pcs s u = Starting" for u using V [of u] inv_startingD(1) [OF st that] by auto
    then show ?thesis by (intro inv_starting_step [OF st]) (use p in \<open>auto simp: a pf s' split: if_splits\<close>)
  qed
  moreover have "inv_loaded s'"
  proof (rule inv_loaded_step [OF il])
    fix u assume u: "alive s' u" "pcs s' u \<noteq> Starting" "\<not> marked (pcs s' u)" "w_value s' u \<noteq> 0"
    then have u': "alive s u" "pcs s u \<noteq> Starting" "\<not> marked (pcs s u)" using p(2,3) by (auto simp: a s' split: if_splits)
    have e: "V u = w_value s u" using V [of u] u(4) inv_loadedD(1) [OF il u'] by (auto simp: s')
    then show "alive s u \<and> pcs s u \<noteq> Starting \<and> \<not> marked (pcs s u) \<and> w_value s' u = w_value s u \<and> p_tid (prc s' u) = p_tid (prc s u)"
      using u' by (simp add: s' pf)
    show "alive s' q \<and> pcs s' q = Exec_sema u c' j" if "alive s q" "pcs s q = Exec_sema u c' j" for q c' j
      using that p(5) e inv_loadedD(1) [OF il u'] u(4) by (auto simp: a s')
  qed (use p(4) in \<open>auto simp: a s'\<close>)
  moreover have "inv_exec s'"
  proof (unfold inv_exec_def, intro allI impI)
    fix q u e j assume "alive s' q" "pcs s' q = Exec_sema u e j"
    then have q: "q \<noteq> p" "alive s q" "pcs s q = Exec_sema u e j" by (auto simp: a s' split: if_splits)
    then have "kid s q e \<and> ct_tid (the_ct s e) = j" using i by (simp add: life_inv_def inv_exec_def)
    moreover from this have "e \<noteq> c" using own q(1) by blast
    ultimately show "kid s' q e \<and> ct_tid (the_ct s' e) = j" using t by (simp add: k)
  qed
  moreover have "inv_wait s'"
  proof -
    have o: "kid s q e \<Longrightarrow> q \<noteq> p \<Longrightarrow> e \<noteq> c \<and> the_ct s' e = the_ct s e" for q e using own [of q] t [of e] by auto
    show ?thesis by (rule inv_wait_step [OF iw]) (use o p(2,3) in \<open>auto simp: k a pf s' marked_def split: if_splits\<close>)
  qed
  moreover have "inv_marked s'" using i t by (auto simp: life_inv_def inv_marked_def k a pf s' marked_def)
  moreover have "inv_ct s'" using i t by (auto simp: life_inv_def inv_ct_def k a pf s')
  moreover have "inv_events s'"
  proof (rule events_grow [OF _ sk s'(5)])
    show ie: "inv_events s" using i by (simp add: life_inv_def)
    fix p' j r' assume "ev = Waited p' j r'"
    then have j: "j = ct_tid (the_ct s c)" "Exited j r' \<in> set (events s)" using ev by auto
    have "ct_tid (the_ct s' e) \<noteq> j" if "kid s' q e" for q e using ki p(1) that t unfolding j(1) inv_kid_def by (auto simp: k)
    moreover have "pcs s' q \<noteq> Exec_created j" if "alive s' q" for q
      using inv_createdD(2) [of s q j p c] i p(1) that by (auto simp: a s' j(1) life_inv_def)
    moreover have "j \<notin> set (waited (events s))" using ie p(1) unfolding j(1) inv_events_def by blast
    moreover have "j < next_tid2 s'" using ki p(1) by (auto simp: inv_kid_def j(1) s')
    ultimately show "Exited j r' \<in> set (events s) \<and> j \<notin> set (waited (events s)) \<and> j < next_tid2 s' \<and>
      (\<forall>q c. kid s' q c \<longrightarrow> ct_tid (the_ct s' c) \<noteq> j) \<and> (\<forall>q. alive s' q \<longrightarrow> pcs s' q \<noteq> Exec_created j)" using j(2) by blast
  qed
  ultimately show ?thesis using sh by (simp add: life_inv_def)
qed

lemma take_exec_live:
  assumes i: "life_inv s" and c: "alive s p" "pcs s p = Exec_sema t c j" "w_value s t \<noteq> 0" "ct_status (the_ct s c) \<noteq> THREAD_DYING"
    and s': "proc s' = proc s" "cts s' = cts s" "w_value s' = (w_value s)(t := w_value s t - 1)" "pcs s' = (pcs s)(p := In_user)"
      "events s' = events s @ [Executed p r]" "next_tid2 s' = next_tid2 s" "all2 s' = all2 s"
  shows "life_inv s'"
proof -
  have e: "\<And>u. alive s' u = alive s u" "\<And>u. prc s' u = prc s u" "\<And>q e. kid s' q e = kid s q e" "\<And>e. the_ct s' e = the_ct s e"
    by (simp_all add: s' life_view)
  have ki: "inv_kid s" and il: "inv_loaded s" and st: "inv_starting s" using i by (simp_all add: life_inv_def)
  have sk: "shrinks s s'" using ki by (auto simp: shrinks_def e s' marked_def inv_kid_def)
  note sh = shrinks_inv [OF i sk]
  have "inv_all s'" using i by (simp add: life_inv_def inv_all_def e s')
  moreover have "inv_dying s'" using i c(2,4) by (auto simp: life_inv_def inv_dying_def e s') (metis pc.inject(2))
  moreover have "inv_starting s'"
    by (intro inv_starting_step [OF st]) (use c inv_startingD(1) [OF st] in \<open>auto simp: e s' split: if_splits\<close>)
  moreover have "inv_loaded s'"
  proof (rule inv_loaded_step [OF il])
    fix u assume u: "alive s' u" "pcs s' u \<noteq> Starting" "\<not> marked (pcs s' u)" "w_value s' u \<noteq> 0"
    then have u': "alive s u" "pcs s u \<noteq> Starting" "\<not> marked (pcs s u)" using c(2) by (auto simp: e s' marked_def split: if_splits)
    have ut: "u \<noteq> t" using u(4) inv_loadedD(1) [OF il u'] c(3) by (auto simp: s')
    then show "alive s u \<and> pcs s u \<noteq> Starting \<and> \<not> marked (pcs s u) \<and> w_value s' u = w_value s u \<and> p_tid (prc s' u) = p_tid (prc s u)"
      using u' by (simp add: s' e)
    show "alive s' q \<and> pcs s' q = Exec_sema u c' k" if "alive s q" "pcs s q = Exec_sema u c' k" for q c' k
      using that c(2) ut by (auto simp: e s')
  qed (use c(2) in \<open>auto simp: e s'\<close>)
  moreover have "inv_exec s'" using i c by (auto simp: life_inv_def inv_exec_def e s')
  moreover have "inv_wait s'" using i c by (auto simp: life_inv_def inv_wait_def e s' marked_def)
  moreover have "inv_marked s'" using i c by (auto simp: life_inv_def inv_marked_def e s' marked_def)
  moreover have "inv_ct s'" using i c by (auto simp: life_inv_def inv_ct_def e s')
  moreover have "inv_events s'" by (rule events_grow [OF _ sk s'(5)]) (use i in \<open>auto simp: life_inv_def\<close>)
  ultimately show ?thesis using sh by (simp add: life_inv_def)
qed

lemma register_child:
  assumes i: "life_inv s" and p: "alive s p" "pcs s p = Exec_created j" and n: "alive s t" "p_tid (prc s t) = j" and c: "cts s c = None"
    and ct: "ct_tid ct = j" "ct_t ct = t"
    and s': "s' = (upd_proc p (\<lambda>p. p\<lparr>child_thread_list := child_thread_list p @ [c]\<rparr>) (upd_proc t (\<lambda>q. q\<lparr>parent_thread := p\<rparr>) (s\<lparr>cts := (cts s)(c \<mapsto> ct)\<rparr>)))
      \<lparr>pcs := (pcs s)(p := Exec_sema t c j)\<rparr>"
  shows "life_inv s'"
proof -
  have ki: "inv_kid s" and ic: "inv_created s" using i by (simp_all add: life_inv_def)
  have a: "\<And>u. alive s' u = alive s u" by (auto simp: s' alive_def upd_proc_def)
  have pf: "\<And>u. p_tid (prc s' u) = p_tid (prc s u)" "\<And>u. parent_thread (prc s' u) = (if u = t then p else parent_thread (prc s u))"
    using p(1) n by (auto simp: s' life_view upd_proc_def)
  have d: "child_thread_list (prc s' u) = (if u = p then child_thread_list (prc s u) @ [c] else child_thread_list (prc s u))" for u
    using p(1) n by (auto simp: s' life_view upd_proc_def)
  have nk: "\<not> kid s q c" for q using ki c unfolding inv_kid_def by blast
  have k: "kid s' q e \<longleftrightarrow> kid s q e \<or> q = p \<and> e = c" for q e using p(1) by (auto simp: kid_def a d)
  have t: "the_ct s' e = (if e = c then ct else the_ct s e)" for e by (simp add: s' the_ct_def upd_proc_def)
  have f: "pcs s' = (pcs s)(p := Exec_sema t c j)" "w_value s' = w_value s" "cts s' = (cts s)(c \<mapsto> ct)" "events s' = events s" "next_tid2 s' = next_tid2 s" "all2 s' = all2 s"
    by (simp_all add: s' upd_proc_def)
  note cd = inv_createdD [OF ic p]
  have un: "parent_thread (prc s t) = MINUS_ONE" "\<not> marked (pcs s t)" using cd(3) [OF n] by auto
  have ck: "kid s q e \<Longrightarrow> e \<noteq> c" for q e using nk by blast
  have only: "alive s u \<Longrightarrow> p_tid (prc s u) = j \<Longrightarrow> u = t" for u using i n by (auto simp: life_inv_def inv_tid_def)
  have "inv_all s'" using i by (simp add: life_inv_def inv_all_def a f)
  moreover have "inv_tid s'" using i by (simp add: life_inv_def inv_tid_def a pf f)
  moreover have "inv_kid s'"
  proof -
    have "distinct (child_thread_list (prc s' u))" if "alive s' u" for u
      using ki nk [of u] that by (auto simp: d a inv_kid_def kid_def)
    moreover have "cts s' e \<noteq> None \<and> ct_tid (the_ct s' e) < next_tid2 s'" if "kid s' q e" for q e
      using ki that cd(1) ct(1) by (auto simp: k t f inv_kid_def)
    moreover have "ct_tid (the_ct s' e) \<noteq> ct_tid (the_ct s' e')" if "kid s' q e" "kid s' q' e'" "q \<noteq> q' \<or> e \<noteq> e'" for q e q' e'
    proof (cases "e = c \<or> e' = c")
      case True
      then show ?thesis using that nk cd(2) ct(1) by (auto simp: k t) metis+
    next
      case False
      then show ?thesis using that ki unfolding inv_kid_def by (auto simp: k t)
    qed
    ultimately show ?thesis unfolding inv_kid_def by blast
  qed
  moreover have "inv_dying s'" using i p ct ck by (auto simp: life_inv_def inv_dying_def k f t) 
  moreover have "inv_created s'"
  proof (rule inv_createdI)
    fix q m assume "alive s' q" "pcs s' q = Exec_created m"
    then have q: "q \<noteq> p" "alive s q" "pcs s q = Exec_created m" by (auto simp: a f split: if_splits)
    note dq = inv_createdD [OF ic q(2,3)]
    have mj: "m \<noteq> j" using cd(4) [OF q(1,2)] q(3) by auto
    show "m < next_tid2 s'" using dq(1) by (simp add: f)
    show "ct_tid (the_ct s' c') \<noteq> m" if "kid s' p' c'" for p' c' using dq(2) [of p' c'] that mj ct(1) by (auto simp: k t)
    show "parent_thread (prc s' u) = MINUS_ONE \<and> \<not> marked (pcs s' u)" if "alive s' u" "p_tid (prc s' u) = m" for u
      using dq(3) [of u] that mj n by (auto simp: a pf f marked_def)
    show "pcs s' q' \<noteq> Exec_created m" if "q' \<noteq> q" "alive s' q'" for q' using dq(4) [of q'] that by (auto simp: a f)
  qed
  moreover have "inv_starting s'" 
  proof (unfold inv_starting_def, intro allI impI)
    fix u assume "alive s' u" "pcs s' u = Starting"
    then have u: "u \<noteq> p" "alive s u" "pcs s u = Starting" by (auto simp: a f split: if_splits)
    have st: "inv_starting s" using i by (simp add: life_inv_def)
    show "w_value s' u = 0 \<and>
     (parent_thread (prc s' u) = MINUS_ONE \<and> (\<exists>q. alive s' q \<and> pcs s' q = Exec_created (p_tid (prc s' u))) \<or>
      (\<exists>c. alive s' (parent_thread (prc s' u)) \<and> pcs s' (parent_thread (prc s' u)) = Exec_sema u c (p_tid (prc s' u))))"
    proof (cases "u = t")
      case True
      then show ?thesis using inv_startingD(1) [OF st u(2,3)] p n by (auto simp: a pf f)
    next
      case False
      then have "p_tid (prc s u) \<noteq> j" using only u(2) by blast
      then have np: "pcs s q = Exec_created (p_tid (prc s u)) \<Longrightarrow> q \<noteq> p" for q using p(2) by auto
      have w: "w_value s' u = 0" using inv_startingD(1) [OF st u(2,3)] by (simp add: f)
      from inv_startingD(2) [OF st u(2,3)] show ?thesis
      proof (elim disjE conjE exE)
        fix q assume "parent_thread (prc s u) = MINUS_ONE" "alive s q" "pcs s q = Exec_created (p_tid (prc s u))"
        then show ?thesis using w np False by (intro conjI disjI1 exI [of _ q]) (auto simp: a pf f)
      next
        fix c' assume "alive s (parent_thread (prc s u))" "pcs s (parent_thread (prc s u)) = Exec_sema u c' (p_tid (prc s u))"
        then show ?thesis using w False p(2) by (intro conjI disjI2 exI [of _ c']) (auto simp: a pf f)
      qed
    qed
  qed
  moreover have "inv_loaded s'"
  proof (rule inv_loadedI)
    fix u assume u: "alive s' u" "pcs s' u \<noteq> Starting" "\<not> marked (pcs s' u)" "w_value s' u \<noteq> 0"
    have u': "alive s u" "pcs s u \<noteq> Starting" "\<not> marked (pcs s u)" "w_value s u \<noteq> 0" using u p by (auto simp: a f marked_def split: if_splits)
    have il: "inv_loaded s" using i by (simp add: life_inv_def)
    obtain q where q: "alive s q" "pcs s q = Exec_created (p_tid (prc s u)) \<or> (\<exists>c. pcs s q = Exec_sema u c (p_tid (prc s u)))"
      using inv_loadedD(2) [OF il u'] by blast
    have "q = p \<Longrightarrow> u = t" using q p u'(1) only by auto
    then show "w_value s' u = 1 \<and> (\<exists>q. alive s' q \<and> (pcs s' q = Exec_created (p_tid (prc s' u)) \<or> (\<exists>c. pcs s' q = Exec_sema u c (p_tid (prc s' u)))))"
      using q inv_loadedD(1) [OF il u'] n by (intro conjI exI [of _ q]) (auto simp: a pf f)
  qed
  moreover have "inv_exec s'"
  proof -
    have ie: "inv_exec s" using i by (simp add: life_inv_def)
    have "kid s' q e \<and> ct_tid (the_ct s' e) = m" if "alive s' q" "pcs s' q = Exec_sema u e m" for q u e m
    proof (cases "q = p")
      case True
      then show ?thesis using that ct by (auto simp: k t f)
    next
      case False
      then have "kid s q e" "ct_tid (the_ct s e) = m" using that inv_execD [OF ie, of q u e m] by (auto simp: a f)
      then show ?thesis using ck [of q e] by (simp add: k t)
    qed
    then show ?thesis unfolding inv_exec_def by blast
  qed
  moreover have "inv_wait s'"
  proof (rule inv_waitI)
    fix q u e m assume "alive s' q" "pcs s' q = Wait_sema u (Some e) m"
    then have q: "q \<noteq> p" "alive s q" "pcs s q = Wait_sema u (Some e) m" by (auto simp: a f split: if_splits)
    have iw: "inv_wait s" using i by (simp add: life_inv_def)
    note w = inv_waitD [OF iw q(2,3)]
    have "u = t \<Longrightarrow> q \<noteq> MINUS_ONE" using q(2) i by (auto simp: life_inv_def inv_all_def)
    then show "kid s' q e \<and> ct_tid (the_ct s' e) = m \<and> (ct_status (the_ct s' e) = THREAD_DYING \<or>
        alive s' u \<and> p_tid (prc s' u) = m \<and> parent_thread (prc s' u) = q \<and> \<not> marked (pcs s' u) \<and> pcs s' u \<noteq> Starting)"
      using w ck un p by (auto simp: k a t pf f marked_def)
  qed
  moreover have "inv_marked s'"
  proof (unfold inv_marked_def, intro allI impI)
    fix u q e assume u: "alive s' u" "marked (pcs s' u)" "kid s' q e" "ct_tid (the_ct s' e) = p_tid (prc s' u)"
    have up: "u \<noteq> p" using u(2) by (auto simp: f marked_def)
    have "u \<noteq> t" using u(2) up un(2) by (auto simp: f)
    then have "e \<noteq> c" using u(1,4) only [of u] ct(1) by (auto simp: a t pf)
    then show "ct_status (the_ct s' e) = THREAD_DYING" using u up i by (auto simp: a f k t pf life_inv_def inv_marked_def)
  qed
  moreover have "inv_ct s'"
  proof (unfold inv_ct_def, intro allI impI)
    fix q e assume h: "kid s' q e" "ct_status (the_ct s' e) \<noteq> THREAD_DYING"
    show "alive s' (ct_t (the_ct s' e)) \<and> p_tid (prc s' (ct_t (the_ct s' e))) = ct_tid (the_ct s' e) \<and> parent_thread (prc s' (ct_t (the_ct s' e))) = q"
    proof (cases "e = c")
      case True
      then show ?thesis using h(1) nk ct n by (simp add: t a pf k)
    next
      case False
      then have e: "kid s q e" "ct_status (the_ct s e) \<noteq> THREAD_DYING" using h by (simp_all add: k t)
      have "ct_t (the_ct s e) \<noteq> t" using i e cd(2) [OF e(1)] n(2) by (auto simp: life_inv_def inv_ct_def)
      then show ?thesis using False e i by (auto simp: t a pf life_inv_def inv_ct_def)
    qed
  qed
  moreover have "inv_events s'"
  proof -
    have ie: "inv_events s" using i by (simp add: life_inv_def)
    have "j \<notin> set (waited (events s))" using ie p unfolding inv_events_def by blast
    moreover have "kid s q e \<Longrightarrow> the_ct s' e = the_ct s e" for q e using ck [of q e] by (simp add: t)
    ultimately show ?thesis using ie ct(1) unfolding inv_events_def f a k by (auto simp: t)
  qed
  ultimately show ?thesis by (simp add: life_inv_def)
qed

lemma life_invD:
  assumes "life_inv s"
  shows "inv_all s" "inv_tid s" "inv_kid s" "inv_dying s" "inv_created s" "inv_starting s" "inv_loaded s" "inv_exec s" "inv_wait s" "inv_marked s" "inv_ct s" "inv_events s"
  using assms by (simp_all add: life_inv_def)

lemma inv_exec_step:
  assumes i: "inv_exec s"
    and a: "\<And>q u e j. alive s' q \<Longrightarrow> pcs s' q = Exec_sema u e j \<Longrightarrow> alive s q \<and> pcs s q = Exec_sema u e j \<and>
      (kid s q e \<longrightarrow> kid s' q e \<and> ct_tid (the_ct s' e) = ct_tid (the_ct s e))"
  shows "inv_exec s'"
  using a inv_execD [OF i] unfolding inv_exec_def by metis

lemma create_thread:
  assumes i: "life_inv s" and p: "alive s p" "pcs s p = In_user" and t: "\<not> alive s t" "t \<noteq> NULL" "t \<noteq> MINUS_ONE"
    and P: "p_tid P = next_tid2 s" "child_thread_list P = []" "parent_thread P = MINUS_ONE"
    and s': "proc s' = (proc s)(t \<mapsto> P)" "cts s' = cts s" "w_value s' = (w_value s)(t := 0)" "pcs s' = (pcs s)(t := Starting, p := Exec_created (next_tid2 s))"
      "events s' = events s" "next_tid2 s' = next_tid2 s + 1" "all2 s' = all2 s @ [t]"
  shows "life_inv s'"
proof -
  note d = life_invD [OF i]
  have tp: "t \<noteq> p" using p t by auto
  have a: "alive s' u \<longleftrightarrow> alive s u \<or> u = t" for u by (auto simp: s' alive_def)
  have pr: "prc s' u = (if u = t then P else prc s u)" for u by (simp add: s' prc_def)
  have k: "kid s' q e \<longleftrightarrow> kid s q e" for q e using t(1) P(2) by (auto simp: kid_def a pr)
  have c: "the_ct s' e = the_ct s e" for e by (simp add: s' the_ct_def)
  have lt: "\<And>u. alive s u \<Longrightarrow> p_tid (prc s u) < next_tid2 s" "\<And>q e. kid s q e \<Longrightarrow> ct_tid (the_ct s e) < next_tid2 s"
      "\<And>j. j \<in> set (waited (events s)) \<Longrightarrow> j < next_tid2 s" "\<And>q j. alive s q \<Longrightarrow> pcs s q = Exec_created j \<Longrightarrow> j < next_tid2 s"
    using d(2,3,12) inv_createdD(1) [OF d(5)] unfolding inv_tid_def inv_kid_def inv_events_def by blast+
  have kt: "kid s q e \<Longrightarrow> q \<noteq> t" for q e using t(1) by (auto simp: kid_def)
  have "inv_all s'" using d(1) t by (auto simp: inv_all_def a s')
  moreover have "inv_tid s'" using d(2) t(1) lt(1) P(1) by (fastforce simp: inv_tid_def a pr s')
  moreover have "inv_kid s'"
  proof -
    have "distinct (child_thread_list (prc s' u))" if "alive s' u" for u using d(3) that P(2) t(1) by (auto simp: a pr inv_kid_def)
    moreover have "cts s' e \<noteq> None \<and> ct_tid (the_ct s' e) < next_tid2 s'" if "kid s' q e" for q e
      using d(3) that order_less_imp_le [OF lt(2) [of q e]] unfolding inv_kid_def by (simp add: k c s')
    ultimately show ?thesis using d(3) unfolding inv_kid_def k c by blast
  qed
  moreover have "inv_dying s'" using d(4) p(2) kt unfolding inv_dying_def k c s' by (auto split: if_splits)
  moreover have "inv_created s'"
  proof (rule inv_createdI)
    fix q j assume "alive s' q" "pcs s' q = Exec_created j"
    then have q: "q = p \<and> j = next_tid2 s \<or> q \<noteq> p \<and> q \<noteq> t \<and> alive s q \<and> pcs s q = Exec_created j" using tp by (auto simp: a s' split: if_splits)
    show "j < next_tid2 s'" using q lt(4) [of q j] by (auto simp: s')
    show "ct_tid (the_ct s' c') \<noteq> j" if "kid s' p' c'" for p' c'
      using q that lt(2) [of p' c'] inv_createdD(2) [OF d(5), of q j p' c'] by (auto simp: k c)
    show "parent_thread (prc s' u) = MINUS_ONE \<and> \<not> marked (pcs s' u)" if "alive s' u" "p_tid (prc s' u) = j" for u
      using q that lt(1) [of u] lt(4) [of q j] inv_createdD(3) [OF d(5), of q j u] P tp by (auto simp: a pr s' marked_def split: if_splits)
    show "pcs s' q' \<noteq> Exec_created j" if "q' \<noteq> q" "alive s' q'" for q'
      using q that lt(4) [of q' j] lt(4) [of q j] inv_createdD(4) [OF d(5), of q j q'] tp by (auto simp: a s')
  qed
  moreover have "inv_starting s'"
  proof (unfold inv_starting_def, intro allI impI)
    fix u assume u: "alive s' u" "pcs s' u = Starting"
    show "w_value s' u = 0 \<and>
     (parent_thread (prc s' u) = MINUS_ONE \<and> (\<exists>q. alive s' q \<and> pcs s' q = Exec_created (p_tid (prc s' u))) \<or>
      (\<exists>c. alive s' (parent_thread (prc s' u)) \<and> pcs s' (parent_thread (prc s' u)) = Exec_sema u c (p_tid (prc s' u))))"
    proof (cases "u = t")
      case True
      then show ?thesis using P p tp by (auto simp: a pr s' intro!: exI [of _ p])
    next
      case False
      then have u': "alive s u" "pcs s u = Starting" using u p(2) by (auto simp: a s' split: if_splits)
      have "alive s' q \<and> pcs s' q = pcs s q" if "alive s q" "pcs s q \<noteq> In_user" for q using that p(2) t(1) by (auto simp: a s')
      then show ?thesis using inv_startingD [OF d(6) u'] False by (auto simp: pr s'(3)) (metis pc.distinct)+
    qed
  qed
  moreover have "inv_loaded s'"
    by (rule inv_loaded_step [OF d(7)]) (use t p tp in \<open>auto simp: a pr s' marked_def split: if_splits\<close>)
  moreover have "inv_exec s'"
    by (rule inv_exec_step [OF d(8)]) (use t p tp in \<open>auto simp: a k c s' split: if_splits\<close>)
  moreover have "inv_wait s'"
    by (rule inv_wait_step [OF d(9)]) (use t p tp in \<open>auto simp: a k c pr s' marked_def split: if_splits\<close>)
  moreover have "inv_marked s'" using d(10) lt(2) unfolding inv_marked_def k c by (auto simp: a pr s' marked_def split: if_splits)
  moreover have "inv_ct s'" using d(11) t(1) unfolding inv_ct_def k c by (auto simp: a pr)
  moreover have "inv_events s'" using d(12) lt(3) unfolding inv_events_def k c by (auto simp: a s' order_less_imp_le split: if_splits)
  ultimately show ?thesis by (simp add: life_inv_def)
qed

lemma same_life:
  assumes i: "life_inv s" and p: "pcs s p = In_user" "k \<noteq> Starting" "\<not> marked k" "\<And>j. k \<noteq> Exec_created j" "\<And>t c j. k \<noteq> Exec_sema t c j"
    and w: "\<And>t c j. k = Wait_sema t (Some c) j \<Longrightarrow> alive s p \<and> kid s p c \<and> ct_tid (the_ct s c) = j \<and> alive s t \<and> p_tid (prc s t) = j \<and> parent_thread (prc s t) = p \<and>
      \<not> marked (pcs s t) \<and> pcs s t \<noteq> Starting"
    and f: "\<And>q. p_tid (f q) = p_tid q \<and> parent_thread (f q) = parent_thread q \<and> child_thread_list (f q) = child_thread_list q"
    and s': "proc s' = (proc s)(p := map_option f (proc s p))" "cts s' = cts s" "w_value s' = w_value s" "pcs s' = (pcs s)(p := k)"
      "next_tid2 s' = next_tid2 s" "all2 s' = all2 s"
    and ev: "events s' = events s \<or> (\<exists>e. events s' = events s @ [e] \<and> (\<forall>p j r. e \<noteq> Waited p j r))"
  shows "life_inv s'"
proof -
  note d = life_invD [OF i]
  have a: "alive s' u \<longleftrightarrow> alive s u" for u by (auto simp: s' alive_def)
  have pr: "alive s u \<Longrightarrow> p_tid (prc s' u) = p_tid (prc s u) \<and> parent_thread (prc s' u) = parent_thread (prc s u) \<and>
      child_thread_list (prc s' u) = child_thread_list (prc s u)" for u using f by (auto simp: s' life_view)
  have kk: "kid s' q e \<longleftrightarrow> kid s q e" for q e using pr by (auto simp: kid_def a)
  have c: "the_ct s' e = the_ct s e" for e by (simp add: s' the_ct_def)
  have sk: "shrinks s s'" using d(3) p pr by (auto simp: shrinks_def a kk c s' inv_kid_def split: if_splits)
  note sh = shrinks_inv [OF i sk]
  have "inv_all s'" using d(1) by (simp add: inv_all_def a s')
  moreover have "inv_dying s'" using d(4) p(1) ev unfolding inv_dying_def kk c s' by (auto split: if_splits)
  moreover have "inv_starting s'" by (rule inv_starting_step [OF d(6)]) (use p pr in \<open>auto simp: a s' split: if_splits\<close>)
  moreover have "inv_loaded s'" by (rule inv_loaded_step [OF d(7)]) (use p pr in \<open>auto simp: a s' marked_def split: if_splits\<close>)
  moreover have "inv_exec s'" by (rule inv_exec_step [OF d(8)]) (use p in \<open>auto simp: a kk c s' split: if_splits\<close>)
  moreover have "inv_wait s'"
  proof (rule inv_waitI)
    fix q u e j assume q: "alive s' q" "pcs s' q = Wait_sema u (Some e) j"
    show "kid s' q e \<and> ct_tid (the_ct s' e) = j \<and> (ct_status (the_ct s' e) = THREAD_DYING \<or>
        alive s' u \<and> p_tid (prc s' u) = j \<and> parent_thread (prc s' u) = q \<and> \<not> marked (pcs s' u) \<and> pcs s' u \<noteq> Starting)"
    proof (cases "q = p")
      case True
      then show ?thesis using w [of u e j] q(2) pr [of u] p(2,3) by (auto simp: a kk c s')
    next
      case False
      then show ?thesis using inv_waitD [OF d(9), of q u e j] q pr [of u] p(2,3) by (auto simp: a kk c s')
    qed
  qed
  moreover have "inv_marked s'" using d(10) p(3) pr unfolding inv_marked_def kk c by (auto simp: a s' split: if_splits)
  moreover have "inv_ct s'" using d(11) pr unfolding inv_ct_def kk c a by metis
  moreover have "inv_events s'" using ev events_shrink [OF d(12) sk] events_grow [OF d(12) sk] by blast
  ultimately show ?thesis using sh by (simp add: life_inv_def)
qed

lemma started:
  assumes i: "life_inv s" and p: "alive s p" "pcs s p = Starting" and k: "k = In_user \<or> (\<exists>st. k = Exiting st)"
    and f: "C = cts s \<or> (\<exists>q c ct. alive s q \<and> q = parent_thread (prc s p) \<and> kid s q c \<and> ct_tid (the_ct s c) = p_tid (prc s p) \<and> C = (cts s)(c \<mapsto> ct) \<and>
      ct_tid ct = ct_tid (the_ct s c) \<and> ct_status ct = THREAD_DYING)"
    and s': "proc s' = proc s" "cts s' = C" "w_value s' = (w_value s)(p := w_value s p + 1)" "pcs s' = (pcs s)(p := k)"
      "next_tid2 s' = next_tid2 s" "all2 s' = all2 s" "events s' = events s"
  shows "life_inv s'"
proof -
  note d = life_invD [OF i]
  have a: "alive s' u \<longleftrightarrow> alive s u" for u by (simp add: s' alive_def)
  have pr: "prc s' u = prc s u" for u by (simp add: s' prc_def)
  have kk: "kid s' q e \<longleftrightarrow> kid s q e" for q e by (simp add: kid_def a pr)
  have ct: "ct_tid (the_ct s' e) = ct_tid (the_ct s e) \<and> (ct_status (the_ct s e) = THREAD_DYING \<longrightarrow> ct_status (the_ct s' e) = THREAD_DYING)" for e
    using f by (auto simp: s' the_ct_def)
  have dy: "the_ct s' e = the_ct s e \<or> (\<forall>q. kid s q e \<longrightarrow> (\<exists>t j. pcs s q = Exec_sema t e j))" for e
  proof (cases "the_ct s' e = the_ct s e")
    case False
    then have h: "alive s (parent_thread (prc s p))" "kid s (parent_thread (prc s p)) e" "ct_tid (the_ct s e) = p_tid (prc s p)"
      using f by (auto simp: s' the_ct_def split: if_splits)
    then have "parent_thread (prc s p) \<noteq> MINUS_ONE" using d(1) by (auto simp: inv_all_def)
    then obtain c where c: "pcs s (parent_thread (prc s p)) = Exec_sema p c (p_tid (prc s p))" using inv_startingD(2) [OF d(6) p] by blast
    have "kid s (parent_thread (prc s p)) c \<and> ct_tid (the_ct s c) = p_tid (prc s p)" using inv_execD [OF d(8) h(1) c] .
    then have "c = e" using d(3) h(2,3) unfolding inv_kid_def by metis
    then have "q = parent_thread (prc s p)" if "kid s q e" for q using that d(3) h(2) unfolding inv_kid_def by metis
    then show ?thesis using c \<open>c = e\<close> by blast
  qed simp
  have cn: "kid s q e \<Longrightarrow> cts s' e \<noteq> None" for q e using f d(3) unfolding inv_kid_def by (auto simp: s')
  have km: "k \<noteq> Starting" "\<not> marked k" "\<And>j. k \<noteq> Exec_created j" "\<And>t c j. k \<noteq> Exec_sema t c j" "\<And>t c j. k \<noteq> Wait_sema t c j" using k by (auto simp: marked_def)
  have sk: "shrinks s s'" using km cn ct p(2) by (auto simp: shrinks_def a kk pr s' split: if_splits)
  note sh = shrinks_inv [OF i sk]
  have "inv_all s'" using d(1) by (simp add: inv_all_def a s')
  moreover have "inv_dying s'"
  proof (unfold inv_dying_def, intro allI impI)
    fix q e assume h: "kid s' q e" "ct_status (the_ct s' e) = THREAD_DYING" "\<forall>t i. pcs s' q \<noteq> Exec_sema t e i"
    then have "\<forall>t i. pcs s q \<noteq> Exec_sema t e i" using p(2) by (auto simp: s' split: if_splits)
    moreover from this have "the_ct s' e = the_ct s e" using dy [of e] h(1) kk by blast
    ultimately show "Exited (ct_tid (the_ct s' e)) (ct_exit_status (the_ct s' e)) \<in> set (events s')" using h d(4) by (simp add: kk s' inv_dying_def)
  qed
  moreover have "inv_starting s'" by (rule inv_starting_step [OF d(6)]) (use p km in \<open>auto simp: a pr s' split: if_splits\<close>)
  moreover have "inv_loaded s'"
  proof (rule inv_loadedI)
    fix u assume u: "alive s' u" "pcs s' u \<noteq> Starting" "\<not> marked (pcs s' u)" "w_value s' u \<noteq> 0"
    have x: "alive s q \<Longrightarrow> pcs s q \<noteq> Starting \<Longrightarrow> alive s' q \<and> pcs s' q = pcs s q" for q using p(2) by (auto simp: a s')
    show "w_value s' u = 1 \<and> (\<exists>q. alive s' q \<and> (pcs s' q = Exec_created (p_tid (prc s' u)) \<or> (\<exists>c. pcs s' q = Exec_sema u c (p_tid (prc s' u)))))"
    proof (cases "u = p")
      case True
      then show ?thesis using inv_startingD [OF d(6) p] x by (auto simp: s'(3) pr) (metis pc.distinct)+
    next
      case False
      then have "alive s u" "pcs s u \<noteq> Starting" "\<not> marked (pcs s u)" "w_value s u \<noteq> 0" using u by (auto simp: a s')
      note l = inv_loadedD [OF d(7) this]
      then show ?thesis using x False unfolding pr by (auto simp: s'(3)) (metis pc.distinct)+
    qed
  qed
  moreover have "inv_exec s'" by (rule inv_exec_step [OF d(8)]) (use p km ct in \<open>auto simp: a kk s' split: if_splits\<close>)
  moreover have "inv_wait s'" by (rule inv_wait_step [OF d(9)]) (use p km ct in \<open>auto simp: a kk pr s' split: if_splits\<close>)
  moreover have "inv_marked s'" using d(10) km(2) ct unfolding inv_marked_def kk by (auto simp: a pr s' split: if_splits)
  moreover have "inv_ct s'"
  proof (unfold inv_ct_def, intro allI impI)
    fix q e assume h: "kid s' q e" "ct_status (the_ct s' e) \<noteq> THREAD_DYING"
    then have "the_ct s' e = the_ct s e" using f by (auto simp: s' the_ct_def split: if_splits)
    then show "alive s' (ct_t (the_ct s' e)) \<and> p_tid (prc s' (ct_t (the_ct s' e))) = ct_tid (the_ct s' e) \<and> parent_thread (prc s' (ct_t (the_ct s' e))) = q"
      using h d(11) by (auto simp: kk a pr inv_ct_def)
  qed
  moreover have "inv_events s'" by (rule events_shrink [OF d(12) sk s'(7)])
  ultimately show ?thesis using sh by (simp add: life_inv_def)
qed

lemma mark_exited:
  assumes i: "life_inv s" and p: "alive s p" "pcs s p = In_user \<or> (\<exists>st. pcs s p = Exiting st)" "parent_thread (prc s p) \<noteq> MINUS_ONE"
    and f: "parent_thread (prc s p) = NULL \<and> C = cts s \<or>
      (\<exists>c ct. kid s (parent_thread (prc s p)) c \<and> ct_tid (the_ct s c) = p_tid (prc s p) \<and> C = (cts s)(c \<mapsto> ct) \<and>
      ct_tid ct = p_tid (prc s p) \<and> ct_status ct = THREAD_DYING \<and> ct_exit_status ct = st)"
    and g: "\<And>q. p_tid (g q) = p_tid q \<and> parent_thread (g q) = parent_thread q \<and> child_thread_list (g q) = child_thread_list q"
    and s': "proc s' = (proc s)(p := map_option g (proc s p))" "cts s' = C" "w_value s' = w_value s" "pcs s' = (pcs s)(p := Exit_children)"
      "next_tid2 s' = next_tid2 s" "all2 s' = all2 s" "events s' = events s @ [Exited (p_tid (prc s p)) st]"
  shows "life_inv s'"
proof -
  note d = life_invD [OF i]
  have a: "alive s' u \<longleftrightarrow> alive s u" for u by (auto simp: s' alive_def)
  have pr: "alive s u \<Longrightarrow> p_tid (prc s' u) = p_tid (prc s u) \<and> parent_thread (prc s' u) = parent_thread (prc s u) \<and>
      child_thread_list (prc s' u) = child_thread_list (prc s u)" for u using g by (auto simp: s' life_view)
  have kk: "kid s' q e \<longleftrightarrow> kid s q e" for q e using pr by (auto simp: kid_def a)
  have ct: "ct_tid (the_ct s' e) = ct_tid (the_ct s e) \<and> (ct_status (the_ct s e) = THREAD_DYING \<longrightarrow> ct_status (the_ct s' e) = THREAD_DYING)" for e
    using f by (auto simp: s' the_ct_def)
  have cx: "the_ct s' e = the_ct s e \<or> ct_tid (the_ct s' e) = p_tid (prc s p) \<and> ct_exit_status (the_ct s' e) = st \<and> ct_status (the_ct s' e) = THREAD_DYING" for e
    using f by (auto simp: s' the_ct_def)
  have cn: "kid s q e \<Longrightarrow> cts s' e \<noteq> None" for q e using f d(3) unfolding inv_kid_def by (auto simp: s')
  have sk: "shrinks s s'" using cn ct p pr by (auto simp: shrinks_def a kk s' split: if_splits)
  have dead: "ct_status (the_ct s' e) = THREAD_DYING" if e: "kid s q e" "ct_tid (the_ct s e) = p_tid (prc s p)" for q e
  proof (rule ccontr)
    assume n: "ct_status (the_ct s' e) \<noteq> THREAD_DYING"
    then have "ct_status (the_ct s e) \<noteq> THREAD_DYING" using ct by blast
    then have t: "alive s (ct_t (the_ct s e))" "p_tid (prc s (ct_t (the_ct s e))) = p_tid (prc s p)" "parent_thread (prc s (ct_t (the_ct s e))) = q"
      using d(11) e by (auto simp: inv_ct_def)
    then have q: "parent_thread (prc s p) = q" using d(2) p(1) unfolding inv_tid_def by metis
    have "alive s q" using e(1) by (simp add: kid_def)
    then have "q \<noteq> NULL" using d(1) unfolding inv_all_def by metis
    then obtain c ct' where "kid s q c" "ct_tid (the_ct s c) = p_tid (prc s p)" "C = (cts s)(c \<mapsto> ct')" "ct_status ct' = THREAD_DYING" using f q by auto
    moreover from this have "c = e" using d(3) e unfolding inv_kid_def by metis
    ultimately show False using n by (simp add: s' the_ct_def)
  qed
  note sh = shrinks_inv [OF i sk]
  have "inv_all s'" using d(1) by (simp add: inv_all_def a s')
  moreover have "inv_dying s'"
  proof (unfold inv_dying_def, intro allI impI)
    fix q e assume h: "kid s' q e" "ct_status (the_ct s' e) = THREAD_DYING" "\<forall>t i. pcs s' q \<noteq> Exec_sema t e i"
    then have "\<forall>t i. pcs s q \<noteq> Exec_sema t e i" using p(2) by (auto simp: s' split: if_splits)
    then show "Exited (ct_tid (the_ct s' e)) (ct_exit_status (the_ct s' e)) \<in> set (events s')" using h d(4) cx [of e] by (auto simp: kk s' inv_dying_def)
  qed
  moreover have "inv_starting s'" by (rule inv_starting_step [OF d(6)]) (use p pr in \<open>auto simp: a s' split: if_splits\<close>)
  moreover have "inv_loaded s'" by (rule inv_loaded_step [OF d(7)]) (use p pr in \<open>auto simp: a s' marked_def split: if_splits\<close>)
  moreover have "inv_exec s'" by (rule inv_exec_step [OF d(8)]) (use p ct in \<open>auto simp: a kk s' split: if_splits\<close>)
  moreover have "inv_wait s'"
  proof (rule inv_wait_step [OF d(9)])
    fix q u e j assume "alive s' q" "pcs s' q = Wait_sema u (Some e) j"
    then have q: "q \<noteq> p" "alive s q" "pcs s q = Wait_sema u (Some e) j" by (auto simp: a s' split: if_splits)
    then show "alive s q \<and> pcs s q = Wait_sema u (Some e) j \<and>
      (kid s q e \<longrightarrow> kid s' q e \<and> ct_tid (the_ct s' e) = ct_tid (the_ct s e) \<and> (ct_status (the_ct s e) = THREAD_DYING \<longrightarrow> ct_status (the_ct s' e) = THREAD_DYING) \<and>
        (alive s u \<and> p_tid (prc s u) = ct_tid (the_ct s e) \<and> parent_thread (prc s u) = q \<and> \<not> marked (pcs s u) \<and> pcs s u \<noteq> Starting \<longrightarrow>
           ct_status (the_ct s' e) = THREAD_DYING \<or> alive s' u \<and> p_tid (prc s' u) = p_tid (prc s u) \<and> parent_thread (prc s' u) = q \<and> \<not> marked (pcs s' u) \<and> pcs s' u \<noteq> Starting))"
      using ct pr [of u] dead [of q e] by (cases "u = p") (auto simp: a kk s')
  qed
  moreover have "inv_marked s'"
  proof (unfold inv_marked_def, intro allI impI)
    fix u q e assume h: "alive s' u" "marked (pcs s' u)" "kid s' q e" "ct_tid (the_ct s' e) = p_tid (prc s' u)"
    show "ct_status (the_ct s' e) = THREAD_DYING"
    proof (cases "u = p")
      case True
      then show ?thesis using h dead [of q e] pr p(1) ct by (auto simp: kk)
    next
      case False
      then show ?thesis using h pr [of u] ct [of e] d(10) by (auto simp: kk a s' inv_marked_def)
    qed
  qed
  moreover have "inv_ct s'"
  proof (unfold inv_ct_def, intro allI impI)
    fix q e assume h: "kid s' q e" "ct_status (the_ct s' e) \<noteq> THREAD_DYING"
    then have "the_ct s' e = the_ct s e" using cx by blast
    then show "alive s' (ct_t (the_ct s' e)) \<and> p_tid (prc s' (ct_t (the_ct s' e))) = ct_tid (the_ct s' e) \<and> parent_thread (prc s' (ct_t (the_ct s' e))) = q"
      using h d(11) pr by (auto simp: kk a inv_ct_def)
  qed
  moreover have "inv_events s'" by (rule events_grow [OF d(12) sk s'(7)]) simp
  ultimately show ?thesis using sh by (simp add: life_inv_def)
qed

lemma drop_on_exit:
  assumes i: "life_inv s" and p: "alive s p" "pcs s p = Exit_children" "child_thread_list (prc s p) = c # cs"
    and s': "s' = (upd_proc p (\<lambda>q. q\<lparr>child_thread_list := cs\<rparr>)
        (if ct_status (the_ct s c) \<noteq> THREAD_DYING then upd_proc (ct_t (the_ct s c)) (\<lambda>q. q\<lparr>parent_thread := NULL\<rparr>) s else s))\<lparr>cts := (cts s)(c := None)\<rparr>"
  shows "life_inv s'"
proof -
  note d = life_invD [OF i]
  let ?t = "ct_t (the_ct s c)" let ?live = "ct_status (the_ct s c) \<noteq> THREAD_DYING"
  have kc: "kid s p c" using p by (simp add: kid_def)
  have f: "cts s' = (cts s)(c := None)" "w_value s' = w_value s" "pcs s' = pcs s" "next_tid2 s' = next_tid2 s" "all2 s' = all2 s" "events s' = events s"
    by (simp_all add: s' upd_proc_def)
  have a: "alive s' u \<longleftrightarrow> alive s u" for u by (auto simp: s' alive_def upd_proc_def)
  have t: "?live \<Longrightarrow> alive s ?t \<and> p_tid (prc s ?t) = ct_tid (the_ct s c) \<and> parent_thread (prc s ?t) = p" using d(11) kc by (simp add: inv_ct_def)
  have pt: "p_tid (prc s' u) = p_tid (prc s u)" if "alive s u" for u using that by (auto simp: s' life_view upd_proc_def)
  have pp: "parent_thread (prc s' u) = (if ?live \<and> u = ?t then NULL else parent_thread (prc s u))" if "alive s u" for u
    using that by (auto simp: s' life_view upd_proc_def)
  have pk: "child_thread_list (prc s' u) = (if u = p then cs else child_thread_list (prc s u))" if "alive s u" for u
    using that by (auto simp: s' life_view upd_proc_def)
  have own: "kid s q c \<Longrightarrow> q = p" for q using d(3) kc unfolding inv_kid_def by blast
  have dc: "distinct (c # cs)" using d(3) p by (auto simp: inv_kid_def)
  have k: "kid s' q e \<longleftrightarrow> kid s q e \<and> e \<noteq> c" for q e
    using own [of q] dc p(3) pk [of q] by (cases "q = p") (auto simp: kid_def a)
  have ct: "e \<noteq> c \<Longrightarrow> the_ct s' e = the_ct s e" for e by (simp add: f the_ct_def)
  have cn: "kid s q e \<Longrightarrow> cts s e \<noteq> None" for q e using d(3) unfolding inv_kid_def by blast
  have nt: "ct_tid (the_ct s e) \<noteq> ct_tid (the_ct s c)" if "kid s q e" "e \<noteq> c" for q e using that d(3) kc unfolding inv_kid_def by blast
  have nc: "pcs s q \<noteq> Exec_created (ct_tid (the_ct s c))" if "alive s q" for q using inv_createdD(2) [OF d(5) that _ kc] by blast
  have sk: "shrinks s s'"
  proof -
    have "parent_thread (prc s' u) = MINUS_ONE \<and> \<not> marked (pcs s' u)"
      if "alive s u" "alive s q" "pcs s q = Exec_created (p_tid (prc s u))" "parent_thread (prc s u) = MINUS_ONE" "\<not> marked (pcs s u)" for u q
      using that t nc [of q] pp [of u] by (auto simp: f)
    then show ?thesis using cn pt pk dc ct by (auto simp: shrinks_def a k f)
  qed
  note sh = shrinks_inv [OF i sk]
  have "inv_all s'" using d(1) by (simp add: inv_all_def a f)
  moreover have "inv_dying s'" using d(4) ct unfolding inv_dying_def by (auto simp: k f)
  moreover have "inv_starting s'"
  proof (rule inv_starting_step [OF d(6)])
    fix u assume "alive s' u" "pcs s' u = Starting"
    then have u: "alive s u" "pcs s u = Starting" by (auto simp: a f)
    have "\<not> (?live \<and> u = ?t)"
    proof
      assume l: "?live \<and> u = ?t"
      then have "parent_thread (prc s u) = p" using t by simp
      moreover have "p \<noteq> MINUS_ONE" using d(1) p(1) unfolding inv_all_def by metis
      ultimately show False using inv_startingD(2) [OF d(6) u] p(2) by auto
    qed
    then show "alive s u \<and> pcs s u = Starting \<and> w_value s' u = w_value s u \<and> parent_thread (prc s' u) = parent_thread (prc s u) \<and> p_tid (prc s' u) = p_tid (prc s u)"
      using u pt pp by (auto simp: f)
  qed (auto simp: a f)
  moreover have "inv_loaded s'" by (rule inv_loaded_step [OF d(7)]) (use pt in \<open>auto simp: a f\<close>)
  moreover have "inv_exec s'"
  proof -
    have "kid s q e \<Longrightarrow> pcs s q = Exec_sema u e j \<Longrightarrow> e \<noteq> c" for q u e j using own [of q] p(2) by auto
    then show ?thesis by (intro inv_exec_step [OF d(8)]) (use ct in \<open>auto simp: a k f\<close>)
  qed
  moreover have "inv_wait s'"
  proof (rule inv_wait_step [OF d(9)])
    fix q u e j assume "alive s' q" "pcs s' q = Wait_sema u (Some e) j"
    then have q: "q \<noteq> p" "alive s q" "pcs s q = Wait_sema u (Some e) j" using p(2) by (auto simp: a f)
    have x: "kid s q e \<Longrightarrow> e \<noteq> c \<and> ct_tid (the_ct s e) \<noteq> ct_tid (the_ct s c)" using own [of q] q(1) nt [of q e] by auto
    show "alive s q \<and> pcs s q = Wait_sema u (Some e) j \<and>
      (kid s q e \<longrightarrow> kid s' q e \<and> ct_tid (the_ct s' e) = ct_tid (the_ct s e) \<and> (ct_status (the_ct s e) = THREAD_DYING \<longrightarrow> ct_status (the_ct s' e) = THREAD_DYING) \<and>
        (alive s u \<and> p_tid (prc s u) = ct_tid (the_ct s e) \<and> parent_thread (prc s u) = q \<and> \<not> marked (pcs s u) \<and> pcs s u \<noteq> Starting \<longrightarrow>
           ct_status (the_ct s' e) = THREAD_DYING \<or> alive s' u \<and> p_tid (prc s' u) = p_tid (prc s u) \<and> parent_thread (prc s' u) = q \<and> \<not> marked (pcs s' u) \<and> pcs s' u \<noteq> Starting))"
      using q x ct [of e] t pt [of u] pp [of u] by (auto simp: a k f)
  qed
  moreover have "inv_marked s'" using d(10) pt ct unfolding inv_marked_def by (auto simp: a k f)
  moreover have "inv_ct s'"
  proof (unfold inv_ct_def, intro allI impI)
    fix q e assume "kid s' q e" "ct_status (the_ct s' e) \<noteq> THREAD_DYING"
    then have e: "kid s q e" "e \<noteq> c" "ct_status (the_ct s e) \<noteq> THREAD_DYING" using ct by (auto simp: k)
    have c: "alive s (ct_t (the_ct s e)) \<and> p_tid (prc s (ct_t (the_ct s e))) = ct_tid (the_ct s e) \<and> parent_thread (prc s (ct_t (the_ct s e))) = q"
      using d(11) e by (simp add: inv_ct_def)
    then have "\<not> (?live \<and> ct_t (the_ct s e) = ?t)" using t nt [OF e(1,2)] by auto
    then show "alive s' (ct_t (the_ct s' e)) \<and> p_tid (prc s' (ct_t (the_ct s' e))) = ct_tid (the_ct s' e) \<and> parent_thread (prc s' (ct_t (the_ct s' e))) = q"
      using c ct [OF e(2)] pt pp by (auto simp: a)
  qed
  moreover have "inv_events s'" by (rule events_shrink [OF d(12) sk f(6)])
  ultimately show ?thesis using sh by (simp add: life_inv_def)
qed

lemma leave:
  assumes i: "life_inv s" and p: "alive s p" "marked (pcs s p)"
    and s': "proc s' = proc s \<or> proc s' = (proc s)(p := None) \<and> p \<notin> set (all2 s')" "cts s' = cts s" "\<And>u. u \<noteq> p \<Longrightarrow> w_value s' u = w_value s u"
      "pcs s' = (pcs s)(p := k)" "marked k" "next_tid2 s' = next_tid2 s" "set (all2 s') \<subseteq> set (all2 s)" "distinct (all2 s')" "events s' = events s"
  shows "life_inv s'"
proof -
  note d = life_invD [OF i]
  have a: "alive s' u \<Longrightarrow> alive s u" "u \<noteq> p \<Longrightarrow> alive s u \<Longrightarrow> alive s' u" for u using s'(1) by (auto simp: alive_def split: if_splits)
  have pr: "alive s' u \<Longrightarrow> prc s' u = prc s u" for u using s'(1) by (auto simp: alive_def prc_def split: if_splits)
  have k: "kid s' q e \<Longrightarrow> kid s q e" "q \<noteq> p \<Longrightarrow> kid s q e \<Longrightarrow> kid s' q e" for q e using a pr by (auto simp: kid_def)
  have ct: "the_ct s' e = the_ct s e" for e by (simp add: s' the_ct_def)
  have km: "k \<noteq> Starting" "\<And>j. k \<noteq> Exec_created j" "\<And>t c j. k \<noteq> Exec_sema t c j" "\<And>t c j. k \<noteq> Wait_sema t c j" 
     "pcs s p \<noteq> Starting" "\<And>j. pcs s p \<noteq> Exec_created j" "\<And>t c j. pcs s p \<noteq> Exec_sema t c j" "\<And>t c j. pcs s p \<noteq> Wait_sema t c j" using s'(5) p(2) by (auto simp: marked_def)
  have cn: "kid s' q e \<Longrightarrow> cts s e \<noteq> None" for q e using d(3) k(1) unfolding inv_kid_def by blast
  have sk: "shrinks s s'" using a k(1) cn pr p(2) by (auto simp: shrinks_def ct km s'(2,4,6))
  note sh = shrinks_inv [OF i sk]
  have "inv_all s'" 
  proof -
    have "alive s' u" if "u \<in> set (all2 s')" for u
      using that s'(1,7) d(1) by (cases "u = p") (auto simp: inv_all_def alive_def)
    then show ?thesis using d(1) a(1) s'(8) by (auto simp: inv_all_def)
  qed
  moreover have "inv_dying s'" using d(4) k(1) km(3,7) unfolding inv_dying_def ct s'(4,9) by (auto split: if_splits) blast
  moreover have "inv_starting s'" by (rule inv_starting_step [OF d(6)]) (use a pr km s'(3) in \<open>auto simp: s'(4) split: if_splits\<close>)
  moreover have "inv_loaded s'"
  proof (rule inv_loaded_step [OF d(7)])
    fix u assume u: "alive s' u" "pcs s' u \<noteq> Starting" "\<not> marked (pcs s' u)"
    have "u \<noteq> p" using u(3) s'(5) by (auto simp: s'(4))
    then show "alive s u \<and> pcs s u \<noteq> Starting \<and> \<not> marked (pcs s u) \<and> w_value s' u = w_value s u \<and> p_tid (prc s' u) = p_tid (prc s u)"
      using u a(1) [of u] pr [of u] s'(3) [of u] by (simp add: s'(4))
  next
    show "alive s' q \<and> pcs s' q = Exec_created j" if "alive s q" "pcs s q = Exec_created j" for q j
      using that km(6) [of j] a(2) [of q] by (cases "q = p") (auto simp: s'(4))
    show "alive s' q \<and> pcs s' q = Exec_sema u c j" if "alive s q" "pcs s q = Exec_sema u c j" for q u c j
      using that km(7) [of u c j] a(2) [of q] by (cases "q = p") (auto simp: s'(4))
  qed
  moreover have "inv_exec s'" by (rule inv_exec_step [OF d(8)]) (use a(1) k(2) s'(5) in \<open>auto simp: ct s'(4) marked_def split: if_splits\<close>)
  moreover have "inv_wait s'"
  proof (rule inv_wait_step [OF d(9)])
    fix q u e j assume "alive s' q" "pcs s' q = Wait_sema u (Some e) j"
    then have q: "q \<noteq> p" "alive s q" "pcs s q = Wait_sema u (Some e) j" using a(1) s'(5) by (auto simp: s'(4) marked_def split: if_splits)
    have u: "u \<noteq> p \<Longrightarrow> alive s u \<Longrightarrow> alive s' u \<and> prc s' u = prc s u \<and> pcs s' u = pcs s u" using a(2) pr by (auto simp: s'(4))
    have "kid s q e \<Longrightarrow> kid s' q e" using k(2) q(1) by blast
    then show "alive s q \<and> pcs s q = Wait_sema u (Some e) j \<and>
      (kid s q e \<longrightarrow> kid s' q e \<and> ct_tid (the_ct s' e) = ct_tid (the_ct s e) \<and> (ct_status (the_ct s e) = THREAD_DYING \<longrightarrow> ct_status (the_ct s' e) = THREAD_DYING) \<and>
        (alive s u \<and> p_tid (prc s u) = ct_tid (the_ct s e) \<and> parent_thread (prc s u) = q \<and> \<not> marked (pcs s u) \<and> pcs s u \<noteq> Starting \<longrightarrow>
           ct_status (the_ct s' e) = THREAD_DYING \<or> alive s' u \<and> p_tid (prc s' u) = p_tid (prc s u) \<and> parent_thread (prc s' u) = q \<and> \<not> marked (pcs s' u) \<and> pcs s' u \<noteq> Starting))"
      using q(2,3) u p(2) unfolding ct by (cases "u = p") simp_all
  qed
  moreover have "inv_marked s'"
  proof (unfold inv_marked_def ct, intro allI impI)
    fix u q e assume h: "alive s' u" "marked (pcs s' u)" "kid s' q e" "ct_tid (the_ct s e) = p_tid (prc s' u)"
    have "marked (pcs s u)" using h(2) p(2) by (auto simp: s'(4) split: if_splits)
    then show "ct_status (the_ct s e) = THREAD_DYING" using d(10) a(1) [OF h(1)] k(1) [OF h(3)] h(4) pr [OF h(1)] unfolding inv_marked_def by metis
  qed
  moreover have "inv_ct s'"
  proof (unfold inv_ct_def, intro allI impI)
    fix q e assume e: "kid s' q e" "ct_status (the_ct s' e) \<noteq> THREAD_DYING"
    then have c: "alive s (ct_t (the_ct s e)) \<and> p_tid (prc s (ct_t (the_ct s e))) = ct_tid (the_ct s e) \<and> parent_thread (prc s (ct_t (the_ct s e))) = q"
      using d(11) k(1) [OF e(1)] by (simp add: inv_ct_def ct)
    have "ct_t (the_ct s e) \<noteq> p" using c e(2) d(10) k(1) [OF e(1)] p unfolding inv_marked_def ct by metis
    then show "alive s' (ct_t (the_ct s' e)) \<and> p_tid (prc s' (ct_t (the_ct s' e))) = ct_tid (the_ct s' e) \<and> parent_thread (prc s' (ct_t (the_ct s' e))) = q"
      using c a(2) pr by (simp add: ct)
  qed
  moreover have "inv_events s'" by (rule events_shrink [OF d(12) sk s'(9)])
  ultimately show ?thesis using sh by (simp add: life_inv_def)
qed

lemma overwrite_free:
  assumes i: "life_inv s" and t: "\<not> alive s t"
  shows "life_inv (s\<lparr>w_value := (w_value s)(t := v), w_waiters := ws\<rparr>)"
proof -
  note d = life_invD [OF i]
  let ?s = "s\<lparr>w_value := (w_value s)(t := v), w_waiters := ws\<rparr>"
  have e: "\<And>u. alive ?s u = alive s u" "\<And>u. prc ?s u = prc s u" "\<And>q e. kid ?s q e = kid s q e" "\<And>e. the_ct ?s e = the_ct s e"
    by (simp_all add: life_view)
  have "inv_starting ?s" "inv_loaded ?s" using d(6,7) t unfolding inv_starting_def inv_loaded_def e by (auto simp: )
  then show ?thesis using d unfolding life_inv_def inv_all_def inv_tid_def inv_kid_def inv_dying_def inv_created_def inv_exec_def inv_wait_def inv_marked_def inv_ct_def inv_events_def e by simp
qed


subsection \<open>Every step keeps the invariant\<close>

lemma exec_loaded_keeps:
  assumes i: "life_inv s" and p: "p = running2 s" "pcs s p = Exec_sema t c j" "w_value s t \<noteq> 0"
    and e: "exec_loaded c j (s\<lparr>w_value := (w_value s)(t := w_value s t - 1), intr_on2 := b\<rparr>) = Inr s'"
  shows "life_inv s'"
proof -
  have al: "alive s p" using e p(1) by (auto simp: exec_loaded_def rbind_eq_Inr current_runs alive_def)
  have kc: "kid s p c" using inv_execD [OF life_invD(8) [OF i] al p(2)] by blast
  show ?thesis
  proof (cases "ct_status (the_ct s c) = THREAD_DYING")
    case True
    show ?thesis
      by (rule drop_kid [OF i kc, where t = t and V = "(w_value s)(t := w_value s t - 1)" and ev = "Executed p (ct_exit_status (the_ct s c))"
            and f = "\<lambda>p. p\<lparr>child_thread_list := remove1 c (child_thread_list p)\<rparr>"])
        (use p e True in \<open>auto simp: exec_loaded_def rbind_eq_Inr current_runs finish_exec_def set_pc_def upd_proc_def the_ct_def marked_def split: if_splits\<close>)
  next
    case False
    show ?thesis
      by (rule take_exec_live [OF i al p(2,3) False, where r = j])
        (use p e False in \<open>auto simp: exec_loaded_def rbind_eq_Inr current_runs finish_exec_def set_pc_def upd_proc_def the_ct_def split: if_splits\<close>)
  qed
qed

lemma wait_done_keeps:
  assumes i: "life_inv s" and p: "p = running2 s" "pcs s p = Wait_sema t w j" "w_value s t \<noteq> 0"
    and e: "wait_done w j (s\<lparr>w_value := (w_value s)(t := w_value s t - 1), intr_on2 := b\<rparr>) = Inr s'"
  shows "life_inv s'"
proof -
  note d = life_invD [OF i]
  have al: "alive s p" using e p(1) by (auto simp: wait_done_def rbind_eq_Inr current_runs alive_def)
  obtain c where c: "w = Some c" using e by (cases w) (auto simp: wait_done_def rbind_eq_Inr)
  note w = inv_waitD [OF d(9) al p(2) [unfolded c]]
  have "ct_status (the_ct s c) = THREAD_DYING"
  proof (rule ccontr)
    assume "ct_status (the_ct s c) \<noteq> THREAD_DYING"
    then have t: "alive s t" "p_tid (prc s t) = j" "parent_thread (prc s t) = p" "pcs s t \<noteq> Starting" "\<not> marked (pcs s t)" using w(3) by auto
    obtain q where q: "alive s q" "pcs s q = Exec_created j \<or> (\<exists>e. pcs s q = Exec_sema t e j)"
      using inv_loadedD(2) [OF d(7) t(1,4,5) p(3)] t(2) by auto
    have "p \<noteq> MINUS_ONE" using d(1) al unfolding inv_all_def by metis
    then have "pcs s q \<noteq> Exec_created j" using inv_createdD(3) [OF d(5) q(1) _ t(1,2)] t(3) by metis
    then obtain e where e: "pcs s q = Exec_sema t e j" using q(2) by blast
    then have "kid s q e" "ct_tid (the_ct s e) = j" using inv_execD [OF d(8) q(1)] by auto
    then have "q = p" using w(1,2) d(3) unfolding inv_kid_def by metis
    then show False using e p(2) by simp
  qed
  then have x: "Exited (ct_tid (the_ct s c)) (ct_exit_status (the_ct s c)) \<in> set (events s)" using d(4) w(1) p(2) by (auto simp: inv_dying_def)
  show ?thesis
    by (rule drop_kid [OF i w(1), where t = t and V = "(w_value s)(t := w_value s t - 1)" and ev = "Waited p (ct_tid (the_ct s c)) (ct_exit_status (the_ct s c))"
          and f = "\<lambda>p. p\<lparr>waiting_child := 0, child_thread_list := remove1 c (child_thread_list p)\<rparr>"])
      (use p e c x w(2) in \<open>auto simp: wait_done_def rbind_eq_Inr current_runs set_pc_def upd_proc_def the_ct_def marked_def Let_def\<close>)
qed

lemma process_execute_keeps:
  assumes i: "life_inv s" and p: "alive s (running2 s)" "pcs s (running2 s) = In_user"
    and t: "\<And>t. page = Some t \<Longrightarrow> t \<noteq> NULL \<and> t \<noteq> MINUS_ONE \<and> proc s t = None"
    and e: "process_execute fn_copy name page s = Inr s'"
  shows "life_inv s'"
proof -
  have fin: "life_inv s'" if "finish_exec r s = Inr s'" for r
    by (rule same_life [OF i p(2), where k = In_user and f = "\<lambda>q. q"])
      (use that in \<open>auto simp: finish_exec_def set_pc_def marked_def option.map_ident\<close>)
  show ?thesis
  proof (cases page)
    case None
    then show ?thesis using e fin by (auto simp: process_execute_def thread_create2_def TID_ERROR_def kdefined_def kassert_def split: if_splits)
  next
    case (Some t)
    note t = t [OF Some]
    show ?thesis
    proof (cases "fn_copy \<and> name = Word")
      case False
      then show ?thesis using e fin Some
        by (cases name) (auto simp: process_execute_def kdefined_def thread_create2_def init_thread2_def kassert_def rbind_eq_Inr split: if_splits)
    next
      case True
      have "next_tid2 s \<noteq> TID_ERROR" using i by (auto simp: life_inv_def inv_tid_def TID_ERROR_def)
      then have c: "proc s' = (proc s)(t \<mapsto> \<lparr>p_tid = next_tid2 s, p_priority = PRI_DEFAULT, child_thread_list = [],
           parent_thread = MINUS_ONE, p_exit_status = 0, waiting_child = 0\<rparr>) \<and> cts s' = cts s \<and> events s' = events s \<and>
          w_value s' = (w_value s)(t := 0) \<and> pcs s' = (pcs s)(t := Starting, running2 s := Exec_created (next_tid2 s)) \<and>
          next_tid2 s' = next_tid2 s + 1 \<and> all2 s' = all2 s @ [t]"
        using e True Some by (auto simp: process_execute_def thread_create2_def init_thread2_def allocate_tid2_def thread_unblock2_def upd_proc_def set_pc_def
            set_status2_def rbind_eq_Inr kassert_def Let_def is_thread2_def split: if_splits)
      show ?thesis
        by (rule create_thread [OF i p, of t "\<lparr>p_tid = next_tid2 s, p_priority = PRI_DEFAULT, child_thread_list = [],
           parent_thread = MINUS_ONE, p_exit_status = 0, waiting_child = 0\<rparr>"]) (use t c in \<open>auto simp: alive_def\<close>)
    qed
  qed
qed

lemma find_child_Some: "find_child_by_tid cs j s = Some c \<Longrightarrow> c \<in> set cs \<and> ct_tid (the_ct s c) = j"
  by (auto simp: find_child_by_tid_def find_Some_iff the_ct_def)

lemma get_thread_Some: "life_inv s \<Longrightarrow> get_thread_by_tid j s = Some t \<Longrightarrow> alive s t \<and> p_tid (prc s t) = j"
  by (auto simp: get_thread_by_tid_def find_Some_iff life_inv_def inv_all_def)

lemma process_wait_keeps:
  assumes i: "life_inv s" and p: "pcs s (running2 s) = In_user" and e: "process_wait j s = Inr s'"
  shows "life_inv s'"
proof -
  note d = life_invD [OF i]
  let ?p = "running2 s" let ?w = "find_child_by_tid (child_thread_list (prc s ?p)) j s"
  have al: "alive s ?p" and tc: "thread_current2 s = Inr ?p" using e by (auto simp: process_wait_def rbind_eq_Inr current_runs)
  have k: "?w = Some c \<Longrightarrow> kid s ?p c \<and> ct_tid (the_ct s c) = j" for c using find_child_Some [of _ j s c] al by (auto simp: kid_def)
  consider (failed) "s' = s\<lparr>events := events s @ [Wait_failed ?p j]\<rparr>"
    | (dead) c where "?w = Some c" "ct_status (the_ct s c) = THREAD_DYING"
       "s' = (upd_proc ?p (\<lambda>q. q\<lparr>child_thread_list := remove1 c (child_thread_list q)\<rparr>) s)\<lparr>cts := (cts s)(c := None),
          events := events s @ [Waited ?p j (ct_exit_status (the_ct s c))]\<rparr>"
    | (sleep) t where "get_thread_by_tid j s = Some t" "parent_thread (prc s t) = ?p" "\<And>c. ?w = Some c \<Longrightarrow> ct_status (the_ct s c) \<noteq> THREAD_DYING"
       "sema_down2 t (wait_done ?w j) (set_pc (Wait_sema t ?w j) (upd_proc ?p (\<lambda>q. q\<lparr>waiting_child := j\<rparr>) s)) = Inr s'"
    using e tc unfolding process_wait_def Let_def the_ct_def by (auto split: if_splits option.splits)
  then show ?thesis
  proof cases
    case failed
    show ?thesis
      by (rule same_life [OF i p, where k = In_user and f = "\<lambda>q. q"]) (use failed p in \<open>auto simp: marked_def option.map_ident\<close>)
  next
    case dead
    then have "Exited (ct_tid (the_ct s c)) (ct_exit_status (the_ct s c)) \<in> set (events s)" using d(4) k p by (auto simp: inv_dying_def)
    then show ?thesis
      by (intro drop_kid [OF i k [THEN conjunct1, OF dead(1)], where t = NULL and V = "w_value s" and ev = "Waited ?p j (ct_exit_status (the_ct s c))"
            and f = "\<lambda>q. q\<lparr>child_thread_list := remove1 c (child_thread_list q)\<rparr>" and s' = s'])
        (use dead k p in \<open>auto simp: upd_proc_def marked_def\<close>)
  next
    case sleep
    let ?s1 = "set_pc (Wait_sema t ?w j) (upd_proc ?p (\<lambda>q. q\<lparr>waiting_child := j\<rparr>) s)"
    let ?s2 = "?s1\<lparr>saved_level := (saved_level ?s1)(running2 ?s1 := intr_on2 ?s1), intr_on2 := False\<rparr>"
    have t: "alive s t" "p_tid (prc s t) = j" using get_thread_Some [OF i sleep(1)] by auto
    have "pcs s t \<noteq> Starting"
    proof
      assume "pcs s t = Starting"
      moreover have "?p \<noteq> MINUS_ONE" using d(1) al unfolding inv_all_def by metis
      ultimately show False using inv_startingD(2) [OF d(6) t(1)] sleep(2) p by auto
    qed
    moreover have "\<not> marked (pcs s t)" if "?w = Some c" for c using d(10) t k [OF that] sleep(3) [OF that] unfolding inv_marked_def by metis
    ultimately have i2: "life_inv ?s2"
      by (intro same_life [OF i p, where k = "Wait_sema t ?w j" and f = "\<lambda>q. q\<lparr>waiting_child := j\<rparr>"])
        (use al k t sleep(2) in \<open>auto simp: set_pc_def upd_proc_def marked_def\<close>)
    have "sema_down_loop2 t (wait_done ?w j) ?s2 = Inr s'" using sleep(4) by (simp add: sema_down2_def)
    from sema_down_loop2_effect [OF this] show ?thesis
    proof
      assume "keeps_life ?s2 s'"
      then show ?thesis using i2 by (rule keeps_life_inv)
    next
      assume "w_value ?s2 t \<noteq> 0 \<and> wait_done ?w j (?s2\<lparr>w_value := (w_value ?s2)(t := w_value ?s2 t - 1), intr_on2 := saved_level ?s2 (running2 ?s2)\<rparr>) = Inr s'"
      moreover have "pcs ?s2 (running2 ?s2) = Wait_sema t ?w j" by (simp add: set_pc_def upd_proc_def)
      ultimately show ?thesis using wait_done_keeps [OF i2 refl] by blast
    qed
  qed
qed

lemma exec_created_keeps:
  assumes i: "life_inv s" and p: "pcs s (running2 s) = Exec_created j" and c: "cts s c = None" and e: "exec_created c j s = Inr s'"
  shows "life_inv s'"
proof -
  let ?p = "running2 s"
  have al: "alive s ?p" and tc: "thread_current2 s = Inr ?p" using e by (auto simp: exec_created_def rbind_eq_Inr current_runs)
  obtain t where t: "get_thread_by_tid j s = Some t" using e tc by (auto simp: exec_created_def split: option.splits)
  have n: "alive s t" "p_tid (prc s t) = j" using get_thread_Some [OF i t] by auto
  let ?ct = "\<lparr>ct_tid = j, ct_t = t, ct_status = statuses s t, ct_exit_status = 0\<rparr>"
  let ?s1 = "set_pc (Exec_sema t c j) (upd_proc ?p (\<lambda>p. p\<lparr>child_thread_list := child_thread_list p @ [c]\<rparr>)
      (upd_proc t (\<lambda>p. p\<lparr>parent_thread := ?p\<rparr>) (s\<lparr>cts := (cts s)(c \<mapsto> ?ct)\<rparr>)))"
  let ?s2 = "?s1\<lparr>saved_level := (saved_level ?s1)(running2 ?s1 := intr_on2 ?s1), intr_on2 := False\<rparr>"
  have loop: "sema_down_loop2 t (exec_loaded c j) ?s2 = Inr s'"
    using e tc t by (auto simp: exec_created_def Let_def kdefined_def sema_down2_def split: if_splits)
  have "life_inv ?s1"
    by (rule register_child [OF i al p n c, of ?ct]) (auto simp: set_pc_def upd_proc_def)
  then have i2: "life_inv ?s2" by (rule keeps_life_inv [rotated]) (simp add: keeps_life_def)
  from sema_down_loop2_effect [OF loop] show ?thesis
  proof
    assume "keeps_life ?s2 s'"
    then show ?thesis using i2 by (rule keeps_life_inv)
  next
    assume "w_value ?s2 t \<noteq> 0 \<and> exec_loaded c j (?s2\<lparr>w_value := (w_value ?s2)(t := w_value ?s2 t - 1), intr_on2 := saved_level ?s2 (running2 ?s2)\<rparr>) = Inr s'"
    moreover have "pcs ?s2 (running2 ?s2) = Exec_sema t c j" by (simp add: set_pc_def upd_proc_def)
    ultimately show ?thesis using exec_loaded_keeps [OF i2 refl] by blast
  qed
qed


lemma start_process_keeps:
  assumes i: "life_inv s" and p: "pcs s (running2 s) = Starting" and e: "start_process b s = Inr s'"
  shows "life_inv s'"
proof -
  let ?p = "running2 s" let ?q = "parent_thread (prc s ?p)"
  have al: "alive s ?p" and tc: "thread_current2 s = Inr ?p" using e by (auto simp: start_process_def rbind_eq_Inr current_runs)
  show ?thesis
  proof (cases b)
    case True
    then obtain s1 where s1: "sema_up2 ?p s = Inr s1" "s' = set_pc In_user s1" using e tc by (auto simp: start_process_def rbind_eq_Inr)
    note u = sema_up2_effect [OF s1(1)]
    show ?thesis by (rule started [OF i al p, where k = In_user and C = "cts s"]) (use u s1(2) in \<open>auto simp: keeps_life_def set_pc_def\<close>)
  next
    case False
    then obtain c s1 where c: "is_thread2 s ?q" "find_child_by_tid (child_thread_list (prc s ?q)) (p_tid (prc s ?p)) s = Some c"
        and s1: "sema_up2 ?p (upd_ct c (\<lambda>ct. ct\<lparr>ct_status := THREAD_DYING, ct_exit_status := - 1\<rparr>) s) = Inr s1" "s' = set_pc (Exiting (- 1)) s1"
      using e tc by (auto simp: start_process_def Let_def kdefined_def rbind_eq_Inr split: if_splits option.splits)
    have q: "alive s ?q" using c(1) by (simp add: is_thread2_def alive_def)
    have k: "kid s ?q c" "ct_tid (the_ct s c) = p_tid (prc s ?p)" using find_child_Some [OF c(2)] q by (auto simp: kid_def)
    have "cts s c \<noteq> None" using life_invD(3) [OF i] k(1) unfolding inv_kid_def by blast
    then obtain ct where ct: "cts s c = Some ct" by blast
    note u = sema_up2_effect [OF s1(1)]
    show ?thesis
    proof (rule started [OF i al p, where k = "Exiting (- 1)" and C = "(cts s)(c \<mapsto> ct\<lparr>ct_status := THREAD_DYING, ct_exit_status := - 1\<rparr>)"])
      show "(cts s)(c \<mapsto> ct\<lparr>ct_status := THREAD_DYING, ct_exit_status := - 1\<rparr>) = cts s \<or> (\<exists>q c' ct'. alive s q \<and> q = ?q \<and> kid s q c' \<and>
          ct_tid (the_ct s c') = p_tid (prc s ?p) \<and> (cts s)(c \<mapsto> ct\<lparr>ct_status := THREAD_DYING, ct_exit_status := - 1\<rparr>) = (cts s)(c' \<mapsto> ct') \<and>
          ct_tid ct' = ct_tid (the_ct s c') \<and> ct_status ct' = THREAD_DYING)"
        using q k ct by (intro disjI2 exI [of _ ?q] exI [of _ c] exI [of _ "ct\<lparr>ct_status := THREAD_DYING, ct_exit_status := - 1\<rparr>"]) (simp add: the_ct_def)
    qed (use u s1(2) ct in \<open>auto simp: keeps_life_def set_pc_def upd_ct_def\<close>)
  qed
qed

lemma syscall_exit2_keeps:
  assumes i: "life_inv s" and p: "pcs s (running2 s) = In_user \<or> (\<exists>st. pcs s (running2 s) = Exiting st)" and e: "syscall_exit2 st s = Inr s'"
  shows "life_inv s'"
proof -
  note d = life_invD [OF i]
  let ?p = "running2 s" let ?q = "parent_thread (prc s ?p)" let ?f = "\<lambda>p. p\<lparr>p_exit_status := st\<rparr>"
  let ?s1 = "(upd_proc ?p ?f s)\<lparr>events := events s @ [Exited (p_tid (prc s ?p)) st]\<rparr>"
  have al: "alive s ?p" and tc: "thread_current2 s = Inr ?p" using e by (auto simp: syscall_exit2_def rbind_eq_Inr current_runs)
  have pr: "prc ?s1 u = (if u = ?p then ?f (prc s ?p) else prc s u)" for u using al by (auto simp: prc_def alive_def upd_proc_def)
  show ?thesis
  proof (cases "?q = NULL")
    case True
    then have q1: "?q \<noteq> MINUS_ONE" by (simp add: MINUS_ONE_def)
    have "s' = set_pc Exit_children ?s1" using e tc True by (simp add: syscall_exit2_def Let_def)
    then show ?thesis using True
      by (intro mark_exited [OF i al p q1, where C = "cts s" and st = st and g = ?f]) (auto simp: set_pc_def upd_proc_def)
  next
    case False
    let ?ct = "\<lambda>ct. ct\<lparr>ct_status := THREAD_DYING, ct_exit_status := st\<rparr>"
    have q: "alive s ?q" using e tc False by (auto simp: syscall_exit2_def Let_def kdefined_def is_thread2_def alive_def upd_proc_def split: if_splits)
    then have q1: "?q \<noteq> MINUS_ONE" using d(1) unfolding inv_all_def by metis
    have pe: "p_exit_status (prc ?s1 ?p) = st" using pr by simp
    obtain c where c: "find_child_by_tid (child_thread_list (prc ?s1 ?q)) (p_tid (prc ?s1 ?p)) ?s1 = Some c" "s' = set_pc Exit_children (upd_ct c ?ct ?s1)"
      using e tc False by (auto simp: syscall_exit2_def Let_def pe kdefined_def split: if_splits option.splits)
    have k: "kid s ?q c" "ct_tid (the_ct s c) = p_tid (prc s ?p)"
      using find_child_Some [OF c(1)] q unfolding pr by (auto simp: kid_def the_ct_def upd_proc_def split: if_splits)
    have "cts s c \<noteq> None" using d(3) k(1) unfolding inv_kid_def by blast
    then obtain ct where ct: "cts s c = Some ct" by blast
    show ?thesis
    proof (rule mark_exited [OF i al p q1, where C = "(cts s)(c \<mapsto> ?ct ct)" and st = st and g = ?f])
      show "?q = NULL \<and> (cts s)(c \<mapsto> ?ct ct) = cts s \<or> (\<exists>c' ct'. kid s ?q c' \<and> ct_tid (the_ct s c') = p_tid (prc s ?p) \<and> (cts s)(c \<mapsto> ?ct ct) = (cts s)(c' \<mapsto> ct') \<and>
          ct_tid ct' = p_tid (prc s ?p) \<and> ct_status ct' = THREAD_DYING \<and> ct_exit_status ct' = st)"
        using k ct by (intro disjI2 exI [of _ c] exI [of _ "?ct ct"]) (simp add: the_ct_def)
    qed (use c(2) ct in \<open>auto simp: set_pc_def upd_proc_def upd_ct_def\<close>)
  qed
qed

lemma exit_children_loop_keeps:
  "life_inv s \<Longrightarrow> alive s p \<Longrightarrow> pcs s p = Exit_children \<Longrightarrow> exit_children_loop n p s = Inr s' \<Longrightarrow>
     life_inv s' \<and> alive s' p \<and> pcs s' p = Exit_children \<and> running2 s' = running2 s"
proof (induction n arbitrary: s)
  case 0
  then show ?case by (subst (asm) exit_children_loop.simps) (auto split: list.splits)
next
  case (Suc n)
  show ?case
  proof (cases "child_thread_list (prc s p)")
    case Nil
    then show ?thesis using Suc.prems by (subst (asm) exit_children_loop.simps) auto
  next
    case (Cons c cs)
    let ?s = "(upd_proc p (\<lambda>q. q\<lparr>child_thread_list := cs\<rparr>)
        (if ct_status (the_ct s c) \<noteq> THREAD_DYING then upd_proc (ct_t (the_ct s c)) (\<lambda>q. q\<lparr>parent_thread := NULL\<rparr>) s else s))\<lparr>cts := (cts s)(c := None)\<rparr>"
    have "exit_children_loop n p ?s = Inr s'"
      using Suc.prems(4) Cons by (subst (asm) exit_children_loop.simps) (auto simp: Let_def kdefined_def the_ct_def upd_proc_def split: if_splits)
    moreover have "life_inv ?s" by (rule drop_on_exit [OF Suc.prems(1-3) Cons refl])
    moreover have "alive ?s p" "pcs ?s p = Exit_children" "running2 ?s = running2 s" using Suc.prems(2,3) by (auto simp: alive_def upd_proc_def)
    ultimately show ?thesis using Suc.IH [of ?s] by simp
  qed
qed

lemma exit_children_keeps:
  assumes i: "life_inv s" and p: "pcs s (running2 s) = Exit_children" and e: "exit_children s = Inr s'"
  shows "life_inv s'"
proof -
  obtain s1 where s1: "exit_children_loop (length (child_thread_list (prc s (running2 s)))) (running2 s) s = Inr s1" "s' = set_pc Exit_final s1"
      and al: "alive s (running2 s)" using e by (auto simp: exit_children_def rbind_eq_Inr current_runs)
  note l = exit_children_loop_keeps [OF i al p s1(1)]
  then show ?thesis
    by (intro leave [of s1 "running2 s" s' Exit_final]) (use s1(2) life_invD(1) [of s1] in \<open>auto simp: set_pc_def marked_def inv_all_def\<close>)
qed

lemma exit_final_keeps:
  assumes i: "life_inv s" and p: "pcs s (running2 s) = Exit_final" and e: "exit_final s = Inr s'"
  shows "life_inv s'"
proof -
  let ?p = "running2 s" let ?s0 = "s\<lparr>intr_on2 := False, all2 := remove1 ?p (all2 s)\<rparr>"
  obtain s1 where s1: "sema_up2 ?p ?s0 = Inr s1" "schedule2 (set_status2 ?p THREAD_DYING s1) = Inr s'" and al: "alive s ?p"
    using e by (auto simp: exit_final_def rbind_eq_Inr current_runs)
  have u: "keeps_life (?s0\<lparr>w_value := (w_value ?s0)(?p := w_value ?s0 ?p + 1)\<rparr>) s1" "running2 s1 = ?p" using sema_up2_effect [OF s1(1)] by auto
  have ds: "distinct (all2 s)" using life_invD(1) [OF i] by (simp add: inv_all_def)
  have k: "proc s1 = proc s" "cts s1 = cts s" "\<And>v. v \<noteq> ?p \<Longrightarrow> w_value s1 v = w_value s v" "pcs s1 = pcs s" "next_tid2 s1 = next_tid2 s" "all2 s1 = remove1 ?p (all2 s)" "events s1 = events s"
    using u(1) by (auto simp: keeps_life_def)
  have "keeps_life (set_status2 ?p THREAD_DYING s1) s' \<or> keeps_life (palloc_free_thread2 ?p (set_status2 ?p THREAD_DYING s1)) s'"
    using schedule2_frees [OF s1(2)] u(2) by (simp add: set_status2_def)
  then show ?thesis
    by (intro leave [OF i al, of s' Exit_final]) (use ds p k in \<open>auto simp: keeps_life_def set_status2_def palloc_free_thread2_def marked_def dest: notin_set_remove1\<close>)
qed

lemma go_on_keeps:
  assumes i: "life_inv s" and e: "go_on s = Inr s'"
  shows "life_inv s'"
proof -
  have on: "life_inv (s\<lparr>intr_on2 := True\<rparr>)" using i by (rule keeps_life_inv [rotated]) (simp add: keeps_life_def)
  show ?thesis
  proof (cases "pcs s (running2 s)")
    case (Exec_sema t c j)
    then have "sema_down_loop2 t (exec_loaded c j) s = Inr s'" using e by (simp add: go_on_def)
    from sema_down_loop2_effect [OF this] show ?thesis using keeps_life_inv [OF _ i] exec_loaded_keeps [OF i refl Exec_sema] by blast
  next
    case (Wait_sema t w j)
    then have "sema_down_loop2 t (wait_done w j) s = Inr s'" using e by (simp add: go_on_def)
    from sema_down_loop2_effect [OF this] show ?thesis using keeps_life_inv [OF _ i] wait_done_keeps [OF i refl Wait_sema] by blast
  next
    case (Exiting st)
    then show ?thesis using e syscall_exit2_keeps [OF on, of st s'] by (simp add: go_on_def)
  next
    case Exit_children
    then show ?thesis using e exit_children_keeps [OF on, of s'] by (simp add: go_on_def)
  next
    case Exit_final
    then show ?thesis using e exit_final_keeps [OF on, of s'] by (simp add: go_on_def)
  next
    case Idle_loop
    have "keeps_life s s'" using thread_block2_keeps [of "s\<lparr>intr_on2 := False\<rparr>" s'] e Idle_loop by (simp add: go_on_def idle_loop_def keeps_life_def)
    then show ?thesis using i by (rule keeps_life_inv)
  qed (use e in \<open>simp_all add: go_on_def\<close>)
qed

subsection \<open>The running thread is alive\<close>

definition runs :: "procs \<Rightarrow> bool" where
  "runs s \<longleftrightarrow> alive s (running2 s)"

lemma runs_simps:
  "runs (set_status2 t st s) = runs s" "runs (set_pc k s) = runs s" "runs (upd_proc t f s) = runs s" "runs (upd_ct c g s) = runs s"
  by (auto simp: runs_def alive_def set_status2_def set_pc_def upd_proc_def upd_ct_def)

lemma schedule2_runs: "schedule2 s = Inr s' \<Longrightarrow> runs s'"
  by (auto simp: schedule2_def next_thread_to_run2_def thread_schedule_tail2_def kassert_def Let_def set_status2_def runs_def alive_def is_thread2_def
      palloc_free_thread2_def split: list.splits if_splits)

lemma thread_block2_runs: "thread_block2 s = Inr s' \<Longrightarrow> runs s'"
  by (auto simp: thread_block2_def kassert_def rbind_eq_Inr split: if_splits intro: schedule2_runs)

lemma thread_tick2_runs: "thread_tick2 s = Inr s' \<Longrightarrow> runs s'"
  by (auto simp: thread_tick2_def thread_yield2_def Let_def rbind_eq_Inr current_runs runs_def split: if_splits dest!: schedule2_runs)
     (auto simp: alive_def)

lemma sema_up2_runs: "sema_up2 t s = Inr s' \<Longrightarrow> runs s \<Longrightarrow> runs s'"
  using sema_up2_effect [of t s s'] by (auto simp: runs_def keeps_life_def alive_def)

lemma sema_down_loop2_runs: "sema_down_loop2 t k s = Inr s' \<Longrightarrow> (\<And>v b. k (s\<lparr>w_value := v, intr_on2 := b\<rparr>) = Inr s' \<Longrightarrow> runs s') \<Longrightarrow> runs s'"
  by (auto simp: sema_down_loop2_def rbind_eq_Inr split: if_splits option.splits intro: thread_block2_runs)

lemma current_runs_runs: "thread_current2 s = Inr t \<Longrightarrow> runs s"
  by (auto simp: current_runs runs_def)

lemma finishes_run:
  "exec_loaded c j s = Inr s' \<Longrightarrow> runs s'" "wait_done w j s = Inr s' \<Longrightarrow> runs s'"
  by (auto simp: exec_loaded_def wait_done_def finish_exec_def rbind_eq_Inr current_runs runs_def set_pc_def upd_proc_def alive_def Let_def split: if_splits option.splits)

lemma exec_created_runs: "exec_created c j s = Inr s' \<Longrightarrow> runs s'"
  unfolding exec_created_def sema_down2_def Let_def
  by (auto simp: rbind_eq_Inr kdefined_def split: option.splits if_splits elim!: sema_down_loop2_runs intro: finishes_run)

lemma process_wait_runs: "process_wait j s = Inr s' \<Longrightarrow> runs s'"
  unfolding process_wait_def sema_down2_def Let_def
  by (auto simp: rbind_eq_Inr current_runs split: option.splits if_splits elim!: sema_down_loop2_runs intro: finishes_run)
     (auto simp: runs_def alive_def upd_proc_def)

lemma exit_runs:
  "syscall_exit2 st s = Inr s' \<Longrightarrow> runs s'" "start_process b s = Inr s' \<Longrightarrow> runs s'" "exit_final s = Inr s' \<Longrightarrow> runs s'"
proof -
  assume "syscall_exit2 st s = Inr s'"
  then show "runs s'" by (auto simp: syscall_exit2_def Let_def rbind_eq_Inr current_runs kdefined_def runs_simps split: if_splits option.splits)
     (auto simp: runs_def alive_def upd_proc_def)
next
  assume "start_process b s = Inr s'"
  then show "runs s'"
    by (auto simp: start_process_def Let_def rbind_eq_Inr kdefined_def runs_simps split: if_splits option.splits
        dest!: current_runs_runs elim!: sema_up2_runs)
next
  assume "exit_final s = Inr s'"
  then show "runs s'" by (auto simp: exit_final_def rbind_eq_Inr intro: schedule2_runs)
qed

lemma exit_children_loop_runs: "exit_children_loop n p s = Inr s' \<Longrightarrow> runs s \<Longrightarrow> runs s'"
proof (induction n arbitrary: s)
  case 0
  then show ?case by (subst (asm) exit_children_loop.simps) (auto split: list.splits)
next
  case (Suc n)
  show ?case
  proof (cases "child_thread_list (prc s p)")
    case Nil
    then show ?thesis using Suc.prems by (subst (asm) exit_children_loop.simps) auto
  next
    case (Cons c cs)
    have r: "runs (t\<lparr>cts := x\<rparr>) = runs t" for t x by (simp add: runs_def alive_def)
    show ?thesis using Suc.prems Cons
      by (subst (asm) exit_children_loop.simps) (auto simp: Let_def kdefined_def r runs_simps split: if_splits dest!: Suc.IH)
  qed
qed

lemma process_execute_runs: "process_execute f n page s = Inr s' \<Longrightarrow> runs s \<Longrightarrow> runs s'"
  by (auto simp: process_execute_def finish_exec_def kdefined_def thread_create2_def init_thread2_def allocate_tid2_def thread_unblock2_def kassert_def
      rbind_eq_Inr Let_def runs_def alive_def set_pc_def upd_proc_def set_status2_def split: if_splits option.splits)

lemma pstep_runs:
  assumes r: "runs s" and st: "pstep s a s'"
  shows "runs s'"
proof -
  have en: "enabled a s" and e: "perform a s = Inr s'" using st by (auto elim: pstep.cases)
  have on: "runs (s\<lparr>intr_on2 := True\<rparr>)" using r by (simp add: runs_def alive_def)
  have "runs s'" if "go_on s = Inr s'"
    using that
    by (auto simp: go_on_def exit_children_def idle_loop_def rbind_eq_Inr runs_simps split: pc.splits
        elim!: sema_down_loop2_runs exit_children_loop_runs dest!: current_runs_runs intro: finishes_run exit_runs thread_block2_runs)
  then show ?thesis using e r process_execute_runs [OF _ on]
    by (cases a) (auto simp: perform_def runs_def [of "w_value_update _ _"] alive_def intro: process_wait_runs exit_runs exec_created_runs thread_tick2_runs split: pc.splits, simp add: runs_def alive_def)
qed

lemma pstep_keeps:
  assumes i: "life_inv s" and r: "runs s" and st: "pstep s a s'"
  shows "life_inv s'"
proof -
  have en: "enabled a s" and e: "perform a s = Inr s'" using st by (auto elim: pstep.cases)
  have on: "life_inv (s\<lparr>intr_on2 := True\<rparr>)" using i by (rule keeps_life_inv [rotated]) (simp add: keeps_life_def)
  show ?thesis
  proof (cases a)
    case (Exec f n page)
    have x: "process_execute f n page (s\<lparr>intr_on2 := True\<rparr>) = Inr s'" using e Exec by (simp add: perform_def)
    have al: "alive (s\<lparr>intr_on2 := True\<rparr>) (running2 (s\<lparr>intr_on2 := True\<rparr>))" using r by (simp add: runs_def alive_def)
    show ?thesis by (rule process_execute_keeps [OF on al _ _ x]) (use en Exec in \<open>auto simp: enabled_def split: option.splits\<close>)
  next
    case (Wait j)
    then show ?thesis using e en process_wait_keeps [OF on, of j s'] by (simp add: perform_def enabled_def)
  next
    case (Exit st)
    then show ?thesis using e en syscall_exit2_keeps [OF on, of st s'] by (simp add: perform_def enabled_def)
  next
    case (Register c)
    then obtain j where "pcs s (running2 s) = Exec_created j" using en by (auto simp: enabled_def split: pc.splits)
    then show ?thesis using Register e en exec_created_keeps [OF on, of j c s'] by (simp add: perform_def enabled_def)
  next
    case (Load b)
    then show ?thesis using e en start_process_keeps [OF on, of b s'] by (simp add: perform_def enabled_def)
  next
    case Go_on
    then show ?thesis using e go_on_keeps [OF i] by (simp add: perform_def)
  next
    case Tick
    then show ?thesis using e thread_tick2_keeps [of s s'] keeps_life_inv [OF _ i] by (simp add: perform_def)
  next
    case (Overwrite t v ws)
    then show ?thesis using e en overwrite_free [OF i, of t _ v] by (auto simp: perform_def enabled_def alive_def)
  qed
qed

lemma boot_life:
  assumes "m \<noteq> d" "{m, d} \<inter> {NULL, MINUS_ONE} = {}"
  shows "life_inv (pboot m d) \<and> runs (pboot m d)"
proof -
  have a: "alive (pboot m d) u \<longleftrightarrow> u = m \<or> u = d" for u by (auto simp: pboot_def alive_def Let_def)
  have k: "\<not> kid (pboot m d) p c" for p c using assms(1) by (auto simp: pboot_def kid_def alive_def prc_def Let_def split: if_splits)
  have t: "p_tid (prc (pboot m d) u) = (if u = d then 2 else 1)" if "u = m \<or> u = d" for u using that assms(1) by (auto simp: pboot_def prc_def Let_def)
  have l: "child_thread_list (prc (pboot m d) u) = []" if "u = m \<or> u = d" for u using that assms(1) by (auto simp: pboot_def prc_def Let_def)
  have f: "pcs (pboot m d) = (\<lambda>_. In_user)(d := Idle_loop)" "w_value (pboot m d) = (\<lambda>_. 0)" "events (pboot m d) = []" "all2 (pboot m d) = [m, d]" "next_tid2 (pboot m d) = 3"
      "running2 (pboot m d) = m" by (simp_all add: pboot_def Let_def)
  have "life_inv (pboot m d)" using assms unfolding life_inv_def inv_parts a f by (auto simp: k t l)
  then show ?thesis by (simp add: runs_def a f)
qed

theorem preach_life: "preach s \<Longrightarrow> life_inv s \<and> runs s"
proof (induction rule: preach.induct)
  case (boot m d)
  then show ?case by (rule boot_life)
next
  case (step s a s')
  then show ?case using pstep_keeps pstep_runs by metis
qed

lemma prun_reach: "preach s \<Longrightarrow> prun as s = Some s' \<Longrightarrow> preach s'"
  by (induction as arbitrary: s) (auto split: if_splits sum.splits intro: preach.step pstep.intros)



end
