(* ===== verification/Processes.thy ===== *)
theory Processes
  imports Lifecycle
begin





lemma prun_append: "prun (as @ bs) s = (case prun as s of None \<Rightarrow> None | Some s' \<Rightarrow> prun bs s')"
  by (induction as arbitrary: s) (auto split: sum.splits)




end
