(* ===== verification/Arithmetic.thy ===== *)
theory Arithmetic
  imports Prelude "HOL-Library.Signed_Division"
begin

unbundle bit_operations_syntax

text \<open>
  64-bit division on a 32-bit machine (src/pintos2/src/lib/arithmetic.c). \<open>divl\<close> is the processor's
  instruction: it traps if the divisor is zero or the quotient does not fit. A signed number is
  its word in two's complement.
\<close>

definition divide_error :: "'a res" where
  "divide_error = Inl (Panic ''#DE Divide Error'')"

definition divl :: "u64 \<Rightarrow> u32 \<Rightarrow> u32 res" where
  "divl n d =
     (if unat d = 0 \<or> 2 ^ 32 \<le> unat n div unat d then divide_error else Inr (of_nat (unat n div unat d)))"

definition nlz :: "u32 \<Rightarrow> nat" where
  "nlz x =
     (let (n, x) = (if x \<le> 0x0000FFFF then (16, push_bit 16 x) else (0, x));
          (n, x) = (if x \<le> 0x00FFFFFF then (n + 8, push_bit 8 x) else (n, x));
          (n, x) = (if x \<le> 0x0FFFFFFF then (n + 4, push_bit 4 x) else (n, x));
          (n, x) = (if x \<le> 0x3FFFFFFF then (n + 2, push_bit 2 x) else (n, x))
      in if x \<le> 0x7FFFFFFF then n + 1 else n)"

definition udiv64 :: "u64 \<Rightarrow> u64 \<Rightarrow> u64 res" where
  "udiv64 n d =
     (if drop_bit 32 d = 0 then
        (let b = push_bit 32 1; n1 = ucast (drop_bit 32 n) :: u32; n0 = ucast n :: u32; d0 = ucast d :: u32
         in if d0 = 0 then divide_error
            else rbind (divl (b * ucast (n1 mod d0) + ucast n0) d0) (\<lambda>q. Inr (ucast q + b * ucast (n1 div d0))))
      else if n < d then Inr 0
      else (let d1 = ucast (drop_bit 32 d) :: u32; s = nlz d1
            in rbind (divl (drop_bit 1 n) (ucast (drop_bit 32 (push_bit s d)))) (\<lambda>q1.
                 let q = ucast (drop_bit (31 - s) q1)
                 in Inr (if n - (q - 1) * d < d then q - 1 else q))))"

definition umod64 :: "u64 \<Rightarrow> u64 \<Rightarrow> u32 res" where
  "umod64 n d = rbind (udiv64 n d) (\<lambda>q. Inr (ucast (n - d * q)))"

definition sdiv64 :: "u64 \<Rightarrow> u64 \<Rightarrow> u64 res" where
  "sdiv64 n d =
     (let n_abs = (if sint n \<ge> 0 then n else - n); d_abs = (if sint d \<ge> 0 then d else - d)
      in rbind (udiv64 n_abs d_abs) (\<lambda>q_abs. Inr (if (sint n < 0) = (sint d < 0) then q_abs else - q_abs)))"

definition smod64 :: "u64 \<Rightarrow> u64 \<Rightarrow> u32 res" where
  "smod64 n d = rbind (sdiv64 n d) (\<lambda>q. Inr (ucast (n - d * q)))"

definition divdi3 :: "u64 \<Rightarrow> u64 \<Rightarrow> u64 res" where
  "divdi3 n d = sdiv64 n d"

definition moddi3 :: "u64 \<Rightarrow> u64 \<Rightarrow> u64 res" where
  "moddi3 n d = rbind (smod64 n d) (\<lambda>r. Inr (scast r))"

definition udivdi3 :: "u64 \<Rightarrow> u64 \<Rightarrow> u64 res" where
  "udivdi3 n d = udiv64 n d"

definition umoddi3 :: "u64 \<Rightarrow> u64 \<Rightarrow> u64 res" where
  "umoddi3 n d = rbind (umod64 n d) (\<lambda>r. Inr (ucast r))"

subsection \<open>Leading zeros\<close>

lemma unat_push_bit_less:
  fixes x :: "'a :: len word"
  shows "unat x * 2 ^ k < 2 ^ LENGTH('a) \<Longrightarrow> unat (push_bit k x) = unat x * 2 ^ k"
proof -
  assume "unat x * 2 ^ k < 2 ^ LENGTH('a)"
  then have "take_bit LENGTH('a) (push_bit k (unat x)) = unat x * 2 ^ k" by (simp only: push_bit_eq_mult take_bit_nat_eq_self)
  then show ?thesis by (simp only: unsigned_push_bit_eq)
qed

lemma nlz_step:
  fixes x :: u32
  assumes "2 ^ lo \<le> unat x" "k \<le> 32" "\<And>y. y \<le> c \<longleftrightarrow> unat y < 2 ^ (32 - k)" "lo + k \<le> 32 - k"
  obtains m y where "(if x \<le> c then (n + k, push_bit k x) else (n, x)) = (n + m, y)" "m \<le> k" "unat y = unat x * 2 ^ m" "2 ^ (lo + k) \<le> unat y"
proof (cases "x \<le> c")
  case True
  have "unat x * 2 ^ k < 2 ^ (32 - k) * 2 ^ k" using True assms(3) [of x] by simp
  also have "\<dots> = 2 ^ 32" using assms(2) by (simp flip: power_add)
  finally have "unat (push_bit k x) = unat x * 2 ^ k" by (intro unat_push_bit_less) simp
  moreover have "2 ^ (lo + k) \<le> unat x * (2 :: nat) ^ k" using assms(1) by (simp add: power_add)
  ultimately show ?thesis using True that [of k "push_bit k x"] by simp
next
  case False
  have "(2 :: nat) ^ (lo + k) \<le> 2 ^ (32 - k)" using assms(4) by (intro power_increasing) auto
  also have "\<dots> \<le> unat x" using False assms(3) [of x] by simp
  finally show ?thesis using False that [of 0 x] by simp
qed

lemma nlz_normalises:
  assumes "x \<noteq> 0"
  shows "nlz x \<le> 31" "2 ^ 31 \<le> unat x * 2 ^ nlz x" "unat x * 2 ^ nlz x < 2 ^ 32"
proof -
  have x0: "2 ^ 0 \<le> unat x" using assms by (simp add: unat_gt_0 Suc_leI)
  obtain m1 y1 where 1: "(if x \<le> 0x0000FFFF then (0 + 16, push_bit 16 x) else (0, x)) = (0 + m1, y1)" "m1 \<le> 16" "unat y1 = unat x * 2 ^ m1" "2 ^ (0 + 16) \<le> unat y1"
    by (rule nlz_step [OF x0, where c = "0x0000FFFF" and n = 0 and k = 16]) (auto simp: word_le_nat_alt)
  obtain m2 y2 where 2: "(if y1 \<le> 0x00FFFFFF then (m1 + 8, push_bit 8 y1) else (m1, y1)) = (m1 + m2, y2)" "m2 \<le> 8" "unat y2 = unat y1 * 2 ^ m2" "2 ^ (0 + 16 + 8) \<le> unat y2"
    by (rule nlz_step [OF 1(4), where c = "0x00FFFFFF" and n = m1 and k = 8]) (auto simp: word_le_nat_alt)
  obtain m3 y3 where 3: "(if y2 \<le> 0x0FFFFFFF then (m1 + m2 + 4, push_bit 4 y2) else (m1 + m2, y2)) = (m1 + m2 + m3, y3)" "m3 \<le> 4" "unat y3 = unat y2 * 2 ^ m3" "2 ^ (0 + 16 + 8 + 4) \<le> unat y3"
    by (rule nlz_step [OF 2(4), where c = "0x0FFFFFFF" and n = "m1 + m2" and k = 4]) (auto simp: word_le_nat_alt)
  obtain m4 y4 where 4: "(if y3 \<le> 0x3FFFFFFF then (m1 + m2 + m3 + 2, push_bit 2 y3) else (m1 + m2 + m3, y3)) = (m1 + m2 + m3 + m4, y4)" "m4 \<le> 2" "unat y4 = unat y3 * 2 ^ m4" "2 ^ (0 + 16 + 8 + 4 + 2) \<le> unat y4"
    by (rule nlz_step [OF 3(4), where c = "0x3FFFFFFF" and n = "m1 + m2 + m3" and k = 2]) (auto simp: word_le_nat_alt)
  let ?m = "m1 + m2 + m3 + m4"
  have n: "nlz x = (if y4 \<le> 0x7FFFFFFF then ?m + 1 else ?m)"
    using 1(1) 2(1) 3(1) 4(1) by (simp only: nlz_def Let_def add_0 prod.case)
  have y4: "unat y4 = unat x * 2 ^ ?m" using 1(3) 2(3) 3(3) 4(3) by (simp add: power_add)
  have le: "y4 \<le> 0x7FFFFFFF \<longleftrightarrow> unat y4 < 2 ^ 31" by (auto simp: word_le_nat_alt)
  show "nlz x \<le> 31" using n 1(2) 2(2) 3(2) 4(2) by simp
  show "2 ^ 31 \<le> unat x * 2 ^ nlz x" "unat x * 2 ^ nlz x < 2 ^ 32"
    using n y4 le 4(4) unat_u32_less [of y4] by (auto simp: power_add)
qed


subsection \<open>Unsigned division\<close>

text \<open>The estimate with a divisor of 33 to 64 bits: shift it left until its top bit is set, divide half of
  the dividend by its upper 32 bits, and shift the quotient back. It is the quotient or one more.\<close>

lemma less_next_multiple: "0 < d \<Longrightarrow> n < (n div d + 1) * (d :: nat)"
proof -
  assume "0 < d"
  then have "n mod d < d" by (rule mod_less_divisor)
  then show ?thesis using div_mult_mod_eq [of n d] unfolding distrib_right mult_1_left by linarith
qed

lemma quotient_estimate:
  fixes n d a c :: nat
  assumes ca: "c * a = 2 ^ 31" and d: "2 ^ 63 \<le> d * c" "d * c < 2 ^ 64" and n: "n < 2 ^ 64"
  defines "v \<equiv> d * c div 2 ^ 32"
  shows "v < 2 ^ 32" "n div 2 div v < 2 ^ 32" "0 < v" "n div 2 div v div a = n div d \<or> n div 2 div v div a = n div d + 1"
proof -
  have pos: "0 < a" "0 < c" using ca by (auto intro: gr0I)
  have c32: "(2 :: nat) ^ 32 = c * (2 * a)" using ca by (simp add: mult.commute)
  then have v: "v = d div (2 * a)" unfolding v_def c32 using pos by (simp add: mult.commute)
  have "a * 2 ^ 63 \<le> a * (d * c)" using d(1) by (intro mult_le_mono2)
  also have "\<dots> = d * 2 ^ 31" unfolding ca [symmetric] by (simp add: algebra_simps)
  finally have da: "a * 2 ^ 32 \<le> d" by simp
  then have "a * 2 ^ 32 div (2 * a) \<le> v" unfolding v by (rule div_le_mono)
  then have v31: "2 ^ 31 \<le> v" using pos by simp
  show "v < 2 ^ 32" unfolding v_def using d(2) by (intro less_mult_imp_div_less) simp
  show "0 < v" using v31 by (rule less_le_trans [rotated]) simp
  have "n div 2 < 2 ^ 63" using n by simp
  also have "\<dots> \<le> 2 ^ 32 * v" using mult_le_mono2 [OF v31, of "2 ^ 32"] by simp
  finally have "n div 2 < 2 ^ 32 * v" .
  then show "n div 2 div v < 2 ^ 32" by (rule less_mult_imp_div_less)
  define D f where "D = 2 * a * v" and "f = n div d"
  have q: "n div 2 div v div a = n div D" by (simp add: D_def div_mult2_eq [symmetric] algebra_simps)
  have e: "d = D + d mod (2 * a)" unfolding D_def v by simp
  have em: "d mod (2 * a) \<le> 2 * a - 1" using pos by (simp add: Suc_leI less_imp_le_nat [OF mod_less_divisor] flip: less_Suc_eq_le)
  have Da: "a * 2 ^ 32 \<le> D" using mult_le_mono2 [OF v31, of "2 * a"] by (simp add: D_def)
  have D0: "0 < D" using pos \<open>0 < v\<close> by (simp add: D_def)
  have "f * (a * 2 ^ 32) \<le> f * d" using da by (rule mult_le_mono2)
  also have "\<dots> \<le> n" by (simp add: f_def)
  finally have "f * a * 2 ^ 32 \<le> n" by (simp only: mult.assoc)
  also have "n < 2 ^ 32 * 2 ^ 32" using n by (simp flip: power_add)
  finally have "f * a * 2 ^ 32 < 2 ^ 32 * 2 ^ 32" .
  then have "f * a < 2 ^ 32" by (simp only: mult_less_cancel2)
  then have "f * a < 2 * c * a" using ca by (simp only: mult.assoc) simp
  then have "f < 2 * c" by (simp only: mult_less_cancel2)
  then have "f + 1 \<le> 2 * c" by simp
  then have fa: "(f + 1) * a \<le> 2 ^ 32" using mult_le_mono1 [of "f + 1" "2 * c" a] ca by simp
  have "(f + 1) * (2 * a - 1) \<le> a * 2 ^ 32"
  proof (cases "a = 1")
    case True
    then show ?thesis using fa by simp
  next
    case False
    have "(f + 1) * (2 * a - 1) \<le> 2 * ((f + 1) * a)" by (simp add: diff_mult_distrib2)
    also have "\<dots> \<le> 2 * 2 ^ 32" using fa by (rule mult_le_mono2)
    also have "\<dots> \<le> a * 2 ^ 32" using False pos by (intro mult_le_mono1) simp
    finally show ?thesis .
  qed
  then have "(f + 1) * (d mod (2 * a)) \<le> D" using mult_le_mono2 [OF em, of "f + 1"] Da by linarith
  moreover have "n < (f + 1) * d"
    unfolding f_def by (rule less_next_multiple) (use D0 e in linarith)
  moreover have "(f + 1) * d = (f + 1) * D + (f + 1) * (d mod (2 * a))" using e by (metis add_mult_distrib2)
  ultimately have "n < (f + 2) * D" by simp
  then have "n div D < f + 2" by (rule less_mult_imp_div_less)
  moreover have "f \<le> n div D" unfolding f_def using e D0 by (intro div_le_mono2) auto
  ultimately show "n div 2 div v div a = n div d \<or> n div 2 div v div a = n div d + 1" unfolding q f_def by linarith
qed

lemma correction:
  fixes n d q :: u64
  assumes d: "0 < unat d" "unat d \<le> unat n" and q: "unat q = unat n div unat d \<or> unat q = unat n div unat d + 1"
  shows "unat (if n - (q - 1) * d < d then q - 1 else q) = unat n div unat d"
proof -
  let ?f = "unat n div unat d"
  have f1: "1 \<le> ?f" using d by (simp add: Suc_leI div_greater_zero_iff)
  have fd: "?f * unat d \<le> unat n" by simp
  have q1: "unat (q - 1) = unat q - 1" using q f1 by (intro unat_minus_one) auto
  have b: "unat (q - 1) * unat d \<le> unat n"
  proof -
    have "unat (q - 1) \<le> ?f" using q q1 by auto
    then show ?thesis using mult_le_mono1 fd le_trans by blast
  qed
  have m: "unat ((q - 1) * d) = unat (q - 1) * unat d"
    using b unsigned_less [of n, where ?'a = nat] by (intro unat_mult_lem [THEN iffD1]) simp
  have s: "unat (n - (q - 1) * d) = unat n - unat (q - 1) * unat d" using b m by (simp add: unat_sub word_le_nat_alt)
  have c: "n - (q - 1) * d < d \<longleftrightarrow> unat n < unat q * unat d"
  proof -
    have "unat q * unat d = unat (q - 1) * unat d + unat d" using q1 q f1 by (cases "unat q") auto
    then show ?thesis unfolding word_less_nat_alt s using b by linarith
  qed
  show ?thesis
  proof (cases "unat q = ?f")
    case True
    then have "\<not> unat n < unat q * unat d" by (simp only: not_less div_times_less_eq_dividend)
    then show ?thesis using c True by simp
  next
    case False
    then have u: "unat q = ?f + 1" using q by simp
    have "unat n < (?f + 1) * unat d" by (rule less_next_multiple [OF d(1)])
    then have "unat n < unat q * unat d" using u by simp
    then show ?thesis using c u q1 by simp
  qed
qed


lemma unat_drop_bit_div: "unat (drop_bit k n) = unat n div 2 ^ k"
  unfolding unat_drop_bit_eq by (rule drop_bit_eq_div)

lemma u64_parts:
  fixes n :: u64
  shows "unat (ucast (drop_bit 32 n) :: u32) = unat n div 2 ^ 32" "unat (ucast n :: u32) = unat n mod 2 ^ 32" "unat n < 2 ^ 64" "unat n div 2 ^ 32 < 2 ^ 32"
proof -
  show n: "unat n < 2 ^ 64" using unsigned_less [of n, where ?'a = nat] by simp
  then show b: "unat n div 2 ^ 32 < 2 ^ 32" by (intro less_mult_imp_div_less) simp
  have "unat (drop_bit 32 n) = unat n div 2 ^ 32" by (rule unat_drop_bit_div)
  then show "unat (ucast (drop_bit 32 n) :: u32) = unat n div 2 ^ 32" using b by (simp add: unsigned_ucast_eq take_bit_nat_eq_self)
  show "unat (ucast n :: u32) = unat n mod 2 ^ 32" by (simp add: unsigned_ucast_eq take_bit_eq_mod)
qed

lemma unat_ucast_up: "unat (ucast (x :: u32) :: u64) = unat x"
  using unat_u32_less [of x] by (simp add: unsigned_ucast_eq take_bit_nat_eq_self)

lemma unat_u64_mult: "unat x * unat y < 2 ^ 64 \<Longrightarrow> unat (x * y :: u64) = unat x * unat y"
  by (intro unat_mult_lem [THEN iffD1]) simp

lemma unat_u64_add: "unat x + unat y < 2 ^ 64 \<Longrightarrow> unat (x + y :: u64) = unat x + unat y"
  by (intro unat_add_lem [THEN iffD1]) simp

lemma nat_div_split:
  fixes n d b :: nat
  assumes "0 < d"
  shows "n div d = (b * (n div b mod d) + n mod b) div d + b * (n div b div d)"
proof -
  have "n = b * (n div b mod d) + n mod b + d * (b * (n div b div d))"
    by (metis add.assoc add.commute div_mult_mod_eq mult.assoc mult.commute distrib_left)
  then have "n div d = (b * (n div b mod d) + n mod b + d * (b * (n div b div d))) div d" by simp
  then show ?thesis using assms by simp
qed

lemma udiv64_small:
  assumes z: "drop_bit 32 d = 0" and d: "d \<noteq> 0"
  shows "\<exists>q. udiv64 n d = Inr q \<and> unat q = unat n div unat d"
proof -
  let ?b = "2 ^ 32 :: nat" let ?n1 = "unat n div ?b" and ?n0 = "unat n mod ?b" and ?d = "unat d"
  have "?d div ?b = 0" unfolding unat_drop_bit_div [symmetric] z by (rule unsigned_0)
  then have db: "?d < ?b" by (simp only: div_eq_0_iff) simp
  have d0: "unat (ucast d :: u32) = ?d" using u64_parts(2) [of d] db by simp
  have dpos: "0 < ?d" using d by (simp add: unat_gt_0)
  then have dne: "(ucast d :: u32) \<noteq> 0" using d0 by (metis less_numeral_extra(3) unsigned_0)
  let ?x = "push_bit 32 1 * ucast ((ucast (drop_bit 32 n) :: u32) mod ucast d) + ucast (ucast n :: u32) :: u64"
  have pb: "unat (push_bit 32 (1 :: u64)) = ?b" by simp
  have m: "unat (ucast ((ucast (drop_bit 32 n) :: u32) mod ucast d) :: u64) = ?n1 mod ?d" by (simp only: unat_ucast_up unat_mod u64_parts(1) d0)
  have n0: "unat (ucast (ucast n :: u32) :: u64) = ?n0" by (simp only: unat_ucast_up u64_parts(2))
  have lt: "?b * (?n1 mod ?d) + ?n0 < ?b * ?d"
  proof -
    have "?n1 mod ?d + 1 \<le> ?d" using mod_less_divisor [OF dpos] by (simp add: Suc_leI)
    then have "?b * (?n1 mod ?d + 1) \<le> ?b * ?d" by (rule mult_le_mono2)
    moreover have "?n0 < ?b" by simp
    ultimately show ?thesis unfolding distrib_left mult_1_right by linarith
  qed
  have bd: "?b * ?d \<le> 2 ^ 64" using mult_le_mono2 [OF less_imp_le [OF db], of ?b] by simp
  have x: "unat ?x = ?b * (?n1 mod ?d) + ?n0"
  proof -
    have "unat (push_bit 32 1 * ucast ((ucast (drop_bit 32 n) :: u32) mod ucast d) :: u64) = ?b * (?n1 mod ?d)"
      using le_less_trans [OF le_add1 less_le_trans [OF lt bd]] by (subst unat_u64_mult) (simp_all only: m pb)
    then show ?thesis using less_le_trans [OF lt bd] by (subst unat_u64_add) (simp_all only: n0)
  qed
  have qb: "unat ?x div ?d < ?b" unfolding x using lt by (intro less_mult_imp_div_less) (simp only: mult.commute)
  then have dv: "divl ?x (ucast d) = Inr (of_nat (unat ?x div ?d))" using dpos by (simp add: divl_def d0)
  let ?q = "ucast (of_nat (unat ?x div ?d) :: u32) + push_bit 32 1 * ucast ((ucast (drop_bit 32 n) :: u32) div ucast d) :: u64"
  have "udiv64 n d = Inr ?q" using z dne dv by (simp add: udiv64_def Let_def)
  moreover have "unat ?q = unat n div ?d"
  proof -
    have s: "unat n div ?d = unat ?x div ?d + ?b * (?n1 div ?d)" unfolding x by (rule nat_div_split [OF dpos])
    have nb: "unat n div ?d < 2 ^ 64" using u64_parts(3) [of n] div_le_dividend [of "unat n" ?d] by linarith
    have a: "unat (ucast (of_nat (unat ?x div ?d) :: u32) :: u64) = unat ?x div ?d" using qb by (simp only: unat_ucast_up unat_of_nat_u32)
    have b: "unat (ucast ((ucast (drop_bit 32 n) :: u32) div ucast d) :: u64) = ?n1 div ?d" by (simp only: unat_ucast_up unat_div u64_parts(1) d0)
    have c: "unat (push_bit 32 1 * ucast ((ucast (drop_bit 32 n) :: u32) div ucast d) :: u64) = ?b * (?n1 div ?d)"
      using le_less_trans [OF le_add2 nb [unfolded s]] by (subst unat_u64_mult) (simp_all only: b pb)
    show ?thesis using nb by (subst unat_u64_add) (simp_all only: a c s)
  qed
  ultimately show ?thesis by blast
qed


lemma udiv64_large:
  assumes h: "drop_bit 32 d \<noteq> 0" and le: "d \<le> n"
  shows "\<exists>q. udiv64 n d = Inr q \<and> unat q = unat n div unat d"
proof -
  let ?d1 = "ucast (drop_bit 32 d) :: u32" let ?s = "nlz ?d1" let ?c = "2 ^ ?s :: nat" and ?a = "2 ^ (31 - ?s) :: nat"
  have d1u: "unat ?d1 = unat d div 2 ^ 32" by (rule u64_parts(1))
  have d1: "?d1 \<noteq> 0"
  proof
    assume "?d1 = 0"
    then have "unat (drop_bit 32 d) = 0" using d1u by (simp only: unat_drop_bit_div unsigned_0)
    then show False using h by (simp only: unat_eq_zero)
  qed
  note s = nlz_normalises [OF d1]
  have ca: "?c * ?a = 2 ^ 31" using s(1) by (simp flip: power_add)
  have lo: "2 ^ 63 \<le> unat d * ?c"
  proof -
    have "2 ^ 31 * 2 ^ 32 \<le> unat ?d1 * ?c * 2 ^ 32" using s(2) by (rule mult_le_mono1)
    also have "\<dots> = unat d div 2 ^ 32 * 2 ^ 32 * ?c" unfolding d1u by (simp only: mult_ac)
    also have "\<dots> \<le> unat d * ?c" by (intro mult_le_mono1 div_times_less_eq_dividend)
    finally show ?thesis by simp
  qed
  have hi: "unat d * ?c < 2 ^ 64"
  proof -
    have "unat d < (unat ?d1 + 1) * 2 ^ 32" unfolding d1u by (rule less_next_multiple) simp
    then have "unat d * ?c < (unat ?d1 + 1) * 2 ^ 32 * ?c" by simp
    also have "\<dots> = (unat ?d1 * ?c + ?c) * 2 ^ 32" by (simp add: algebra_simps)
    also have "\<dots> \<le> 2 ^ 32 * 2 ^ 32"
    proof (rule mult_le_mono1)
      have "unat ?d1 < 2 * ?a" 
      proof -
        have "2 * ?a * ?c = 2 ^ 32" using ca by (simp add: mult.commute)
        then have "unat ?d1 * ?c < 2 * ?a * ?c" using s(3) by (simp only:)
        then show ?thesis by (simp only: mult_less_cancel2)
      qed
      then have "(unat ?d1 + 1) * ?c \<le> 2 * ?a * ?c" by (intro mult_le_mono1) simp
      moreover have "2 * ?a * ?c = 2 ^ 32" using ca by (simp add: mult.commute)
      ultimately show "unat ?d1 * ?c + ?c \<le> 2 ^ 32" by (simp only: distrib_right mult_1_left)
    qed
    finally show ?thesis by simp
  qed
  note e = quotient_estimate [OF ca lo hi u64_parts(3) [of n]]
  let ?v = "ucast (drop_bit 32 (push_bit ?s d)) :: u32"
  have "unat (push_bit ?s d) = unat d * ?c" by (rule unat_push_bit_less) (use hi in simp)
  then have v: "unat ?v = unat d * ?c div 2 ^ 32" by (simp only: u64_parts(1))
  have h: "unat (drop_bit 1 n) = unat n div 2" by (simp only: unat_drop_bit_div power_one_right)
  let ?q1 = "of_nat (unat n div 2 div unat ?v) :: u32" let ?q = "ucast (drop_bit (31 - ?s) ?q1) :: u64"
  have "unat n div 2 div unat ?v < 2 ^ 32" "unat ?v \<noteq> 0" using e(2,3) by (simp_all only: v neq0_conv)
  then have dv: "divl (drop_bit 1 n) ?v = Inr ?q1" by (simp only: divl_def h not_le [symmetric] simp_thms if_False)
  have "unat ?q = unat n div 2 div unat ?v div ?a" using e(2) by (simp only: unat_ucast_up unat_drop_bit_div unat_of_nat_u32 v)
  then have q: "unat ?q = unat n div unat d \<or> unat ?q = unat n div unat d + 1" using e(4) by (simp only: v)
  have "0 < unat d" using assms(1) by (auto simp: unat_gt_0)
  from correction [OF this _ q] le have "unat (if n - (?q - 1) * d < d then ?q - 1 else ?q) = unat n div unat d" by (simp only: word_le_nat_alt)
  moreover have "udiv64 n d = Inr (if n - (?q - 1) * d < d then ?q - 1 else ?q)"
    unfolding udiv64_def Let_def dv using assms by (simp add: not_less)
  ultimately show ?thesis by blast
qed

lemma udiv64_correct:
  assumes "d \<noteq> 0"
  shows "udiv64 n d = Inr (n div d)"
proof -
  have "\<exists>q. udiv64 n d = Inr q \<and> unat q = unat n div unat d"
  proof (cases "drop_bit 32 d = 0")
    case True
    then show ?thesis using udiv64_small assms by blast
  next
    case False
    then show ?thesis
    proof (cases "n < d")
      case True
      then show ?thesis using False by (simp add: udiv64_def word_less_nat_alt)
    next
      case ge: False
      then show ?thesis using udiv64_large [OF False] by (simp only: not_less)
    qed
  qed
  then show ?thesis by (metis unat_div word_unat_eq_iff)
qed

lemma umod64_correct: "d \<noteq> 0 \<Longrightarrow> umod64 n d = Inr (ucast (n mod d))"
  by (simp add: umod64_def udiv64_correct minus_mult_div_eq_mod)


subsection \<open>Signed division\<close>

lemma centre:
  fixes k M :: int
  assumes "0 \<le> k" "k < 2 * M"
  shows "(k + M) mod (2 * M) - M = (if k < M then k else k - 2 * M)"
proof (cases "k < M")
  case True
  then show ?thesis using assms by simp
next
  case False
  have "(k + M) mod (2 * M) = (k - M + 2 * M) mod (2 * M)" by (simp add: algebra_simps)
  also have "\<dots> = (k - M) mod (2 * M)" by (rule mod_add_self2)
  also have "\<dots> = k - M" using False assms by (intro mod_pos_pos_trivial) simp_all
  finally show ?thesis using False by simp
qed

lemma sint_u64: "sint (x :: u64) = (if uint x < 2 ^ 63 then uint x else uint x - 2 ^ 64)"
proof -
  have "sint x = take_bit 64 (uint x + 2 ^ 63) - 2 ^ 63" by (simp add: sint_uint signed_take_bit_eq_take_bit_shift)
  also have "\<dots> = (uint x + 2 ^ 63) mod (2 * 2 ^ 63) - 2 ^ 63" by (simp add: take_bit_eq_mod)
  also have "\<dots> = (if uint x < 2 ^ 63 then uint x else uint x - 2 * 2 ^ 63)"
    by (rule centre) (use unsigned_less [of x, where ?'a = int] in simp_all)
  finally show ?thesis by simp
qed

lemma sint_word_of_int: "- (2 ^ 63) \<le> k \<Longrightarrow> k < 2 ^ 63 \<Longrightarrow> sint (word_of_int k :: u64) = k"
  by (simp add: sint_sbintrunc' signed_take_bit_int_eq_self)

lemma uint_abs64: "uint (if 0 \<le> sint n then n else - n :: u64) = \<bar>sint n\<bar>"
proof (cases "uint n < 2 ^ 63")
  case True
  then show ?thesis by (simp add: sint_u64)
next
  case False
  then have n: "n \<noteq> 0" by auto
  have "uint (- n) = 2 ^ 64 - uint n"
  proof -
    have "uint (- n) = - uint n mod 2 ^ 64" by (simp add: uint_word_ariths(4))
    also have "\<dots> = (2 ^ 64 - uint n) mod 2 ^ 64" by (metis add.commute mod_add_self1 uminus_add_conv_diff)
    also have "\<dots> = 2 ^ 64 - uint n" using unsigned_less [of n, where ?'a = int] False by (intro mod_pos_pos_trivial) simp_all
    finally show ?thesis .
  qed
  then show ?thesis using False unsigned_less [of n, where ?'a = int] by (auto simp: sint_u64)
qed

lemma sint64_bounds: "- (2 ^ 63) \<le> sint (n :: u64)" "sint n < 2 ^ 63"
  using unsigned_less [of n, where ?'a = int] unsigned_greater_eq [of n, where ?'a = int]
  by (auto simp: sint_u64 intro: order_trans [of _ "0 :: int"])

lemma sdiv64_correct:
  assumes d: "d \<noteq> 0" and o: "\<not> (sint n = - (2 ^ 63) \<and> sint d = - 1)"
  shows "\<exists>q. sdiv64 n d = Inr q \<and> sint q = sint n sdiv sint d"
proof -
  let ?na = "if 0 \<le> sint n then n else - n" and ?da = "if 0 \<le> sint d then d else - d" let ?Q = "\<bar>sint n\<bar> div \<bar>sint d\<bar>"
  have s0: "sint d \<noteq> 0" using d by (simp add: signed_eq_0_iff)
  have u: "uint (?na div ?da) = ?Q" by (simp only: uint_div uint_abs64)
  have q: "?na div ?da = word_of_int ?Q" using u by (metis word_of_int_uint)
  have da: "?da \<noteq> 0" using d by auto
  have Q0: "0 \<le> ?Q" using s0 by (simp add: pos_imp_zdiv_nonneg_iff)
  have Qn: "?Q \<le> \<bar>sint n\<bar>" using zdiv_mono2 [of "\<bar>sint n\<bar>" 1 "\<bar>sint d\<bar>"] s0 by simp
  have "sdiv64 n d = Inr (if (sint n < 0) = (sint d < 0) then word_of_int ?Q else word_of_int (- ?Q))"
    by (simp add: sdiv64_def udiv64_correct [OF da] q)
  moreover have "sint (if (sint n < 0) = (sint d < 0) then word_of_int ?Q else word_of_int (- ?Q) :: u64) = sint n sdiv sint d"
  proof (cases "(sint n < 0) = (sint d < 0)")
    case True
    have "?Q < 2 ^ 63"
    proof (cases "sint n = - (2 ^ 63)")
      case m: True
      then have "1 < \<bar>sint d\<bar>" using o s0 True by auto
      then have "?Q < \<bar>sint n\<bar>" using m by (intro int_div_less_self) auto
      then show ?thesis using m by simp
    next
      case False
      then show ?thesis using Qn sint64_bounds [of n] by linarith
    qed
    then have "sint (word_of_int ?Q :: u64) = ?Q" using Q0 by (intro sint_word_of_int) auto
    moreover have "sint n sdiv sint d = ?Q" using True s0 by (auto simp: signed_divide_int_def sgn_if)
    ultimately show ?thesis using True by simp
  next
    case False
    have "sint (word_of_int (- ?Q) :: u64) = - ?Q" using Q0 Qn sint64_bounds [of n] by (intro sint_word_of_int) linarith+
    moreover have "sint n sdiv sint d = - ?Q" using False s0 by (auto simp: signed_divide_int_def sgn_if)
    ultimately show ?thesis using False by simp
  qed
  ultimately show ?thesis by blast
qed

lemma narrow_widen: "x < 2 ^ 32 \<Longrightarrow> ucast (ucast (x :: u64) :: u32) = x"
proof -
  assume "x < 2 ^ 32"
  then have "take_bit 32 (unat x) = unat x" by (intro take_bit_nat_eq_self) (simp add: word_less_nat_alt)
  then have "take_bit 32 x = x" by (metis unsigned_take_bit_eq unsigned_word_eqI)
  then have "bit x i \<Longrightarrow> i < 32" for i by (metis bit_take_bit_iff)
  then show ?thesis by (intro bit_word_eqI) (auto simp: bit_simps)
qed

lemma smod64_correct:
  assumes d: "d \<noteq> 0" and o: "\<not> (sint n = - (2 ^ 63) \<and> sint d = - 1)"
  shows "smod64 n d = Inr (word_of_int (sint n smod sint d))"
proof -
  obtain q where q: "sdiv64 n d = Inr q" "sint q = sint n sdiv sint d" using sdiv64_correct [OF assms] by blast
  have "n - d * q = word_of_int (sint n) - word_of_int (sint d) * word_of_int (sint q)" by simp
  also have "\<dots> = word_of_int (sint n - sint d * sint q)" by (simp only: wi_homs)
  also have "sint n - sint d * sint q = sint n smod sint d" using mult_sdiv_smod_eq [of "sint d" "sint n"] unfolding q(2) by linarith
  finally have "ucast (n - d * q) = (word_of_int (sint n smod sint d) :: u32)" by (simp only:) (intro bit_word_eqI, simp add: bit_simps)
  then show ?thesis by (simp add: smod64_def q(1))
qed

lemma scast_sint:
  assumes "- (2 ^ 31) \<le> r" "r < 2 ^ 31"
  shows "sint (scast (word_of_int r :: u32) :: u64) = r"
proof -
  have "sint (word_of_int r :: u32) = r" using assms by (simp add: signed_of_int signed_take_bit_int_eq_self)
  then show ?thesis using assms by (simp add: scast_eq signed_of_int signed_take_bit_int_eq_self)
qed

end
