(* ===== verification/Stdlib.thy ===== *)
theory Stdlib
  imports Kstring "HOL-Library.Multiset"
begin

text \<open>
  Sorting, searching and number parsing (src/pintos2/src/lib/stdlib.c, lib/ctype.h).

  \<^item> An array is its bytes; an element is \<open>n\<close> bytes of it, and \<open>compare\<close> is a function of two elements.
    \<^verbatim>\<open>aux\<close>, which is only handed on, is part of \<open>compare\<close>, so \<^verbatim>\<open>qsort\<close> is \<open>sort\<close> and \<^verbatim>\<open>bsearch\<close> is
    \<open>binary_search\<close>. Touching bytes outside the array is \<open>Undefined\<close>.
  \<^item> Indices are \<^verbatim>\<open>size_t\<close>: \<open>2 * i\<close> is taken modulo \<open>2 ^ 32\<close>, as the code computes it.
  \<^item> \<open>heapify\<close> has a turn of fuel for each level of the heap; \<open>cnt + 1\<close> turns are always enough.
\<close>

subsection \<open>Characters and numbers\<close>

definition isdigit :: "u8 \<Rightarrow> bool" where
  "isdigit c \<longleftrightarrow> 48 \<le> c \<and> c \<le> 57"

definition isspace :: "u8 \<Rightarrow> bool" where
  "isspace c \<longleftrightarrow> c = 32 \<or> c = 12 \<or> c = 10 \<or> c = 13 \<or> c = 9 \<or> c = 11"

fun atoi_skip :: "nat \<Rightarrow> u32 \<Rightarrow> mem \<Rightarrow> u32 res" where
  "atoi_skip 0 s m = Inl Diverged"
| "atoi_skip (Suc fuel) s m = (if isspace (m s) then atoi_skip fuel (s + 1) m else Inr s)"

fun atoi_digits :: "nat \<Rightarrow> u32 \<Rightarrow> int \<Rightarrow> mem \<Rightarrow> int res" where
  "atoi_digits 0 s v m = Inl Diverged"
| "atoi_digits (Suc fuel) s v m =
     (if isdigit (m s)
      then (let v' = v * 10 - (int (unat (m s)) - 48)
            in kdefined (- (2 ^ 31) \<le> v * 10 \<and> - (2 ^ 31) \<le> v') (atoi_digits fuel (s + 1) v' m))
      else Inr v)"

definition atoi :: "nat \<Rightarrow> u32 \<Rightarrow> mem \<Rightarrow> int res" where
  "atoi fuel s m =
     kassert (s \<noteq> 0)
      (rbind (atoi_skip fuel s m) (\<lambda>s1.
         let negative = (m s1 = 45); s2 = (if m s1 = 43 \<or> m s1 = 45 then s1 + 1 else s1)
         in rbind (atoi_digits fuel s2 0 m) (\<lambda>value.
              if \<not> negative then kdefined (- value < 2 ^ 31) (Inr (- value)) else Inr value)))"

subsection \<open>Arrays\<close>

type_synonym cmp = "u8 list \<Rightarrow> u8 list \<Rightarrow> int"

fun do_swap_loop :: "nat \<Rightarrow> nat \<Rightarrow> nat \<Rightarrow> nat \<Rightarrow> u8 list \<Rightarrow> u8 list" where
  "do_swap_loop 0 a b i array = array"
| "do_swap_loop (Suc n) a b i array =
     (let t = array ! (a + i)
      in do_swap_loop n a b (i + 1) ((array[a + i := array ! (b + i)])[b + i := t]))"

definition do_swap :: "u8 list \<Rightarrow> nat \<Rightarrow> nat \<Rightarrow> nat \<Rightarrow> u8 list res" where
  "do_swap array a_idx b_idx n =
     kdefined (1 \<le> a_idx \<and> a_idx * n \<le> length array \<and> 1 \<le> b_idx \<and> b_idx * n \<le> length array)
      (Inr (do_swap_loop n ((a_idx - 1) * n) ((b_idx - 1) * n) 0 array))"

definition element :: "nat \<Rightarrow> u8 list \<Rightarrow> nat \<Rightarrow> u8 list" where
  "element n array i = take n (drop ((i - 1) * n) array)"

definition do_compare :: "u8 list \<Rightarrow> nat \<Rightarrow> nat \<Rightarrow> nat \<Rightarrow> cmp \<Rightarrow> int res" where
  "do_compare array a_idx b_idx n compare =
     kdefined (1 \<le> a_idx \<and> a_idx * n \<le> length array \<and> 1 \<le> b_idx \<and> b_idx * n \<le> length array)
      (Inr (compare (element n array a_idx) (element n array b_idx)))"

fun heapify :: "nat \<Rightarrow> u8 list \<Rightarrow> nat \<Rightarrow> nat \<Rightarrow> nat \<Rightarrow> cmp \<Rightarrow> u8 list res" where
  "heapify 0 array i cnt n compare = Inl Diverged"
| "heapify (Suc fuel) array i cnt n compare =
     (let left = sz (2 * i); right = sz (2 * i + 1)
      in rbind (if left \<le> cnt
                then rbind (do_compare array left i n compare) (\<lambda>c. Inr (if c > 0 then left else i)) else Inr i) (\<lambda>max1.
         rbind (if right \<le> cnt
                then rbind (do_compare array right max1 n compare) (\<lambda>c. Inr (if c > 0 then right else max1)) else Inr max1) (\<lambda>max.
           if max = i then Inr array
           else rbind (do_swap array i max n) (\<lambda>array'. heapify fuel array' max cnt n compare))))"

fun build_heap :: "nat \<Rightarrow> u8 list \<Rightarrow> nat \<Rightarrow> nat \<Rightarrow> nat \<Rightarrow> cmp \<Rightarrow> u8 list res" where
  "build_heap fuel array 0 cnt n compare = Inr array"
| "build_heap fuel array (Suc i) cnt n compare =
     rbind (heapify fuel array (Suc i) cnt n compare) (\<lambda>array'. build_heap fuel array' i cnt n compare)"

fun sort_heap :: "nat \<Rightarrow> u8 list \<Rightarrow> nat \<Rightarrow> nat \<Rightarrow> cmp \<Rightarrow> u8 list res" where
  "sort_heap fuel array 0 n compare = Inr array"
| "sort_heap fuel array (Suc i) n compare =
     (if i = 0 then Inr array
      else rbind (do_swap array 1 (Suc i) n) (\<lambda>array1.
           rbind (heapify fuel array1 1 i n compare) (\<lambda>array2. sort_heap fuel array2 i n compare)))"

definition sort_array :: "nat \<Rightarrow> u8 list \<Rightarrow> nat \<Rightarrow> nat \<Rightarrow> cmp \<Rightarrow> u8 list res" where
  "sort_array fuel array cnt n compare =
     kassert (n > 0)
      (rbind (build_heap fuel array (cnt div 2) cnt n compare) (\<lambda>array'. sort_heap fuel array' cnt n compare))"

definition qsort :: "nat \<Rightarrow> u8 list \<Rightarrow> nat \<Rightarrow> nat \<Rightarrow> cmp \<Rightarrow> u8 list res" where
  "qsort fuel array cnt n compare = sort_array fuel array cnt n compare"

text \<open>\<^verbatim>\<open>binary_search\<close> works with the offsets of \<^verbatim>\<open>first\<close> and \<^verbatim>\<open>last\<close> in the array; a match is an offset.\<close>

function (sequential) binary_search_loop :: "u8 list \<Rightarrow> u8 list \<Rightarrow> nat \<Rightarrow> nat \<Rightarrow> nat \<Rightarrow> cmp \<Rightarrow> nat option res" where
  "binary_search_loop key array first lst n compare =
     (if first < lst then
        kdefined (0 < n)
         (let range = (lst - first) div n; middle = first + range div 2 * n
          in kdefined (middle + n \<le> length array)
              (let c = compare key (take n (drop middle array))
               in if c < 0 then binary_search_loop key array first middle n compare
                  else if c > 0 then binary_search_loop key array (middle + n) lst n compare
                  else Inr (Some middle)))
      else Inr None)"
  by pat_completeness auto
termination
proof (relation "measure (\<lambda>(key, array, first, lst, n, compare). lst - first)")
  fix first lst n range middle :: nat
  assume "first < lst" "range = (lst - first) div n" "middle = first + range div 2 * n"
  moreover have "(lst - first) div n div 2 * n \<le> (lst - first) div 2"
    by (metis div_mult2_eq div_times_less_eq_dividend mult.commute)
  moreover have "(lst - first) div 2 < lst - first" using \<open>first < lst\<close> by simp
  ultimately have "middle < lst" by simp
  then show "((key, array, first, middle, n, compare), key, array, first, lst, n, compare) \<in> measure (\<lambda>(key, array, first, lst, n, compare). lst - first)"
    for key array :: "u8 list" and compare :: cmp using \<open>first < lst\<close> by simp
qed auto

declare binary_search_loop.simps [simp del]

definition binary_search :: "u8 list \<Rightarrow> u8 list \<Rightarrow> nat \<Rightarrow> nat \<Rightarrow> cmp \<Rightarrow> nat option res" where
  "binary_search key array cnt n compare = binary_search_loop key array 0 (n * cnt) n compare"

definition bsearch :: "u8 list \<Rightarrow> u8 list \<Rightarrow> nat \<Rightarrow> nat \<Rightarrow> cmp \<Rightarrow> nat option res" where
  "bsearch key array cnt n compare = binary_search key array cnt n compare"


subsection \<open>Swapping elements\<close>

lemma length_do_swap_loop [simp]: "length (do_swap_loop n a b i A) = length A"
  by (induction n arbitrary: i A) (auto simp: Let_def)

definition exchange :: "nat \<Rightarrow> nat \<Rightarrow> nat \<Rightarrow> nat" where
  "exchange p q k = (if k = p then q else if k = q then p else k)"

definition across :: "nat \<Rightarrow> nat \<Rightarrow> nat \<Rightarrow> nat \<Rightarrow> nat \<Rightarrow> nat" where
  "across a b i w k = (if a + i \<le> k \<and> k < a + w then b + (k - a) else if b + i \<le> k \<and> k < b + w then a + (k - b) else k)"

lemma across_step:
  assumes "a + w \<le> b \<or> b + w \<le> a \<or> a = b" "i < w"
  shows "exchange (a + i) (b + i) (across a b (i + 1) w k) = across a b i w k"
proof (cases "k = a + i \<or> k = b + i")
  case True
  then have "across a b (i + 1) w k = k" using assms by (auto simp: across_def)
  moreover have "across a b i w k = (if k = a + i then b + i else a + i)" using True assms by (auto simp: across_def)
  ultimately show ?thesis using True by (auto simp: exchange_def)
next
  case False
  then have e: "across a b (i + 1) w k = across a b i w k" by (auto simp: across_def)
  have "across a b i w k \<noteq> a + i \<and> across a b i w k \<noteq> b + i"
  proof (cases "a + i \<le> k \<and> k < a + w")
    case True
    then show ?thesis using False assms by (simp add: across_def) linarith
  next
    case na: False
    then show ?thesis
    proof (cases "b + i \<le> k \<and> k < b + w")
      case True
      then have "across a b i w k = a + (k - b)" using na by (auto simp: across_def)
      then show ?thesis using False True assms by linarith
    next
      case nb: False
      then have "across a b i w k = k" using na by (auto simp: across_def)
      then show ?thesis using False by simp
    qed
  qed
  then show ?thesis using e by (simp add: exchange_def)
qed

lemma do_swap_loop_nth:
  assumes "a + w \<le> b \<or> b + w \<le> a \<or> a = b" "i + n = w" "a + w \<le> length A" "b + w \<le> length A" "k < length A"
  shows "do_swap_loop n a b i A ! k = A ! across a b i w k"
  using assms(2-)
proof (induction n arbitrary: i A)
  case (Suc n)
  let ?A = "(A[a + i := A ! (b + i)])[b + i := A ! (a + i)]"
  have "?A ! x = A ! exchange (a + i) (b + i) x" if "x < length A" for x
    using that Suc.prems by (auto simp: nth_list_update exchange_def)
  moreover have "do_swap_loop n a b (i + 1) ?A ! k = ?A ! across a b (i + 1) w k" by (rule Suc.IH) (use Suc.prems in auto)
  moreover have "across a b (i + 1) w k < length A" using Suc.prems by (auto simp: across_def)
  moreover have "exchange (a + i) (b + i) (across a b (i + 1) w k) = across a b i w k" by (rule across_step [OF assms(1)]) (use Suc.prems in simp)
  ultimately show ?case by (simp add: Let_def)
qed (auto simp: across_def)

lemma element_nth: "k * n \<le> length A \<Longrightarrow> 1 \<le> k \<Longrightarrow> j < n \<Longrightarrow> element n A k ! j = A ! ((k - 1) * n + j)"
  by (cases k) (auto simp: element_def)

lemma length_element: "k * n \<le> length A \<Longrightarrow> 1 \<le> k \<Longrightarrow> length (element n A k) = n"
  by (cases k) (auto simp: element_def)

lemma block_apart: "p \<noteq> q \<Longrightarrow> p * n + n \<le> q * n \<or> q * n + n \<le> p * (n :: nat)"
proof -
  assume "p \<noteq> q"
  then have "Suc p \<le> q \<or> Suc q \<le> p" by linarith
  then show ?thesis using mult_le_mono1 [of "Suc p" q n] mult_le_mono1 [of "Suc q" p n] by auto
qed

lemma in_block: "j < n \<Longrightarrow> p * n \<le> k * n + j \<and> k * n + j < p * n + n \<longleftrightarrow> k = (p :: nat)"
  using block_apart [of k p n] by (cases "k = p") auto

lemma do_swap_element:
  assumes p: "1 \<le> p" "p * n \<le> length A" and q: "1 \<le> q" "q * n \<le> length A"
  obtains A' where "do_swap A p q n = Inr A'" "length A' = length A"
    "\<And>k. 1 \<le> k \<Longrightarrow> k * n \<le> length A \<Longrightarrow> element n A' k = element n A (if k = p then q else if k = q then p else k)"
proof -
  let ?a = "(p - 1) * n" and ?b = "(q - 1) * n"
  let ?A = "do_swap_loop n ?a ?b 0 A"
  have pn: "?a + n = p * n" "?b + n = q * n" using p(1) q(1) by (simp_all add: mult_eq_if)
  have ap: "?a + n \<le> ?b \<or> ?b + n \<le> ?a \<or> ?a = ?b" using block_apart [of "p - 1" "q - 1" n] by fastforce
  have "element n ?A k = element n A (if k = p then q else if k = q then p else k)" if k: "1 \<le> k" "k * n \<le> length A" for k
  proof (rule nth_equalityI)
    let ?k = "if k = p then q else if k = q then p else k"
    have k': "1 \<le> ?k" "?k * n \<le> length A" using p q k by auto
    show "length (element n ?A k) = length (element n A ?k)" using k k' by (simp add: length_element)
    fix j assume "j < length (element n ?A k)"
    then have j: "j < n" using k by (simp add: length_element)
    let ?c = "(k - 1) * n"
    have kn: "?c + n = k * n" using k(1) by (simp add: mult_eq_if)
    have "element n ?A k ! j = ?A ! (?c + j)" using k j by (simp add: element_nth)
    also have "\<dots> = A ! across ?a ?b 0 n (?c + j)" by (rule do_swap_loop_nth [OF ap]) (use p q k j pn kn in auto)
    also have "across ?a ?b 0 n (?c + j) = (?k - 1) * n + j"
      using in_block [OF j, of "p - 1" "k - 1"] in_block [OF j, of "q - 1" "k - 1"] k(1) p(1) q(1) by (auto simp: eq_diff_iff across_def)
    finally show "element n ?A k ! j = element n A ?k ! j" using k' j by (simp add: element_nth)
  qed
  then show ?thesis using that [of ?A] p q by (simp add: do_swap_def)
qed


subsection \<open>Heaps\<close>

definition total_preorder :: "cmp \<Rightarrow> bool" where
  "total_preorder compare \<longleftrightarrow> (\<forall>x y. compare x y > 0 \<longrightarrow> compare y x \<le> 0) \<and>
     (\<forall>x y z. compare x y \<le> 0 \<longrightarrow> compare y z \<le> 0 \<longrightarrow> compare x z \<le> 0)"

lemma total_preorderD:
  assumes "total_preorder compare"
  shows "compare x y > 0 \<Longrightarrow> compare y x \<le> 0" "compare x y \<le> 0 \<Longrightarrow> compare y z \<le> 0 \<Longrightarrow> compare x z \<le> 0" "compare x x \<le> 0"
  using assms unfolding total_preorder_def by (blast, blast, metis linorder_not_le order.asym)

definition contents :: "nat \<Rightarrow> u8 list \<Rightarrow> nat \<Rightarrow> u8 list list" where
  "contents n A cnt = map (element n A) [1..<cnt + 1]"

lemma exchange_mset:
  assumes "p \<in> set xs" "q \<in> set xs" "distinct xs"
  shows "mset (map (exchange p q) xs) = mset xs"
proof -
  have "inj (exchange p q)" by (auto simp: inj_def exchange_def split: if_splits)
  then have "distinct (map (exchange p q) xs)" using assms(3) by (auto simp: distinct_map intro: inj_on_subset)
  moreover have "set (map (exchange p q) xs) = set xs" using assms(1,2) by (auto simp: exchange_def image_iff)
  ultimately show ?thesis using assms(3) by (metis set_eq_iff_mset_eq_distinct)
qed

text \<open>Every element of index \<open>c\<close> is at most its parent, for parents from \<open>lo\<close> on other than \<open>i\<close>.\<close>

definition heap_but :: "cmp \<Rightarrow> nat \<Rightarrow> u8 list \<Rightarrow> nat \<Rightarrow> nat \<Rightarrow> nat \<Rightarrow> bool" where
  "heap_but compare n A lo cnt i \<longleftrightarrow>
     (\<forall>c \<le> cnt. lo \<le> c div 2 \<longrightarrow> c div 2 \<noteq> i \<longrightarrow> compare (element n A c) (element n A (c div 2)) \<le> 0)"

definition below_parent :: "cmp \<Rightarrow> nat \<Rightarrow> u8 list \<Rightarrow> nat \<Rightarrow> nat \<Rightarrow> nat \<Rightarrow> bool" where
  "below_parent compare n A lo cnt i \<longleftrightarrow>
     (\<forall>c \<le> cnt. c div 2 = i \<longrightarrow> lo \<le> i div 2 \<longrightarrow> compare (element n A c) (element n A (i div 2)) \<le> 0)"

lemma heapify_largest:
  assumes o: "total_preorder compare" and i: "1 \<le> i" "i \<le> cnt" "cnt < 2 ^ 31" and len: "cnt * n \<le> length A"
  obtains m where "m = i \<or> m div 2 = i" "m \<le> cnt" "\<And>c. c \<le> cnt \<Longrightarrow> c div 2 = i \<Longrightarrow> compare (element n A c) (element n A m) \<le> 0"
    "compare (element n A i) (element n A m) \<le> 0"
    "heapify (Suc fuel) A i cnt n compare = (if m = i then Inr A else rbind (do_swap A i m n) (\<lambda>A'. heapify fuel A' m cnt n compare))"
proof -
  let ?e = "element n A"
  have s: "sz (2 * i) = 2 * i" "sz (2 * i + 1) = 2 * i + 1" using i by (auto intro!: sz_id)
  have inb: "k * n \<le> length A" if "k \<le> cnt" for k using mult_le_mono1 [OF that, of n] len by linarith
  define m1 where "m1 = (if 2 * i \<le> cnt \<and> compare (?e (2 * i)) (?e i) > 0 then 2 * i else i)"
  define m where "m = (if 2 * i + 1 \<le> cnt \<and> compare (?e (2 * i + 1)) (?e m1) > 0 then 2 * i + 1 else m1)"
  have b: "1 \<le> m1" "m1 \<le> cnt" "m = i \<or> m div 2 = i" "m \<le> cnt" using i by (auto simp: m1_def m_def)
  have "heapify (Suc fuel) A i cnt n compare = (if m = i then Inr A else rbind (do_swap A i m n) (\<lambda>A'. heapify fuel A' m cnt n compare))"
  proof -
    have "(if 2 * i \<le> cnt then rbind (do_compare A (2 * i) i n compare) (\<lambda>c. Inr (if c > 0 then 2 * i else i)) else Inr i) = Inr m1"
      using inb [of i] inb [of "2 * i"] i by (simp add: do_compare_def m1_def)
    moreover have "(if 2 * i + 1 \<le> cnt then rbind (do_compare A (2 * i + 1) m1 n compare) (\<lambda>c. Inr (if c > 0 then 2 * i + 1 else m1)) else Inr m1) = Inr m"
      using inb [of m1] inb [of "2 * i + 1"] b i by (simp add: do_compare_def m_def)
    ultimately show ?thesis by (simp only: heapify.simps Let_def s rbind_Inr)
  qed
  moreover have le1: "compare (?e i) (?e m1) \<le> 0" "2 * i \<le> cnt \<Longrightarrow> compare (?e (2 * i)) (?e m1) \<le> 0"
    using total_preorderD [OF o] by (auto simp: m1_def not_less)
  moreover have mm: "compare (?e m1) (?e m) \<le> 0" "2 * i + 1 \<le> cnt \<Longrightarrow> compare (?e (2 * i + 1)) (?e m) \<le> 0"
    using total_preorderD [OF o] by (auto simp: m_def not_less)
  moreover have "compare (?e c) (?e m) \<le> 0" if "c \<le> cnt" "c div 2 = i" for c
  proof -
    have "c = 2 * i \<or> c = 2 * i + 1" using that(2) by linarith
    then show ?thesis using that(1) le1(2) mm total_preorderD(2) [OF o] by blast
  qed
  ultimately show ?thesis using that [of m] b(3,4) total_preorderD(2) [OF o] by blast
qed


lemma heapify_spec:
  assumes o: "total_preorder compare" and cnt: "cnt < 2 ^ 31" and lo: "1 \<le> lo"
  shows "lo \<le> i \<Longrightarrow> i \<le> cnt \<Longrightarrow> cnt < fuel + i \<Longrightarrow> cnt * n \<le> length A \<Longrightarrow>
     heap_but compare n A lo cnt i \<Longrightarrow> below_parent compare n A lo cnt i \<Longrightarrow>
     \<exists>A'. heapify fuel A i cnt n compare = Inr A' \<and> length A' = length A \<and> heap_but compare n A' lo cnt 0 \<and>
       mset (contents n A' cnt) = mset (contents n A cnt) \<and> (\<forall>k. cnt < k \<and> k * n \<le> length A \<longrightarrow> element n A' k = element n A k)"
proof (induction fuel arbitrary: A i)
  case (Suc fuel)
  let ?e = "element n A"
  have i: "1 \<le> i" using Suc.prems(1) lo by simp
  obtain m where m: "m = i \<or> m div 2 = i" "m \<le> cnt" "\<And>c. c \<le> cnt \<Longrightarrow> c div 2 = i \<Longrightarrow> compare (?e c) (?e m) \<le> 0" "compare (?e i) (?e m) \<le> 0"
      "heapify (Suc fuel) A i cnt n compare = (if m = i then Inr A else rbind (do_swap A i m n) (\<lambda>A'. heapify fuel A' m cnt n compare))"
    by (rule heapify_largest [OF o i Suc.prems(2) cnt Suc.prems(4), where fuel = fuel]) (rule that)
  show ?case
  proof (cases "m = i")
    case True
    then have "heap_but compare n A lo cnt 0" using Suc.prems(5) m(3) lo by (auto simp: heap_but_def)
    then show ?thesis using m(5) True by auto
  next
    case False
    then have mi: "m div 2 = i" "i < m" using m(1) i by auto
    have inb: "k * n \<le> length A" if "k \<le> cnt" for k using mult_le_mono1 [OF that, of n] Suc.prems(4) by linarith
    obtain A' where A': "do_swap A i m n = Inr A'" "length A' = length A"
        "\<And>k. 1 \<le> k \<Longrightarrow> k * n \<le> length A \<Longrightarrow> element n A' k = ?e (if k = i then m else if k = m then i else k)"
      by (rule do_swap_element [of i n A m]) (use i mi inb [of i] inb [of m] Suc.prems(2) m(2) in auto)
    have e: "element n A' k = ?e (exchange i m k)" if "1 \<le> k" "k \<le> cnt" for k using A'(3) [of k] that inb [of k] by (simp add: exchange_def)
    have "heap_but compare n A' lo cnt m"
      unfolding heap_but_def
    proof (intro allI impI)
      fix c assume c: "c \<le> cnt" "lo \<le> c div 2" "c div 2 \<noteq> m"
      have c1: "1 \<le> c" "1 \<le> c div 2" "c div 2 \<le> cnt" using c lo by auto
      consider "c div 2 = i" | "c = i" "c div 2 \<noteq> i" | "c \<noteq> i" "c div 2 \<noteq> i" by blast
      then show "compare (element n A' c) (element n A' (c div 2)) \<le> 0"
      proof cases
        case 1
        then have "c \<noteq> i" using i by auto
        then show ?thesis using 1 c1 c(1) m(3,4) e by (auto simp: exchange_def)
      next
        case 2
        then have "compare (?e m) (?e (i div 2)) \<le> 0" using Suc.prems(6) mi(1) m(2) c(2) by (auto simp: below_parent_def)
        then show ?thesis using 2 c1 c e by (auto simp: exchange_def)
      next
        case 3
        then have "c \<noteq> m" using mi by auto
        then show ?thesis using 3 c c1 e Suc.prems(5) by (auto simp: exchange_def heap_but_def)
      qed
    qed
    moreover have "below_parent compare n A' lo cnt m"
      unfolding below_parent_def
    proof (intro allI impI)
      fix c assume c: "c \<le> cnt" "c div 2 = m" "lo \<le> m div 2"
      have "c \<noteq> i" "c \<noteq> m" "1 \<le> c" using c(2) mi by auto
      moreover have "compare (?e c) (?e m) \<le> 0" using Suc.prems(1,5) c mi by (auto simp: heap_but_def)
      ultimately show "compare (element n A' c) (element n A' (m div 2)) \<le> 0" using e [of c] e [of i] c(1) i mi Suc.prems(2) by (simp add: exchange_def)
    qed
    moreover have "mset (contents n A' cnt) = mset (contents n A cnt)"
    proof -
      have "contents n A' cnt = map ?e (map (exchange i m) [1..<cnt + 1])" using e by (auto simp: contents_def simp del: upt_Suc)
      then show ?thesis using exchange_mset [of i "[1..<cnt + 1]" m] i mi Suc.prems(2) m(2) by (simp add: contents_def del: map_map upt_Suc)
    qed
    moreover have "\<forall>k. cnt < k \<and> k * n \<le> length A \<longrightarrow> element n A' k = ?e k" using A'(3) Suc.prems(2) m(2) by auto
    ultimately show ?thesis
      using Suc.IH [of m A'] m(2,5) mi False Suc.prems(1,3,4) A'(1,2) by auto
  qed
qed simp

lemma build_heap_spec:
  assumes o: "total_preorder compare" and cnt: "cnt < 2 ^ 31" and fuel: "cnt < fuel"
  shows "i \<le> cnt \<Longrightarrow> cnt * n \<le> length A \<Longrightarrow> heap_but compare n A (Suc i) cnt 0 \<Longrightarrow>
     \<exists>A'. build_heap fuel A i cnt n compare = Inr A' \<and> length A' = length A \<and> heap_but compare n A' 1 cnt 0 \<and>
       mset (contents n A' cnt) = mset (contents n A cnt)"
proof (induction i arbitrary: A)
  case (Suc i)
  have "heap_but compare n A (Suc i) cnt (Suc i)" using Suc.prems(3) by (auto simp: heap_but_def le_Suc_eq)
  moreover have "below_parent compare n A (Suc i) cnt (Suc i)" by (auto simp: below_parent_def)
  ultimately obtain A' where "heapify fuel A (Suc i) cnt n compare = Inr A'" "length A' = length A" "heap_but compare n A' (Suc i) cnt 0"
      "mset (contents n A' cnt) = mset (contents n A cnt)"
    using heapify_spec [OF o cnt, of "Suc i" "Suc i" fuel n A] Suc.prems(1,2) fuel by auto
  then show ?case using Suc.IH [of A'] Suc.prems(1,2) by auto
qed auto


lemma heap_root:
  assumes o: "total_preorder compare" and h: "heap_but compare n A 1 cnt 0"
  shows "1 \<le> c \<Longrightarrow> c \<le> cnt \<Longrightarrow> compare (element n A c) (element n A 1) \<le> 0"
proof (induction c rule: less_induct)
  case (less c)
  show ?case
  proof (cases "c = 1")
    case True
    then show ?thesis using total_preorderD(3) [OF o] by simp
  next
    case False
    then have "1 \<le> c div 2" "c div 2 < c" using less.prems(1) by auto
    then have "compare (element n A (c div 2)) (element n A 1) \<le> 0" "compare (element n A c) (element n A (c div 2)) \<le> 0"
      using less.IH [of "c div 2"] less.prems h by (auto simp: heap_but_def)
    then show ?thesis using total_preorderD(2) [OF o] by blast
  qed
qed

lemma contents_split: "i \<le> cnt \<Longrightarrow> contents n A cnt = contents n A i @ map (element n A) [i + 1..<cnt + 1]"
  unfolding contents_def map_append [symmetric] using upt_add_eq_append [of 1 "i + 1" "cnt - i"] by simp

lemma in_contents: "1 \<le> k \<Longrightarrow> k \<le> cnt \<Longrightarrow> element n A k \<in> set (contents n A cnt)"
  by (auto simp: contents_def simp del: upt_Suc)

lemma set_contents: "x \<in> set (contents n A cnt) \<Longrightarrow> \<exists>k. 1 \<le> k \<and> k \<le> cnt \<and> x = element n A k"
  by (auto simp: contents_def simp del: upt_Suc)

text \<open>Of \<open>cnt\<close> elements, those behind \<open>i\<close> are in order and not below those up to \<open>i\<close>.\<close>

definition sorted_tail :: "cmp \<Rightarrow> nat \<Rightarrow> u8 list \<Rightarrow> nat \<Rightarrow> nat \<Rightarrow> bool" where
  "sorted_tail compare n A cnt i \<longleftrightarrow>
     (\<forall>j k. 1 \<le> j \<and> j \<le> k \<and> i < k \<and> k \<le> cnt \<longrightarrow> compare (element n A j) (element n A k) \<le> 0)"

lemma sort_heap_step:
  assumes o: "total_preorder compare" and cnt: "cnt < 2 ^ 31" "cnt * n \<le> length A" and fuel: "cnt < fuel" and i: "i \<noteq> 0" "Suc i \<le> cnt"
    and h: "heap_but compare n A 1 (Suc i) 0" and s: "sorted_tail compare n A cnt (Suc i)"
  obtains A1 A2 where "do_swap A 1 (Suc i) n = Inr A1" "heapify fuel A1 1 i n compare = Inr A2" "length A2 = length A"
    "heap_but compare n A2 1 i 0" "sorted_tail compare n A2 cnt i" "mset (contents n A2 cnt) = mset (contents n A cnt)"
proof -
  let ?e = "element n A"
  have inb: "k * n \<le> length A" if "k \<le> cnt" for k using mult_le_mono1 [OF that, of n] cnt(2) by linarith
  obtain A1 where A1: "do_swap A 1 (Suc i) n = Inr A1" "length A1 = length A"
      "\<And>k. 1 \<le> k \<Longrightarrow> k * n \<le> length A \<Longrightarrow> element n A1 k = ?e (if k = 1 then Suc i else if k = Suc i then 1 else k)"
    by (rule do_swap_element [of 1 n A "Suc i"]) (use inb [of 1] inb [of "Suc i"] i in auto)
  have e1: "element n A1 k = ?e (exchange 1 (Suc i) k)" if "1 \<le> k" "k \<le> cnt" for k using A1(3) [of k] that inb [of k] by (simp add: exchange_def)
  have "heap_but compare n A1 1 i 1" using h e1 i by (auto simp: heap_but_def exchange_def)
  moreover have "below_parent compare n A1 1 i 1" by (simp add: below_parent_def)
  ultimately obtain A2 where A2: "heapify fuel A1 1 i n compare = Inr A2" "length A2 = length A" "heap_but compare n A2 1 i 0"
      "mset (contents n A2 i) = mset (contents n A1 i)" "\<And>k. i < k \<Longrightarrow> k \<le> cnt \<Longrightarrow> element n A2 k = element n A1 k"
    using heapify_spec [OF o, of i 1 1 fuel n A1] i cnt fuel inb [of i] A1(2) inb by auto
  have low: "\<exists>j'. 1 \<le> j' \<and> j' \<le> Suc i \<and> element n A2 j = ?e j'" if "1 \<le> j" "j \<le> i" for j
  proof -
    have "element n A2 j \<in> set (contents n A1 i)" using in_contents [OF that, of n A2] A2(4) by (metis set_mset_mset)
    then obtain k where "1 \<le> k" "k \<le> i" "element n A2 j = element n A1 k" using set_contents by blast
    then show ?thesis using e1 [of k] i by (auto simp: exchange_def)
  qed
  have "sorted_tail compare n A2 cnt i"
    unfolding sorted_tail_def
  proof (intro allI impI)
    fix j k assume jk: "1 \<le> j \<and> j \<le> k \<and> i < k \<and> k \<le> cnt"
    let ?k = "exchange 1 (Suc i) k"
    have k: "element n A2 k = ?e ?k" using A2(5) [of k] e1 [of k] jk by simp
    obtain j' where j': "1 \<le> j'" "element n A2 j = ?e j'" "j' \<le> Suc i \<or> (j' = j \<and> Suc i < j)"
    proof (cases "j \<le> i")
      case True
      then show ?thesis using low [of j] jk that by blast
    next
      case False
      then have "element n A2 j = ?e (exchange 1 (Suc i) j)" using A2(5) [of j] e1 [of j] jk by simp
      then show ?thesis using False jk i that [of "exchange 1 (Suc i) j"] by (auto simp: exchange_def split: if_splits)
    qed
    show "compare (element n A2 j) (element n A2 k) \<le> 0"
    proof (cases "k = Suc i")
      case True
      then show ?thesis using j' k heap_root [OF o h, of j'] jk by (auto simp: exchange_def)
    next
      case False
      then show ?thesis using j' k s jk i by (auto simp: exchange_def sorted_tail_def)
    qed
  qed
  moreover have "mset (contents n A2 cnt) = mset (contents n A1 cnt)"
  proof -
    have "map (element n A2) [i + 1..<cnt + 1] = map (element n A1) [i + 1..<cnt + 1]" using A2(5) by (auto simp del: upt_Suc)
    moreover have "i \<le> cnt" using i by simp
    ultimately show ?thesis using A2(4) by (simp only: contents_split mset_append)
  qed
  moreover have "mset (contents n A1 cnt) = mset (contents n A cnt)"
  proof -
    have "contents n A1 cnt = map ?e (map (exchange 1 (Suc i)) [1..<cnt + 1])" using e1 by (auto simp: contents_def simp del: upt_Suc)
    then show ?thesis using exchange_mset [of 1 "[1..<cnt + 1]" "Suc i"] i by (simp add: contents_def del: map_map upt_Suc)
  qed
  ultimately show ?thesis using that [OF A1(1) A2(1,2,3)] by simp
qed

lemma sort_heap_spec:
  assumes o: "total_preorder compare" and cnt: "cnt < 2 ^ 31" and fuel: "cnt < fuel"
  shows "i \<le> cnt \<Longrightarrow> cnt * n \<le> length A \<Longrightarrow> heap_but compare n A 1 i 0 \<Longrightarrow> sorted_tail compare n A cnt i \<Longrightarrow>
     \<exists>A'. sort_heap fuel A i n compare = Inr A' \<and> length A' = length A \<and> sorted_tail compare n A' cnt 0 \<and>
       mset (contents n A' cnt) = mset (contents n A cnt)"
proof (induction i arbitrary: A)
  case (Suc i)
  show ?case
  proof (cases "i = 0")
    case True
    have "compare (element n A j) (element n A k) \<le> 0" if "1 \<le> j" "j \<le> k" "k \<le> cnt" for j k
      using that Suc.prems(4) True total_preorderD(3) [OF o] by (cases "k = 1") (auto simp: sorted_tail_def)
    then have "sorted_tail compare n A cnt 0" by (auto simp: sorted_tail_def)
    then show ?thesis using True by simp
  next
    case False
    obtain A1 A2 where "do_swap A 1 (Suc i) n = Inr A1" "heapify fuel A1 1 i n compare = Inr A2" "length A2 = length A"
      "heap_but compare n A2 1 i 0" "sorted_tail compare n A2 cnt i" "mset (contents n A2 cnt) = mset (contents n A cnt)"
      by (rule sort_heap_step [OF o cnt Suc.prems(2) fuel False Suc.prems(1,3,4)])
    then show ?thesis using Suc.IH [of A2] Suc.prems(1,2) False by auto
  qed
qed simp

lemma sort_array_spec:
  assumes o: "total_preorder compare" and "cnt < 2 ^ 31" "cnt * n \<le> length A" "0 < n" "cnt < fuel"
  shows "\<exists>A'. sort_array fuel A cnt n compare = Inr A' \<and> length A' = length A \<and>
     mset (contents n A' cnt) = mset (contents n A cnt) \<and> sorted_wrt (\<lambda>x y. compare x y \<le> 0) (contents n A' cnt)"
proof -
  have "heap_but compare n A (Suc (cnt div 2)) cnt 0" by (auto simp: heap_but_def)
  then obtain A1 where A1: "build_heap fuel A (cnt div 2) cnt n compare = Inr A1" "length A1 = length A" "heap_but compare n A1 1 cnt 0"
      "mset (contents n A1 cnt) = mset (contents n A cnt)"
    using build_heap_spec [OF o assms(2,5), of "cnt div 2" n A] assms(3) by auto
  have "sorted_tail compare n A1 cnt cnt" by (auto simp: sorted_tail_def)
  then obtain A2 where A2: "sort_heap fuel A1 cnt n compare = Inr A2" "length A2 = length A" "sorted_tail compare n A2 cnt 0"
      "mset (contents n A2 cnt) = mset (contents n A cnt)"
    using sort_heap_spec [OF o assms(2,5), of cnt n A1] A1 assms(3) by auto
  have "sorted_wrt (\<lambda>x y. compare x y \<le> 0) (contents n A2 cnt)"
    using A2(3) by (simp add: contents_def sorted_wrt_iff_nth_less sorted_tail_def del: upt_Suc)
  then show ?thesis using A1(1) A2 assms(4) by (simp add: sort_array_def)
qed


subsection \<open>Searching\<close>

text \<open>The array is in order as seen from the key: first the smaller elements, then the equal ones, then the
  larger ones.\<close>

definition in_order :: "cmp \<Rightarrow> u8 list \<Rightarrow> nat \<Rightarrow> u8 list \<Rightarrow> nat \<Rightarrow> bool" where
  "in_order compare key n A cnt \<longleftrightarrow>
     (\<forall>j k. 1 \<le> j \<and> j \<le> k \<and> k \<le> cnt \<longrightarrow> sgn (compare key (element n A k)) \<le> sgn (compare key (element n A j)))"

lemma binary_search_loop_spec:
  assumes o: "in_order compare key n A cnt" and len: "cnt * n \<le> length A" "0 < n"
  shows "f \<le> l \<Longrightarrow> l \<le> cnt \<Longrightarrow> \<forall>j. 1 \<le> j \<and> j \<le> f \<longrightarrow> compare key (element n A j) > 0 \<Longrightarrow>
     \<forall>j. l < j \<and> j \<le> cnt \<longrightarrow> compare key (element n A j) < 0 \<Longrightarrow>
     \<exists>r. binary_search_loop key A (f * n) (l * n) n compare = Inr r \<and>
       (case r of None \<Rightarrow> \<forall>j. 1 \<le> j \<and> j \<le> cnt \<longrightarrow> compare key (element n A j) \<noteq> 0
        | Some middle \<Rightarrow> \<exists>j. 1 \<le> j \<and> j \<le> cnt \<and> middle = (j - 1) * n \<and> compare key (element n A j) = 0)"
proof (induction "l - f" arbitrary: f l rule: less_induct)
  case less
  let ?c = "\<lambda>j. compare key (element n A j)"
  show ?case
  proof (cases "f < l")
    case False
    then have fl: "f = l" using less.prems(1) by simp
    have "?c j \<noteq> 0" if "1 \<le> j" "j \<le> cnt" for j 
      using less.prems(3) [rule_format, of j] less.prems(4) [rule_format, of j] fl that by (cases "j \<le> f") auto
    then show ?thesis using fl by (subst binary_search_loop.simps) auto
  next
    case True
    define h where "h = f + (l - f) div 2"
    have h: "f \<le> h" "h < l" using True by (auto simp: h_def)
    have "l * n - f * n = (l - f) * n" by (simp add: diff_mult_distrib)
    then have range: "(l * n - f * n) div n = l - f" using len(2) by simp
    have mid: "f * n + (l - f) div 2 * n = h * n" by (simp add: h_def distrib_right)
    have hn: "h * n + n \<le> length A" using mult_le_mono1 [of "Suc h" cnt n] h less.prems(2) len(1) by simp
    have el: "take n (drop (h * n) A) = element n A (h + 1)" by (simp add: element_def)
    have U: "binary_search_loop key A (f * n) (l * n) n compare =
        (if ?c (h + 1) < 0 then binary_search_loop key A (f * n) (h * n) n compare
         else if ?c (h + 1) > 0 then binary_search_loop key A ((h + 1) * n) (l * n) n compare else Inr (Some (h * n)))"
      using True len(2) hn by (subst binary_search_loop.simps) (simp add: range mid el Let_def distrib_right add.commute)
    have mono: "sgn (?c k) \<le> sgn (?c j)" if "1 \<le> j" "j \<le> k" "k \<le> cnt" for j k using o that by (auto simp: in_order_def)
    consider "?c (h + 1) < 0" | "?c (h + 1) > 0" | "?c (h + 1) = 0" by linarith
    then show ?thesis
    proof cases
      case 1
      have "?c j < 0" if "h < j" "j \<le> cnt" for j using mono [of "h + 1" j] that 1 by (auto simp: sgn_if split: if_splits)
      then show ?thesis using less.hyps [of h f] h less.prems 1 unfolding U by auto
    next
      case 2
      have "?c j > 0" if "1 \<le> j" "j \<le> h + 1" for j using mono [of j "h + 1"] that 2 h less.prems(2) by (auto simp: sgn_if split: if_splits)
      moreover have "binary_search_loop key A (f * n) (l * n) n compare = binary_search_loop key A ((h + 1) * n) (l * n) n compare" using U 2 by simp
      ultimately show ?thesis using less.hyps [of l "h + 1"] h less.prems by auto
    next
      case 3
      then show ?thesis unfolding U using h less.prems(2) by (auto intro!: exI [of _ "h + 1"])
    qed
  qed
qed

lemma binary_search_spec:
  assumes "in_order compare key n A cnt" "cnt * n \<le> length A" "0 < n"
  shows "\<exists>r. binary_search key A cnt n compare = Inr r \<and>
     (case r of None \<Rightarrow> \<forall>j. 1 \<le> j \<and> j \<le> cnt \<longrightarrow> compare key (element n A j) \<noteq> 0
      | Some middle \<Rightarrow> \<exists>j. 1 \<le> j \<and> j \<le> cnt \<and> middle = (j - 1) * n \<and> compare key (element n A j) = 0)"
  using binary_search_loop_spec [OF assms, of 0 cnt] by (simp add: binary_search_def mult.commute)

subsection \<open>Parsing\<close>

text \<open>The number that a run of digits denotes.\<close>

definition decimal :: "u8 list \<Rightarrow> int" where
  "decimal ds = foldl (\<lambda>v d. v * 10 + (int (unat d) - 48)) 0 ds"

lemma atoi_digits_spec:
  assumes "length ds < fuel" "\<forall>d \<in> set ds. isdigit d" "\<not> isdigit (m (s + of_nat (length ds)))"
    "\<And>i. i < length ds \<Longrightarrow> m (s + of_nat i) = ds ! i" "foldl (\<lambda>v d. v * 10 + (int (unat d) - 48)) v ds \<le> 2 ^ 31" "0 \<le> v"
  shows "atoi_digits fuel s (- v) m = Inr (- foldl (\<lambda>v d. v * 10 + (int (unat d) - 48)) v ds)"
  using assms
proof (induction ds arbitrary: fuel s v)
  case Nil
  then show ?case by (cases fuel) auto
next
  case (Cons d ds)
  let ?g = "\<lambda>v d. v * 10 + (int (unat (d :: u8)) - 48)"
  obtain f where f: "fuel = Suc f" "length ds < f" using Cons.prems(1) by (cases fuel) auto
  have d: "isdigit d" "m s = d" using Cons.prems(2) Cons.prems(4) [of 0] by auto
  have d0: "0 \<le> int (unat d) - 48" using d(1) by (simp add: isdigit_def word_le_def)
  have mono: "v \<le> foldl ?g v ds" if "0 \<le> v" "\<forall>d \<in> set ds. isdigit d" for v ds
    using that
  proof (induction ds arbitrary: v)
    case (Cons e es)
    have "0 \<le> int (unat e) - 48" using Cons.prems(2) by (simp add: isdigit_def word_le_def)
    then show ?case using Cons.IH [of "?g v e"] Cons.prems by auto
  qed simp
  let ?v = "?g v d"
  have v: "0 \<le> ?v" "?v \<le> 2 ^ 31" "v * 10 \<le> 2 ^ 31" using d0 Cons.prems(5,6) mono [of ?v ds] Cons.prems(2) by auto
  have "atoi_digits f (s + 1) (- ?v) m = Inr (- foldl ?g ?v ds)"
    using Cons.IH [of f "s + 1" ?v] f(2) Cons.prems(2,3,5) Cons.prems(4) [of "Suc _"] v(1) by (auto simp: add.assoc)
  moreover have e: "- v * 10 - (int (unat d) - 48) = - ?v" by simp
  moreover have "atoi_digits fuel s (- v) m = atoi_digits f (s + 1) (- v * 10 - (int (unat d) - 48)) m"
    unfolding f(1) atoi_digits.simps Let_def d(2) e using d(1) v by simp
  ultimately show ?case by (simp only: foldl_Cons)
qed

lemma atoi_decimal:
  assumes "cstr m s ds" "ds \<noteq> []" "\<forall>d \<in> set ds. isdigit d" "decimal ds < 2 ^ 31" "length ds < fuel"
  shows "atoi fuel s m = Inr (decimal ds)"
proof -
  have c: "\<And>i. i < length ds \<Longrightarrow> m (s + of_nat i) = ds ! i" "m (s + of_nat (length ds)) = 0" "s \<noteq> 0"
    using assms(1) cstr_append [of m s ds "[]"] cstr_nonnull by auto
  obtain d ds' where ds: "ds = d # ds'" using assms(2) by (cases ds) auto
  have m0: "m s = d" "isdigit d" using c(1) [of 0] ds assms(3) by auto
  have ns: "\<not> isspace d" "d \<noteq> 45" "d \<noteq> 43" using m0(2) by (auto simp: isdigit_def isspace_def word_le_nat_alt)
  have "atoi_skip fuel s m = Inr s" using assms(5) m0 ns by (cases fuel) auto
  moreover have "atoi_digits fuel s (- 0) m = Inr (- decimal ds)"
    unfolding decimal_def by (rule atoi_digits_spec) (use assms(3,4,5) c in \<open>auto simp: isdigit_def decimal_def\<close>)
  ultimately show ?thesis using c(3) m0 ns assms(4) by (simp add: atoi_def Let_def)
qed

end
