(* ===== verification/Hash.thy ===== *)
theory Hash
  imports Kstring Bytes Slots "HOL-Library.Multiset"
begin

unbundle bit_operations_syntax

text \<open>
  Hash tables (src/pintos2/src/lib/kernel/hash.c): an array of buckets, each a list of elements. A
  bucket is the sequence of its elements, front first; that the list operations work on sequences
  is what Klist shows. An element is a value of any type with the table's \<^verbatim>\<open>hash\<close> and \<^verbatim>\<open>less\<close>;
  \<^verbatim>\<open>aux\<close> is part of these. The argument \<open>ok\<close> of the operations that allocate says whether \<^verbatim>\<open>malloc\<close>
  finds memory. A destructor or action is called on the elements that the operation returns, in
  that order.
\<close>

record 'e hash =
  elem_cnt :: u32
  bucket_cnt :: u32
  buckets :: "'e list list"
  hash_fn :: "'e \<Rightarrow> u32"
  less_fn :: "'e \<Rightarrow> 'e \<Rightarrow> bool"

definition find_bucket :: "'e hash \<Rightarrow> 'e \<Rightarrow> nat" where
  "find_bucket h e = unat (hash_fn h e AND (bucket_cnt h - 1))"

definition find_elem :: "'e hash \<Rightarrow> nat \<Rightarrow> 'e \<Rightarrow> 'e option" where
  "find_elem h b e = List.find (\<lambda>hi. \<not> less_fn h hi e \<and> \<not> less_fn h e hi) (buckets h ! b)"

definition turn_off_least_1bit :: "u32 \<Rightarrow> u32" where
  "turn_off_least_1bit x = x AND (x - 1)"

definition is_power_of_2 :: "u32 \<Rightarrow> bool" where
  "is_power_of_2 x \<longleftrightarrow> x \<noteq> 0 \<and> turn_off_least_1bit x = 0"

lemma turn_off_less: "x \<noteq> 0 \<Longrightarrow> unat (turn_off_least_1bit x) < unat x"
proof -
  assume x: "x \<noteq> 0"
  have "unat (turn_off_least_1bit x) \<le> unat (x - 1)" 
    unfolding word_le_nat_alt [symmetric] by (simp add: turn_off_least_1bit_def word_le_def unsigned_and_eq)
  also have "\<dots> < unat x" using x by (simp add: unat_minus_one unat_gt_0)
  finally show ?thesis .
qed

function round_to_power_of_2 :: "u32 \<Rightarrow> u32 res" where
  "round_to_power_of_2 x =
     (if is_power_of_2 x then Inr x else if x = 0 then Inl Diverged else round_to_power_of_2 (turn_off_least_1bit x))"
  by pat_completeness auto
termination
  by (relation "measure unat") (auto simp: turn_off_less)

declare round_to_power_of_2.simps [simp del]

definition MIN_ELEMS_PER_BUCKET :: u32 where "MIN_ELEMS_PER_BUCKET = 1"
definition BEST_ELEMS_PER_BUCKET :: u32 where "BEST_ELEMS_PER_BUCKET = 2"
definition MAX_ELEMS_PER_BUCKET :: u32 where "MAX_ELEMS_PER_BUCKET = 4"

fun move_elems :: "'e list \<Rightarrow> 'e hash \<Rightarrow> 'e hash" where
  "move_elems [] h = h"
| "move_elems (e # es) h =
     (let b = find_bucket h e in move_elems es (h\<lparr>buckets := (buckets h)[b := e # buckets h ! b]\<rparr>))"

definition rehash :: "bool \<Rightarrow> 'e hash \<Rightarrow> 'e hash res" where
  "rehash ok h =
     (let n = elem_cnt h div BEST_ELEMS_PER_BUCKET; n' = (if n < 4 then 4 else n)
      in rbind (round_to_power_of_2 n') (\<lambda>new_bucket_cnt.
           if new_bucket_cnt = bucket_cnt h then Inr h
           else if \<not> ok then Inr h
           else Inr (move_elems (concat (buckets h))
                      (h\<lparr>buckets := replicate (unat new_bucket_cnt) [], bucket_cnt := new_bucket_cnt\<rparr>))))"

definition insert_elem :: "'e hash \<Rightarrow> nat \<Rightarrow> 'e \<Rightarrow> 'e hash" where
  "insert_elem h b e = h\<lparr>elem_cnt := elem_cnt h + 1, buckets := (buckets h)[b := e # buckets h ! b]\<rparr>"

text \<open>\<^verbatim>\<open>list_remove\<close> takes the element out of the list that it is in.\<close>

definition remove_elem :: "'e hash \<Rightarrow> 'e \<Rightarrow> 'e hash" where
  "remove_elem h e = h\<lparr>elem_cnt := elem_cnt h - 1, buckets := map (remove1 e) (buckets h)\<rparr>"

definition hash_clear :: "'e hash \<Rightarrow> bool \<Rightarrow> 'e list \<times> 'e hash" where
  "hash_clear h destructor =
     (if destructor then concat (buckets h) else [], h\<lparr>buckets := replicate (unat (bucket_cnt h)) [], elem_cnt := 0\<rparr>)"

definition hash_init :: "bool \<Rightarrow> ('e \<Rightarrow> u32) \<Rightarrow> ('e \<Rightarrow> 'e \<Rightarrow> bool) \<Rightarrow> bool \<times> 'e hash" where
  "hash_init ok hf lf =
     (let h = \<lparr>elem_cnt = 0, bucket_cnt = 4, buckets = [], hash_fn = hf, less_fn = lf\<rparr>
      in if ok then (True, snd (hash_clear h False)) else (False, h))"

definition hash_destroy :: "'e hash \<Rightarrow> bool \<Rightarrow> 'e list" where
  "hash_destroy h destructor = (if destructor then fst (hash_clear h destructor) else [])"

definition hash_insert :: "bool \<Rightarrow> 'e hash \<Rightarrow> 'e \<Rightarrow> ('e option \<times> 'e hash) res" where
  "hash_insert ok h new =
     (let b = find_bucket h new; old = find_elem h b new; h1 = (if old = None then insert_elem h b new else h)
      in rbind (rehash ok h1) (\<lambda>h2. Inr (old, h2)))"

definition hash_replace :: "bool \<Rightarrow> 'e hash \<Rightarrow> 'e \<Rightarrow> ('e option \<times> 'e hash) res" where
  "hash_replace ok h new =
     (let b = find_bucket h new; old = find_elem h b new;
          h1 = (case old of None \<Rightarrow> h | Some e \<Rightarrow> remove_elem h e)
      in rbind (rehash ok (insert_elem h1 b new)) (\<lambda>h2. Inr (old, h2)))"

definition hash_find :: "'e hash \<Rightarrow> 'e \<Rightarrow> 'e option" where
  "hash_find h e = find_elem h (find_bucket h e) e"

definition hash_delete :: "bool \<Rightarrow> 'e hash \<Rightarrow> 'e \<Rightarrow> ('e option \<times> 'e hash) res" where
  "hash_delete ok h e =
     (case find_elem h (find_bucket h e) e of
        None \<Rightarrow> Inr (None, h)
      | Some found \<Rightarrow> rbind (rehash ok (remove_elem h found)) (\<lambda>h1. Inr (Some found, h1)))"

definition hash_apply :: "'e hash \<Rightarrow> 'e list" where
  "hash_apply h = concat (buckets h)"

definition hash_size :: "'e hash \<Rightarrow> u32" where
  "hash_size h = elem_cnt h"

definition hash_empty :: "'e hash \<Rightarrow> bool" where
  "hash_empty h \<longleftrightarrow> elem_cnt h = 0"

text \<open>An iterator is at a bucket and has passed some elements of it; \<open>it_elem\<close> is the element it is at.\<close>

record 'e hash_iterator =
  it_bucket :: nat
  it_passed :: nat
  it_elem :: "'e option"

definition hash_first :: "'e hash \<Rightarrow> 'e hash_iterator" where
  "hash_first h = \<lparr>it_bucket = 0, it_passed = 0, it_elem = None\<rparr>"

function hash_next_loop :: "'e hash \<Rightarrow> nat \<Rightarrow> nat \<Rightarrow> 'e hash_iterator" where
  "hash_next_loop h b p =
     (if p < length (buckets h ! b) then \<lparr>it_bucket = b, it_passed = p + 1, it_elem = Some (buckets h ! b ! p)\<rparr>
      else if b + 1 \<ge> unat (bucket_cnt h) then \<lparr>it_bucket = b + 1, it_passed = 0, it_elem = None\<rparr>
      else hash_next_loop h (b + 1) 0)"
  by pat_completeness auto
termination
  by (relation "measure (\<lambda>(h, b, p). unat (bucket_cnt h) - b)") auto

declare hash_next_loop.simps [simp del]

definition hash_next :: "'e hash \<Rightarrow> 'e hash_iterator \<Rightarrow> 'e hash_iterator" where
  "hash_next h i = hash_next_loop h (it_bucket i) (it_passed i)"

definition hash_cur :: "'e hash_iterator \<Rightarrow> 'e option" where
  "hash_cur i = it_elem i"

subsection \<open>Hash functions\<close>

definition FNV_32_PRIME :: u32 where "FNV_32_PRIME = 16777619"
definition FNV_32_BASIS :: u32 where "FNV_32_BASIS = 2166136261"

fun hash_bytes_loop :: "u32 \<Rightarrow> nat \<Rightarrow> u32 \<Rightarrow> mem \<Rightarrow> u32" where
  "hash_bytes_loop buf 0 h m = h"
| "hash_bytes_loop buf (Suc n) h m = hash_bytes_loop (buf + 1) n ((h * FNV_32_PRIME) XOR ucast (m buf)) m"

definition hash_bytes :: "u32 \<Rightarrow> nat \<Rightarrow> mem \<Rightarrow> u32 res" where
  "hash_bytes buf n m = kassert (buf \<noteq> 0) (Inr (hash_bytes_loop buf n FNV_32_BASIS m))"

fun hash_string_loop :: "nat \<Rightarrow> u32 \<Rightarrow> u32 \<Rightarrow> mem \<Rightarrow> u32 res" where
  "hash_string_loop 0 s h m = Inl Diverged"
| "hash_string_loop (Suc fuel) s h m =
     (if m s \<noteq> 0 then hash_string_loop fuel (s + 1) ((h * FNV_32_PRIME) XOR ucast (m s)) m else Inr h)"

definition hash_string :: "nat \<Rightarrow> u32 \<Rightarrow> mem \<Rightarrow> u32 res" where
  "hash_string fuel s m = kassert (s \<noteq> 0) (hash_string_loop fuel s FNV_32_BASIS m)"

text \<open>\<open>a\<close> is the address of the parameter \<^verbatim>\<open>i\<close>.\<close>

definition hash_int :: "u32 \<Rightarrow> u32 \<Rightarrow> mem \<Rightarrow> u32 res" where
  "hash_int a i m = hash_bytes a 4 (kwrite a (le_bytes 4 (unat i)) m)"


subsection \<open>Powers of two\<close>

lemma bit_imp_le: "bit (x :: nat) t \<Longrightarrow> 2 ^ t \<le> x"
proof -
  assume "bit x t"
  then have "0 < x div 2 ^ t" by (metis bit_iff_odd even_zero gr0I)
  then show ?thesis by (simp add: div_greater_zero_iff)
qed

lemma top_bit: "2 ^ t \<le> x \<Longrightarrow> x < 2 ^ Suc t \<Longrightarrow> bit (x :: nat) t"
proof -
  assume "2 ^ t \<le> x" "x < 2 ^ Suc t"
  then have "x div 2 ^ t = 1" by (intro div_nat_eqI) auto
  then show ?thesis by (simp add: bit_iff_odd)
qed

lemma turn_off_keeps_top:
  assumes "2 ^ t < unat x" "unat x < 2 ^ Suc t"
  shows "2 ^ t \<le> unat (turn_off_least_1bit x)"
proof -
  have "x \<noteq> 0" using assms(1) by auto
  then have "unat (x - 1) = unat x - 1" by (simp add: unat_minus_one)
  then have "bit (unat (x - 1)) t" "bit (unat x) t" using assms by (auto intro!: top_bit)
  then have "bit (unat (turn_off_least_1bit x)) t" by (simp add: turn_off_least_1bit_def unsigned_and_eq bit_and_iff)
  then show ?thesis by (rule bit_imp_le)
qed

lemma power_of_2_between: "0 < (x :: nat) \<Longrightarrow> \<exists>t. 2 ^ t \<le> x \<and> x < 2 ^ Suc t"
  using ex_power_ivl1 [of 2 x] by auto

lemma is_power_of_2_iff: "is_power_of_2 x \<longleftrightarrow> (\<exists>t. unat x = 2 ^ t)"
proof
  assume p: "is_power_of_2 x"
  then obtain t where t: "2 ^ t \<le> unat x" "unat x < 2 ^ Suc t" using power_of_2_between [of "unat x"] by (auto simp: is_power_of_2_def unat_gt_0)
  have "unat (turn_off_least_1bit x) = 0" using p by (simp add: is_power_of_2_def)
  then show "\<exists>t. unat x = 2 ^ t" using turn_off_keeps_top [of t x] t by (metis le_neq_implies_less le_zero_eq power_not_zero zero_neq_numeral)
next
  assume "\<exists>t. unat x = 2 ^ t"
  then obtain t where t: "unat x = 2 ^ t" ..
  then have x: "x \<noteq> 0" by auto
  then have m: "unat (x - 1) = mask t" using t by (simp add: unat_minus_one mask_eq_exp_minus_1)
  have "unat (turn_off_least_1bit x) = 2 ^ t AND mask t" using t m by (simp add: turn_off_least_1bit_def unsigned_and_eq)
  also have "\<dots> = 0" by (simp flip: take_bit_eq_mask)
  finally show "is_power_of_2 x" using x by (simp add: is_power_of_2_def unat_eq_zero)
qed

lemma round_to_power_of_2_spec: "x \<noteq> 0 \<Longrightarrow> \<exists>y t. round_to_power_of_2 x = Inr y \<and> unat y = 2 ^ t \<and> 2 ^ t \<le> unat x \<and> unat x < 2 ^ Suc t"
proof (induction x rule: round_to_power_of_2.induct)
  case (1 x)
  show ?case
  proof (cases "is_power_of_2 x")
    case True
    then obtain t where "unat x = 2 ^ t" using is_power_of_2_iff by blast
    then show ?thesis using True by (subst round_to_power_of_2.simps) (auto intro!: exI [of _ t])
  next
    case False
    obtain t where t: "2 ^ t \<le> unat x" "unat x < 2 ^ Suc t" using power_of_2_between [of "unat x"] 1(2) by (auto simp: unat_gt_0)
    have "unat x \<noteq> 2 ^ t" using False is_power_of_2_iff by blast
    then have k: "2 ^ t \<le> unat (turn_off_least_1bit x)" using turn_off_keeps_top [of t x] t by simp
    then have nz: "turn_off_least_1bit x \<noteq> 0" by auto
    obtain y u where y: "round_to_power_of_2 (turn_off_least_1bit x) = Inr y" "unat y = 2 ^ u" "2 ^ u \<le> unat (turn_off_least_1bit x)" "unat (turn_off_least_1bit x) < 2 ^ Suc u"
      using 1(1) [OF False 1(2) nz] by blast
    have "t < Suc u" using k y(4) by (metis le_less_trans one_less_numeral_iff power_less_imp_less_exp semiring_norm(76))
    moreover have "u < Suc t" using y(3) t(2) turn_off_less [OF 1(2)] by (metis le_less_trans less_trans one_less_numeral_iff power_less_imp_less_exp semiring_norm(76))
    ultimately have "u = t" by simp
    then show ?thesis using False 1(2) y t by (subst round_to_power_of_2.simps) auto
  qed
qed


subsection \<open>Well-formed tables\<close>

definition same :: "'e hash \<Rightarrow> 'e \<Rightarrow> 'e \<Rightarrow> bool" where
  "same h a b \<longleftrightarrow> \<not> less_fn h a b \<and> \<not> less_fn h b a"

definition hash_ok :: "'e hash \<Rightarrow> bool" where
  "hash_ok h \<longleftrightarrow> strict_weak_order (less_fn h) \<and> (\<forall>a b. same h a b \<longrightarrow> hash_fn h a = hash_fn h b)"

definition placed_in :: "'e hash \<Rightarrow> bool" where
  "placed_in h \<longleftrightarrow> (\<exists>k. 2 \<le> k \<and> unat (bucket_cnt h) = 2 ^ k) \<and> length (buckets h) = unat (bucket_cnt h) \<and>
     (\<forall>b < length (buckets h). \<forall>e \<in> set (buckets h ! b). find_bucket h e = b)"

definition elems :: "'e hash \<Rightarrow> 'e multiset" where
  "elems h = mset (concat (buckets h))"

definition counted :: "'e hash \<Rightarrow> bool" where
  "counted h \<longleftrightarrow> elem_cnt h = of_nat (size (elems h)) \<and> (\<forall>a. size (filter_mset (same h a) (elems h)) \<le> 1)"

definition hash_inv :: "'e hash \<Rightarrow> bool" where
  "hash_inv h \<longleftrightarrow> hash_ok h \<and> placed_in h \<and> counted h"

lemma same_equiv:
  assumes "hash_ok h"
  shows "same h a a" "same h a b \<Longrightarrow> same h b a" "same h a b \<Longrightarrow> same h b c \<Longrightarrow> same h a c"
  using assms strict_weak_order.negtrans [of "less_fn h"] strict_weak_order.irrefl [of "less_fn h"] unfolding hash_ok_def same_def by blast+

lemma find_bucket_less: "placed_in h \<Longrightarrow> find_bucket h e < length (buckets h)"
proof -
  assume p: "placed_in h"
  then have "bucket_cnt h \<noteq> 0" by (auto simp: placed_in_def)
  moreover have "hash_fn h e AND (bucket_cnt h - 1) \<le> bucket_cnt h - 1" by (simp add: word_le_def unsigned_and_eq)
  ultimately have "find_bucket h e < unat (bucket_cnt h)"
    by (auto simp: find_bucket_def word_le_nat_alt unat_minus_one unat_gt_0 intro: le_less_trans)
  then show ?thesis using p by (simp add: placed_in_def)
qed

lemma in_elems: "e \<in># elems h \<longleftrightarrow> (\<exists>b < length (buckets h). e \<in> set (buckets h ! b))"
  by (simp add: elems_def) (metis in_set_conv_nth)

lemma elem_in_bucket: "placed_in h \<Longrightarrow> e \<in># elems h \<longleftrightarrow> e \<in> set (buckets h ! find_bucket h e)"
  using find_bucket_less [of h e] by (auto simp: in_elems placed_in_def)

lemma find_elem_spec:
  assumes "hash_inv h"
  shows "find_elem h (find_bucket h e) e = Some x \<Longrightarrow> x \<in># elems h \<and> same h x e"
    "find_elem h (find_bucket h e) e = None \<Longrightarrow> x \<in># elems h \<Longrightarrow> \<not> same h x e"
proof -
  have p: "placed_in h" "hash_ok h" using assms by (auto simp: hash_inv_def)
  { assume "find_elem h (find_bucket h e) e = Some x"
    then have "x \<in> set (buckets h ! find_bucket h e)" "same h x e" by (auto simp: find_elem_def same_def find_Some_iff)
    then show "x \<in># elems h \<and> same h x e" using find_bucket_less [OF p(1)] by (auto simp: in_elems) }
  { assume n: "find_elem h (find_bucket h e) e = None" and x: "x \<in># elems h"
    show "\<not> same h x e"
    proof
      assume s: "same h x e"
      then have "find_bucket h x = find_bucket h e" using p(2) by (simp add: find_bucket_def hash_ok_def)
      then have "x \<in> set (buckets h ! find_bucket h e)" using x elem_in_bucket [OF p(1)] by metis
      then show False using n s by (auto simp: find_elem_def same_def find_None_iff)
    qed }
qed

lemma concat_update:
  assumes "b < length bs"
  shows "mset (concat (bs[b := e # bs ! b])) = add_mset e (mset (concat bs))"
  using assms by (induction bs arbitrary: b) (auto split: nat.splits)

lemma insert_elem_facts:
  assumes "placed_in h"
  shows "placed_in (insert_elem h (find_bucket h e) e)" "elems (insert_elem h (find_bucket h e) e) = add_mset e (elems h)"
    "same (insert_elem h b e) = same h" "hash_ok (insert_elem h b e) = hash_ok h"
proof -
  have fb: "find_bucket (insert_elem h b x) y = find_bucket h y" for b x y by (simp add: find_bucket_def insert_elem_def)
  note l = find_bucket_less [OF assms, of e]
  show "placed_in (insert_elem h (find_bucket h e) e)"
    using assms l unfolding placed_in_def fb by (auto simp: insert_elem_def nth_list_update)
  show "elems (insert_elem h (find_bucket h e) e) = add_mset e (elems h)"
    using concat_update [OF l] by (simp add: insert_elem_def elems_def)
  show s: "same (insert_elem h b e) = same h" by (simp add: insert_elem_def same_def fun_eq_iff)
  show "hash_ok (insert_elem h b e) = hash_ok h" unfolding hash_ok_def s by (simp add: insert_elem_def)
qed

lemma concat_remove1:
  "count (mset (concat bs)) e \<le> 1 \<Longrightarrow> mset (concat (map (remove1 e) bs)) = mset (concat bs) - {#e#}"
proof (induction bs)
  case (Cons c cs)
  show ?case
  proof (cases "e \<in> set c")
    case True
    then have "0 < count (mset c) e" by simp
    then have "count (mset (concat cs)) e = 0" using Cons.prems unfolding concat.simps mset_append count_union by linarith
    then have "e \<notin> set (concat cs)" by (metis count_eq_zero_iff set_mset_mset)
    then have "map (remove1 e) cs = cs" by (intro map_idI remove1_idem) auto
    then have "mset (concat (map (remove1 e) (c # cs))) = mset (concat cs) + (mset c - {#e#})" by (simp add: union_commute)
    also have "\<dots> = mset (concat cs) + mset c - {#e#}" using True by (intro diff_union_single_conv [symmetric]) simp
    finally show ?thesis by (simp add: union_commute)
  next
    case False
    have "count (mset (concat cs)) e \<le> 1" using Cons.prems by simp
    then have "mset (concat (map (remove1 e) (c # cs))) = mset c + (mset (concat cs) - {#e#})" using Cons.IH False by (simp add: remove1_idem)
    also have "\<dots> = mset (concat (c # cs)) - {#e#}" 
    proof (cases "e \<in># mset (concat cs)")
      case True
      then show ?thesis by (simp only: concat.simps mset_append diff_union_single_conv)
    next
      case n: False
      then have "e \<notin># mset (concat (c # cs))" using False by simp
      then have "mset (concat (c # cs)) - {#e#} = mset (concat (c # cs))" by (rule diff_single_trivial)
      moreover have "mset (concat cs) - {#e#} = mset (concat cs)" using n by (rule diff_single_trivial)
      ultimately show ?thesis by (simp only: concat.simps mset_append)
    qed
    finally show ?thesis .
  qed
qed simp

lemma filter_count_le: "P e \<Longrightarrow> count M e \<le> size (filter_mset P M)"
  by (metis count_filter_mset count_le_size)

lemma remove_elem_facts:
  assumes "hash_inv h" "e \<in># elems h"
  shows "placed_in (remove_elem h e)" "elems (remove_elem h e) = elems h - {#e#}"
    "same (remove_elem h e) = same h" "hash_ok (remove_elem h e)"
proof -
  have p: "placed_in h" "hash_ok h" "counted h" using assms by (auto simp: hash_inv_def)
  have fb: "find_bucket (remove_elem h e) y = find_bucket h y" for y by (simp add: find_bucket_def remove_elem_def)
  have "count (elems h) e \<le> 1" using p(3) filter_count_le [of "same h e" e "elems h"] same_equiv(1) [OF p(2)]
    by (auto simp: counted_def intro: le_trans)
  then show "elems (remove_elem h e) = elems h - {#e#}" by (simp add: remove_elem_def elems_def concat_remove1)
  show "placed_in (remove_elem h e)" using p(1) unfolding placed_in_def fb by (auto simp: remove_elem_def dest!: subsetD [OF set_remove1_subset])
  show s: "same (remove_elem h e) = same h" by (simp add: remove_elem_def same_def fun_eq_iff)
  show "hash_ok (remove_elem h e)" using p(2) unfolding hash_ok_def s by (simp add: remove_elem_def)
qed

lemma move_elems_facts:
  "placed_in h \<Longrightarrow> placed_in (move_elems es h) \<and> elems (move_elems es h) = mset es + elems h \<and>
     less_fn (move_elems es h) = less_fn h \<and> hash_fn (move_elems es h) = hash_fn h \<and> elem_cnt (move_elems es h) = elem_cnt h"
proof (induction es arbitrary: h)
  case (Cons e es)
  let ?h = "h\<lparr>buckets := (buckets h)[find_bucket h e := e # buckets h ! find_bucket h e]\<rparr>"
  have fb: "find_bucket ?h y = find_bucket h y" for y by (simp add: find_bucket_def)
  note l = find_bucket_less [OF Cons.prems, of e]
  have "placed_in ?h" using Cons.prems l unfolding placed_in_def fb by (auto simp: nth_list_update)
  moreover have "elems ?h = add_mset e (elems h)" using concat_update [OF l] by (simp add: elems_def)
  ultimately show ?case using Cons.IH [of ?h] by (simp add: Let_def)
qed (simp add: elems_def)

lemma rehash_spec:
  assumes "placed_in h" "hash_ok h"
  shows "\<exists>h'. rehash ok h = Inr h' \<and> placed_in h' \<and> elems h' = elems h \<and> same h' = same h \<and> hash_ok h' \<and> elem_cnt h' = elem_cnt h"
proof -
  let ?n = "if elem_cnt h div BEST_ELEMS_PER_BUCKET < 4 then 4 else elem_cnt h div BEST_ELEMS_PER_BUCKET"
  have n4: "4 \<le> unat ?n" by (auto simp: word_less_nat_alt)
  then have "?n \<noteq> 0" by auto
  then obtain y t where y: "round_to_power_of_2 ?n = Inr y" "unat y = 2 ^ t" "unat ?n < 2 ^ Suc t" using round_to_power_of_2_spec by blast
  have "(2 :: nat) ^ 2 < 2 ^ Suc t" using n4 y(3) by simp
  then have "2 < Suc t" by (rule power_less_imp_less_exp [rotated]) simp
  then have t: "2 \<le> t" by simp
  let ?h = "h\<lparr>buckets := replicate (unat y) [], bucket_cnt := y\<rparr>"
  have "placed_in ?h" using y(2) t by (auto simp: placed_in_def)
  note m = move_elems_facts [OF this, of "concat (buckets h)"]
  have z: "elems ?h = {#}" by (simp add: elems_def)
  let ?m = "move_elems (concat (buckets h)) ?h"
  have s: "same ?m = same h" using m by (simp add: same_def fun_eq_iff)
  have "hash_ok ?m" using assms(2) m unfolding hash_ok_def s by simp
  moreover have "elems ?m = elems h" using m z by (simp add: elems_def [of h])
  ultimately show ?thesis using assms y(1) m s unfolding rehash_def Let_def by auto
qed


subsection \<open>Operations\<close>

lemma counted_add:
  assumes "counted h" "hash_ok h" "\<And>x. x \<in># elems h \<Longrightarrow> \<not> same h x e"
  shows "size (filter_mset (same h a) (add_mset e (elems h))) \<le> 1"
proof (cases "same h a e")
  case True
  have "\<not> same h a x" if "x \<in># elems h" for x
    using assms(3) [OF that] same_equiv(3) [OF assms(2), of x a e] same_equiv(2) [OF assms(2), of a x] True by blast
  then have "filter_mset (same h a) (elems h) = {#}" by (simp add: filter_mset_eq_mempty_iff)
  then show ?thesis using True by simp
next
  case False
  then show ?thesis using assms(1) by (simp add: counted_def)
qed

lemma rehash_inv:
  assumes "placed_in g" "hash_ok g" "counted g"
  shows "\<exists>h'. rehash ok g = Inr h' \<and> hash_inv h' \<and> same h' = same g \<and> elems h' = elems g"
  using rehash_spec [OF assms(1,2), where ok = ok] assms(3) by (auto simp: hash_inv_def counted_def)

lemma insert_new:
  assumes i: "hash_inv g" and n: "\<And>x. x \<in># elems g \<Longrightarrow> \<not> same g x e"
  shows "\<exists>h'. rehash ok (insert_elem g (find_bucket g e) e) = Inr h' \<and> hash_inv h' \<and> same h' = same g \<and> elems h' = add_mset e (elems g)"
proof -
  have p: "placed_in g" "hash_ok g" "counted g" using i by (auto simp: hash_inv_def)
  let ?h = "insert_elem g (find_bucket g e) e"
  note f = insert_elem_facts(1,2) [OF p(1), of e] insert_elem_facts(3,4) [OF p(1), of "find_bucket g e" e]
  have "counted ?h" using counted_add [OF p(3,2) n] p(3) unfolding counted_def f(2,3) by (simp add: insert_elem_def)
  moreover have "hash_ok ?h" using f(4) p(2) by simp
  ultimately show ?thesis using rehash_inv [OF f(1), where ok = ok] unfolding f(2,3) by blast
qed

lemma hash_insert_spec:
  assumes i: "hash_inv h"
  shows "\<exists>h' r. hash_insert ok h e = Inr (r, h') \<and> hash_inv h' \<and> same h' = same h \<and>
     (case r of None \<Rightarrow> (\<forall>x \<in># elems h. \<not> same h x e) \<and> elems h' = add_mset e (elems h)
      | Some x \<Rightarrow> x \<in># elems h \<and> same h x e \<and> elems h' = elems h)"
proof (cases "find_elem h (find_bucket h e) e")
  case None
  then show ?thesis using insert_new [OF i find_elem_spec(2) [OF i None], where ok = ok] find_elem_spec(2) [OF i None]
    by (auto simp: hash_insert_def)
next
  case (Some x)
  then show ?thesis using rehash_inv [of h ok] i find_elem_spec(1) [OF i Some] by (auto simp: hash_insert_def hash_inv_def)
qed

lemma unique_match: "hash_inv h \<Longrightarrow> x \<in># elems h \<Longrightarrow> y \<in># elems h - {#x#} \<Longrightarrow> same h x e \<Longrightarrow> \<not> same h y e"
proof
  assume i: "hash_inv h" and x: "x \<in># elems h" and y: "y \<in># elems h - {#x#}" and s: "same h x e" "same h y e"
  have p: "hash_ok h" "counted h" using i by (auto simp: hash_inv_def)
  have "elems h = add_mset x (add_mset y (elems h - {#x#} - {#y#}))" using x y by (metis insert_DiffM)
  moreover have "same h x x" "same h x y" using s same_equiv [OF p(1)] by blast+
  moreover define R where "R = elems h - {#x#} - {#y#}"
  ultimately have "filter_mset (same h x) (elems h) = add_mset x (add_mset y (filter_mset (same h x) R))" by (metis filter_mset_add_mset)
  then have "2 \<le> size (filter_mset (same h x) (elems h))" by simp
  moreover have "size (filter_mset (same h x) (elems h)) \<le> 1" using p(2) by (simp add: counted_def)
  ultimately show False by simp
qed

lemma remove_elem_inv:
  assumes i: "hash_inv h" and x: "x \<in># elems h"
  shows "hash_inv (remove_elem h x)"
proof -
  note f = remove_elem_facts [OF i x]
  have p: "counted h" using i by (simp add: hash_inv_def)
  have "size (elems h - {#x#}) = size (elems h) - 1" using x by (simp add: size_Diff_singleton)
  moreover have "0 < size (elems h)" using x by (auto simp: nonempty_has_size [symmetric])
  ultimately have "elem_cnt h - 1 = of_nat (size (elems h - {#x#}))" using p by (simp add: counted_def of_nat_diff)
  moreover have "size (filter_mset (same h a) (elems h - {#x#})) \<le> 1" for a
    using p size_mset_mono [OF multiset_filter_mono [OF diff_subset_eq_self [of "elems h" "{#x#}"], of "same h a"]] by (auto simp: counted_def intro: le_trans)
  ultimately have "counted (remove_elem h x)" unfolding counted_def f(2,3) by (simp add: remove_elem_def)
  then show ?thesis using f by (simp add: hash_inv_def)
qed

lemma hash_delete_spec:
  assumes i: "hash_inv h"
  shows "\<exists>h' r. hash_delete ok h e = Inr (r, h') \<and> hash_inv h' \<and> same h' = same h \<and>
     (case r of None \<Rightarrow> (\<forall>x \<in># elems h. \<not> same h x e) \<and> elems h' = elems h
      | Some x \<Rightarrow> x \<in># elems h \<and> same h x e \<and> elems h' = elems h - {#x#})"
proof (cases "find_elem h (find_bucket h e) e")
  case None
  then show ?thesis using i find_elem_spec(2) [OF i None] by (auto simp: hash_delete_def)
next
  case (Some x)
  have x: "x \<in># elems h" "same h x e" using find_elem_spec(1) [OF i Some] by auto
  note f = remove_elem_facts [OF i x(1)]
  have "counted (remove_elem h x)" using remove_elem_inv [OF i x(1)] by (simp add: hash_inv_def)
  from rehash_inv [OF f(1,4) this, where ok = ok] show ?thesis using Some x f(2,3) by (auto simp: hash_delete_def)
qed

lemma hash_replace_spec:
  assumes i: "hash_inv h"
  shows "\<exists>h' r. hash_replace ok h e = Inr (r, h') \<and> hash_inv h' \<and> same h' = same h \<and>
     (case r of None \<Rightarrow> (\<forall>x \<in># elems h. \<not> same h x e) \<and> elems h' = add_mset e (elems h)
      | Some x \<Rightarrow> x \<in># elems h \<and> same h x e \<and> elems h' = add_mset e (elems h - {#x#}))"
proof (cases "find_elem h (find_bucket h e) e")
  case None
  then show ?thesis using insert_new [OF i find_elem_spec(2) [OF i None], where ok = ok] find_elem_spec(2) [OF i None]
    by (auto simp: hash_replace_def)
next
  case (Some x)
  have x: "x \<in># elems h" "same h x e" using find_elem_spec(1) [OF i Some] by auto
  note f = remove_elem_facts [OF i x(1)]
  have n: "\<not> same (remove_elem h x) y e" if "y \<in># elems (remove_elem h x)" for y
    using unique_match [OF i x(1) _ x(2)] that unfolding f(2,3) by blast
  have b: "find_bucket (remove_elem h x) e = find_bucket h e" by (simp add: find_bucket_def remove_elem_def)
  show ?thesis using insert_new [OF remove_elem_inv [OF i x(1)] n, where ok = ok] Some x f(2,3) b by (auto simp: hash_replace_def)
qed

lemma hash_find_spec:
  assumes i: "hash_inv h"
  shows "hash_find h e = Some x \<longleftrightarrow> x \<in># elems h \<and> same h x e"
proof (cases "hash_find h e")
  case None
  then show ?thesis using find_elem_spec(2) [OF i, of e] unfolding hash_find_def by auto
next
  case (Some y)
  have y: "y \<in># elems h" "same h y e" using find_elem_spec(1) [OF i, of e y] Some by (auto simp: hash_find_def)
  have "x = y" if x: "x \<in># elems h" "same h x e"
  proof (rule ccontr)
    assume "x \<noteq> y"
    then have "x \<in># elems h - {#y#}" using x(1) by (simp add: in_diff_count)
    then show False using unique_match [OF i y(1) _ y(2)] x(2) by blast
  qed
  then show ?thesis using Some y by auto
qed

lemma hash_init_inv:
  assumes "strict_weak_order lf" "\<And>a b. \<not> lf a b \<Longrightarrow> \<not> lf b a \<Longrightarrow> hf a = hf b"
  shows "\<exists>h. hash_init True hf lf = (True, h) \<and> hash_inv h \<and> elems h = {#}"
proof -
  let ?h = "snd (hash_init True hf lf)"
  have "hash_ok ?h" using assms by (simp add: hash_init_def hash_clear_def hash_ok_def same_def)
  moreover have "placed_in ?h" by (auto simp: hash_init_def hash_clear_def placed_in_def intro!: exI [of _ 2])
  moreover have "elems ?h = {#}" by (simp add: hash_init_def hash_clear_def elems_def)
  moreover from this have "counted ?h" by (simp add: counted_def) (simp add: hash_init_def hash_clear_def)
  ultimately show ?thesis by (auto simp: hash_inv_def hash_init_def)
qed


subsection \<open>Iteration\<close>

definition ahead :: "'e hash \<Rightarrow> 'e hash_iterator \<Rightarrow> 'e list" where
  "ahead h i = drop (it_passed i) (buckets h ! it_bucket i) @ concat (drop (Suc (it_bucket i)) (buckets h))"

lemma hash_next_loop_spec:
  assumes "length (buckets h) = unat (bucket_cnt h)" "b < length (buckets h)"
  shows "case drop p (buckets h ! b) @ concat (drop (Suc b) (buckets h)) of
      [] \<Rightarrow> it_elem (hash_next_loop h b p) = None
    | e # es \<Rightarrow> it_elem (hash_next_loop h b p) = Some e \<and> it_bucket (hash_next_loop h b p) < length (buckets h) \<and> ahead h (hash_next_loop h b p) = es"
  using assms
proof (induction h b p rule: hash_next_loop.induct)
  case (1 h b p)
  consider (here) "p < length (buckets h ! b)" | (over) "\<not> p < length (buckets h ! b)" "b + 1 \<ge> unat (bucket_cnt h)"
    | (on) "\<not> p < length (buckets h ! b)" "\<not> b + 1 \<ge> unat (bucket_cnt h)" by blast
  then show ?case
  proof cases
    case here
    then show ?thesis using 1(3) by (subst Cons_nth_drop_Suc [symmetric]) (simp_all add: hash_next_loop.simps [of h b p] ahead_def)
  next
    case over
    then show ?thesis using 1(2) by (simp add: hash_next_loop.simps [of h b p])
  next
    case on
    have d: "drop (Suc b) (buckets h) = buckets h ! Suc b # drop (Suc (Suc b)) (buckets h)" using on 1(2) by (simp add: Cons_nth_drop_Suc)
    have e: "hash_next_loop h b p = hash_next_loop h (Suc b) 0" using on by (simp add: hash_next_loop.simps [of h b p])
    show ?thesis unfolding d e using on 1(1) [OF on 1(2)] 1(2) unfolding Suc_eq_plus1 [symmetric] by simp
  qed
qed

lemma hash_next_enumerates:
  assumes "length (buckets h) = unat (bucket_cnt h)" "it_bucket i < length (buckets h)" "n \<le> length (ahead h i)"
  shows "hash_cur ((hash_next h ^^ Suc n) i) = (if n < length (ahead h i) then Some (ahead h i ! n) else None)"
  using assms(2,3)
proof (induction n arbitrary: i)
  case 0
  then show ?case using hash_next_loop_spec [OF assms(1) 0(1), of "it_passed i"] unfolding ahead_def [of h i, symmetric]
    by (cases "ahead h i") (simp_all add: hash_next_def hash_cur_def)
next
  case (Suc n)
  then obtain e es where a: "ahead h i = e # es" by (cases "ahead h i") auto
  then have "it_bucket (hash_next h i) < length (buckets h)" "ahead h (hash_next h i) = es"
    using hash_next_loop_spec [OF assms(1) Suc.prems(1), of "it_passed i"] unfolding ahead_def [of h i, symmetric] by (simp_all add: hash_next_def)
  then show ?case using Suc.IH [of "hash_next h i"] Suc.prems(2) a by (simp add: funpow_swap1)
qed

lemma hash_iteration:
  assumes "placed_in h" "n \<le> length (hash_apply h)"
  shows "hash_cur ((hash_next h ^^ Suc n) (hash_first h)) = (if n < length (hash_apply h) then Some (hash_apply h ! n) else None)"
proof -
  have l: "length (buckets h) = unat (bucket_cnt h)" "0 < length (buckets h)" using assms(1) by (auto simp: placed_in_def)
  then have "ahead h (hash_first h) = hash_apply h" by (cases "buckets h") (simp_all add: ahead_def hash_first_def hash_apply_def)
  then show ?thesis using hash_next_enumerates [OF l(1), of "hash_first h" n] assms(2) l(2) by (simp add: hash_first_def)
qed


subsection \<open>Tables keyed by a part of the element\<close>

text \<open>The users of hash.c hash and compare one member of the structure that embeds the
  \<^verbatim>\<open>struct hash_elem\<close>; a search passes a structure in which only this key is set.\<close>

definition by_key :: "'k::linorder \<times> 'v \<Rightarrow> 'k \<times> 'v \<Rightarrow> bool" where
  "by_key a b \<longleftrightarrow> fst a < fst b"

definition keyed_inv :: "('k::linorder \<times> 'v) hash \<Rightarrow> bool" where
  "keyed_inv h \<longleftrightarrow> hash_inv h \<and> same h = (\<lambda>a b. fst a = fst b)"

definition keyed_map :: "('k::linorder \<times> 'v) hash \<Rightarrow> 'k \<rightharpoonup> 'v" where
  "keyed_map h = map_of (hash_apply h)"

definition keyed_add :: "bool \<Rightarrow> 'k::linorder \<Rightarrow> 'v \<Rightarrow> ('k \<times> 'v) hash \<Rightarrow> ('k \<times> 'v) hash option" where
  "keyed_add ok k v h = (case hash_insert ok h (k, v) of Inr (None, h') \<Rightarrow> Some h' | _ \<Rightarrow> None)"

definition keyed_del :: "bool \<Rightarrow> 'v \<Rightarrow> 'k::linorder \<Rightarrow> ('k \<times> 'v) hash \<Rightarrow> ('k \<times> 'v) hash option" where
  "keyed_del ok v0 k h = (case hash_delete ok h (k, v0) of Inr (Some _, h') \<Rightarrow> Some h' | _ \<Rightarrow> None)"

lemma option_eqI: "(\<And>w. a = Some w \<longleftrightarrow> b = Some w) \<Longrightarrow> a = b"
  by (metis option.exhaust)

lemma by_key_order: "strict_weak_order by_key"
  by unfold_locales (auto simp: by_key_def)

lemma keyed_map_iff:
  assumes "keyed_inv h"
  shows "keyed_map h k = Some v \<longleftrightarrow> (k, v) \<in># elems h"
proof
  assume "keyed_map h k = Some v"
  then show "(k, v) \<in># elems h" unfolding keyed_map_def hash_apply_def elems_def set_mset_mset by (rule map_of_SomeD)
next
  assume e: "(k, v) \<in># elems h"
  then obtain w where w: "keyed_map h k = Some w" using weak_map_of_SomeI [of k v "hash_apply h"] unfolding keyed_map_def hash_apply_def elems_def set_mset_mset by blast
  then have "(k, w) \<in># elems h" unfolding keyed_map_def hash_apply_def elems_def set_mset_mset by (rule map_of_SomeD)
  then have "hash_find h (k, v) = Some (k, w)" "hash_find h (k, v) = Some (k, v)" using e assms by (auto simp: hash_find_spec keyed_inv_def)
  then show "keyed_map h k = Some v" using w by simp
qed

lemma keyed_map_None:
  assumes "keyed_inv h"
  shows "keyed_map h k = None \<longleftrightarrow> (\<forall>v. (k, v) \<notin># elems h)"
  using keyed_map_iff [OF assms, of k] by (cases "keyed_map h k") auto

lemma keyed_find:
  assumes "keyed_inv h"
  shows "map_option snd (hash_find h (k, v0)) = keyed_map h k"
proof (cases "hash_find h (k, v0)")
  case None
  then have "(k, v) \<notin># elems h" for v using hash_find_spec [of h "(k, v0)" "(k, v)"] assms by (simp add: keyed_inv_def)
  then show ?thesis using None keyed_map_None [OF assms, of k] by (metis option.map(1))
next
  case (Some x)
  then have "(k, snd x) \<in># elems h" using hash_find_spec [of h "(k, v0)" x] assms by (cases x) (simp add: keyed_inv_def)
  then show ?thesis using Some keyed_map_iff [OF assms, of k "snd x"] by simp
qed

lemma keyed_update:
  assumes h: "keyed_inv h" and g: "keyed_inv g" and e: "elems g = add_mset (k, v) M" and m: "\<And>j w. j \<noteq> k \<Longrightarrow> (j, w) \<in># M \<longleftrightarrow> (j, w) \<in># elems h"
    and n: "\<And>w. (k, w) \<notin># M"
  shows "keyed_map g = (keyed_map h)(k \<mapsto> v)"
proof (intro ext option_eqI)
  show "keyed_map g j = Some w \<longleftrightarrow> ((keyed_map h)(k \<mapsto> v)) j = Some w" for j w
    using keyed_map_iff [OF g, of j w] keyed_map_iff [OF h, of j w] e m n by auto
qed

lemma keyed_removed:
  assumes "keyed_inv h" "(k, v) \<in># elems h"
  shows "j \<noteq> k \<Longrightarrow> (j, w) \<in># elems h - {#(k, v)#} \<longleftrightarrow> (j, w) \<in># elems h" "(k, w) \<notin># elems h - {#(k, v)#}"
  using assms unique_match [of h "(k, v)" "(k, w)" "(k, v)"] by (auto simp: in_diff_count keyed_inv_def)

lemma keyed_insert:
  assumes h: "keyed_inv h"
  shows "\<exists>r h'. hash_insert ok h (k, v) = Inr (r, h') \<and> keyed_inv h' \<and> map_option snd r = keyed_map h k \<and>
     keyed_map h' = (if keyed_map h k = None then (keyed_map h)(k \<mapsto> v) else keyed_map h)"
proof -
  have i: "hash_inv h" "same h = (\<lambda>a b. fst a = fst b)" using h by (auto simp: keyed_inv_def)
  obtain r g where r: "hash_insert ok h (k, v) = Inr (r, g)" "hash_inv g" "same g = same h"
      "case r of None \<Rightarrow> (\<forall>x \<in># elems h. \<not> same h x (k, v)) \<and> elems g = add_mset (k, v) (elems h)
       | Some x \<Rightarrow> x \<in># elems h \<and> same h x (k, v) \<and> elems g = elems h"
    using hash_insert_spec [OF i(1), of ok "(k, v)"] by blast
  have g: "keyed_inv g" using r(2,3) i(2) by (simp add: keyed_inv_def)
  show ?thesis
  proof (cases r)
    case None
    then have e: "elems g = add_mset (k, v) (elems h)" and n: "\<And>w. (k, w) \<notin># elems h" using r(4) i(2) by auto
    have "keyed_map h k = None" using n keyed_map_None [OF h] by auto
    then show ?thesis using r(1) g None keyed_update [OF h g e refl n] by auto
  next
    case (Some x)
    then have x: "(k, snd x) \<in># elems h" and e: "elems g = elems h" using r(4) i(2) by (cases x, auto)+
    have "keyed_map g = keyed_map h" using keyed_map_iff [OF g] keyed_map_iff [OF h] unfolding e by (intro ext option_eqI) simp
    then show ?thesis using r(1) g Some x keyed_map_iff [OF h, of k "snd x"] by (cases x) auto
  qed
qed

lemma keyed_replace:
  assumes h: "keyed_inv h"
  shows "\<exists>r h'. hash_replace ok h (k, v) = Inr (r, h') \<and> keyed_inv h' \<and> map_option snd r = keyed_map h k \<and>
     keyed_map h' = (keyed_map h)(k \<mapsto> v)"
proof -
  have i: "hash_inv h" "same h = (\<lambda>a b. fst a = fst b)" using h by (auto simp: keyed_inv_def)
  obtain r g where r: "hash_replace ok h (k, v) = Inr (r, g)" "hash_inv g" "same g = same h"
      "case r of None \<Rightarrow> (\<forall>x \<in># elems h. \<not> same h x (k, v)) \<and> elems g = add_mset (k, v) (elems h)
       | Some x \<Rightarrow> x \<in># elems h \<and> same h x (k, v) \<and> elems g = add_mset (k, v) (elems h - {#x#})"
    using hash_replace_spec [OF i(1), of ok "(k, v)"] by blast
  have g: "keyed_inv g" using r(2,3) i(2) by (simp add: keyed_inv_def)
  show ?thesis
  proof (cases r)
    case None
    then have e: "elems g = add_mset (k, v) (elems h)" and n: "\<And>w. (k, w) \<notin># elems h" using r(4) i(2) by auto
    have "keyed_map h k = None" using n keyed_map_None [OF h] by auto
    then show ?thesis using r(1) g None keyed_update [OF h g e refl n] by auto
  next
    case (Some x)
    then obtain w where x: "x = (k, w)" "(k, w) \<in># elems h" and e: "elems g = add_mset (k, v) (elems h - {#(k, w)#})" using r(4) i(2) by (cases x) auto
    show ?thesis using r(1) g Some x keyed_map_iff [OF h, of k w] keyed_update [OF h g e keyed_removed [OF h x(2)]] by auto
  qed
qed

lemma keyed_delete:
  assumes h: "keyed_inv h"
  shows "\<exists>r h'. hash_delete ok h (k, v) = Inr (r, h') \<and> keyed_inv h' \<and> map_option snd r = keyed_map h k \<and>
     keyed_map h' = (keyed_map h)(k := None)"
proof -
  have i: "hash_inv h" "same h = (\<lambda>a b. fst a = fst b)" using h by (auto simp: keyed_inv_def)
  obtain r g where r: "hash_delete ok h (k, v) = Inr (r, g)" "hash_inv g" "same g = same h"
      "case r of None \<Rightarrow> (\<forall>x \<in># elems h. \<not> same h x (k, v)) \<and> elems g = elems h
       | Some x \<Rightarrow> x \<in># elems h \<and> same h x (k, v) \<and> elems g = elems h - {#x#}"
    using hash_delete_spec [OF i(1), of ok "(k, v)"] by blast
  have g: "keyed_inv g" using r(2,3) i(2) by (simp add: keyed_inv_def)
  show ?thesis
  proof (cases r)
    case None
    then have e: "elems g = elems h" and n: "\<And>w. (k, w) \<notin># elems h" using r(4) i(2) by auto
    have k: "keyed_map h k = None" using n keyed_map_None [OF h] by auto
    have "keyed_map g = (keyed_map h)(k := None)" using keyed_map_iff [OF g] keyed_map_iff [OF h] n unfolding e by (intro ext option_eqI) auto
    then show ?thesis using r(1) g None k by auto
  next
    case (Some x)
    then obtain w where x: "x = (k, w)" "(k, w) \<in># elems h" and e: "elems g = elems h - {#(k, w)#}" using r(4) i(2) by (cases x) auto
    have "keyed_map g = (keyed_map h)(k := None)"
      using keyed_map_iff [OF g] keyed_map_iff [OF h] keyed_removed [OF h x(2)] unfolding e by (intro ext option_eqI) (auto split: if_splits)
    then show ?thesis using r(1) g Some x keyed_map_iff [OF h, of k w] by auto
  qed
qed

interpretation hash_table: name_table keyed_inv keyed_map "\<lambda>_ _. True" "keyed_add ok" "keyed_del ok v0" for ok v0
proof
  show "keyed_map t n = None \<and> keyed_inv t' \<and> keyed_map t' = (keyed_map t)(n \<mapsto> v)" if "keyed_inv t" "keyed_add ok n v t = Some t'" for t t' n v
    using keyed_insert [OF that(1), of ok n v] that(2) by (auto simp: keyed_add_def split: option.splits)
  show "keyed_inv t' \<and> keyed_map t' = (keyed_map t)(n := None)" if "keyed_inv t" "keyed_del ok v0 n t = Some t'" for t t' n
    using keyed_delete [OF that(1), of ok n v0] that(2) by (auto simp: keyed_del_def split: option.splits)
  show "keyed_del ok v0 n t = None \<longleftrightarrow> keyed_map t n = None" if "keyed_inv t" for t n
    using keyed_delete [OF that(1), of ok n v0] by (auto simp: keyed_del_def split: option.splits)
qed

end
