(* ===== verification/Stdio.thy ===== *)
theory Stdio
  imports Stdlib
begin

text \<open>
  Formatted output (src/pintos2/src/lib/stdio.c).

  \<^item> A format is the bytes before its terminator. Moving past the terminator, which the code does
    for a conversion that is cut off by the end of the format, is \<open>Undefined\<close>.
  \<^item> A \<^verbatim>\<open>va_list\<close> is what it is on the i386: the 32-bit words on the stack. A 64-bit argument is two
    words, the low one first; taking an argument that was not passed is \<open>Undefined\<close>.
  \<^item> \<^verbatim>\<open>output\<close> and \<^verbatim>\<open>aux\<close> are a function on a state and that state. The strings of \<open>%s\<close> are read
    from the memory \<open>rd aux\<close>, since the output may be going to memory too.
  \<^item> \<open>fuel\<close> counts the turns of the loop over the format, a nested call for an unknown conversion
    included; \<open>k\<close> bounds the length of a string argument.
\<close>

subsection \<open>Conversions\<close>

definition MINUS :: u32 where "MINUS = 1"
definition PLUS :: u32 where "PLUS = 2"
definition SPACE :: u32 where "SPACE = 4"
definition POUND :: u32 where "POUND = 8"
definition ZERO :: u32 where "ZERO = 16"
definition GROUP :: u32 where "GROUP = 32"

lemmas flag_defs = MINUS_def PLUS_def SPACE_def POUND_def ZERO_def GROUP_def

datatype arg_type = CHAR_ARG | SHORT_ARG | INT_ARG | INTMAX_ARG | LONG_ARG | LONGLONG_ARG | PTRDIFFT_ARG | SIZET_ARG

record printf_conversion =
  flags :: u32
  width :: int
  precision :: int
  arg_type :: arg_type

record integer_base =
  radix :: nat
  digits :: "u8 list"
  x_char :: u8
  group :: nat

text \<open>The bytes of a string literal.\<close>

definition lit :: "string \<Rightarrow> u8 list" where
  "lit s = map of_char s"

definition base_d :: integer_base where "base_d = \<lparr>radix = 10, digits = lit ''0123456789'', x_char = 0, group = 3\<rparr>"
definition base_o :: integer_base where "base_o = \<lparr>radix = 8, digits = lit ''01234567'', x_char = 0, group = 3\<rparr>"
definition base_x :: integer_base where "base_x = \<lparr>radix = 16, digits = lit ''0123456789abcdef'', x_char = 120, group = 4\<rparr>"
definition base_X :: integer_base where "base_X = \<lparr>radix = 16, digits = lit ''0123456789ABCDEF'', x_char = 88, group = 4\<rparr>"

text \<open>The byte a pointer into a string is at, the terminator at its end.\<close>

definition peek :: "u8 list \<Rightarrow> u8" where
  "peek f = (case f of [] \<Rightarrow> 0 | c # _ \<Rightarrow> c)"

fun va_word :: "u32 list \<Rightarrow> (u32 \<times> u32 list) res" where
  "va_word [] = Inl Undefined"
| "va_word (w # ws) = Inr (w, ws)"

definition va_long :: "u32 list \<Rightarrow> (u64 \<times> u32 list) res" where
  "va_long ws =
     rbind (va_word ws) (\<lambda>(l, ws1). rbind (va_word ws1) (\<lambda>(h, ws2). Inr (push_bit 32 (ucast h) OR ucast l, ws2)))"

fun parse_flags :: "u8 list \<Rightarrow> u32 \<Rightarrow> u8 list \<times> u32" where
  "parse_flags [] fl = ([], fl)"
| "parse_flags (c # f) fl =
     (if c = 45 then parse_flags f (fl OR MINUS)
      else if c = 43 then parse_flags f (fl OR PLUS)
      else if c = 32 then parse_flags f (fl OR SPACE)
      else if c = 35 then parse_flags f (fl OR POUND)
      else if c = 48 then parse_flags f (fl OR ZERO)
      else if c = 39 then parse_flags f (fl OR GROUP)
      else (c # f, fl))"

fun parse_number :: "u8 list \<Rightarrow> int \<Rightarrow> (u8 list \<times> int) res" where
  "parse_number [] n = Inr ([], n)"
| "parse_number (c # f) n =
     (if isdigit c
      then kdefined (n * 10 + int (unat c) < 2 ^ 31) (parse_number f (n * 10 + int (unat c) - 48))
      else Inr (c # f, n))"

text \<open>A width or a precision: the next argument for a star, a number otherwise.\<close>

definition parse_amount :: "u8 list \<Rightarrow> u32 list \<Rightarrow> (u8 list \<times> int \<times> u32 list) res" where
  "parse_amount f args =
     (if peek f = 42 then rbind (va_word args) (\<lambda>(w, args1). Inr (tl f, sint w, args1))
      else rbind (parse_number f 0) (\<lambda>(f1, n). Inr (f1, n, args)))"

definition parse_precision :: "u8 list \<Rightarrow> u32 list \<Rightarrow> (u8 list \<times> int \<times> u32 list) res" where
  "parse_precision f args =
     (if peek f = 46
      then rbind (parse_amount (tl f) args) (\<lambda>(f1, p, args1). Inr (f1, if p < 0 then - 1 else p, args1))
      else Inr (f, - 1, args))"

definition parse_type :: "u8 list \<Rightarrow> u8 list \<times> arg_type" where
  "parse_type f =
     (if peek f = 104 then (if peek (tl f) = 104 then (tl (tl f), CHAR_ARG) else (tl f, SHORT_ARG))
      else if peek f = 106 then (tl f, INTMAX_ARG)
      else if peek f = 108 then (if peek (tl f) = 108 then (tl (tl f), LONGLONG_ARG) else (tl f, LONG_ARG))
      else if peek f = 116 then (tl f, PTRDIFFT_ARG)
      else if peek f = 122 then (tl f, SIZET_ARG)
      else (f, INT_ARG))"

definition parse_conversion :: "u8 list \<Rightarrow> u32 list \<Rightarrow> (u8 list \<times> printf_conversion \<times> u32 list) res" where
  "parse_conversion f args =
     (let (f1, fl) = parse_flags f 0;
          fl1 = (if fl AND MINUS \<noteq> 0 then fl AND NOT ZERO else fl);
          fl2 = (if fl1 AND PLUS \<noteq> 0 then fl1 AND NOT SPACE else fl1)
      in rbind (parse_amount f1 args) (\<lambda>(f2, w, args1).
           kdefined (w \<noteq> - (2 ^ 31))
            (let wd = (if w < 0 then - w else w); fl3 = (if w < 0 then fl2 OR MINUS else fl2)
             in rbind (parse_precision f2 args1) (\<lambda>(f3, p, args2).
                  let fl4 = (if 0 \<le> p then fl3 AND NOT ZERO else fl3); (f4, ty) = parse_type f3
                  in Inr (f4, \<lparr>flags = fl4, width = wd, precision = p, arg_type = ty\<rparr>, args2)))))"

subsection \<open>Formatting\<close>

fun output_dup :: "u8 \<Rightarrow> nat \<Rightarrow> (u8 \<Rightarrow> 'a \<Rightarrow> 'a) \<Rightarrow> 'a \<Rightarrow> 'a" where
  "output_dup c 0 output aux = aux"
| "output_dup c (Suc cnt) output aux = output_dup c cnt output (output c aux)"

text \<open>\<^verbatim>\<open>*cp++ = ch\<close> in the buffer of 64 bytes, which is kept as the bytes written to it.\<close>

definition buf_put :: "u8 list \<Rightarrow> u8 \<Rightarrow> u8 list res" where
  "buf_put buf c = kdefined (length buf < 64) (Inr (buf @ [c]))"

fun digits_loop :: "nat \<Rightarrow> nat \<Rightarrow> nat \<Rightarrow> integer_base \<Rightarrow> u32 \<Rightarrow> u8 list \<Rightarrow> u8 list res" where
  "digits_loop 0 value digit_cnt b fl buf = Inl Diverged"
| "digits_loop (Suc fuel) value digit_cnt b fl buf =
     (if value > 0
      then rbind (if fl AND GROUP \<noteq> 0 \<and> digit_cnt > 0 \<and> digit_cnt mod group b = 0 then buf_put buf 44 else Inr buf) (\<lambda>buf1.
           rbind (buf_put buf1 (digits b ! (value mod radix b))) (\<lambda>buf2.
             digits_loop fuel (value div radix b) (digit_cnt + 1) b fl buf2))
      else Inr buf)"

function zeros_loop :: "int \<Rightarrow> u8 list \<Rightarrow> u8 list" where
  "zeros_loop prec buf = (if int (length buf) < prec \<and> length buf < 63 then zeros_loop prec (buf @ [48]) else buf)"
  by auto
termination by (relation "measure (\<lambda>(prec, buf). 63 - length buf)") auto

definition sign_char :: "bool \<Rightarrow> bool \<Rightarrow> u32 \<Rightarrow> u8" where
  "sign_char is_signed negative fl =
     (if is_signed
      then if fl AND PLUS \<noteq> 0 then (if negative then 45 else 43)
           else if fl AND SPACE \<noteq> 0 then (if negative then 45 else 32)
           else if negative then 45 else 0
      else 0)"

definition format_integer ::
  "nat \<Rightarrow> bool \<Rightarrow> bool \<Rightarrow> integer_base \<Rightarrow> printf_conversion \<Rightarrow> (u8 \<Rightarrow> 'a \<Rightarrow> 'a) \<Rightarrow> 'a \<Rightarrow> 'a res" where
  "format_integer value is_signed negative b c output aux =
     (let sign = sign_char is_signed negative (flags c);
          x = (if flags c AND POUND \<noteq> 0 \<and> value \<noteq> 0 then x_char b else 0)
      in rbind (digits_loop 65 value 0 b (flags c) []) (\<lambda>buf1.
           let prec = (if precision c < 0 then 1 else precision c); buf2 = zeros_loop prec buf1
           in rbind (if flags c AND POUND \<noteq> 0 \<and> radix b = 8 \<and> (buf2 = [] \<or> last buf2 \<noteq> 48) then buf_put buf2 48 else Inr buf2) (\<lambda>buf.
                let pad_cnt = nat (width c - int (length buf) - (if x \<noteq> 0 then 2 else 0) - (if sign \<noteq> 0 then 1 else 0));
                    aux1 = (if flags c AND (MINUS OR ZERO) = 0 then output_dup 32 pad_cnt output aux else aux);
                    aux2 = (if sign \<noteq> 0 then output sign aux1 else aux1);
                    aux3 = (if x \<noteq> 0 then output x (output 48 aux2) else aux2);
                    aux4 = (if flags c AND ZERO \<noteq> 0 then output_dup 48 pad_cnt output aux3 else aux3);
                    aux5 = fold output (rev buf) aux4
                in Inr (if flags c AND MINUS \<noteq> 0 then output_dup 32 pad_cnt output aux5 else aux5))))"

text \<open>\<open>get aux i\<close> is \<^verbatim>\<open>string[i]\<close>, which the output may change.\<close>

fun string_loop :: "('a \<Rightarrow> nat \<Rightarrow> u8) \<Rightarrow> nat \<Rightarrow> nat \<Rightarrow> (u8 \<Rightarrow> 'a \<Rightarrow> 'a) \<Rightarrow> 'a \<Rightarrow> 'a" where
  "string_loop get i 0 output aux = aux"
| "string_loop get i (Suc n) output aux = string_loop get (i + 1) n output (output (get aux i) aux)"

definition format_string ::
  "('a \<Rightarrow> nat \<Rightarrow> u8) \<Rightarrow> nat \<Rightarrow> printf_conversion \<Rightarrow> (u8 \<Rightarrow> 'a \<Rightarrow> 'a) \<Rightarrow> 'a \<Rightarrow> 'a" where
  "format_string get len c output aux =
     (let pad = nat (width c - int len);
          aux1 = (if width c > int len \<and> flags c AND MINUS = 0 then output_dup 32 pad output aux else aux);
          aux2 = string_loop get 0 len output aux1
      in if width c > int len \<and> flags c AND MINUS \<noteq> 0 then output_dup 32 pad output aux2 else aux2)"

definition signed_arg :: "arg_type \<Rightarrow> u32 list \<Rightarrow> (int \<times> u32 list) res" where
  "signed_arg ty args =
     (if ty = INTMAX_ARG \<or> ty = LONGLONG_ARG then rbind (va_long args) (\<lambda>(v, args1). Inr (sint v, args1))
      else rbind (va_word args) (\<lambda>(w, args1).
        Inr (case ty of CHAR_ARG \<Rightarrow> sint (ucast w :: u8)
                      | SHORT_ARG \<Rightarrow> sint (ucast w :: u16)
                      | SIZET_ARG \<Rightarrow> (if uint w > (2 ^ 32 - 1) div 2 then uint w - (2 ^ 32 - 1) - 1 else uint w)
                      | _ \<Rightarrow> sint w, args1)))"

definition unsigned_arg :: "arg_type \<Rightarrow> u32 list \<Rightarrow> (nat \<times> u32 list) res" where
  "unsigned_arg ty args =
     (if ty = INTMAX_ARG \<or> ty = LONGLONG_ARG then rbind (va_long args) (\<lambda>(v, args1). Inr (unat v, args1))
      else rbind (va_word args) (\<lambda>(w, args1).
        Inr (case ty of CHAR_ARG \<Rightarrow> unat (ucast w :: u8)
                      | SHORT_ARG \<Rightarrow> unat (ucast w :: u16)
                      | PTRDIFFT_ARG \<Rightarrow> unat ((scast w :: u64) AND 0xffffffff)
                      | _ \<Rightarrow> unat w, args1)))"

text \<open>One conversion with the character that selects it; \<open>no\<close> prints the text for an unsupported one.\<close>

definition convert ::
  "nat \<Rightarrow> ('a \<Rightarrow> mem) \<Rightarrow> (u8 \<Rightarrow> 'a \<Rightarrow> 'a) \<Rightarrow> (u8 list \<Rightarrow> u32 list \<Rightarrow> 'a \<Rightarrow> 'a res) \<Rightarrow> u8 \<Rightarrow> printf_conversion \<Rightarrow>
   u32 list \<Rightarrow> 'a \<Rightarrow> (u32 list \<times> 'a) res" where
  "convert k rd output no ch c args aux =
     (if ch = 100 \<or> ch = 105 then
        rbind (signed_arg (arg_type c) args) (\<lambda>(value, args1).
          kdefined (value \<noteq> - (2 ^ 63))
           (rbind (format_integer (nat \<bar>value\<bar>) True (value < 0) base_d c output aux) (\<lambda>aux1. Inr (args1, aux1))))
      else if ch = 111 \<or> ch = 117 \<or> ch = 120 \<or> ch = 88 then
        rbind (unsigned_arg (arg_type c) args) (\<lambda>(value, args1).
          let b = (if ch = 111 then base_o else if ch = 117 then base_d else if ch = 120 then base_x else base_X)
          in rbind (format_integer value False False b c output aux) (\<lambda>aux1. Inr (args1, aux1)))
      else if ch = 99 then
        rbind (va_word args) (\<lambda>(w, args1). Inr (args1, format_string (\<lambda>_ _. ucast w) 1 c output aux))
      else if ch = 115 then
        rbind (va_word args) (\<lambda>(s, args1).
          let maxlen = unat (word_of_int (precision c) :: u32)
          in if s = 0 then Inr (args1, format_string (\<lambda>_ i. lit ''(null)'' ! i) (min 6 maxlen) c output aux)
             else rbind (strnlen k s maxlen (rd aux)) (\<lambda>len.
               Inr (args1, format_string (\<lambda>a i. rd a (s + of_nat i)) len c output aux)))
      else if ch = 112 then
        rbind (va_word args) (\<lambda>(p, args1).
          rbind (format_integer (unat p) False False base_x (c\<lparr>flags := POUND\<rparr>) output aux) (\<lambda>aux1. Inr (args1, aux1)))
      else if ch \<in> {102, 101, 69, 103, 71, 110} then
        rbind (no (lit ''<<no %%%c in kernel>>'') [scast ch] aux) (\<lambda>aux1. Inr (args, aux1))
      else rbind (no (lit ''<<no %%%c conversion>>'') [scast ch] aux) (\<lambda>aux1. Inr (args, aux1)))"

fun vprintf :: "nat \<Rightarrow> nat \<Rightarrow> ('a \<Rightarrow> mem) \<Rightarrow> (u8 \<Rightarrow> 'a \<Rightarrow> 'a) \<Rightarrow> u8 list \<Rightarrow> u32 list \<Rightarrow> 'a \<Rightarrow> 'a res" where
  "vprintf 0 k rd output f args aux = Inl Diverged"
| "vprintf (Suc fuel) k rd output f args aux =
     (case f of
        [] \<Rightarrow> Inr aux
      | ch # f0 \<Rightarrow>
         if ch \<noteq> 37 then vprintf fuel k rd output f0 args (output ch aux)
         else if peek f0 = 37 then vprintf fuel k rd output (tl f0) args (output 37 aux)
         else rbind (parse_conversion f0 args) (\<lambda>(f1, c, args1).
              rbind (convert k rd output (vprintf fuel k rd output) (peek f1) c args1 aux) (\<lambda>(args2, aux1).
                if f1 = [] then Inl Undefined else vprintf fuel k rd output (tl f1) args2 aux1)))"

subsection \<open>Output to a buffer\<close>

record vsnprintf_aux =
  aux_p :: u32
  aux_length :: int
  max_length :: int
  aux_mem :: mem

definition vsnprintf_helper :: "u8 \<Rightarrow> vsnprintf_aux \<Rightarrow> vsnprintf_aux" where
  "vsnprintf_helper ch aux =
     (let a1 = aux\<lparr>aux_length := aux_length aux + 1\<rparr>
      in if aux_length aux < max_length aux
         then a1\<lparr>aux_mem := (aux_mem aux)(aux_p aux := ch), aux_p := aux_p aux + 1\<rparr> else a1)"

text \<open>\<^verbatim>\<open>length\<close> is an \<^verbatim>\<open>int\<close> that only grows: it has overflowed if it ends above the largest one.\<close>

definition vsnprintf :: "nat \<Rightarrow> nat \<Rightarrow> u32 \<Rightarrow> u32 \<Rightarrow> u8 list \<Rightarrow> u32 list \<Rightarrow> mem \<Rightarrow> (int \<times> mem) res" where
  "vsnprintf fuel k buffer buf_size f args m =
     rbind (vprintf fuel k aux_mem vsnprintf_helper f args
              \<lparr>aux_p = buffer, aux_length = 0, max_length = (if buf_size > 0 then sint (buf_size - 1) else 0), aux_mem = m\<rparr>) (\<lambda>aux.
       kdefined (aux_length aux < 2 ^ 31)
        (Inr (aux_length aux, if buf_size > 0 then (aux_mem aux)(aux_p aux := 0) else aux_mem aux)))"

definition snprintf :: "nat \<Rightarrow> nat \<Rightarrow> u32 \<Rightarrow> u32 \<Rightarrow> u8 list \<Rightarrow> u32 list \<Rightarrow> mem \<Rightarrow> (int \<times> mem) res" where
  "snprintf fuel k buffer buf_size f args m = vsnprintf fuel k buffer buf_size f args m"

subsection \<open>Output to the console\<close>

text \<open>The console is the text that has been printed; it is not part of the memory.\<close>

definition printf :: "nat \<Rightarrow> nat \<Rightarrow> u8 list \<Rightarrow> u32 list \<Rightarrow> mem \<Rightarrow> u8 list \<Rightarrow> u8 list res" where
  "printf fuel k f args m text = vprintf fuel k (\<lambda>_. m) (\<lambda>c t. t @ [c]) f args text"

text \<open>\<open>factors\<close> is the array of that name: the addresses of the names of the units, and a null pointer.\<close>

fun factors_loop :: "nat \<Rightarrow> u32 list \<Rightarrow> (nat \<times> u32) res" where
  "factors_loop n (fp # fp1 # fps) = (if n \<ge> 1024 \<and> fp1 \<noteq> 0 then factors_loop (n div 1024) (fp1 # fps) else Inr (n, fp))"
| "factors_loop n fps = Inl Undefined"

definition print_human_readable_size :: "nat \<Rightarrow> nat \<Rightarrow> u32 list \<Rightarrow> u64 \<Rightarrow> mem \<Rightarrow> u8 list \<Rightarrow> u8 list res" where
  "print_human_readable_size fuel k factors n m text =
     (if n = 1 then printf fuel k (lit ''1 byte'') [] m text
      else rbind (factors_loop (unat n) factors) (\<lambda>(v, fp).
        printf fuel k (lit ''%llu %s'') [of_nat v, of_nat (v div 2 ^ 32), fp] m text))"

definition isprint :: "u8 \<Rightarrow> bool" where
  "isprint c \<longleftrightarrow> 32 \<le> c \<and> c < 127"

fun print_times :: "nat \<Rightarrow> nat \<Rightarrow> u8 list \<Rightarrow> mem \<Rightarrow> u8 list \<Rightarrow> u8 list res" where
  "print_times fuel 0 f m text = Inr text"
| "print_times fuel (Suc n) f m text = rbind (printf fuel 0 f [] m text) (print_times fuel n f m)"

fun hex_bytes :: "nat \<Rightarrow> nat \<Rightarrow> nat \<Rightarrow> u32 \<Rightarrow> mem \<Rightarrow> u8 list \<Rightarrow> u8 list res" where
  "hex_bytes fuel i 0 buf m text = Inr text"
| "hex_bytes fuel i (Suc n) buf m text =
     rbind (printf fuel 0 (lit ''%02hhx%c'') [ucast (m buf), if i = 16 div 2 - 1 then 45 else 32] m text)
       (hex_bytes fuel (i + 1) n (buf + 1) m)"

fun hex_ascii :: "nat \<Rightarrow> nat \<Rightarrow> u32 \<Rightarrow> mem \<Rightarrow> u8 list \<Rightarrow> u8 list res" where
  "hex_ascii fuel 0 buf m text = Inr text"
| "hex_ascii fuel (Suc n) buf m text =
     rbind (printf fuel 0 (lit ''%c'') [if isprint (m buf) then ucast (m buf) else 46] m text)
       (hex_ascii fuel n (buf + 1) m)"

definition hex_line :: "nat \<Rightarrow> u32 \<Rightarrow> nat \<Rightarrow> nat \<Rightarrow> u32 \<Rightarrow> bool \<Rightarrow> mem \<Rightarrow> u8 list \<Rightarrow> u8 list res" where
  "hex_line fuel ofs start end buf ascii m text =
     rbind (printf fuel 0 (lit ''%08jx  '') [of_nat (ROUND_DOWN (unat ofs) 16), 0] m text) (\<lambda>t1.
     rbind (print_times fuel start (lit ''   '') m t1) (\<lambda>t2.
     rbind (hex_bytes fuel start (end - start) buf m t2) (\<lambda>t3.
     rbind (if ascii
            then rbind (print_times fuel (16 - end) (lit ''   '') m t3) (\<lambda>t4.
                 rbind (printf fuel 0 (lit ''|'') [] m t4) (\<lambda>t5.
                 rbind (print_times fuel start (lit '' '') m t5) (\<lambda>t6.
                 rbind (hex_ascii fuel (end - start) buf m t6) (\<lambda>t7.
                 rbind (print_times fuel (16 - end) (lit '' '') m t7) (\<lambda>t8.
                   printf fuel 0 (lit ''|'') [] m t8)))))
            else Inr t3) (\<lambda>t9.
       printf fuel 0 [10] [] m t9))))"

function hex_dump :: "nat \<Rightarrow> u32 \<Rightarrow> u32 \<Rightarrow> nat \<Rightarrow> bool \<Rightarrow> mem \<Rightarrow> u8 list \<Rightarrow> u8 list res" where
  "hex_dump fuel ofs buf n ascii m text =
     (if n > 0
      then (let start = unat ofs mod 16; end = (if 16 - start > n then start + n else 16); cnt = end - start
            in rbind (hex_line fuel ofs start end buf ascii m text)
                 (hex_dump fuel (ofs + of_nat cnt) (buf + of_nat cnt) (n - cnt) ascii m))
      else Inr text)"
  by auto
termination
proof (relation "measure (\<lambda>(fuel, ofs, buf, n, ascii, m, text). n)", simp)
  fix fuel n start en cnt ascii t0 t and ofs buf :: u32 and m :: mem
  assume "n > 0" "start = unat ofs mod 16" "en = (if 16 - start > n then start + n else 16)" "cnt = en - start"
  moreover have "unat ofs mod 16 < 16" by simp
  ultimately have "cnt > 0" by (auto split: if_splits)
  then show "((fuel, ofs + of_nat cnt, buf + of_nat cnt, n - cnt, ascii, m, t), fuel, ofs, buf, n, ascii, m, t0)
      \<in> measure (\<lambda>(fuel, ofs, buf, n, ascii, m, text). n)" using \<open>n > 0\<close> by simp
qed

declare hex_dump.simps [simp del] zeros_loop.simps [simp del]

subsection \<open>Rendering of integers\<close>

text \<open>
  What is written: the digits, least significant first and with a comma before every \<open>group\<close>-th
  if they are grouped, zeros up to the precision, then sign, prefix and padding around them.
\<close>

function rev_digits :: "integer_base \<Rightarrow> bool \<Rightarrow> nat \<Rightarrow> nat \<Rightarrow> u8 list" where
  "rev_digits b g cnt v =
     (if v = 0 \<or> radix b < 2 then []
      else (if g \<and> cnt > 0 \<and> cnt mod group b = 0 then [44] else []) @ digits b ! (v mod radix b) # rev_digits b g (cnt + 1) (v div radix b))"
  by auto
termination by (relation "measure (\<lambda>(b, g, cnt, v). v)") (auto intro!: div_less_dividend)

declare rev_digits.simps [simp del]

lemma length_rev_digits: "radix b \<ge> 8 \<Longrightarrow> v < 8 ^ n \<Longrightarrow> length (rev_digits b g cnt v) \<le> 2 * n"
proof (induction n arbitrary: v cnt)
  case (Suc n)
  have "v div radix b \<le> v div 8" using Suc.prems(1) by (intro div_le_mono2) auto
  then have "v div radix b < 8 ^ n" using Suc.prems(2) by (simp add: less_mult_imp_div_less)
  then show ?case using Suc.IH [of "v div radix b" "cnt + 1"] Suc.prems(1) by (subst rev_digits.simps) auto
qed (simp add: rev_digits.simps)

lemma digits_loop_ok:
  assumes "radix b \<ge> 8" "v < 8 ^ n" "n < fuel" "length buf + 2 * n \<le> 64"
  shows "digits_loop fuel v cnt b fl buf = Inr (buf @ rev_digits b (fl AND GROUP \<noteq> 0) cnt v)"
  using assms(2-)
proof (induction n arbitrary: v fuel cnt buf)
  case 0
  then show ?case by (cases fuel) (auto simp: rev_digits.simps)
next
  case (Suc n)
  obtain f where f: "fuel = Suc f" "n < f" using Suc.prems(2) by (cases fuel) auto
  have "v div radix b \<le> v div 8" using assms(1) by (intro div_le_mono2) auto
  then have v: "v div radix b < 8 ^ n" using Suc.prems(1) by (simp add: less_mult_imp_div_less)
  note IH = Suc.IH [OF v f(2)]
  show ?case
    using Suc.prems(3) assms(1) unfolding f(1) by (subst rev_digits.simps) (auto simp: buf_put_def IH)
qed

lemma zeros_loop_eq: "zeros_loop prec buf = buf @ replicate (min (nat prec) 63 - length buf) 48"
proof (induction prec buf rule: zeros_loop.induct)
  case (1 prec buf)
  show ?case
  proof (cases "int (length buf) < prec \<and> length buf < 63")
    case True
    then have "min (nat prec) 63 - length buf = Suc (min (nat prec) 63 - Suc (length buf))" by linarith
    then show ?thesis using True 1 by (subst zeros_loop.simps) simp
  next
    case False
    then show ?thesis by (subst zeros_loop.simps) auto
  qed
qed

lemma output_dup_fold: "output_dup c n output aux = fold output (replicate n c) aux"
  by (induction n arbitrary: aux) auto

definition magnitude :: "nat \<Rightarrow> integer_base \<Rightarrow> printf_conversion \<Rightarrow> u8 list" where
  "magnitude v b c =
     (let ds = rev_digits b (flags c AND GROUP \<noteq> 0) 0 v;
          zs = ds @ replicate (min (nat (if precision c < 0 then 1 else precision c)) 63 - length ds) 48
      in (if flags c AND POUND \<noteq> 0 \<and> radix b = 8 \<and> (zs = [] \<or> last zs \<noteq> 48) then [48] else []) @ rev zs)"

definition sign_text :: "bool \<Rightarrow> bool \<Rightarrow> printf_conversion \<Rightarrow> u8 list" where
  "sign_text is_signed negative c = (let s = sign_char is_signed negative (flags c) in if s = 0 then [] else [s])"

definition prefix_text :: "nat \<Rightarrow> integer_base \<Rightarrow> printf_conversion \<Rightarrow> u8 list" where
  "prefix_text v b c = (if flags c AND POUND \<noteq> 0 \<and> v \<noteq> 0 \<and> x_char b \<noteq> 0 then [48, x_char b] else [])"

definition render :: "nat \<Rightarrow> bool \<Rightarrow> bool \<Rightarrow> integer_base \<Rightarrow> printf_conversion \<Rightarrow> u8 list" where
  "render v is_signed negative b c =
     (let sgn = sign_text is_signed negative c; pre = prefix_text v b c; mag = magnitude v b c;
          pad = nat (width c - int (length (sgn @ pre @ mag)))
      in (if flags c AND (MINUS OR ZERO) = 0 then replicate pad 32 else []) @ sgn @ pre @
         (if flags c AND ZERO \<noteq> 0 then replicate pad 48 else []) @ mag @
         (if flags c AND MINUS \<noteq> 0 then replicate pad 32 else []))"

lemma magnitude_length: "radix b \<ge> 8 \<Longrightarrow> v < 2 ^ 64 \<Longrightarrow> length (magnitude v b c) \<le> 64"
proof -
  assume r: "radix b \<ge> 8" and v: "v < 2 ^ 64"
  have "v < 8 ^ 22" using v by simp
  from length_rev_digits [OF r this, of "flags c AND GROUP \<noteq> 0" 0]
  show ?thesis by (auto simp: magnitude_def Let_def)
qed

lemma format_integer_render:
  assumes b: "radix b \<ge> 8" and v: "v < 2 ^ 64"
  shows "format_integer v is_signed negative b c output aux = Inr (fold output (render v is_signed negative b c) aux)"
proof -
  have v22: "v < 8 ^ 22" using v by simp
  let ?ds = "rev_digits b (flags c AND GROUP \<noteq> 0) 0 v"
  let ?zs = "?ds @ replicate (min (nat (if precision c < 0 then 1 else precision c)) 63 - length ?ds) 48"
  have l: "length ?ds \<le> 44" using length_rev_digits [OF b v22] by simp
  then have z: "length ?zs \<le> 63" by auto
  have d: "digits_loop 65 v 0 b (flags c) [] = Inr ?ds" using digits_loop_ok [OF b v22, of 65 "[]" 0 "flags c"] by simp
  have m: "(if flags c AND POUND \<noteq> 0 \<and> radix b = 8 \<and> (?zs = [] \<or> last ?zs \<noteq> 48) then buf_put ?zs 48 else Inr ?zs) = Inr (rev (magnitude v b c))"
    using z unfolding magnitude_def Let_def buf_put_def by (simp only: split: if_splits) auto
  show ?thesis
    unfolding format_integer_def Let_def d rbind_Inr zeros_loop_eq m render_def
    by (simp add: output_dup_fold sign_text_def prefix_text_def Let_def algebra_simps)
qed

subsection \<open>What is written is a sequence of characters\<close>

lemma string_loop_fold: "\<exists>out. length out = n \<and> string_loop get i n output aux = fold output out aux"
proof (induction n arbitrary: i aux)
  case (Suc n)
  obtain out where "length out = n" "string_loop get (i + 1) n output (output (get aux i) aux) = fold output out (output (get aux i) aux)"
    using Suc by blast
  then show ?case by (intro exI [of _ "get aux i # out"]) simp
qed simp

lemma format_string_fold: "\<exists>out. format_string get len c output aux = fold output out aux"
proof -
  obtain pre where pre: "(if width c > int len \<and> flags c AND MINUS = 0 then output_dup 32 (nat (width c - int len)) output aux else aux) = fold output pre aux"
    by (metis output_dup_fold fold_simps(1))
  obtain mid where mid: "string_loop get 0 len output (fold output pre aux) = fold output mid (fold output pre aux)"
    using string_loop_fold by metis
  have "format_string get len c output aux
      = fold output (pre @ mid @ (if width c > int len \<and> flags c AND MINUS \<noteq> 0 then replicate (nat (width c - int len)) 32 else [])) aux"
    unfolding format_string_def Let_def pre mid by (simp add: output_dup_fold)
  then show ?thesis by blast
qed

lemma bases_radix: "b \<in> {base_d, base_o, base_x, base_X} \<Longrightarrow> radix b \<ge> 8"
  by (auto simp: base_d_def base_o_def base_x_def base_X_def)

lemma sint_bounds:
  "\<bar>sint (w8 :: u8)\<bar> < 2 ^ 64" "\<bar>sint (w16 :: u16)\<bar> < 2 ^ 64" "\<bar>sint (w32 :: u32)\<bar> < 2 ^ 64" "\<bar>sint (w64 :: u64)\<bar> < 2 ^ 64"
  using sint_ge [of w8] sint_lt [of w8] sint_ge [of w16] sint_lt [of w16] sint_ge [of w32] sint_lt [of w32] sint_ge [of w64] sint_lt [of w64]
  by simp_all

lemma unat_bounds:
  "unat (w8 :: u8) < 2 ^ 64" "unat (w16 :: u16) < 2 ^ 64" "unat (w32 :: u32) < 2 ^ 64" "unat (w64 :: u64) < 2 ^ 64"
  using unsigned_less [where ?'a = nat and w = w8] unsigned_less [where ?'a = nat and w = w16]
    unsigned_less [where ?'a = nat and w = w32] unsigned_less [where ?'a = nat and w = w64]
  by simp_all

lemma signed_arg_bound: "signed_arg ty args = Inr (v, args') \<Longrightarrow> nat \<bar>v\<bar> < 2 ^ 64"
proof -
  assume a: "signed_arg ty args = Inr (v, args')"
  have u: "uint w < 4294967296" "0 \<le> uint w" for w :: u32 using uint_lt2p [of w] by simp_all
  have d: "\<bar>uint w - 4294967296\<bar> < 18446744073709551616" for w :: u32 using u [of w] by linarith
  have "\<bar>v\<bar> < 2 ^ 64"
    using a sint_bounds u d by (cases ty) (auto simp: signed_arg_def res_simps split: if_splits dest: less_imp_le intro: le_less_trans)
  then show ?thesis by simp
qed

lemma unsigned_arg_bound: "unsigned_arg ty args = Inr (v, args') \<Longrightarrow> v < 2 ^ 64"
  using unat_bounds by (cases ty) (auto simp: unsigned_arg_def res_simps)

lemma convert_fold:
  assumes no: "\<And>f args aux aux'. no f args aux = Inr aux' \<Longrightarrow> \<exists>out. aux' = fold output out aux"
    and c: "convert k rd output no ch c args aux = Inr (args', aux')"
  shows "\<exists>out. aux' = fold output out aux"
proof -
  note cd = c [unfolded convert_def]
  consider (d) "ch = 100 \<or> ch = 105" | (u) "\<not> (ch = 100 \<or> ch = 105)" "ch = 111 \<or> ch = 117 \<or> ch = 120 \<or> ch = 88"
    | (p) "ch = 112" | (s) "ch = 99 \<or> ch = 115" | (n) "ch \<notin> {100, 105, 111, 117, 120, 88, 112, 99, 115}" by blast
  then show ?thesis
  proof cases
    case d
    then show ?thesis using cd signed_arg_bound
      by (auto simp: res_simps format_integer_render base_d_def)
  next
    case u
    then show ?thesis using cd unsigned_arg_bound bases_radix
      by (auto simp: res_simps format_integer_render Let_def)
  next
    case p
    then show ?thesis using cd unat_bounds bases_radix
      by (auto simp: res_simps format_integer_render Let_def)
  next
    case s
    then show ?thesis using cd format_string_fold by (auto simp: res_simps Let_def split: if_splits)
  next
    case n
    then show ?thesis using cd no by (auto simp: res_simps split: if_splits)
  qed
qed

lemma vprintf_fold: "vprintf fuel k rd output f args aux = Inr aux' \<Longrightarrow> \<exists>out. aux' = fold output out aux"
proof (induction fuel arbitrary: f args aux aux')
  case (Suc fuel)
  have app: "\<exists>out. aux' = fold output out aux" if "\<exists>out. aux' = fold output out (fold output pre aux)" for pre
    using that by (metis fold_append o_apply)
  show ?case
  proof (cases f)
    case Nil
    then show ?thesis using Suc.prems by (auto intro: exI [of _ "[]"])
  next
    case (Cons ch f0)
    consider "ch \<noteq> 37" | "ch = 37" "peek f0 = 37" | "ch = 37" "peek f0 \<noteq> 37" by blast
    then show ?thesis
    proof cases
      case 1
      then show ?thesis using Suc.IH [of f0 args "output ch aux" aux'] Suc.prems Cons app [of "[ch]"] by auto
    next
      case 2
      then show ?thesis using Suc.IH [of "tl f0" args "output 37 aux" aux'] Suc.prems Cons app [of "[37]"] by auto
    next
      case 3
      then obtain f1 c args1 args2 aux1 where
        s: "convert k rd output (vprintf fuel k rd output) (peek f1) c args1 aux = Inr (args2, aux1)"
           "vprintf fuel k rd output (tl f1) args2 aux1 = Inr aux'"
        using Suc.prems Cons by (auto simp: res_simps split: if_splits)
      obtain pre where pre: "aux1 = fold output pre aux" using convert_fold [OF _ s(1)] Suc.IH by blast
      show ?thesis using Suc.IH [OF s(2)] app [of pre] pre by simp
    qed
  qed
qed simp

subsection \<open>Buffers\<close>

lemma kwrite_beyond: "length bs \<le> unat (a - dst) \<Longrightarrow> kwrite dst bs m a = m a"
  by (simp add: kwrite_def)

lemma cstr_stored:
  assumes "unat a + length s < 2 ^ 32" "a \<noteq> 0" "0 \<notin> set s"
  shows "cstr (kwrite a (s @ [0]) m) a s"
proof -
  have ne: "a + of_nat i \<noteq> 0" if "i \<le> length s" for i
  proof -
    have "unat (a + of_nat i) = unat a + i" by (rule unat_plus_of_nat) (use assms(1) that in simp)
    then show ?thesis using assms(2) by (metis add_eq_0_iff_both_eq_0 unat_eq_zero unsigned_0)
  qed
  have at: "kwrite a (s @ [0]) m (a + of_nat i) = (s @ [0]) ! i" if "i \<le> length s" for i
    using that assms(1) by (simp add: kwrite_def unat_of_nat_u32)
  show ?thesis
    using ne at assms(3) cstr_append [of "kwrite a (s @ [0]) m" a s "[]"] by (auto simp: nth_append in_set_conv_nth)
qed

lemma fold_helper_room:
  assumes "int (length out) \<le> max_length aux - aux_length aux" "length out < 2 ^ 32"
  shows "fold vsnprintf_helper out aux =
    aux\<lparr>aux_length := aux_length aux + int (length out), aux_p := aux_p aux + of_nat (length out),
        aux_mem := kwrite (aux_p aux) out (aux_mem aux)\<rparr>"
  using assms
proof (induction out rule: rev_induct)
  case Nil
  then show ?case by (simp add: kwrite_def)
next
  case (snoc c out)
  have "kwrite (a + of_nat (length out)) [c] (kwrite a out m) = kwrite a (out @ [c]) m" for a :: u32 and m
    using snoc.prems(2) by (intro kwrite_append) simp
  moreover have "kwrite a [c] m = m(a := c)" for a :: u32 and m by (auto simp: kwrite_def unat_eq_0)
  ultimately show ?case using snoc by (simp add: vsnprintf_helper_def Let_def)
qed

lemma fold_helper_full:
  "max_length aux \<le> aux_length aux \<Longrightarrow> fold vsnprintf_helper out aux = aux\<lparr>aux_length := aux_length aux + int (length out)\<rparr>"
  by (induction out rule: rev_induct) (auto simp: vsnprintf_helper_def Let_def)

lemma fold_helper:
  assumes "0 \<le> max_length aux" "max_length aux < 2 ^ 31" "aux_length aux = 0"
  shows "fold vsnprintf_helper out aux =
    aux\<lparr>aux_length := int (length out), aux_p := aux_p aux + of_nat (min (nat (max_length aux)) (length out)),
        aux_mem := kwrite (aux_p aux) (take (nat (max_length aux)) out) (aux_mem aux)\<rparr>"
proof (cases "int (length out) \<le> max_length aux")
  case True
  then have "min (nat (max_length aux)) (length out) = length out" "take (nat (max_length aux)) out = out" by auto
  then show ?thesis using True fold_helper_room [of out aux] assms by simp
next
  case False
  let ?n = "nat (max_length aux)"
  have "fold vsnprintf_helper out aux = fold vsnprintf_helper (drop ?n out) (fold vsnprintf_helper (take ?n out) aux)"
    by (metis append_take_drop_id fold_append o_apply)
  then show ?thesis using fold_helper_room [of "take ?n out" aux] assms False by (simp add: fold_helper_full min_def)
qed

lemma sint_word_of_int32: "- (2 ^ 31) \<le> i \<Longrightarrow> i < 2 ^ 31 \<Longrightarrow> sint (word_of_int i :: u32) = i"
  by (simp add: sint_sbintrunc' signed_take_bit_int_eq_self)

lemma sint_room: "0 < n \<Longrightarrow> unat (n :: u32) \<le> 2 ^ 31 \<Longrightarrow> sint (n - 1) = int (unat n - 1)"
proof -
  assume n: "0 < n" "unat n \<le> 2 ^ 31"
  then have "0 < unat n" by (simp add: word_gt_0 unat_gt_0)
  then have "n - 1 = word_of_int (int (unat n - 1))" by (simp add: of_nat_diff)
  then show "sint (n - 1) = int (unat n - 1)" using sint_word_of_int32 [of "int (unat n - 1)"] n(2) by simp
qed

definition start_aux :: "u32 \<Rightarrow> u32 \<Rightarrow> mem \<Rightarrow> vsnprintf_aux" where
  "start_aux buffer n m = \<lparr>aux_p = buffer, aux_length = 0, max_length = (if n > 0 then sint (n - 1) else 0), aux_mem = m\<rparr>"

lemma vsnprintf_of_fold:
  assumes n: "unat n \<le> 2 ^ 31" and out: "length out < 2 ^ 31"
    and v: "vprintf fuel k aux_mem vsnprintf_helper f args (start_aux buffer n m) = Inr (fold vsnprintf_helper out (start_aux buffer n m))"
  shows "vsnprintf fuel k buffer n f args m =
    Inr (int (length out), if n = 0 then m else kwrite buffer (take (unat n - 1) out @ [0]) m)"
proof (cases "n = 0")
  case True
  then have "fold vsnprintf_helper out (start_aux buffer n m) = (start_aux buffer n m)\<lparr>aux_length := int (length out)\<rparr>"
    using fold_helper_full [of "start_aux buffer n m" out] by (simp add: start_aux_def)
  then show ?thesis using v out True by (simp add: vsnprintf_def start_aux_def)
next
  case False
  then have n0: "0 < n" by (simp add: word_gt_0)
  let ?a = "start_aux buffer n m" and ?k = "unat n - 1" and ?o = "take (unat n - 1) out"
  have a: "max_length ?a = int ?k" "aux_length ?a = 0" "aux_p ?a = buffer" "aux_mem ?a = m"
    using sint_room [OF n0 n] n0 by (simp_all add: start_aux_def)
  have f: "fold vsnprintf_helper out ?a = ?a\<lparr>aux_length := int (length out), aux_p := buffer + of_nat (length ?o), aux_mem := kwrite buffer ?o m\<rparr>"
    using fold_helper [of ?a out] a n by (simp add: min.commute)
  have "(kwrite buffer ?o m)(buffer + of_nat (length ?o) := 0) = kwrite (buffer + of_nat (length ?o)) [0] (kwrite buffer ?o m)"
    by (auto simp: kwrite_def unat_eq_0)
  also have "\<dots> = kwrite buffer (?o @ [0]) m" by (rule kwrite_append) (use n in simp)
  finally show ?thesis using v out n0 False unfolding f by (simp add: vsnprintf_def start_aux_def)
qed

lemma vsnprintf_fold:
  assumes v: "vsnprintf fuel k buffer n f args m = Inr (r, m')" and n: "unat n \<le> 2 ^ 31"
  shows "\<exists>out. r = int (length out) \<and> m' = (if n = 0 then m else kwrite buffer (take (unat n - 1) out @ [0]) m)"
proof -
  obtain aux where aux: "vprintf fuel k aux_mem vsnprintf_helper f args (start_aux buffer n m) = Inr aux" "aux_length aux < 2 ^ 31"
    using v by (auto simp: vsnprintf_def start_aux_def res_simps)
  obtain out where out: "aux = fold vsnprintf_helper out (start_aux buffer n m)" using vprintf_fold [OF aux(1)] by blast
  have "aux_length (fold vsnprintf_helper out a) = aux_length a + int (length out)" for a
    by (induction out arbitrary: a) (auto simp: vsnprintf_helper_def Let_def)
  then have "length out < 2 ^ 31" using aux(2) out by (simp add: start_aux_def)
  from vsnprintf_of_fold [OF n this aux(1) [unfolded out]] show ?thesis using v by auto
qed

subsection \<open>Decimal numbers\<close>

lemma digits_base_d: "k < 10 \<Longrightarrow> digits base_d ! k = of_nat (48 + k)"
  by (auto simp: base_d_def lit_def less_Suc_eq eval_nat_numeral(2,3))

lemma base_d_radix [simp]: "radix base_d = 10"
  by (simp add: base_d_def)

lemma rev_digits_base_d:
  "rev_digits base_d False cnt v = (if v = 0 then [] else of_nat (48 + v mod 10) # rev_digits base_d False (cnt + 1) (v div 10))"
  using digits_base_d [of "v mod 10"] by (subst rev_digits.simps) simp

lemma decimal_snoc: "decimal (ds @ [d]) = decimal ds * 10 + (int (unat d) - 48)"
  by (simp add: decimal_def)

lemma unat_digit: "k < 10 \<Longrightarrow> unat (of_nat (48 + k) :: u8) = 48 + k"
  by (subst unat_of_nat) (simp add: take_bit_eq_mod)

lemma rev_digits_decimal: "decimal (rev (rev_digits base_d False cnt v)) = int v"
proof (induction v arbitrary: cnt rule: less_induct)
  case (less v)
  show ?case
  proof (cases "v = 0")
    case False
    have "decimal (rev (rev_digits base_d False cnt v)) = int (v div 10) * 10 + (int (unat (of_nat (48 + v mod 10) :: u8)) - 48)"
      using less [of "v div 10" "cnt + 1"] False by (subst rev_digits_base_d) (simp add: decimal_snoc)
    also have "unat (of_nat (48 + v mod 10) :: u8) = 48 + v mod 10" by (rule unat_digit) simp
    finally show ?thesis by (simp flip: of_nat_mult of_nat_add) presburger
  qed (simp add: rev_digits.simps decimal_def)
qed

lemma rev_digits_isdigit: "\<forall>d \<in> set (rev_digits base_d False cnt v). isdigit d"
proof (induction v arbitrary: cnt rule: less_induct)
  case (less v)
  have "isdigit (of_nat (48 + v mod 10))"
    using unat_digit [of "v mod 10"] by (simp add: isdigit_def word_le_nat_alt)
  then show ?case using less [of "v div 10" "cnt + 1"] by (subst rev_digits_base_d) simp
qed

lemma rev_digits_length10: "v < 10 ^ n \<Longrightarrow> length (rev_digits base_d False cnt v) \<le> n"
proof (induction n arbitrary: v cnt)
  case (Suc n)
  then have "v div 10 < 10 ^ n" by (simp add: less_mult_imp_div_less)
  then show ?case using Suc.IH by (subst rev_digits_base_d) simp
qed (simp add: rev_digits.simps)

text \<open>The text of a number: a sign if it is negative, and its digits.\<close>

definition number_text :: "int \<Rightarrow> u8 list" where
  "number_text i = (if i < 0 then [45] else []) @ (if i = 0 then [48] else rev (rev_digits base_d False 0 (nat \<bar>i\<bar>)))"

lemma number_text_length: "- (2 ^ 31) \<le> i \<Longrightarrow> i < 2 ^ 31 \<Longrightarrow> length (number_text i) \<le> 11"
proof -
  assume "- (2 ^ 31) \<le> i" "i < 2 ^ 31"
  then have "nat \<bar>i\<bar> < 10 ^ 10" by simp
  from rev_digits_length10 [OF this, of 0] show ?thesis by (cases "i < 0") (auto simp: number_text_def)
qed

definition plain :: printf_conversion where
  "plain = \<lparr>flags = 0, width = 0, precision = - 1, arg_type = INT_ARG\<rparr>"

lemma render_plain_nat:
  "render v True neg base_d plain = (if neg then [45] else []) @ (if v = 0 then [48] else rev (rev_digits base_d False 0 v))"
proof -
  have z: "Suc 0 - length (rev_digits base_d False 0 v) = (if v = 0 then 1 else 0)"
    by (cases "v = 0") (simp_all add: rev_digits_base_d [of 0 v] rev_digits_base_d [of 0 0])
  show ?thesis
    by (auto simp: render_def sign_text_def prefix_text_def magnitude_def plain_def sign_char_def z Let_def rev_digits_base_d [of 0 0])
qed

lemma render_plain: "render (nat \<bar>i\<bar>) True (i < 0) base_d plain = number_text i"
  unfolding render_plain_nat number_text_def by simp

lemma parse_conversion_d: "parse_conversion (100 # f) args = Inr (100 # f, plain, args)"
  by (simp add: parse_conversion_def parse_amount_def parse_type_def peek_def isdigit_def plain_def parse_precision_def)

lemma vprintf_d:
  "- (2 ^ 31) \<le> i \<Longrightarrow> i < 2 ^ 31 \<Longrightarrow>
   vprintf (Suc fuel) k rd output (37 # 100 # f) (word_of_int i # args) aux = vprintf fuel k rd output f args (fold output (number_text i) aux)"
proof -
  assume i: "- (2 ^ 31) \<le> i" "i < 2 ^ 31"
  then have v: "nat \<bar>i\<bar> < 2 ^ 64" by simp
  have "format_integer (nat \<bar>i\<bar>) True (i < 0) base_d plain output aux = Inr (fold output (number_text i) aux)"
    using format_integer_render [OF _ v, of base_d True "i < 0" plain "output" aux] unfolding render_plain by simp
  then show ?thesis using i by (simp add: peek_def parse_conversion_d convert_def signed_arg_def plain_def sint_word_of_int32)
qed

lemma vprintf_end: "vprintf (Suc fuel) k rd output [] args aux = Inr aux"
  by simp

lemma snprintf_d:
  assumes "- (2 ^ 31) \<le> i" "i < 2 ^ 31" "unat n \<le> 2 ^ 31"
  shows "snprintf (Suc (Suc fuel)) k buffer n (lit ''%d'') [word_of_int i] m =
    Inr (int (length (number_text i)), if n = 0 then m else kwrite buffer (take (unat n - 1) (number_text i) @ [0]) m)"
proof -
  have f: "lit ''%d'' = [37, 100]" by (simp add: lit_def)
  show ?thesis unfolding snprintf_def f
    by (rule vsnprintf_of_fold) (use assms number_text_length [OF assms(1,2)] in \<open>simp_all only: vprintf_d vprintf_end, simp_all\<close>)
qed

lemma atoi_number_text:
  assumes c: "cstr m s (number_text i)" and i: "- (2 ^ 31) \<le> i" "i < 2 ^ 31" and fuel: "length (number_text i) < fuel"
  shows "atoi fuel s m = Inr i"
proof -
  let ?ds = "if i = 0 then [48] else rev (rev_digits base_d False 0 (nat \<bar>i\<bar>))"
  have ds: "\<forall>d \<in> set ?ds. isdigit d" "decimal ?ds = \<bar>i\<bar>" "?ds \<noteq> []"
    using rev_digits_isdigit [of 0 "nat \<bar>i\<bar>"] rev_digits_decimal [of 0 "nat \<bar>i\<bar>"] rev_digits_base_d [of 0 "nat \<bar>i\<bar>"]
    by (auto simp: decimal_def isdigit_def)
  show ?thesis
  proof (cases "i < 0")
    case False
    then have "number_text i = ?ds" by (simp add: number_text_def)
    then show ?thesis using atoi_decimal [of m s ?ds fuel] c fuel ds i False by simp
  next
    case True
    then have t: "number_text i = 45 # ?ds" by (simp add: number_text_def)
    then have m: "m s = 45" "s \<noteq> 0" "cstr m (s + 1) ?ds" using c by auto
    have at: "\<And>j. j < length ?ds \<Longrightarrow> m (s + 1 + of_nat j) = ?ds ! j" "m (s + 1 + of_nat (length ?ds)) = 0"
      using m(3) cstr_append [of m "s + 1" ?ds "[]"] by auto
    have "atoi_digits fuel (s + 1) (- 0) m = Inr (- decimal ?ds)"
      unfolding decimal_def
      by (rule atoi_digits_spec [OF _ ds(1)]) (use at ds(2) i fuel t in \<open>auto simp: isdigit_def decimal_def\<close>)
    moreover have "atoi_skip fuel s m = Inr s" using fuel m(1) by (cases fuel) (auto simp: isspace_def)
    ultimately show ?thesis using m ds(2) True by (simp add: atoi_def Let_def)
  qed
qed

subsection \<open>Termination\<close>

text \<open>A turn of the loop moves on in the format, and the text for an unknown conversion needs 22 turns.\<close>

lemma length_parse_flags: "length (fst (parse_flags f fl)) \<le> length f"
  by (induction f arbitrary: fl) (auto intro: le_SucI)

lemma length_parse_number: "parse_number f n = Inr (f', v) \<Longrightarrow> length f' \<le> length f"
  by (induction f arbitrary: n) (auto simp: res_simps intro: le_SucI split: if_splits)

lemma length_parse_amount: "parse_amount f args = Inr (f', v, args') \<Longrightarrow> length f' \<le> length f"
  by (auto simp: parse_amount_def res_simps split: if_splits dest: length_parse_number)

lemma length_parse_precision: "parse_precision f args = Inr (f', v, args') \<Longrightarrow> length f' \<le> length f"
  by (auto simp: parse_precision_def res_simps split: if_splits dest!: length_parse_amount)

lemma length_parse_type: "length (fst (parse_type f)) \<le> length f"
  by (auto simp: parse_type_def)

lemma length_parse_conversion:
  assumes "parse_conversion f args = Inr (f', c, args')"
  shows "length f' \<le> length f"
proof -
  obtain f1 fl where 1: "parse_flags f 0 = (f1, fl)" by fastforce
  obtain f2 w args1 where 2: "parse_amount f1 args = Inr (f2, w, args1)"
    using assms 1 by (auto simp: parse_conversion_def res_simps Let_def)
  have w: "w \<noteq> - (2 ^ 31)" using assms 1 2 by (auto simp: parse_conversion_def res_simps Let_def)
  obtain f3 p args2 where 3: "parse_precision f2 args1 = Inr (f3, p, args2)"
    using assms 1 2 w by (cases "parse_precision f2 args1") (auto simp: parse_conversion_def Let_def)
  have 4: "f' = fst (parse_type f3)"
    using assms 1 2 3 w by (cases "parse_type f3") (simp add: parse_conversion_def Let_def)
  show ?thesis
    using 4 length_parse_type [of f3] length_parse_precision [OF 3] length_parse_amount [OF 2] length_parse_flags [of f 0] 1 by simp
qed

lemma va_word_ends [simp]: "va_word args \<noteq> Inl Diverged"
  by (cases args) auto

lemma parse_amount_ends: "parse_amount f args \<noteq> Inl Diverged"
proof -
  have "parse_number f n \<noteq> Inl Diverged" for n by (induction f arbitrary: n) (auto simp: kdefined_def)
  then show ?thesis by (auto simp: parse_amount_def res_simps)
qed

lemma parse_conversion_ends: "parse_conversion f args \<noteq> Inl Diverged"
  using parse_amount_ends by (auto simp: parse_conversion_def parse_precision_def res_simps kdefined_def Let_def split: prod.splits if_splits)

lemma strnlen_ends: "maxlen < k \<Longrightarrow> strnlen k s maxlen m \<noteq> Inl Diverged"
proof -
  have "len + fuel > maxlen \<Longrightarrow> len \<le> maxlen \<Longrightarrow> strnlen_loop fuel len s maxlen m \<noteq> Inl Diverged" for fuel len
    by (induction fuel arbitrary: len) auto
  from this [of 0 k] show "maxlen < k \<Longrightarrow> strnlen k s maxlen m \<noteq> Inl Diverged" by (simp add: strnlen_def)
qed

lemma convert_ends:
  assumes no: "\<And>f w aux. f \<in> {lit ''<<no %%%c in kernel>>'', lit ''<<no %%%c conversion>>''} \<Longrightarrow> no f [w] aux \<noteq> Inl Diverged"
    and k: "k \<ge> 2 ^ 32"
  shows "convert k rd output no ch c args aux \<noteq> Inl Diverged"
proof -
  have "unat (w :: u32) < k" for w using k unat_u32_less [of w] by simp
  note str = strnlen_ends [OF this]
  have fi: "format_integer v sg neg b c' output aux \<noteq> Inl Diverged" if "b \<in> {base_d, base_o, base_x, base_X}" "v < 2 ^ 64" for v sg neg b c'
    by (simp add: format_integer_render [OF bases_radix [OF that(1)] that(2)])
  have sa: "signed_arg ty args \<noteq> Inl Diverged" "unsigned_arg ty args \<noteq> Inl Diverged" for ty
    by (auto simp: signed_arg_def unsigned_arg_def va_long_def res_simps)
  have ua: "unat (p :: u32) < 2 ^ 64" for p using unat_bounds by blast
  have "convert k rd output no ch c args aux = Inl Diverged \<Longrightarrow> False"
    unfolding convert_def Let_def
    using sa signed_arg_bound unsigned_arg_bound fi ua str no
    by (auto simp: res_simps kdefined_def split: if_splits)
  then show ?thesis by blast
qed

lemma parse_conversion_c: "parse_conversion (99 # f) args = Inr (99 # f, plain, args)"
  by (simp add: parse_conversion_def parse_amount_def parse_precision_def parse_type_def peek_def isdigit_def plain_def)

lemma vprintf_char: "ch \<noteq> 37 \<Longrightarrow> vprintf (Suc fuel) k rd output (ch # f) args aux = vprintf fuel k rd output f args (output ch aux)"
  by simp

lemma vprintf_percent: "vprintf (Suc fuel) k rd output (37 # 37 # f) args aux = vprintf fuel k rd output f args (output 37 aux)"
  by (simp add: peek_def)

lemma vprintf_c: "vprintf (Suc fuel) k rd output (37 # 99 # f) (w # args) aux = vprintf fuel k rd output f args (output (ucast w) aux)"
  by (simp add: peek_def parse_conversion_c convert_def format_string_def plain_def)

lemma Suc_21: "(Suc ^^ 21) n = Suc (Suc (Suc (Suc (Suc (Suc (Suc (Suc (Suc (Suc (Suc (Suc (Suc (Suc (Suc (Suc (Suc (Suc (Suc (Suc (Suc n))))))))))))))))))))"
  by (simp add: eval_nat_numeral)

lemma vprintf_unsupported:
  "f \<in> {lit ''<<no %%%c in kernel>>'', lit ''<<no %%%c conversion>>''} \<Longrightarrow> 21 \<le> fuel \<Longrightarrow> vprintf fuel k rd output f [w] aux \<noteq> Inl Diverged"
proof -
  assume f: "f \<in> {lit ''<<no %%%c in kernel>>'', lit ''<<no %%%c conversion>>''}" and "21 \<le> fuel"
  then obtain n where n: "fuel = (Suc ^^ 21) n" by (metis add.commute le_iff_add Suc_funpow)
  show ?thesis
    using f unfolding n Suc_21 by (auto simp: lit_def vprintf_char vprintf_percent vprintf_c vprintf_end simp del: vprintf.simps)
qed

lemma vprintf_ends:
  assumes "length f + 22 \<le> fuel" "k \<ge> 2 ^ 32"
  shows "vprintf fuel k rd output f args aux \<noteq> Inl Diverged"
  using assms(1)
proof (induction fuel arbitrary: f args aux)
  case (Suc fuel)
  show ?case
  proof (cases f)
    case (Cons ch f0)
    consider "ch \<noteq> 37" | "ch = 37" "peek f0 = 37" | "ch = 37" "peek f0 \<noteq> 37" by blast
    then show ?thesis
    proof cases
      case 1
      then show ?thesis using Suc Cons by simp
    next
      case 2
      then show ?thesis using Suc Cons by simp
    next
      case 3
      have c: "convert k rd output (vprintf fuel k rd output) ch' c args1 aux \<noteq> Inl Diverged" for ch' c args1
        by (rule convert_ends [OF _ assms(2)], rule vprintf_unsupported) (use Suc.prems Cons in auto)
      have tl: "vprintf fuel k rd output (tl f1) args2 aux1 \<noteq> Inl Diverged"
        if "parse_conversion f0 args = Inr (f1, c, args1)" for f1 c args1 args2 aux1
        using Suc.IH [of "tl f1"] Suc.prems Cons length_parse_conversion [OF that] by simp
      show ?thesis using 3 Cons c tl parse_conversion_ends by (auto simp: res_simps split: if_splits)
    qed
  qed simp
qed simp

end
