(* ===== verification/Library.thy ===== *)
theory Library
  imports Arithmetic Stdlib Hash Stdio
begin

text \<open>What the library routines that kernel and user programs share promise: sorting and searching
  (\<^verbatim>\<open>lib/stdlib.c\<close>), formatted output (\<^verbatim>\<open>lib/stdio.c\<close>), 64-bit arithmetic (\<^verbatim>\<open>lib/arithmetic.c\<close>) and hash tables (\<^verbatim>\<open>lib/kernel/hash.c\<close>).\<close>

section \<open>Sorting and searching\<close>

text \<open>A comparison function as \<^verbatim>\<open>qsort\<close> asks for one: swapping the arguments swaps the sign.\<close>

definition three_way :: "cmp \<Rightarrow> bool" where
  "three_way compare \<longleftrightarrow> (\<forall>x y. sgn (compare y x) = - sgn (compare x y)) \<and>
     (\<forall>x y z. compare x y \<le> 0 \<longrightarrow> compare y z \<le> 0 \<longrightarrow> compare x z \<le> 0)"

lemma three_wayD:
  assumes "three_way compare"
  shows "compare x y > 0 \<longleftrightarrow> compare y x < 0" "compare x y \<le> 0 \<Longrightarrow> compare y z \<le> 0 \<Longrightarrow> compare x z \<le> 0"
proof -
  have s: "sgn (compare y x) = - sgn (compare x y)" using assms unfolding three_way_def by blast
  have "compare x y > 0 \<longleftrightarrow> sgn (compare y x) < 0" unfolding s by simp
  also have "\<dots> \<longleftrightarrow> compare y x < 0" by simp
  finally show "compare x y > 0 \<longleftrightarrow> compare y x < 0" .
  show "compare x y \<le> 0 \<Longrightarrow> compare y z \<le> 0 \<Longrightarrow> compare x z \<le> 0" using assms unfolding three_way_def by blast
qed

lemma three_way_total: "three_way compare \<Longrightarrow> total_preorder compare"
  using three_wayD [of compare] unfolding total_preorder_def by (meson order_less_imp_le)

lemma sorted_in_order:
  assumes w: "three_way compare" and s: "sorted_wrt (\<lambda>x y. compare x y \<le> 0) (contents n A cnt)"
  shows "in_order compare key n A cnt"
  unfolding in_order_def
proof (intro allI impI)
  fix j k assume jk: "1 \<le> j \<and> j \<le> k \<and> k \<le> cnt"
  show "sgn (compare key (element n A k)) \<le> sgn (compare key (element n A j))"
  proof (cases "j = k")
    case False
    then have "j - 1 < k - 1" "k - 1 < cnt" using jk by linarith+
    then have "compare (element n A j) (element n A k) \<le> 0"
      using sorted_wrt_nth_less [OF s, of "j - 1" "k - 1"] jk by (simp add: contents_def del: upt_Suc)
    then have "compare key (element n A j) \<le> 0 \<Longrightarrow> compare key (element n A k) \<le> 0"
        "compare (element n A k) key \<le> 0 \<Longrightarrow> compare (element n A j) key \<le> 0"
      using three_wayD(2) [OF w] by blast+
    then have "compare key (element n A j) \<le> 0 \<Longrightarrow> compare key (element n A k) \<le> 0"
        "0 \<le> compare key (element n A k) \<Longrightarrow> 0 \<le> compare key (element n A j)"
      using three_wayD(1) [OF w, of "element n A j" key] three_wayD(1) [OF w, of "element n A k" key] by linarith+
    then show ?thesis by (simp add: sgn_if) linarith
  qed simp
qed

text \<open>C38: \<^verbatim>\<open>sort\<close>, the heap sort behind \<^verbatim>\<open>qsort\<close>, ends and leaves the elements of the array in order,
  with none lost, added or cut; in the sorted array \<^verbatim>\<open>binary_search\<close> returns a match for a key
  exactly if one of the original elements is equal to the key.\<close>

theorem sort_then_search:
  assumes "three_way compare" "cnt < 2 ^ 31" "cnt * n \<le> length A" "0 < n" "cnt < fuel"
  shows "\<exists>A'. sort_array fuel A cnt n compare = Inr A' \<and> length A' = length A \<and>
     mset (contents n A' cnt) = mset (contents n A cnt) \<and> sorted_wrt (\<lambda>x y. compare x y \<le> 0) (contents n A' cnt) \<and>
     (\<forall>key. \<exists>r. binary_search key A' cnt n compare = Inr r \<and>
        (case r of None \<Rightarrow> \<forall>x \<in> set (contents n A cnt). compare key x \<noteq> 0
         | Some p \<Rightarrow> \<exists>j < cnt. p = j * n \<and> compare key (contents n A' cnt ! j) = 0))"
proof -
  obtain A' where A': "sort_array fuel A cnt n compare = Inr A'" "length A' = length A"
      "mset (contents n A' cnt) = mset (contents n A cnt)" "sorted_wrt (\<lambda>x y. compare x y \<le> 0) (contents n A' cnt)"
    using sort_array_spec [OF three_way_total [OF assms(1)] assms(2-)] by blast
  have same: "set (contents n A cnt) = set (contents n A' cnt)" using A'(3) by (metis set_mset_mset)
  have "\<exists>r. binary_search key A' cnt n compare = Inr r \<and>
        (case r of None \<Rightarrow> \<forall>x \<in> set (contents n A cnt). compare key x \<noteq> 0
         | Some p \<Rightarrow> \<exists>j < cnt. p = j * n \<and> compare key (contents n A' cnt ! j) = 0)" for key
  proof -
    obtain r where r: "binary_search key A' cnt n compare = Inr r"
        "case r of None \<Rightarrow> \<forall>j. 1 \<le> j \<and> j \<le> cnt \<longrightarrow> compare key (element n A' j) \<noteq> 0
         | Some p \<Rightarrow> \<exists>j. 1 \<le> j \<and> j \<le> cnt \<and> p = (j - 1) * n \<and> compare key (element n A' j) = 0"
      using binary_search_spec [OF sorted_in_order [OF assms(1) A'(4)], of key] assms(3,4) A'(2) by auto
    show ?thesis
    proof (cases r)
      case None
      then show ?thesis using r unfolding same by (auto simp: contents_def)
    next
      case (Some p)
      then obtain j where "1 \<le> j" "j \<le> cnt" "p = (j - 1) * n" "compare key (element n A' j) = 0" using r(2) by auto
      then show ?thesis using r(1) Some by (auto simp: contents_def simp del: upt_Suc intro!: exI [of _ "j - 1"])
    qed
  qed
  then show ?thesis using A' by blast
qed

definition by_first_byte :: cmp where
  "by_first_byte x y = int (unat (hd (x @ [0]))) - int (unat (hd (y @ [0])))"

lemma by_first_byte_three_way: "three_way by_first_byte"
  by (auto simp: three_way_def by_first_byte_def sgn_if)

lemma length_contents: "length (contents n A cnt) = cnt"
  by (simp add: contents_def)

theorem sort_then_search_witness:
  "\<exists>A'. sort_array 4 [3, 0, 1, 0, 2, 0] 3 2 by_first_byte = Inr A' \<and> length A' = 6 \<and>
     mset (contents 2 A' 3) = {#[3, 0], [1, 0], [2, 0]#} \<and> (\<exists>p. binary_search [2, 9] A' 3 2 by_first_byte = Inr (Some p)) \<and>
     binary_search [4, 0] A' 3 2 by_first_byte = Inr None"
proof -
  have c: "contents 2 [3, 0, 1, 0, 2, 0] 3 = [[3, 0], [1, 0], [2, 0 :: u8]]" by (simp add: contents_def element_def upt_rec)
  obtain A' where A': "sort_array 4 [3, 0, 1, 0, 2, 0] 3 2 by_first_byte = Inr A'" "length A' = 6" "mset (contents 2 A' 3) = {#[3, 0], [1, 0], [2, 0]#}"
      "\<And>key. \<exists>r. binary_search key A' 3 2 by_first_byte = Inr r \<and>
        (case r of None \<Rightarrow> \<forall>x \<in> set [[3, 0], [1, 0], [2, 0]]. by_first_byte key x \<noteq> 0
         | Some p \<Rightarrow> \<exists>j < 3. p = j * 2 \<and> by_first_byte key (contents 2 A' 3 ! j) = 0)"
    using sort_then_search [OF by_first_byte_three_way, of 3 2 "[3, 0, 1, 0, 2, 0]" 4] unfolding c by auto
  have m: "contents 2 A' 3 ! j \<in> {[3, 0], [1, 0], [2, 0]}" if "j < 3" for j
    using that nth_mem [of j "contents 2 A' 3"] mset_eq_setD [of "contents 2 A' 3" "[[3, 0], [1, 0], [2, 0]]"] A'(3)
    by (simp add: length_contents)
  obtain r where r: "binary_search [2, 9] A' 3 2 by_first_byte = Inr r" "r \<noteq> None" using A'(4) [of "[2, 9]"] by (force simp: by_first_byte_def split: option.splits)
  have "by_first_byte [4, 0] (contents 2 A' 3 ! j) \<noteq> 0" if "j < 3" for j using m [OF that] by (auto simp: by_first_byte_def)
  then have "binary_search [4, 0] A' 3 2 by_first_byte = Inr None" using A'(4) [of "[4, 0]"] by (auto split: option.splits)
  then show ?thesis using A'(1-3) r by auto
qed


section \<open>Division\<close>

text \<open>C40: the routines that the compiler calls for 64-bit division agree with the arithmetic of the
  language: for a divisor that is not zero they return, the quotients are the exact ones (for the
  signed routine unless the quotient does not fit), and the remainders are exact as far as they fit
  in the 32 bits that \<^verbatim>\<open>umod64\<close> and \<^verbatim>\<open>smod64\<close> return.\<close>

theorem division_routines_exact:
  assumes "d \<noteq> 0"
  shows "udivdi3 n d = Inr (n div d) \<and>
     (n mod d < 2 ^ 32 \<longrightarrow> umoddi3 n d = Inr (n mod d)) \<and>
     (\<not> (sint n = - (2 ^ 63) \<and> sint d = - 1) \<longrightarrow>
        (\<exists>q. divdi3 n d = Inr q \<and> sint q = sint n sdiv sint d) \<and>
        (- (2 ^ 31) \<le> sint n smod sint d \<and> sint n smod sint d < 2 ^ 31 \<longrightarrow>
           (\<exists>r. moddi3 n d = Inr r \<and> sint r = sint n smod sint d)))"
proof (intro conjI impI)
  show "udivdi3 n d = Inr (n div d)" using udiv64_correct [OF assms] by (simp add: udivdi3_def)
  show "umoddi3 n d = Inr (n mod d)" if "n mod d < 2 ^ 32"
    using that umod64_correct [OF assms] by (simp add: umoddi3_def narrow_widen)
  assume o: "\<not> (sint n = - (2 ^ 63) \<and> sint d = - 1)"
  then show "\<exists>q. divdi3 n d = Inr q \<and> sint q = sint n sdiv sint d" using sdiv64_correct [OF assms] by (simp add: divdi3_def)
  assume "- (2 ^ 31) \<le> sint n smod sint d \<and> sint n smod sint d < 2 ^ 31"
  then show "\<exists>r. moddi3 n d = Inr r \<and> sint r = sint n smod sint d" using smod64_correct [OF assms o] by (simp add: moddi3_def scast_sint)
qed

theorem division_routines_exact_witness:
  "udivdi3 10000000000 3 = Inr 3333333333 \<and> umoddi3 10000000000 3 = Inr 1 \<and>
   (\<exists>q. divdi3 (- 7) 2 = Inr q \<and> sint q = - 3) \<and> (\<exists>r. moddi3 (- 7) 2 = Inr r \<and> sint r = - 1)"
proof -
  note d = division_routines_exact [of 3 10000000000] division_routines_exact [of 2 "- 7"]
  have "(- 7 :: int) sdiv 2 = - 3" "(- 7 :: int) smod 2 = - 1" by (simp_all add: signed_divide_int_def signed_modulo_int_def)
  moreover have "sint (- 7 :: u64) = - 7" "sint (2 :: u64) = 2" by (simp_all)
  ultimately show ?thesis using d by simp
qed

text \<open>A remainder that needs more than 32 bits is cut: the remainder of \<open>2 ^ 32\<close> by \<open>2 ^ 33\<close> comes out as 0.\<close>

lemma umoddi3_truncates: "umoddi3 (2 ^ 32) (2 ^ 33) = Inr 0 \<and> (2 ^ 32 :: u64) mod 2 ^ 33 = 2 ^ 32"
proof
  have "(2 ^ 33 :: u64) \<noteq> 0" by simp
  then show "umoddi3 (2 ^ 32) (2 ^ 33) = Inr 0" by (simp add: umoddi3_def umod64_correct)
qed simp


section \<open>Hash tables\<close>

text \<open>C39: hash tables refine maps. For elements found by a key, \<^verbatim>\<open>hash_insert\<close>, \<^verbatim>\<open>hash_replace\<close>,
  \<^verbatim>\<open>hash_find\<close> and \<^verbatim>\<open>hash_delete\<close> always return, and do to the table what insertion, update, lookup and
  removal do to a map from keys to values, whether or not there is memory to resize the table.\<close>

theorem hash_table_refines_map:
  assumes "keyed_inv h"
  shows "map_option snd (hash_find h (k, v)) = keyed_map h k \<and>
     (\<exists>r h'. hash_insert ok h (k, v) = Inr (r, h') \<and> keyed_inv h' \<and> map_option snd r = keyed_map h k \<and>
        keyed_map h' = (if keyed_map h k = None then (keyed_map h)(k \<mapsto> v) else keyed_map h)) \<and>
     (\<exists>r h'. hash_replace ok h (k, v) = Inr (r, h') \<and> keyed_inv h' \<and> map_option snd r = keyed_map h k \<and>
        keyed_map h' = (keyed_map h)(k \<mapsto> v)) \<and>
     (\<exists>r h'. hash_delete ok h (k, v) = Inr (r, h') \<and> keyed_inv h' \<and> map_option snd r = keyed_map h k \<and>
        keyed_map h' = (keyed_map h)(k := None))"
  using keyed_find [OF assms] keyed_insert [OF assms] keyed_replace [OF assms] keyed_delete [OF assms] by blast

definition ex_table :: "(nat \<times> nat) hash" where
  "ex_table = snd (hash_init True (\<lambda>e. of_nat (fst e)) by_key)"

theorem hash_table_refines_map_witness:
  "\<exists>h. hash_insert True ex_table (7, 1) = Inr (None, h) \<and> keyed_map h = [7 \<mapsto> 1] \<and> hash_find ex_table (7, 1) = None"
proof -
  have "\<exists>h. hash_init True (\<lambda>e. of_nat (fst e)) (by_key :: nat \<times> nat \<Rightarrow> _) = (True, h) \<and> hash_inv h \<and> elems h = {#}"
    by (rule hash_init_inv [OF by_key_order]) (simp add: by_key_def)
  then have "hash_inv ex_table" by (auto simp: ex_table_def)
  moreover have "same ex_table = (\<lambda>a b. fst a = fst b)" by (auto simp: ex_table_def hash_init_def hash_clear_def same_def by_key_def fun_eq_iff)
  ultimately have i: "keyed_inv ex_table" by (simp add: keyed_inv_def)
  have m: "keyed_map ex_table = Map.empty" by (simp add: ex_table_def keyed_map_def hash_apply_def hash_init_def hash_clear_def)
  show ?thesis using hash_table_refines_map [OF i, of 7 1 True] unfolding m by auto
qed

section \<open>Formatted output\<close>

text \<open>C31: Printing and parsing agree. For every \<^verbatim>\<open>int\<close>, \<^verbatim>\<open>snprintf (buffer, n, "%d", i)\<close> with at least
  12 bytes returns the length of the text, and \<^verbatim>\<open>atoi\<close> reads \<open>i\<close> back from the buffer; the
  smallest \<^verbatim>\<open>int\<close>, whose absolute value is not an \<^verbatim>\<open>int\<close>, included.\<close>

theorem printed_number_reads_back:
  assumes i: "- (2 ^ 31) \<le> i" "i < 2 ^ 31" and n: "12 \<le> unat n" "unat n \<le> 2 ^ 31"
    and buffer: "buffer \<noteq> 0" "unat buffer + 12 \<le> 2 ^ 32"
  shows "\<exists>m'. snprintf 2 k buffer n (lit ''%d'') [word_of_int i] m = Inr (int (length (number_text i)), m') \<and> atoi 12 buffer m' = Inr i"
proof -
  let ?t = "number_text i"
  have l: "length ?t \<le> 11" using number_text_length [OF i] .
  have n0: "n \<noteq> 0" using n(1) by auto
  have d: "0 \<notin> set ?t"
    using rev_digits_isdigit [of 0 "nat \<bar>i\<bar>"] by (auto simp: number_text_def isdigit_def)
  have "snprintf 2 k buffer n (lit ''%d'') [word_of_int i] m = Inr (int (length ?t), kwrite buffer (?t @ [0]) m)"
    using snprintf_d [OF i n(2), of 0 k buffer m] n0 l n(1) by (simp add: numeral_2_eq_2)
  moreover have "cstr (kwrite buffer (?t @ [0]) m) buffer ?t" by (rule cstr_stored) (use buffer l d in auto)
  then have "atoi 12 buffer (kwrite buffer (?t @ [0]) m) = Inr i" by (rule atoi_number_text [OF _ i]) (use l in simp)
  ultimately show ?thesis by blast
qed

theorem printed_number_reads_back_witness:
  "\<exists>m'. snprintf 2 5 0x1000 12 (lit ''%d'') [word_of_int (- 42)] (\<lambda>_. 0xcc) = Inr (int (length (number_text (- 42))), m') \<and> atoi 12 0x1000 m' = Inr (- 42)"
  by (rule printed_number_reads_back) simp_all



end
