(* ===== verification/Partition.thy ===== *)
theory Partition
  imports Block Stdio
begin

text \<open>
  Block devices and partitions (src/pintos2/src/devices/block.c, devices/partition.c).

  \<^item> \<open>all_blocks\<close> is the list of registered devices; devices are never removed, and a pointer to one is its
    index. A device is driven by a disk, whose sectors the state keeps, or is a partition of another device.
  \<^item> \<^verbatim>\<open>malloc\<close> may fail at any call: \<open>dev_mallocs\<close> gives its answers.
  \<^item> Sector numbers are 32-bit words, so the sums of the code wrap around as they do there. Messages on
    the console are left out; the name that \<^verbatim>\<open>snprintf\<close> makes for a partition is computed by \<open>Stdio\<close>.
  \<^item> A nesting of partitions has at most as many levels as there are devices (\<open>device_read\<close>). The
    recursion over partition tables (\<open>read_partition_table\<close>) has a turn of fuel for each table.
\<close>

datatype block_type = BLOCK_KERNEL | BLOCK_FILESYS | BLOCK_SCRATCH | BLOCK_SWAP | BLOCK_RAW | BLOCK_FOREIGN

datatype driver = Disk nat | Partition nat u32

record device =
  dev_name :: "u8 list"
  dev_type :: block_type
  dev_size :: u32
  dev_aux :: driver
  dev_reads :: u64
  dev_writes :: u64

record devices =
  all_blocks :: "device list"
  block_by_role :: "block_type \<Rightarrow> nat option"
  disks :: "nat \<Rightarrow> u32 \<Rightarrow> u8 list"
  dev_mallocs :: "nat \<Rightarrow> bool"
  dev_calls :: nat

definition upd_device :: "nat \<Rightarrow> (device \<Rightarrow> device) \<Rightarrow> devices \<Rightarrow> devices" where
  "upd_device b f d = d\<lparr>all_blocks := (all_blocks d)[b := f (all_blocks d ! b)]\<rparr>"

definition dev_malloc :: "devices \<Rightarrow> bool \<times> devices" where
  "dev_malloc d = (dev_mallocs d (dev_calls d), d\<lparr>dev_calls := Suc (dev_calls d)\<rparr>)"

subsection \<open>The registry of devices\<close>

definition is_role :: "block_type \<Rightarrow> bool" where
  "is_role t \<longleftrightarrow> t \<noteq> BLOCK_RAW \<and> t \<noteq> BLOCK_FOREIGN"

definition block_get_role :: "block_type \<Rightarrow> devices \<Rightarrow> nat option res" where
  "block_get_role role d = kassert (is_role role) (Inr (block_by_role d role))"

definition block_set_role :: "block_type \<Rightarrow> nat option \<Rightarrow> devices \<Rightarrow> devices res" where
  "block_set_role role b d = kassert (is_role role) (Inr (d\<lparr>block_by_role := (block_by_role d)(role := b)\<rparr>))"

definition list_elem_to_block :: "nat \<Rightarrow> devices \<Rightarrow> nat option" where
  "list_elem_to_block e d = (if e \<noteq> length (all_blocks d) then Some e else None)"

definition block_first :: "devices \<Rightarrow> nat option" where
  "block_first d = list_elem_to_block 0 d"

definition block_next :: "nat \<Rightarrow> devices \<Rightarrow> nat option" where
  "block_next b d = list_elem_to_block (Suc b) d"

function by_name_loop :: "nat \<Rightarrow> u8 list \<Rightarrow> devices \<Rightarrow> nat option" where
  "by_name_loop e name d =
     (if e < length (all_blocks d)
      then if dev_name (all_blocks d ! e) = name then Some e else by_name_loop (Suc e) name d
      else None)"
  by auto
termination by (relation "measure (\<lambda>(e, name, d). length (all_blocks d) - e)") auto

declare by_name_loop.simps [simp del]

definition block_get_by_name :: "u8 list \<Rightarrow> devices \<Rightarrow> nat option" where
  "block_get_by_name name d = by_name_loop 0 name d"

definition block_register :: "u8 list \<Rightarrow> block_type \<Rightarrow> u32 \<Rightarrow> driver \<Rightarrow> devices \<Rightarrow> (nat \<times> devices) res" where
  "block_register name ty n aux d =
     (let (ok, d1) = dev_malloc d
      in if \<not> ok then Inl (Panic ''Failed to allocate memory for block device descriptor'')
         else Inr (length (all_blocks d1),
                   d1\<lparr>all_blocks := all_blocks d1 @
                     [\<lparr>dev_name = take 15 name, dev_type = ty, dev_size = n, dev_aux = aux, dev_reads = 0, dev_writes = 0\<rparr>]\<rparr>))"

subsection \<open>Access\<close>

definition check_device_sector :: "device \<Rightarrow> u32 \<Rightarrow> 'a res \<Rightarrow> 'a res" where
  "check_device_sector dev sector r = (if sector \<ge> dev_size dev then Inl (Panic ''Access past end of device'') else r)"

definition partition_read ::
  "(nat \<Rightarrow> u32 \<Rightarrow> devices \<Rightarrow> (u8 list \<times> devices) res) \<Rightarrow> nat \<Rightarrow> u32 \<Rightarrow> u32 \<Rightarrow> devices \<Rightarrow> (u8 list \<times> devices) res" where
  "partition_read rd p start sector d = rd p (start + sector) d"

definition partition_write ::
  "(nat \<Rightarrow> u32 \<Rightarrow> u8 list \<Rightarrow> devices \<Rightarrow> devices res) \<Rightarrow> nat \<Rightarrow> u32 \<Rightarrow> u32 \<Rightarrow> u8 list \<Rightarrow> devices \<Rightarrow> devices res" where
  "partition_write wr p start sector buf d = wr p (start + sector) buf d"

fun device_read :: "nat \<Rightarrow> nat \<Rightarrow> u32 \<Rightarrow> devices \<Rightarrow> (u8 list \<times> devices) res" where
  "device_read 0 b sector d = Inl Diverged"
| "device_read (Suc fuel) b sector d =
     kdefined (b < length (all_blocks d))
      (check_device_sector (all_blocks d ! b) sector
        (rbind (case dev_aux (all_blocks d ! b) of
                  Disk i \<Rightarrow> Inr (disks d i sector, d)
                | Partition p start \<Rightarrow> partition_read (device_read fuel) p start sector d) (\<lambda>(buf, d1).
           Inr (buf, upd_device b (\<lambda>v. v\<lparr>dev_reads := dev_reads v + 1\<rparr>) d1))))"

fun device_write :: "nat \<Rightarrow> nat \<Rightarrow> u32 \<Rightarrow> u8 list \<Rightarrow> devices \<Rightarrow> devices res" where
  "device_write 0 b sector buf d = Inl Diverged"
| "device_write (Suc fuel) b sector buf d =
     kdefined (b < length (all_blocks d))
      (check_device_sector (all_blocks d ! b) sector
        (kassert (dev_type (all_blocks d ! b) \<noteq> BLOCK_FOREIGN)
          (rbind (case dev_aux (all_blocks d ! b) of
                    Disk i \<Rightarrow> Inr (d\<lparr>disks := (disks d)(i := (disks d i)(sector := buf))\<rparr>)
                  | Partition p start \<Rightarrow> partition_write (device_write fuel) p start sector buf d) (\<lambda>d1.
             Inr (upd_device b (\<lambda>v. v\<lparr>dev_writes := dev_writes v + 1\<rparr>) d1)))))"

subsection \<open>Partition tables\<close>

record partition_table_entry =
  bootable :: u8
  e_type :: u8
  e_offset :: u32
  e_size :: u32

definition entry_of :: "u8 list \<Rightarrow> partition_table_entry" where
  "entry_of bs = \<lparr>bootable = bs ! 0, e_type = bs ! 4, e_offset = of_nat (le_val (take 4 (drop 8 bs))), e_size = of_nat (le_val (take 4 (drop 12 bs)))\<rparr>"

definition pt_partitions :: "u8 list \<Rightarrow> partition_table_entry list" where
  "pt_partitions pt = map (\<lambda>i. entry_of (take 16 (drop (446 + 16 * i) pt))) [0, 1, 2, 3]"

definition pt_signature :: "u8 list \<Rightarrow> nat" where
  "pt_signature pt = le_val (take 2 (drop 510 pt))"

definition is_extended :: "u8 \<Rightarrow> bool" where
  "is_extended t \<longleftrightarrow> t = 0x05 \<or> t = 0x0f \<or> t = 0x85 \<or> t = 0xc5"

definition partition_block_type :: "u8 \<Rightarrow> block_type" where
  "partition_block_type t =
     (if t = 0x20 then BLOCK_KERNEL else if t = 0x21 then BLOCK_FILESYS else if t = 0x22 then BLOCK_SCRATCH
      else if t = 0x23 then BLOCK_SWAP else BLOCK_FOREIGN)"

text \<open>\<^verbatim>\<open>snprintf (name, sizeof name, "%s%d", block_name (block), part_nr)\<close>, in a memory that holds the name of the
  device and the array \<^verbatim>\<open>name\<close>.\<close>

definition partition_name :: "u8 list \<Rightarrow> int \<Rightarrow> u8 list res" where
  "partition_name name part_nr =
     rbind (snprintf 4 17 0x1000 16 (lit ''%s%d'') [1, word_of_int part_nr] (kwrite 1 (name @ [0]) (\<lambda>_. 0))) (\<lambda>(_, m).
       Inr (takeWhile (\<lambda>c. c \<noteq> 0) (kread 0x1000 16 m)))"

definition found_partition :: "nat \<Rightarrow> u8 \<Rightarrow> u32 \<Rightarrow> u32 \<Rightarrow> int \<Rightarrow> devices \<Rightarrow> devices res" where
  "found_partition b part_type start n part_nr d =
     (if start \<ge> dev_size (all_blocks d ! b) then Inr d
      else if start + n < start \<or> start + n > dev_size (all_blocks d ! b) then Inr d
      else (let (ok, d1) = dev_malloc d
            in if \<not> ok then Inl (Panic ''Failed to allocate memory for partition descriptor'')
               else rbind (partition_name (dev_name (all_blocks d1 ! b)) part_nr) (\<lambda>name.
                    rbind (block_register name (partition_block_type part_type) n (Partition b start) d1) (\<lambda>(_, d2). Inr d2))))"

fun scan_entries ::
  "(u32 \<Rightarrow> u32 \<Rightarrow> int \<Rightarrow> devices \<Rightarrow> (int \<times> devices) res) \<Rightarrow> nat \<Rightarrow> u32 \<Rightarrow> u32 \<Rightarrow> partition_table_entry list \<Rightarrow> int \<Rightarrow> devices \<Rightarrow>
   (int \<times> devices) res" where
  "scan_entries rec b sector primary [] part_nr d = Inr (part_nr, d)"
| "scan_entries rec b sector primary (e # es) part_nr d =
     (if e_size e = 0 \<or> e_type e = 0 then scan_entries rec b sector primary es part_nr d
      else if is_extended (e_type e) then
        rbind (if sector = 0 then rec (e_offset e) (e_offset e) part_nr d
               else rec (e_offset e + primary) primary part_nr d) (\<lambda>(nr, d1).
          scan_entries rec b sector primary es nr d1)
      else rbind (found_partition b (e_type e) (e_offset e + sector) (e_size e) (part_nr + 1) d)
             (scan_entries rec b sector primary es (part_nr + 1)))"

fun read_partition_table :: "nat \<Rightarrow> nat \<Rightarrow> u32 \<Rightarrow> u32 \<Rightarrow> int \<Rightarrow> devices \<Rightarrow> (int \<times> devices) res" where
  "read_partition_table 0 b sector primary part_nr d = Inl Diverged"
| "read_partition_table (Suc fuel) b sector primary part_nr d =
     (if sector \<ge> dev_size (all_blocks d ! b) then Inr (part_nr, d)
      else (let (ok, d1) = dev_malloc d
            in if \<not> ok then Inl (Panic ''Failed to allocate memory for partition table.'')
               else rbind (device_read (Suc (length (all_blocks d1))) b 0 d1) (\<lambda>(pt, d2).
                    if pt_signature pt \<noteq> 0xaa55 then Inr (part_nr, d2)
                    else scan_entries (read_partition_table fuel b) b sector primary (pt_partitions pt) part_nr d2)))"

definition partition_scan :: "nat \<Rightarrow> nat \<Rightarrow> devices \<Rightarrow> devices res" where
  "partition_scan fuel b d = rbind (read_partition_table fuel b 0 0 0 d) (\<lambda>(_, d1). Inr d1)"

subsection \<open>Names\<close>

lemma strnlen_eq:
  assumes "\<And>i. i \<le> length str \<Longrightarrow> m (s + of_nat i) = (str @ [0]) ! i" "0 \<notin> set str" "length str \<le> maxlen" "length str < k"
  shows "strnlen k s maxlen m = Inr (length str)"
proof -
  have "len \<le> length str \<Longrightarrow> length str - len < fuel \<Longrightarrow> strnlen_loop fuel len s maxlen m = Inr (length str)" for fuel len
  proof (induction fuel arbitrary: len)
    case (Suc fuel)
    show ?case
    proof (cases "len = length str")
      case False
      then have "len < length str" using Suc.prems(1) by simp
      then have "m (s + of_nat len) \<noteq> 0" using assms(1) [of len] assms(2) by (metis Suc.prems(1) nth_append nth_mem)
      then show ?thesis using Suc \<open>len < length str\<close> assms(3) by simp
    qed (use assms(1) [of "length str"] in simp)
  qed simp
  from this [of 0 k] show ?thesis using assms(4) by (simp add: strnlen_def)
qed

lemma string_loop_eq:
  assumes "\<And>out j. j < length str \<Longrightarrow> get (fold output out aux) j = str ! j" "i + n \<le> length str"
  shows "string_loop get i n output (fold output out aux) = fold output (take n (drop i str)) (fold output out aux)"
  using assms(2)
proof (induction n arbitrary: i out)
  case (Suc n)
  have "string_loop get (i + 1) n output (fold output (out @ [str ! i]) aux) = fold output (take n (drop (i + 1) str)) (fold output (out @ [str ! i]) aux)"
    using Suc.IH [of "i + 1" "out @ [str ! i]"] Suc.prems by simp
  moreover have "get (fold output out aux) i = str ! i" using assms(1) Suc.prems by simp
  moreover have "take (Suc n) (drop i str) = str ! i # take n (drop (Suc i) str)"
    using Suc.prems by (simp add: Cons_nth_drop_Suc [symmetric])
  ultimately show ?case by simp
qed simp

lemma parse_conversion_s: "parse_conversion (115 # f) args = Inr (115 # f, plain, args)"
  by (simp add: parse_conversion_def parse_amount_def parse_precision_def parse_type_def peek_def isdigit_def plain_def)

lemma vprintf_s:
  assumes rd: "\<And>out i. i \<le> length str \<Longrightarrow> rd (fold output out aux) (s + of_nat i) = (str @ [0]) ! i"
    and s: "s \<noteq> 0" "0 \<notin> set str" "length str < 2 ^ 31" "length str < k"
  shows "vprintf (Suc fuel) k rd output (37 # 115 # f) (s # args) aux = vprintf fuel k rd output f args (fold output str aux)"
proof -
  have u: "unat (- 1 :: u32) = 4294967295" by (simp add: unsigned_minus_1_eq_mask mask_eq_exp_minus_1)
  have "strnlen k s 4294967295 (rd aux) = Inr (length str)"
    by (rule strnlen_eq) (use rd [where out = "[]"] s in auto)
  moreover have "string_loop (\<lambda>a i. rd a (s + of_nat i)) 0 (length str) output (fold output [] aux) = fold output (take (length str) (drop 0 str)) (fold output [] aux)"
    by (rule string_loop_eq) (use rd in \<open>auto simp: nth_append\<close>)
  ultimately show ?thesis
    using s(1) by (simp add: u peek_def parse_conversion_s convert_def plain_def format_string_def)
qed

lemma kread_prefix:
  assumes "length bs \<le> n" "n \<le> 2 ^ 32"
  shows "\<exists>rest. kread a n (kwrite a bs m) = bs @ rest"
proof -
  have "kread a n (kwrite a bs m) = kread a (length bs) (kwrite a bs m) @ kread (a + of_nat (length bs)) (n - length bs) (kwrite a bs m)"
    using kread_add [of a "length bs" "n - length bs"] assms(1) by simp
  then show ?thesis using kread_kwrite_same [of bs a m] assms by auto
qed

lemma takeWhile_stop: "0 \<notin> set xs \<Longrightarrow> takeWhile (\<lambda>c. c \<noteq> (0 :: u8)) (xs @ 0 # ys) = xs"
  by (induction xs) auto

lemma number_text_nonzero: "0 \<notin> set (number_text i)"
  using rev_digits_isdigit [of 0 "nat \<bar>i\<bar>"] by (auto simp: number_text_def isdigit_def)

lemma partition_name_eq:
  assumes "length name \<le> 15" "0 \<notin> set name" "- (2 ^ 31) \<le> nr" "nr < 2 ^ 31"
  shows "partition_name name nr = Inr (take 15 (name @ number_text nr))"
proof -
  let ?m = "kwrite 1 (name @ [0]) (\<lambda>_. 0) :: mem" and ?out = "name @ number_text nr"
  let ?a = "start_aux 0x1000 16 ?m"
  have f: "lit ''%s%d'' = [37, 115, 37, 100]" by (simp add: lit_def)
  have a: "max_length ?a = 15" "aux_length ?a = 0" "aux_p ?a = 0x1000" "aux_mem ?a = ?m" by (simp_all add: start_aux_def)
  have rd: "aux_mem (fold vsnprintf_helper out ?a) (1 + of_nat i) = (name @ [0]) ! i" if "i \<le> length name" for out i
  proof -
    have i: "i \<le> 15" using that assms(1) by simp
    have "aux_mem (fold vsnprintf_helper out ?a) = kwrite 0x1000 (take 15 out) ?m"
      using fold_helper [of ?a out] a by simp
    moreover have "15 \<le> unat (1 + of_nat i - 0x1000 :: u32)"
      using unat_plus_of_nat [of 1 i] unat_of_nat_u32 [of i] i by (simp add: unat_sub_if')
    then have "kwrite 0x1000 (take 15 out) ?m (1 + of_nat i) = ?m (1 + of_nat i)" by (intro kwrite_beyond) simp
    moreover have "?m (1 + of_nat i) = (name @ [0]) ! i" using that i by (simp add: kwrite_def unat_of_nat_u32)
    ultimately show ?thesis by simp
  qed
  have v: "vprintf 4 17 aux_mem vsnprintf_helper (lit ''%s%d'') [1, word_of_int nr] ?a = Inr (fold vsnprintf_helper ?out ?a)"
  proof -
    have n: "(4 :: nat) = Suc (Suc (Suc 1))" by simp
    have "vprintf 4 17 aux_mem vsnprintf_helper (lit ''%s%d'') [1, word_of_int nr] ?a
        = vprintf (Suc (Suc 1)) 17 aux_mem vsnprintf_helper [37, 100] [word_of_int nr] (fold vsnprintf_helper name ?a)"
      unfolding f n by (rule vprintf_s) (use rd assms in auto)
    also have "\<dots> = vprintf (Suc 1) 17 aux_mem vsnprintf_helper [] [] (fold vsnprintf_helper (number_text nr) (fold vsnprintf_helper name ?a))"
      by (rule vprintf_d) (use assms in auto)
    finally show ?thesis by (simp only: vprintf_end fold_append o_apply)
  qed
  have "snprintf 4 17 0x1000 16 (lit ''%s%d'') [1, word_of_int nr] ?m = Inr (int (length ?out), kwrite 0x1000 (take 15 ?out @ [0]) ?m)"
    unfolding snprintf_def using vsnprintf_of_fold [OF _ _ v] number_text_length [OF assms(3,4)] assms(1) by simp
  moreover have "\<exists>rest. kread 0x1000 16 (kwrite 0x1000 (take 15 ?out @ [0]) ?m) = (take 15 ?out @ [0]) @ rest"
    by (rule kread_prefix) simp_all
  then obtain rest where "kread 0x1000 16 (kwrite 0x1000 (take 15 ?out @ [0]) ?m) = (take 15 ?out @ [0]) @ rest" by (elim exE)
  moreover have "0 \<notin> set (take 15 ?out)" using assms(2) number_text_nonzero [of nr] by (auto dest: in_set_takeD)
  ultimately show ?thesis by (simp add: partition_name_def takeWhile_stop del: take_append)
qed

subsection \<open>Well-formed devices\<close>

text \<open>Names fit in their arrays, and a partition lies within a device that was registered before it.\<close>

definition within :: "u32 \<Rightarrow> u32 \<Rightarrow> u32 \<Rightarrow> bool" where
  "within start n whole \<longleftrightarrow> unat start + unat n \<le> unat whole"

definition device_ok :: "devices \<Rightarrow> nat \<Rightarrow> bool" where
  "device_ok d b \<longleftrightarrow> length (dev_name (all_blocks d ! b)) \<le> 15 \<and> 0 \<notin> set (dev_name (all_blocks d ! b)) \<and>
     (case dev_aux (all_blocks d ! b) of
        Disk i \<Rightarrow> True
      | Partition p start \<Rightarrow> p < b \<and> within start (dev_size (all_blocks d ! b)) (dev_size (all_blocks d ! p)))"

definition devices_ok :: "devices \<Rightarrow> bool" where
  "devices_ok d \<longleftrightarrow> (\<forall>b < length (all_blocks d). device_ok d b)"

lemma found_in_range:
  assumes "n \<noteq> 0"
  shows "(\<not> start \<ge> whole \<and> \<not> (start + n < start \<or> start + n > whole)) \<longleftrightarrow> within start n whole"
proof -
  have n: "0 < unat n" using assms by (simp add: unat_gt_0)
  show ?thesis
  proof (cases "unat start + unat n < 2 ^ 32")
    case True
    then have "unat (start + n) = unat start + unat n" by (simp add: unat_word_ariths(1))
    then show ?thesis using n by (auto simp: within_def word_le_nat_alt word_less_nat_alt)
  next
    case False
    have "unat (start + n) = unat start + unat n - 2 ^ 32"
      using False unat_u32_less [of start] unat_u32_less [of n] by (simp add: unat_word_ariths(1) mod_if)
    then have "start + n < start" using False unat_u32_less [of n] by (simp add: word_less_nat_alt)
    moreover have "\<not> within start n whole" using False unat_u32_less [of whole] by (simp add: within_def)
    ultimately show ?thesis by simp
  qed
qed

definition partition_device :: "nat \<Rightarrow> device \<Rightarrow> int \<Rightarrow> u32 \<Rightarrow> partition_table_entry \<Rightarrow> device" where
  "partition_device b dev nr sector e =
     \<lparr>dev_name = take 15 (dev_name dev @ number_text nr), dev_type = partition_block_type (e_type e), dev_size = e_size e,
      dev_aux = Partition b (e_offset e + sector), dev_reads = 0, dev_writes = 0\<rparr>"

lemma found_partition_eq:
  assumes d: "device_ok d b" "\<And>i. dev_mallocs d i" and nr: "- (2 ^ 31) \<le> nr" "nr < 2 ^ 31" and e: "e_size e \<noteq> 0"
  shows "\<exists>c. found_partition b (e_type e) (e_offset e + sector) (e_size e) nr d =
     Inr (d\<lparr>dev_calls := c, all_blocks := all_blocks d @
       (if within (e_offset e + sector) (e_size e) (dev_size (all_blocks d ! b))
        then [partition_device b (all_blocks d ! b) nr sector e] else [])\<rparr>)"
proof (cases "within (e_offset e + sector) (e_size e) (dev_size (all_blocks d ! b))")
  case True
  have "partition_name (dev_name (all_blocks d ! b)) nr = Inr (take 15 (dev_name (all_blocks d ! b) @ number_text nr))"
    using partition_name_eq [OF _ _ nr] d(1) by (simp add: device_ok_def)
  moreover have c: "\<not> e_offset e + sector \<ge> dev_size (all_blocks d ! b)"
      "\<not> (e_offset e + sector + e_size e < e_offset e + sector \<or> e_offset e + sector + e_size e > dev_size (all_blocks d ! b))"
    using True found_in_range [OF e, where start = "e_offset e + sector" and whole = "dev_size (all_blocks d ! b)"] by blast+
  ultimately show ?thesis
    unfolding found_partition_def if_not_P [OF c(1)] if_not_P [OF c(2)] using True d(2)
    by (intro exI [of _ "Suc (Suc (dev_calls d))"])
      (simp add: dev_malloc_def block_register_def partition_device_def Let_def del: take_append)
next
  case False
  then show ?thesis
    using found_in_range [OF e, where start = "e_offset e + sector" and whole = "dev_size (all_blocks d ! b)"]
    by (intro exI [of _ "dev_calls d"]) (simp add: found_partition_def, blast)
qed

subsection \<open>Scanning a table\<close>

definition used_entry :: "partition_table_entry \<Rightarrow> bool" where
  "used_entry e \<longleftrightarrow> e_size e \<noteq> 0 \<and> e_type e \<noteq> 0"

text \<open>The devices that the entries of a table in \<open>sector\<close> stand for, the first used one with number \<open>k\<close>.\<close>

definition table_devices :: "nat \<Rightarrow> device \<Rightarrow> u32 \<Rightarrow> nat \<Rightarrow> partition_table_entry list \<Rightarrow> device list" where
  "table_devices b dev sector k es =
     concat (map (\<lambda>(i, e). if within (e_offset e + sector) (e_size e) (dev_size dev) then [partition_device b dev (int i) sector e] else [])
       (enumerate k (filter used_entry es)))"

lemma table_devices_Nil [simp]: "table_devices b dev sector k [] = []"
  by (simp add: table_devices_def)

lemma table_devices_Cons:
  "table_devices b dev sector k (e # es) =
     (if used_entry e
      then (if within (e_offset e + sector) (e_size e) (dev_size dev) then [partition_device b dev (int k) sector e] else []) @
           table_devices b dev sector (Suc k) es
      else table_devices b dev sector k es)"
  by (simp add: table_devices_def)

lemma device_ok_append: "device_ok d b \<Longrightarrow> b < length (all_blocks d) \<Longrightarrow> device_ok (d\<lparr>dev_calls := c, all_blocks := all_blocks d @ new\<rparr>) b"
  by (auto simp: device_ok_def nth_append split: driver.splits)

lemma scan_entries_primary:
  assumes "device_ok d b" "b < length (all_blocks d)" "\<And>i. dev_mallocs d i"
    "\<forall>e \<in> set es. used_entry e \<longrightarrow> \<not> is_extended (e_type e)" "k + length es < 2 ^ 31"
  shows "\<exists>c. scan_entries rec b sector primary es (int k) d =
    Inr (int (k + length (filter used_entry es)),
         d\<lparr>dev_calls := c, all_blocks := all_blocks d @ table_devices b (all_blocks d ! b) sector (Suc k) es\<rparr>)"
  using assms
proof (induction es arbitrary: k d)
  case Nil
  show ?case by (intro exI [of _ "dev_calls d"]) simp
next
  case (Cons e es)
  show ?case
  proof (cases "used_entry e")
    case False
    then show ?thesis using Cons.IH [OF Cons.prems(1-3), of k] Cons.prems(4,5) by (auto simp: used_entry_def table_devices_Cons)
  next
    case True
    then have e: "e_size e \<noteq> 0" "e_type e \<noteq> 0" "\<not> is_extended (e_type e)" using Cons.prems(4) by (auto simp: used_entry_def)
    let ?new = "if within (e_offset e + sector) (e_size e) (dev_size (all_blocks d ! b))
        then [partition_device b (all_blocks d ! b) (int k + 1) sector e] else []"
    obtain c where f: "found_partition b (e_type e) (e_offset e + sector) (e_size e) (int k + 1) d = Inr (d\<lparr>dev_calls := c, all_blocks := all_blocks d @ ?new\<rparr>)"
      using found_partition_eq [OF Cons.prems(1,3) _ _ e(1), of "int k + 1" sector] Cons.prems(5) by auto
    let ?d = "d\<lparr>dev_calls := c, all_blocks := all_blocks d @ ?new\<rparr>"
    have b: "all_blocks ?d ! b = all_blocks d ! b" using Cons.prems(2) by (simp add: nth_append)
    obtain c2 where "scan_entries rec b sector primary es (int (Suc k)) ?d =
        Inr (int (Suc k + length (filter used_entry es)),
             ?d\<lparr>dev_calls := c2, all_blocks := all_blocks ?d @ table_devices b (all_blocks ?d ! b) sector (Suc (Suc k)) es\<rparr>)"
      using Cons.IH [OF device_ok_append [OF Cons.prems(1,2)], of ?new c "Suc k"] Cons.prems by auto
    then show ?thesis
      using e f True unfolding b by (intro exI [of _ c2]) (simp add: table_devices_Cons add.commute)
  qed
qed

lemma device_read_disk:
  assumes "b < length (all_blocks d)" "dev_aux (all_blocks d ! b) = Disk i" "sector < dev_size (all_blocks d ! b)"
  shows "device_read (Suc fuel) b sector d = Inr (disks d i sector, upd_device b (\<lambda>v. v\<lparr>dev_reads := dev_reads v + 1\<rparr>) d)"
  using assms by (simp add: check_device_sector_def not_le)

lemma device_ok_read:
  "b < length (all_blocks d) \<Longrightarrow> device_ok (upd_device b (\<lambda>v. v\<lparr>dev_reads := r v\<rparr>) d) k = device_ok d k"
  by (auto simp: device_ok_def upd_device_def nth_list_update split: driver.splits)

lemma device_ok_calls [simp]: "device_ok (d\<lparr>dev_calls := c\<rparr>) k = device_ok d k"
  by (auto simp: device_ok_def split: driver.splits)

lemma devices_ok_new:
  assumes "devices_ok d" "\<And>v. v \<in> set new \<Longrightarrow> length (dev_name v) \<le> 15 \<and> 0 \<notin> set (dev_name v)"
    "\<And>v. v \<in> set new \<Longrightarrow> \<exists>p start. dev_aux v = Partition p start \<and> p < length (all_blocks d) \<and> within start (dev_size v) (dev_size (all_blocks d ! p))"
  shows "devices_ok (d\<lparr>dev_calls := c, all_blocks := all_blocks d @ new\<rparr>)"
  unfolding devices_ok_def
proof (intro allI impI)
  let ?d = "d\<lparr>dev_calls := c, all_blocks := all_blocks d @ new\<rparr>"
  fix k assume k: "k < length (all_blocks ?d)"
  show "device_ok ?d k"
  proof (cases "k < length (all_blocks d)")
    case True
    then show ?thesis using assms(1) device_ok_append by (simp add: devices_ok_def)
  next
    case False
    let ?v = "new ! (k - length (all_blocks d))"
    have v: "all_blocks ?d ! k = ?v" "?v \<in> set new" using False k by (auto simp: nth_append)
    obtain p start where "dev_aux ?v = Partition p start" "p < length (all_blocks d)" "within start (dev_size ?v) (dev_size (all_blocks d ! p))"
      using assms(3) [OF v(2)] by blast
    then show ?thesis using assms(2) [OF v(2)] v(1) False by (simp add: device_ok_def nth_append)
  qed
qed

lemma table_devices_read: "table_devices b (dev\<lparr>dev_reads := r\<rparr>) sector k es = table_devices b dev sector k es"
proof -
  have "partition_device b (dev\<lparr>dev_reads := r\<rparr>) nr sector e = partition_device b dev nr sector e" for nr e
    by (simp add: partition_device_def)
  then show ?thesis by (simp add: table_devices_def cong: if_cong)
qed

lemma table_devices_ok:
  assumes "v \<in> set (table_devices b dev sector k es)" "0 \<notin> set (dev_name dev)"
  shows "length (dev_name v) \<le> 15" "0 \<notin> set (dev_name v)"
    "\<exists>start. dev_aux v = Partition b start \<and> within start (dev_size v) (dev_size dev)"
  using assms number_text_nonzero
  by (auto simp: table_devices_def partition_device_def simp del: take_append split: if_splits dest!: in_set_takeD)

text \<open>A scan leaves the device it scans in place.\<close>

definition disk_at :: "nat \<Rightarrow> nat \<Rightarrow> u32 \<Rightarrow> u8 list \<Rightarrow> devices \<Rightarrow> bool" where
  "disk_at b i n pt d \<longleftrightarrow> b < length (all_blocks d) \<and> dev_aux (all_blocks d ! b) = Disk i \<and> dev_size (all_blocks d ! b) = n \<and> disks d i 0 = pt"

lemma found_partition_disk_at:
  "disk_at b i n pt d \<Longrightarrow> found_partition b t start len nr d = Inr d' \<Longrightarrow> disk_at b i n pt d'"
  by (auto simp: found_partition_def block_register_def dev_malloc_def disk_at_def Let_def res_simps nth_append split: if_splits)

definition extended_entry :: "partition_table_entry \<Rightarrow> bool" where
  "extended_entry e \<longleftrightarrow> used_entry e \<and> is_extended (e_type e)"

lemma scan_entries_stuck:
  assumes "disk_at b i n pt d" "filter extended_entry es = e # rest"
    "\<And>nr d r. disk_at b i n pt d \<Longrightarrow> (if sector = 0 then rec (e_offset e) (e_offset e) nr d else rec (e_offset e + primary) primary nr d) \<noteq> Inr r"
  shows "scan_entries rec b sector primary es nr d \<noteq> Inr r"
  using assms(1,2)
proof (induction es arbitrary: nr d)
  case (Cons x es)
  show ?case
  proof (cases "extended_entry x")
    case True
    then have "x = e" using Cons.prems(2) by simp
    then show ?thesis using True assms(3) [OF Cons.prems(1)] by (auto simp: extended_entry_def used_entry_def res_simps split: if_splits)
  next
    case False
    then have f: "filter extended_entry es = e # rest" using Cons.prems(2) by simp
    show ?thesis
    proof
      assume s: "scan_entries rec b sector primary (x # es) nr d = Inr r"
      consider "e_size x = 0 \<or> e_type x = 0" | "e_size x \<noteq> 0" "e_type x \<noteq> 0" "\<not> is_extended (e_type x)"
        using False by (auto simp: extended_entry_def used_entry_def)
      then show False
      proof cases
        case 1
        then show ?thesis using s Cons.IH [OF Cons.prems(1) f] by simp
      next
        case 2
        then obtain d' where "found_partition b (e_type x) (e_offset x + sector) (e_size x) (nr + 1) d = Inr d'"
          "scan_entries rec b sector primary es (nr + 1) d' = Inr r" using s by (auto simp: res_simps)
        then show ?thesis using Cons.IH [OF found_partition_disk_at [OF Cons.prems(1)] f] by blast
      qed
    qed
  qed
qed simp

lemma read_partition_table_stuck:
  assumes pt: "pt_signature pt = 0xaa55" "filter extended_entry (pt_partitions pt) = e # rest" "e_offset e < n" "e_offset e + e_offset e < n"
    and d: "disk_at b i n pt d" and s: "sector \<in> {0, e_offset e, e_offset e + e_offset e}" "sector = 0 \<or> primary = e_offset e"
  shows "read_partition_table fuel b sector primary nr d \<noteq> Inr r"
  using d s
proof (induction fuel arbitrary: sector primary nr d r)
  case (Suc fuel)
  have n: "sector < n" "0 < n" using Suc.prems(2) pt(3,4) by (auto simp: word_gt_0)
  let ?d1 = "d\<lparr>dev_calls := Suc (dev_calls d)\<rparr>"
  let ?d2 = "upd_device b (\<lambda>v. v\<lparr>dev_reads := dev_reads v + 1\<rparr>) ?d1"
  have rd: "device_read (Suc (length (all_blocks ?d1))) b 0 ?d1 = Inr (pt, ?d2)"
    using device_read_disk [of b ?d1 i 0] Suc.prems(1) n(2) by (simp add: disk_at_def)
  have d2: "disk_at b i n pt ?d2" using Suc.prems(1) by (simp add: disk_at_def upd_device_def)
  have "scan_entries (read_partition_table fuel b) b sector primary (pt_partitions pt) nr ?d2 \<noteq> Inr r"
    by (rule scan_entries_stuck [OF d2 pt(2)]) (use Suc.IH Suc.prems(2,3) in \<open>auto split: if_splits\<close>)
  then show ?case using rd pt(1) n(1) Suc.prems(1) by (auto simp: dev_malloc_def disk_at_def Let_def)
qed simp

section \<open>Properties\<close>

text \<open>A disk of ten sectors whose table has one entry, at sector 2 and four sectors long.\<close>

definition ex_mbr :: "u8 \<Rightarrow> u8 list" where
  "ex_mbr t = replicate 446 0 @ [0x80, 0, 0, 0, t, 0, 0, 0, 2, 0, 0, 0, 4, 0, 0, 0] @ replicate 48 0 @ [0x55, 0xaa]"

definition ex_devices :: "u8 \<Rightarrow> device list \<Rightarrow> devices" where
  "ex_devices t new =
     \<lparr>all_blocks = \<lparr>dev_name = lit ''hda'', dev_type = BLOCK_RAW, dev_size = 10, dev_aux = Disk 0, dev_reads = 0, dev_writes = 0\<rparr> # new,
      block_by_role = (\<lambda>_. None), disks = (\<lambda>_ _. ex_mbr t), dev_mallocs = (\<lambda>_. True), dev_calls = 0\<rparr>"

lemma ex_mbr_table:
  "pt_signature (ex_mbr t) = 0xaa55"
  "pt_partitions (ex_mbr t) = \<lparr>bootable = 0x80, e_type = t, e_offset = 2, e_size = 4\<rparr> #
     [\<lparr>bootable = 0, e_type = 0, e_offset = 0, e_size = 0\<rparr>, \<lparr>bootable = 0, e_type = 0, e_offset = 0, e_size = 0\<rparr>,
      \<lparr>bootable = 0, e_type = 0, e_offset = 0, e_size = 0\<rparr>]"
  by (simp_all add: ex_mbr_def pt_signature_def pt_partitions_def entry_of_def le_val_zeros nth_append)

lemma ex_devices_ok: "devices_ok (ex_devices t [])"
  by (simp add: devices_ok_def device_ok_def ex_devices_def lit_def)

text \<open>C33: \<^verbatim>\<open>partition_scan\<close> of a disk whose table has a valid signature and no extended partition ends, and
  registers exactly the partitions of the table that lie within the disk, in the order of the table: each under the
  name of the disk and its number among the used entries (cut to 15 characters), with the type, the start
  and the length of its entry. The registered devices stay well formed, so every partition lies within its disk.\<close>

theorem partition_scan_registers:
  assumes d: "devices_ok d" "b < length (all_blocks d)" "dev_aux (all_blocks d ! b) = Disk i" "0 < dev_size (all_blocks d ! b)"
    and mem: "\<And>n. dev_mallocs d n"
    and pt: "pt_signature (disks d i 0) = 0xaa55" "filter extended_entry (pt_partitions (disks d i 0)) = []"
  shows "\<exists>d'. partition_scan (Suc fuel) b d = Inr d' \<and> devices_ok d' \<and> disks d' = disks d \<and>
    all_blocks d' = (all_blocks d)[b := (all_blocks d ! b)\<lparr>dev_reads := dev_reads (all_blocks d ! b) + 1\<rparr>] @
      table_devices b (all_blocks d ! b) 0 1 (pt_partitions (disks d i 0))"
proof -
  let ?d1 = "d\<lparr>dev_calls := Suc (dev_calls d)\<rparr>" and ?es = "pt_partitions (disks d i 0)"
  let ?d2 = "upd_device b (\<lambda>v. v\<lparr>dev_reads := dev_reads v + 1\<rparr>) ?d1"
  have rd: "device_read (Suc (length (all_blocks ?d1))) b 0 ?d1 = Inr (disks d i 0, ?d2)"
    using device_read_disk [of b ?d1 i 0] d by simp
  have "device_ok d k \<Longrightarrow> device_ok ?d2 k" for k using device_ok_read [of b ?d1] d(2) by simp
  then have ok2: "devices_ok ?d2" "device_ok ?d2 b" using d(1,2) by (auto simp: devices_ok_def upd_device_def)
  have b2: "b < length (all_blocks ?d2)" "all_blocks ?d2 ! b = (all_blocks d ! b)\<lparr>dev_reads := dev_reads (all_blocks d ! b) + 1\<rparr>"
    using d(2) by (auto simp: upd_device_def)
  have ne: "\<forall>e \<in> set ?es. used_entry e \<longrightarrow> \<not> is_extended (e_type e)"
    using pt(2) by (auto simp: filter_empty_conv extended_entry_def)
  have m2: "\<And>n. dev_mallocs ?d2 n" and l: "0 + length ?es < 2 ^ 31"
    using mem by (simp_all add: upd_device_def pt_partitions_def)
  obtain c where c: "scan_entries (read_partition_table fuel b) b 0 0 ?es (int 0) ?d2 =
      Inr (int (0 + length (filter used_entry ?es)),
           ?d2\<lparr>dev_calls := c, all_blocks := all_blocks ?d2 @ table_devices b (all_blocks ?d2 ! b) 0 (Suc 0) ?es\<rparr>)"
    using scan_entries_primary [OF ok2(2) b2(1) m2 ne l, where rec = "read_partition_table fuel b" and sector = 0 and primary = 0] by (elim exE)
  let ?d = "?d2\<lparr>dev_calls := c, all_blocks := all_blocks ?d2 @ table_devices b (all_blocks ?d2 ! b) 0 (Suc 0) ?es\<rparr>"
  have same: "table_devices b (all_blocks ?d2 ! b) 0 (Suc 0) ?es = table_devices b (all_blocks d ! b) 0 1 ?es"
    unfolding b2(2) by (simp add: table_devices_read)
  have "partition_scan (Suc fuel) b d = Inr ?d"
    using c d rd pt(1) mem by (simp add: partition_scan_def dev_malloc_def Let_def not_le)
  moreover have nz: "0 \<notin> set (dev_name (all_blocks ?d2 ! b))" using ok2(2) by (simp add: device_ok_def)
  have "devices_ok ?d"
  proof (rule devices_ok_new [OF ok2(1)])
    fix v assume v: "v \<in> set (table_devices b (all_blocks ?d2 ! b) 0 (Suc 0) ?es)"
    show "length (dev_name v) \<le> 15 \<and> 0 \<notin> set (dev_name v)" using table_devices_ok(1,2) [OF v nz] by simp
    show "\<exists>p start. dev_aux v = Partition p start \<and> p < length (all_blocks ?d2) \<and> within start (dev_size v) (dev_size (all_blocks ?d2 ! p))"
      using table_devices_ok(3) [OF v nz] b2(1) by blast
  qed
  ultimately show ?thesis using same d(2) by (intro exI [of _ ?d]) (auto simp: upd_device_def)
qed

theorem partition_scan_registers_witness:
  "\<exists>d'. partition_scan 1 0 (ex_devices 0x21 []) = Inr d' \<and> length (all_blocks d') = 2 \<and>
     dev_name (all_blocks d' ! 1) = lit ''hda1'' \<and> dev_type (all_blocks d' ! 1) = BLOCK_FILESYS \<and> dev_aux (all_blocks d' ! 1) = Partition 0 2"
proof -
  let ?d = "ex_devices 0x21 []"
  have t: "number_text 1 = [49]" by (simp add: number_text_def rev_digits_base_d)
  have "table_devices 0 (all_blocks ?d ! 0) 0 1 (pt_partitions (ex_mbr 0x21))
      = [\<lparr>dev_name = lit ''hda1'', dev_type = BLOCK_FILESYS, dev_size = 4, dev_aux = Partition 0 2, dev_reads = 0, dev_writes = 0\<rparr>]"
    by (simp add: ex_mbr_table table_devices_def used_entry_def within_def ex_devices_def partition_device_def partition_block_type_def t lit_def)
  moreover have "\<exists>d'. partition_scan (Suc 0) 0 ?d = Inr d' \<and> devices_ok d' \<and> disks d' = disks ?d \<and>
    all_blocks d' = (all_blocks ?d)[0 := (all_blocks ?d ! 0)\<lparr>dev_reads := dev_reads (all_blocks ?d ! 0) + 1\<rparr>] @
      table_devices 0 (all_blocks ?d ! 0) 0 1 (pt_partitions (disks ?d 0 0))"
    by (rule partition_scan_registers) (simp_all add: ex_devices_ok, simp_all add: ex_devices_def ex_mbr_table extended_entry_def is_extended_def used_entry_def)
  moreover have "disks ?d 0 0 = ex_mbr 0x21" "length (all_blocks ?d) = 1" by (simp_all add: ex_devices_def)
  ultimately show ?thesis by (auto simp: nth_append)
qed

text \<open>Reading or writing a sector of a partition reads or writes the sector of its disk that lies
  that far after the start of the partition: it lies within the disk, the sum does not wrap around, no access
  past the end of the disk is attempted, and a write changes no other sector.\<close>

theorem partition_access_translated:
  assumes d: "devices_ok d" "b < length (all_blocks d)" "dev_aux (all_blocks d ! b) = Partition p start"
      "dev_aux (all_blocks d ! p) = Disk i" "sector < dev_size (all_blocks d ! b)"
  shows "unat (start + sector) = unat start + unat sector \<and> start + sector < dev_size (all_blocks d ! p) \<and>
    (\<exists>d'. device_read (Suc (Suc fuel)) b sector d = Inr (disks d i (start + sector), d') \<and> disks d' = disks d) \<and>
    (BLOCK_FOREIGN \<notin> {dev_type (all_blocks d ! b), dev_type (all_blocks d ! p)} \<longrightarrow>
      (\<exists>d'. device_write (Suc (Suc fuel)) b sector buf d = Inr d' \<and> disks d' = (disks d)(i := (disks d i)(start + sector := buf))))"
proof -
  have p: "p < b" "unat start + unat (dev_size (all_blocks d ! b)) \<le> unat (dev_size (all_blocks d ! p))"
    using d(1-3) by (auto simp: devices_ok_def device_ok_def within_def)
  have s: "unat start + unat sector < unat (dev_size (all_blocks d ! p))" using p(2) d(5) by (simp add: word_less_nat_alt)
  then have u: "unat (start + sector) = unat start + unat sector"
    using unat_u32_less [of "dev_size (all_blocks d ! p)"] by (simp add: unat_word_ariths(1))
  then have l: "start + sector < dev_size (all_blocks d ! p)" using s by (simp add: word_less_nat_alt)
  show ?thesis
    using d(2-5) p(1) u l
    by (auto simp: check_device_sector_def partition_read_def partition_write_def upd_device_def nth_list_update not_le)
qed

definition ex_partition :: device where
  "ex_partition = \<lparr>dev_name = lit ''hda1'', dev_type = BLOCK_FILESYS, dev_size = 4, dev_aux = Partition 0 2, dev_reads = 0, dev_writes = 0\<rparr>"

theorem partition_access_translated_witness:
  "\<exists>d'. device_write 2 1 3 [7] (ex_devices 0x21 [ex_partition]) = Inr d' \<and> disks d' 0 5 = [7]"
proof -
  let ?d = "ex_devices 0x21 [ex_partition]"
  have "devices_ok ?d"
    by (auto simp: devices_ok_def device_ok_def ex_devices_def ex_partition_def lit_def within_def less_Suc_eq)
  moreover have "1 < length (all_blocks ?d)" "dev_aux (all_blocks ?d ! 1) = Partition 0 2" "dev_aux (all_blocks ?d ! 0) = Disk 0"
      "3 < dev_size (all_blocks ?d ! 1)" "BLOCK_FOREIGN \<notin> {dev_type (all_blocks ?d ! 1), dev_type (all_blocks ?d ! 0)}"
    by (simp_all add: ex_devices_def ex_partition_def)
  ultimately obtain d' where "device_write (Suc (Suc 0)) 1 3 [7] ?d = Inr d'" "disks d' = (disks ?d)(0 := (disks ?d 0)(2 + 3 := [7]))"
    using partition_access_translated [of ?d 1 0 2 0 3 0 "[7]"] by blast
  then show ?thesis unfolding numeral_2_eq_2 by (intro exI [of _ d']) simp
qed

text \<open>C34: \<^verbatim>\<open>read_partition_table\<close> reads sector 0 whatever sector it is asked for, so a table with an extended
  partition is found again in place of the nested table: if the first extended entry has an offset whose double is still on the
  disk, \<^verbatim>\<open>partition_scan\<close> never returns, however many nested calls and whatever memory it is given.\<close>

theorem extended_partition_never_returns:
  assumes d: "b < length (all_blocks d)" "dev_aux (all_blocks d ! b) = Disk i" "pt_signature (disks d i 0) = 0xaa55"
      "filter extended_entry (pt_partitions (disks d i 0)) = e # rest"
    and o: "e_offset e < dev_size (all_blocks d ! b)" "e_offset e + e_offset e < dev_size (all_blocks d ! b)"
  shows "\<forall>fuel. \<exists>err. partition_scan fuel b d = Inl err"
proof
  fix fuel
  have "disk_at b i (dev_size (all_blocks d ! b)) (disks d i 0) d" using d(1,2) by (simp add: disk_at_def)
  then have "read_partition_table fuel b 0 0 0 d \<noteq> Inr r" for r
    using read_partition_table_stuck [OF d(3,4) o, of b i d 0 0 fuel 0 r] by simp
  then show "\<exists>err. partition_scan fuel b d = Inl err"
    by (cases "read_partition_table fuel b 0 0 0 d") (auto simp: partition_scan_def)
qed

theorem extended_partition_never_returns_witness:
  "\<forall>fuel. \<exists>err. partition_scan fuel 0 (ex_devices 0x05 []) = Inl err"
proof (rule extended_partition_never_returns)
  show "filter extended_entry (pt_partitions (disks (ex_devices 0x05 []) 0 0)) = [\<lparr>bootable = 0x80, e_type = 0x05, e_offset = 2, e_size = 4\<rparr>]"
    by (simp add: ex_devices_def ex_mbr_table extended_entry_def is_extended_def used_entry_def)
qed (simp_all add: ex_devices_def ex_mbr_table)

end
