(* ===== verification/Malloc.thy ===== *)
theory Malloc
  imports Vaddr
begin

text \<open>
  The block allocator (src/pintos2/src/threads/malloc.c).

  \<^item> An address is a natural number, 0 the null pointer. \<open>arenas\<close> has the header of every page group that the
    allocator holds: a page with a header is one whose magic number is right. A free list is the sequence of
    its blocks; that the linked lists behave as sequences is shown in \<open>Klist\<close>.
  \<^item> What \<^verbatim>\<open>palloc_get_page\<close> or \<^verbatim>\<open>palloc_get_multiple\<close> returns is an argument of \<open>malloc\<close>, \<open>None\<close> if there is no
    memory. \<open>Palloc\<close> shows that the pages handed out are disjoint; here this is the hypothesis \<open>fresh_pages\<close>.
  \<^item> \<open>hmem\<close> is the contents of memory as the clients see it: the links and headers that the allocator keeps in
    free blocks and at the start of a page are not in it. The locks of the descriptors are left out: each
    operation is one step.
\<close>

record desc =
  d_block_size :: nat
  blocks_per_arena :: nat
  free_list :: "nat list"

record arena =
  a_desc :: "nat option"
  free_cnt :: nat

record heap =
  descs :: "desc list"
  arenas :: "nat \<Rightarrow> arena option"
  hmem :: "nat \<Rightarrow> u8"

definition sizeof_arena :: nat where "sizeof_arena = 12"

definition upd_desc :: "nat \<Rightarrow> (desc \<Rightarrow> desc) \<Rightarrow> heap \<Rightarrow> heap" where
  "upd_desc i f h = h\<lparr>descs := (descs h)[i := f (descs h ! i)]\<rparr>"

definition the_arena :: "heap \<Rightarrow> nat \<Rightarrow> arena" where
  "the_arena h a = the (arenas h a)"

definition page_of :: "nat \<Rightarrow> nat" where
  "page_of p = p div PGSIZE * PGSIZE"

subsection \<open>Start\<close>

function malloc_init_loop :: "nat \<Rightarrow> heap \<Rightarrow> heap res" where
  "malloc_init_loop bs h =
     (if 0 < bs \<and> bs < PGSIZE div 2
      then kassert (length (descs h) < 10)
        (malloc_init_loop (bs * 2)
          (h\<lparr>descs := descs h @ [\<lparr>d_block_size = bs, blocks_per_arena = (PGSIZE - sizeof_arena) div bs, free_list = []\<rparr>]\<rparr>))
      else Inr h)"
  by auto
termination by (relation "measure (\<lambda>(bs, h). PGSIZE - bs)") (auto simp: PGSIZE_def)

declare malloc_init_loop.simps [simp del]

definition malloc_init :: "heap \<Rightarrow> heap res" where
  "malloc_init h = malloc_init_loop 16 h"

subsection \<open>Blocks and arenas\<close>

definition block_to_arena :: "nat \<Rightarrow> heap \<Rightarrow> nat res" where
  "block_to_arena b h =
     (let a = page_of b
      in kassert (a \<noteq> 0) (kassert (arenas h a \<noteq> None)
           (kassert (case a_desc (the_arena h a) of
                       None \<Rightarrow> True
                     | Some i \<Rightarrow> sz (b mod PGSIZE + 2 ^ 32 - sizeof_arena) mod d_block_size (descs h ! i) = 0)
             (kassert (a_desc (the_arena h a) \<noteq> None \<or> b mod PGSIZE = sizeof_arena) (Inr a)))))"

definition arena_to_block :: "nat \<Rightarrow> nat \<Rightarrow> heap \<Rightarrow> nat res" where
  "arena_to_block a idx h =
     kassert (a \<noteq> 0) (kassert (arenas h a \<noteq> None)
      (case a_desc (the_arena h a) of
         None \<Rightarrow> Inl Undefined
       | Some i \<Rightarrow> kassert (idx < blocks_per_arena (descs h ! i)) (Inr (a + sizeof_arena + idx * d_block_size (descs h ! i)))))"

subsection \<open>Allocation\<close>

fun find_desc :: "nat \<Rightarrow> nat \<Rightarrow> desc list \<Rightarrow> nat option" where
  "find_desc i n [] = None"
| "find_desc i n (d # ds) = (if d_block_size d \<ge> n then Some i else find_desc (Suc i) n ds)"

fun fill_loop :: "nat \<Rightarrow> nat \<Rightarrow> nat \<Rightarrow> nat \<Rightarrow> heap \<Rightarrow> heap res" where
  "fill_loop 0 idx i a h = Inr h"
| "fill_loop (Suc n) idx i a h =
     rbind (arena_to_block a idx h) (\<lambda>b. fill_loop n (idx + 1) i a (upd_desc i (\<lambda>d. d\<lparr>free_list := free_list d @ [b]\<rparr>) h))"

definition new_arena :: "nat \<Rightarrow> nat \<Rightarrow> heap \<Rightarrow> heap res" where
  "new_arena i a h =
     (let cnt = blocks_per_arena (descs h ! i)
      in fill_loop cnt 0 i a (h\<lparr>arenas := (arenas h)(a \<mapsto> \<lparr>a_desc = Some i, free_cnt = cnt\<rparr>)\<rparr>))"

definition take_block :: "nat \<Rightarrow> heap \<Rightarrow> (nat \<times> heap) res" where
  "take_block i h =
     (case free_list (descs h ! i) of
        [] \<Rightarrow> Inl Assertion
      | b # bs \<Rightarrow>
         let h1 = upd_desc i (\<lambda>d. d\<lparr>free_list := bs\<rparr>) h
         in rbind (block_to_arena b h1) (\<lambda>a.
              Inr (b, h1\<lparr>arenas := (arenas h1)(a \<mapsto> (the_arena h1 a)\<lparr>free_cnt := sz (free_cnt (the_arena h1 a) + 2 ^ 32 - 1)\<rparr>)\<rparr>)))"

definition big_pages :: "nat \<Rightarrow> nat" where
  "big_pages n = DIV_ROUND_UP (sz (n + sizeof_arena)) PGSIZE"

definition malloc :: "nat \<Rightarrow> nat option \<Rightarrow> heap \<Rightarrow> (nat \<times> heap) res" where
  "malloc n page h =
     (if n = 0 then Inr (0, h)
      else case find_desc 0 n (descs h) of
        None \<Rightarrow>
          (case page of
             None \<Rightarrow> Inr (0, h)
           | Some a \<Rightarrow> Inr (a + sizeof_arena, h\<lparr>arenas := (arenas h)(a \<mapsto> \<lparr>a_desc = None, free_cnt = big_pages n\<rparr>)\<rparr>))
      | Some i \<Rightarrow>
          if free_list (descs h ! i) = []
          then (case page of
                  None \<Rightarrow> Inr (0, h)
                | Some a \<Rightarrow> rbind (new_arena i a h) (take_block i))
          else take_block i h)"

definition heap_fill :: "nat \<Rightarrow> u8 \<Rightarrow> nat \<Rightarrow> heap \<Rightarrow> heap" where
  "heap_fill p v n h = h\<lparr>hmem := (\<lambda>x. if p \<le> x \<and> x < p + n then v else hmem h x)\<rparr>"

definition calloc :: "nat \<Rightarrow> nat \<Rightarrow> nat option \<Rightarrow> heap \<Rightarrow> (nat \<times> heap) res" where
  "calloc a b page h =
     (let n = sz (a * b)
      in if n < a \<or> n < b then Inr (0, h)
         else rbind (malloc n page h) (\<lambda>(p, h1). Inr (p, if p \<noteq> 0 then heap_fill p 0 n h1 else h1)))"

definition block_size_of :: "nat \<Rightarrow> heap \<Rightarrow> nat res" where
  "block_size_of p h =
     rbind (block_to_arena p h) (\<lambda>a.
       Inr (case a_desc (the_arena h a) of
              Some i \<Rightarrow> d_block_size (descs h ! i)
            | None \<Rightarrow> sz (PGSIZE * free_cnt (the_arena h a) + 2 ^ 32 - p mod PGSIZE)))"

subsection \<open>Release\<close>

fun unlink_loop :: "nat \<Rightarrow> nat \<Rightarrow> nat \<Rightarrow> nat \<Rightarrow> heap \<Rightarrow> heap res" where
  "unlink_loop 0 idx i a h = Inr h"
| "unlink_loop (Suc n) idx i a h =
     rbind (arena_to_block a idx h) (\<lambda>b.
       kdefined (b \<in> set (free_list (descs h ! i)))
        (unlink_loop n (idx + 1) i a (upd_desc i (\<lambda>d. d\<lparr>free_list := remove1 b (free_list d)\<rparr>) h)))"

definition free :: "nat \<Rightarrow> heap \<Rightarrow> heap res" where
  "free p h =
     (if p = 0 then Inr h
      else rbind (block_to_arena p h) (\<lambda>a.
        case a_desc (the_arena h a) of
          None \<Rightarrow> Inr (h\<lparr>arenas := (arenas h)(a := None)\<rparr>)
        | Some i \<Rightarrow>
            let h1 = heap_fill p 0xcc (d_block_size (descs h ! i)) h;
                h2 = upd_desc i (\<lambda>d. d\<lparr>free_list := p # free_list d\<rparr>) h1;
                cnt = sz (free_cnt (the_arena h2 a) + 1);
                h3 = h2\<lparr>arenas := (arenas h2)(a \<mapsto> (the_arena h2 a)\<lparr>free_cnt := cnt\<rparr>)\<rparr>;
                per = blocks_per_arena (descs h ! i)
            in if cnt \<ge> per
               then kassert (cnt = per) (rbind (unlink_loop per 0 i a h3) (\<lambda>h4. Inr (h4\<lparr>arenas := (arenas h4)(a := None)\<rparr>)))
               else Inr h3))"

definition heap_copy :: "nat \<Rightarrow> nat \<Rightarrow> nat \<Rightarrow> heap \<Rightarrow> heap" where
  "heap_copy dst src n h = h\<lparr>hmem := (\<lambda>x. if dst \<le> x \<and> x < dst + n then hmem h (src + (x - dst)) else hmem h x)\<rparr>"

definition realloc :: "nat \<Rightarrow> nat \<Rightarrow> nat option \<Rightarrow> heap \<Rightarrow> (nat \<times> heap) res" where
  "realloc old new_size page h =
     (if new_size = 0 then rbind (free old h) (\<lambda>h1. Inr (0, h1))
      else rbind (malloc new_size page h) (\<lambda>(new, h1).
        if old \<noteq> 0 \<and> new \<noteq> 0
        then rbind (block_size_of old h1) (\<lambda>old_size.
             rbind (free old (heap_copy new old (if new_size < old_size then new_size else old_size) h1)) (\<lambda>h2. Inr (new, h2)))
        else Inr (new, h1)))"

subsection \<open>Well-formed heaps\<close>

definition fl :: "heap \<Rightarrow> nat \<Rightarrow> nat list" where "fl h i = free_list (descs h ! i)"
definition bs :: "heap \<Rightarrow> nat \<Rightarrow> nat" where "bs h i = d_block_size (descs h ! i)"
definition per :: "heap \<Rightarrow> nat \<Rightarrow> nat" where "per h i = blocks_per_arena (descs h ! i)"

definition desc_ok :: "desc \<Rightarrow> bool" where
  "desc_ok d \<longleftrightarrow> 0 < d_block_size d \<and> blocks_per_arena d = (PGSIZE - sizeof_arena) div d_block_size d \<and> 0 < blocks_per_arena d"

definition arena_blocks :: "heap \<Rightarrow> nat \<Rightarrow> nat \<Rightarrow> nat list" where
  "arena_blocks h i a = map (\<lambda>k. a + sizeof_arena + k * bs h i) [0..<per h i]"

definition arena_pages :: "arena \<Rightarrow> nat" where
  "arena_pages A = (case a_desc A of None \<Rightarrow> free_cnt A | Some i \<Rightarrow> 1)"

definition arena_range :: "nat \<Rightarrow> arena \<Rightarrow> nat set" where
  "arena_range a A = {a..<a + PGSIZE * arena_pages A}"

text \<open>Every free block of a descriptor is a block of one of its arenas, and the counter of an arena is the number
  of its blocks on the list. Between operations no arena has only free blocks (\<open>heap_inv\<close>); inside them one may (\<open>heap_core\<close>).\<close>

definition arena_ok :: "heap \<Rightarrow> nat \<Rightarrow> arena \<Rightarrow> bool" where
  "arena_ok h a A \<longleftrightarrow> a \<noteq> 0 \<and> a mod PGSIZE = 0 \<and> a + PGSIZE * arena_pages A \<le> 2 ^ 32 \<and> 0 < arena_pages A \<and>
     (\<forall>i. a_desc A = Some i \<longrightarrow> i < length (descs h) \<and> free_cnt A = length (filter (\<lambda>b. page_of b = a) (fl h i)))"

definition block_ok :: "heap \<Rightarrow> nat \<Rightarrow> nat \<Rightarrow> bool" where
  "block_ok h i b \<longleftrightarrow> (\<exists>A. arenas h (page_of b) = Some A \<and> a_desc A = Some i) \<and> b \<in> set (arena_blocks h i (page_of b))"

definition heap_core :: "heap \<Rightarrow> bool" where
  "heap_core h \<longleftrightarrow> (\<forall>d \<in> set (descs h). desc_ok d) \<and>
     (\<forall>a A. arenas h a = Some A \<longrightarrow> arena_ok h a A) \<and>
     (\<forall>a A b B. arenas h a = Some A \<longrightarrow> arenas h b = Some B \<longrightarrow> a \<noteq> b \<longrightarrow> arena_range a A \<inter> arena_range b B = {}) \<and>
     (\<forall>i < length (descs h). distinct (fl h i) \<and> (\<forall>b \<in> set (fl h i). block_ok h i b))"

definition heap_inv :: "heap \<Rightarrow> bool" where
  "heap_inv h \<longleftrightarrow> heap_core h \<and> (\<forall>a A i. arenas h a = Some A \<longrightarrow> a_desc A = Some i \<longrightarrow> free_cnt A < per h i)"

lemmas heap_coreD = heap_core_def [THEN iffD1, THEN conjunct1, rule_format]
  heap_core_def [THEN iffD1, THEN conjunct2, THEN conjunct1, rule_format]
  heap_core_def [THEN iffD1, THEN conjunct2, THEN conjunct2, THEN conjunct1, rule_format]
  heap_core_def [THEN iffD1, THEN conjunct2, THEN conjunct2, THEN conjunct2, rule_format]

definition live_in :: "heap \<Rightarrow> nat \<Rightarrow> (nat \<times> nat) set" where
  "live_in h a =
     (case arenas h a of
        None \<Rightarrow> {}
      | Some A \<Rightarrow>
         (case a_desc A of
            None \<Rightarrow> {(a + sizeof_arena, PGSIZE * free_cnt A - sizeof_arena)}
          | Some i \<Rightarrow> (\<lambda>p. (p, bs h i)) ` (set (arena_blocks h i a) - set (fl h i))))"

text \<open>The blocks that are allocated: address and length.\<close>

definition live :: "heap \<Rightarrow> (nat \<times> nat) set" where
  "live h = (\<Union>a. live_in h a)"

definition fresh_pages :: "heap \<Rightarrow> nat \<Rightarrow> nat \<Rightarrow> bool" where
  "fresh_pages h a n \<longleftrightarrow> a \<noteq> 0 \<and> a mod PGSIZE = 0 \<and> a + PGSIZE * n \<le> 2 ^ 32 \<and> 0 < n \<and>
     (\<forall>b B. arenas h b = Some B \<longrightarrow> {a..<a + PGSIZE * n} \<inter> arena_range b B = {})"

lemma desc_ok_nth: "heap_core h \<Longrightarrow> i < length (descs h) \<Longrightarrow> 0 < bs h i \<and> per h i = 4084 div bs h i \<and> 0 < per h i"
  using heap_coreD(1) [of h "descs h ! i"] by (simp add: desc_ok_def bs_def per_def PGSIZE_def sizeof_arena_def)

lemma per_bs: "heap_core h \<Longrightarrow> i < length (descs h) \<Longrightarrow> per h i * bs h i \<le> 4084"
  using desc_ok_nth [of h i] by simp

lemma block_fits: "heap_core h \<Longrightarrow> i < length (descs h) \<Longrightarrow> k < per h i \<Longrightarrow> k * bs h i + bs h i \<le> 4084"
proof -
  assume h: "heap_core h" "i < length (descs h)" "k < per h i"
  have "(k + 1) * bs h i \<le> per h i * bs h i" using h(3) by (intro mult_le_mono1) simp
  then show ?thesis using per_bs [OF h(1,2)] by simp
qed

lemma arena_block_page:
  assumes "heap_core h" "i < length (descs h)" "a mod PGSIZE = 0" "b \<in> set (arena_blocks h i a)"
  shows "page_of b = a" "b + bs h i \<le> a + PGSIZE" "a + sizeof_arena \<le> b" "(b mod PGSIZE - sizeof_arena) mod bs h i = 0" "sizeof_arena \<le> b mod PGSIZE"
proof -
  obtain k where k: "k < per h i" "b = a + (12 + k * bs h i)" using assms(4) by (auto simp: arena_blocks_def sizeof_arena_def)
  have f: "k * bs h i + bs h i \<le> 4084" "0 < bs h i" using block_fits [OF assms(1,2) k(1)] desc_ok_nth [OF assms(1,2)] by auto
  obtain c where c: "a = 4096 * c" using assms(3) unfolding PGSIZE_def by auto
  have m: "b mod 4096 = 12 + k * bs h i" "b div 4096 = c" using f unfolding k(2) c by auto
  show "page_of b = a" using m(2) c by (simp add: page_of_def PGSIZE_def)
  show "b + bs h i \<le> a + PGSIZE" "a + sizeof_arena \<le> b" using f k(2) by (auto simp: PGSIZE_def sizeof_arena_def)
  show "(b mod PGSIZE - sizeof_arena) mod bs h i = 0" "sizeof_arena \<le> b mod PGSIZE" using m(1) by (auto simp: PGSIZE_def sizeof_arena_def)
qed

lemma distinct_arena_blocks: "heap_core h \<Longrightarrow> i < length (descs h) \<Longrightarrow> distinct (arena_blocks h i a)"
  using desc_ok_nth [of h i] by (auto simp: arena_blocks_def distinct_map inj_on_def)

subsection \<open>Changing the free blocks of one arena\<close>

definition set_free :: "nat \<Rightarrow> nat list \<Rightarrow> nat \<Rightarrow> arena option \<Rightarrow> heap \<Rightarrow> heap" where
  "set_free i xs a A h = (upd_desc i (\<lambda>d. d\<lparr>free_list := xs\<rparr>) h)\<lparr>arenas := (arenas h)(a := A)\<rparr>"

lemma nth_update: "xs[i := x] ! j = (if i = j \<and> i < length xs then x else xs ! j)"
  by (cases "i < length xs") (auto simp: list_update_beyond)

lemma set_free_simps [simp]:
  "length (descs (set_free i xs a A h)) = length (descs h)" "arenas (set_free i xs a A h) = (arenas h)(a := A)"
  "hmem (set_free i xs a A h) = hmem h" "bs (set_free i xs a A h) j = bs h j" "per (set_free i xs a A h) j = per h j"
  "arena_blocks (set_free i xs a A h) j b = arena_blocks h j b"
  by (auto simp: set_free_def upd_desc_def bs_def per_def arena_blocks_def nth_update)

lemma fl_set_free [simp]: "i < length (descs h) \<Longrightarrow> fl (set_free i xs a A h) j = (if j = i then xs else fl h j)"
  by (simp add: set_free_def upd_desc_def fl_def nth_list_update)

lemma descs_ok_set_free: "\<forall>d \<in> set (descs h). desc_ok d \<Longrightarrow> i < length (descs h) \<Longrightarrow> \<forall>d \<in> set (descs (set_free i xs a A h)). desc_ok d"
  by (auto simp: set_free_def upd_desc_def desc_ok_def dest!: set_update_subset_insert [THEN subsetD])

text \<open>\<open>xs\<close> differs from the free list of descriptor \<open>i\<close> in blocks of the arena \<open>a\<close> only.\<close>

definition same_but :: "heap \<Rightarrow> nat \<Rightarrow> nat \<Rightarrow> nat list \<Rightarrow> bool" where
  "same_but h i a xs \<longleftrightarrow> filter (\<lambda>b. page_of b \<noteq> a) xs = filter (\<lambda>b. page_of b \<noteq> a) (fl h i)"

lemma same_butD:
  assumes "same_but h i a xs" "a' \<noteq> a"
  shows "filter (\<lambda>b. page_of b = a') xs = filter (\<lambda>b. page_of b = a') (fl h i)"
    "page_of b = a' \<Longrightarrow> b \<in> set xs \<longleftrightarrow> b \<in> set (fl h i)"
proof -
  have f: "filter (\<lambda>b. page_of b = a') ys = filter (\<lambda>b. page_of b = a') (filter (\<lambda>b. page_of b \<noteq> a) ys)" for ys
    using assms(2) by (auto simp: filter_filter intro: filter_cong)
  show e: "filter (\<lambda>b. page_of b = a') xs = filter (\<lambda>b. page_of b = a') (fl h i)"
    by (subst (1 2) f) (use assms(1) in \<open>simp add: same_but_def\<close>)
  show "page_of b = a' \<Longrightarrow> b \<in> set xs \<longleftrightarrow> b \<in> set (fl h i)" using arg_cong [OF e, of set] by auto
qed

text \<open>The arena at \<open>a\<close> is a new one, one of descriptor \<open>i\<close> already, or is given up.\<close>

definition arena_step :: "heap \<Rightarrow> nat \<Rightarrow> nat \<Rightarrow> arena option \<Rightarrow> bool" where
  "arena_step h i a A \<longleftrightarrow> (case arenas h a of None \<Rightarrow> fresh_pages h a 1 | Some B \<Rightarrow> a_desc B = Some i) \<and> (\<forall>B. A = Some B \<longrightarrow> a_desc B = Some i)"

lemma core_set_free:
  assumes h: "heap_core h" "i < length (descs h)" and st: "arena_step h i a A" and xs: "same_but h i a xs" "distinct xs"
    and blk: "\<And>b. b \<in> set xs \<Longrightarrow> page_of b = a \<Longrightarrow> A \<noteq> None \<and> b \<in> set (arena_blocks h i a)"
    and cnt: "\<And>B. A = Some B \<Longrightarrow> free_cnt B = length (filter (\<lambda>b. page_of b = a) xs)"
  shows "heap_core (set_free i xs a A h)"
  unfolding heap_core_def
proof (intro conjI allI impI)
  let ?h = "set_free i xs a A h"
  have av: "a \<noteq> 0 \<and> a mod PGSIZE = 0 \<and> a + PGSIZE \<le> 2 ^ 32"
  proof (cases "arenas h a")
    case None
    then show ?thesis using st by (simp add: arena_step_def fresh_pages_def)
  next
    case (Some B)
    then show ?thesis using st heap_coreD(2) [OF h(1) Some] by (simp add: arena_step_def arena_ok_def arena_pages_def)
  qed
  show "\<forall>d \<in> set (descs ?h). desc_ok d" using descs_ok_set_free h heap_coreD(1) [OF h(1)] by blast
  show "arena_ok ?h c C" if "arenas ?h c = Some C" for c C
  proof (cases "c = a")
    case True
    then have A: "A = Some C" using that by simp
    then have d: "a_desc C = Some i" using st by (simp add: arena_step_def)
    then show ?thesis using av cnt [OF A] True h(2) by (simp add: arena_ok_def arena_pages_def)
  next
    case False
    then have c: "arena_ok h c C" using that heap_coreD(2) [OF h(1)] by simp
    then show ?thesis using same_butD(1) [OF xs(1) False] h(2) by (auto simp: arena_ok_def)
  qed
  have other: "arena_range a B \<inter> arena_range c C = {}" if "A = Some B" "c \<noteq> a" "arenas h c = Some C" for B c C
  proof -
    have B: "arena_range a B = {a..<a + PGSIZE}" using st that(1) by (simp add: arena_step_def arena_range_def arena_pages_def)
    show ?thesis
    proof (cases "arenas h a")
      case None
      then show ?thesis using st that(3) B by (simp add: arena_step_def fresh_pages_def)
    next
      case (Some B')
      then show ?thesis using heap_coreD(3) [OF h(1) Some that(3)] that(2) st B
        by (simp add: arena_step_def arena_range_def arena_pages_def)
    qed
  qed
  show "arena_range c C \<inter> arena_range e E = {}" if "arenas ?h c = Some C" "arenas ?h e = Some E" "c \<noteq> e" for c C e E
    using that other heap_coreD(3) [OF h(1)] by (auto split: if_splits)
  show "distinct (fl ?h j)" if "j < length (descs ?h)" for j
    using that xs(2) h heap_coreD(4) [OF h(1), of j] by simp
  show "\<forall>b \<in> set (fl ?h j). block_ok ?h j b" if "j < length (descs ?h)" for j
  proof
    fix b assume b: "b \<in> set (fl ?h j)"
    show "block_ok ?h j b"
    proof (cases "page_of b = a")
      case False
      then have "b \<in> set (fl h j)" using b same_butD(2) [OF xs(1) False] h(2) by (auto split: if_splits)
      then show ?thesis using that heap_coreD(4) [OF h(1), of j] False by (auto simp: block_ok_def)
    next
      case True
      show ?thesis
      proof (cases "j = i")
        case eq: True
        then show ?thesis using b True h(2) blk [of b] st by (auto simp: block_ok_def arena_step_def)
      next
        case False
        then have "block_ok h j b" using b that heap_coreD(4) [OF h(1), of j] h(2) by auto
        then show ?thesis using True False st by (auto simp: block_ok_def arena_step_def)
      qed
    qed
  qed
qed

lemma arena_aligned: "heap_core h \<Longrightarrow> arenas h a = Some A \<Longrightarrow> a mod PGSIZE = 0 \<and> a \<noteq> 0"
  using heap_coreD(2) by (auto simp: arena_ok_def)

lemma arena_desc: "heap_core h \<Longrightarrow> arenas h a = Some A \<Longrightarrow> a_desc A = Some i \<Longrightarrow> i < length (descs h)"
  using heap_coreD(2) by (auto simp: arena_ok_def)

lemma live_in_other:
  assumes h: "heap_core h" "i < length (descs h)" and xs: "same_but h i a xs" and c: "c \<noteq> a"
  shows "live_in (set_free i xs a A h) c = live_in h c"
proof (cases "arenas h c")
  case None
  then show ?thesis using c by (simp add: live_in_def)
next
  case (Some C)
  show ?thesis
  proof (cases "a_desc C")
    case None
    then show ?thesis using Some c by (simp add: live_in_def)
  next
    case (Some j)
    have "set (arena_blocks h j c) - set (fl (set_free i xs a A h) j) = set (arena_blocks h j c) - set (fl h j)"
    proof (cases "j = i")
      case True
      have "page_of p = c" if "p \<in> set (arena_blocks h i c)" for p
        using arena_block_page(1) [OF h _ that] arena_aligned [OF h(1) \<open>arenas h c = Some C\<close>] by simp
      then show ?thesis using same_butD(2) [OF xs c] True h(2) by auto
    qed (use h(2) in simp)
    then show ?thesis using Some \<open>arenas h c = Some C\<close> c by (simp add: live_in_def)
  qed
qed

lemma live_set_free:
  assumes h: "heap_core h" "i < length (descs h)" and xs: "same_but h i a xs"
  shows "live (set_free i xs a A h) = (\<Union>c \<in> - {a}. live_in h c) \<union> live_in (set_free i xs a A h) a"
proof -
  have "live (set_free i xs a A h) = (\<Union>c \<in> - {a}. live_in (set_free i xs a A h) c) \<union> live_in (set_free i xs a A h) a"
    by (auto simp: live_def)
  also have "(\<Union>c \<in> - {a}. live_in (set_free i xs a A h) c) = (\<Union>c \<in> - {a}. live_in h c)"
    using live_in_other [OF h xs] by (intro SUP_cong) auto
  finally show ?thesis .
qed

lemma live_in_set_free:
  "i < length (descs h) \<Longrightarrow> live_in (set_free i xs a (Some \<lparr>a_desc = Some i, free_cnt = c\<rparr>) h) a = (\<lambda>p. (p, bs h i)) ` (set (arena_blocks h i a) - set xs)"
  by (simp add: live_in_def)

lemma live_in_page: "heap_core h \<Longrightarrow> (p, n) \<in> live_in h c \<Longrightarrow> page_of p = c"
proof -
  assume h: "heap_core h" and p: "(p, n) \<in> live_in h c"
  obtain C where C: "arenas h c = Some C" using p by (auto simp: live_in_def split: option.splits)
  note al = arena_aligned [OF h C]
  show ?thesis
  proof (cases "a_desc C")
    case None
    then show ?thesis using p C al by (auto simp: live_in_def page_of_def PGSIZE_def sizeof_arena_def)
  next
    case (Some j)
    then show ?thesis using p C al arena_block_page(1) [OF h arena_desc [OF h C Some]] by (auto simp: live_in_def)
  qed
qed

lemma live_split_at: "live h = (\<Union>c \<in> - {a}. live_in h c) \<union> live_in h a"
  by (auto simp: live_def)

subsection \<open>The steps of the operations\<close>

lemma free_cnt_bound:
  assumes h: "heap_core h" "i < length (descs h)"
  shows "length (filter (\<lambda>b. page_of b = a) (fl h i)) \<le> per h i" "per h i \<le> 4084"
proof -
  have "set (filter (\<lambda>b. page_of b = a) (fl h i)) \<subseteq> set (arena_blocks h i a)"
    using heap_coreD(4) [OF h] by (auto simp: block_ok_def)
  moreover have "distinct (filter (\<lambda>b. page_of b = a) (fl h i))" using heap_coreD(4) [OF h] by simp
  ultimately have "length (filter (\<lambda>b. page_of b = a) (fl h i)) \<le> length (arena_blocks h i a)"
    by (metis List.finite_set card_length card_mono distinct_card le_trans)
  then show "length (filter (\<lambda>b. page_of b = a) (fl h i)) \<le> per h i" by (simp add: arena_blocks_def)
  show "per h i \<le> 4084" using desc_ok_nth [OF h] by (simp add: div_le_dividend)
qed

lemma sz_minus: "c \<le> x \<Longrightarrow> x < 2 ^ 32 \<Longrightarrow> sz (x + 2 ^ 32 - c) = x - c"
proof -
  assume c: "c \<le> x" and x: "x < 2 ^ 32"
  then have e: "x + 2 ^ 32 - c = (x - c) + 2 ^ 32" by simp
  show ?thesis unfolding e sz_def using x by simp
qed

lemma block_to_arena_ok:
  assumes h: "heap_core h" and a: "arenas h a = Some A" "a_desc A = Some i" and p: "p \<in> set (arena_blocks h i a)"
    and h': "arenas h' = arenas h" "\<And>j. bs h' j = bs h j"
  shows "block_to_arena p h' = Inr a"
proof -
  note pg = arena_block_page [OF h arena_desc [OF h a] _ p] arena_aligned [OF h a(1)]
  have "p mod PGSIZE < 4096" by (simp add: PGSIZE_def)
  moreover have "sizeof_arena \<le> p mod PGSIZE" using pg by simp
  ultimately have "sz (p mod PGSIZE + 2 ^ 32 - sizeof_arena) = p mod PGSIZE - sizeof_arena"
    by (intro sz_minus) auto
  then show ?thesis using pg a h' by (simp add: block_to_arena_def the_arena_def bs_def Let_def)
qed

lemma take_block_eq:
  assumes h: "heap_core h" "i < length (descs h)" and b: "fl h i = b # xs"
  shows "\<exists>A. arenas h (page_of b) = Some A \<and> a_desc A = Some i \<and>
    take_block i h = Inr (b, set_free i xs (page_of b) (Some \<lparr>a_desc = Some i, free_cnt = free_cnt A - 1\<rparr>) h)"
proof -
  obtain A where A: "arenas h (page_of b) = Some A" "a_desc A = Some i" "b \<in> set (arena_blocks h i (page_of b))"
    using heap_coreD(4) [OF h] b by (auto simp: block_ok_def)
  have "free_cnt A = length (filter (\<lambda>c. page_of c = page_of b) (fl h i))" using heap_coreD(2) [OF h(1) A(1)] A(2) by (simp add: arena_ok_def)
  then have c: "0 < free_cnt A" "free_cnt A \<le> 4084" using free_cnt_bound(1) [OF h, of "page_of b"] free_cnt_bound(2) [OF h] b by auto
  then have z: "sz (free_cnt A + 2 ^ 32 - 1) = free_cnt A - 1" by (intro sz_minus) auto
  let ?h = "upd_desc i (\<lambda>d. d\<lparr>free_list := xs\<rparr>) h"
  have ar: "arenas ?h = arenas h" "bs ?h j = bs h j" for j by (auto simp: upd_desc_def bs_def nth_update)
  have "block_to_arena b ?h = Inr (page_of b)" by (rule block_to_arena_ok [OF h(1) A]) (simp_all add: ar)
  moreover have up: "A\<lparr>free_cnt := c\<rparr> = \<lparr>a_desc = Some i, free_cnt = c\<rparr>" for c using A(2) by (cases A) simp
  ultimately show ?thesis
    using A b z by (intro exI [of _ A]) (simp add: up take_block_def fl_def set_free_def ar the_arena_def Let_def)
qed

lemma fill_loop_eq:
  assumes "arenas h a = Some A" "a_desc A = Some i" "a \<noteq> 0" "i < length (descs h)" "idx + n \<le> per h i"
  shows "fill_loop n idx i a h = Inr (upd_desc i (\<lambda>d. d\<lparr>free_list := free_list d @ map (\<lambda>k. a + sizeof_arena + k * bs h i) [idx..<idx + n]\<rparr>) h)"
  using assms
proof (induction n arbitrary: idx h)
  case 0
  then show ?case by (simp add: upd_desc_def)
next
  case (Suc n)
  let ?b = "a + sizeof_arena + idx * bs h i"
  let ?h = "upd_desc i (\<lambda>d. d\<lparr>free_list := free_list d @ [?b]\<rparr>) h"
  have s: "arenas ?h = arenas h" "bs ?h i = bs h i" "per ?h i = per h i" "length (descs ?h) = length (descs h)"
    by (auto simp: upd_desc_def bs_def per_def nth_update)
  have "arena_to_block a idx h = Inr ?b" using Suc.prems by (simp add: arena_to_block_def the_arena_def bs_def per_def)
  moreover have "fill_loop n (idx + 1) i a ?h = Inr (upd_desc i (\<lambda>d. d\<lparr>free_list := free_list d @ map (\<lambda>k. a + sizeof_arena + k * bs h i) [idx + 1..<idx + 1 + n]\<rparr>) ?h)"
    using Suc.IH [of ?h "idx + 1"] Suc.prems unfolding s by simp
  moreover have "[idx..<idx + Suc n] = idx # [idx + 1..<idx + 1 + n]" by (simp add: upt_conv_Cons)
  ultimately show ?case using Suc.prems(4) by (simp add: upd_desc_def)
qed

lemma new_arena_eq:
  assumes "a \<noteq> 0" "i < length (descs h)"
  shows "new_arena i a h = Inr (set_free i (fl h i @ arena_blocks h i a) a (Some \<lparr>a_desc = Some i, free_cnt = per h i\<rparr>) h)"
proof -
  let ?h = "h\<lparr>arenas := (arenas h)(a \<mapsto> \<lparr>a_desc = Some i, free_cnt = per h i\<rparr>)\<rparr>"
  have s: "bs ?h i = bs h i" "per ?h i = per h i" by (simp_all add: bs_def per_def)
  have "fill_loop (per h i) 0 i a ?h = Inr (upd_desc i (\<lambda>d. d\<lparr>free_list := free_list d @ map (\<lambda>k. a + sizeof_arena + k * bs ?h i) [0..<0 + per h i]\<rparr>) ?h)"
    by (rule fill_loop_eq) (use assms s in auto)
  then show ?thesis by (cases h) (simp add: new_arena_def per_def set_free_def upd_desc_def arena_blocks_def fl_def bs_def Let_def)
qed

lemma unlink_loop_eq:
  assumes "arenas h a = Some A" "a_desc A = Some i" "a \<noteq> 0" "i < length (descs h)" "idx + n \<le> per h i" "0 < bs h i" "distinct (fl h i)"
    "\<And>k. idx \<le> k \<Longrightarrow> k < idx + n \<Longrightarrow> a + sizeof_arena + k * bs h i \<in> set (fl h i)"
  shows "unlink_loop n idx i a h =
    Inr (upd_desc i (\<lambda>d. d\<lparr>free_list := filter (\<lambda>b. b \<notin> set (map (\<lambda>k. a + sizeof_arena + k * bs h i) [idx..<idx + n])) (free_list d)\<rparr>) h)"
  using assms
proof (induction n arbitrary: idx h)
  case 0
  then show ?case by (simp add: upd_desc_def)
next
  case (Suc n)
  let ?b = "a + sizeof_arena + idx * bs h i"
  let ?h = "upd_desc i (\<lambda>d. d\<lparr>free_list := remove1 ?b (free_list d)\<rparr>) h"
  have s: "arenas ?h = arenas h" "bs ?h i = bs h i" "per ?h i = per h i" "length (descs ?h) = length (descs h)" "fl ?h i = remove1 ?b (fl h i)"
    using Suc.prems(4) by (auto simp: upd_desc_def bs_def per_def fl_def nth_update)
  have "arena_to_block a idx h = Inr ?b" using Suc.prems by (simp add: arena_to_block_def the_arena_def bs_def per_def)
  moreover have "?b \<in> set (free_list (descs h ! i))" using Suc.prems(8) [of idx] by (simp add: fl_def)
  moreover have rest: "a + sizeof_arena + k * bs h i \<in> set (fl ?h i)" if "idx + 1 \<le> k" "k < idx + 1 + n" for k
    unfolding s(5) using Suc.prems(6-8) that by (simp add: set_remove1_eq)
  then have "unlink_loop n (idx + 1) i a ?h =
      Inr (upd_desc i (\<lambda>d. d\<lparr>free_list := filter (\<lambda>b. b \<notin> set (map (\<lambda>k. a + sizeof_arena + k * bs h i) [idx + 1..<idx + 1 + n])) (free_list d)\<rparr>) ?h)"
    using Suc.IH [of ?h "idx + 1"] Suc.prems(1-7) unfolding s by simp
  moreover have "filter (\<lambda>b. b \<notin> S) (remove1 ?b (fl h i)) = filter (\<lambda>b. b \<notin> insert ?b S) (fl h i)" for S
    using Suc.prems(7) by (auto simp: distinct_remove1_removeAll removeAll_filter_not_eq filter_filter intro: filter_cong)
  moreover have "[idx..<idx + Suc n] = idx # [idx + 1..<idx + 1 + n]" by (simp add: upt_conv_Cons)
  ultimately show ?case using Suc.prems(4) by (simp add: upd_desc_def fl_def)
qed

subsection \<open>Live blocks\<close>

lemma live_in_range:
  assumes "heap_core h" "arenas h c = Some C" "(p, n) \<in> live_in h c"
  shows "{p..<p + n} \<subseteq> arena_range c C" "0 < p"
proof -
  note al = arena_aligned [OF assms(1,2)]
  show "{p..<p + n} \<subseteq> arena_range c C"
  proof (cases "a_desc C")
    case None
    then show ?thesis using assms(2,3) heap_coreD(2) [OF assms(1,2)]
      by (auto simp: live_in_def arena_range_def arena_pages_def arena_ok_def PGSIZE_def sizeof_arena_def)
  next
    case (Some j)
    then have p: "n = bs h j" "p \<in> set (arena_blocks h j c)" using assms(2,3) by (auto simp: live_in_def)
    have "p + bs h j \<le> c + PGSIZE" "c + sizeof_arena \<le> p"
      using arena_block_page(2,3) [OF assms(1) arena_desc [OF assms(1,2) Some] _ p(2)] al by auto
    then show ?thesis using p(1) Some by (auto simp: arena_range_def arena_pages_def)
  qed
  show "0 < p" using live_in_page [OF assms(1,3)] al by (cases p) (auto simp: page_of_def)
qed

lemma live_inD: "(p, n) \<in> live h \<Longrightarrow> \<exists>c C. arenas h c = Some C \<and> (p, n) \<in> live_in h c"
proof -
  assume "(p, n) \<in> live h"
  then obtain c where c: "(p, n) \<in> live_in h c" by (auto simp: live_def)
  then show ?thesis by (cases "arenas h c") (auto simp: live_in_def)
qed

lemma arena_blocks_apart:
  assumes "p \<in> set (arena_blocks h i c)" "q \<in> set (arena_blocks h i c)" "p \<noteq> q"
  shows "{p..<p + bs h i} \<inter> {q..<q + bs h i} = {}"
proof -
  obtain k l where k: "p = c + sizeof_arena + k * bs h i" "q = c + sizeof_arena + l * bs h i" "k \<noteq> l"
    using assms by (auto simp: arena_blocks_def)
  have "k * bs h i + bs h i \<le> l * bs h i" if "k < l" for k l
    using mult_le_mono1 [of "Suc k" l "bs h i"] that by simp
  from this [of k l] this [of l k] show ?thesis using k by (cases "k < l") auto
qed

lemma live_apart:
  assumes h: "heap_core h" and p: "(p, n) \<in> live h" "(q, m) \<in> live h" "(p, n) \<noteq> (q, m)"
  shows "{p..<p + n} \<inter> {q..<q + m} = {}"
proof -
  obtain c C d D where c: "arenas h c = Some C" "(p, n) \<in> live_in h c" "arenas h d = Some D" "(q, m) \<in> live_in h d"
    using p live_inD by meson
  show ?thesis
  proof (cases "c = d")
    case False
    then show ?thesis using heap_coreD(3) [OF h c(1,3)] live_in_range(1) [OF h c(1,2)] live_in_range(1) [OF h c(3,4)] by blast
  next
    case True
    show ?thesis
    proof (cases "a_desc C")
      case None
      then show ?thesis using c p(3) True by (simp add: live_in_def)
    next
      case (Some j)
      then have "n = bs h j" "m = bs h j" "p \<in> set (arena_blocks h j c)" "q \<in> set (arena_blocks h j c)"
        using c True by (auto simp: live_in_def)
      then show ?thesis using arena_blocks_apart [of p h j c q] p(3) by simp
    qed
  qed
qed

lemma take_block_spec:
  assumes h: "heap_core h" "i < length (descs h)" and b: "fl h i = b # xs"
    and others: "\<And>a A j. arenas h a = Some A \<Longrightarrow> a_desc A = Some j \<Longrightarrow> a \<noteq> page_of b \<Longrightarrow> free_cnt A < per h j"
  shows "\<exists>h'. take_block i h = Inr (b, h') \<and> heap_inv h' \<and> live h' = insert (b, bs h i) (live h) \<and> (b, bs h i) \<notin> live h \<and>
    hmem h' = hmem h \<and> b \<noteq> 0"
proof -
  let ?a = "page_of b"
  obtain A where A: "arenas h ?a = Some A" "a_desc A = Some i"
    and t: "take_block i h = Inr (b, set_free i xs ?a (Some \<lparr>a_desc = Some i, free_cnt = free_cnt A - 1\<rparr>) h)"
    using take_block_eq [OF h b] by blast
  let ?h = "set_free i xs ?a (Some \<lparr>a_desc = Some i, free_cnt = free_cnt A - 1\<rparr>) h"
  have d: "distinct (b # xs)" "\<forall>c \<in> set (b # xs). block_ok h i c" using heap_coreD(4) [OF h] b by auto
  have cnt: "free_cnt A = length (filter (\<lambda>c. page_of c = ?a) (b # xs))" using heap_coreD(2) [OF h(1) A(1)] A(2) b by (simp add: arena_ok_def)
  have sb: "same_but h i ?a xs" using b by (simp add: same_but_def)
  have core: "heap_core ?h"
    by (rule core_set_free [OF h _ sb]) (use A d cnt in \<open>auto simp: arena_step_def block_ok_def\<close>)
  have "free_cnt A - 1 < per h i"
    using free_cnt_bound(1) [OF h, of ?a] cnt b desc_ok_nth [OF h] by simp
  then have inv: "heap_inv ?h" using core others by (auto simp: heap_inv_def)
  have bl: "b \<in> set (arena_blocks h i ?a)" using d(2) by (auto simp: block_ok_def)
  have "live_in ?h ?a = insert (b, bs h i) (live_in h ?a)"
  proof -
    have "set (arena_blocks h i ?a) - set xs = insert b (set (arena_blocks h i ?a) - set (b # xs))" using d(1) bl by auto
    then show ?thesis using live_in_set_free [OF h(2), of xs ?a] A b by (simp add: live_in_def)
  qed
  then have "live ?h = insert (b, bs h i) (live h)"
    unfolding live_set_free [OF h sb] live_split_at [of h ?a] by simp
  moreover have "(b, bs h i) \<notin> live h"
  proof
    assume "(b, bs h i) \<in> live h"
    then obtain c where "(b, bs h i) \<in> live_in h c" by (auto simp: live_def)
    then have "(b, bs h i) \<in> live_in h ?a" using live_in_page [OF h(1)] by blast
    then show False using A b by (auto simp: live_in_def)
  qed
  moreover have "b \<noteq> 0" using arena_aligned [OF h(1) A(1)] by (cases b) (auto simp: page_of_def)
  ultimately show ?thesis using t inv by auto
qed

lemma fresh_none: "heap_core h \<Longrightarrow> fresh_pages h a n \<Longrightarrow> arenas h a = None"
proof (cases "arenas h a")
  case (Some B)
  assume h: "heap_core h" and a: "fresh_pages h a n"
  have "a \<in> arena_range a B" using heap_coreD(2) [OF h Some] by (auto simp: arena_ok_def arena_range_def PGSIZE_def)
  moreover have "{a..<a + PGSIZE * n} \<inter> arena_range a B = {}" "0 < n" using a Some unfolding fresh_pages_def by metis+
  moreover from this(2) have "a \<in> {a..<a + PGSIZE * n}" by (simp add: PGSIZE_def)
  ultimately show ?thesis by blast
qed simp

lemma new_arena_spec:
  assumes h: "heap_core h" "i < length (descs h)" and a: "fresh_pages h a 1" "fl h i = []"
  shows "\<exists>h'. new_arena i a h = Inr h' \<and> heap_core h' \<and> live h' = live h \<and> fl h' i = arena_blocks h i a \<and> bs h' = bs h \<and> per h' = per h \<and>
    length (descs h') = length (descs h) \<and> hmem h' = hmem h \<and> arenas h' = (arenas h)(a \<mapsto> \<lparr>a_desc = Some i, free_cnt = per h i\<rparr>)"
proof -
  let ?A = "\<lparr>a_desc = Some i, free_cnt = per h i\<rparr>"
  let ?h = "set_free i (arena_blocks h i a) a (Some ?A) h"
  have a0: "a \<noteq> 0" "a mod PGSIZE = 0" using a(1) by (auto simp: fresh_pages_def)
  have none: "arenas h a = None" using fresh_none [OF h(1) a(1)] .
  note pg = arena_block_page(1) [OF h a0(2)]
  have all: "filter (\<lambda>b. page_of b = a) (arena_blocks h i a) = arena_blocks h i a" using pg by (auto simp: filter_id_conv)
  have sb: "same_but h i a (arena_blocks h i a)" using pg a(2) by (auto simp: same_but_def filter_empty_conv)
  have "heap_core ?h"
    by (rule core_set_free [OF h _ sb distinct_arena_blocks [OF h]])
      (use none a all in \<open>auto simp: arena_step_def, simp add: arena_blocks_def\<close>)
  moreover have "live_in ?h a = {}" "live_in h a = {}"
    using live_in_set_free [OF h(2), of "arena_blocks h i a" a] none by (simp_all add: live_in_def)
  then have "live ?h = live h" unfolding live_set_free [OF h sb] live_split_at [of h a] by simp
  ultimately show ?thesis
    using new_arena_eq [OF a0(1) h(2)] a(2) h(2) by (auto intro!: exI [of _ ?h])
qed

lemma big_arena_spec:
  assumes h: "heap_inv h" and a: "fresh_pages h a n"
  defines "h' \<equiv> h\<lparr>arenas := (arenas h)(a \<mapsto> \<lparr>a_desc = None, free_cnt = n\<rparr>)\<rparr>"
  shows "heap_inv h'" "live h' = insert (a + sizeof_arena, PGSIZE * n - sizeof_arena) (live h)" "(a + sizeof_arena, m) \<notin> live h"
proof -
  have hc: "heap_core h" using h by (simp add: heap_inv_def)
  let ?A = "\<lparr>a_desc = None, free_cnt = n\<rparr>"
  have f: "fl h' = fl h" "bs h' = bs h" "per h' = per h" "arena_blocks h' = arena_blocks h" "descs h' = descs h"
    by (auto simp: h'_def fl_def bs_def per_def arena_blocks_def fun_eq_iff)
  have none: "arenas h a = None" using fresh_none [OF hc a] .
  have "arena_range a ?A = {a..<a + PGSIZE * n}" by (simp add: arena_range_def arena_pages_def)
  then have rg: "arena_range a ?A \<inter> arena_range b B = {}" if "arenas h b = Some B" for b B
    using a that unfolding fresh_pages_def by metis
  have ok: "arena_ok h' c C" if "arenas h' c = Some C" for c C
  proof (cases "c = a")
    case True
    then show ?thesis using that a by (auto simp: h'_def arena_ok_def arena_pages_def fresh_pages_def)
  next
    case False
    then show ?thesis using that heap_coreD(2) [OF hc, of c C] f by (auto simp: h'_def arena_ok_def)
  qed
  have apart: "arena_range c C \<inter> arena_range d D = {}" if "arenas h' c = Some C" "arenas h' d = Some D" "c \<noteq> d" for c C d D
    using that rg heap_coreD(3) [OF hc, of c C d D] by (auto simp: h'_def split: if_splits)
  have blk: "block_ok h' i b" if "i < length (descs h)" "b \<in> set (fl h i)" for i b
    using heap_coreD(4) [OF hc that(1)] that(2) none f by (auto simp: block_ok_def h'_def)
  have "heap_core h'"
    unfolding heap_core_def f(5) using heap_coreD(1) [OF hc] ok apart blk heap_coreD(4) [OF hc] f(1) by simp
  then show "heap_inv h'" using h f by (auto simp: heap_inv_def h'_def)
  have o: "live_in h' c = live_in h c" if "c \<noteq> a" for c
    using that unfolding live_in_def f by (simp add: h'_def)
  have "live_in h' a = {(a + sizeof_arena, PGSIZE * n - sizeof_arena)}" by (simp add: live_in_def h'_def)
  moreover have "live_in h a = {}" using none by (simp add: live_in_def)
  moreover have "(\<Union>c \<in> - {a}. live_in h' c) = (\<Union>c \<in> - {a}. live_in h c)" using o by (intro SUP_cong) auto
  ultimately show "live h' = insert (a + sizeof_arena, PGSIZE * n - sizeof_arena) (live h)"
    unfolding live_split_at [of h' a] live_split_at [of h a] by simp
  have "page_of (a + sizeof_arena) = a" using a by (auto simp: fresh_pages_def page_of_def PGSIZE_def sizeof_arena_def)
  then show "(a + sizeof_arena, m) \<notin> live h"
    using live_inD [of "a + sizeof_arena" m h] live_in_page [OF hc] none by fastforce
qed

definition pages_for :: "nat \<Rightarrow> heap \<Rightarrow> nat" where
  "pages_for n h = (case find_desc 0 n (descs h) of None \<Rightarrow> big_pages n | Some i \<Rightarrow> 1)"

lemma find_desc_Some: "find_desc j n ds = Some i \<Longrightarrow> \<exists>k. i = j + k \<and> k < length ds \<and> n \<le> d_block_size (ds ! k)"
proof (induction ds arbitrary: j)
  case (Cons d ds)
  show ?case
  proof (cases "n \<le> d_block_size d")
    case True
    then show ?thesis using Cons.prems by (intro exI [of _ 0]) simp
  next
    case False
    then obtain k where "i = Suc j + k" "k < length ds" "n \<le> d_block_size (ds ! k)" using Cons by fastforce
    then show ?thesis by (intro exI [of _ "Suc k"]) simp
  qed
qed simp

lemma big_pages_enough: "n + 4107 < 2 ^ 32 \<Longrightarrow> n \<le> PGSIZE * big_pages n - sizeof_arena"
proof -
  assume n: "n + 4107 < 2 ^ 32"
  then have "big_pages n = (n + 4107) div 4096" by (simp add: big_pages_def DIV_ROUND_UP_def sz_def sizeof_arena_def PGSIZE_def)
  moreover have "n + 12 \<le> 4096 * ((n + 4107) div 4096)"
    using div_mult_mod_eq [of "n + 4107" 4096] mod_less_divisor [of 4096 "n + 4107"] by linarith
  ultimately show ?thesis by (simp add: PGSIZE_def sizeof_arena_def)
qed

lemma malloc_spec:
  assumes h: "heap_inv h" and n: "0 < n" and page: "\<forall>a. page = Some a \<longrightarrow> fresh_pages h a (pages_for n h)"
  shows "\<exists>p h'. malloc n page h = Inr (p, h') \<and> heap_inv h' \<and> hmem h' = hmem h \<and>
    (p = 0 \<and> h' = h \<and> page = None \<or>
     p \<noteq> 0 \<and> (\<exists>m. live h' = insert (p, m) (live h) \<and> (p, m) \<notin> live h \<and> (n + 4107 < 2 ^ 32 \<longrightarrow> n \<le> m)))"
proof (cases "find_desc 0 n (descs h)")
  case None
  show ?thesis
  proof (cases page)
    case None
    then show ?thesis using h n \<open>find_desc 0 n (descs h) = None\<close> by (simp add: malloc_def)
  next
    case (Some a)
    then have f: "fresh_pages h a (big_pages n)" using page Some None by (simp add: pages_for_def)
    note b = big_arena_spec [OF h f]
    have m: "malloc n page h = Inr (a + sizeof_arena, h\<lparr>arenas := (arenas h)(a \<mapsto> \<lparr>a_desc = None, free_cnt = big_pages n\<rparr>)\<rparr>)"
      using n None Some by (simp add: malloc_def)
    have "a \<noteq> 0" using f by (simp add: fresh_pages_def)
    then show ?thesis unfolding m using b big_pages_enough [of n] by fastforce
  qed
next
  case (Some i)
  have i: "i < length (descs h)" "n \<le> bs h i" using find_desc_Some [OF Some] by (auto simp: bs_def)
  have hc: "heap_core h" and full: "\<And>a A j. arenas h a = Some A \<Longrightarrow> a_desc A = Some j \<Longrightarrow> free_cnt A < per h j"
    using h by (auto simp: heap_inv_def)
  show ?thesis
  proof (cases "fl h i")
    case (Cons b xs)
    then have m: "malloc n page h = take_block i h" using n Some by (simp add: malloc_def fl_def)
    show ?thesis unfolding m using take_block_spec [OF hc i(1) Cons full] i(2) by fastforce
  next
    case Nil
    show ?thesis
    proof (cases page)
      case None
      then show ?thesis using h n Some Nil by (simp add: malloc_def fl_def)
    next
      case (Some a)
      then have f: "fresh_pages h a 1" using page Some \<open>find_desc 0 n (descs h) = Some i\<close> by (simp add: pages_for_def)
      obtain h1 where h1: "new_arena i a h = Inr h1" "heap_core h1" "live h1 = live h" "fl h1 i = arena_blocks h i a" "bs h1 = bs h" "per h1 = per h"
          "length (descs h1) = length (descs h)" "hmem h1 = hmem h" "arenas h1 = (arenas h)(a \<mapsto> \<lparr>a_desc = Some i, free_cnt = per h i\<rparr>)"
        using new_arena_spec [OF hc i(1) f Nil] by blast
      obtain b xs where b: "arena_blocks h i a = b # xs"
        using desc_ok_nth [OF hc i(1)] by (cases "arena_blocks h i a") (auto simp: arena_blocks_def)
      have pg: "page_of b = a" using arena_block_page(1) [OF hc i(1), of a b] b f by (simp add: fresh_pages_def)
      have i1: "i < length (descs h1)" using i h1 by simp
      have ot: "free_cnt A < per h1 j" if "arenas h1 c = Some A" "a_desc A = Some j" "c \<noteq> page_of b" for c A j
        using that full pg h1(6,9) by (auto split: if_splits)
      have m: "malloc n page h = take_block i h1" using n Some \<open>find_desc 0 n (descs h) = Some i\<close> Nil h1(1) by (simp add: malloc_def fl_def)
      have b1: "fl h1 i = b # xs" using h1(4) b by simp
      show ?thesis unfolding m using take_block_spec [OF h1(2) i1 b1 ot] h1 i(2) by fastforce
    qed
  qed
qed

subsection \<open>Release\<close>

lemma heap_fill_simps [simp]:
  "descs (heap_fill p v n h) = descs h" "arenas (heap_fill p v n h) = arenas h" "fl (heap_fill p v n h) = fl h"
  "bs (heap_fill p v n h) = bs h" "per (heap_fill p v n h) = per h" "arena_blocks (heap_fill p v n h) = arena_blocks h"
  by (auto simp: heap_fill_def fl_def bs_def per_def arena_blocks_def fun_eq_iff)

lemma sel_cong:
  assumes "descs h' = descs h"
  shows "fl h' = fl h" "bs h' = bs h" "per h' = per h" "arena_blocks h' = arena_blocks h"
  using assms by (auto simp: fl_def bs_def per_def arena_blocks_def fun_eq_iff)

lemma live_cong:
  assumes "arenas h' = arenas h" "descs h' = descs h"
  shows "live h' = live h"
  unfolding live_def live_in_def sel_cong [OF assms(2)] assms(1) ..

lemma heap_inv_cong:
  assumes "arenas h' = arenas h" "descs h' = descs h"
  shows "heap_inv h' = heap_inv h" "heap_core h' = heap_core h"
  unfolding heap_inv_def heap_core_def arena_ok_def block_ok_def using sel_cong [OF assms(2)] assms by simp_all

lemma drop_big_arena:
  assumes h: "heap_inv h" and A: "arenas h a = Some A" "a_desc A = None"
  defines "h' \<equiv> h\<lparr>arenas := (arenas h)(a := None)\<rparr>"
  shows "heap_inv h'" "live h' = live h - live_in h a"
proof -
  have hc: "heap_core h" using h by (simp add: heap_inv_def)
  have f: "fl h' = fl h" "bs h' = bs h" "per h' = per h" "arena_blocks h' = arena_blocks h" "descs h' = descs h"
    by (auto simp: h'_def fl_def bs_def per_def arena_blocks_def fun_eq_iff)
  have ok: "arena_ok h' c C" if "arenas h' c = Some C" for c C
    using that heap_coreD(2) [OF hc, of c C] f by (auto simp: h'_def arena_ok_def split: if_splits)
  have blk: "block_ok h' i b" if "i < length (descs h)" "b \<in> set (fl h i)" for i b
    using heap_coreD(4) [OF hc that(1)] that(2) A f by (auto simp: block_ok_def h'_def)
  have "heap_core h'"
    unfolding heap_core_def f(5) using heap_coreD(1) [OF hc] ok heap_coreD(3) [OF hc] blk heap_coreD(4) [OF hc] f(1) by (auto simp: h'_def split: if_splits)
  then show "heap_inv h'" using h f by (auto simp: heap_inv_def h'_def)
  have o: "live_in h' c = live_in h c" if "c \<noteq> a" for c
    using that unfolding live_in_def f by (simp add: h'_def)
  have "live h' = (\<Union>c \<in> - {a}. live_in h c)"
    unfolding live_split_at [of h' a] using o by (simp add: live_in_def h'_def)
  moreover have "live_in h c \<inter> live_in h a = {}" if "c \<noteq> a" for c using that by (auto dest!: live_in_page [OF hc])
  then have "(\<Union>c \<in> - {a}. live_in h c) = live h - live_in h a" unfolding live_split_at [of h a] by blast
  ultimately show "live h' = live h - live_in h a" by simp
qed

lemma push_block:
  assumes h: "heap_core h" and A: "arenas h a = Some A" "a_desc A = Some i" and p: "p \<in> set (arena_blocks h i a)" "p \<notin> set (fl h i)"
  defines "h' \<equiv> set_free i (p # fl h i) a (Some \<lparr>a_desc = Some i, free_cnt = free_cnt A + 1\<rparr>) h"
  shows "heap_core h'" "live h' = live h - {(p, bs h i)}" "free_cnt A + 1 \<le> per h i"
proof -
  note i = arena_desc [OF h A] and al = arena_aligned [OF h A(1)]
  have pg: "page_of p = a" using arena_block_page(1) [OF h i _ p(1)] al by simp
  have cnt: "free_cnt A = length (filter (\<lambda>b. page_of b = a) (fl h i))" using heap_coreD(2) [OF h A(1)] A(2) by (simp add: arena_ok_def)
  have sb: "same_but h i a (p # fl h i)" using pg by (simp add: same_but_def)
  have fb: "distinct (fl h i)" "\<And>b. b \<in> set (fl h i) \<Longrightarrow> block_ok h i b" using heap_coreD(4) [OF h i] by auto
  show core: "heap_core h'" unfolding h'_def
    by (rule core_set_free [OF h i _ sb]) (use A pg p fb cnt in \<open>auto simp: arena_step_def block_ok_def\<close>)
  show "free_cnt A + 1 \<le> per h i"
    using free_cnt_bound(1) [OF core, of i a] i cnt pg by (simp add: h'_def)
  have lh: "live_in h a = (\<lambda>q. (q, bs h i)) ` (set (arena_blocks h i a) - set (fl h i))" using A by (simp add: live_in_def)
  have "live_in h' a = live_in h a - {(p, bs h i)}"
    unfolding h'_def live_in_set_free [OF i] lh by auto
  moreover have "(p, bs h i) \<notin> live_in h c" if "c \<noteq> a" for c using live_in_page [OF h] pg that by blast
  ultimately show "live h' = live h - {(p, bs h i)}"
    unfolding h'_def live_set_free [OF h i sb] live_split_at [of h a] by auto
qed

lemma drop_arena:
  assumes h: "heap_core h" and A: "arenas h a = Some A" "a_desc A = Some i" "free_cnt A = per h i"
  shows "\<exists>h1. unlink_loop (per h i) 0 i a h = Inr h1 \<and>
    h1\<lparr>arenas := (arenas h1)(a := None)\<rparr> = set_free i (filter (\<lambda>b. page_of b \<noteq> a) (fl h i)) a None h \<and>
    heap_core (set_free i (filter (\<lambda>b. page_of b \<noteq> a) (fl h i)) a None h) \<and>
    live (set_free i (filter (\<lambda>b. page_of b \<noteq> a) (fl h i)) a None h) = live h"
proof -
  note i = arena_desc [OF h A(1,2)] and al = arena_aligned [OF h A(1)]
  let ?xs = "filter (\<lambda>b. page_of b \<noteq> a) (fl h i)"
  let ?B = "set (arena_blocks h i a)"
  have fb: "distinct (fl h i)" "\<And>b. b \<in> set (fl h i) \<Longrightarrow> block_ok h i b" using heap_coreD(4) [OF h i] by auto
  have cnt: "length (filter (\<lambda>b. page_of b = a) (fl h i)) = per h i" using heap_coreD(2) [OF h A(1)] A(2,3) by (simp add: arena_ok_def)
  have sub: "set (filter (\<lambda>b. page_of b = a) (fl h i)) \<subseteq> ?B" using fb(2) by (auto simp: block_ok_def)
  have "card (set (filter (\<lambda>b. page_of b = a) (fl h i))) = length (filter (\<lambda>b. page_of b = a) (fl h i))"
    by (rule distinct_card) (use fb(1) in simp)
  also have "\<dots> = card ?B"
    unfolding cnt distinct_card [OF distinct_arena_blocks [OF h i, of a]] by (simp add: arena_blocks_def)
  finally have "card (set (filter (\<lambda>b. page_of b = a) (fl h i))) = card ?B" .
  then have eq: "set (filter (\<lambda>b. page_of b = a) (fl h i)) = ?B" using sub by (intro card_subset_eq) auto
  have "unlink_loop (per h i) 0 i a h =
      Inr (upd_desc i (\<lambda>d. d\<lparr>free_list := filter (\<lambda>b. b \<notin> set (map (\<lambda>k. a + sizeof_arena + k * bs h i) [0..<0 + per h i])) (free_list d)\<rparr>) h)"
  proof (rule unlink_loop_eq [OF A(1,2) _ i])
    show "a + sizeof_arena + k * bs h i \<in> set (fl h i)" if "0 \<le> k" "k < 0 + per h i" for k
    proof -
      have "a + sizeof_arena + k * bs h i \<in> ?B" using that by (auto simp: arena_blocks_def)
      then show ?thesis unfolding eq [symmetric] by simp
    qed
  qed (use al desc_ok_nth [OF h i] fb in auto)
  moreover have "filter (\<lambda>b. b \<notin> set (map (\<lambda>k. a + sizeof_arena + k * bs h i) [0..<0 + per h i])) (fl h i) = ?xs"
    using eq by (intro filter_cong) (auto simp: arena_blocks_def)
  ultimately have u: "unlink_loop (per h i) 0 i a h = Inr (upd_desc i (\<lambda>d. d\<lparr>free_list := ?xs\<rparr>) h)"
    by (simp add: upd_desc_def fl_def)
  have sb: "same_but h i a ?xs" by (simp add: same_but_def)
  have "heap_core (set_free i ?xs a None h)"
    by (rule core_set_free [OF h i _ sb]) (use A fb in \<open>auto simp: arena_step_def\<close>)
  moreover have "live_in (set_free i ?xs a None h) a = {}" by (simp add: live_in_def)
  moreover have "live_in h a = {}" using A eq by (auto simp: live_in_def)
  then have "live h = (\<Union>c \<in> - {a}. live_in h c)" unfolding live_split_at [of h a] by simp
  ultimately show ?thesis
    using u live_set_free [OF h i sb, of None] by (auto simp: set_free_def upd_desc_def)
qed

lemma free_spec:
  assumes h: "heap_inv h" and p: "(p, m) \<in> live h"
  shows "\<exists>h'. free p h = Inr h' \<and> heap_inv h' \<and> live h' = live h - {(p, m)} \<and> (\<forall>x. x < p \<or> p + m \<le> x \<longrightarrow> hmem h' x = hmem h x)"
proof -
  have hc: "heap_core h" and full: "\<And>a A j. arenas h a = Some A \<Longrightarrow> a_desc A = Some j \<Longrightarrow> free_cnt A < per h j"
    using h by (auto simp: heap_inv_def)
  obtain a A where A: "arenas h a = Some A" and pa: "(p, m) \<in> live_in h a" using live_inD [OF p] by blast
  note al = arena_aligned [OF hc A] and p0 = live_in_range(2) [OF hc A pa] and pg = live_in_page [OF hc pa]
  show ?thesis
  proof (cases "a_desc A")
    case None
    then have pm: "(p, m) = (a + sizeof_arena, PGSIZE * free_cnt A - sizeof_arena)" and li: "live_in h a = {(p, m)}"
      using pa A by (auto simp: live_in_def)
    have "p mod PGSIZE = sizeof_arena" using pm al by (auto simp: PGSIZE_def sizeof_arena_def)
    then have "block_to_arena p h = Inr a" using pg al A None by (simp add: block_to_arena_def the_arena_def Let_def)
    then have "free p h = Inr (h\<lparr>arenas := (arenas h)(a := None)\<rparr>)" using p0 A None by (simp add: free_def the_arena_def)
    then show ?thesis using drop_big_arena [OF h A None] li by simp
  next
    case (Some i)
    have i: "i < length (descs h)" using arena_desc [OF hc A Some] .
    have q: "p \<in> set (arena_blocks h i a)" "p \<notin> set (fl h i)" "m = bs h i" using pa A Some by (auto simp: live_in_def)
    let ?h1 = "heap_fill p 0xcc (bs h i) h"
    let ?h3 = "set_free i (p # fl h i) a (Some \<lparr>a_desc = Some i, free_cnt = free_cnt A + 1\<rparr>) ?h1"
    have c1: "heap_core ?h1" "live ?h1 = live h" using heap_inv_cong(2) [of ?h1 h] live_cong [of ?h1 h] hc by simp_all
    have A1: "arenas ?h1 a = Some A" using A by simp
    note push = push_block [OF c1(1) A1 Some, unfolded heap_fill_simps, OF q(1,2)]
    have mem: "hmem ?h3 x = hmem h x" if "x < p \<or> p + m \<le> x" for x using that q(3) by (auto simp: heap_fill_def)
    have ba: "block_to_arena p h = Inr a" by (rule block_to_arena_ok [OF hc A Some q(1)]) simp_all
    have cnt: "sz (free_cnt A + 1) = free_cnt A + 1"
      using push(3) free_cnt_bound(2) [OF hc i] by (simp add: sz_def)
    have "A\<lparr>free_cnt := c\<rparr> = \<lparr>a_desc = Some i, free_cnt = c\<rparr>" for c using Some by (cases A) simp
    then have h3: "(upd_desc i (\<lambda>d. d\<lparr>free_list := p # free_list d\<rparr>) ?h1)\<lparr>arenas := (arenas h)(a \<mapsto> A\<lparr>free_cnt := free_cnt A + 1\<rparr>)\<rparr> = ?h3"
      by (simp add: set_free_def upd_desc_def fl_def)
    have fr: "free p h = (if free_cnt A + 1 \<ge> per h i
        then kassert (free_cnt A + 1 = per h i) (rbind (unlink_loop (per h i) 0 i a ?h3) (\<lambda>h4. Inr (h4\<lparr>arenas := (arenas h4)(a := None)\<rparr>)))
        else Inr ?h3)"
      using p0 A Some cnt unfolding free_def ba h3 [symmetric] by (simp add: the_arena_def upd_desc_def bs_def per_def Let_def)
    have others: "free_cnt B < per h j" if "arenas ?h3 b = Some B" "a_desc B = Some j" "b \<noteq> a" for b B j
      using that full by simp
    show ?thesis
    proof (cases "free_cnt A + 1 \<ge> per h i")
      case False
      then have "free_cnt B < per ?h3 j" if "arenas ?h3 b = Some B" "a_desc B = Some j" for b B j
        using that others [of b B j] by (cases "b = a") auto
      then have "heap_inv ?h3" unfolding heap_inv_def using push(1) by blast
      then show ?thesis using fr False push(2) c1(2) q(3) mem by simp
    next
      case True
      then have e: "free_cnt A + 1 = per h i" using push(3) by simp
      let ?h5 = "set_free i (filter (\<lambda>b. page_of b \<noteq> a) (fl ?h3 i)) a None ?h3"
      obtain h4 where u: "unlink_loop (per h i) 0 i a ?h3 = Inr h4" "h4\<lparr>arenas := (arenas h4)(a := None)\<rparr> = ?h5"
          "heap_core ?h5" "live ?h5 = live ?h3"
        using drop_arena [OF push(1), of a "\<lparr>a_desc = Some i, free_cnt = free_cnt A + 1\<rparr>" i] e by auto
      have "free_cnt B < per ?h5 j" if "arenas ?h5 b = Some B" "a_desc B = Some j" for b B j
        using that others [of b B j] by (cases "b = a") auto
      then have "heap_inv ?h5" unfolding heap_inv_def using u(3) by blast
      then show ?thesis using fr True e u push(2) c1(2) q(3) mem by simp
    qed
  qed
qed

subsection \<open>Sizes and moving a block\<close>

lemma block_size_of_live:
  assumes h: "heap_core h" and p: "(p, m) \<in> live h"
  shows "block_size_of p h = Inr m"
proof -
  obtain a A where A: "arenas h a = Some A" and pa: "(p, m) \<in> live_in h a" using live_inD [OF p] by blast
  note al = arena_aligned [OF h A] and pg = live_in_page [OF h pa]
  show ?thesis
  proof (cases "a_desc A")
    case None
    then have pm: "p = a + sizeof_arena" "m = PGSIZE * free_cnt A - sizeof_arena" using pa A by (auto simp: live_in_def)
    have mod: "p mod PGSIZE = sizeof_arena" using pm al by (auto simp: PGSIZE_def sizeof_arena_def)
    have "0 < free_cnt A" "a + PGSIZE * free_cnt A \<le> 2 ^ 32" using heap_coreD(2) [OF h A] None by (auto simp: arena_ok_def arena_pages_def)
    then have "sz (PGSIZE * free_cnt A + 2 ^ 32 - sizeof_arena) = PGSIZE * free_cnt A - sizeof_arena"
      using al by (intro sz_minus) (auto simp: sizeof_arena_def PGSIZE_def)
    then show ?thesis using pg al A None pm mod by (simp add: block_size_of_def block_to_arena_def the_arena_def Let_def)
  next
    case (Some i)
    then have q: "p \<in> set (arena_blocks h i a)" "m = bs h i" using pa A by (auto simp: live_in_def)
    then have "block_to_arena p h = Inr a" using block_to_arena_ok [OF h A Some q(1)] by simp
    then show ?thesis using A Some q by (simp add: block_size_of_def the_arena_def bs_def)
  qed
qed

lemma realloc_spec:
  assumes h: "heap_inv h" and old: "(old, m) \<in> live h" and n: "0 < n" "n + 4107 < 2 ^ 32"
    and page: "\<forall>a. page = Some a \<longrightarrow> fresh_pages h a (pages_for n h)"
  shows "\<exists>new h'. realloc old n page h = Inr (new, h') \<and> heap_inv h' \<and>
    (new = 0 \<and> h' = h \<or>
     new \<noteq> 0 \<and> (\<exists>k \<ge> n. live h' = insert (new, k) (live h - {(old, m)}) \<and> (\<forall>x < min n m. hmem h' (new + x) = hmem h (old + x))))"
proof -
  have old0: "old \<noteq> 0" using live_inD [OF old] live_in_range(2) h by (fastforce simp: heap_inv_def)
  obtain new h1 where m1: "malloc n page h = Inr (new, h1)" "heap_inv h1" "hmem h1 = hmem h"
      and m2: "new = 0 \<and> h1 = h \<or> new \<noteq> 0 \<and> (\<exists>k. live h1 = insert (new, k) (live h) \<and> (new, k) \<notin> live h \<and> n \<le> k)"
    using malloc_spec [OF h n(1) page] n(2) by blast
  show ?thesis
  proof (cases "new = 0")
    case True
    then show ?thesis using m1 m2 n by (simp add: realloc_def)
  next
    case False
    then obtain k where k: "live h1 = insert (new, k) (live h)" "(new, k) \<notin> live h" "n \<le> k" using m2 by blast
    have lo: "(old, m) \<in> live h1" "(new, k) \<in> live h1" "(old, m) \<noteq> (new, k)" using old k by auto
    have hc1: "heap_core h1" using m1(2) by (simp add: heap_inv_def)
    have apart: "{old..<old + m} \<inter> {new..<new + k} = {}" using live_apart [OF hc1 lo] .
    let ?c = "if n < m then n else m"
    let ?h2 = "heap_copy new old ?c h1"
    have h2: "heap_inv ?h2" "live ?h2 = live h1" using heap_inv_cong(1) [of ?h2 h1] live_cong [of ?h2 h1] m1(2) by (simp_all add: heap_copy_def)
    obtain h3 where f: "free old ?h2 = Inr h3" "heap_inv h3" "live h3 = live h1 - {(old, m)}"
        and mem: "\<And>x. x < old \<or> old + m \<le> x \<Longrightarrow> hmem h3 x = hmem ?h2 x"
      using free_spec [OF h2(1), of old m] h2(2) lo(1) by auto
    have "hmem h3 (new + x) = hmem h (old + x)" if "x < min n m" for x
    proof -
      have "new + x \<in> {new..<new + k}" using that k(3) by simp
      then have "new + x < old \<or> old + m \<le> new + x" using apart by (metis atLeastLessThan_iff disjoint_iff not_le)
      then show ?thesis using mem that m1(3) by (auto simp: heap_copy_def)
    qed
    moreover have "live h3 = insert (new, k) (live h - {(old, m)})" using f(3) k(1) lo(3) by auto
    moreover have "realloc old n page h = Inr (new, h3)"
      using m1(1) n(1) old0 False block_size_of_live [OF hc1 lo(1)] f(1) by (simp add: realloc_def)
    ultimately show ?thesis using f(2) False k(3) by blast
  qed
qed

text \<open>Heaps that a program can reach. Clients write to memory as they like and free only what they hold.\<close>

inductive heap_reach :: "heap \<Rightarrow> bool" where
  start: "malloc_init h0 = Inr h \<Longrightarrow> descs h0 = [] \<Longrightarrow> arenas h0 = (\<lambda>_. None) \<Longrightarrow> heap_reach h"
| alloc: "heap_reach h \<Longrightarrow> (\<forall>a. page = Some a \<longrightarrow> fresh_pages h a (pages_for n h)) \<Longrightarrow> malloc n page h = Inr (p, h') \<Longrightarrow> heap_reach h'"
| release: "heap_reach h \<Longrightarrow> (p, m) \<in> live h \<Longrightarrow> free p h = Inr h' \<Longrightarrow> heap_reach h'"
| scribble: "heap_reach h \<Longrightarrow> heap_reach (h\<lparr>hmem := m\<rparr>)"

definition size_classes :: "desc list" where
  "size_classes = map (\<lambda>n. \<lparr>d_block_size = n, blocks_per_arena = 4084 div n, free_list = []\<rparr>) [16, 32, 64, 128, 256, 512, 1024]"

lemma malloc_init_eq: "descs h = [] \<Longrightarrow> malloc_init h = Inr (h\<lparr>descs := size_classes\<rparr>)"
  by (simp add: malloc_init_def malloc_init_loop.simps PGSIZE_def sizeof_arena_def size_classes_def)

lemma size_classes_ok: "\<forall>d \<in> set size_classes. desc_ok d \<and> free_list d = []"
  by (simp add: size_classes_def desc_ok_def PGSIZE_def sizeof_arena_def)

lemma heap_inv_start: "\<forall>d \<in> set (descs h). desc_ok d \<and> free_list d = [] \<Longrightarrow> arenas h = (\<lambda>_. None) \<Longrightarrow> heap_inv h \<and> live h = {}"
  by (simp add: heap_inv_def heap_core_def live_def live_in_def fl_def)

lemma heap_reach_inv: "heap_reach h \<Longrightarrow> heap_inv h"
proof (induction rule: heap_reach.induct)
  case (start h0 h)
  then show ?case using malloc_init_eq [of h0] size_classes_ok heap_inv_start [of h] by auto
next
  case (alloc h page n p h')
  show ?case
  proof (cases "n = 0")
    case True
    then show ?thesis using alloc by (simp add: malloc_def)
  next
    case False
    then show ?thesis using malloc_spec [OF alloc.IH, of n page] alloc.hyps by auto
  qed
next
  case (release h p m h')
  then show ?case using free_spec [OF release.IH release.hyps(2)] by auto
next
  case (scribble h m)
  then show ?case using heap_inv_cong(1) [of "h\<lparr>hmem := m\<rparr>" h] by simp
qed

section \<open>Properties\<close>

text \<open>C8: After any sequence of allocations and releases from \<^verbatim>\<open>malloc_init\<close> on, with whatever the page allocator answers and
  whatever clients write, the heap is well formed: every counter of an arena is the number of its free blocks, every
  free block belongs to an arena of its size, no arena is kept that is all free, and two blocks that are allocated never overlap.\<close>

theorem heap_stays_well_formed:
  "heap_reach h \<Longrightarrow> heap_inv h \<and> (\<forall>p n q m. (p, n) \<in> live h \<longrightarrow> (q, m) \<in> live h \<longrightarrow> (p, n) \<noteq> (q, m) \<longrightarrow> {p..<p + n} \<inter> {q..<q + m} = {})"
  using heap_reach_inv [of h] live_apart [of h] unfolding heap_inv_def by blast

text \<open>A heap after \<^verbatim>\<open>malloc_init\<close>.\<close>

definition ex_heap0 :: heap where
  "ex_heap0 = \<lparr>descs = size_classes, arenas = (\<lambda>_. None), hmem = (\<lambda>_. 0)\<rparr>"

lemma ex_heap0_inv: "heap_inv ex_heap0" "live ex_heap0 = {}"
  using heap_inv_start [of ex_heap0] size_classes_ok by (simp_all add: ex_heap0_def)

lemma ex_heap0_reach: "heap_reach ex_heap0"
  by (rule heap_reach.start [of "ex_heap0\<lparr>descs := []\<rparr>"]) (simp_all add: malloc_init_eq, simp_all add: ex_heap0_def)

lemma ex_heap0_fresh: "0 < n \<Longrightarrow> n \<le> 16 \<Longrightarrow> fresh_pages ex_heap0 0x1000 n"
  by (simp add: fresh_pages_def ex_heap0_def PGSIZE_def)

theorem heap_stays_well_formed_witness: "heap_inv ex_heap0"
  using heap_stays_well_formed [OF ex_heap0_reach] by blast



text \<open>\<^verbatim>\<open>realloc\<close> of an allocated block either fails and changes nothing, or gives a block of at least the new
  size in place of the old one, which is released; the bytes that fit in both are the same, and no other block is touched.\<close>

theorem realloc_keeps_contents:
  assumes "heap_inv h" "(old, m) \<in> live h" "0 < n" "n + 4107 < 2 ^ 32" "\<forall>a. page = Some a \<longrightarrow> fresh_pages h a (pages_for n h)"
  shows "\<exists>new h'. realloc old n page h = Inr (new, h') \<and> heap_inv h' \<and>
    (new = 0 \<and> h' = h \<or>
     new \<noteq> 0 \<and> (\<exists>k \<ge> n. live h' = insert (new, k) (live h - {(old, m)}) \<and> (\<forall>x < min n m. hmem h' (new + x) = hmem h (old + x))))"
  using assms by (rule realloc_spec)

text \<open>A heap with one block of a page allocated.\<close>

definition ex_heap1 :: heap where
  "ex_heap1 = ex_heap0\<lparr>arenas := (arenas ex_heap0)(0x1000 \<mapsto> \<lparr>a_desc = None, free_cnt = 1\<rparr>)\<rparr>"

lemma ex_heap1_inv: "heap_inv ex_heap1" "live ex_heap1 = {(0x100c, 4084)}"
  using big_arena_spec(1,2) [OF ex_heap0_inv(1) ex_heap0_fresh [of 1]] ex_heap0_inv(2)
  by (simp_all add: ex_heap1_def PGSIZE_def sizeof_arena_def)

theorem realloc_keeps_contents_witness:
  "\<exists>new h'. realloc 0x100c 20 None ex_heap1 = Inr (new, h') \<and> heap_inv h'"
proof -
  have "(0x100c, 4084) \<in> live ex_heap1" unfolding ex_heap1_inv(2) by simp
  moreover have "0 < (20 :: nat)" "20 + 4107 < (2 :: nat) ^ 32" by simp_all
  moreover have "\<forall>a. None = Some a \<longrightarrow> fresh_pages ex_heap1 a (pages_for 20 ex_heap1)" by simp
  ultimately show ?thesis using realloc_keeps_contents [OF ex_heap1_inv(1)] by blast
qed

text \<open>C37: The number of pages for a big block is computed modulo \<open>2 ^ 32\<close>: a request for almost the whole address space is given
  one page, and \<^verbatim>\<open>malloc\<close> reports success with a block of 4084 bytes.\<close>

theorem malloc_huge_request_wraps:
  assumes h: "heap_inv h" and n: "2 ^ 32 - 12 < n" "n < 2 ^ 32" and d: "find_desc 0 n (descs h) = None" and a: "fresh_pages h a 1"
  shows "pages_for n h = 1 \<and> (\<exists>h'. malloc n (Some a) h = Inr (a + 12, h') \<and> live h' = insert (a + 12, 4084) (live h))"
proof -
  have "sz (n + 12) = n + 12 - 2 ^ 32" using n by (simp add: sz_def mod_if)
  then have b: "big_pages n = 1" using n by (simp add: big_pages_def sizeof_arena_def DIV_ROUND_UP_def PGSIZE_def sz_def)
  have "malloc n (Some a) h = Inr (a + 12, h\<lparr>arenas := (arenas h)(a \<mapsto> \<lparr>a_desc = None, free_cnt = 1\<rparr>)\<rparr>)"
    using d n by (simp add: malloc_def b sizeof_arena_def)
  then show ?thesis using big_arena_spec(2) [OF h a] d b by (simp add: pages_for_def PGSIZE_def sizeof_arena_def)
qed

theorem malloc_huge_request_wraps_witness:
  "\<exists>h'. malloc 0xffffffff (Some 0x1000) ex_heap0 = Inr (0x100c, h') \<and> live h' = {(0x100c, 4084)}"
proof -
  have "find_desc 0 0xffffffff (descs ex_heap0) = None" by (simp add: ex_heap0_def size_classes_def)
  from malloc_huge_request_wraps [OF ex_heap0_inv(1) _ _ this ex_heap0_fresh [of 1]] show ?thesis
    unfolding ex_heap0_inv(2) by simp
qed

end
