(* ===== verification/Ustar.thy ===== *)
theory Ustar
  imports Stdio Bytes
begin

text \<open>
  Headers of ustar archives (src/pintos2/src/lib/ustar.c). A header is its 512 bytes, \<open>ustar_header\<close> its fields; a file name is the
  bytes before its terminator. The fields in octal are printed by \<open>Stdio\<close>, whose \<^verbatim>\<open>snprintf\<close> stores what \<^verbatim>\<open>printf\<close> prints, cut to the field. A message of
  \<^verbatim>\<open>ustar_parse_header\<close> is the left value of a sum; what it stores through its pointers is the right one.
\<close>

datatype ustar_type = USTAR_REGULAR | USTAR_DIRECTORY | USTAR_EOF

definition USTAR_HEADER_SIZE :: nat where "USTAR_HEADER_SIZE = 512"

definition type_byte :: "ustar_type \<Rightarrow> u8" where
  "type_byte t = (case t of USTAR_REGULAR \<Rightarrow> 48 | USTAR_DIRECTORY \<Rightarrow> 53 | USTAR_EOF \<Rightarrow> - 1)"

record ustar_header =
  u_name :: "u8 list"
  u_mode :: "u8 list"
  u_uid :: "u8 list"
  u_gid :: "u8 list"
  u_size :: "u8 list"
  u_mtime :: "u8 list"
  u_chksum :: "u8 list"
  u_typeflag :: u8
  u_linkname :: "u8 list"
  u_magic :: "u8 list"
  u_version :: "u8 list"
  u_uname :: "u8 list"
  u_gname :: "u8 list"
  u_devmajor :: "u8 list"
  u_devminor :: "u8 list"
  u_prefix :: "u8 list"
  u_padding :: "u8 list"

definition header_bytes :: "ustar_header \<Rightarrow> u8 list" where
  "header_bytes h = u_name h @ u_mode h @ u_uid h @ u_gid h @ u_size h @ u_mtime h @ u_chksum h @ [u_typeflag h] @ u_linkname h @
     u_magic h @ u_version h @ u_uname h @ u_gname h @ u_devmajor h @ u_devminor h @ u_prefix h @ u_padding h"

text \<open>A field of a header: where it starts and how long it is.\<close>

definition header_field :: "nat \<Rightarrow> nat \<Rightarrow> u8 list \<Rightarrow> u8 list" where
  "header_field ofs n h = take n (drop ofs h)"

definition calculate_chksum :: "u8 list \<Rightarrow> u32" where
  "calculate_chksum h =
     foldl (\<lambda>s i. s + (if 148 \<le> i \<and> i < 148 + 8 then 32 else ucast (h ! i))) 0 [0..<USTAR_HEADER_SIZE]"

definition antisocial :: "u8 list \<Rightarrow> bool" where
  "antisocial f \<longleftrightarrow> take 1 f = [47] \<or> take 2 f = [46, 47] \<or> take 3 f = [46, 46, 47]"

function strip_antisocial_prefixes :: "u8 list \<Rightarrow> u8 list" where
  "strip_antisocial_prefixes f =
     (if antisocial f then strip_antisocial_prefixes (tl (dropWhile (\<lambda>c. c \<noteq> 47) f))
      else if f = [] \<or> f = [46, 46] then [46] else f)"
  by auto

lemma antisocial_slash: "antisocial f \<Longrightarrow> 47 \<in> set f"
  by (cases f; cases "tl f"; cases "tl (tl f)") (auto simp: antisocial_def numeral_2_eq_2 numeral_3_eq_3)

lemma strip_shorter: "antisocial f \<Longrightarrow> length (tl (dropWhile (\<lambda>c. c \<noteq> 47) f)) < length f"
proof -
  assume "antisocial f"
  then have "f \<noteq> []" using antisocial_slash by fastforce
  moreover have "length (dropWhile (\<lambda>c. c \<noteq> 47) f) \<le> length f" by (rule length_dropWhile_le)
  ultimately show ?thesis by (cases f) auto
qed

termination strip_antisocial_prefixes
  by (relation "measure length") (use strip_shorter in auto)

declare strip_antisocial_prefixes.simps [simp del]

text \<open>A string stored in an array that was zeroed: \<^verbatim>\<open>strlcpy\<close> and \<^verbatim>\<open>snprintf\<close> cut it to leave room for a terminator.\<close>

definition text_field :: "nat \<Rightarrow> u8 list \<Rightarrow> u8 list" where
  "text_field n t = (let u = take (n - 1) t in u @ replicate (n - length u) 0)"

definition octal_field :: "nat \<Rightarrow> string \<Rightarrow> u32 \<Rightarrow> u8 list res" where
  "octal_field n f v = rbind (printf 3 0 (lit f) [v] (\<lambda>_. 0) []) (\<lambda>t. Inr (text_field n t))"

text \<open>The header before its checksum is computed.\<close>

definition fill_header :: "u8 list \<Rightarrow> u8 list \<Rightarrow> u8 list \<Rightarrow> u8 list \<Rightarrow> ustar_type \<Rightarrow> ustar_header" where
  "fill_header name mode size_text mtime ty =
    \<lparr>u_name = text_field 100 name, u_mode = mode, u_uid = text_field 8 (lit ''0000000''), u_gid = text_field 8 (lit ''0000000''),
     u_size = size_text, u_mtime = mtime, u_chksum = replicate 8 0, u_typeflag = type_byte ty,
     u_linkname = replicate 100 0, u_magic = text_field 6 (lit ''ustar''), u_version = [48, 48],
     u_uname = text_field 32 (lit ''root''), u_gname = text_field 32 (lit ''root''),
     u_devmajor = replicate 8 0, u_devminor = replicate 8 0, u_prefix = replicate 155 0, u_padding = replicate 12 0\<rparr>"

definition ustar_make_header :: "u8 list \<Rightarrow> ustar_type \<Rightarrow> u32 \<Rightarrow> u8 list option res" where
  "ustar_make_header file_name ty n =
     kassert (ty = USTAR_REGULAR \<or> ty = USTAR_DIRECTORY)
      (let name = strip_antisocial_prefixes file_name
       in if length name > 99 then Inr None
          else rbind (octal_field 8 ''%07o'' (if ty = USTAR_REGULAR then 6 * 64 + 4 * 8 + 4 else 7 * 64 + 5 * 8 + 5)) (\<lambda>mode.
               rbind (octal_field 12 ''%011o'' n) (\<lambda>size_text.
               rbind (octal_field 12 ''%011o'' 1136102400) (\<lambda>mtime.
                 let h = fill_header name mode size_text mtime ty
                 in rbind (octal_field 8 ''%07o'' (calculate_chksum (header_bytes h))) (\<lambda>chksum.
                      Inr (Some (header_bytes (h\<lparr>u_chksum := chksum\<rparr>))))))))"

fun parse_octal_loop :: "u8 list \<Rightarrow> nat \<Rightarrow> nat \<Rightarrow> nat option" where
  "parse_octal_loop [] ofs value = None"
| "parse_octal_loop (c # s) ofs value =
     (if 48 \<le> c \<and> c \<le> 55
      then if value > (2 ^ 32 - 1) div 8 then None else parse_octal_loop s (ofs + 1) (unat c - 48 + value * 8)
      else if c = 32 \<or> c = 0 then (if ofs > 0 then Some value else None) else None)"

definition parse_octal_field :: "u8 list \<Rightarrow> nat option" where
  "parse_octal_field s = parse_octal_loop s 0 0"

fun is_all_zeros :: "u8 list \<Rightarrow> bool" where
  "is_all_zeros [] = True"
| "is_all_zeros (c # cs) = (if c \<noteq> 0 then False else is_all_zeros cs)"

definition ustar_parse_header :: "u8 list \<Rightarrow> string + (u8 list option \<times> ustar_type \<times> nat)" where
  "ustar_parse_header h =
     (if is_all_zeros h then Inr (None, USTAR_EOF, 0)
      else if header_field 257 6 h \<noteq> lit ''ustar'' @ [0] then Inl ''not a ustar archive''
      else if header_field 263 2 h \<noteq> [48, 48] then Inl ''invalid ustar version''
      else case parse_octal_field (header_field 148 8 h) of
        None \<Rightarrow> Inl ''corrupt chksum field''
      | Some chksum \<Rightarrow>
          if chksum \<noteq> unat (calculate_chksum h) then Inl ''checksum mismatch''
          else if h ! 99 \<noteq> 0 \<or> h ! 345 \<noteq> 0 then Inl ''file name too long''
          else if h ! 156 \<noteq> type_byte USTAR_REGULAR \<and> h ! 156 \<noteq> type_byte USTAR_DIRECTORY then Inl ''unimplemented file type''
          else let name = Some (strip_antisocial_prefixes (takeWhile (\<lambda>c. c \<noteq> 0) (header_field 0 100 h)))
               in if h ! 156 = type_byte USTAR_REGULAR
                  then (case parse_octal_field (header_field 124 12 h) of
                          None \<Rightarrow> Inl ''corrupt file size field''
                        | Some n \<Rightarrow> if n > 2 ^ 31 - 1 then Inl ''file too large'' else Inr (name, USTAR_REGULAR, n))
                  else Inr (name, USTAR_DIRECTORY, 0))"

subsection \<open>Octal fields\<close>

definition octal :: "u8 list \<Rightarrow> nat" where
  "octal ds = foldl (\<lambda>v d. v * 8 + (unat d - 48)) 0 ds"

definition octal_digits :: "u8 list \<Rightarrow> bool" where
  "octal_digits ds \<longleftrightarrow> (\<forall>d \<in> set ds. 48 \<le> d \<and> d \<le> 55)"

lemma octal_snoc: "octal (ds @ [d]) = octal ds * 8 + (unat d - 48)"
  by (simp add: octal_def)

lemma base_o_radix [simp]: "radix base_o = 8" "x_char base_o = 0"
  by (simp_all add: base_o_def)

lemma digits_base_o: "k < 8 \<Longrightarrow> digits base_o ! k = of_nat (48 + k)"
  by (auto simp: base_o_def lit_def less_Suc_eq eval_nat_numeral(2,3))

lemma rev_digits_base_o:
  "rev_digits base_o False cnt v = (if v = 0 then [] else of_nat (48 + v mod 8) # rev_digits base_o False (cnt + 1) (v div 8))"
  using digits_base_o [of "v mod 8"] by (subst rev_digits.simps) simp

lemma unat_octal: "k < 8 \<Longrightarrow> unat (of_nat (48 + k) :: u8) = 48 + k"
  by (subst unat_of_nat) (simp add: take_bit_eq_mod)

lemma rev_digits_octal: "octal (rev (rev_digits base_o False cnt v)) = v \<and> octal_digits (rev_digits base_o False cnt v)"
proof (induction v arbitrary: cnt rule: less_induct)
  case (less v)
  show ?case
  proof (cases "v = 0")
    case False
    have u: "unat (of_nat (48 + v mod 8) :: u8) = 48 + v mod 8" by (rule unat_octal) simp
    then have "48 \<le> (of_nat (48 + v mod 8) :: u8) \<and> (of_nat (48 + v mod 8) :: u8) \<le> 55" by (simp add: word_le_nat_alt)
    moreover have "octal (rev (rev_digits base_o False cnt v)) = v div 8 * 8 + v mod 8"
      using less [of "v div 8" "cnt + 1"] False u by (subst rev_digits_base_o) (simp add: octal_snoc)
    ultimately show ?thesis using less [of "v div 8" "cnt + 1"] False by (simp add: rev_digits_base_o [of cnt v] octal_digits_def)
  qed (simp add: rev_digits.simps octal_def octal_digits_def)
qed

lemma rev_digits_length8: "v < 8 ^ n \<Longrightarrow> length (rev_digits base_o False cnt v) \<le> n"
proof (induction n arbitrary: v cnt)
  case (Suc n)
  then have "v div 8 < 8 ^ n" by (simp add: less_mult_imp_div_less)
  then show ?case using Suc.IH by (subst rev_digits_base_o) simp
qed (simp add: rev_digits.simps)

text \<open>The digits of a number padded with zeros to a width.\<close>

definition octal_text :: "nat \<Rightarrow> nat \<Rightarrow> u8 list" where
  "octal_text w v = (let ds = rev (rev_digits base_o False 0 v) in replicate (w - length ds) 48 @ ds)"

lemma octal_zeros: "octal (replicate k 48 @ ds) = octal ds"
  by (induction k) (auto simp: octal_def)

lemma octal_text: "v < 8 ^ w \<Longrightarrow> length (octal_text w v) = w \<and> octal (octal_text w v) = v \<and> octal_digits (octal_text w v)"
  using rev_digits_octal [of 0 v] rev_digits_length8 [of v w 0] by (auto simp: octal_text_def octal_zeros octal_digits_def Let_def)

lemma render_octal:
  assumes "v < 8 ^ w" "0 < w"
  shows "render v False False base_o \<lparr>flags = ZERO, width = int w, precision = - 1, arg_type = INT_ARG\<rparr> = octal_text w v"
proof -
  have l: "length (rev_digits base_o False 0 v) \<le> w" by (rule rev_digits_length8 [OF assms(1)])
  have z: "rev_digits base_o False 0 0 = []" by (simp add: rev_digits.simps)
  show ?thesis
  proof (cases "v = 0")
    case True
    then show ?thesis using assms(2)
      by (simp add: render_def magnitude_def sign_text_def sign_char_def prefix_text_def flag_defs octal_text_def z Let_def
          replicate_append_same [symmetric] flip: replicate_Suc) (cases w; simp add: replicate_append_same)
  next
    case False
    then have "1 - length (rev_digits base_o False 0 v) = 0" by (simp add: rev_digits_base_o [of 0 v])
    then show ?thesis using l
      by (simp add: render_def magnitude_def sign_text_def sign_char_def prefix_text_def flag_defs octal_text_def Let_def nat_diff_distrib')
  qed
qed

lemma parse_conversion_07o: "parse_conversion [48, 55, 111] args = Inr ([111], \<lparr>flags = ZERO, width = int 7, precision = - 1, arg_type = INT_ARG\<rparr>, args)"
  by (simp add: parse_conversion_def parse_amount_def parse_precision_def parse_type_def peek_def isdigit_def flag_defs)

lemma parse_conversion_011o: "parse_conversion [48, 49, 49, 111] args = Inr ([111], \<lparr>flags = ZERO, width = int 11, precision = - 1, arg_type = INT_ARG\<rparr>, args)"
  by (simp add: parse_conversion_def parse_amount_def parse_precision_def parse_type_def peek_def isdigit_def flag_defs)

lemma fold_snoc: "fold (\<lambda>c t. t @ [c]) xs t = t @ xs"
  by (induction xs arbitrary: t) auto

lemma printf_octal:
  assumes f: "parse_conversion f [v] = Inr ([111], \<lparr>flags = ZERO, width = int w, precision = - 1, arg_type = INT_ARG\<rparr>, [v])" "peek f \<noteq> 37"
    and v: "unat v < 8 ^ w" "0 < w"
  shows "printf 3 0 (37 # f) [v] m [] = Inr (octal_text w (unat v))"
proof -
  have "unat v < 2 ^ 64" using unat_bounds(3) [of v] .
  from format_integer_render [OF _ this, of base_o False False "\<lparr>flags = ZERO, width = int w, precision = - 1, arg_type = INT_ARG\<rparr>" "\<lambda>c t. t @ [c]" "[]"]
  have "format_integer (unat v) False False base_o \<lparr>flags = ZERO, width = int w, precision = - 1, arg_type = INT_ARG\<rparr> (\<lambda>c t. t @ [c]) [] = Inr (octal_text w (unat v))"
    unfolding render_octal [OF v] fold_snoc by simp
  then show ?thesis
    using f by (simp add: printf_def numeral_3_eq_3 convert_def unsigned_arg_def peek_def [of "[111]"])
qed

lemma octal_field_eq:
  "unat v < 8 ^ 7 \<Longrightarrow> octal_field 8 ''%07o'' v = Inr (octal_text 7 (unat v) @ [0])"
  "unat v < 8 ^ 11 \<Longrightarrow> octal_field 12 ''%011o'' v = Inr (octal_text 11 (unat v) @ [0])"
proof -
  have f: "lit ''%07o'' = 37 # [48, 55, 111]" "lit ''%011o'' = 37 # [48, 49, 49, 111]" by (simp_all add: lit_def)
  show "octal_field 8 ''%07o'' v = Inr (octal_text 7 (unat v) @ [0])" if "unat v < 8 ^ 7"
    using printf_octal [OF parse_conversion_07o _ that] octal_text [OF that] unfolding octal_field_def f by (simp add: peek_def text_field_def)
  show "octal_field 12 ''%011o'' v = Inr (octal_text 11 (unat v) @ [0])" if "unat v < 8 ^ 11"
    using printf_octal [OF parse_conversion_011o _ that] octal_text [OF that] unfolding octal_field_def f by (simp add: peek_def text_field_def)
qed

lemma foldl_octal_mono: "v \<le> foldl (\<lambda>v d. v * 8 + (unat (d :: u8) - 48)) v ds"
proof (induction ds arbitrary: v)
  case (Cons d ds)
  have "v \<le> v * 8 + (unat d - 48)" by simp
  then show ?case using Cons [of "v * 8 + (unat d - 48)"] by (simp add: le_trans)
qed simp

lemma parse_octal_loop_eq:
  assumes "octal_digits ds" "foldl (\<lambda>v d. v * 8 + (unat d - 48)) v ds < 2 ^ 32" "0 < ofs + length ds"
  shows "parse_octal_loop (ds @ 0 # rest) ofs v = Some (foldl (\<lambda>v d. v * 8 + (unat d - 48)) v ds)"
  using assms
proof (induction ds arbitrary: ofs v)
  case (Cons d ds)
  have "v * 8 + (unat d - 48) < 2 ^ 32" using foldl_octal_mono [of "v * 8 + (unat d - 48)" ds] Cons.prems(2) by simp
  then have "\<not> v > (2 ^ 32 - 1) div 8" by auto
  then show ?case using Cons by (simp add: octal_digits_def add.commute)
qed simp

lemma parse_octal_text: "v < 8 ^ w \<Longrightarrow> v < 2 ^ 32 \<Longrightarrow> 0 < w \<Longrightarrow> parse_octal_field (octal_text w v @ [0]) = Some v"
  using octal_text [of v w] parse_octal_loop_eq [of "octal_text w v" 0 0 "[]"] by (simp add: parse_octal_field_def octal_def)

subsection \<open>Headers\<close>

definition header_ok :: "ustar_header \<Rightarrow> bool" where
  "header_ok h \<longleftrightarrow> length (u_name h) = 100 \<and> length (u_mode h) = 8 \<and> length (u_uid h) = 8 \<and> length (u_gid h) = 8 \<and> length (u_size h) = 12 \<and>
     length (u_mtime h) = 12 \<and> length (u_chksum h) = 8 \<and> length (u_linkname h) = 100 \<and> length (u_magic h) = 6 \<and> length (u_version h) = 2 \<and>
     length (u_uname h) = 32 \<and> length (u_gname h) = 32 \<and> length (u_devmajor h) = 8 \<and> length (u_devminor h) = 8 \<and> length (u_prefix h) = 155 \<and>
     length (u_padding h) = 12"

lemma header_fields:
  assumes "header_ok h"
  shows "header_field 0 100 (header_bytes h) = u_name h" "header_field 124 12 (header_bytes h) = u_size h" "header_field 148 8 (header_bytes h) = u_chksum h"
    "header_field 257 6 (header_bytes h) = u_magic h" "header_field 263 2 (header_bytes h) = u_version h"
    "header_bytes h ! 99 = u_name h ! 99" "header_bytes h ! 156 = u_typeflag h" "header_bytes h ! 345 = u_prefix h ! 0" "length (header_bytes h) = 512"
  using assms by (simp_all add: header_ok_def header_field_def header_bytes_def nth_append)

lemma chksum_bound: "unat (calculate_chksum h) < 8 ^ 7"
proof -
  have "unat (foldl (\<lambda>s i. s + (if 148 \<le> i \<and> i < 148 + 8 then 32 else ucast (h ! i))) (0 :: u32) xs) \<le> 255 * length xs" if "length xs \<le> 512" for xs
    using that
  proof (induction xs rule: rev_induct)
    case (snoc i xs)
    let ?s = "foldl (\<lambda>s i. s + (if 148 \<le> i \<and> i < 148 + 8 then 32 else ucast (h ! i))) (0 :: u32) xs"
    let ?c = "if 148 \<le> i \<and> i < 148 + 8 then 32 else ucast (h ! i) :: u32"
    have b: "unat (h ! i) < 256" by (rule unat_u8_less)
    then have "unat (ucast (h ! i) :: u32) = unat (h ! i)" by (simp add: unsigned_ucast_eq take_bit_nat_eq_self)
    then have c: "unat ?c \<le> 255" using b by auto
    have "unat (?s + ?c) \<le> unat ?s + unat ?c" by (simp add: unat_word_ariths(1))
    then show ?case using snoc c by auto
  qed simp
  from this [of "[0..<512]"] show ?thesis by (simp add: calculate_chksum_def USTAR_HEADER_SIZE_def)
qed

lemma chksum_update:
  assumes "header_ok h" "length c = 8"
  shows "calculate_chksum (header_bytes (h\<lparr>u_chksum := c\<rparr>)) = calculate_chksum (header_bytes h)"
proof -
  have "header_bytes (h\<lparr>u_chksum := c\<rparr>) ! i = header_bytes h ! i" if "\<not> (148 \<le> i \<and> i < 148 + 8)" for i
    using assms that by (auto simp: header_bytes_def header_ok_def nth_append)
  then show ?thesis unfolding calculate_chksum_def by (intro foldl_cong) auto
qed

lemma strip_normal: "\<not> antisocial (strip_antisocial_prefixes f) \<and> strip_antisocial_prefixes f \<noteq> [] \<and> strip_antisocial_prefixes f \<noteq> [46, 46]"
proof (induction f rule: strip_antisocial_prefixes.induct)
  case (1 f)
  then show ?case by (subst (1 2 3) strip_antisocial_prefixes.simps) (auto simp: antisocial_def)
qed

lemma strip_idem: "strip_antisocial_prefixes (strip_antisocial_prefixes f) = strip_antisocial_prefixes f"
  using strip_normal [of f] by (subst strip_antisocial_prefixes.simps) simp

lemma strip_set: "set (strip_antisocial_prefixes f) \<subseteq> insert 46 (set f)"
proof (induction f rule: strip_antisocial_prefixes.induct)
  case (1 f)
  have "set (tl (dropWhile (\<lambda>c. c \<noteq> 47) f)) \<subseteq> set f"
    by (metis list.set_sel(2) set_dropWhileD subsetI tl_Nil)
  then show ?case using 1 by (subst strip_antisocial_prefixes.simps) (auto dest: subsetD)
qed

lemma text_field_length: "0 < n \<Longrightarrow> length (text_field n t) = n"
  by (simp add: text_field_def Let_def)

lemma text_field_takeWhile: "length t < n \<Longrightarrow> 0 \<notin> set t \<Longrightarrow> takeWhile (\<lambda>c. c \<noteq> 0) (text_field n t) = t"
  by (cases "n - length t") (auto simp: text_field_def Let_def takeWhile_append)

text \<open>What is known of a header that was made for a name, a type and a size.\<close>

definition made :: "u8 list \<Rightarrow> ustar_type \<Rightarrow> u32 \<Rightarrow> ustar_header \<Rightarrow> bool" where
  "made name ty n h \<longleftrightarrow> u_name h = text_field 100 name \<and> u_size h = octal_text 11 (unat n) @ [0] \<and> u_typeflag h = type_byte ty \<and>
     u_magic h = lit ''ustar'' @ [0] \<and> u_version h = [48, 48] \<and> u_prefix h = replicate 155 0 \<and>
     u_chksum h = octal_text 7 (unat (calculate_chksum (header_bytes h))) @ [0]"

lemma make_header_made:
  assumes ty: "ty = USTAR_REGULAR \<or> ty = USTAR_DIRECTORY" and n: "unat n < 8 ^ 11" and l: "\<not> length (strip_antisocial_prefixes f) > 99"
  shows "\<exists>h. ustar_make_header f ty n = Inr (Some (header_bytes h)) \<and> header_ok h \<and> made (strip_antisocial_prefixes f) ty n h"
proof -
  let ?mode = "if ty = USTAR_REGULAR then 6 * 64 + 4 * 8 + 4 else 7 * 64 + 5 * 8 + 5 :: u32"
  let ?h = "fill_header (strip_antisocial_prefixes f) (octal_text 7 (unat ?mode) @ [0]) (octal_text 11 (unat n) @ [0]) (octal_text 11 1136102400 @ [0]) ty"
  let ?sum = "calculate_chksum (header_bytes ?h)"
  let ?g = "?h\<lparr>u_chksum := octal_text 7 (unat ?sum) @ [0]\<rparr>"
  have mode: "unat ?mode < 8 ^ 7" by simp
  note len = octal_text [OF mode] octal_text [OF n] octal_text [of 1136102400 11] octal_text [OF chksum_bound [of "header_bytes ?h"]]
  have ok: "header_ok ?h" "header_ok ?g" using len by (simp_all add: header_ok_def fill_header_def text_field_length)
  have "calculate_chksum (header_bytes ?g) = ?sum" by (rule chksum_update [OF ok(1)]) (use len in simp)
  moreover have "text_field 6 (lit ''ustar'') = lit ''ustar'' @ [0]" by (simp add: text_field_def lit_def)
  ultimately have "made (strip_antisocial_prefixes f) ty n ?g" by (simp add: made_def fill_header_def)
  moreover have "ustar_make_header f ty n = Inr (Some (header_bytes ?g))"
    using ty l octal_field_eq(1) [OF mode] octal_field_eq(2) [OF n] octal_field_eq(2) [of 1136102400] octal_field_eq(1) [OF chksum_bound [of "header_bytes ?h"]]
    by (simp add: ustar_make_header_def Let_def)
  ultimately show ?thesis using ok(2) by blast
qed

lemma parse_made:
  assumes h: "header_ok h" "made name ty n h" and ty: "ty = USTAR_REGULAR \<or> ty = USTAR_DIRECTORY" and n: "unat n < 2 ^ 31"
    and name: "0 \<notin> set name" "length name \<le> 99"
  shows "ustar_parse_header (header_bytes h) = Inr (Some (strip_antisocial_prefixes name), ty, if ty = USTAR_REGULAR then unat n else 0)"
proof -
  note f = header_fields [OF h(1)] and m = h(2) [unfolded made_def]
  have zeros: "is_all_zeros xs \<longleftrightarrow> (\<forall>x \<in> set xs. x = 0)" for xs by (induction xs) auto
  have "header_bytes h ! 156 \<in> set (header_bytes h)" by (rule nth_mem) (simp add: f(9))
  moreover have "header_bytes h ! 156 \<noteq> 0" using f(7) m ty by (auto simp: type_byte_def)
  ultimately have nz: "\<not> is_all_zeros (header_bytes h)" unfolding zeros by blast
  have "unat n < 8 ^ 11" using n by simp
  note s = parse_octal_text [OF this] and c = parse_octal_text [OF chksum_bound, of "header_bytes h"]
  have ck: "unat (calculate_chksum (header_bytes h)) < 2 ^ 32" using chksum_bound [of "header_bytes h"] by simp
  have "text_field 100 name ! 99 = 0" using name(2) by (simp add: text_field_def Let_def nth_append)
  moreover have "takeWhile (\<lambda>c. c \<noteq> 0) (text_field 100 name) = name" using name by (intro text_field_takeWhile) auto
  ultimately show ?thesis
    using f m nz s c ck ty n by (auto simp: ustar_parse_header_def Let_def type_byte_def)
qed

lemma make_header_parses:
  assumes ty: "ty = USTAR_REGULAR \<or> ty = USTAR_DIRECTORY" and n: "unat n < 2 ^ 31" and name: "0 \<notin> set file_name"
    and l: "length (strip_antisocial_prefixes file_name) \<le> 99"
  shows "\<exists>h. ustar_make_header file_name ty n = Inr (Some h) \<and> length h = 512 \<and>
    ustar_parse_header h = Inr (Some (strip_antisocial_prefixes file_name), ty, if ty = USTAR_REGULAR then unat n else 0)"
proof -
  let ?stripped = "strip_antisocial_prefixes file_name"
  have n11: "unat n < 8 ^ 11" using n by simp
  obtain h where h: "ustar_make_header file_name ty n = Inr (Some (header_bytes h))" "header_ok h" "made ?stripped ty n h"
    using make_header_made [OF ty n11, of file_name] l by auto
  have nz: "0 \<notin> set ?stripped" using strip_set [of file_name] name by auto
  have "ustar_parse_header (header_bytes h) = Inr (Some (strip_antisocial_prefixes ?stripped), ty, if ty = USTAR_REGULAR then unat n else 0)"
    using parse_made [OF h(2,3) ty n nz] l by simp
  then show ?thesis using h(1,2) header_fields(9) [OF h(2)] strip_idem [of file_name] by auto
qed

text \<open>C35: A header that \<^verbatim>\<open>ustar_make_header\<close> makes is read back by \<^verbatim>\<open>ustar_parse_header\<close>: the checksum matches, and the name (without
  the prefixes that would lead out of the directory of the archive), the type and the size of a regular file are the
  ones given. Making it fails only for a name that is longer than 99 bytes.\<close>

theorem ustar_header_roundtrip:
  assumes ty: "ty = USTAR_REGULAR \<or> ty = USTAR_DIRECTORY" and n: "unat n < 2 ^ 31" and name: "0 \<notin> set file_name"
  defines "stripped \<equiv> strip_antisocial_prefixes file_name"
  shows "if length stripped > 99 then ustar_make_header file_name ty n = Inr None
    else \<exists>h. ustar_make_header file_name ty n = Inr (Some h) \<and> length h = 512 \<and>
      ustar_parse_header h = Inr (Some stripped, ty, if ty = USTAR_REGULAR then unat n else 0)"
  using make_header_parses [OF ty n name] ty by (auto simp: ustar_make_header_def stripped_def not_less)

theorem ustar_header_roundtrip_witness:
  "\<exists>h. ustar_make_header (lit ''/a'') USTAR_REGULAR 5 = Inr (Some h) \<and> ustar_parse_header h = Inr (Some (lit ''a''), USTAR_REGULAR, 5)"
proof -
  have "strip_antisocial_prefixes (lit ''/a'') = lit ''a''"
    by (simp add: strip_antisocial_prefixes.simps antisocial_def lit_def)
  then show ?thesis using ustar_header_roundtrip [of USTAR_REGULAR 5 "lit ''/a''"] by (auto simp: lit_def)
qed

end
