(* ===== verification/Prng.thy ===== *)
theory Prng
  imports Bytes "HOL-Library.Multiset"
begin

text \<open>
  Random numbers (src/pintos2/src/lib/random.c): the state is the array \<^verbatim>\<open>s\<close> of 256 bytes, the two indices and whether they have been
  initialised. Indices and entries are bytes, so their sums wrap around.
\<close>

record prng =
  s_box :: "u8 list"
  s_i :: u8
  s_j :: u8
  inited :: bool

definition swap_byte :: "nat \<Rightarrow> nat \<Rightarrow> u8 list \<Rightarrow> u8 list" where
  "swap_byte a b s = (let t = s ! a in (s[a := s ! b])[b := t])"

fun random_init_loop :: "nat \<Rightarrow> nat \<Rightarrow> u8 \<Rightarrow> u8 list \<Rightarrow> u8 list \<Rightarrow> u8 list" where
  "random_init_loop 0 i j seedp s = s"
| "random_init_loop (Suc n) i j seedp s =
     (let j' = j + (s ! i + seedp ! (i mod 4)) in random_init_loop n (i + 1) j' seedp (swap_byte i (unat j') s))"

definition random_init :: "u32 \<Rightarrow> prng \<Rightarrow> prng" where
  "random_init seed r =
     r\<lparr>s_box := random_init_loop 256 0 0 (le_bytes 4 (unat seed)) (map of_nat [0..<256]), s_i := 0, s_j := 0, inited := True\<rparr>"

definition random_byte :: "prng \<Rightarrow> u8 \<times> prng" where
  "random_byte r =
     (let i = s_i r + 1; j = s_j r + s_box r ! unat i; s = swap_byte (unat i) (unat j) (s_box r); k = s ! unat i + s ! unat j
      in (s ! unat k, r\<lparr>s_box := s, s_i := i, s_j := j\<rparr>))"

fun random_bytes_loop :: "nat \<Rightarrow> prng \<Rightarrow> u8 list \<times> prng" where
  "random_bytes_loop 0 r = ([], r)"
| "random_bytes_loop (Suc n) r = (let (b, r1) = random_byte r; (bs, r2) = random_bytes_loop n r1 in (b # bs, r2))"

definition random_bytes :: "nat \<Rightarrow> prng \<Rightarrow> u8 list \<times> prng" where
  "random_bytes n r = random_bytes_loop n (if \<not> inited r then random_init 0 r else r)"

definition random_ulong :: "prng \<Rightarrow> u32 \<times> prng" where
  "random_ulong r = (let (bs, r1) = random_bytes 4 r in (of_nat (le_val bs), r1))"

text \<open>The array holds every byte exactly once.\<close>

definition all_bytes :: "u8 list" where
  "all_bytes = map of_nat [0..<256]"

definition is_permutation :: "u8 list \<Rightarrow> bool" where
  "is_permutation s \<longleftrightarrow> mset s = mset all_bytes"

lemma permutation_length: "is_permutation s \<Longrightarrow> length s = 256"
  unfolding is_permutation_def by (drule mset_eq_length) (simp add: all_bytes_def)

lemma swap_byte_permutation: "is_permutation s \<Longrightarrow> a < 256 \<Longrightarrow> b < 256 \<Longrightarrow> is_permutation (swap_byte a b s)"
  using permutation_length [of s] mset_swap [of b s a] by (simp add: is_permutation_def swap_byte_def Let_def)

lemma random_init_loop_permutation: "is_permutation s \<Longrightarrow> i + n \<le> 256 \<Longrightarrow> is_permutation (random_init_loop n i j seedp s)"
proof (induction n arbitrary: i j s)
  case (Suc n)
  show ?case unfolding random_init_loop.simps Let_def
    by (rule Suc.IH) (use Suc.prems unat_u8_less in \<open>auto intro!: swap_byte_permutation\<close>)
qed simp

lemma random_init_permutation: "is_permutation (s_box (random_init seed r))"
  using random_init_loop_permutation [of all_bytes 0 256] by (simp add: random_init_def all_bytes_def is_permutation_def)

lemma random_byte_permutation: "is_permutation (s_box r) \<Longrightarrow> is_permutation (s_box (snd (random_byte r)))"
  by (simp add: random_byte_def Let_def swap_byte_permutation unat_u8_less)

lemma random_bytes_loop_permutation:
  "is_permutation (s_box r) \<Longrightarrow> is_permutation (s_box (snd (random_bytes_loop n r))) \<and> length (fst (random_bytes_loop n r)) = n"
proof (induction n arbitrary: r)
  case (Suc n)
  then show ?case using random_byte_permutation [of r] by (simp add: split_beta)
qed simp

lemma random_bytes_loop_add:
  "random_bytes_loop (n + m) r = (let (bs, r1) = random_bytes_loop n r; (cs, r2) = random_bytes_loop m r1 in (bs @ cs, r2))"
  by (induction n arbitrary: r) (auto simp: split_beta Let_def)

text \<open>The generator always has the requested number of bytes, drawn from an array that holds each byte exactly once, so no
  index leaves it: this holds after \<^verbatim>\<open>random_init\<close> with any seed, and every call keeps it, the first call on a generator that was never
  initialised included. Asking for bytes in two calls gives the same stream as asking in one.\<close>

theorem random_stream:
  assumes "inited r \<longrightarrow> is_permutation (s_box r)"
  shows "is_permutation (s_box (random_init seed r)) \<and>
    length (fst (random_bytes n r)) = n \<and> is_permutation (s_box (snd (random_bytes n r))) \<and>
    random_bytes (n + m) r = (let (bs, r1) = random_bytes n r; (cs, r2) = random_bytes m r1 in (bs @ cs, r2))"
proof -
  let ?r = "if \<not> inited r then random_init 0 r else r"
  have p: "is_permutation (s_box ?r)" using assms random_init_permutation by simp
  have i: "inited (snd (random_bytes_loop k q)) = inited q" for k q
    by (induction k arbitrary: q) (auto simp: split_beta random_byte_def Let_def)
  have "inited ?r" by (simp add: random_init_def)
  then have "random_bytes m (snd (random_bytes_loop n ?r)) = random_bytes_loop m (snd (random_bytes_loop n ?r))"
    by (simp add: random_bytes_def i)
  then show ?thesis
    using random_bytes_loop_permutation [OF p, of n] random_init_permutation [of seed r] random_bytes_loop_add [of n m ?r]
    by (simp add: random_bytes_def split_beta Let_def)
qed

theorem random_stream_witness:
  "length (fst (random_bytes 3 \<lparr>s_box = [], s_i = 0, s_j = 0, inited = False\<rparr>)) = 3"
  using random_stream [of "\<lparr>s_box = [], s_i = 0, s_j = 0, inited = False\<rparr>" 0 3 0] by simp

end
