(* ===== verification/Intq.thy ===== *)
theory Intq
  imports Prelude
begin

text \<open>
  Interrupt queues (src/pintos2/src/devices/intq.c): a ring of 64 bytes between interrupt handlers and threads, and the input buffer on
  top of it (devices/input.c).

  \<^item> \<open>off\<close> says whether interrupts are off, \<open>ctx\<close> whether the caller is an interrupt handler, \<open>cur\<close> is the running thread.
  \<^item> A call that finds the queue empty or full puts its thread to sleep in \<open>wait\<close> and tries again when it is woken: \<open>Sleeps\<close> is the state
    in which it blocks. The lock that lets one thread at a time wait is left out. A call that gets through also says which
    thread it wakes.
\<close>

type_synonym waiter = nat

record intq =
  not_full :: waiter
  not_empty :: waiter
  q_buf :: "u8 list"
  q_head :: nat
  q_tail :: nat

datatype 'a attempt = Done 'a "waiter option" intq | Sleeps intq

definition INTQ_BUFSIZE :: nat where "INTQ_BUFSIZE = 64"

definition intq_init :: "intq \<Rightarrow> intq" where
  "intq_init q = q\<lparr>not_full := 0, not_empty := 0, q_head := 0, q_tail := 0\<rparr>"

definition intq_next :: "nat \<Rightarrow> nat" where
  "intq_next pos = (pos + 1) mod INTQ_BUFSIZE"

definition intq_empty :: "bool \<Rightarrow> intq \<Rightarrow> bool res" where
  "intq_empty off q = kassert off (Inr (q_head q = q_tail q))"

definition intq_full :: "bool \<Rightarrow> intq \<Rightarrow> bool res" where
  "intq_full off q = kassert off (Inr (intq_next (q_head q) = q_tail q))"

definition wait_not_empty :: "bool \<Rightarrow> bool \<Rightarrow> waiter \<Rightarrow> intq \<Rightarrow> intq res" where
  "wait_not_empty off ctx cur q =
     kassert (\<not> ctx) (rbind (intq_empty off q) (\<lambda>e. kassert e (Inr (q\<lparr>not_empty := cur\<rparr>))))"

definition wait_not_full :: "bool \<Rightarrow> bool \<Rightarrow> waiter \<Rightarrow> intq \<Rightarrow> intq res" where
  "wait_not_full off ctx cur q =
     kassert (\<not> ctx) (rbind (intq_full off q) (\<lambda>f. kassert f (Inr (q\<lparr>not_full := cur\<rparr>))))"

definition signal_not_empty :: "bool \<Rightarrow> intq \<Rightarrow> (waiter option \<times> intq) res" where
  "signal_not_empty off q =
     rbind (intq_empty off q) (\<lambda>e. kassert (\<not> e)
       (Inr (if not_empty q \<noteq> 0 then (Some (not_empty q), q\<lparr>not_empty := 0\<rparr>) else (None, q))))"

definition signal_not_full :: "bool \<Rightarrow> intq \<Rightarrow> (waiter option \<times> intq) res" where
  "signal_not_full off q =
     rbind (intq_full off q) (\<lambda>f. kassert (\<not> f)
       (Inr (if not_full q \<noteq> 0 then (Some (not_full q), q\<lparr>not_full := 0\<rparr>) else (None, q))))"

definition intq_getc :: "bool \<Rightarrow> bool \<Rightarrow> waiter \<Rightarrow> intq \<Rightarrow> u8 attempt res" where
  "intq_getc off ctx cur q =
     rbind (intq_empty off q) (\<lambda>e.
       if e then kassert (\<not> ctx) (rbind (wait_not_empty off ctx cur q) (\<lambda>q1. Inr (Sleeps q1)))
       else rbind (signal_not_full off (q\<lparr>q_tail := intq_next (q_tail q)\<rparr>)) (\<lambda>(w, q1). Inr (Done (q_buf q ! q_tail q) w q1)))"

definition intq_putc :: "bool \<Rightarrow> bool \<Rightarrow> waiter \<Rightarrow> u8 \<Rightarrow> intq \<Rightarrow> unit attempt res" where
  "intq_putc off ctx cur byte q =
     rbind (intq_full off q) (\<lambda>f.
       if f then kassert (\<not> ctx) (rbind (wait_not_full off ctx cur q) (\<lambda>q1. Inr (Sleeps q1)))
       else rbind (signal_not_empty off (q\<lparr>q_buf := (q_buf q)[q_head q := byte], q_head := intq_next (q_head q)\<rparr>)) (\<lambda>(w, q1). Inr (Done () w q1)))"

text \<open>The input buffer: \<^verbatim>\<open>serial_notify\<close>, which programs the serial port, is left out.\<close>

definition input_putc :: "bool \<Rightarrow> bool \<Rightarrow> waiter \<Rightarrow> u8 \<Rightarrow> intq \<Rightarrow> unit attempt res" where
  "input_putc off ctx cur key q = kassert off (rbind (intq_full off q) (\<lambda>f. kassert (\<not> f) (intq_putc off ctx cur key q)))"

definition input_getc :: "bool \<Rightarrow> waiter \<Rightarrow> intq \<Rightarrow> u8 attempt res" where
  "input_getc ctx cur q = intq_getc True ctx cur q"

definition input_full :: "bool \<Rightarrow> intq \<Rightarrow> bool res" where
  "input_full off q = kassert off (intq_full off q)"

subsection \<open>The queue as a sequence\<close>

definition q_ok :: "intq \<Rightarrow> bool" where
  "q_ok q \<longleftrightarrow> length (q_buf q) = 64 \<and> q_head q < 64 \<and> q_tail q < 64"

definition q_len :: "intq \<Rightarrow> nat" where
  "q_len q = (q_head q + 64 - q_tail q) mod 64"

definition q_contents :: "intq \<Rightarrow> u8 list" where
  "q_contents q = map (\<lambda>k. q_buf q ! ((q_tail q + k) mod 64)) [0..<q_len q]"

lemma q_len_less: "q_len q < 64"
  by (simp add: q_len_def)

lemma q_len_pos: "q_ok q \<Longrightarrow> q_head q = q_tail q \<longleftrightarrow> q_len q = 0"
proof -
  assume q: "q_ok q"
  then show "q_head q = q_tail q \<longleftrightarrow> q_len q = 0" unfolding q_ok_def q_len_def by (cases "q_tail q \<le> q_head q") (auto simp: mod_if)
qed

lemma q_len_full: "q_ok q \<Longrightarrow> intq_next (q_head q) = q_tail q \<longleftrightarrow> q_len q = 63"
  unfolding q_ok_def q_len_def intq_next_def INTQ_BUFSIZE_def
  by (cases "q_tail q \<le> q_head q"; cases "q_head q = 63") (auto simp: mod_if)

lemma q_len_eq: "t < 64 \<Longrightarrow> n < 64 \<Longrightarrow> h = (t + n) mod 64 \<Longrightarrow> (h + 64 - t) mod 64 = (n :: nat)"
  by (cases "t + n < 64") (auto simp: mod_if)

lemma q_head_eq: "q_ok q \<Longrightarrow> q_head q = (q_tail q + q_len q) mod 64"
  unfolding q_ok_def q_len_def by (cases "q_tail q \<le> q_head q") (auto simp: mod_if)

lemma q_get:
  assumes "q_ok q" "q_len q \<noteq> 0"
  shows "q_contents q = q_buf q ! q_tail q # q_contents (q\<lparr>q_tail := intq_next (q_tail q)\<rparr>)"
    "q_len (q\<lparr>q_tail := intq_next (q_tail q)\<rparr>) = q_len q - 1" "q_ok (q\<lparr>q_tail := intq_next (q_tail q)\<rparr>)"
proof -
  let ?q = "q\<lparr>q_tail := intq_next (q_tail q)\<rparr>"
  show ok: "q_ok ?q" using assms(1) by (simp add: q_ok_def intq_next_def INTQ_BUFSIZE_def)
  obtain n where n: "q_len q = Suc n" using assms(2) by (cases "q_len q") auto
  have "q_head q = (intq_next (q_tail q) + n) mod 64"
    using q_head_eq [OF assms(1)] n by (simp add: intq_next_def INTQ_BUFSIZE_def mod_simps)
  then show len: "q_len ?q = q_len q - 1"
    unfolding q_len_def [of ?q] using q_len_eq [of "intq_next (q_tail q)" n "q_head q"] ok q_len_less [of q] n by (simp add: q_ok_def)
  have "(intq_next (q_tail q) + k) mod 64 = (q_tail q + Suc k) mod 64" for k by (simp add: intq_next_def INTQ_BUFSIZE_def mod_simps)
  then show "q_contents q = q_buf q ! q_tail q # q_contents ?q"
    using assms(1) len n by (simp add: q_contents_def q_ok_def map_upt_Suc del: upt_Suc)
qed

lemma q_put:
  assumes "q_ok q" "q_len q \<noteq> 63"
  shows "q_contents (q\<lparr>q_buf := (q_buf q)[q_head q := b], q_head := intq_next (q_head q)\<rparr>) = q_contents q @ [b]"
    "q_len (q\<lparr>q_buf := (q_buf q)[q_head q := b], q_head := intq_next (q_head q)\<rparr>) = q_len q + 1"
    "q_ok (q\<lparr>q_buf := (q_buf q)[q_head q := b], q_head := intq_next (q_head q)\<rparr>)"
proof -
  let ?q = "q\<lparr>q_buf := (q_buf q)[q_head q := b], q_head := intq_next (q_head q)\<rparr>"
  show ok: "q_ok ?q" using assms(1) by (simp add: q_ok_def intq_next_def INTQ_BUFSIZE_def)
  have n: "q_len q + 1 < 64" using assms(2) q_len_less [of q] by simp
  have "intq_next (q_head q) = (q_tail q + (q_len q + 1)) mod 64"
    unfolding q_head_eq [OF assms(1)] by (simp add: intq_next_def INTQ_BUFSIZE_def mod_simps)
  then show len: "q_len ?q = q_len q + 1"
    unfolding q_len_def [of ?q] using q_len_eq [of "q_tail q" "q_len q + 1" "intq_next (q_head q)"] ok n by (simp add: q_ok_def)
  have other: "(q_tail q + k) mod 64 \<noteq> q_head q" if "k < q_len q" for k
  proof
    assume e: "(q_tail q + k) mod 64 = q_head q"
    have t: "q_tail q < 64" using assms(1) by (simp add: q_ok_def)
    show False
      using q_len_eq [OF t _ e [symmetric]] q_len_eq [OF t q_len_less q_head_eq [OF assms(1)]] that q_len_less [of q] by simp
  qed
  have h: "q_head q < length (q_buf q)" using assms(1) by (simp add: q_ok_def)
  have "(q_buf q)[q_head q := b] ! ((q_tail q + k) mod 64) = q_buf q ! ((q_tail q + k) mod 64)" if "k < q_len q" for k
    using other [OF that] by (metis nth_list_update_neq)
  moreover have "(q_buf q)[q_head q := b] ! ((q_tail q + q_len q) mod 64) = b" using h q_head_eq [OF assms(1)] by simp
  ultimately show "q_contents ?q = q_contents q @ [b]" unfolding q_contents_def len by simp
qed

text \<open>A call that gets through changes the waiting threads besides the queue.\<close>

lemma q_waiters [simp]:
  "q_contents (q\<lparr>not_full := w\<rparr>) = q_contents q" "q_contents (q\<lparr>not_empty := w\<rparr>) = q_contents q"
  "q_ok (q\<lparr>not_full := w\<rparr>) = q_ok q" "q_ok (q\<lparr>not_empty := w\<rparr>) = q_ok q"
  by (simp_all add: q_contents_def q_ok_def q_len_def)

text \<open>C36: An interrupt queue is a first-in first-out queue of at most 63 bytes. With interrupts off, \<^verbatim>\<open>intq_putc\<close> on a queue with
  fewer appends its byte and wakes the thread that waits for input, if there is one; \<^verbatim>\<open>intq_getc\<close> on a queue that is not empty
  takes the oldest byte and wakes the thread that waits for room. A thread that finds the queue full, or empty, sleeps and leaves the bytes as they
  are; an interrupt handler that does so, or a caller with interrupts on, fails an assertion.\<close>

theorem intq_is_fifo:
  assumes q: "q_ok q"
  shows "length (q_contents q) \<le> 63 \<and>
    (length (q_contents q) < 63 \<longrightarrow> (\<exists>q'. intq_putc True ctx cur b q = Inr (Done () (if not_empty q \<noteq> 0 then Some (not_empty q) else None) q') \<and>
       q_ok q' \<and> q_contents q' = q_contents q @ [b] \<and> not_empty q' = 0 \<and> not_full q' = not_full q)) \<and>
    (length (q_contents q) = 63 \<longrightarrow> intq_putc True ctx cur b q = (if ctx then Inl Assertion else Inr (Sleeps (q\<lparr>not_full := cur\<rparr>)))) \<and>
    (\<forall>c cs. q_contents q = c # cs \<longrightarrow> (\<exists>q'. intq_getc True ctx cur q = Inr (Done c (if not_full q \<noteq> 0 then Some (not_full q) else None) q') \<and>
       q_ok q' \<and> q_contents q' = cs \<and> not_full q' = 0 \<and> not_empty q' = not_empty q)) \<and>
    (q_contents q = [] \<longrightarrow> intq_getc True ctx cur q = (if ctx then Inl Assertion else Inr (Sleeps (q\<lparr>not_empty := cur\<rparr>)))) \<and>
    intq_getc False ctx cur q = Inl Assertion \<and> intq_putc False ctx cur b q = Inl Assertion"
proof -
  have len: "length (q_contents q) = q_len q" by (simp add: q_contents_def)
  note full = q_len_full [OF q] and empty = q_len_pos [OF q]
  have put: "\<exists>q'. intq_putc True ctx cur b q = Inr (Done () (if not_empty q \<noteq> 0 then Some (not_empty q) else None) q') \<and>
      q_ok q' \<and> q_contents q' = q_contents q @ [b] \<and> not_empty q' = 0 \<and> not_full q' = not_full q" if "q_len q < 63"
  proof -
    let ?q = "q\<lparr>q_buf := (q_buf q)[q_head q := b], q_head := intq_next (q_head q)\<rparr>"
    have "q_len q \<noteq> 63" using that by simp
    note p = q_put [OF q this, of b]
    have "q_head ?q \<noteq> q_tail ?q" using q_len_pos [OF p(3)] p(2) by simp
    then show ?thesis
      using p full that by (simp add: intq_putc_def signal_not_empty_def intq_full_def intq_empty_def)
  qed
  have get: "\<exists>q'. intq_getc True ctx cur q = Inr (Done c (if not_full q \<noteq> 0 then Some (not_full q) else None) q') \<and>
      q_ok q' \<and> q_contents q' = cs \<and> not_full q' = 0 \<and> not_empty q' = not_empty q" if "q_contents q = c # cs" for c cs
  proof -
    let ?q = "q\<lparr>q_tail := intq_next (q_tail q)\<rparr>"
    have l: "q_len q \<noteq> 0" using that len by auto
    note p = q_get [OF q l]
    have "q_len ?q \<noteq> 63" using p(2) q_len_less [of q] by simp
    then have "intq_next (q_head ?q) \<noteq> q_tail ?q" using q_len_full [OF p(3)] by simp
    then show ?thesis
      using p l empty that by (simp add: intq_getc_def signal_not_full_def intq_full_def intq_empty_def)
  qed
  show ?thesis
    using len put get q_len_less [of q] full empty
    by (auto simp: intq_putc_def intq_getc_def intq_full_def intq_empty_def wait_not_full_def wait_not_empty_def)
qed

definition ex_queue :: intq where
  "ex_queue = \<lparr>not_full = 0, not_empty = 7, q_buf = replicate 64 0, q_head = 63, q_tail = 63\<rparr>"

theorem intq_is_fifo_witness:
  "\<exists>q'. intq_putc True True 0 65 ex_queue = Inr (Done () (Some 7) q') \<and> q_contents q' = [65]"
proof -
  have q: "q_ok ex_queue" "q_contents ex_queue = []" "not_empty ex_queue = 7" by (simp_all add: ex_queue_def q_ok_def q_contents_def q_len_def)
  show ?thesis using intq_is_fifo [OF q(1), of True 0 65] q(2,3) by auto
qed

end
