(* ===== verification/Spec2Isabelle.thy ===== *)
theory Spec2Isabelle
  imports Containers Scheduling Storage Paging Userland Processes Library Partition Malloc Ustar Prng Intq
begin

text \<open>
  Pintos, an instructional operating system for the i386, in two trees: \<^verbatim>\<open>src/pintos\<close> holds the
  threads project (priority scheduling with donation, the alarm clock), \<^verbatim>\<open>src/pintos2\<close> the user
  programs and virtual memory projects with the file system. This development models the core
  of the kernel and proves what makes it correct.

  \<^bold>\<open>Shape of the model.\<close> A routine is a function from a state to an outcome: a value and the new
  state, or the reason why it never returns (\<open>Prelude\<close>: a failed \<^verbatim>\<open>ASSERT\<close>, a \<^verbatim>\<open>PANIC\<close>, undefined
  behaviour, a loop out of iterations). Fields of the state stand for what reads of
  uninitialised memory yield, so theorems hold whatever is read.

  \<^bold>\<open>Parts and theories.\<close>
  \<^item> Containers. \<open>Klist\<close> and \<open>Klist_Sort\<close> model \<^verbatim>\<open>lib/kernel/list.c\<close> on a heap of links: each
    operation refines one on sequences, and the in-place merge sort is stable. \<open>Bitmap\<close> models
    \<^verbatim>\<open>lib/kernel/bitmap.c\<close> on words. \<open>Slots\<close> is the contract of the bitmap-backed allocators; the
    bitmap, the page pools and the free map are instances of it.
  \<^item> Pages. \<open>Vaddr\<close> (\<^verbatim>\<open>threads/vaddr.h\<close>, \<^verbatim>\<open>threads/pte.h\<close>) and \<open>Palloc\<close> (\<^verbatim>\<open>threads/palloc.c\<close>).
    \<open>Containers\<close> has the properties of these two groups.
  \<^item> Threads. \<open>Thread\<close> (\<^verbatim>\<open>threads/thread.c\<close>, the interrupt level of \<^verbatim>\<open>threads/interrupt.c\<close>), \<open>Synch\<close>
    (\<^verbatim>\<open>threads/synch.c\<close>) and \<open>Timer\<close> (\<^verbatim>\<open>devices/timer.c\<close>). A routine that sleeps is cut where it
    sleeps; the rest waits on the stack of the thread. \<open>Sched\<close> makes them a machine whose steps
    are calls, returns and timer interrupts, and proves its invariant; \<open>Scheduling\<close> has the
    properties of the reachable states.
  \<^item> Storage. \<open>Block\<close> (\<^verbatim>\<open>devices/block.c\<close>), \<open>Inode\<close> (\<^verbatim>\<open>filesys/inode.c\<close>), \<open>Free_Map\<close>
    (\<^verbatim>\<open>filesys/free-map.c\<close>, \<^verbatim>\<open>filesys/file.c\<close>, bitmap files), \<open>Directory\<close> (\<^verbatim>\<open>filesys/directory.c\<close>) and
    \<open>Filesys\<close> (\<^verbatim>\<open>filesys/filesys.c\<close>); \<open>Bytes\<close> is the layout of structures. \<open>Storage\<close> has the
    properties.

  \<^item> Devices. \<open>Partition\<close> is the registry of \<^verbatim>\<open>devices/block.c\<close> and the partition tables of
    \<^verbatim>\<open>devices/partition.c\<close>: a scan registers what the tables list, and a table that links to
    itself is scanned for ever. \<open>Intq\<close> is \<^verbatim>\<open>devices/intq.c\<close> and \<^verbatim>\<open>devices/input.c\<close>, a first-in
    first-out queue in a ring.
  \<^item> Virtual memory (second tree). \<open>Swap\<close> models \<^verbatim>\<open>vm/swap.c\<close>; \<open>Pagedir\<close> models
    \<^verbatim>\<open>userprog/pagedir.c\<close>, \<^verbatim>\<open>vm/frame.c\<close>, \<^verbatim>\<open>vm/pagetable.c\<close> and the page fault handler of
    \<^verbatim>\<open>userprog/exception.c\<close>, on a memory of words that the processor walks too. \<open>Address_Space\<close> says
    what an address space is and that mapping, clearing and destroying keep it; \<open>Eviction\<close> follows
    a page to the disk and back; \<open>Paging\<close> has the properties, the pages that come back wrong
    among them.
  \<^item> User programs (second tree). \<open>Arguments\<close> is the set-up of the user stack and \<open>Loader\<close> the ELF
    loader, both of \<^verbatim>\<open>userprog/process.c\<close>; \<open>Syscall\<close> is \<^verbatim>\<open>userprog/syscall.c\<close> with every call, on
    the file system of \<open>Filesys\<close>; \<open>Descriptors\<close> is the invariant of open files. \<open>Userland\<close> has the
    properties.
  \<^item> Processes (second tree). \<open>Process\<close> models the round-robin scheduler and the semaphores of
    \<^verbatim>\<open>threads/thread.c\<close> and \<^verbatim>\<open>threads/synch.c\<close> with \<^verbatim>\<open>process_execute\<close>, \<^verbatim>\<open>process_wait\<close> and
    \<^verbatim>\<open>process_exit\<close>, cut where they sleep; \<open>Lifecycle\<close> makes them a transition relation;
    \<open>Processes\<close> shows what a parent learns from \<^verbatim>\<open>wait\<close>, and runs in which the order of the two
    goes wrong.
  \<^item> Memory. \<open>Malloc\<close> models \<^verbatim>\<open>threads/malloc.c\<close>: arenas, descriptors, big blocks, with an
    invariant that every operation keeps.
  \<^item> Library. \<open>Kstring\<close> (\<^verbatim>\<open>lib/string.c\<close>), \<open>Arithmetic\<close> (\<^verbatim>\<open>lib/arithmetic.c\<close>), \<open>Stdlib\<close>
    (\<^verbatim>\<open>lib/stdlib.c\<close>), \<open>Hash\<close> (\<^verbatim>\<open>lib/kernel/hash.c\<close>), \<open>Stdio\<close> (\<^verbatim>\<open>lib/stdio.c\<close>), \<open>Ustar\<close>
    (\<^verbatim>\<open>lib/ustar.c\<close>) and \<open>Prng\<close> (\<^verbatim>\<open>lib/random.c\<close>). \<open>Library\<close> has the properties: division agrees
    with that of the integers, heap sort sorts, a table refines a map, a printed number reads
    back, \<^verbatim>\<open>snprintf\<close> stays in its buffer.

  \<^bold>\<open>Bounds.\<close> List loops take a number of iterations and are proved to end when it exceeds the length
  of the list; \<^verbatim>\<open>priority_donation\<close> is given two more than the number of threads, which is enough
  even for a cycle of locks; the loops over a directory are given one more than its bytes. The
  copying loops of the inodes are total. String loops take a number of iterations that must exceed
  the length of the string; \<^verbatim>\<open>heapify\<close> is given one more than the number of elements, \<^verbatim>\<open>vprintf\<close> as
  many turns as the format is long and a few more for the digits of a number; digits go to a buffer
  of 64 bytes, as in the code. Devices nest at most as often as there are devices, and a scan of
  partitions takes one turn per table, so that a cyclic table is the outcome \<open>Diverged\<close> for every
  number of turns. The loops of \<^verbatim>\<open>malloc\<close> are total. \<^verbatim>\<open>size_t\<close> arithmetic wraps at \<open>2 ^ 32\<close>.

  \<^bold>\<open>Not modelled.\<close> The drivers of disks, keyboard, serial port and screen, the start-up code of
  \<^verbatim>\<open>threads/init.c\<close>, the descriptor tables of \<^verbatim>\<open>userprog/gdt.c\<close> and \<^verbatim>\<open>userprog/tss.c\<close> and the
  console are input and output on hardware; the drivers below \<^verbatim>\<open>block_read\<close> and \<^verbatim>\<open>block_write\<close> are
  taken to store and return sectors. Answers of \<^verbatim>\<open>malloc\<close> and \<^verbatim>\<open>palloc_get_page\<close> are arguments
  where a caller must cope with either. Locks and condition variables of the second tree, the
  system call stubs of user programs and the tests are left out.
\<close>

end
